(* ===== verification/Prelude.thy ===== *)
theory Prelude
  imports Main "HOL-Library.Word"
begin

text \<open>
  What every component shares: the C integer types as words, the byte-addressed
  memory with its little-endian 32-bit accesses, the separation of two address
  ranges, the buddy arithmetic on aligned blocks, and the named collections the
  component theories fill.
\<close>

unbundle bit_operations_syntax

section \<open>C types\<close>

text \<open>\<^verbatim>\<open>include/stdint.h\<close>: fixed-width unsigned types; pointers are 32 bits wide.\<close>

type_synonym u8 = "8 word"
type_synonym u16 = "16 word"
type_synonym u32 = "32 word"

text \<open>The memory as the CPU sees it: one byte at each 32-bit address.\<close>

type_synonym mem = "u32 \<Rightarrow> u8"

named_theorems mem_simps \<open>loads after stores\<close>
named_theorems sep_simps \<open>address ranges that do not overlap\<close>
named_theorems frame_simps \<open>state components an operation leaves alone\<close>

section \<open>Memory accesses\<close>

definition load32 :: "mem \<Rightarrow> u32 \<Rightarrow> u32" where
  "load32 m a =
     (ucast (m a) :: u32)
     OR push_bit 8 (ucast (m (a + 1)))
     OR push_bit 16 (ucast (m (a + 2)))
     OR push_bit 24 (ucast (m (a + 3)))"

definition store32 :: "u32 \<Rightarrow> u32 \<Rightarrow> mem \<Rightarrow> mem" where
  "store32 a v m =
     m(a := ucast v,
       a + 1 := ucast (drop_bit 8 v),
       a + 2 := ucast (drop_bit 16 v),
       a + 3 := ucast (drop_bit 24 v))"

text \<open>Two address ranges, \<open>n\<close> bytes from \<open>a\<close> and \<open>k\<close> bytes from \<open>b\<close>, share no address.\<close>

definition sep :: "u32 \<Rightarrow> nat \<Rightarrow> u32 \<Rightarrow> nat \<Rightarrow> bool" where
  "sep a n b k \<longleftrightarrow> (\<forall>i<n. \<forall>j<k. a + of_nat i \<noteq> b + of_nat j)"

lemma bytes_of_word:
  "(ucast (ucast v :: u8) :: u32)
     OR push_bit 8 (ucast (ucast (drop_bit 8 v) :: u8))
     OR push_bit 16 (ucast (ucast (drop_bit 16 v) :: u8))
     OR push_bit 24 (ucast (ucast (drop_bit 24 v) :: u8)) = (v :: u32)" (is "?l = v")
proof (rule bit_word_eqI)
  fix n assume "n < LENGTH(32)"
  then consider "n < 8" | "8 \<le> n" "n < 16" | "16 \<le> n" "n < 24" | "24 \<le> n" "n < 32"
    by fastforce
  then show "bit ?l n = bit v n"
    by cases (auto simp: bit_simps)
qed

lemma load32_store32_same [mem_simps]: "load32 (store32 a v m) a = v"
  by (simp add: load32_def store32_def bytes_of_word)

lemma sepI:
  "(\<And>i j. i < n \<Longrightarrow> j < k \<Longrightarrow> a + of_nat i \<noteq> b + of_nat j) \<Longrightarrow> sep a n b k"
  by (simp add: sep_def)

lemma sepD: "sep a n b k \<Longrightarrow> i < n \<Longrightarrow> j < k \<Longrightarrow> a + of_nat i \<noteq> b + of_nat j"
  by (simp add: sep_def)

lemma sep_commute: "sep a n b k \<longleftrightarrow> sep b k a n"
  by (metis sep_def)

text \<open>A range inside one of two separate ranges stays separate from the other.\<close>

lemma sep_sub:
  assumes "sep a n b k" and "i + n' \<le> n" and "j + k' \<le> k"
  shows "sep (a + of_nat i) n' (b + of_nat j) k'"
proof (rule sepI)
  fix i' j' assume "i' < n'" "j' < k'"
  with assms have "a + of_nat (i + i') \<noteq> b + of_nat (j + j')"
    by (intro sepD) auto
  then show "a + of_nat i + of_nat i' \<noteq> b + of_nat j + of_nat j'"
    by (simp add: add.assoc)
qed

text \<open>Ranges that do not wrap around are separate when one ends before the other starts.\<close>

lemma unat_add_of_nat:
  fixes a :: u32
  assumes "unat a + i < 2 ^ 32"
  shows "unat (a + of_nat i) = unat a + i"
proof -
  from assms have "unat (of_nat i :: u32) = i"
    by (simp add: unat_of_nat take_bit_nat_eq_self)
  with assms show ?thesis
    by (simp add: unat_word_ariths)
qed

lemma sep_ordered:
  assumes "unat a + n \<le> unat b \<or> unat b + k \<le> unat a"
    and "unat a + n \<le> 2 ^ 32" and "unat b + k \<le> 2 ^ 32"
  shows "sep a n b k"
proof (rule sepI, rule notI)
  fix i j assume ij: "i < n" "j < k" and eq: "a + of_nat i = b + of_nat j"
  from ij assms(2,3) have "unat (a + of_nat i) = unat a + i" "unat (b + of_nat j) = unat b + j"
    by (auto intro: unat_add_of_nat)
  with eq ij assms(1) show False by auto
qed

lemma store32_other:
  assumes "sep a 4 x 1"
  shows "store32 a v m x = m x"
proof -
  from assms have "a \<noteq> x" "a + 1 \<noteq> x" "a + 2 \<noteq> x" "a + 3 \<noteq> x"
    using sepD [OF assms, of 0 0] sepD [OF assms, of 1 0] sepD [OF assms, of 2 0]
      sepD [OF assms, of 3 0] by simp_all
  then show ?thesis by (simp add: store32_def)
qed

lemma load32_cong:
  assumes "\<And>i. i < 4 \<Longrightarrow> m (a + of_nat i) = m' (a + of_nat i)"
  shows "load32 m a = load32 m' a"
  using assms [of 0] assms [of 1] assms [of 2] assms [of 3] by (simp add: load32_def)

lemma load32_store32_other [mem_simps]:
  assumes "sep a 4 b 4"
  shows "load32 (store32 a v m) b = load32 m b"
proof (rule load32_cong)
  fix i :: nat assume "i < 4"
  with assms have "sep (a + of_nat 0) 4 (b + of_nat i) 1"
    by (intro sep_sub) auto
  then show "store32 a v m (b + of_nat i) = m (b + of_nat i)"
    by (simp add: store32_other)
qed

lemma load32_upd_other [mem_simps]:
  assumes "sep a 1 b 4"
  shows "load32 (m(a := v)) b = load32 m b"
proof (rule load32_cong)
  fix i :: nat assume "i < 4"
  with sepD [OF assms, of 0 i] show "(m(a := v)) (b + of_nat i) = m (b + of_nat i)"
    by auto
qed

section \<open>Aligned indices\<close>

text \<open>
  Flipping bit \<open>k\<close> of an index aligned to \<open>2 ^ k\<close>, which is how the page allocator
  finds the buddy of a block.
\<close>

lemma xor_two_power:
  assumes "2 ^ k dvd (i::nat)"
  shows "i XOR 2 ^ k = (if even (i div 2 ^ k) then i + 2 ^ k else i - 2 ^ k)"
proof -
  from assms obtain q where q: "i = 2 ^ k * q" by blast
  have "push_bit k q XOR push_bit k 1 = push_bit k (q XOR Suc 0)"
    by (simp add: push_bit_xor [symmetric])
  then have "i XOR 2 ^ k = (q XOR Suc 0) * 2 ^ k"
    using q by (simp add: push_bit_eq_mult mult.commute)
  then show ?thesis using q
    by (auto simp add: xor_Suc_0_eq algebra_simps diff_mult_distrib)
qed

section \<open>Words as numbers\<close>

lemma unat_less_32: "unat (w::u32) < 2 ^ 32"
  using unsigned_less [of w] by simp

lemma unat_max_32: "unat (- 1 :: u32) = 2 ^ 32 - 1"
  by (simp add: unsigned_minus_1_eq_mask mask_eq_exp_minus_1)

lemma unat_pred: "(w::u32) \<noteq> 0 \<Longrightarrow> unat w = Suc (unat (w - 1))"
proof -
  assume "w \<noteq> 0"
  then have "unat w \<noteq> 0" by (metis unsigned_eq_0_iff)
  moreover have "unat (w - 1) = unat w - 1" using \<open>w \<noteq> 0\<close> by (rule unat_minus_one)
  ultimately show ?thesis by simp
qed

lemma unat_diff_Suc: "x \<noteq> p \<Longrightarrow> unat (x - p) = Suc (unat (x - (p + 1)))" for x p :: u32
  using unat_pred [of "x - p"] by (simp add: algebra_simps)

lemma unat_of_nat_32: "n < 2 ^ 32 \<Longrightarrow> unat (of_nat n :: u32) = n"
  by (simp add: unat_of_nat take_bit_nat_eq_self)

lemma finite_u32: "finite (S :: u32 set)"
  by (rule finite_subset [OF subset_UNIV]) simp

lemma unat_of_nat_le: "unat (of_nat n :: u32) \<le> n"
  by (simp add: unat_of_nat take_bit_nat_less_eq_self)

lemma uint_eq_0: "uint w = 0 \<longleftrightarrow> w = 0"
  by (rule unsigned_eq_0_iff)

lemma uint_pos: "w \<noteq> 0 \<Longrightarrow> 0 < uint w"
  using uint_nonnegative [of w] unsigned_eq_0_iff [of w] by (metis order_le_less)

lemma sint_less_31: "sint (w::u32) < 2 ^ 31" "- (2 ^ 31) \<le> sint (w::u32)"
  using signed_take_bit_int_less_exp [of 31 "uint w"] signed_take_bit_int_greater_eq_minus_exp [of 31 "uint w"]
  by (simp_all add: sint_uint)

lemma sint_small: "0 \<le> sint (w::u32) \<Longrightarrow> sint w = uint w"
  using sint_less_31(1) [of w] by (simp add: uint_sint take_bit_int_eq_self)

lemma unat_uminus_sint: "sint (w::u32) < 0 \<Longrightarrow> unat (- w) = nat (- sint w)"
proof -
  assume "sint w < 0"
  moreover have u: "uint w = sint w + 2 ^ 32" 
  proof -
    have "uint w = sint w mod 2 ^ 32" by (simp add: uint_sint take_bit_eq_mod)
    also have "\<dots> = (sint w + 2 ^ 32) mod 2 ^ 32" by simp
    also have "\<dots> = sint w + 2 ^ 32"
      using \<open>sint w < 0\<close> sint_less_31(2) [of w] by (intro mod_pos_pos_trivial) simp_all
    finally show ?thesis .
  qed
  moreover have "uint (- w) = (- uint w) mod 2 ^ 32" by (simp add: uint_word_ariths)
  moreover have "(- (sint w + 2 ^ 32)) mod 2 ^ 32 = (- sint w) mod 2 ^ 32"
    using mod_add_self2 [of "- (sint w + 2 ^ 32)" "2 ^ 32"] by simp
  moreover have "(- sint w) mod 2 ^ 32 = - sint w"
    using \<open>sint w < 0\<close> sint_less_31(2) [of w] by (intro mod_pos_pos_trivial) simp_all
  ultimately show ?thesis by (simp only: unat_eq_nat_uint)
qed

section \<open>Writing a run of bytes\<close>

primrec write_bytes :: "u32 \<Rightarrow> u8 list \<Rightarrow> mem \<Rightarrow> mem" where
  "write_bytes p [] m = m"
| "write_bytes p (x # xs) m = write_bytes (p + 1) xs (m(p := x))"

lemma write_bytes_at:
  "length xs < 2 ^ 32 \<Longrightarrow>
     write_bytes p xs m x = (if unat (x - p) < length xs then xs ! unat (x - p) else m x)"
proof (induction xs arbitrary: p m)
  case Nil
  then show ?case by simp
next
  case (Cons y ys)
  then have ih: "write_bytes (p + 1) ys (m(p := y)) x =
      (if unat (x - (p + 1)) < length ys then ys ! unat (x - (p + 1)) else (m(p := y)) x)"
    by simp
  show ?case
  proof (cases "x = p")
    case True
    then have "unat (x - (p + 1)) = 2 ^ 32 - 1" using unat_max_32 by simp
    with ih True Cons.prems show ?thesis by (simp del: fun_upd_apply) simp
  next
    case False
    with ih unat_diff_Suc [OF False] show ?thesis by simp
  qed
qed

end
