(* ===== verification/Buddy_Spec.thy ===== *)
theory Buddy_Spec
  imports Prelude "HOL-Library.Disjoint_Sets"
begin

text \<open>
  The abstract buddy system that \<^verbatim>\<open>src/kernel/mm/pmm.c\<close> implements: a set of free
  blocks and a set of live blocks, each an index and an order. One step splits a block
  in hand, one step merges it with its free buddy; the two are inverse to each other.
  The lemmas here never mention page structures or lists.
\<close>

section \<open>Blocks\<close>

text \<open>A block \<open>(i, k)\<close> is the run of \<open>2 ^ k\<close> page frames from frame \<open>i\<close>.\<close>

definition blk :: "nat \<times> nat \<Rightarrow> nat set" where
  "blk b = {fst b ..< fst b + 2 ^ snd b}"

text \<open>The buddy of a block: its index with one bit flipped, as \<^verbatim>\<open>page_idx ^ (1 << order)\<close>.\<close>

definition buddy_of :: "nat \<Rightarrow> nat \<Rightarrow> nat" where
  "buddy_of i k = i XOR 2 ^ k"

lemma aligned_cases:
  assumes "2 ^ k dvd (i::nat)"
  obtains q where "i = 2 ^ Suc k * q" "buddy_of i k = i + 2 ^ k"
  | q where "i = 2 ^ Suc k * q + 2 ^ k" "buddy_of i k = 2 ^ Suc k * q"
proof -
  from assms obtain q where q: "i = 2 ^ k * q" by blast
  show thesis
  proof (cases "even q")
    case True
    then obtain r where "q = 2 * r" by blast
    with q assms show thesis
      by (intro that(1) [of r]) (auto simp: buddy_of_def xor_two_power)
  next
    case False
    then obtain r where "q = 2 * r + 1" by (rule oddE)
    with q assms show thesis
      by (intro that(2) [of r]) (auto simp: buddy_of_def xor_two_power algebra_simps)
  qed
qed

lemma buddy_props:
  assumes "2 ^ k dvd i"
  shows buddy_dvd: "2 ^ k dvd buddy_of i k"
    and buddy_buddy: "buddy_of (buddy_of i k) k = i"
    and buddy_neq: "buddy_of i k \<noteq> i"
    and buddy_disjoint: "blk (i, k) \<inter> blk (buddy_of i k, k) = {}"
    and buddy_union: "blk (min i (buddy_of i k), Suc k) = blk (i, k) \<union> blk (buddy_of i k, k)"
    and buddy_min_dvd: "2 ^ Suc k dvd min i (buddy_of i k)"
proof -
  have "2 ^ k dvd buddy_of i k \<and> buddy_of i k \<noteq> i
      \<and> blk (i, k) \<inter> blk (buddy_of i k, k) = {}
      \<and> blk (min i (buddy_of i k), Suc k) = blk (i, k) \<union> blk (buddy_of i k, k)
      \<and> 2 ^ Suc k dvd min i (buddy_of i k)"
    using assms by (cases rule: aligned_cases) (auto simp: blk_def min_def)
  moreover have "buddy_of (buddy_of i k) k = i"
    by (simp add: buddy_of_def xor.assoc)
  ultimately show "2 ^ k dvd buddy_of i k" "buddy_of (buddy_of i k) k = i"
    "buddy_of i k \<noteq> i" "blk (i, k) \<inter> blk (buddy_of i k, k) = {}"
    "blk (min i (buddy_of i k), Suc k) = blk (i, k) \<union> blk (buddy_of i k, k)"
    "2 ^ Suc k dvd min i (buddy_of i k)"
    by blast+
qed

lemma blk_nested:
  assumes "2 ^ k dvd i" "2 ^ l dvd j" "k \<le> l" "blk (i, k) \<inter> blk (j, l) \<noteq> {}"
  shows "blk (i, k) \<subseteq> blk (j, l)"
proof -
  from assms(1) obtain q where q: "i = 2 ^ k * q" by blast
  from assms(2) obtain r where r: "j = 2 ^ l * r" by blast
  from assms(3) obtain d where d: "l = k + d" using le_Suc_ex by blast
  let ?p = "2 ^ k :: nat"
  have j: "j = ?p * (2 ^ d * r)" and l: "2 ^ l = ?p * 2 ^ d"
    by (simp_all add: r d power_add)
  from assms(4) have "j < i + ?p" "i < j + 2 ^ l"
    by (auto simp: blk_def)
  then have "?p * q < ?p * (2 ^ d * r + 2 ^ d)" "?p * (2 ^ d * r) < ?p * (q + 1)"
    using q j l by (auto simp: algebra_simps)
  then have "q < 2 ^ d * r + 2 ^ d" "2 ^ d * r < q + 1"
    by (simp_all only: nat_mult_less_cancel_disj)
  then have "2 ^ d * r \<le> q" "q + 1 \<le> 2 ^ d * r + 2 ^ d" by auto
  then have "?p * (2 ^ d * r) \<le> ?p * q" "?p * (q + 1) \<le> ?p * (2 ^ d * r + 2 ^ d)"
    by (simp_all only: mult_le_mono2)
  then show ?thesis
    using q j l by (auto simp: blk_def algebra_simps)
qed

section \<open>Well-formed sets of free and live blocks\<close>

text \<open>\<^verbatim>\<open>MAX_ORDER\<close> of \<^verbatim>\<open>include/pmm.h\<close>.\<close>

definition MAX_ORDER :: nat where
  "MAX_ORDER = 12"

definition valid_block :: "nat \<Rightarrow> nat \<times> nat \<Rightarrow> bool" where
  "valid_block T b \<longleftrightarrow> snd b < MAX_ORDER \<and> 2 ^ snd b dvd fst b \<and> fst b + 2 ^ snd b \<le> T"

abbreviation disjoint_blocks :: "(nat \<times> nat) set \<Rightarrow> bool" where
  "disjoint_blocks B \<equiv> disjoint_family_on blk B"

definition buddy_wf :: "nat \<Rightarrow> (nat \<times> nat) set \<Rightarrow> (nat \<times> nat) set \<Rightarrow> bool" where
  "buddy_wf T F A \<longleftrightarrow>
     (\<forall>b\<in>F \<union> A. valid_block T b) \<and> F \<inter> A = {} \<and> disjoint_blocks (F \<union> A)"

text \<open>No two buddies of one order are both free: merging is never left undone.\<close>

definition coalesced :: "(nat \<times> nat) set \<Rightarrow> bool" where
  "coalesced F \<longleftrightarrow>
     (\<forall>(i, k)\<in>F. k < MAX_ORDER - 1 \<longrightarrow> (buddy_of i k, k) \<notin> F)"

definition cover :: "(nat \<times> nat) set \<Rightarrow> nat set" where
  "cover B = (\<Union>b\<in>B. blk b)"

lemma blk_nonempty [simp]: "blk b \<noteq> {}" and blk_start [simp]: "fst b \<in> blk b"
  by (auto simp: blk_def)

lemma cover_insert [simp]: "cover (insert b B) = blk b \<union> cover B"
  and cover_Un [simp]: "cover (B \<union> C) = cover B \<union> cover C"
  and cover_empty [simp]: "cover {} = {}"
  by (auto simp: cover_def)

lemma disjoint_blocks_subset: "disjoint_blocks B \<Longrightarrow> C \<subseteq> B \<Longrightarrow> disjoint_blocks C"
  by (rule disjoint_family_on_mono)

lemma disjoint_blocks_apart:
  assumes "disjoint_blocks B" "x \<in> B" "C \<subseteq> B" "x \<notin> C"
  shows "blk x \<inter> cover C = {}"
proof -
  have "blk x \<inter> blk c = {}" if "c \<in> C" for c
    using assms that by (intro disjoint_family_onD [OF assms(1)]) auto
  then show ?thesis by (auto simp: cover_def)
qed

lemma disjoint_blocks_insert:
  "b \<notin> B \<Longrightarrow>
     disjoint_blocks (insert b B) \<longleftrightarrow> blk b \<inter> cover B = {} \<and> disjoint_blocks B"
  by (simp add: disjoint_family_on_insert cover_def)

lemma notin_apart: "blk b \<inter> cover B = {} \<Longrightarrow> b \<notin> B"
  unfolding cover_def using blk_nonempty [of b] by fastforce

lemma cover_remove:
  assumes "disjoint_blocks B" "b \<in> B"
  shows "cover (B - {b}) = cover B - blk b"
proof -
  have "cover B = blk b \<union> cover (B - {b})"
    using assms(2) by (auto simp: cover_def)
  moreover have "blk b \<inter> cover (B - {b}) = {}"
    by (rule disjoint_blocks_apart [OF assms]) auto
  ultimately show ?thesis by auto
qed

lemma buddy_wf_valid: "buddy_wf T F A \<Longrightarrow> b \<in> F \<union> A \<Longrightarrow> valid_block T b"
  unfolding buddy_wf_def by blast

lemma buddy_wf_disjoint: "buddy_wf T F A \<Longrightarrow> cover F \<inter> cover A = {}"
proof -
  assume wf: "buddy_wf T F A"
  have "blk x \<inter> cover A = {}" if "x \<in> F" for x
    using wf that by (intro disjoint_blocks_apart [of "F \<union> A"]) (auto simp: buddy_wf_def)
  then show ?thesis by (auto simp: cover_def)
qed

text \<open>A block moves between the free and the live set.\<close>

lemma buddy_wf_take:
  "buddy_wf T F A \<Longrightarrow> b \<in> F \<Longrightarrow> buddy_wf T (F - {b}) (insert b A)"
  unfolding buddy_wf_def by (auto intro: disjoint_blocks_subset)

lemma buddy_wf_put:
  "buddy_wf T F (insert b A) \<Longrightarrow> b \<notin> A \<Longrightarrow> buddy_wf T (insert b F) A"
  unfolding buddy_wf_def by auto

section \<open>The split step and the merge step\<close>

lemma valid_buddy_merge:
  assumes "valid_block T (i, k)" "valid_block T (buddy_of i k, k)" "Suc k < MAX_ORDER"
  shows "valid_block T (min i (buddy_of i k), Suc k)"
proof -
  from assms(1) have dvd: "2 ^ k dvd i" by (simp add: valid_block_def)
  have "min i (buddy_of i k) + 2 ^ Suc k \<le> T"
    using assms(1,2) by (cases rule: aligned_cases [OF dvd]) (auto simp: valid_block_def)
  with assms(3) buddy_min_dvd [OF dvd] show ?thesis by (simp add: valid_block_def)
qed

lemma buddy_wf_merge:
  assumes wf: "buddy_wf T F (insert (i, k) A)" and new: "(i, k) \<notin> A"
    and b: "(buddy_of i k, k) \<in> F" and k: "Suc k < MAX_ORDER"
  shows "buddy_wf T (F - {(buddy_of i k, k)}) (insert (min i (buddy_of i k), Suc k) A)"
    and "(min i (buddy_of i k), Suc k) \<notin> A"
    and "cover (F - {(buddy_of i k, k)}) \<union> blk (min i (buddy_of i k), Suc k) = cover F \<union> blk (i, k)"
proof -
  let ?b = "(buddy_of i k, k)" and ?m = "(min i (buddy_of i k), Suc k)"
  from wf b have v: "valid_block T (i, k)" "valid_block T ?b"
    by (auto intro: buddy_wf_valid)
  then have union: "blk ?m = blk (i, k) \<union> blk ?b"
    by (simp add: valid_block_def buddy_union)
  from wf have dj: "disjoint_blocks (F \<union> insert (i, k) A)" and ni: "(i, k) \<notin> F"
    by (auto simp: buddy_wf_def)
  have sep: "blk ?m \<inter> cover ((F - {?b}) \<union> A) = {}"
  proof -
    have "?b \<notin> A" using wf b by (auto simp: buddy_wf_def)
    then have "blk ?b \<inter> cover ((F - {?b}) \<union> A) = {}"
      by (intro disjoint_blocks_apart [OF dj]) (use b in auto)
    moreover have "blk (i, k) \<inter> cover ((F - {?b}) \<union> A) = {}"
      by (intro disjoint_blocks_apart [OF dj]) (use ni new in auto)
    ultimately show ?thesis
      using union by blast
  qed
  then have notin: "?m \<notin> (F - {?b}) \<union> A"
    by (rule notin_apart)
  then show "?m \<notin> A" by blast
  show "buddy_wf T (F - {?b}) (insert ?m A)"
    unfolding buddy_wf_def
  proof (intro conjI)
    show "\<forall>c\<in>F - {?b} \<union> insert ?m A. valid_block T c"
      using wf valid_buddy_merge [OF v k] by (auto simp: buddy_wf_def)
    show "(F - {?b}) \<inter> insert ?m A = {}"
      using wf notin by (auto simp: buddy_wf_def)
    have "disjoint_blocks ((F - {?b}) \<union> A)"
      by (rule disjoint_blocks_subset [OF dj]) blast
    with sep notin show "disjoint_blocks (F - {?b} \<union> insert ?m A)"
      by (simp add: disjoint_blocks_insert del: cover_Un)
  qed
  have "cover F = cover (F - {?b}) \<union> blk ?b"
    using b by (auto simp: cover_def)
  then show "cover (F - {?b}) \<union> blk ?m = cover F \<union> blk (i, k)"
    using union by blast
qed

lemma buddy_of_left:
  assumes "2 ^ Suc k dvd i"
  shows "buddy_of i k = i + 2 ^ k" "buddy_of (i + 2 ^ k) k = i" "2 ^ k dvd i" "2 ^ k dvd i + 2 ^ k"
proof -
  from assms obtain q where q: "i = 2 ^ Suc k * q" by blast
  then have "even (i div 2 ^ k)" by simp
  moreover from assms show dvd: "2 ^ k dvd i" by (auto intro: dvd_mult_right)
  ultimately show eq: "buddy_of i k = i + 2 ^ k" by (simp add: buddy_of_def xor_two_power)
  from dvd show "2 ^ k dvd i + 2 ^ k" by simp
  show "buddy_of (i + 2 ^ k) k = i"
    using buddy_buddy [OF dvd] eq by simp
qed

lemma blk_halves: "blk (i, Suc k) = blk (i, k) \<union> blk (i + 2 ^ k, k)"
  and blk_halves_disjoint: "blk (i, k) \<inter> blk (i + 2 ^ k, k) = {}"
  by (auto simp: blk_def)

lemma buddy_wf_split:
  assumes wf: "buddy_wf T F (insert (i, Suc k) A)" and new: "(i, Suc k) \<notin> A"
  shows "buddy_wf T (insert (i + 2 ^ k, k) F) (insert (i, k) A)"
    and "(i, k) \<notin> A" and "(i + 2 ^ k, k) \<notin> F"
    and "cover (insert (i + 2 ^ k, k) F) \<union> blk (i, k) = cover F \<union> blk (i, Suc k)"
proof -
  let ?m = "(i, Suc k)" and ?l = "(i, k)" and ?r = "(i + 2 ^ k, k)"
  from wf have v: "valid_block T ?m" by (auto intro: buddy_wf_valid)
  then have dvd: "2 ^ Suc k dvd i" by (simp add: valid_block_def)
  from v buddy_of_left [OF dvd] have vl: "valid_block T ?l" "valid_block T ?r"
    by (simp_all add: valid_block_def)
  from wf have dj: "disjoint_blocks (insert ?m (F \<union> A))" and ni: "?m \<notin> F"
    by (auto simp: buddy_wf_def)
  then have sep: "blk ?m \<inter> cover (F \<union> A) = {}" and djFA: "disjoint_blocks (F \<union> A)"
    using new by (simp_all add: disjoint_blocks_insert del: cover_Un)
  then have sep': "blk ?l \<inter> cover (F \<union> A) = {}" "blk ?r \<inter> cover (F \<union> A) = {}"
    by (auto simp: blk_halves simp del: cover_Un)
  then have nl: "?l \<notin> F \<union> A" and nr: "?r \<notin> F \<union> A"
    by (auto dest!: notin_apart simp del: cover_Un)
  then show "?l \<notin> A" "?r \<notin> F" by blast+
  show "buddy_wf T (insert ?r F) (insert ?l A)"
    unfolding buddy_wf_def
  proof (intro conjI)
    show "\<forall>c\<in>insert ?r F \<union> insert ?l A. valid_block T c"
      using wf vl by (auto simp: buddy_wf_def)
    show "insert ?r F \<inter> insert ?l A = {}"
      using wf nl nr by (auto simp: buddy_wf_def)
    have "blk ?l \<inter> cover (insert ?r (F \<union> A)) = {}"
      using sep'(1) blk_halves_disjoint [of i k] by (auto simp del: cover_Un)
    moreover have "disjoint_blocks (insert ?r (F \<union> A))"
      using djFA sep'(2) nr by (simp only: disjoint_blocks_insert [OF nr])
    ultimately have "disjoint_blocks (insert ?l (insert ?r (F \<union> A)))"
      by (simp only: disjoint_blocks_insert [OF notin_apart])
    then show "disjoint_blocks (insert ?r F \<union> insert ?l A)"
      by (simp add: insert_commute)
  qed
  show "cover (insert ?r F) \<union> blk ?l = cover F \<union> blk ?m"
    by (auto simp: blk_halves)
qed

section \<open>The abstract operations\<close>

text \<open>
  Splitting the block in hand down to order \<open>o\<close>, keeping its left half and freeing the
  right half each time; and freeing a block, merging with its buddy while the buddy is free.
\<close>

fun spec_split :: "(nat \<times> nat) set \<Rightarrow> nat \<Rightarrow> nat \<Rightarrow> nat \<Rightarrow> (nat \<times> nat) set" where
  "spec_split F i 0 ord = F"
| "spec_split F i (Suc k) ord =
     (if ord < Suc k then spec_split (insert (i + 2 ^ k, k) F) i k ord else F)"

function spec_free :: "(nat \<times> nat) set \<Rightarrow> nat \<Rightarrow> nat \<Rightarrow> (nat \<times> nat) set" where
  "spec_free F i k =
     (if Suc k < MAX_ORDER \<and> (buddy_of i k, k) \<in> F
      then spec_free (F - {(buddy_of i k, k)}) (min i (buddy_of i k)) (Suc k)
      else insert (i, k) F)"
  by pat_completeness auto
termination
  by (relation "measure (\<lambda>(F, i, k). MAX_ORDER - k)") auto

declare spec_free.simps [simp del]

lemma buddy_wf_aligned:
  assumes "buddy_wf T F A"
  shows "\<forall>(j, l)\<in>F. 2 ^ l dvd j"
proof clarify
  fix j l assume "(j, l) \<in> F"
  with assms have "valid_block T (j, l)" by (auto intro: buddy_wf_valid)
  then show "2 ^ l dvd j" by (simp add: valid_block_def)
qed

lemma coalesced_remove: "coalesced F \<Longrightarrow> coalesced (F - B)"
  by (auto simp: coalesced_def)

lemma coalesced_put:
  assumes "coalesced F" "2 ^ k dvd i" "\<forall>(j, l)\<in>F. 2 ^ l dvd j"
    and "(buddy_of i k, k) \<in> F \<Longrightarrow> \<not> k < MAX_ORDER - 1"
  shows "coalesced (insert (i, k) F)"
  unfolding coalesced_def
proof clarify
  fix j l assume jl: "(j, l) \<in> insert (i, k) F" "l < MAX_ORDER - 1"
    and bud: "(buddy_of j l, l) \<in> insert (i, k) F"
  have "(buddy_of i k, k) \<in> F \<and> k < MAX_ORDER - 1"
  proof (cases "(j, l) = (i, k)")
    case True
    with jl bud buddy_neq [OF assms(2)] show ?thesis by auto
  next
    case False
    with jl assms(1) bud have "buddy_of j l = i" "l = k" "(j, l) \<in> F"
      by (auto simp: coalesced_def)
    with assms(3) jl buddy_buddy [of l j] show ?thesis by auto
  qed
  with assms(4) show False by blast
qed

lemma spec_split_wf:
  assumes "buddy_wf T F (insert (i, k) A)" "(i, k) \<notin> A" "ord \<le> k"
  shows "buddy_wf T (spec_split F i k ord) (insert (i, ord) A) \<and> (i, ord) \<notin> A
    \<and> cover (spec_split F i k ord) \<union> blk (i, ord) = cover F \<union> blk (i, k)
    \<and> (coalesced F \<longrightarrow> coalesced (spec_split F i k ord))"
  using assms
proof (induction k arbitrary: F)
  case 0
  then show ?case by simp
next
  case (Suc k)
  show ?case
  proof (cases "ord < Suc k")
    case False
    with Suc.prems have "ord = Suc k" by simp
    with Suc.prems show ?thesis by simp
  next
    case True
    let ?F = "insert (i + 2 ^ k, k) F"
    note step = buddy_wf_split [OF Suc.prems(1,2)]
    have ih: "buddy_wf T (spec_split ?F i k ord) (insert (i, ord) A) \<and> (i, ord) \<notin> A
      \<and> cover (spec_split ?F i k ord) \<union> blk (i, ord) = cover ?F \<union> blk (i, k)
      \<and> (coalesced ?F \<longrightarrow> coalesced (spec_split ?F i k ord))"
      using step(1,2) True by (intro Suc.IH) auto
    have dvd: "2 ^ Suc k dvd i"
      using buddy_wf_valid [OF Suc.prems(1), of "(i, Suc k)"] by (simp add: valid_block_def)
    have "coalesced F \<longrightarrow> coalesced ?F"
    proof
      assume F: "coalesced F"
      have "(i, k) \<notin> F" using step(1) by (auto simp: buddy_wf_def)
      moreover have "\<forall>(j, l)\<in>F. 2 ^ l dvd j"
        by (rule buddy_wf_aligned [OF Suc.prems(1)])
      ultimately show "coalesced ?F"
        using F buddy_of_left [OF dvd] by (intro coalesced_put) auto
    qed
    with ih step(4) True show ?thesis by (simp only: spec_split.simps if_True) blast
  qed
qed

lemma spec_free_wf:
  assumes "buddy_wf T F (insert (i, k) A)" "(i, k) \<notin> A"
  shows "buddy_wf T (spec_free F i k) A
    \<and> cover (spec_free F i k) = cover F \<union> blk (i, k)
    \<and> (coalesced F \<longrightarrow> coalesced (spec_free F i k))"
  using assms
proof (induction F i k rule: spec_free.induct)
  case (1 F i k)
  show ?case
  proof (cases "Suc k < MAX_ORDER \<and> (buddy_of i k, k) \<in> F")
    case True
    let ?F = "F - {(buddy_of i k, k)}" and ?i = "min i (buddy_of i k)"
    have k: "Suc k < MAX_ORDER" and b: "(buddy_of i k, k) \<in> F" using True by auto
    note step = buddy_wf_merge [OF "1.prems" b k]
    have "buddy_wf T (spec_free ?F ?i (Suc k)) A
      \<and> cover (spec_free ?F ?i (Suc k)) = cover ?F \<union> blk (?i, Suc k)
      \<and> (coalesced ?F \<longrightarrow> coalesced (spec_free ?F ?i (Suc k)))"
      using "1.IH" [OF True step(1,2)] .
    with step(3) True show ?thesis
      by (subst (1 2 3) spec_free.simps) (auto intro: coalesced_remove)
  next
    case False
    have "2 ^ k dvd i" and "\<forall>(j, l)\<in>F. 2 ^ l dvd j"
      using "1.prems"(1) buddy_wf_aligned [OF "1.prems"(1)]
      by (auto simp: buddy_wf_def valid_block_def)
    with False have "coalesced F \<longrightarrow> coalesced (insert (i, k) F)"
      by (auto intro!: coalesced_put)
    with False buddy_wf_put [OF "1.prems"] show ?thesis
      by (subst (1 2 3) spec_free.simps) auto
  qed
qed

lemma spec_free_split:
  assumes "buddy_wf T F (insert (i, k) A)" "(i, k) \<notin> A" "ord \<le> k"
  shows "spec_free (spec_split F i k ord) i ord = spec_free F i k"
  using assms
proof (induction k arbitrary: F)
  case 0
  then show ?case by simp
next
  case (Suc k)
  show ?case
  proof (cases "ord < Suc k")
    case False
    with Suc.prems have "ord = Suc k" by simp
    then show ?thesis by simp
  next
    case True
    let ?F = "insert (i + 2 ^ k, k) F"
    note step = buddy_wf_split [OF Suc.prems(1,2)]
    have v: "valid_block T (i, Suc k)"
      using Suc.prems(1) by (auto intro: buddy_wf_valid)
    then have dvd: "2 ^ Suc k dvd i" and k: "Suc k < MAX_ORDER" by (simp_all add: valid_block_def)
    have "spec_free (spec_split F i (Suc k) ord) i ord = spec_free ?F i k"
      using Suc.IH [OF step(1,2)] True by simp
    also have "\<dots> = spec_free (?F - {(i + 2 ^ k, k)}) i (Suc k)"
      using k buddy_of_left(1) [OF dvd] by (subst spec_free.simps) (simp add: min_def)
    also have "?F - {(i + 2 ^ k, k)} = F" using step(3) by simp
    finally show ?thesis .
  qed
qed

text \<open>Allocating a block and freeing it again gives back the very same set of free blocks.\<close>

lemma spec_alloc_free:
  assumes "buddy_wf T F A" "coalesced F" "(i, k) \<in> F" "ord \<le> k"
  shows "spec_free (spec_split (F - {(i, k)}) i k ord) i ord = F"
proof -
  have wf: "buddy_wf T (F - {(i, k)}) (insert (i, k) A)" and "(i, k) \<notin> A"
    using buddy_wf_take [OF assms(1,3)] assms(1,3) by (auto simp: buddy_wf_def)
  then have "spec_free (spec_split (F - {(i, k)}) i k ord) i ord = spec_free (F - {(i, k)}) i k"
    using assms(4) by (rule spec_free_split)
  also have "\<dots> = F"
    using assms(2,3) by (subst spec_free.simps) (auto simp: coalesced_def MAX_ORDER_def)
  finally show ?thesis .
qed

section \<open>A coalesced free set is determined by the frames it covers\<close>

lemma coalesced_no_cover:
  assumes wf: "buddy_wf T F A" and co: "coalesced F" and "(i, k) \<in> F"
    and big: "2 ^ l dvd j" "l < MAX_ORDER" "k < l" "blk (i, k) \<subseteq> blk (j, l)"
  shows "\<not> blk (j, l) \<subseteq> cover F"
proof
  assume cov: "blk (j, l) \<subseteq> cover F"
  let ?P = "\<lambda>m. \<exists>a. (a, m) \<in> F \<and> blk (a, m) \<subseteq> blk (j, l) \<and> m < l"
  have "?P k" using assms by blast
  then obtain m where m: "?P m" and least: "\<forall>m'<m. \<not> ?P m'"
    using exists_least_iff [of ?P] by auto
  then obtain a where a: "(a, m) \<in> F" "blk (a, m) \<subseteq> blk (j, l)" "m < l" by blast
  let ?b = "buddy_of a m"
  have al: "\<And>x n. (x, n) \<in> F \<Longrightarrow> 2 ^ n dvd x"
    using buddy_wf_aligned [OF wf] by auto
  have adv: "2 ^ m dvd a" using al a(1) .
  have "blk (min a ?b, Suc m) \<inter> blk (j, l) \<noteq> {}"
    using a(2) buddy_union [OF adv] blk_nonempty [of "(a, m)"] by blast
  then have "blk (min a ?b, Suc m) \<subseteq> blk (j, l)"
    using a(3) buddy_min_dvd [OF adv] big(1) by (intro blk_nested) auto
  then have inb: "blk (?b, m) \<subseteq> blk (j, l)" using buddy_union [OF adv] by blast
  then have "?b \<in> cover F" using cov blk_start [of "(?b, m)"] by auto
  then obtain x n where x: "(x, n) \<in> F" "?b \<in> blk (x, n)" by (auto simp: cover_def)
  have dj: "disjoint_blocks F" using wf by (auto simp: buddy_wf_def intro: disjoint_blocks_subset)
  have xa: "blk (x, n) \<inter> blk (a, m) = {}" if "(x, n) \<noteq> (a, m)"
    using disjoint_family_onD [OF dj x(1) a(1) that] .
  have b_in: "?b \<in> blk (?b, m)" using blk_start [of "(?b, m)"] by simp
  have ne: "(x, n) \<noteq> (a, m)"
    using x(2) b_in buddy_disjoint [OF adv] by blast
  have "n = m"
  proof (rule antisym)
    show "n \<le> m"
    proof (rule ccontr)
      assume "\<not> n \<le> m"
      then have "blk (min a ?b, Suc m) \<subseteq> blk (x, n)"
        using x b_in buddy_union [OF adv] buddy_min_dvd [OF adv] al
        by (intro blk_nested) auto
      then have "blk (a, m) \<subseteq> blk (x, n)" using buddy_union [OF adv] by blast
      with xa [OF ne] blk_nonempty [of "(a, m)"] show False by blast
    qed
    show "m \<le> n"
    proof (rule ccontr)
      assume n: "\<not> m \<le> n"
      then have "blk (x, n) \<subseteq> blk (?b, m)"
        using x b_in buddy_dvd [OF adv] al by (intro blk_nested) auto
      with inb a(3) n x(1) have "?P n" by auto
      with least n show False by auto
    qed
  qed
  then have "blk (x, m) \<inter> blk (?b, m) \<noteq> {}" using x(2) b_in by blast
  then have "x \<in> blk (?b, m)" "?b \<in> blk (x, m)"
    using blk_nested [of m x m ?b] blk_nested [of m ?b m x] al x(1) \<open>n = m\<close> buddy_dvd [OF adv]
      blk_start [of "(x, m)"] b_in by auto
  then have "x = ?b" by (auto simp: blk_def)
  with x(1) \<open>n = m\<close> a(1,3) big(2) co show False by (auto simp: coalesced_def)
qed

lemma coalesced_subset:
  assumes "buddy_wf T F A" "coalesced F" "buddy_wf T G B" "coalesced G" "cover F = cover G"
  shows "F \<subseteq> G"
proof clarify
  fix i k assume ik: "(i, k) \<in> F"
  then have "i \<in> cover G" using assms(5) blk_start [of "(i, k)"] by (auto simp: cover_def)
  then obtain j l where jl: "(j, l) \<in> G" "i \<in> blk (j, l)" by (auto simp: cover_def)
  have v: "valid_block T (i, k)" "valid_block T (j, l)"
    using assms ik jl by (auto intro: buddy_wf_valid)
  have meet: "blk (i, k) \<inter> blk (j, l) \<noteq> {}" "blk (j, l) \<inter> blk (i, k) \<noteq> {}"
    using jl(2) blk_start [of "(i, k)"] by auto
  have covs: "blk (j, l) \<subseteq> cover F" "blk (i, k) \<subseteq> cover G"
    using assms(5) ik jl by (auto simp: cover_def)
  have "\<not> k < l"
    using coalesced_no_cover [OF assms(1,2) ik, of l j] v covs meet blk_nested [of k i l j]
    by (auto simp: valid_block_def)
  moreover have "\<not> l < k"
    using coalesced_no_cover [OF assms(3,4) jl(1), of k i] v covs meet blk_nested [of l j k i]
    by (auto simp: valid_block_def)
  ultimately have "l = k" by simp
  then have "blk (i, k) = blk (j, k)"
    using blk_nested [of k i k j] blk_nested [of k j k i] v meet by (auto simp: valid_block_def)
  then have "i = j" by (simp add: blk_def atLeastLessThan_inj)
  with jl \<open>l = k\<close> show "(i, k) \<in> G" by simp
qed

lemma coalesced_canonical:
  assumes "buddy_wf T F A" "coalesced F" "buddy_wf T G B" "coalesced G" "cover F = cover G"
  shows "F = G"
  using coalesced_subset [OF assms] coalesced_subset [OF assms(3,4,1,2)] assms(5) by simp

lemma valid_block_less: "valid_block T (i, k) \<Longrightarrow> i < T"
proof -
  assume "valid_block T (i, k)"
  then have "i + 2 ^ k \<le> T" by (simp add: valid_block_def)
  moreover have "(0::nat) < 2 ^ k" by simp
  ultimately show ?thesis by linarith
qed

lemma aligned_start:
  assumes "2 ^ l dvd j" "2 ^ k dvd b" "l \<le> k" "b \<in> blk (j, l)"
  shows "j = b"
proof -
  have "blk (j, l) \<inter> blk (b, k) \<noteq> {}" using assms(4) blk_start [of "(b, k)"] by auto
  then have "blk (j, l) \<subseteq> blk (b, k)" using assms by (intro blk_nested)
  with blk_start [of "(j, l)"] assms(4) show ?thesis by (auto simp: blk_def)
qed

lemma buddy_covered:
  assumes wf: "buddy_wf T F (insert (i, k) A)"
    and jl: "(j, l) \<in> F \<union> A" "(j, l) \<noteq> (i, k)" and b: "buddy_of i k \<in> blk (j, l)"
  shows "j = buddy_of i k \<and> l \<le> k"
proof -
  have v: "valid_block T (i, k)" "valid_block T (j, l)"
    using wf jl by (auto intro: buddy_wf_valid)
  then have dvd: "2 ^ k dvd i" by (simp add: valid_block_def)
  have "l \<le> k"
  proof (rule ccontr)
    assume "\<not> l \<le> k"
    moreover have "blk (min i (buddy_of i k), Suc k) \<inter> blk (j, l) \<noteq> {}"
      using b buddy_union [OF dvd] blk_start [of "(buddy_of i k, k)"] by auto
    ultimately have "blk (min i (buddy_of i k), Suc k) \<subseteq> blk (j, l)"
      using v buddy_min_dvd [OF dvd] by (intro blk_nested) (auto simp: valid_block_def)
    then have "blk (i, k) \<inter> blk (j, l) \<noteq> {}"
      using buddy_union [OF dvd] blk_nonempty [of "(i, k)"] by blast
    moreover have "disjoint_blocks (F \<union> insert (i, k) A)" using wf by (simp add: buddy_wf_def)
    ultimately show False
      using jl disjoint_family_onD [of blk "F \<union> insert (i, k) A" "(i, k)" "(j, l)"] by auto
  qed
  with aligned_start [OF _ buddy_dvd [OF dvd] _ b] v show ?thesis
    by (simp add: valid_block_def)
qed

end
