(* ===== verification/Pmm.thy ===== *)
theory Pmm
  imports Buddy_Spec
begin

text \<open>
  \<^verbatim>\<open>src/kernel/mm/pmm.c\<close>: the physical page allocator. The page structures and the
  twelve doubly linked free lists are modelled pointer by pointer; the lemmas show that
  the lists always represent a set of free blocks and that each operation is the
  operation of the same name in \<^theory_text>\<open>Buddy_Spec\<close> on that set. Page indices, block sizes and
  orders are natural numbers: an index is below \<open>2 ^ 20\<close> and an order below 12, so
  their 32-bit arithmetic never wraps; addresses stay 32-bit words.
\<close>

section \<open>Data\<close>

text \<open>\<^verbatim>\<open>PAGE_SIZE\<close> of \<^verbatim>\<open>include/pmm.h\<close>.\<close>

definition PAGE_SIZE :: u32 where
  "PAGE_SIZE = 4096"

text \<open>
  \<^verbatim>\<open>struct page\<close>. A \<^verbatim>\<open>page_t *\<close> always points into the array \<^verbatim>\<open>pages\<close>, so it is
  \<^term>\<open>None\<close> (NULL) or the index of the entry it points to: \<^verbatim>\<open>page - pages\<close> and
  \<^verbatim>\<open>&pages[i]\<close> are then the identity.
\<close>

record page_t =
  pg_order :: u8
  pg_flags :: u8
  pg_next :: "nat option"
  pg_prev :: "nat option"

text \<open>
  The file's static variables. The array is a total function: C does not check an index,
  and that the allocator stays below \<^verbatim>\<open>total_pages\<close> is proved, not built in.
\<close>

record pmm_state =
  pages_base :: u32
  pages :: "nat \<Rightarrow> page_t"
  total_pages :: nat
  free_lists :: "nat \<Rightarrow> nat option"

section \<open>The doubly linked lists\<close>

text \<open>
  \<^verbatim>\<open>list_add(&free_lists[ord], node)\<close> and \<^verbatim>\<open>list_remove(&free_lists[ord], node)\<close>,
  assignment by assignment.
\<close>

definition set_page :: "nat \<Rightarrow> (page_t \<Rightarrow> page_t) \<Rightarrow> pmm_state \<Rightarrow> pmm_state" where
  "set_page i f s = s\<lparr>pages := (pages s)(i := f (pages s i))\<rparr>"

definition set_head :: "nat \<Rightarrow> nat option \<Rightarrow> pmm_state \<Rightarrow> pmm_state" where
  "set_head ord h s = s\<lparr>free_lists := (free_lists s)(ord := h)\<rparr>"

definition list_add :: "nat \<Rightarrow> nat \<Rightarrow> pmm_state \<Rightarrow> pmm_state" where
  "list_add ord node s =
     (let head = free_lists s ord;
          s1 = set_page node (pg_next_update (\<lambda>_. head)) s;
          s2 = set_page node (pg_prev_update (\<lambda>_. None)) s1;
          s3 = (case head of None \<Rightarrow> s2
                | Some h \<Rightarrow> set_page h (pg_prev_update (\<lambda>_. Some node)) s2)
      in set_head ord (Some node) s3)"

definition list_remove :: "nat \<Rightarrow> nat \<Rightarrow> pmm_state \<Rightarrow> pmm_state" where
  "list_remove ord node s =
     (let s1 = (case pg_prev (pages s node) of
                  Some q \<Rightarrow> set_page q (pg_next_update (\<lambda>_. pg_next (pages s node))) s
                | None \<Rightarrow> set_head ord (pg_next (pages s node)) s)
      in case pg_next (pages s1 node) of
           Some z \<Rightarrow> set_page z (pg_prev_update (\<lambda>_. pg_prev (pages s1 node))) s1
         | None \<Rightarrow> s1)"

section \<open>The allocator\<close>

definition pmm_init :: "u32 \<Rightarrow> u32 \<Rightarrow> pmm_state \<Rightarrow> pmm_state" where
  "pmm_init mem_size metadata_start s =
     (let total = unat (mem_size div PAGE_SIZE);
          s1 = s\<lparr>total_pages := total, pages_base := metadata_start\<rparr>;
          s2 = fold (\<lambda>i. set_page i (\<lambda>p. p\<lparr>pg_order := 0, pg_flags := 1,
                                        pg_next := None, pg_prev := None\<rparr>)) [0..<total] s1
      in fold (\<lambda>i. set_head i None) [0..<MAX_ORDER] s2)"

text \<open>The inner loop of \<^verbatim>\<open>pmm_add_region\<close>: the largest aligned block at \<open>i\<close> below \<open>end_page\<close>.\<close>

function region_order :: "nat \<Rightarrow> nat \<Rightarrow> nat \<Rightarrow> nat" where
  "region_order i end_page ord =
     (if ord < MAX_ORDER - 1 \<and>
         \<not> (i + 2 ^ (ord + 1) > end_page \<or> i mod 2 ^ (ord + 1) \<noteq> 0)
      then region_order i end_page (ord + 1) else ord)"
  by pat_completeness auto
termination
  by (relation "measure (\<lambda>(i, e, ord). MAX_ORDER - ord)") auto

declare region_order.simps [simp del]

function add_region_loop :: "nat \<Rightarrow> nat \<Rightarrow> pmm_state \<Rightarrow> pmm_state" where
  "add_region_loop i end_page s =
     (if i < end_page then
        let ord = region_order i end_page 0;
            s1 = set_page i (\<lambda>p. p\<lparr>pg_order := of_nat ord, pg_flags := 0\<rparr>) s
        in add_region_loop (i + 2 ^ ord) end_page (list_add ord i s1)
      else s)"
  by pat_completeness auto
termination
  by (relation "measure (\<lambda>(i, e, s). e - i)") (auto intro: diff_less_mono2)

declare add_region_loop.simps [simp del]

definition pmm_add_region :: "u32 \<Rightarrow> u32 \<Rightarrow> pmm_state \<Rightarrow> pmm_state" where
  "pmm_add_region start len s =
     add_region_loop (unat (start div PAGE_SIZE)) (unat ((start + len) div PAGE_SIZE)) s"

text \<open>The splitting loop of \<^verbatim>\<open>pmm_alloc_pages\<close>, from order \<open>i\<close> down to \<open>ord\<close>.\<close>

fun split_loop :: "nat \<Rightarrow> nat \<Rightarrow> nat \<Rightarrow> pmm_state \<Rightarrow> pmm_state" where
  "split_loop 0 ord page s = s"
| "split_loop (Suc i) ord page s =
     (if Suc i > ord then
        let buddy = page + 2 ^ i;
            s1 = set_page buddy (\<lambda>p. p\<lparr>pg_order := of_nat i, pg_flags := 0\<rparr>) s
        in split_loop i ord page (list_add i buddy s1)
      else s)"

function alloc_from :: "nat \<Rightarrow> nat \<Rightarrow> pmm_state \<Rightarrow> u32 \<times> pmm_state" where
  "alloc_from i ord s =
     (if i < MAX_ORDER then
        (case free_lists s i of
           Some page \<Rightarrow>
             (let s1 = split_loop i ord page (list_remove i page s);
                  s2 = set_page page (\<lambda>p. p\<lparr>pg_flags := 1, pg_order := of_nat ord\<rparr>) s1
              in (of_nat page * PAGE_SIZE, s2))
         | None \<Rightarrow> alloc_from (i + 1) ord s)
      else (0, s))"
  by pat_completeness auto
termination
  by (relation "measure (\<lambda>(i, ord, s). MAX_ORDER - i)") auto

declare alloc_from.simps [simp del]

definition pmm_alloc_pages :: "nat \<Rightarrow> pmm_state \<Rightarrow> u32 \<times> pmm_state" where
  "pmm_alloc_pages ord s = alloc_from ord ord s"

text \<open>The merging loop of \<^verbatim>\<open>pmm_free_pages\<close>: the page index, the order and the state it ends with.\<close>

function merge_loop :: "nat \<Rightarrow> nat \<Rightarrow> pmm_state \<Rightarrow> nat \<times> nat \<times> pmm_state" where
  "merge_loop page_idx ord s =
     (if ord < MAX_ORDER - 1 then
        let b = buddy_of page_idx ord in
        if b \<ge> total_pages s \<or> pg_flags (pages s b) = 1 \<or> unat (pg_order (pages s b)) \<noteq> ord
        then (page_idx, ord, s)
        else merge_loop (if b < page_idx then b else page_idx) (ord + 1) (list_remove ord b s)
      else (page_idx, ord, s))"
  by pat_completeness auto
termination
  by (relation "measure (\<lambda>(i, ord, s). MAX_ORDER - ord)") auto

declare merge_loop.simps [simp del]

definition pmm_free_pages :: "u32 \<Rightarrow> nat \<Rightarrow> pmm_state \<Rightarrow> pmm_state" where
  "pmm_free_pages ptr ord s =
     (let (page, ord', s1) = merge_loop (unat (ptr div PAGE_SIZE)) ord s;
          s2 = set_page page (\<lambda>p. p\<lparr>pg_order := of_nat ord', pg_flags := 0\<rparr>) s1
      in list_add ord' page s2)"

definition pmm_alloc_block :: "pmm_state \<Rightarrow> u32 \<times> pmm_state" where
  "pmm_alloc_block s = pmm_alloc_pages 0 s"

definition pmm_free_block :: "u32 \<Rightarrow> pmm_state \<Rightarrow> pmm_state" where
  "pmm_free_block ptr s = pmm_free_pages ptr 0 s"

declare set_page_def [simp] set_head_def [simp]

section \<open>Linked lists in the page array\<close>

primrec dlist :: "(nat \<Rightarrow> page_t) \<Rightarrow> nat option \<Rightarrow> nat option \<Rightarrow> nat list \<Rightarrow> bool" where
  "dlist pg p h [] \<longleftrightarrow> h = None"
| "dlist pg p h (x # xs) \<longleftrightarrow>
     h = Some x \<and> pg_prev (pg x) = p \<and> dlist pg (Some x) (pg_next (pg x)) xs"

lemma dlist_cong:
  assumes "\<And>x. x \<in> set xs \<Longrightarrow> pg_next (pg' x) = pg_next (pg x) \<and> pg_prev (pg' x) = pg_prev (pg x)"
  shows "dlist pg' p h xs = dlist pg p h xs"
  using assms by (induction xs arbitrary: p h) auto

text \<open>The previous-pointer of the first node is the only one that depends on what comes before.\<close>

lemma dlist_reparent:
  assumes "dlist pg p (Some z) xs" "distinct xs"
    and "\<And>x. x \<in> set xs \<Longrightarrow> pg_next (pg' x) = pg_next (pg x)"
    and "\<And>x. x \<in> set xs \<Longrightarrow> x \<noteq> z \<Longrightarrow> pg_prev (pg' x) = pg_prev (pg x)"
    and "pg_prev (pg' z) = q"
  shows "dlist pg' q (Some z) xs"
proof (cases xs)
  case (Cons y ys)
  with assms have "z = y" "dlist pg (Some y) (pg_next (pg y)) ys" by auto
  moreover have "dlist pg' (Some y) (pg_next (pg y)) ys = dlist pg (Some y) (pg_next (pg y)) ys"
    by (rule dlist_cong) (use assms Cons \<open>z = y\<close> in auto)
  ultimately show ?thesis using assms Cons by simp
qed (use assms in simp)

lemma dlist_links:
  "dlist pg p h xs \<Longrightarrow> distinct xs \<Longrightarrow> x \<in> set xs \<Longrightarrow>
     (pg_prev (pg x) = p \<or> (\<exists>q\<in>set xs. q \<noteq> x \<and> pg_prev (pg x) = Some q)) \<and>
     (pg_next (pg x) = None \<or> (\<exists>z\<in>set xs. z \<noteq> x \<and> pg_next (pg x) = Some z))"
proof (induction xs arbitrary: p h)
  case Nil
  then show ?case by simp
next
  case (Cons y ys)
  show ?case
  proof (cases "x = y")
    case True
    with Cons.prems show ?thesis by (cases ys) auto
  next
    case False
    with Cons.prems Cons.IH [of "Some y" "pg_next (pg y)"] show ?thesis by auto
  qed
qed

text \<open>Unlinking a node that is not the first: what \<^const>\<open>list_remove\<close> does to the pages.\<close>

definition unlinked :: "(nat \<Rightarrow> page_t) \<Rightarrow> nat \<Rightarrow> (nat \<Rightarrow> page_t) \<Rightarrow> bool" where
  "unlinked pg i pg' \<longleftrightarrow>
     (\<forall>x. pg_next (pg' x) = (if pg_prev (pg i) = Some x then pg_next (pg i) else pg_next (pg x)) \<and>
          pg_prev (pg' x) = (if pg_next (pg i) = Some x then pg_prev (pg i) else pg_prev (pg x)))"

lemma dlist_unlink:
  assumes "unlinked pg i pg'"
  shows "dlist pg p h (x # xs) \<Longrightarrow> distinct (x # xs) \<Longrightarrow> i \<in> set xs \<Longrightarrow>
     dlist pg' p h (x # remove1 i xs)"
proof (induction xs arbitrary: p h x)
  case Nil
  then show ?case by simp
next
  case (Cons y ys)
  from Cons.prems have links: "pg_next (pg x) = Some y" "pg_prev (pg y) = Some x" "pg_prev (pg x) = p"
    "h = Some x" and rest: "dlist pg (Some y) (pg_next (pg y)) ys" and dist: "x \<noteq> y" "x \<notin> set ys"
    "y \<notin> set ys" "distinct ys"
    by auto
  show ?case
  proof (cases "i = y")
    case True
    have x: "pg_next (pg' x) = pg_next (pg y)" "pg_prev (pg' x) = p"
      using assms links True rest dist by (cases ys; auto simp: unlinked_def)+
    have "dlist pg' (Some x) (pg_next (pg y)) ys"
    proof (cases ys)
      case Nil
      with rest show ?thesis by simp
    next
      case (Cons z zs)
      with rest have z: "pg_next (pg y) = Some z" by simp
      show ?thesis
        unfolding z
      proof (rule dlist_reparent)
        show "dlist pg (Some y) (Some z) ys" using rest z by simp
        show "distinct ys" using dist by simp
        show "\<And>w. w \<in> set ys \<Longrightarrow> pg_next (pg' w) = pg_next (pg w)"
          using assms True links dist by (auto simp: unlinked_def)
        show "\<And>w. w \<in> set ys \<Longrightarrow> w \<noteq> z \<Longrightarrow> pg_prev (pg' w) = pg_prev (pg w)"
          using assms True z by (auto simp: unlinked_def)
        show "pg_prev (pg' z) = Some x"
          using assms True z links by (simp add: unlinked_def)
      qed
    qed
    with True x links show ?thesis by simp
  next
    case False
    with Cons.prems have i: "i \<in> set ys" by simp
    have "dlist pg (Some x) (Some y) (y # ys)" using links rest by simp
    then have ih: "dlist pg' (Some x) (Some y) (y # remove1 i ys)"
      using dist i by (intro Cons.IH) auto
    have "pg_prev (pg i) \<noteq> Some x \<and> pg_next (pg i) \<noteq> Some x"
      using dlist_links [OF rest _ i] dist by auto
    then have "pg_next (pg' x) = Some y" "pg_prev (pg' x) = p"
      using assms links by (auto simp: unlinked_def)
    with ih False links show ?thesis by simp
  qed
qed

section \<open>The representation of the free lists\<close>

definition free_rep :: "pmm_state \<Rightarrow> (nat \<Rightarrow> nat list) \<Rightarrow> bool" where
  "free_rep s fl \<longleftrightarrow>
     (\<forall>k<MAX_ORDER. dlist (pages s) None (free_lists s k) (fl k) \<and> distinct (fl k) \<and>
        (\<forall>i\<in>set (fl k). pg_flags (pages s i) = 0 \<and> unat (pg_order (pages s i)) = k))"

definition blocks_of :: "(nat \<Rightarrow> nat list) \<Rightarrow> (nat \<times> nat) set" where
  "blocks_of fl = {(i, k). k < MAX_ORDER \<and> i \<in> set (fl k)}"

text \<open>The list operations leave the order and the flags of every page alone.\<close>

lemma list_add_fields [frame_simps]:
  "pg_flags (pages (list_add ord node s) i) = pg_flags (pages s i)"
  "pg_order (pages (list_add ord node s) i) = pg_order (pages s i)"
  "total_pages (list_add ord node s) = total_pages s"
  by (auto simp: list_add_def Let_def split: option.splits)

lemma list_remove_fields [frame_simps]:
  "pg_flags (pages (list_remove ord node s) i) = pg_flags (pages s i)"
  "pg_order (pages (list_remove ord node s) i) = pg_order (pages s i)"
  "total_pages (list_remove ord node s) = total_pages s"
  by (auto simp: list_remove_def Let_def split: option.splits)

lemma set_page_fields [frame_simps]:
  "total_pages (set_page i f s) = total_pages s" "free_lists (set_page i f s) = free_lists s"
  by simp_all

lemma free_rep_set_page:
  assumes "free_rep s fl" "\<And>k. k < MAX_ORDER \<Longrightarrow> i \<notin> set (fl k)"
  shows "free_rep (set_page i f s) fl"
  unfolding free_rep_def
proof (intro allI impI)
  fix k assume k: "k < MAX_ORDER"
  have "dlist (pages (set_page i f s)) None (free_lists s k) (fl k)
      = dlist (pages s) None (free_lists s k) (fl k)"
    by (rule dlist_cong) (use assms(2) [OF k] in auto)
  with assms k show "dlist (pages (set_page i f s)) None (free_lists (set_page i f s) k) (fl k) \<and>
      distinct (fl k) \<and>
      (\<forall>x\<in>set (fl k). pg_flags (pages (set_page i f s) x) = 0 \<and>
         unat (pg_order (pages (set_page i f s) x)) = k)"
    by (auto simp: free_rep_def)
qed

lemma free_repD:
  assumes "free_rep s fl" "k < MAX_ORDER"
  shows "dlist (pages s) None (free_lists s k) (fl k)" "distinct (fl k)"
    and "i \<in> set (fl k) \<Longrightarrow> pg_flags (pages s i) = 0"
    and "i \<in> set (fl k) \<Longrightarrow> unat (pg_order (pages s i)) = k"
  using assms by (auto simp: free_rep_def)

lemma free_rep_orders:
  assumes "free_rep s fl" "k < MAX_ORDER" "l < MAX_ORDER" "i \<in> set (fl k)" "i \<in> set (fl l)"
  shows "k = l"
  using free_repD(4) [OF assms(1,2,4)] free_repD(4) [OF assms(1,3,5)] by simp

lemma free_rep_list_add:
  assumes rep: "free_rep s fl" and k: "k < MAX_ORDER"
    and new: "\<And>l. l < MAX_ORDER \<Longrightarrow> i \<notin> set (fl l)"
    and i: "pg_flags (pages s i) = 0" "unat (pg_order (pages s i)) = k"
  shows "free_rep (list_add k i s) (fl(k := i # fl k))"
  unfolding free_rep_def
proof (intro allI impI)
  fix l assume l: "l < MAX_ORDER"
  let ?s = "list_add k i s"
  have dl: "dlist (pages s) None (free_lists s l) (fl l)" "distinct (fl l)"
    using rep l by (auto simp: free_rep_def)
  have dk: "dlist (pages s) None (free_lists s k) (fl k)" "distinct (fl k)"
    using rep k by (auto simp: free_rep_def)
  have "dlist (pages ?s) None (free_lists ?s l) ((fl(k := i # fl k)) l)"
  proof (cases "l = k")
    case True
    have "dlist (pages ?s) (Some i) (free_lists s k) (fl k)"
    proof (cases "fl k")
      case Nil
      with dk show ?thesis by simp
    next
      case (Cons z zs)
      with dk have h: "free_lists s k = Some z" by simp
      then have zi: "z \<noteq> i" using new [OF k] Cons by auto
      show ?thesis
        unfolding h
      proof (rule dlist_reparent [OF dk(1) [unfolded h] dk(2)])
        show "\<And>x. x \<in> set (fl k) \<Longrightarrow> pg_next (pages ?s x) = pg_next (pages s x)"
          "\<And>x. x \<in> set (fl k) \<Longrightarrow> x \<noteq> z \<Longrightarrow> pg_prev (pages ?s x) = pg_prev (pages s x)"
          "pg_prev (pages ?s z) = Some i"
          using new [OF k] h by (auto simp: list_add_def Let_def)
      qed
    qed
    moreover have "pg_next (pages ?s i) = free_lists s k" "pg_prev (pages ?s i) = None"
      "free_lists ?s k = Some i"
      using new [OF k] dk(1)
      by (cases "fl k"; auto simp: list_add_def Let_def split: option.splits)+
    ultimately show ?thesis using True by simp
  next
    case False
    have "dlist (pages ?s) None (free_lists s l) (fl l) = dlist (pages s) None (free_lists s l) (fl l)"
    proof (rule dlist_cong)
      fix x assume x: "x \<in> set (fl l)"
      then have "x \<noteq> i" "free_lists s k \<noteq> Some x"
        using new [OF l] dk(1) free_rep_orders [OF rep l k x] False by (cases "fl k"; auto)+
      then show "pg_next (pages ?s x) = pg_next (pages s x) \<and> pg_prev (pages ?s x) = pg_prev (pages s x)"
        by (auto simp: list_add_def Let_def split: option.splits)
    qed
    moreover have "free_lists ?s l = free_lists s l"
      using False by (auto simp: list_add_def Let_def split: option.splits)
    ultimately show ?thesis using dl False by simp
  qed
  moreover have "distinct ((fl(k := i # fl k)) l)"
    using dl dk new [OF k] by auto
  moreover have "\<forall>x\<in>set ((fl(k := i # fl k)) l). pg_flags (pages ?s x) = 0 \<and> unat (pg_order (pages ?s x)) = l"
    using rep l i by (auto simp: free_rep_def frame_simps)
  ultimately show "dlist (pages ?s) None (free_lists ?s l) ((fl(k := i # fl k)) l) \<and>
      distinct ((fl(k := i # fl k)) l) \<and>
      (\<forall>x\<in>set ((fl(k := i # fl k)) l). pg_flags (pages ?s x) = 0 \<and> unat (pg_order (pages ?s x)) = l)"
    by blast
qed

lemma free_rep_list_remove:
  assumes rep: "free_rep s fl" and k: "k < MAX_ORDER" and i: "i \<in> set (fl k)"
  shows "free_rep (list_remove k i s) (fl(k := remove1 i (fl k)))"
  unfolding free_rep_def
proof (intro allI impI)
  fix l assume l: "l < MAX_ORDER"
  let ?s = "list_remove k i s"
  have dl: "dlist (pages s) None (free_lists s l) (fl l)" "distinct (fl l)"
    using rep l by (auto simp: free_rep_def)
  have dk: "dlist (pages s) None (free_lists s k) (fl k)" "distinct (fl k)"
    using rep k by (auto simp: free_rep_def)
  have links: "pg_prev (pages s i) = None \<or> (\<exists>q\<in>set (fl k). q \<noteq> i \<and> pg_prev (pages s i) = Some q)"
    "pg_next (pages s i) = None \<or> (\<exists>z\<in>set (fl k). z \<noteq> i \<and> pg_next (pages s i) = Some z)"
    using dlist_links [OF dk i] by auto
  then have un: "unlinked (pages s) i (pages ?s)"
    by (auto simp: unlinked_def list_remove_def Let_def split: option.splits)
  have "dlist (pages ?s) None (free_lists ?s l) ((fl(k := remove1 i (fl k))) l)"
  proof (cases "l = k")
    case True
    obtain x xs where x: "fl k = x # xs" using i by (cases "fl k") auto
    show ?thesis
    proof (cases "x = i")
      case True
      with dk x have p: "pg_prev (pages s i) = None" by simp
      then have h: "free_lists ?s k = pg_next (pages s i)"
        by (auto simp: list_remove_def Let_def split: option.splits)
      have rest: "dlist (pages s) (Some i) (pg_next (pages s i)) xs" "distinct xs" "i \<notin> set xs"
        using dk x True by auto
      have "dlist (pages ?s) None (pg_next (pages s i)) xs"
      proof (cases "pg_next (pages s i)")
        case None
        with rest(1) show ?thesis by (cases xs) auto
      next
        case (Some z)
        show ?thesis
          unfolding Some
        proof (rule dlist_reparent [OF rest(1) [unfolded Some] rest(2)])
          show "\<And>w. w \<in> set xs \<Longrightarrow> pg_next (pages ?s w) = pg_next (pages s w)"
            "\<And>w. w \<in> set xs \<Longrightarrow> w \<noteq> z \<Longrightarrow> pg_prev (pages ?s w) = pg_prev (pages s w)"
            "pg_prev (pages ?s z) = None"
            using un p Some by (auto simp: unlinked_def)
        qed
      qed
      with h x True \<open>l = k\<close> show ?thesis by simp
    next
      case False
      with x i have i': "i \<in> set xs" by simp
      have "dlist (pages ?s) None (free_lists s k) (x # remove1 i xs)"
        using dk x i' by (intro dlist_unlink [OF un]) auto
      moreover have "dlist (pages s) (Some x) (pg_next (pages s x)) xs" "distinct xs"
        using dk x by auto
      then have "pg_prev (pages s i) \<noteq> None"
        using dlist_links [OF _ _ i'] by fastforce
      then have "free_lists ?s k = free_lists s k"
        by (auto simp: list_remove_def Let_def split: option.splits)
      ultimately show ?thesis using False x \<open>l = k\<close> by simp
    qed
  next
    case False
    have "dlist (pages ?s) None (free_lists s l) (fl l) = dlist (pages s) None (free_lists s l) (fl l)"
    proof (rule dlist_cong)
      fix x assume x: "x \<in> set (fl l)"
      then have "x \<notin> set (fl k)" using free_rep_orders [OF rep l k x] False by auto
      then show "pg_next (pages ?s x) = pg_next (pages s x) \<and> pg_prev (pages ?s x) = pg_prev (pages s x)"
        using un links by (auto simp: unlinked_def)
    qed
    moreover have "free_lists ?s l = free_lists s l"
      using False by (auto simp: list_remove_def Let_def split: option.splits)
    ultimately show ?thesis using dl False by simp
  qed
  moreover have "distinct ((fl(k := remove1 i (fl k))) l)"
    using dl dk by simp
  moreover have "\<forall>x\<in>set ((fl(k := remove1 i (fl k))) l).
      pg_flags (pages ?s x) = 0 \<and> unat (pg_order (pages ?s x)) = l"
    using free_repD(3,4) [OF rep l] dk by (auto simp: frame_simps)
  ultimately show "dlist (pages ?s) None (free_lists ?s l) ((fl(k := remove1 i (fl k))) l) \<and>
      distinct ((fl(k := remove1 i (fl k))) l) \<and>
      (\<forall>x\<in>set ((fl(k := remove1 i (fl k))) l). pg_flags (pages ?s x) = 0 \<and> unat (pg_order (pages ?s x)) = l)"
    by blast
qed

section \<open>What the lists represent\<close>

lemma blocks_of_add: "k < MAX_ORDER \<Longrightarrow> blocks_of (fl(k := i # fl k)) = insert (i, k) (blocks_of fl)"
  by (auto simp: blocks_of_def split: if_splits)

lemma blocks_of_remove:
  "free_rep s fl \<Longrightarrow> k < MAX_ORDER \<Longrightarrow>
     blocks_of (fl(k := remove1 i (fl k))) = blocks_of fl - {(i, k)}"
  by (auto simp: blocks_of_def dest: free_repD(2) split: if_splits)

lemma blocks_of_notin:
  "p \<notin> cover (blocks_of fl) \<Longrightarrow> k < MAX_ORDER \<Longrightarrow> p \<notin> set (fl k)"
  using blk_start [of "(p, k)"] by (auto simp: cover_def blocks_of_def)

text \<open>
  What the flags say, while the frames in \<open>C\<close> are accounted for: a live block's first page
  and every page outside \<open>C\<close> are marked used. Pages inside a block may hold stale values.
\<close>

definition flags_ok :: "pmm_state \<Rightarrow> (nat \<times> nat) set \<Rightarrow> nat set \<Rightarrow> bool" where
  "flags_ok s A C \<longleftrightarrow>
     (\<forall>b\<in>A. pg_flags (pages s (fst b)) = 1) \<and>
     (\<forall>p<total_pages s. p \<notin> C \<longrightarrow> pg_flags (pages s p) = 1)"

text \<open>The test of \<^verbatim>\<open>pmm_free_pages\<close> finds the buddy free exactly when it is a free block.\<close>

lemma buddy_test:
  assumes rep: "free_rep s fl"
    and wf: "buddy_wf (total_pages s) (blocks_of fl) (insert (i, k) A)" and new: "(i, k) \<notin> A"
    and fl: "flags_ok s A (cover (blocks_of fl) \<union> cover A \<union> blk (i, k))"
    and k: "k < MAX_ORDER"
  defines "b \<equiv> buddy_of i k"
  shows "(b \<ge> total_pages s \<or> pg_flags (pages s b) = 1 \<or> unat (pg_order (pages s b)) \<noteq> k)
     \<longleftrightarrow> (b, k) \<notin> blocks_of fl" (is "?test \<longleftrightarrow> _")
proof
  assume t: ?test
  show "(b, k) \<notin> blocks_of fl"
  proof
    assume "(b, k) \<in> blocks_of fl"
    moreover from this wf have "valid_block (total_pages s) (b, k)"
      by (auto intro: buddy_wf_valid)
    ultimately show False
      using t free_repD(3,4) [OF rep k, of b] valid_block_less [of "total_pages s" b k]
      by (auto simp: blocks_of_def)
  qed
next
  assume nb: "(b, k) \<notin> blocks_of fl"
  show ?test
  proof (rule ccontr)
    assume nt: "\<not> ?test"
    have dvd: "2 ^ k dvd i"
      using buddy_wf_valid [OF wf, of "(i, k)"] by (simp add: valid_block_def)
    have "b \<notin> blk (i, k)"
      using buddy_disjoint [OF dvd] blk_start [of "(b, k)"] by (auto simp: b_def)
    moreover have "b < total_pages s" "pg_flags (pages s b) \<noteq> 1" using nt by auto
    ultimately have "b \<in> cover (blocks_of fl \<union> A)"
      using fl unfolding flags_ok_def by (metis UnCI UnE cover_Un)
    then obtain j l where jl: "(j, l) \<in> blocks_of fl \<union> A" "b \<in> blk (j, l)"
      by (auto simp: cover_def)
    have "(j, l) \<noteq> (i, k)" using jl new wf by (auto simp: buddy_wf_def)
    with buddy_covered [OF wf jl(1)] jl(2) have "j = b" "l \<le> k" by (auto simp: b_def)
    show False
    proof (cases "(j, l) \<in> A")
      case True
      with \<open>j = b\<close> fl nt show False by (auto simp: flags_ok_def)
    next
      case False
      with jl have "(j, l) \<in> blocks_of fl" by simp
      with free_repD(4) [OF rep, of l j] \<open>j = b\<close> nt nb show False
        by (auto simp: blocks_of_def)
    qed
  qed
qed

lemma merge_loop_fields:
  "merge_loop i k s = (i', k', s') \<Longrightarrow>
     (\<forall>p. pg_flags (pages s' p) = pg_flags (pages s p)) \<and> total_pages s' = total_pages s"
proof (induction i k s rule: merge_loop.induct)
  case (1 i k s)
  show ?case
    using "1.prems" "1.IH" unfolding merge_loop.simps [of i k s]
    by (auto simp: Let_def frame_simps split: if_splits)
qed

lemma merge_loop_correct:
  assumes "free_rep s fl" "buddy_wf (total_pages s) (blocks_of fl) (insert (i, k) A)" "(i, k) \<notin> A"
    and "flags_ok s A (cover (blocks_of fl) \<union> cover A \<union> blk (i, k))"
    and "merge_loop i k s = (i', k', s')"
  shows "\<exists>fl'. free_rep s' fl' \<and> buddy_wf (total_pages s) (blocks_of fl') (insert (i', k') A) \<and>
    (i', k') \<notin> A \<and> insert (i', k') (blocks_of fl') = spec_free (blocks_of fl) i k"
  using assms
proof (induction i k s arbitrary: fl rule: merge_loop.induct)
  case (1 i k s)
  have v: "valid_block (total_pages s) (i, k)"
    using "1.prems"(2) by (auto intro: buddy_wf_valid)
  then have k: "k < MAX_ORDER" by (simp add: valid_block_def)
  note test = buddy_test [OF "1.prems"(1-4) k]
  let ?b = "buddy_of i k"
  show ?case
  proof (cases "Suc k < MAX_ORDER \<and> (?b, k) \<in> blocks_of fl")
    case False
    then have "merge_loop i k s = (i, k, s)"
      using test by (subst merge_loop.simps) (auto simp: Let_def)
    moreover have "spec_free (blocks_of fl) i k = insert (i, k) (blocks_of fl)"
      using False by (subst spec_free.simps) auto
    ultimately show ?thesis using "1.prems" by auto
  next
    case True
    let ?i = "min i ?b" and ?s = "list_remove k ?b s"
    let ?fl = "fl(k := remove1 ?b (fl k))"
    from True have k': "k < MAX_ORDER - 1" and b: "(?b, k) \<in> blocks_of fl" by auto
    note step = buddy_wf_merge [OF "1.prems"(2,3) b]
    have eq: "blocks_of ?fl = blocks_of fl - {(?b, k)}"
      using "1.prems"(1) k by (rule blocks_of_remove)
    have m: "merge_loop i k s = merge_loop ?i (Suc k) ?s"
      using k' b test by (subst merge_loop.simps) (auto simp: Let_def min_def)
    have rep: "free_rep ?s ?fl"
      using "1.prems"(1) k b by (intro free_rep_list_remove) (auto simp: blocks_of_def)
    have "cover (blocks_of ?fl) \<union> cover A \<union> blk (?i, Suc k)
        = cover (blocks_of fl) \<union> cover A \<union> blk (i, k)"
      using step(3) True by (simp add: eq) blast
    then have fo: "flags_ok ?s A (cover (blocks_of ?fl) \<union> cover A \<union> blk (?i, Suc k))"
      using "1.prems"(4) by (simp add: flags_ok_def frame_simps)
    have i: "(if ?b < i then ?b else i) = ?i" by (simp add: min_def)
    have nt: "\<not> (?b \<ge> total_pages s \<or> pg_flags (pages s ?b) = 1 \<or> unat (pg_order (pages s ?b)) \<noteq> k)"
      using test b by blast
    have wf: "buddy_wf (total_pages ?s) (blocks_of ?fl) (insert (?i, Suc k) A)"
      using step(1) True by (simp add: eq frame_simps del: fun_upd_apply)
    have "(?i, Suc k) \<notin> A" using step(2) True by simp
    note ih = "1.IH" [OF k' refl nt, unfolded i, folded Suc_eq_plus1, OF rep wf this fo "1.prems"(5) [unfolded m]]
    moreover have "spec_free (blocks_of fl) i k = spec_free (blocks_of ?fl) ?i (Suc k)"
      using True by (subst spec_free.simps) (simp add: eq del: fun_upd_apply)
    ultimately show ?thesis using ih by (simp add: frame_simps del: fun_upd_apply)
  qed
qed


text \<open>The splitting loop.\<close>

lemma split_loop_fields:
  "total_pages (split_loop k ord i s) = total_pages s \<and>
     (\<forall>p. p \<notin> blk (i, k) \<longrightarrow> pg_flags (pages (split_loop k ord i s) p) = pg_flags (pages s p))"
proof (induction k arbitrary: s)
  case 0
  then show ?case by simp
next
  case (Suc k)
  have "p \<noteq> i + 2 ^ k \<and> p \<notin> blk (i, k)" if "p \<notin> blk (i, Suc k)" for p
    using that by (auto simp: blk_def)
  with Suc.IH show ?case by (simp add: Let_def frame_simps)
qed

lemma split_loop_correct:
  assumes "free_rep s fl" "buddy_wf (total_pages s) (blocks_of fl) (insert (i, k) A)" "(i, k) \<notin> A"
  shows "\<exists>fl'. free_rep (split_loop k ord i s) fl' \<and> blocks_of fl' = spec_split (blocks_of fl) i k ord"
  using assms
proof (induction k arbitrary: s fl)
  case 0
  then show ?case by auto
next
  case (Suc k)
  show ?case
  proof (cases "ord < Suc k")
    case False
    with Suc.prems show ?thesis by auto
  next
    case True
    note step = buddy_wf_split [OF Suc.prems(2,3)]
    let ?b = "i + 2 ^ k" and ?fl = "fl(k := (i + 2 ^ k) # fl k)"
    let ?s = "set_page ?b (\<lambda>p. p\<lparr>pg_order := of_nat k, pg_flags := 0\<rparr>) s"
    have "Suc k < MAX_ORDER"
      using buddy_wf_valid [OF Suc.prems(2), of "(i, Suc k)"] by (simp add: valid_block_def)
    then have k: "k < MAX_ORDER" by simp
    have "disjoint_blocks (blocks_of fl \<union> insert (i, Suc k) A)" "(i, Suc k) \<notin> blocks_of fl"
      using Suc.prems(2) by (auto simp: buddy_wf_def)
    then have "blk (i, Suc k) \<inter> cover (blocks_of fl) = {}"
      by (intro disjoint_blocks_apart) auto
    moreover have "?b \<in> blk (i, Suc k)" by (simp add: blk_def)
    ultimately have "?b \<notin> cover (blocks_of fl)" by blast
    then have fresh: "l < MAX_ORDER \<Longrightarrow> ?b \<notin> set (fl l)" for l by (rule blocks_of_notin)
    have "free_rep (list_add k ?b ?s) ?fl"
    proof (rule free_rep_list_add)
      show "free_rep ?s fl" by (rule free_rep_set_page [OF Suc.prems(1) fresh])
      have "k < 2 ^ 8" using k by (simp add: MAX_ORDER_def)
      then show "unat (pg_order (pages ?s ?b)) = k" by (simp add: unat_of_nat take_bit_nat_eq_self)
    qed (use k fresh in auto)
    moreover have "blocks_of ?fl = insert (?b, k) (blocks_of fl)" by (rule blocks_of_add [OF k])
    ultimately have "\<exists>fl'. free_rep (split_loop k ord i (list_add k ?b ?s)) fl' \<and>
        blocks_of fl' = spec_split (insert (?b, k) (blocks_of fl)) i k ord"
      using Suc.IH [of "list_add k ?b ?s" ?fl] step(1,2) by (simp add: frame_simps del: fun_upd_apply)
    with True show ?thesis by (simp add: Let_def)
  qed
qed

section \<open>The invariant\<close>

text \<open>
  A free list read off the heap by following the next-pointers, at most \<^verbatim>\<open>total_pages\<close>
  of them, and the set of free blocks a state holds.
\<close>

fun walk :: "(nat \<Rightarrow> page_t) \<Rightarrow> nat option \<Rightarrow> nat \<Rightarrow> nat list" where
  "walk pg None n = []"
| "walk pg (Some x) 0 = []"
| "walk pg (Some x) (Suc n) = x # walk pg (pg_next (pg x)) n"

definition free_list :: "pmm_state \<Rightarrow> nat \<Rightarrow> nat list" where
  "free_list s k = walk (pages s) (free_lists s k) (total_pages s)"

definition free_blocks :: "pmm_state \<Rightarrow> (nat \<times> nat) set" where
  "free_blocks s = blocks_of (free_list s)"

text \<open>
  \<open>A\<close> is the set of live blocks, those handed out and not yet freed: the lists are
  well linked, free and live blocks are aligned, in range and disjoint, and the flags
  account for every page.
\<close>

definition pmm_inv :: "pmm_state \<Rightarrow> (nat \<times> nat) set \<Rightarrow> bool" where
  "pmm_inv s A \<longleftrightarrow>
     total_pages s \<le> 2 ^ 20 \<and> free_rep s (free_list s) \<and>
     buddy_wf (total_pages s) (free_blocks s) A \<and>
     flags_ok s A (cover (free_blocks s) \<union> cover A)"

lemma dlist_walk: "dlist pg p h xs \<Longrightarrow> length xs \<le> n \<Longrightarrow> walk pg h n = xs"
proof (induction xs arbitrary: p h n)
  case Nil
  then show ?case by simp
next
  case (Cons x xs)
  then show ?case by (cases n) auto
qed

lemma free_rep_list:
  assumes rep: "free_rep s fl" and wf: "buddy_wf (total_pages s) (blocks_of fl) A" and k: "k < MAX_ORDER"
  shows "free_list s k = fl k"
proof -
  have "i < total_pages s" if "i \<in> set (fl k)" for i
    using wf that k by (intro valid_block_less) (auto simp: buddy_wf_def blocks_of_def)
  then have "card (set (fl k)) \<le> card {..<total_pages s}" by (intro card_mono) auto
  then have "length (fl k) \<le> total_pages s"
    using free_repD(2) [OF rep k] by (simp add: distinct_card)
  then show ?thesis
    using free_repD(1) [OF rep k] by (simp add: free_list_def dlist_walk)
qed

lemma pmm_invI:
  assumes "total_pages s \<le> 2 ^ 20" "free_rep s fl" "buddy_wf (total_pages s) (blocks_of fl) A"
    and "flags_ok s A (cover (blocks_of fl) \<union> cover A)"
  shows "pmm_inv s A" and "free_blocks s = blocks_of fl"
proof -
  have eq: "free_list s k = fl k" if "k < MAX_ORDER" for k
    using free_rep_list [OF assms(2,3) that] .
  then show b: "free_blocks s = blocks_of fl"
    by (auto simp: free_blocks_def blocks_of_def)
  have "free_rep s (free_list s)" using assms(2) eq by (simp add: free_rep_def)
  with assms b show "pmm_inv s A" by (simp add: pmm_inv_def)
qed

lemma pmm_addr:
  assumes "i < 2 ^ 20"
  shows "unat (of_nat i * PAGE_SIZE) = i * 4096" "unat ((of_nat i * PAGE_SIZE) div PAGE_SIZE) = i"
proof -
  have "unat (of_nat i :: u32) = i"
    using assms by (simp add: unat_of_nat take_bit_nat_eq_self)
  then show a: "unat (of_nat i * PAGE_SIZE) = i * 4096"
    using assms by (simp add: PAGE_SIZE_def unat_word_ariths)
  then show "unat ((of_nat i * PAGE_SIZE) div PAGE_SIZE) = i"
    by (simp add: unat_div PAGE_SIZE_def)
qed

section \<open>Freeing\<close>

lemma pmm_free_refines:
  assumes inv: "pmm_inv s (insert (i, k) A)" and new: "(i, k) \<notin> A"
  defines "s' \<equiv> pmm_free_pages (of_nat i * PAGE_SIZE) k s"
  shows "pmm_inv s' A" and "free_blocks s' = spec_free (free_blocks s) i k"
    and "total_pages s' = total_pages s"
proof -
  let ?F = "free_blocks s" and ?T = "total_pages s"
  have T: "?T \<le> 2 ^ 20" and rep: "free_rep s (free_list s)"
    and wf: "buddy_wf ?T ?F (insert (i, k) A)"
    and fo: "flags_ok s (insert (i, k) A) (cover ?F \<union> cover (insert (i, k) A))"
    using inv by (simp_all add: pmm_inv_def)
  have "i < ?T" using buddy_wf_valid [OF wf, of "(i, k)"] by (auto intro: valid_block_less)
  with T have i: "unat ((of_nat i * PAGE_SIZE) div PAGE_SIZE) = i" by (intro pmm_addr) simp
  obtain i' k' s1 where ml: "merge_loop i k s = (i', k', s1)" by (metis prod_cases3)
  have "flags_ok s A (cover ?F \<union> cover A \<union> blk (i, k))"
    using fo by (simp add: flags_ok_def Un_assoc Un_commute)
  then obtain fl where fl: "free_rep s1 fl" "buddy_wf ?T (blocks_of fl) (insert (i', k') A)"
    "(i', k') \<notin> A" "insert (i', k') (blocks_of fl) = spec_free ?F i k"
    using merge_loop_correct [OF rep _ new _ ml] wf unfolding free_blocks_def by blast
  note fields = merge_loop_fields [OF ml]
  let ?s2 = "set_page i' (\<lambda>p. p\<lparr>pg_order := of_nat k', pg_flags := 0\<rparr>) s1"
  have s': "s' = list_add k' i' ?s2" by (simp add: s'_def pmm_free_pages_def i ml Let_def)
  have v: "valid_block ?T (i', k')" using buddy_wf_valid [OF fl(2), of "(i', k')"] by simp
  then have k': "k' < MAX_ORDER" by (simp add: valid_block_def)
  have nin: "(i', k') \<notin> blocks_of fl" and dj: "disjoint_blocks (insert (i', k') (blocks_of fl \<union> A))"
    using fl(2) by (auto simp: buddy_wf_def)
  have apart: "blk (i', k') \<inter> cover (blocks_of fl) = {}" "blk (i', k') \<inter> cover A = {}"
    using disjoint_blocks_apart [OF dj, of "(i', k')" "blocks_of fl"]
      disjoint_blocks_apart [OF dj, of "(i', k')" A] nin fl(3) by auto
  then have "i' \<notin> cover (blocks_of fl)" using blk_start [of "(i', k')"] by auto
  then have fresh: "l < MAX_ORDER \<Longrightarrow> i' \<notin> set (fl l)" for l by (rule blocks_of_notin)
  let ?fl = "fl(k' := i' # fl k')"
  have rep': "free_rep s' ?fl"
    unfolding s'
  proof (rule free_rep_list_add)
    show "free_rep ?s2 fl" by (rule free_rep_set_page [OF fl(1) fresh])
    have "k' < 2 ^ 8" using k' by (simp add: MAX_ORDER_def)
    then show "unat (pg_order (pages ?s2 i')) = k'" by (simp add: unat_of_nat take_bit_nat_eq_self)
  qed (use k' fresh in auto)
  have T': "total_pages s' = ?T" by (simp add: s' frame_simps fields)
  have blocks: "blocks_of ?fl = spec_free ?F i k"
    using fl(4) by (simp add: blocks_of_add [OF k'] del: fun_upd_apply)
  have spec: "buddy_wf ?T (spec_free ?F i k) A" "cover (spec_free ?F i k) = cover ?F \<union> blk (i, k)"
    using spec_free_wf [OF wf new] by auto
  have "i' \<in> cover (spec_free ?F i k)"
    using fl(4) [symmetric] blk_start [of "(i', k')"] by simp
  moreover have "i' \<noteq> fst b" if "b \<in> A" for b
    using that apart(2) unfolding cover_def by (metis IntI UN_I blk_start empty_iff fst_conv)
  ultimately have "flags_ok s' A (cover (blocks_of ?fl) \<union> cover A)"
    using fo fields T' unfolding blocks spec(2) by (auto simp: s' flags_ok_def frame_simps)
  from pmm_invI [OF _ rep' _ this] spec(1) T T' blocks
  show "pmm_inv s' A" "free_blocks s' = spec_free ?F i k" "total_pages s' = ?T"
    by (simp_all del: fun_upd_apply)
qed


section \<open>Allocating\<close>

lemma alloc_from_none:
  "(\<And>l. i \<le> l \<Longrightarrow> l < MAX_ORDER \<Longrightarrow> free_lists s l = None) \<Longrightarrow> alloc_from i ord s = (0, s)"
proof (induction i ord s rule: alloc_from.induct)
  case (1 i ord s)
  then show ?case by (subst alloc_from.simps) auto
qed

lemma alloc_from_some:
  "i \<le> l \<Longrightarrow> l < MAX_ORDER \<Longrightarrow> free_lists s l = Some p \<Longrightarrow>
     (\<And>m. i \<le> m \<Longrightarrow> m < l \<Longrightarrow> free_lists s m = None) \<Longrightarrow>
     alloc_from i ord s =
       (of_nat p * PAGE_SIZE,
        set_page p (\<lambda>q. q\<lparr>pg_flags := 1, pg_order := of_nat ord\<rparr>)
          (split_loop l ord p (list_remove l p s)))"
proof (induction i ord s rule: alloc_from.induct)
  case (1 i ord s)
  show ?case
  proof (cases "i = l")
    case True
    with "1.prems" show ?thesis by (subst alloc_from.simps) (simp add: Let_def)
  next
    case False
    then have "i < MAX_ORDER" "i + 1 \<le> l" "free_lists s i = None"
      using "1.prems" by auto
    moreover have "free_lists s m = None" if "i + 1 \<le> m" "m < l" for m
      using "1.prems"(4) that by simp
    ultimately show ?thesis
      using "1.IH" "1.prems"(2,3) by (subst alloc_from.simps) simp
  qed
qed

lemma free_list_empty:
  assumes "free_rep s fl" "k < MAX_ORDER"
  shows "free_lists s k = None \<longleftrightarrow> fl k = []" and "free_lists s k = Some p \<Longrightarrow> p \<in> set (fl k)"
  using free_repD(1) [OF assms] by (cases "fl k"; auto)+

text \<open>
  The request fails exactly when no free block is large enough; otherwise it takes a
  block of the smallest sufficient order.
\<close>

lemma pmm_alloc_refines:
  assumes inv: "pmm_inv s A"
  obtains
    (none) "\<forall>(j, l)\<in>free_blocks s. l < ord" "pmm_alloc_pages ord s = (0, s)"
  | (some) i l s' where "(i, l) \<in> free_blocks s" "ord \<le> l"
      "\<forall>(j, m)\<in>free_blocks s. ord \<le> m \<longrightarrow> l \<le> m"
      "pmm_alloc_pages ord s = (of_nat i * PAGE_SIZE, s')"
      "(i, ord) \<notin> A" "pmm_inv s' (insert (i, ord) A)" "total_pages s' = total_pages s"
      "free_blocks s' = spec_split (free_blocks s - {(i, l)}) i l ord"
proof (cases "\<exists>l. ord \<le> l \<and> l < MAX_ORDER \<and> free_lists s l \<noteq> None")
  case False
  have rep: "free_rep s (free_list s)" using inv by (simp add: pmm_inv_def)
  have "\<forall>(j, l)\<in>free_blocks s. l < ord"
    using False free_list_empty(1) [OF rep] by (force simp: free_blocks_def blocks_of_def)
  moreover have "pmm_alloc_pages ord s = (0, s)"
    using False unfolding pmm_alloc_pages_def by (intro alloc_from_none) auto
  ultimately show thesis by (rule none)
next
  case True
  let ?F = "free_blocks s" and ?T = "total_pages s" and ?fl = "free_list s"
  have T: "?T \<le> 2 ^ 20" and rep: "free_rep s ?fl" and wf: "buddy_wf ?T ?F A"
    and fo: "flags_ok s A (cover ?F \<union> cover A)"
    using inv by (simp_all add: pmm_inv_def)
  let ?P = "\<lambda>l. ord \<le> l \<and> l < MAX_ORDER \<and> free_lists s l \<noteq> None"
  from True have "\<exists>l. ?P l \<and> (\<forall>m<l. \<not> ?P m)"
    using exists_least_iff [of ?P] by blast
  then obtain l where l: "?P l" and least: "\<forall>m<l. \<not> ?P m" by blast
  then obtain i where i: "free_lists s l = Some i" by auto
  have lM: "l < MAX_ORDER" and ol: "ord \<le> l" using l by auto
  have il: "i \<in> set (?fl l)" using free_list_empty(2) [OF rep lM i] .
  then have ilF: "(i, l) \<in> ?F" using lM by (simp add: free_blocks_def blocks_of_def)
  have min: "\<forall>(j, m)\<in>?F. ord \<le> m \<longrightarrow> l \<le> m"
  proof clarify
    fix j m assume jm: "(j, m) \<in> ?F" "ord \<le> m"
    then have "m < MAX_ORDER" "free_lists s m \<noteq> None"
      using free_list_empty(1) [OF rep, of m] by (auto simp: free_blocks_def blocks_of_def)
    with jm least show "l \<le> m" by (meson not_le)
  qed
  let ?s1 = "list_remove l i s" and ?fl1 = "?fl(l := remove1 i (?fl l))"
  let ?s2 = "split_loop l ord i ?s1"
  let ?s' = "set_page i (\<lambda>q. q\<lparr>pg_flags := 1, pg_order := of_nat ord\<rparr>) ?s2"
  have rep1: "free_rep ?s1 ?fl1" by (rule free_rep_list_remove [OF rep lM il])
  have F1: "blocks_of ?fl1 = ?F - {(i, l)}"
    unfolding free_blocks_def by (rule blocks_of_remove [OF rep lM])
  have wf1: "buddy_wf ?T (?F - {(i, l)}) (insert (i, l) A)" and new: "(i, l) \<notin> A"
    using buddy_wf_take [OF wf ilF] wf ilF by (auto simp: buddy_wf_def)
  then obtain fl2 where fl2: "free_rep ?s2 fl2" "blocks_of fl2 = spec_split (?F - {(i, l)}) i l ord"
    using split_loop_correct [OF rep1, of i l A ord] F1 by (auto simp: frame_simps simp del: fun_upd_apply)
  note spec = spec_split_wf [OF wf1 new ol]
  then have wf2: "buddy_wf ?T (blocks_of fl2) (insert (i, ord) A)" and new2: "(i, ord) \<notin> A"
    by (simp_all add: fl2)
  have T': "total_pages ?s' = ?T"
    using split_loop_fields by (simp add: frame_simps)
  have "cover (blocks_of fl2) \<inter> cover (insert (i, ord) A) = {}"
    by (rule buddy_wf_disjoint [OF wf2])
  then have "i \<notin> cover (blocks_of fl2)" using blk_start [of "(i, ord)"] by auto
  then have fresh: "k < MAX_ORDER \<Longrightarrow> i \<notin> set (fl2 k)" for k by (rule blocks_of_notin)
  have rep': "free_rep ?s' fl2" by (rule free_rep_set_page [OF fl2(1) fresh])
  have cov: "cover (blocks_of fl2) \<union> cover (insert (i, ord) A) = cover ?F \<union> cover A"
    "blk (i, l) \<subseteq> cover ?F"
    using spec ilF by (auto simp: fl2(2) cover_def)
  have keep: "pg_flags (pages ?s' p) = pg_flags (pages s p)" if "p \<notin> blk (i, l)" for p
  proof -
    have "p \<noteq> i" using that blk_start [of "(i, l)"] by auto
    with that split_loop_fields show ?thesis by (simp add: frame_simps)
  qed
  have "flags_ok ?s' (insert (i, ord) A) (cover ?F \<union> cover A)"
    unfolding flags_ok_def
  proof (intro conjI ballI allI impI)
    fix b assume b: "b \<in> insert (i, ord) A"
    show "pg_flags (pages ?s' (fst b)) = 1"
    proof (cases "b = (i, ord)")
      case False
      with b have bA: "b \<in> A" by simp
      then have "fst b \<notin> blk (i, l)"
        using buddy_wf_disjoint [OF wf] ilF unfolding cover_def
        by (metis IntI UN_I blk_start empty_iff)
      with keep bA fo show ?thesis by (simp add: flags_ok_def)
    qed simp
  next
    fix p assume p: "p < total_pages ?s'" "p \<notin> cover ?F \<union> cover A"
    then have "p \<notin> blk (i, l)" using cov(2) by blast
    with keep p T' fo show "pg_flags (pages ?s' p) = 1" by (simp add: flags_ok_def)
  qed
  then have "flags_ok ?s' (insert (i, ord) A) (cover (blocks_of fl2) \<union> cover (insert (i, ord) A))"
    by (simp only: cov)
  then have inv': "pmm_inv ?s' (insert (i, ord) A)" "free_blocks ?s' = blocks_of fl2"
    using pmm_invI [OF _ rep' _ ] T' T wf2 by simp_all
  have "pmm_alloc_pages ord s = (of_nat i * PAGE_SIZE, ?s')"
    unfolding pmm_alloc_pages_def
    using alloc_from_some [OF ol lM i] least lM by (auto simp del: set_page_def)
  with ilF ol min new2 inv' T' fl2(2) show thesis by (intro some) auto
qed

section \<open>Initialisation\<close>

lemma region_order_props:
  assumes "2 ^ ord dvd i" "i + 2 ^ ord \<le> e" "ord < MAX_ORDER"
  shows "2 ^ region_order i e ord dvd i \<and> i + 2 ^ region_order i e ord \<le> e \<and>
     region_order i e ord < MAX_ORDER \<and>
     (Suc (region_order i e ord) = MAX_ORDER \<or> \<not> 2 ^ Suc (region_order i e ord) dvd i \<or>
      e < i + 2 ^ Suc (region_order i e ord))"
  using assms
proof (induction i e ord rule: region_order.induct)
  case (1 i e ord)
  let ?go = "ord < MAX_ORDER - 1 \<and> \<not> (i + 2 ^ (ord + 1) > e \<or> i mod 2 ^ (ord + 1) \<noteq> 0)"
  show ?case
  proof (cases ?go)
    case True
    then have "2 ^ (ord + 1) dvd i" "i + 2 ^ (ord + 1) \<le> e" "ord + 1 < MAX_ORDER"
      by (auto simp only: mod_eq_0_iff_dvd)
    from "1.IH" [OF True this] True show ?thesis
      by (subst (1 2 3 4 5 6) region_order.simps) simp
  next
    case False
    have eq: "region_order i e ord = ord"
      by (subst region_order.simps) (simp only: False if_False)
    have "Suc ord = MAX_ORDER \<or> \<not> 2 ^ Suc ord dvd i \<or> e < i + 2 ^ Suc ord"
      using False "1.prems"(3) by (auto simp: mod_eq_0_iff_dvd)
    with "1.prems" show ?thesis by (simp only: eq)
  qed
qed

lemma blk_below: "blk (i, k) \<subseteq> {..<e} \<Longrightarrow> i + 2 ^ k \<le> e"
proof -
  assume sub: "blk (i, k) \<subseteq> {..<e}"
  have "0 < (2::nat) ^ k" by simp
  then have "i + (2 ^ k - 1) \<in> blk (i, k)" unfolding blk_def fst_conv snd_conv atLeastLessThan_iff
    by linarith
  with sub have "i + (2 ^ k - 1) < e" by blast
  with \<open>0 < 2 ^ k\<close> show "i + 2 ^ k \<le> e" by linarith
qed

text \<open>
  Every block the loop adds is the largest that starts where it does, so no two buddies
  are left unmerged.
\<close>

definition maximal_blocks :: "nat \<Rightarrow> (nat \<times> nat) set \<Rightarrow> bool" where
  "maximal_blocks e F \<longleftrightarrow>
     (\<forall>(i, k)\<in>F. Suc k = MAX_ORDER \<or> \<not> 2 ^ Suc k dvd i \<or> e < i + 2 ^ Suc k)"

lemma maximal_coalesced:
  assumes wf: "buddy_wf T F A" and max: "maximal_blocks e F" and "cover F \<subseteq> {..<e}"
  shows "coalesced F"
  unfolding coalesced_def
proof clarify
  fix i k assume ik: "(i, k) \<in> F" "k < MAX_ORDER - 1" "(buddy_of i k, k) \<in> F"
  have dvd: "2 ^ k dvd i" using buddy_wf_aligned [OF wf] ik by auto
  let ?m = "min i (buddy_of i k)"
  have "blk (?m, Suc k) \<subseteq> {..<e}"
    using buddy_union [OF dvd] ik assms(3) by (auto simp: cover_def)
  then have "?m + 2 ^ Suc k \<le> e" by (rule blk_below)
  moreover have "(?m, k) \<in> F" using ik by (auto simp: min_def)
  then have "Suc k = MAX_ORDER \<or> \<not> 2 ^ Suc k dvd ?m \<or> e < ?m + 2 ^ Suc k"
    using max by (fastforce simp: maximal_blocks_def)
  ultimately show False using ik(2) buddy_min_dvd [OF dvd] by auto
qed

lemma add_region_loop_correct:
  assumes "pmm_inv s A" "e \<le> total_pages s" "{i..<e} \<inter> (cover (free_blocks s) \<union> cover A) = {}"
  shows "pmm_inv (add_region_loop i e s) A \<and>
    total_pages (add_region_loop i e s) = total_pages s \<and>
    cover (free_blocks (add_region_loop i e s)) = cover (free_blocks s) \<union> {i..<e} \<and>
    (maximal_blocks e (free_blocks s) \<longrightarrow> maximal_blocks e (free_blocks (add_region_loop i e s)))"
  using assms
proof (induction i e s rule: add_region_loop.induct)
  case (1 i e s)
  show ?case
  proof (cases "i < e")
    case False
    then have "add_region_loop i e s = s" by (subst add_region_loop.simps) simp
    with "1.prems" False show ?thesis by simp
  next
    case True
    let ?F = "free_blocks s" and ?T = "total_pages s" and ?fl = "free_list s"
    define k where "k = region_order i e 0"
    let ?s1 = "set_page i (\<lambda>p. p\<lparr>pg_order := of_nat k, pg_flags := 0\<rparr>) s"
    let ?s2 = "list_add k i ?s1" and ?fl2 = "?fl(k := i # ?fl k)"
    have k: "2 ^ k dvd i" "i + 2 ^ k \<le> e" "k < MAX_ORDER"
      "Suc k = MAX_ORDER \<or> \<not> 2 ^ Suc k dvd i \<or> e < i + 2 ^ Suc k"
      using region_order_props [of 0 i e] True by (simp_all add: k_def MAX_ORDER_def)
    have T: "?T \<le> 2 ^ 20" and rep: "free_rep s ?fl" and wf: "buddy_wf ?T ?F A"
      and fo: "flags_ok s A (cover ?F \<union> cover A)"
      using "1.prems"(1) by (simp_all add: pmm_inv_def)
    have blk: "blk (i, k) \<subseteq> {i..<e}" "i \<in> blk (i, k)" using k(2) by (auto simp: blk_def)
    then have apart: "blk (i, k) \<inter> cover (?F \<union> A) = {}" using "1.prems"(3) by auto
    then have fresh: "i \<notin> cover ?F" "i \<notin> cover A" using blk(2) by auto
    then have nin: "l < MAX_ORDER \<Longrightarrow> i \<notin> set (?fl l)" for l
      unfolding free_blocks_def by (intro blocks_of_notin) auto
    have rep2: "free_rep ?s2 ?fl2"
    proof (rule free_rep_list_add)
      show "free_rep ?s1 ?fl" by (rule free_rep_set_page [OF rep nin])
      have "k < 2 ^ 8" using k(3) by (simp add: MAX_ORDER_def)
      then show "unat (pg_order (pages ?s1 i)) = k" by (simp add: unat_of_nat take_bit_nat_eq_self)
    qed (use k nin in auto)
    have F2: "blocks_of ?fl2 = insert (i, k) ?F"
      unfolding free_blocks_def by (rule blocks_of_add [OF k(3)])
    have bnotin: "(i, k) \<notin> ?F \<union> A" by (rule notin_apart [OF apart])
    have "valid_block ?T (i, k)" using k "1.prems"(2) by (simp add: valid_block_def)
    then have wf2: "buddy_wf ?T (insert (i, k) ?F) A"
      using wf bnotin apart disjoint_blocks_insert [OF bnotin]
      by (auto simp: buddy_wf_def simp del: cover_Un)
    have "flags_ok ?s2 A (cover (insert (i, k) ?F) \<union> cover A)"
      unfolding flags_ok_def
    proof (intro conjI ballI allI impI)
      fix b assume b: "b \<in> A"
      then have "fst b \<noteq> i" using fresh(2) blk_start [of b] unfolding cover_def by blast
      with b fo show "pg_flags (pages ?s2 (fst b)) = 1" by (simp add: frame_simps flags_ok_def)
    next
      fix p assume p: "p < total_pages ?s2" "p \<notin> cover (insert (i, k) ?F) \<union> cover A"
      then have "p \<noteq> i" using blk(2) by auto
      with p fo show "pg_flags (pages ?s2 p) = 1" by (simp add: frame_simps flags_ok_def)
    qed
    then have inv2: "pmm_inv ?s2 A" "free_blocks ?s2 = insert (i, k) ?F"
      using pmm_invI [OF _ rep2, of A] T wf2 F2 by (simp_all add: frame_simps del: fun_upd_apply)
    have T2: "total_pages ?s2 = ?T" by (simp add: frame_simps)
    have "{i + 2 ^ k..<e} \<inter> (cover (free_blocks ?s2) \<union> cover A) = {}"
      using "1.prems"(3) unfolding inv2(2) by (auto simp: blk_def disjoint_iff)
    then have ih: "pmm_inv (add_region_loop (i + 2 ^ k) e ?s2) A \<and>
      total_pages (add_region_loop (i + 2 ^ k) e ?s2) = ?T \<and>
      cover (free_blocks (add_region_loop (i + 2 ^ k) e ?s2)) = cover (free_blocks ?s2) \<union> {i + 2 ^ k..<e} \<and>
      (maximal_blocks e (free_blocks ?s2) \<longrightarrow>
       maximal_blocks e (free_blocks (add_region_loop (i + 2 ^ k) e ?s2)))"
      using "1.IH" [OF True k_def refl, OF inv2(1)] "1.prems"(2) T2 by simp
    have "maximal_blocks e ?F \<Longrightarrow> maximal_blocks e (free_blocks ?s2)"
      using k(4) unfolding inv2(2) by (auto simp: maximal_blocks_def)
    moreover have "cover (free_blocks ?s2) \<union> {i + 2 ^ k..<e} = cover ?F \<union> {i..<e}"
      using k(2) unfolding inv2(2) by (auto simp: blk_def)
    moreover have "add_region_loop i e s = add_region_loop (i + 2 ^ k) e ?s2"
      using True by (subst add_region_loop.simps) (simp add: Let_def k_def)
    ultimately show ?thesis using ih by simp
  qed
qed

lemma fold_set_page:
  "pages (fold (\<lambda>i. set_page i f) [0..<n] s) = (\<lambda>i. if i < n then f (pages s i) else pages s i)"
  "total_pages (fold (\<lambda>i. set_page i f) [0..<n] s) = total_pages s"
  "free_lists (fold (\<lambda>i. set_page i f) [0..<n] s) = free_lists s"
  by (induction n) (auto simp: fun_eq_iff)

lemma fold_set_head:
  "free_lists (fold (\<lambda>i. set_head i h) [0..<n] s) = (\<lambda>i. if i < n then h else free_lists s i)"
  "total_pages (fold (\<lambda>i. set_head i h) [0..<n] s) = total_pages s"
  "pages (fold (\<lambda>i. set_head i h) [0..<n] s) = pages s"
  by (induction n) (auto simp: fun_eq_iff)

lemma pmm_init_correct:
  "pmm_inv (pmm_init mem_size base s) {}" "free_blocks (pmm_init mem_size base s) = {}"
  "total_pages (pmm_init mem_size base s) = unat (mem_size div PAGE_SIZE)"
proof -
  let ?s = "pmm_init mem_size base s"
  show T: "total_pages ?s = unat (mem_size div PAGE_SIZE)"
    by (simp only: pmm_init_def Let_def fold_set_page fold_set_head) simp
  have heads: "k < MAX_ORDER \<Longrightarrow> free_lists ?s k = None" for k
    by (simp only: pmm_init_def Let_def fold_set_page fold_set_head) simp
  have flags: "p < total_pages ?s \<Longrightarrow> pg_flags (pages ?s p) = 1" for p
    unfolding T by (simp only: pmm_init_def Let_def fold_set_page fold_set_head) simp
  have "total_pages ?s \<le> 2 ^ 20"
  proof -
    have "unat mem_size < 2 ^ 32" using unsigned_less [of mem_size] by simp
    then show ?thesis by (simp add: T PAGE_SIZE_def unat_div)
  qed
  moreover have "free_rep ?s (\<lambda>_. [])" using heads by (simp add: free_rep_def)
  moreover have "buddy_wf (total_pages ?s) (blocks_of (\<lambda>_. [])) {}"
    by (simp add: buddy_wf_def blocks_of_def disjoint_family_on_def)
  moreover have "flags_ok ?s {} (cover (blocks_of (\<lambda>_. [])) \<union> cover {})"
    using flags by (simp add: flags_ok_def)
  ultimately have "pmm_inv ?s {} \<and> free_blocks ?s = blocks_of (\<lambda>_. [])"
    using pmm_invI by blast
  then show "pmm_inv ?s {}" "free_blocks ?s = {}" by (auto simp: blocks_of_def)
qed

lemma pmm_boot_state:
  fixes start len mem_size base :: u32 and s :: pmm_state
  assumes "unat (start div PAGE_SIZE) \<le> unat ((start + len) div PAGE_SIZE)"
    and "unat ((start + len) div PAGE_SIZE) \<le> unat (mem_size div PAGE_SIZE)"
  defines "s' \<equiv> pmm_add_region start len (pmm_init mem_size base s)"
  shows "pmm_inv s' {}" "coalesced (free_blocks s')"
    "total_pages s' = unat (mem_size div PAGE_SIZE)"
    "cover (free_blocks s') = {unat (start div PAGE_SIZE)..<unat ((start + len) div PAGE_SIZE)}"
proof -
  let ?s = "pmm_init mem_size base s" and ?e = "unat ((start + len) div PAGE_SIZE)"
  note init = pmm_init_correct [of mem_size base s]
  have "maximal_blocks ?e (free_blocks ?s)" by (simp add: init maximal_blocks_def)
  with add_region_loop_correct [OF init(1), of ?e "unat (start div PAGE_SIZE)"] assms(2)
  have loop: "pmm_inv s' {}" "total_pages s' = total_pages ?s"
    "cover (free_blocks s') = {unat (start div PAGE_SIZE)..<?e}" "maximal_blocks ?e (free_blocks s')"
    by (simp_all add: init s'_def pmm_add_region_def)
  then show "pmm_inv s' {}" "total_pages s' = unat (mem_size div PAGE_SIZE)"
    "cover (free_blocks s') = {unat (start div PAGE_SIZE)..<?e}"
    by (simp_all add: init)
  have "buddy_wf (total_pages s') (free_blocks s') {}" using loop(1) by (simp add: pmm_inv_def)
  then show "coalesced (free_blocks s')"
    using loop(4) by (rule maximal_coalesced) (auto simp: loop(3))
qed

section \<open>Requests and frees, seen through the frames they cover\<close>

lemma pmm_alloc_step:
  assumes inv: "pmm_inv s A" and al: "pmm_alloc_pages ord s = (ptr, s')"
  obtains (none) "ptr = 0" "s' = s" "\<forall>(j, l)\<in>free_blocks s. l < ord"
  | (some) i where "ptr = of_nat i * PAGE_SIZE" "valid_block (total_pages s) (i, ord)" "(i, ord) \<notin> A"
      "blk (i, ord) \<subseteq> cover (free_blocks s)" "blk (i, ord) \<inter> cover A = {}"
      "pmm_inv s' (insert (i, ord) A)" "total_pages s' = total_pages s"
      "cover (free_blocks s') = cover (free_blocks s) - blk (i, ord)"
      "coalesced (free_blocks s) \<longrightarrow> coalesced (free_blocks s')"
      "coalesced (free_blocks s) \<longrightarrow> spec_free (free_blocks s') i ord = free_blocks s"
proof (cases rule: pmm_alloc_refines [OF inv, of ord])
  case 1
  with al show thesis by (intro none) auto
next
  case (2 i l t)
  with al have s': "ptr = of_nat i * PAGE_SIZE" "s' = t" by auto
  let ?F = "free_blocks s"
  have wf: "buddy_wf (total_pages s) ?F A" using inv by (simp add: pmm_inv_def)
  have wf1: "buddy_wf (total_pages s) (?F - {(i, l)}) (insert (i, l) A)" and new: "(i, l) \<notin> A"
    using buddy_wf_take [OF wf 2(1)] wf 2(1) by (auto simp: buddy_wf_def)
  note spec = spec_split_wf [OF wf1 new 2(2)]
  have wf': "buddy_wf (total_pages s) (free_blocks t) (insert (i, ord) A)"
    using 2(6,7) by (simp add: pmm_inv_def)
  have "blk (i, l) \<subseteq> cover ?F" using 2(1) by (auto simp: cover_def)
  moreover have "cover ?F = cover (?F - {(i, l)}) \<union> blk (i, l)" using 2(1) by (auto simp: cover_def)
  ultimately have cov: "cover (free_blocks t) \<union> blk (i, ord) = cover ?F"
    using spec by (simp add: 2(8))
  have "cover (free_blocks t) \<inter> cover (insert (i, ord) A) = {}" by (rule buddy_wf_disjoint [OF wf'])
  then have "cover (free_blocks t) = cover ?F - blk (i, ord)" using cov by auto
  moreover have "blk (i, ord) \<inter> cover A = {}"
    using cov buddy_wf_disjoint [OF wf] by blast
  moreover have "coalesced ?F \<longrightarrow> coalesced (free_blocks t)"
    using spec by (auto simp: 2(8) intro: coalesced_remove)
  moreover have "coalesced ?F \<longrightarrow> spec_free (free_blocks t) i ord = ?F"
    using spec_alloc_free [OF wf _ 2(1,2)] by (simp add: 2(8))
  ultimately show thesis
    using s' 2(5,6,7) cov buddy_wf_valid [OF wf', of "(i, ord)"] by (intro some) auto
qed

lemma pmm_alloc_null:
  assumes inv: "pmm_inv s A" and co: "coalesced (free_blocks s)" and zero: "0 \<notin> cover (free_blocks s)"
    and k: "ord < MAX_ORDER"
  shows "fst (pmm_alloc_pages ord s) = 0 \<longleftrightarrow>
     (\<nexists>i. 2 ^ ord dvd i \<and> blk (i, ord) \<subseteq> cover (free_blocks s))"
proof -
  let ?F = "free_blocks s"
  have wf: "buddy_wf (total_pages s) ?F A" and T: "total_pages s \<le> 2 ^ 20"
    using inv by (simp_all add: pmm_inv_def)
  obtain ptr s' where al: "pmm_alloc_pages ord s = (ptr, s')" by fastforce
  show ?thesis
  proof (cases rule: pmm_alloc_step [OF inv al])
    case 1
    have "\<not> blk (i, ord) \<subseteq> cover ?F" if dvd: "2 ^ ord dvd i" for i
    proof
      assume sub: "blk (i, ord) \<subseteq> cover ?F"
      then have "i \<in> cover ?F" using blk_start [of "(i, ord)"] by auto
      then obtain j l where jl: "(j, l) \<in> ?F" "i \<in> blk (j, l)" by (auto simp: cover_def)
      with 1(3) have "l < ord" by auto
      moreover have "blk (j, l) \<subseteq> blk (i, ord)"
        using \<open>l < ord\<close> dvd jl buddy_wf_aligned [OF wf] blk_start [of "(i, ord)"]
        by (intro blk_nested) auto
      ultimately show False
        using coalesced_no_cover [OF wf co jl(1) dvd k] sub by blast
    qed
    with 1 al show ?thesis by auto
  next
    case (2 i)
    have "i \<in> cover ?F" using 2(4) blk_start [of "(i, ord)"] by auto
    then have "i \<noteq> 0" using zero by metis
    moreover have "i < 2 ^ 20" using valid_block_less [OF 2(2)] T by simp
    ultimately have "unat ptr \<noteq> 0" using pmm_addr(1) [of i] 2(1) by simp
    then have "ptr \<noteq> 0" by auto
    with 2(2,4) al show ?thesis by (auto simp: valid_block_def)
  qed
qed

section \<open>Histories\<close>

text \<open>
  Any interleaving of successful requests and of frees of live blocks, from a state
  \<open>s0\<close>; the set is the blocks live at the end.
\<close>

inductive pmm_history :: "pmm_state \<Rightarrow> pmm_state \<Rightarrow> (nat \<times> nat) set \<Rightarrow> bool" for s0 where
  start: "pmm_history s0 s0 {}"
| alloc: "pmm_history s0 s A \<Longrightarrow> pmm_alloc_pages ord s = (ptr, s') \<Longrightarrow> ptr \<noteq> 0 \<Longrightarrow>
     pmm_history s0 s' (insert (unat (ptr div PAGE_SIZE), ord) A)"
| free: "pmm_history s0 s A \<Longrightarrow> (i, ord) \<in> A \<Longrightarrow>
     pmm_history s0 (pmm_free_pages (of_nat i * PAGE_SIZE) ord s) (A - {(i, ord)})"

lemma pmm_free_step:
  assumes inv: "pmm_inv s A" and live: "(i, k) \<in> A"
  defines "s' \<equiv> pmm_free_pages (of_nat i * PAGE_SIZE) k s"
  shows "pmm_inv s' (A - {(i, k)})" "total_pages s' = total_pages s"
    and "cover (free_blocks s') = cover (free_blocks s) \<union> blk (i, k)"
    and "coalesced (free_blocks s) \<Longrightarrow> coalesced (free_blocks s')"
proof -
  have eq: "A = insert (i, k) (A - {(i, k)})" using live by auto
  then have inv': "pmm_inv s (insert (i, k) (A - {(i, k)}))" using inv by simp
  then have wf: "buddy_wf (total_pages s) (free_blocks s) (insert (i, k) (A - {(i, k)}))"
    by (simp only: pmm_inv_def)
  have new: "(i, k) \<notin> A - {(i, k)}" by simp
  show "pmm_inv s' (A - {(i, k)})" "total_pages s' = total_pages s"
    "cover (free_blocks s') = cover (free_blocks s) \<union> blk (i, k)"
    "coalesced (free_blocks s) \<Longrightarrow> coalesced (free_blocks s')"
    using pmm_free_refines [OF inv' new] spec_free_wf [OF wf new] by (simp_all add: s'_def)
qed

lemma pmm_history_inv:
  assumes "pmm_inv s0 {}" "coalesced (free_blocks s0)"
  shows "pmm_history s0 s A \<Longrightarrow> pmm_inv s A \<and> coalesced (free_blocks s) \<and>
     total_pages s = total_pages s0 \<and> cover (free_blocks s) \<union> cover A = cover (free_blocks s0)"
proof (induction rule: pmm_history.induct)
  case start
  with assms show ?case by simp
next
  case (alloc s A ord ptr s')
  then have inv: "pmm_inv s A" by simp
  show ?case
  proof (cases rule: pmm_alloc_step [OF inv alloc.hyps(2)])
    case 1
    with alloc show ?thesis by simp
  next
    case (2 i)
    have "i < 2 ^ 20"
      using valid_block_less [OF 2(2)] inv by (simp add: pmm_inv_def)
    then have i: "unat (ptr div PAGE_SIZE) = i" using 2(1) pmm_addr(2) by simp
    show ?thesis
      unfolding i using 2 alloc.IH by auto
  qed
next
  case (free s A i k)
  then have inv: "pmm_inv s A" by simp
  have "cover A = blk (i, k) \<union> cover (A - {(i, k)})" using free.hyps(2) by (auto simp: cover_def)
  with pmm_free_step [OF inv free.hyps(2)] free.IH show ?case by auto
qed

section \<open>The interface the paging code and the heap rely on\<close>

text \<open>
  A source of page frames: a request returns a frame that was free, is not NULL and is
  aligned, and takes nothing else; NULL is returned only when no frame is left.
\<close>

locale frame_source =
  fixes alloc :: "'s \<Rightarrow> u32 \<times> 's"
    and ok :: "'s \<Rightarrow> bool"
    and frames :: "'s \<Rightarrow> u32 set"
  assumes alloc_frame: "ok s \<Longrightarrow> alloc s = (p, s') \<Longrightarrow> p \<noteq> 0 \<Longrightarrow>
      ok s' \<and> p \<in> frames s \<and> frames s' = frames s - {p}"
    and alloc_empty: "ok s \<Longrightarrow> alloc s = (0, s') \<Longrightarrow> s' = s \<and> frames s = {}"
    and frame_aligned: "ok s \<Longrightarrow> p \<in> frames s \<Longrightarrow> p \<noteq> 0 \<and> p AND 0xFFF = 0"
begin

fun alloc_n :: "nat \<Rightarrow> 's \<Rightarrow> u32 list \<times> 's" where
  "alloc_n 0 s = ([], s)"
| "alloc_n (Suc n) s = (let (p, s1) = alloc s; (ps, s2) = alloc_n n s1 in (p # ps, s2))"

lemma frames_finite: "finite (frames s)"
  by (rule finite_subset [OF subset_UNIV]) simp

text \<open>A client that checks there are enough frames gets that many different ones.\<close>

lemma alloc_n_distinct:
  "ok s \<Longrightarrow> n \<le> card (frames s) \<Longrightarrow> alloc_n n s = (ps, s') \<Longrightarrow>
     length ps = n \<and> distinct ps \<and> set ps \<subseteq> frames s \<and> ok s' \<and> frames s' = frames s - set ps"
proof (induction n arbitrary: s ps s')
  case 0
  then show ?case by simp
next
  case (Suc n)
  obtain p s1 where p: "alloc s = (p, s1)" by fastforce
  obtain qs s2 where qs: "alloc_n n s1 = (qs, s2)" by fastforce
  have ps: "ps = p # qs" "s' = s2" using Suc.prems(3) p qs by auto
  have "p \<noteq> 0" using alloc_empty [of s s1] Suc.prems(1,2) p by auto
  then have s1: "ok s1" "p \<in> frames s" "frames s1 = frames s - {p}"
    using alloc_frame [OF Suc.prems(1) p] by auto
  then have "n \<le> card (frames s1)" using Suc.prems(2) frames_finite by simp
  from Suc.IH [OF s1(1) this qs] s1 show ?case by (auto simp: ps)
qed

end

text \<open>\<^verbatim>\<open>pmm_alloc_pages(0)\<close> is such a source, once frame 0 is kept out of the free blocks.\<close>

definition pmm_ok :: "pmm_state \<Rightarrow> bool" where
  "pmm_ok s \<longleftrightarrow>
     (\<exists>A. pmm_inv s A) \<and> coalesced (free_blocks s) \<and> 0 \<notin> cover (free_blocks s)"

definition free_frames :: "pmm_state \<Rightarrow> u32 set" where
  "free_frames s = (\<lambda>i. of_nat i * PAGE_SIZE) ` cover (free_blocks s)"

lemma pmm_cover_bound: "pmm_inv s A \<Longrightarrow> i \<in> cover (free_blocks s) \<Longrightarrow> i < 2 ^ 20"
proof -
  assume inv: "pmm_inv s A" and "i \<in> cover (free_blocks s)"
  then obtain b where b: "b \<in> free_blocks s" "i \<in> blk b" by (auto simp: cover_def)
  with inv have "valid_block (total_pages s) b" "total_pages s \<le> 2 ^ 20"
    by (auto simp: pmm_inv_def buddy_wf_def)
  with b show "i < 2 ^ 20" by (auto simp: valid_block_def blk_def)
qed

lemma page_addr_inj: "i < 2 ^ 20 \<Longrightarrow> j < 2 ^ 20 \<Longrightarrow> of_nat i * PAGE_SIZE = of_nat j * PAGE_SIZE \<Longrightarrow> i = j"
  by (metis pmm_addr(2))

lemma page_addr_aligned: "i < 2 ^ 20 \<Longrightarrow> (of_nat i * PAGE_SIZE) AND 0xFFF = (0::u32)"
proof -
  have "of_nat i * PAGE_SIZE = push_bit 12 (of_nat i :: u32)"
    by (simp add: push_bit_eq_mult PAGE_SIZE_def)
  moreover have "(0xFFF :: u32) = mask 12" by (simp add: mask_eq_exp_minus_1)
  moreover have "push_bit 12 w AND mask 12 = (0::u32)" for w :: u32
    by (simp add: take_bit_eq_mask [symmetric] take_bit_push_bit)
  ultimately show ?thesis by (simp only:)
qed

interpretation pmm: frame_source "pmm_alloc_pages 0" pmm_ok free_frames
proof unfold_locales
  fix s s' :: pmm_state and p :: u32
  { assume ok: "pmm_ok s" and al: "pmm_alloc_pages 0 s = (p, s')" and p: "p \<noteq> 0"
    then obtain A where inv: "pmm_inv s A" by (auto simp: pmm_ok_def)
    show "pmm_ok s' \<and> p \<in> free_frames s \<and> free_frames s' = free_frames s - {p}"
    proof (cases rule: pmm_alloc_step [OF inv al])
      case 1
      with p show ?thesis by simp
    next
      case (2 i)
      have i: "blk (i, 0) = {i}" by (auto simp: blk_def)
      have "of_nat j * PAGE_SIZE \<noteq> p" if "j \<in> cover (free_blocks s)" "j \<noteq> i" for j
        using page_addr_inj [of j i] pmm_cover_bound [OF inv] 2(1,4) i that by auto
      then have "free_frames s' = free_frames s - {p}"
        using 2(1,8) i by (auto simp: free_frames_def)
      moreover have "p \<in> free_frames s" using 2(1,4) i by (auto simp: free_frames_def)
      ultimately show ?thesis using ok 2 by (auto simp: pmm_ok_def)
    qed }
  { assume ok: "pmm_ok s" and al: "pmm_alloc_pages 0 s = (0, s')"
    then obtain A where inv: "pmm_inv s A" by (auto simp: pmm_ok_def)
    show "s' = s \<and> free_frames s = {}"
    proof (cases rule: pmm_alloc_step [OF inv al])
      case 1
      then have "free_blocks s = {}" by auto
      with 1 show ?thesis by (simp add: free_frames_def)
    next
      case (2 i)
      have "i \<in> cover (free_blocks s)" using 2(4) by (simp add: blk_def)
      then have "i < 2 ^ 20" "i \<noteq> 0" using pmm_cover_bound [OF inv] ok by (auto simp: pmm_ok_def intro: gr0I)
      then have "unat (0::u32) \<noteq> 0" unfolding 2(1) using pmm_addr(1) [of i] by simp
      then show ?thesis by simp
    qed }
  { assume ok: "pmm_ok s" and "p \<in> free_frames s"
    then obtain A i where inv: "pmm_inv s A" and i: "i \<in> cover (free_blocks s)" "p = of_nat i * PAGE_SIZE"
      by (auto simp: pmm_ok_def free_frames_def)
    then have "i < 2 ^ 20" "i \<noteq> 0" using pmm_cover_bound [OF inv] ok by (auto simp: pmm_ok_def intro: gr0I)
    with i(2) pmm_addr(1) [of i] page_addr_aligned [of i] show "p \<noteq> 0 \<and> p AND 0xFFF = 0" by auto }
qed

section \<open>Properties\<close>

text \<open>The allocator as \<^verbatim>\<open>kmain\<close> sets it up: 128 MB of memory, all of it free above 5 MB.\<close>

definition kmain_pmm :: "pmm_state \<Rightarrow> pmm_state" where
  "kmain_pmm s =
     pmm_add_region 0x500000 ((128 - 5) * 1024 * 1024)
       (pmm_init (128 * 1024 * 1024) 0x400000 s)"

lemma kmain_pmm_state:
  "pmm_inv (kmain_pmm s) {}" "coalesced (free_blocks (kmain_pmm s))"
  "total_pages (kmain_pmm s) = 32768" "cover (free_blocks (kmain_pmm s)) = {1280..<32768}"
  using pmm_boot_state [of "0x500000" "(128 - 5) * 1024 * 1024" "128 * 1024 * 1024" "0x400000" s]
  by (simp_all add: kmain_pmm_def PAGE_SIZE_def)

lemma kmain_pmm_ok: "pmm_ok (kmain_pmm s)"
  unfolding pmm_ok_def using kmain_pmm_state [of s] by auto

lemma kmain_pmm_alloc:
  assumes "ord < MAX_ORDER"
  shows "fst (pmm_alloc_pages ord (kmain_pmm s)) \<noteq> 0"
proof -
  have "blk (2048, ord) \<subseteq> {1280..<32768}"
  proof -
    have "(2::nat) ^ ord \<le> 2 ^ 11" using assms by (intro power_increasing) (auto simp: MAX_ORDER_def)
    then show ?thesis by (auto simp: blk_def)
  qed
  moreover have "(2::nat) ^ ord dvd 2048"
    using assms le_imp_power_dvd [of ord 11 "2::nat"] by (simp add: MAX_ORDER_def)
  ultimately show ?thesis
    using pmm_alloc_null [OF kmain_pmm_state(1,2) _ assms, of s] by (auto simp: kmain_pmm_state)
qed

text \<open>
  C1: After \<^verbatim>\<open>pmm_init\<close> and \<^verbatim>\<open>pmm_add_region\<close> of a region that lies inside the memory,
  the allocator's invariant holds with no block live, no two free buddies are left
  unmerged, and the free blocks cover exactly the pages of the region.
\<close>

theorem pmm_boot:
  fixes start len mem_size base :: u32 and s :: pmm_state
  assumes "start div PAGE_SIZE \<le> (start + len) div PAGE_SIZE"
    and "(start + len) div PAGE_SIZE \<le> mem_size div PAGE_SIZE"
  shows "let s' = pmm_add_region start len (pmm_init mem_size base s) in
     pmm_inv s' {} \<and> coalesced (free_blocks s') \<and>
     cover (free_blocks s') =
       {unat (start div PAGE_SIZE)..<unat ((start + len) div PAGE_SIZE)}"
  using pmm_boot_state [of start len mem_size base s] assms
  by (simp add: word_le_nat_alt Let_def)

theorem pmm_boot_witness:
  "cover (free_blocks (pmm_add_region 0x500000 0x7B00000 (pmm_init 0x8000000 0x400000
     \<lparr>pages_base = 0, pages = (\<lambda>_. \<lparr>pg_order = 7, pg_flags = 0, pg_next = Some 3, pg_prev = None\<rparr>),
      total_pages = 0, free_lists = (\<lambda>_. Some 9)\<rparr>))) = {1280..<32768}"
  using pmm_boot [of "0x500000" "0x7B00000" "0x8000000"] by (simp add: PAGE_SIZE_def Let_def)

text \<open>
  C2: A request that does not return NULL returns a block of the requested size, aligned
  to its size, inside the memory, free until now and disjoint from every live block; it
  becomes live, the free frames lose exactly its frames, and the invariant is kept.
\<close>

theorem pmm_alloc_sound:
  assumes "pmm_inv s A" and "coalesced (free_blocks s)"
    and "pmm_alloc_pages ord s = (ptr, s')" and "ptr \<noteq> 0"
  shows "\<exists>i. ptr = of_nat i * PAGE_SIZE \<and> 2 ^ ord dvd i \<and> i + 2 ^ ord \<le> total_pages s \<and>
     blk (i, ord) \<subseteq> cover (free_blocks s) \<and> blk (i, ord) \<inter> cover A = {} \<and>
     pmm_inv s' (insert (i, ord) A) \<and> coalesced (free_blocks s') \<and>
     cover (free_blocks s') = cover (free_blocks s) - blk (i, ord)"
proof (cases rule: pmm_alloc_step [OF assms(1,3)])
  case 1
  with assms(4) show ?thesis by simp
next
  case (2 i)
  with assms(2) show ?thesis by (intro exI [of _ i]) (simp add: valid_block_def)
qed

theorem pmm_alloc_sound_witness:
  "\<exists>i. fst (pmm_alloc_pages 3 (kmain_pmm undefined)) = of_nat i * PAGE_SIZE \<and> 8 dvd i \<and>
     blk (i, 3) \<subseteq> {1280..<32768}"
proof -
  obtain p t where al: "pmm_alloc_pages 3 (kmain_pmm undefined) = (p, t)" by fastforce
  have "p \<noteq> 0" using kmain_pmm_alloc [of 3 undefined] al by (simp add: MAX_ORDER_def)
  from pmm_alloc_sound [OF kmain_pmm_state(1,2) al this] show ?thesis
    by (auto simp: al kmain_pmm_state)
qed

text \<open>
  C3: NULL means that nowhere in memory there is an aligned run of \<open>2 ^ ord\<close> free frames:
  a request never fails for want of merging.
\<close>

theorem pmm_alloc_complete:
  assumes "pmm_inv s A" and "coalesced (free_blocks s)" and "0 \<notin> cover (free_blocks s)"
    and "ord < MAX_ORDER"
  shows "fst (pmm_alloc_pages ord s) = 0 \<longleftrightarrow>
     (\<forall>i. 2 ^ ord dvd i \<longrightarrow> \<not> {i..<i + 2 ^ ord} \<subseteq> cover (free_blocks s))"
  using pmm_alloc_null [OF assms] by (simp add: blk_def)

theorem pmm_alloc_complete_witness:
  "fst (pmm_alloc_pages 11 (kmain_pmm undefined)) \<noteq> 0"
proof -
  let ?s = "kmain_pmm undefined"
  have "2 ^ 11 dvd (2048::nat) \<and> {2048..<2048 + 2 ^ 11} \<subseteq> cover (free_blocks ?s)"
    unfolding kmain_pmm_state by simp
  moreover have "fst (pmm_alloc_pages 11 ?s) = 0 \<longleftrightarrow>
      (\<forall>i. 2 ^ 11 dvd i \<longrightarrow> \<not> {i..<i + 2 ^ 11} \<subseteq> cover (free_blocks ?s))"
    by (rule pmm_alloc_complete [OF kmain_pmm_state(1,2)]) (simp_all add: kmain_pmm_state MAX_ORDER_def)
  ultimately show ?thesis by blast
qed

text \<open>
  C4: Freeing a live block keeps the invariant without it: the free frames gain exactly
  its frames, and buddies are merged as far as they go.
\<close>

theorem pmm_free_sound:
  assumes "pmm_inv s A" and "coalesced (free_blocks s)" and "(i, ord) \<in> A"
  shows "let s' = pmm_free_pages (of_nat i * PAGE_SIZE) ord s in
     pmm_inv s' (A - {(i, ord)}) \<and> coalesced (free_blocks s') \<and>
     cover (free_blocks s') = cover (free_blocks s) \<union> {i..<i + 2 ^ ord}"
  using pmm_free_step [OF assms(1,3)] assms(2) by (simp add: Let_def blk_def)

theorem pmm_free_sound_witness:
  "\<exists>i s'. snd (pmm_alloc_pages 3 (kmain_pmm undefined)) = s' \<and>
     cover (free_blocks (pmm_free_pages (of_nat i * PAGE_SIZE) 3 s')) = {1280..<32768}"
proof -
  obtain p t where al: "pmm_alloc_pages 3 (kmain_pmm undefined) = (p, t)" by fastforce
  show ?thesis
  proof (cases rule: pmm_alloc_step [OF kmain_pmm_state(1) al])
    case 1
    with kmain_pmm_alloc [of 3 undefined] al show ?thesis by (simp add: MAX_ORDER_def)
  next
    case (2 i)
    then have "cover (free_blocks (pmm_free_pages (of_nat i * PAGE_SIZE) 3 t))
        = cover (free_blocks t) \<union> {i..<i + 2 ^ 3}"
      using pmm_free_sound [of t "{(i, 3)}" i 3] kmain_pmm_state(2) by (simp add: Let_def)
    with 2 show ?thesis by (intro exI [of _ i]) (auto simp: al blk_def kmain_pmm_state)
  qed
qed

text \<open>
  C5: Freeing what was just allocated restores the free lists' blocks exactly: every
  split of the request is undone by a merge.
\<close>

theorem pmm_alloc_free_roundtrip:
  assumes "pmm_inv s A" and "coalesced (free_blocks s)"
    and "pmm_alloc_pages ord s = (ptr, s')" and "ptr \<noteq> 0"
  shows "pmm_inv (pmm_free_pages ptr ord s') A \<and>
     free_blocks (pmm_free_pages ptr ord s') = free_blocks s"
proof (cases rule: pmm_alloc_step [OF assms(1,3)])
  case 1
  with assms(4) show ?thesis by simp
next
  case (2 i)
  with pmm_free_refines [OF 2(6,3)] assms(2) show ?thesis by simp
qed

theorem pmm_alloc_free_roundtrip_witness:
  "free_blocks (pmm_free_pages (fst (pmm_alloc_pages 0 (kmain_pmm undefined))) 0
     (snd (pmm_alloc_pages 0 (kmain_pmm undefined)))) = free_blocks (kmain_pmm undefined)"
proof -
  obtain p t where al: "pmm_alloc_pages 0 (kmain_pmm undefined) = (p, t)" by fastforce
  have "p \<noteq> 0" using kmain_pmm_alloc [of 0 undefined] al by (simp add: MAX_ORDER_def)
  from pmm_alloc_free_roundtrip [OF kmain_pmm_state(1,2) al this] show ?thesis by (simp add: al)
qed

text \<open>
  C6: However requests and frees are interleaved, free and live frames always add up to
  the frames at the start, live blocks never overlap, and when everything has been
  freed the allocator holds the very blocks it started with: no fragmentation remains.
\<close>

theorem pmm_no_fragmentation:
  assumes "pmm_inv s0 {}" and "coalesced (free_blocks s0)" and "pmm_history s0 s A"
  shows "cover (free_blocks s) \<inter> cover A = {} \<and>
     cover (free_blocks s) \<union> cover A = cover (free_blocks s0) \<and>
     disjoint_family_on blk A \<and> (A = {} \<longrightarrow> free_blocks s = free_blocks s0)"
proof -
  note h = pmm_history_inv [OF assms]
  then have wf: "buddy_wf (total_pages s0) (free_blocks s) A" by (auto simp: pmm_inv_def)
  have wf0: "buddy_wf (total_pages s0) (free_blocks s0) {}" using assms(1) by (simp add: pmm_inv_def)
  have "free_blocks s = free_blocks s0" if "A = {}"
    using coalesced_canonical [OF wf _ wf0 assms(2)] h that by simp
  moreover have "disjoint_family_on blk A"
    using wf by (auto simp: buddy_wf_def intro: disjoint_blocks_subset)
  ultimately show ?thesis using h buddy_wf_disjoint [OF wf] by simp
qed

theorem pmm_no_fragmentation_witness:
  "\<exists>s A. pmm_history (kmain_pmm undefined) s A \<and> A \<noteq> {} \<and>
     cover (free_blocks s) \<union> cover A = {1280..<32768}"
proof -
  obtain p t where al: "pmm_alloc_pages 0 (kmain_pmm undefined) = (p, t)" by fastforce
  have "p \<noteq> 0" using kmain_pmm_alloc [of 0 undefined] al by (simp add: MAX_ORDER_def)
  from pmm_history.alloc [OF pmm_history.start al this]
  have h: "pmm_history (kmain_pmm undefined) t {(unat (p div PAGE_SIZE), 0)}" by simp
  from pmm_no_fragmentation [OF kmain_pmm_state(1,2) h] h show ?thesis
    by (intro exI conjI) (auto simp: kmain_pmm_state)
qed

end
