(* ===== verification/Cstring.thy ===== *)
theory Cstring
  imports Prelude
begin

text \<open>
  \<^verbatim>\<open>common/string.c\<close>: the memory and string routines of the kernel on the byte-addressed
  memory of \<^theory_text>\<open>Prelude\<close>. \<^verbatim>\<open>memset\<close>, \<^verbatim>\<open>memcpy\<close> and \<^verbatim>\<open>strncmp\<close> count down a length, so their
  loops are structural; \<^verbatim>\<open>strlen\<close>, \<^verbatim>\<open>strcpy\<close> and \<^verbatim>\<open>strcmp\<close> run until they meet a zero byte, so
  they are partial. \<open>cstr m s xs\<close> says that the terminated string \<open>xs\<close> stands at address \<open>s\<close>;
  the lemmas give each routine's result and the memory it leaves behind for such strings.
\<close>

section \<open>\<^verbatim>\<open>memset\<close> and \<^verbatim>\<open>memcpy\<close>\<close>

fun memset_loop :: "nat \<Rightarrow> u32 \<Rightarrow> u8 \<Rightarrow> mem \<Rightarrow> mem" where
  "memset_loop 0 ptr v m = m"
| "memset_loop (Suc len) ptr v m = memset_loop len (ptr + 1) v (m(ptr := v))"

definition memset :: "u32 \<Rightarrow> u32 \<Rightarrow> u32 \<Rightarrow> mem \<Rightarrow> mem" where
  "memset dest val len m = memset_loop (unat len) dest (ucast val) m"

fun memcpy_loop :: "nat \<Rightarrow> u32 \<Rightarrow> u32 \<Rightarrow> mem \<Rightarrow> mem" where
  "memcpy_loop 0 dp sp m = m"
| "memcpy_loop (Suc len) dp sp m = memcpy_loop len (dp + 1) (sp + 1) (m(dp := m sp))"

definition memcpy :: "u32 \<Rightarrow> u32 \<Rightarrow> u32 \<Rightarrow> mem \<Rightarrow> mem" where
  "memcpy dest src len m = memcpy_loop (unat len) dest src m"

lemma memset_loop_at:
  "n < 2 ^ 32 \<Longrightarrow> memset_loop n p v m x = (if unat (x - p) < n then v else m x)"
proof (induction n arbitrary: p m)
  case 0
  then show ?case by simp
next
  case (Suc n)
  have ih: "memset_loop n (p + 1) v (m(p := v)) x = (if unat (x - (p + 1)) < n then v else (m(p := v)) x)"
    using Suc.prems by (intro Suc.IH) simp
  show ?case
  proof (cases "x = p")
    case True
    then have "unat (x - (p + 1)) = 2 ^ 32 - 1" using unat_max_32 by simp
    with ih True Suc.prems show ?thesis by (simp del: fun_upd_apply) simp
  next
    case False
    then show ?thesis using unat_diff_Suc [of x p] by (simp add: ih)
  qed
qed

lemma memset_at: "memset dest val len m x = (if x - dest < len then ucast val else m x)"
  using memset_loop_at [of "unat len"] unat_less_32 [of len]
  by (simp add: memset_def word_less_nat_alt)

lemma memcpy_loop_at:
  "n < 2 ^ 32 \<Longrightarrow> dp = sp \<or> n \<le> unat (dp - sp) \<Longrightarrow>
     memcpy_loop n dp sp m x = (if unat (x - dp) < n then m (sp + (x - dp)) else m x)"
proof (induction n arbitrary: dp sp m)
  case 0
  then show ?case by simp
next
  case (Suc n)
  let ?m = "m(dp := m sp)"
  have ih: "memcpy_loop n (dp + 1) (sp + 1) ?m x =
      (if unat (x - (dp + 1)) < n then ?m (sp + 1 + (x - (dp + 1))) else ?m x)"
    using Suc.prems by (intro Suc.IH) auto
  show ?case
  proof (cases "x = dp")
    case True
    with ih Suc.prems unat_max_32 show ?thesis by simp
  next
    case False
    have "sp + 1 + (x - (dp + 1)) \<noteq> dp \<or> dp = sp" if "unat (x - (dp + 1)) < n"
    proof (rule ccontr)
      assume "\<not> ?thesis"
      then have "x - dp = dp - sp" "dp \<noteq> sp" by (auto simp: algebra_simps)
      with that Suc.prems unat_diff_Suc [OF False] show False by simp
    qed
    then have "?m (sp + 1 + (x - (dp + 1))) = m (sp + (x - dp))" if "unat (x - (dp + 1)) < n"
      using that False by (auto simp: algebra_simps)
    with ih False unat_diff_Suc [OF False] show ?thesis by simp
  qed
qed

text \<open>
  Copying upwards is right whenever the destination does not start inside the source,
  even if the ranges overlap.
\<close>

lemma memcpy_at:
  assumes "dest = src \<or> len \<le> dest - src"
  shows "memcpy dest src len m x = (if x - dest < len then m (src + (x - dest)) else m x)"
  using assms memcpy_loop_at [of "unat len" dest src m x] unat_less_32 [of len]
  by (simp add: memcpy_def word_less_nat_alt word_le_nat_alt)

section \<open>C strings\<close>

text \<open>The bytes \<open>xs\<close>, none of them zero, and a terminating zero at address \<open>s\<close>.\<close>

primrec cstr :: "mem \<Rightarrow> u32 \<Rightarrow> u8 list \<Rightarrow> bool" where
  "cstr m s [] \<longleftrightarrow> m s = 0"
| "cstr m s (x # xs) \<longleftrightarrow> m s = x \<and> x \<noteq> 0 \<and> cstr m (s + 1) xs"

text \<open>
  A string that is never terminated makes \<^verbatim>\<open>strlen\<close>, \<^verbatim>\<open>strcpy\<close> and \<^verbatim>\<open>strcmp\<close> run for ever: the
  result is then \<^term>\<open>None\<close>.
\<close>

partial_function (option) strlen_loop :: "mem \<Rightarrow> u32 \<Rightarrow> u32 \<Rightarrow> u32 option" where
  "strlen_loop m str len = (if m (str + len) \<noteq> 0 then strlen_loop m str (len + 1) else Some len)"

definition strlen :: "mem \<Rightarrow> u32 \<Rightarrow> u32 option" where
  "strlen m str = strlen_loop m str 0"

partial_function (option) strcpy_loop :: "u32 \<Rightarrow> u32 \<Rightarrow> mem \<Rightarrow> mem option" where
  "strcpy_loop d src m =
     (let c = m src; m' = m(d := c)
      in if c \<noteq> 0 then strcpy_loop (d + 1) (src + 1) m' else Some m')"

definition strcpy :: "u32 \<Rightarrow> u32 \<Rightarrow> mem \<Rightarrow> mem option" where
  "strcpy dest src m = strcpy_loop dest src m"

partial_function (option) strcmp :: "mem \<Rightarrow> u32 \<Rightarrow> u32 \<Rightarrow> int option" where
  "strcmp m s1 s2 =
     (if m s1 \<noteq> 0 \<and> m s1 = m s2 then strcmp m (s1 + 1) (s2 + 1)
      else Some (uint (m s1) - uint (m s2)))"

fun strncmp_loop :: "nat \<Rightarrow> mem \<Rightarrow> u32 \<Rightarrow> u32 \<Rightarrow> int" where
  "strncmp_loop 0 m s1 s2 = 0"
| "strncmp_loop (Suc n) m s1 s2 =
     (if m s1 \<noteq> 0 \<and> m s1 = m s2 then strncmp_loop n m (s1 + 1) (s2 + 1)
      else uint (m s1) - uint (m s2))"

definition strncmp :: "mem \<Rightarrow> u32 \<Rightarrow> u32 \<Rightarrow> u32 \<Rightarrow> int" where
  "strncmp m s1 s2 n = strncmp_loop (unat n) m s1 s2"

lemma cstr_cong: "(\<And>i. i \<le> length xs \<Longrightarrow> m (s + of_nat i) = m' (s + of_nat i)) \<Longrightarrow> cstr m s xs = cstr m' s xs"
proof (induction xs arbitrary: s)
  case Nil
  from Nil [of 0] show ?case by simp
next
  case (Cons x xs)
  have "m (s + 1 + of_nat i) = m' (s + 1 + of_nat i)" if "i \<le> length xs" for i
    using Cons.prems [of "Suc i"] that by (simp add: add.assoc)
  with Cons.IH Cons.prems [of 0] show ?case by simp
qed

lemma cstr_nth:
  "cstr m s xs \<longleftrightarrow> (\<forall>i<length xs. m (s + of_nat i) = xs ! i \<and> xs ! i \<noteq> 0) \<and> m (s + of_nat (length xs)) = 0"
proof (induction xs arbitrary: s)
  case Nil
  then show ?case by simp
next
  case (Cons x xs)
  have "(\<forall>i<length (x # xs). m (s + of_nat i) = (x # xs) ! i \<and> (x # xs) ! i \<noteq> 0) \<longleftrightarrow>
      m s = x \<and> x \<noteq> 0 \<and> (\<forall>i<length xs. m (s + 1 + of_nat i) = xs ! i \<and> xs ! i \<noteq> 0)"
    unfolding length_Cons All_less_Suc2 by (simp add: add.assoc)
  with Cons.IH [of "s + 1"] show ?case by (simp add: add.assoc)
qed

lemma cstr_unique: "cstr m s xs \<Longrightarrow> cstr m s ys \<Longrightarrow> xs = ys"
proof (induction xs arbitrary: s ys)
  case Nil
  then show ?case by (cases ys) auto
next
  case (Cons x xs)
  then show ?case by (cases ys) auto
qed

lemma strlen_loop_cstr:
  "cstr m (str + of_nat k) xs \<Longrightarrow> strlen_loop m str (of_nat k) = Some (of_nat (k + length xs))"
proof (induction xs arbitrary: k)
  case Nil
  then show ?case by (subst strlen_loop.simps) simp
next
  case (Cons x xs)
  then have "cstr m (str + of_nat (Suc k)) xs" by (simp add: ac_simps)
  from Cons.IH [OF this] Cons.prems show ?case
    by (subst strlen_loop.simps) (simp add: add.commute)
qed

lemma strlen_cstr: "cstr m str xs \<Longrightarrow> strlen m str = Some (of_nat (length xs))"
  using strlen_loop_cstr [of m str 0 xs] by (simp add: strlen_def)

lemma strcmp_cstr:
  "cstr m s1 xs \<Longrightarrow> cstr m s2 ys \<Longrightarrow>
     \<exists>r. strcmp m s1 s2 = Some r \<and> (r = 0 \<longleftrightarrow> xs = ys) \<and> (r < 0 \<longleftrightarrow> ord_class.lexordp xs ys)"
proof (induction xs arbitrary: s1 s2 ys)
  case Nil
  then show ?case
    by (cases ys) (auto simp: strcmp.simps [of m s1 s2] uint_pos uint_eq_0)
next
  case (Cons x xs)
  show ?case
  proof (cases ys)
    case Nil
    with Cons.prems show ?thesis
      by (auto simp: strcmp.simps [of m s1 s2] uint_eq_0 uint_pos)
  next
    case (Cons y zs)
    note ys = this
    show ?thesis
    proof (cases "x = y")
      case True
      with Cons.prems ys Cons.IH [of "s1 + 1" "s2 + 1" zs] show ?thesis
        by (auto simp: strcmp.simps [of m s1 s2])
    next
      case False
      then have "uint x - uint y \<noteq> 0" "uint x - uint y < 0 \<longleftrightarrow> x < y"
        by (auto simp: word_less_def word_uint_eq_iff)
      with False Cons.prems ys show ?thesis
        by (auto simp: strcmp.simps [of m s1 s2])
    qed
  qed
qed

text \<open>\<^verbatim>\<open>strncmp\<close> compares the first \<open>n\<close> bytes of the two strings.\<close>

lemma strncmp_loop_cstr:
  "cstr m s1 xs \<Longrightarrow> cstr m s2 ys \<Longrightarrow>
     (strncmp_loop n m s1 s2 = 0 \<longleftrightarrow> take n xs = take n ys) \<and>
     (strncmp_loop n m s1 s2 < 0 \<longleftrightarrow> ord_class.lexordp (take n xs) (take n ys))"
proof (induction n arbitrary: xs ys s1 s2)
  case 0
  then show ?case by simp
next
  case (Suc n)
  show ?case
  proof (cases xs)
    case Nil
    with Suc.prems show ?thesis by (cases ys) (auto simp: uint_pos uint_eq_0)
  next
    case (Cons x xs')
    note xs = this
    show ?thesis
    proof (cases ys)
      case Nil
      with Suc.prems xs show ?thesis by (auto simp: uint_eq_0 uint_pos)
    next
      case (Cons y ys')
      show ?thesis
      proof (cases "x = y")
        case True
        with Suc.prems xs Cons Suc.IH [of "s1 + 1" xs' "s2 + 1" ys'] show ?thesis by simp
      next
        case False
        then have "uint x - uint y \<noteq> 0" "uint x - uint y < 0 \<longleftrightarrow> x < y"
          by (auto simp: word_less_def word_uint_eq_iff)
        with False Suc.prems xs Cons show ?thesis by auto
      qed
    qed
  qed
qed

lemma strcpy_loop_memcpy:
  "cstr m src xs \<Longrightarrow> d = src \<or> length xs < unat (d - src) \<Longrightarrow>
     strcpy_loop d src m = Some (memcpy_loop (Suc (length xs)) d src m)"
proof (induction xs arbitrary: d src m)
  case Nil
  then show ?case by (subst strcpy_loop.simps) (simp add: Let_def)
next
  case (Cons x xs)
  let ?m = "m(d := m src)"
  have "src + 1 + of_nat i \<noteq> d \<or> d = src" if "i \<le> length xs" for i
  proof (rule ccontr)
    assume n: "\<not> ?thesis"
    then have d: "d - src = of_nat (Suc i)" by (auto simp: algebra_simps)
    have "unat (d - src) \<le> Suc i" unfolding d by (rule unat_of_nat_le)
    with n Cons.prems(2) that show False by simp
  qed
  then have "?m (src + 1 + of_nat i) = m (src + 1 + of_nat i)" if "i \<le> length xs" for i
    using that by (cases "d = src") (auto simp: fun_upd_def)
  then have "cstr ?m (src + 1) xs = cstr m (src + 1) xs"
    by (rule cstr_cong)
  then have "cstr ?m (src + 1) xs" using Cons.prems(1) by simp
  then have "strcpy_loop (d + 1) (src + 1) ?m = Some (memcpy_loop (Suc (length xs)) (d + 1) (src + 1) ?m)"
    using Cons.prems(2) by (intro Cons.IH) (auto simp del: fun_upd_apply)
  with Cons.prems(1) show ?case by (subst strcpy_loop.simps) (simp add: Let_def)
qed

lemma strcpy_cstr:
  assumes "cstr m src xs" "dest = src \<or> length xs < unat (dest - src)" "Suc (length xs) < 2 ^ 32"
  obtains m' where "strcpy dest src m = Some m'" "cstr m' dest xs"
    and "\<And>x. length xs < unat (x - dest) \<Longrightarrow> m' x = m x"
proof
  let ?m = "memcpy_loop (Suc (length xs)) dest src m"
  have at: "?m x = (if unat (x - dest) < Suc (length xs) then m (src + (x - dest)) else m x)" for x
    using assms(2,3) by (intro memcpy_loop_at) auto
  show "strcpy dest src m = Some ?m"
    unfolding strcpy_def using assms(1,2) by (rule strcpy_loop_memcpy)
  have "?m (dest + of_nat i) = m (src + of_nat i)" if "i \<le> length xs" for i
    using that assms(3) by (subst at) (simp add: unat_of_nat take_bit_nat_eq_self)
  then show "cstr ?m dest xs" using assms(1) by (auto simp: cstr_nth)
  show "\<And>x. length xs < unat (x - dest) \<Longrightarrow> ?m x = m x" by (simp only: at) simp
qed

section \<open>Properties\<close>

text \<open>
  \<^verbatim>\<open>memcpy\<close> makes the destination range a copy of what the source range held before the
  call and changes no other byte, whenever the destination does not start strictly inside the
  source; overlap the other way round is harmless.
\<close>

theorem memcpy_exact:
  assumes "dest = src \<or> len \<le> dest - src"
  shows "memcpy dest src len m x = (if x - dest < len then m (src + (x - dest)) else m x)"
  using assms by (rule memcpy_at)

theorem memcpy_exact_witness:
  "memcpy 16 3 2 ((\<lambda>_. 0)(3 := 7, 4 := 8)) 17 = 8"
  by (subst memcpy_exact) (simp_all add: word_le_nat_alt word_less_nat_alt)

text \<open>
  \<^verbatim>\<open>strcpy\<close> of a terminated string returns, leaves the same string at the destination and
  changes no byte behind its terminator.
\<close>

theorem strcpy_copies:
  assumes "cstr m src xs" and "dest = src \<or> length xs < unat (dest - src)" and "Suc (length xs) < 2 ^ 32"
  shows "\<exists>m'. strcpy dest src m = Some m' \<and> cstr m' dest xs \<and> strlen m' dest = Some (of_nat (length xs))
    \<and> (\<forall>x. length xs < unat (x - dest) \<longrightarrow> m' x = m x)"
  using strcpy_cstr [OF assms] strlen_cstr by metis

theorem strcpy_copies_witness:
  "\<exists>m'. strcpy 16 3 ((\<lambda>_. 0)(3 := 7, 4 := 8)) = Some m' \<and> cstr m' 16 [7, 8]"
  using strcpy_copies [of "(\<lambda>_. 0)(3 := 7, 4 := 8)" 3 "[7, 8]" 16] by auto

text \<open>
  On two terminated strings \<^verbatim>\<open>strcmp\<close> returns zero exactly when they are equal, and a negative
  number exactly when the first is smaller in the dictionary order of unsigned bytes.
\<close>

theorem strcmp_order:
  assumes "cstr m s1 xs" and "cstr m s2 ys"
  shows "\<exists>r. strcmp m s1 s2 = Some r \<and> (r = 0 \<longleftrightarrow> xs = ys) \<and> (r < 0 \<longleftrightarrow> ord_class.lexordp xs ys)"
  using assms by (rule strcmp_cstr)

theorem strcmp_order_witness:
  "\<exists>r. strcmp ((\<lambda>_. 0)(3 := 7, 4 := 8, 6 := 7, 7 := 200)) 3 6 = Some r \<and> r < 0"
  using strcmp_order [of "(\<lambda>_. 0)(3 := 7, 4 := 8, 6 := 7, 7 := 200)" 3 "[7, 8]" 6 "[7, 200]"]
  by fastforce

text \<open>
  \<^verbatim>\<open>strncmp\<close> compares the first \<open>n\<close> bytes of two terminated strings in the same sense.
\<close>

theorem strncmp_order:
  assumes "cstr m s1 xs" and "cstr m s2 ys"
  shows "(strncmp m s1 s2 n = 0 \<longleftrightarrow> take (unat n) xs = take (unat n) ys) \<and>
    (strncmp m s1 s2 n < 0 \<longleftrightarrow> ord_class.lexordp (take (unat n) xs) (take (unat n) ys))"
  unfolding strncmp_def using assms by (rule strncmp_loop_cstr)

theorem strncmp_order_witness:
  "strncmp ((\<lambda>_. 0)(3 := 7, 4 := 8, 6 := 7, 7 := 200)) 3 6 1 = 0"
  using strncmp_order [of "(\<lambda>_. 0)(3 := 7, 4 := 8, 6 := 7, 7 := 200)" 3 "[7, 8]" 6 "[7, 200]" 1]
  by simp

end
