(* ===== verification/Page_Arith.thy ===== *)
theory Page_Arith
  imports Prelude
begin

text \<open>
  Addresses of 4096-byte pages: the page an address lies in, its offset there, and how both
  behave under addition.
\<close>

section \<open>Page addresses\<close>

definition page_base :: "u32 \<Rightarrow> u32" where
  "page_base a = a AND 0xFFFFF000"

lemma mask_12: "(0xFFF :: u32) = mask 12" and mask_10: "(0x3FF :: u32) = mask 10"
  by (simp_all add: mask_eq_exp_minus_1)

lemma page_base_push: "page_base a = push_bit 12 (drop_bit 12 a)"
proof -
  have m: "(0xFFFFF000 :: u32) = push_bit 12 (mask 20)"
    by (simp add: mask_eq_exp_minus_1 push_bit_eq_mult)
  show ?thesis
    unfolding page_base_def m by (rule bit_word_eqI) (auto simp: bit_simps)
qed

lemma unat_page_base: "unat (page_base a) = unat a div 4096 * 4096"
proof -
  have "unat a div 4096 * 4096 \<le> unat a" by (rule div_times_less_eq_dividend)
  then have "unat a div 4096 * 4096 < 2 ^ 32" using unat_less_32 [of a] by (rule order_le_less_trans)
  moreover have "page_base a = 4096 * (a div 4096)"
    by (simp add: page_base_push push_bit_eq_mult drop_bit_eq_div)
  moreover have "unat (a div 4096) = unat a div 4096" by (simp add: unat_div)
  ultimately show ?thesis by (simp add: unat_word_ariths mult.commute)
qed

lemma unat_offset: "unat (a AND 0xFFF) = unat a mod 4096" for a :: u32
  unfolding mask_12 take_bit_eq_mask [symmetric] unsigned_take_bit_eq take_bit_eq_mod by (simp add: unat_mod)

lemma page_base_idem [simp]: "page_base (page_base a) = page_base a"
  by (simp add: word_unat_eq_iff unat_page_base)

lemma page_base_aligned: "page_base a = a \<longleftrightarrow> unat a mod 4096 = 0"
proof -
  have "unat a div 4096 * 4096 = unat a \<longleftrightarrow> unat a mod 4096 = 0"
    using div_mult_mod_eq [of "unat a" 4096] by linarith
  then show ?thesis by (simp only: word_unat_eq_iff unat_page_base)
qed

lemma page_base_offset: "page_base a = a \<longleftrightarrow> a AND 0xFFF = 0"
  by (simp add: page_base_aligned unat_eq_zero [symmetric] unat_offset)

lemma page_base_split: "page_base a OR (a AND 0xFFF) = a"
proof -
  show ?thesis unfolding page_base_push mask_12
    by (rule bit_word_eqI) (auto simp: bit_simps)
qed

lemma page_base_or_flags:
  assumes "page_base t = t" "page_base f = 0"
  shows "page_base (t OR f) = t"
  using assms by (simp add: page_base_def bit.conj_disj_distrib2)

lemma unat_page_add:
  assumes "page_base t = t" "unat k < 4096"
  shows "unat (t + k) = unat t + unat k"
proof -
  from assms(1) obtain q where q: "unat t = 4096 * q" by (auto simp: page_base_aligned mod_eq_0_iff_dvd)
  then have "unat t + unat k < 2 ^ 32" using unat_less_32 [of t] assms(2) by simp
  then show ?thesis by (simp add: unat_word_ariths)
qed

lemma page_base_add:
  assumes "page_base t = t" "unat k < 4096"
  shows "page_base (t + k) = t"
proof -
  have "unat t mod 4096 = 0" using assms(1) by (simp add: page_base_aligned)
  then have "(unat t + unat k) div 4096 * 4096 = unat t"
    using assms(2) div_mult_mod_eq [of "unat t" 4096] by (simp add: div_add1_eq)
  then show ?thesis by (simp add: word_unat_eq_iff unat_page_base unat_page_add [OF assms])
qed

lemma offset_eq: "x AND 0xFFF = x - page_base x" for x :: u32
proof -
  have "page_base x \<le> x" by (simp add: word_le_nat_alt unat_page_base)
  then have "unat (x - page_base x) = unat x mod 4096"
    by (simp add: unat_sub unat_page_base minus_div_mult_eq_mod)
  then show ?thesis by (simp only: word_unat_eq_iff unat_offset)
qed

lemma page_base_plus:
  assumes "page_base d = d" shows "page_base (x + d) = page_base x + d"
proof -
  have "unat (page_base x + d) mod 4096 = 0"
  proof -
    have "unat (page_base x + d) = (unat (page_base x) + unat d) mod 2 ^ 32" by (simp add: unat_word_ariths)
    moreover have "(4096::nat) dvd 2 ^ 32" by simp
    ultimately have "unat (page_base x + d) mod 4096 = (unat (page_base x) + unat d) mod 4096"
      by (simp only: mod_mod_cancel)
    moreover have "unat d mod 4096 = 0" "unat (page_base x) mod 4096 = 0"
      using assms page_base_aligned page_base_idem by metis+
    ultimately show ?thesis using mod_add_eq [of "unat (page_base x)" 4096 "unat d"] by simp
  qed
  then have al: "page_base (page_base x + d) = page_base x + d" by (simp add: page_base_aligned)
  have off: "unat (x - page_base x) < 4096"
  proof -
    have "page_base x \<le> x" by (simp add: word_le_nat_alt unat_page_base)
    then have "unat (x - page_base x) = unat x mod 4096"
      by (simp add: unat_sub unat_page_base minus_div_mult_eq_mod)
    then show ?thesis by simp
  qed
  have "x + d = (page_base x + d) + (x - page_base x)" by simp
  then show ?thesis using page_base_add [OF al off] by metis
qed

lemma page_base_minus: "page_base d = d \<Longrightarrow> page_base (x - d) = page_base x - d"
proof -
  assume d: "page_base d = d"
  have "page_base (x - d + d) = page_base (x - d) + d" by (rule page_base_plus [OF d])
  then show ?thesis by simp
qed

end
