(* ===== verification/Paging.thy ===== *)
theory Paging
  imports Pmm Cstring Page_Arith
begin

text \<open>
  The two-level page tables of \<^verbatim>\<open>include/vmm.h\<close> as they lie in physical memory, and the walk the
  processor makes through them. A directory is a page of 1024 words; a present entry names a
  page-aligned table of 1024 entries. \<open>entry m dir va\<close> is the table entry that governs
  the virtual address \<open>va\<close>, \<open>translate m dir va\<close> the physical address it leads to. The
  lemmas say which bytes a walk depends on and what a store into one slot changes.
\<close>

section \<open>The two indices of an address\<close>

definition pde_addr :: "u32 \<Rightarrow> u32 \<Rightarrow> u32" where
  "pde_addr dir va = dir + 4 * drop_bit 22 va"

definition pte_addr :: "u32 \<Rightarrow> u32 \<Rightarrow> u32" where
  "pte_addr pt va = pt + 4 * (drop_bit 12 va AND 0x3FF)"

lemma unat_drop_22: "unat (drop_bit 22 (va::u32)) = unat va div 2 ^ 22"
  by (simp add: drop_bit_eq_div unat_div)

lemma unat_pt_index: "unat (drop_bit 12 (va::u32) AND 0x3FF) = unat va div 4096 mod 1024"
  unfolding mask_10 take_bit_eq_mask [symmetric] unsigned_take_bit_eq take_bit_eq_mod
  by (simp add: drop_bit_eq_div unat_div unat_mod)

lemma unat_times_4:
  fixes w :: u32 assumes "unat w < 1024"
  shows "unat (4 * w) = 4 * unat w"
  using assms by (simp add: unat_word_ariths)

lemma index_less: "unat (drop_bit 22 (va::u32)) < 1024" "unat (drop_bit 12 (va::u32) AND 0x3FF) < 1024"
  using unat_less_32 [of va] by (simp_all add: unat_drop_22 unat_pt_index)

lemma same_page_iff:
  "page_base va = page_base va' \<longleftrightarrow>
     drop_bit 22 va = drop_bit 22 va' \<and> drop_bit 12 va AND 0x3FF = drop_bit 12 va' AND (0x3FF::u32)"
proof -
  have s: "unat v div 2 ^ 22 = unat v div 4096 div 1024" for v :: u32
    using div_mult2_eq [of "unat v" 4096 1024] by simp
  have dm: "x = y \<longleftrightarrow> x div 1024 = y div 1024 \<and> x mod 1024 = y mod 1024" for x y :: nat
    by (metis div_mult_mod_eq)
  have "page_base va = page_base va' \<longleftrightarrow> unat va div 4096 = unat va' div 4096"
    by (simp add: word_unat_eq_iff unat_page_base)
  also have "\<dots> \<longleftrightarrow> unat va div 2 ^ 22 = unat va' div 2 ^ 22 \<and> unat va div 4096 mod 1024 = unat va' div 4096 mod 1024"
    unfolding s by (rule dm)
  finally show ?thesis by (simp only: word_unat_eq_iff unat_drop_22 unat_pt_index)
qed

text \<open>A 32-bit access at word index \<open>i\<close> of a page touches that page only.\<close>

lemma slot_offset:
  fixes w :: u32 assumes "unat w < 1024" "i < 4"
  shows "unat (4 * w + of_nat i) < 4096" "unat (4 * w + of_nat i) = 4 * unat w + i"
proof -
  have "unat (of_nat i :: u32) = i" using assms(2) by (simp add: unat_of_nat take_bit_nat_eq_self)
  then have "unat (4 * w + of_nat i) = 4 * unat w + i"
    using assms unat_times_4 [OF assms(1)] by (simp add: unat_word_ariths)
  then show "unat (4 * w + of_nat i) = 4 * unat w + i" "unat (4 * w + of_nat i) < 4096"
    using assms by auto
qed

lemma slot_page:
  fixes w :: u32 assumes "page_base t = t" "unat w < 1024" "i < 4"
  shows "page_base (t + 4 * w + of_nat i) = t"
  using page_base_add [OF assms(1) slot_offset(1) [OF assms(2,3)]] by (simp add: add.assoc)

lemma load_slot_cong:
  fixes w :: u32 assumes "page_base t = t" "unat w < 1024" "\<And>a. page_base a = t \<Longrightarrow> m a = m' a"
  shows "load32 m (t + 4 * w) = load32 m' (t + 4 * w)"
  using assms slot_page by (intro load32_cong) blast

lemma store_slot_other:
  fixes w :: u32 assumes "page_base t = t" "unat w < 1024" "page_base a \<noteq> t"
  shows "store32 (t + 4 * w) v m a = m a"
proof -
  have "t + 4 * w + of_nat i \<noteq> a" if "i < 4" for i using slot_page [OF assms(1,2) that] assms(3) by auto
  then show ?thesis by (intro store32_other sepI) auto
qed

lemma load_store_slot:
  fixes w w' :: u32 assumes "page_base t = t" "unat w < 1024" "unat w' < 1024"
  shows "load32 (store32 (t + 4 * w) v m) (t + 4 * w') = (if w = w' then v else load32 m (t + 4 * w'))"
proof (cases "w = w'")
  case True
  then show ?thesis by (simp add: mem_simps)
next
  case False
  then have "unat w \<noteq> unat w'" by (simp add: word_unat_eq_iff)
  have "sep (t + 4 * w) 4 (t + 4 * w') 4"
  proof (rule sepI, rule notI)
    fix i j :: nat assume ij: "i < 4" "j < 4" and "t + 4 * w + of_nat i = t + 4 * w' + of_nat j"
    then have "4 * w + of_nat i = 4 * w' + of_nat j" by (simp add: add.assoc)
    then have "4 * unat w + i = 4 * unat w' + j"
      using slot_offset(2) [OF assms(2) ij(1)] slot_offset(2) [OF assms(3) ij(2)] by simp
    with ij \<open>unat w \<noteq> unat w'\<close> show False by arith
  qed
  with False show ?thesis by (simp add: mem_simps)
qed

section \<open>The walk\<close>

definition pde_of :: "mem \<Rightarrow> u32 \<Rightarrow> u32 \<Rightarrow> u32" where
  "pde_of m dir va = load32 m (pde_addr dir va)"

definition present :: "u32 \<Rightarrow> bool" where
  "present e \<longleftrightarrow> e AND 1 \<noteq> 0"

definition entry :: "mem \<Rightarrow> u32 \<Rightarrow> u32 \<Rightarrow> u32" where
  "entry m dir va =
     (let pde = pde_of m dir va
      in if present pde then load32 m (pte_addr (page_base pde) va) else 0)"

definition translate :: "mem \<Rightarrow> u32 \<Rightarrow> u32 \<Rightarrow> u32 option" where
  "translate m dir va =
     (let pte = entry m dir va
      in if present pte then Some (page_base pte OR (va AND 0xFFF)) else None)"

text \<open>The pages a walk from \<open>dir\<close> can read: the directory and its tables.\<close>

definition dir_tables :: "mem \<Rightarrow> u32 \<Rightarrow> u32 set" where
  "dir_tables m dir = {page_base (pde_of m dir va) |va. present (pde_of m dir va)}"

definition dir_pages :: "mem \<Rightarrow> u32 \<Rightarrow> u32 set" where
  "dir_pages m dir = insert dir (dir_tables m dir)"

text \<open>No table is the directory itself, and no table serves two directory entries.\<close>

definition dir_wf :: "mem \<Rightarrow> u32 \<Rightarrow> bool" where
  "dir_wf m dir \<longleftrightarrow> page_base dir = dir \<and> dir \<notin> dir_tables m dir \<and>
     (\<forall>va va'. present (pde_of m dir va) \<longrightarrow> present (pde_of m dir va') \<longrightarrow>
        page_base (pde_of m dir va) = page_base (pde_of m dir va') \<longrightarrow> drop_bit 22 va = drop_bit 22 va')"

lemma dir_wfD:
  assumes "dir_wf m dir"
  shows "page_base dir = dir" "dir \<notin> dir_tables m dir"
    and "present (pde_of m dir va) \<Longrightarrow> present (pde_of m dir va') \<Longrightarrow>
      page_base (pde_of m dir va) = page_base (pde_of m dir va') \<Longrightarrow> drop_bit 22 va = drop_bit 22 va'"
  using assms unfolding dir_wf_def by blast+

lemma not_present_0 [simp]: "\<not> present 0"
  by (simp add: present_def)

lemma present_or [simp]: "present (e OR 1)"
proof -
  have "bit ((e OR 1) AND 1) 0" by (simp add: bit_simps)
  then show ?thesis unfolding present_def by (metis bit_0_eq bot_apply bot_bool_def)
qed

lemma dir_tables_base: "t \<in> dir_tables m dir \<Longrightarrow> page_base t = t"
  by (auto simp: dir_tables_def)

lemma pde_of_cong:
  "page_base dir = dir \<Longrightarrow> (\<And>a. page_base a = dir \<Longrightarrow> m a = m' a) \<Longrightarrow> pde_of m dir va = pde_of m' dir va"
  unfolding pde_of_def pde_addr_def by (rule load_slot_cong [OF _ index_less(1)])

lemma entry_cong:
  assumes "page_base dir = dir" "\<And>a. page_base a \<in> dir_pages m dir \<Longrightarrow> m a = m' a"
  shows "entry m dir va = entry m' dir va"
proof -
  have pde: "pde_of m dir va = pde_of m' dir va"
    using assms by (intro pde_of_cong) (auto simp: dir_pages_def)
  have "load32 m (pte_addr (page_base (pde_of m dir va)) va) = load32 m' (pte_addr (page_base (pde_of m dir va)) va)"
    if "present (pde_of m dir va)"
  proof -
    have t: "page_base (pde_of m dir va) \<in> dir_pages m dir"
      using that by (auto simp: dir_pages_def dir_tables_def)
    show ?thesis unfolding pte_addr_def
      by (rule load_slot_cong [OF _ index_less(2)], simp, rule assms(2), simp add: t)
  qed
  with pde show ?thesis by (simp add: entry_def Let_def)
qed

lemma dir_tables_cong:
  assumes "page_base dir = dir" "\<And>a. page_base a = dir \<Longrightarrow> m a = m' a"
  shows "dir_tables m dir = dir_tables m' dir"
  unfolding dir_tables_def using pde_of_cong [OF assms] by simp

lemma dir_wf_cong:
  assumes "\<And>a. page_base a = dir \<Longrightarrow> m a = m' a" "dir_wf m dir"
  shows "dir_wf m' dir"
proof -
  have "page_base dir = dir" using assms(2) by (simp add: dir_wf_def)
  then have eq: "pde_of m' dir va = pde_of m dir va" "dir_tables m' dir = dir_tables m dir" for va
    using pde_of_cong [of dir m m'] dir_tables_cong [of dir m m'] assms(1) by metis+
  show ?thesis unfolding dir_wf_def eq by (rule assms(2) [unfolded dir_wf_def])
qed

lemma translate_page:
  "translate m dir va = Some pa \<Longrightarrow> page_base pa = page_base (entry m dir va) \<and> pa AND 0xFFF = va AND 0xFFF"
proof -
  assume "translate m dir va = Some pa"
  then have pa: "pa = page_base (entry m dir va) OR (va AND 0xFFF)"
    by (auto simp: translate_def Let_def split: if_splits)
  show ?thesis
    unfolding pa page_base_push mask_12
    by (intro conjI; rule bit_word_eqI) (auto simp: bit_simps)
qed

section \<open>Filling in a slot\<close>

text \<open>Storing into the table of a present directory entry changes the entry of one page.\<close>

lemma entry_store_pte:
  fixes m :: mem and v :: u32
  assumes wf: "dir_wf m dir" and pr: "present (pde_of m dir va)"
  defines "t \<equiv> page_base (pde_of m dir va)"
  defines "m' \<equiv> store32 (pte_addr t va) v m"
  shows "entry m' dir va' = (if page_base va' = page_base va then v else entry m dir va')"
    and "page_base a \<noteq> t \<Longrightarrow> m' a = m a" and "dir_wf m' dir" and "dir_tables m' dir = dir_tables m dir"
    and "pde_of m' dir va' = pde_of m dir va'"
proof -
  have t: "page_base t = t" "t \<in> dir_tables m dir" using pr by (auto simp: t_def dir_tables_def)
  with wf have td: "t \<noteq> dir" "page_base dir = dir" by (auto simp: dir_wf_def)
  show out: "m' a = m a" if "page_base a \<noteq> t" for a
    unfolding m'_def pte_addr_def using t(1) that by (intro store_slot_other index_less)
  have indir: "m a = m' a" if "page_base a = dir" for a
    by (rule out [symmetric]) (use that td in auto)
  show pde: "pde_of m' dir va' = pde_of m dir va'" for va'
    using pde_of_cong [OF td(2) indir] by simp
  show "dir_wf m' dir" using dir_wf_cong [OF indir wf] .
  show "dir_tables m' dir = dir_tables m dir" using dir_tables_cong [OF td(2) indir] by simp
  show "entry m' dir va' = (if page_base va' = page_base va then v else entry m dir va')"
  proof (cases "present (pde_of m dir va')")
    case False
    then have "page_base va' \<noteq> page_base va" using pr same_page_iff [of va' va]
      by (auto simp: pde_of_def pde_addr_def)
    with False show ?thesis by (simp add: entry_def pde)
  next
    case True
    let ?t' = "page_base (pde_of m dir va')"
    show ?thesis
    proof (cases "?t' = t")
      case same: True
      then have "drop_bit 22 va' = drop_bit 22 va" using dir_wfD(3) [OF wf True pr] by (simp only: t_def)
      then have "drop_bit 12 va AND 0x3FF = drop_bit 12 va' AND 0x3FF \<longleftrightarrow> page_base va' = page_base va"
        using same_page_iff [of va' va] by auto
      moreover have "load32 m' (pte_addr t va') = (if drop_bit 12 va AND 0x3FF = drop_bit 12 va' AND 0x3FF
          then v else load32 m (pte_addr t va'))"
        unfolding m'_def pte_addr_def by (rule load_store_slot [OF t(1) index_less(2) index_less(2)])
      ultimately show ?thesis
        using True by (simp only: entry_def Let_def pde same if_True)
    next
      case False
      then have "drop_bit 22 va' \<noteq> drop_bit 22 va" by (auto simp: t_def pde_of_def pde_addr_def)
      then have "page_base va' \<noteq> page_base va" using same_page_iff [of va' va] by auto
      moreover have "load32 m' (pte_addr ?t' va') = load32 m (pte_addr ?t' va')"
        unfolding pte_addr_def using out False by (intro load_slot_cong index_less) simp_all
      ultimately show ?thesis using True by (simp add: entry_def pde)
    qed
  qed
qed

text \<open>A zeroed fresh page becomes the table of an absent directory entry; no address is mapped by it.\<close>

lemma entry_store_pde:
  fixes m :: mem and e :: u32
  assumes wf: "dir_wf m dir" and pr: "\<not> present (pde_of m dir va)"
    and t: "page_base t = t" "t \<notin> dir_pages m dir" "\<And>a. page_base a = t \<Longrightarrow> m a = 0"
    and e: "present e" "page_base e = t"
  defines "m' \<equiv> store32 (pde_addr dir va) e m"
  shows "entry m' dir va' = entry m dir va'"
    and "page_base a \<noteq> dir \<Longrightarrow> m' a = m a" and "dir_wf m' dir" and "dir_tables m' dir = insert t (dir_tables m dir)"
    and "pde_of m' dir va' = (if drop_bit 22 va' = drop_bit 22 va then e else pde_of m dir va')"
proof -
  have d: "page_base dir = dir" using wf by (simp add: dir_wf_def)
  show out: "m' a = m a" if "page_base a \<noteq> dir" for a
    unfolding m'_def pde_addr_def using d that by (intro store_slot_other index_less)
  show pde: "pde_of m' dir va' = (if drop_bit 22 va' = drop_bit 22 va then e else pde_of m dir va')" for va'
    using load_store_slot [OF d index_less(1) index_less(1), of va e m va']
    by (auto simp: pde_of_def m'_def pde_addr_def)
  have absent: "\<not> present (pde_of m dir va')" if "drop_bit 22 va' = drop_bit 22 va" for va'
    using pr that by (simp add: pde_of_def pde_addr_def)
  show tabs: "dir_tables m' dir = insert t (dir_tables m dir)"
    unfolding dir_tables_def pde using e absent by (auto split: if_splits)
  have neq: "page_base (pde_of m dir va') \<noteq> t" if "present (pde_of m dir va')" for va'
    using t(2) that by (auto simp: dir_pages_def dir_tables_def)
  show "dir_wf m' dir" unfolding dir_wf_def
  proof (intro conjI allI impI)
    show "page_base dir = dir" by (rule d)
    show "dir \<notin> dir_tables m' dir" using tabs dir_wfD(2) [OF wf] t(2) by (auto simp: dir_pages_def)
    fix x y
    assume xy: "present (pde_of m' dir x)" "present (pde_of m' dir y)"
      "page_base (pde_of m' dir x) = page_base (pde_of m' dir y)"
    show "drop_bit 22 x = drop_bit 22 y"
    proof (cases "drop_bit 22 x = drop_bit 22 va \<longleftrightarrow> drop_bit 22 y = drop_bit 22 va")
      case True
      then show ?thesis
        using xy dir_wfD(3) [OF wf, of x y] unfolding pde by (cases "drop_bit 22 x = drop_bit 22 va") simp_all
    next
      case False
      then show ?thesis
        using xy neq [of x] neq [of y] e(2) unfolding pde by (auto split: if_splits)
    qed
  qed
  show "entry m' dir va' = entry m dir va'"
  proof (cases "drop_bit 22 va' = drop_bit 22 va")
    case True
    have "load32 m' (pte_addr t va') = load32 (\<lambda>_. 0) (pte_addr t va')"
      unfolding pte_addr_def using out t by (intro load_slot_cong index_less) (auto simp: dir_pages_def)
    then show ?thesis using True absent [OF True] e by (simp add: entry_def pde load32_def)
  next
    case False
    have "load32 m' (pte_addr (page_base (pde_of m dir va')) va') = load32 m (pte_addr (page_base (pde_of m dir va')) va')"
      if "present (pde_of m dir va')"
    proof -
      have "page_base (pde_of m dir va') \<noteq> dir"
        using that dir_wfD(2) [OF wf] by (auto simp: dir_tables_def)
      then show ?thesis unfolding pte_addr_def using out by (intro load_slot_cong index_less) simp_all
    qed
    then show ?thesis using False by (simp add: entry_def pde Let_def)
  qed
qed

end
