(* ===== verification/Vmm.thy ===== *)
theory Vmm
  imports Paging "HOL-Library.Monad_Syntax"
begin

text \<open>
  \<^verbatim>\<open>kernel/mm/vmm.c\<close>. The code reads and writes page tables through the addresses the
  processor translates, so every access of the model goes through \<^const>\<open>translate\<close> with the
  directory in \<^verbatim>\<open>cr3\<close>. An access to an address that is not mapped raises a page fault,
  whose handler prints a message and loops for ever: the result \<^term>\<open>None\<close> stands for a
  kernel that never returns.

  The lemmas show that mapping a page changes the translation of that page and of no other,
  keeps the tables well formed and inside the identity-mapped first 8 MB, and that \<^verbatim>\<open>vmm_init\<close>
  builds exactly the intended address space.
\<close>

datatype isr_t = page_fault_handler | timer_callback | keyboard_callback

section \<open>The state and the accesses of the paging code\<close>

record vm_state =
  pmm :: pmm_state
  phys :: mem
  kernel_directory :: u32
  current_directory :: u32
  cr3 :: u32
  interrupt_handlers :: "u8 \<Rightarrow> isr_t option"

definition PAGE_PRESENT :: u32 where "PAGE_PRESENT = 1"
definition PAGE_RW :: u32 where "PAGE_RW = 2"

definition vload16 :: "u32 \<Rightarrow> vm_state \<Rightarrow> u16 option" where
  "vload16 va s = map_option (\<lambda>pa. ucast (load32 (phys s) pa)) (translate (phys s) (cr3 s) va)"

definition vload32 :: "u32 \<Rightarrow> vm_state \<Rightarrow> u32 option" where
  "vload32 va s = map_option (load32 (phys s)) (translate (phys s) (cr3 s) va)"

definition vstore8 :: "u32 \<Rightarrow> u8 \<Rightarrow> vm_state \<Rightarrow> vm_state option" where
  "vstore8 va v s = map_option (\<lambda>pa. s\<lparr>phys := (phys s)(pa := v)\<rparr>) (translate (phys s) (cr3 s) va)"

definition vstore32 :: "u32 \<Rightarrow> u32 \<Rightarrow> vm_state \<Rightarrow> vm_state option" where
  "vstore32 va v s = map_option (\<lambda>pa. s\<lparr>phys := store32 pa v (phys s)\<rparr>) (translate (phys s) (cr3 s) va)"

fun vmemset_loop :: "nat \<Rightarrow> u32 \<Rightarrow> u8 \<Rightarrow> vm_state \<Rightarrow> vm_state option" where
  "vmemset_loop 0 ptr v s = Some s"
| "vmemset_loop (Suc len) ptr v s =
     (case vstore8 ptr v s of None \<Rightarrow> None | Some s' \<Rightarrow> vmemset_loop len (ptr + 1) v s')"

definition vmemset :: "u32 \<Rightarrow> u32 \<Rightarrow> u32 \<Rightarrow> vm_state \<Rightarrow> vm_state option" where
  "vmemset dest val len s = vmemset_loop (unat len) dest (ucast val) s"

section \<open>\<^verbatim>\<open>vmm.c\<close>\<close>

definition vmm_get_table :: "u32 \<Rightarrow> u32 \<Rightarrow> vm_state \<Rightarrow> (u32 \<times> vm_state) option" where
  "vmm_get_table pde flags s =
     (case vload32 pde s of
        None \<Rightarrow> None
      | Some e \<Rightarrow>
          if e AND PAGE_PRESENT = 0 then
            let (pt, p) = pmm_alloc_pages 0 (pmm s);
                s = s\<lparr>pmm := p\<rparr>
            in case vmemset pt 0 4096 s of
                 None \<Rightarrow> None
               | Some s \<Rightarrow> map_option (\<lambda>s. (pt, s)) (vstore32 pde (pt OR flags OR PAGE_PRESENT) s)
          else Some (e AND 0xFFFFF000, s))"

definition vmm_map_page :: "u32 \<Rightarrow> u32 \<Rightarrow> u32 \<Rightarrow> vm_state \<Rightarrow> vm_state option" where
  "vmm_map_page va pa flags s =
     (let pd_index = drop_bit 22 va;
          pt_index = drop_bit 12 va AND 0x3FF;
          pde = current_directory s + 4 * pd_index
      in case vmm_get_table pde flags s of
           None \<Rightarrow> None
         | Some (pt, s) \<Rightarrow> vstore32 (pt + 4 * pt_index) ((pa AND 0xFFFFF000) OR flags) s)"

definition vmm_switch_page_directory :: "u32 \<Rightarrow> vm_state \<Rightarrow> vm_state" where
  "vmm_switch_page_directory dir s = s\<lparr>current_directory := dir, cr3 := dir\<rparr>"

partial_function (option) map_loop :: "u32 \<Rightarrow> u32 \<Rightarrow> u32 \<Rightarrow> u32 \<Rightarrow> u32 \<Rightarrow> vm_state \<Rightarrow> vm_state option" where
  "map_loop i lim va pa flags s =
     (if i < lim then
        case vmm_map_page (va + i) (pa + i) flags s of
          None \<Rightarrow> None
        | Some s \<Rightarrow> map_loop (i + PAGE_SIZE) lim va pa flags s
      else Some s)"

definition vbe_pitch :: "u32 \<Rightarrow> vm_state \<Rightarrow> u16 option" where
  "vbe_pitch vbe s = vload16 (vbe + 16) s"

definition vbe_height :: "u32 \<Rightarrow> vm_state \<Rightarrow> u16 option" where
  "vbe_height vbe s = vload16 (vbe + 20) s"

definition vbe_framebuffer :: "u32 \<Rightarrow> vm_state \<Rightarrow> u32 option" where
  "vbe_framebuffer vbe s = vload32 (vbe + 40) s"

definition register_interrupt_handler :: "u8 \<Rightarrow> isr_t \<Rightarrow> (u8 \<Rightarrow> isr_t option) \<Rightarrow> u8 \<Rightarrow> isr_t option" where
  "register_interrupt_handler n handler tab = tab(n := Some handler)"

definition vmm_init :: "vm_state \<Rightarrow> vm_state option" where
  "vmm_init s =
     (let (dir, p) = pmm_alloc_pages 0 (pmm s);
          s = s\<lparr>pmm := p, kernel_directory := dir\<rparr>;
          flags = PAGE_PRESENT OR PAGE_RW;
          vbe = 0xC0000500
      in do {
        s \<leftarrow> vmemset dir 0 4096 s;
        s \<leftarrow> map_loop 0 0x800000 0 0 flags (s\<lparr>current_directory := dir\<rparr>);
        s \<leftarrow> map_loop 0 0x800000 0xC0000000 0 flags s;
        fb_start \<leftarrow> vbe_framebuffer vbe s;
        height \<leftarrow> vbe_height vbe s;
        pitch \<leftarrow> vbe_pitch vbe s;
        s \<leftarrow> map_loop 0 (ucast height * ucast pitch) fb_start fb_start flags s;
        let s = s\<lparr>interrupt_handlers := register_interrupt_handler 14 page_fault_handler (interrupt_handlers s)\<rparr>;
        Some (vmm_switch_page_directory (kernel_directory s) s)
      })"

section \<open>The identity-mapped first 8 MB\<close>

definition ident :: "mem \<Rightarrow> u32 \<Rightarrow> bool" where
  "ident m dir \<longleftrightarrow> (\<forall>a. unat a < 0x800000 \<longrightarrow> translate m dir a = Some a)"

text \<open>
  The state between two calls: the frames of the allocator are free of page tables, the current
  directory is well formed, and the tables in use can be reached at their physical addresses.
  Before the switch the processor still walks the boot directory, which shares no page with
  the one being built.
\<close>

definition vmm_ok :: "vm_state \<Rightarrow> bool" where
  "vmm_ok s \<longleftrightarrow>
     pmm_ok (pmm s) \<and> page_base (cr3 s) = cr3 s \<and>
     dir_wf (phys s) (current_directory s) \<and> ident (phys s) (cr3 s) \<and>
     (\<forall>p \<in> dir_pages (phys s) (current_directory s) \<union> dir_pages (phys s) (cr3 s).
        p \<notin> free_frames (pmm s)) \<and>
     (\<forall>p \<in> dir_pages (phys s) (current_directory s). unat p < 0x800000) \<and>
     (cr3 s = current_directory s \<or>
        dir_pages (phys s) (cr3 s) \<inter> dir_pages (phys s) (current_directory s) = {})"

lemma vmm_okD:
  assumes "vmm_ok s"
  shows "pmm_ok (pmm s)" "page_base (cr3 s) = cr3 s" "dir_wf (phys s) (current_directory s)"
    "ident (phys s) (cr3 s)"
    "p \<in> dir_pages (phys s) (current_directory s) \<Longrightarrow> p \<notin> free_frames (pmm s)"
    "p \<in> dir_pages (phys s) (cr3 s) \<Longrightarrow> p \<notin> free_frames (pmm s)"
    "p \<in> dir_pages (phys s) (current_directory s) \<Longrightarrow> unat p < 0x800000"
    "cr3 s = current_directory s \<or> dir_pages (phys s) (cr3 s) \<inter> dir_pages (phys s) (current_directory s) = {}"
  using assms by (auto simp: vmm_ok_def)

lemma low_slot:
  fixes w :: u32
  assumes "page_base t = t" "unat t < 0x800000" "unat w < 1024"
  shows "unat (t + 4 * w) < 0x800000"
proof -
  obtain q where "unat t = 4096 * q" using assms(1) by (auto simp: page_base_aligned mod_eq_0_iff_dvd)
  moreover have "unat (t + 4 * w) = unat t + 4 * unat w"
    using unat_page_add [OF assms(1), of "4 * w"] unat_times_4 [OF assms(3)] assms(3) by simp
  ultimately show ?thesis using assms(2,3) by simp
qed

lemma vload32_low: "ident (phys s) (cr3 s) \<Longrightarrow> unat a < 0x800000 \<Longrightarrow> vload32 a s = Some (load32 (phys s) a)"
  by (simp add: vload32_def ident_def)

lemma vstore32_low:
  "ident (phys s) (cr3 s) \<Longrightarrow> unat a < 0x800000 \<Longrightarrow> vstore32 a v s = Some (s\<lparr>phys := store32 a v (phys s)\<rparr>)"
  by (simp add: vstore32_def ident_def)

lemma ident_cong:
  assumes "page_base dir = dir" "\<And>a. page_base a \<in> dir_pages m dir \<Longrightarrow> m a = m' a" "ident m dir"
  shows "ident m' dir"
  using assms(3) entry_cong [OF assms(1,2)] by (simp add: ident_def translate_def)

text \<open>Clearing a page that no walk reads leaves the walks alone and the rest of memory too.\<close>

lemma vmemset_page:
  assumes "page_base t = t" "unat t < 0x800000" "t \<notin> dir_pages (phys s) (cr3 s)"
    "page_base (cr3 s) = cr3 s" "ident (phys s) (cr3 s)"
  obtains m where "vmemset t 0 4096 s = Some (s\<lparr>phys := m\<rparr>)"
    and "\<And>a. m a = (if page_base a = t then 0 else phys s a)"
proof -
  have run: "k + n \<le> 4096 \<Longrightarrow> (\<And>a. page_base a \<noteq> t \<Longrightarrow> m a = phys s a) \<Longrightarrow>
      (\<forall>i<k. m (t + of_nat i) = 0) \<Longrightarrow>
      \<exists>m'. vmemset_loop n (t + of_nat k) 0 (s\<lparr>phys := m\<rparr>) = Some (s\<lparr>phys := m'\<rparr>) \<and>
        (\<forall>a. page_base a \<noteq> t \<longrightarrow> m' a = phys s a) \<and> (\<forall>i<k + n. m' (t + of_nat i) = 0)" for n k m
  proof (induction n arbitrary: k m)
    case 0
    then show ?case by auto
  next
    case (Suc n)
    have k: "unat (of_nat k :: u32) = k" "k < 4096"
      using Suc.prems(1) by (simp_all add: unat_of_nat take_bit_nat_eq_self)
    then have b: "page_base (t + of_nat k) = t" and u: "unat (t + of_nat k) = unat t + k"
      using page_base_add [OF assms(1)] unat_page_add [OF assms(1), of "of_nat k"] by simp_all
    obtain q where "unat t = 4096 * q" using assms(1) by (auto simp: page_base_aligned mod_eq_0_iff_dvd)
    with assms(2) have "unat t + 4096 \<le> 0x800000" by simp
    then have low: "unat (t + of_nat k) < 0x800000" using u k(2) by simp
    have "ident m (cr3 s)"
    proof (rule ident_cong [OF assms(4) _ assms(5)])
      fix a assume "page_base a \<in> dir_pages (phys s) (cr3 s)"
      with assms(3) have "page_base a \<noteq> t" by auto
      then show "phys s a = m a" using Suc.prems(2) by simp
    qed
    then have st: "vstore8 (t + of_nat k) 0 (s\<lparr>phys := m\<rparr>) = Some (s\<lparr>phys := m(t + of_nat k := 0)\<rparr>)"
      using low by (simp add: vstore8_def ident_def)
    have "\<exists>m'. vmemset_loop n (t + of_nat (Suc k)) 0 (s\<lparr>phys := m(t + of_nat k := 0)\<rparr>) = Some (s\<lparr>phys := m'\<rparr>) \<and>
        (\<forall>a. page_base a \<noteq> t \<longrightarrow> m' a = phys s a) \<and> (\<forall>i<Suc k + n. m' (t + of_nat i) = 0)"
    proof (rule Suc.IH)
      show "Suc k + n \<le> 4096" using Suc.prems(1) by simp
      show "(m(t + of_nat k := 0)) a = phys s a" if "page_base a \<noteq> t" for a
        using that Suc.prems(2) b by auto
      show "\<forall>i<Suc k. (m(t + of_nat k := 0)) (t + of_nat i) = 0"
        using Suc.prems(3) by (auto simp: less_Suc_eq)
    qed
    then show ?case using st by (simp add: add.assoc add.commute add.left_commute del: fun_upd_apply)
  qed
  obtain m' where m': "vmemset_loop 4096 (t + of_nat 0) 0 (s\<lparr>phys := phys s\<rparr>) = Some (s\<lparr>phys := m'\<rparr>)"
      "\<And>a. page_base a \<noteq> t \<Longrightarrow> m' a = phys s a" "\<And>i. i < 4096 \<Longrightarrow> m' (t + of_nat i) = 0"
    using run [of 0 4096 "phys s"] by auto
  have "m' a = 0" if "page_base a = t" for a
  proof -
    have "unat (a - t) = unat a mod 4096"
      using that offset_eq [of a] unat_offset [of a] by simp
    then have "unat (a - t) < 4096" by simp
    from m'(3) [OF this] show ?thesis by simp
  qed
  with m' show ?thesis by (intro that [of m']) (auto simp: vmemset_def)
qed

section \<open>Mapping one page\<close>

lemma low_page: "page_base a = page_base b \<Longrightarrow> unat a < 0x800000 \<longleftrightarrow> unat b < 0x800000"
proof -
  assume "page_base a = page_base b"
  then have "unat a div 4096 * 4096 = unat b div 4096 * 4096" unfolding unat_page_base [symmetric] by simp
  then have "unat a div 4096 = unat b div 4096" by simp
  moreover have "x < 0x800000 \<longleftrightarrow> x div 4096 < 2048" for x :: nat by (simp add: div_less_iff_less_mult)
  ultimately show ?thesis by simp
qed

lemma vmm_set_entry:
  assumes ok: "vmm_ok s" and pr: "present (pde_of (phys s) (current_directory s) va)"
    and va: "cr3 s = current_directory s \<Longrightarrow> 0x800000 \<le> unat va"
  defines "dir \<equiv> current_directory s"
  defines "t \<equiv> page_base (pde_of (phys s) dir va)"
  obtains m where "vstore32 (pte_addr t va) v s = Some (s\<lparr>phys := m\<rparr>)" "vmm_ok (s\<lparr>phys := m\<rparr>)"
    and "\<And>va'. entry m dir va' = (if page_base va' = page_base va then v else entry (phys s) dir va')"
    and "dir_tables m dir = dir_tables (phys s) dir"
    and "\<And>va'. pde_of m dir va' = pde_of (phys s) dir va'"
    and "\<And>a. page_base a \<notin> dir_tables (phys s) dir \<Longrightarrow> m a = phys s a"
proof -
  let ?m = "store32 (pte_addr t va) v (phys s)"
  have wf: "dir_wf (phys s) dir" using vmm_okD(3) [OF ok] by (simp add: dir_def)
  note st = entry_store_pte [OF wf pr [folded dir_def], folded t_def]
  have t: "t \<in> dir_tables (phys s) dir" "page_base t = t"
    using pr by (auto simp: t_def dir_def dir_tables_def)
  then have low: "unat t < 0x800000" using vmm_okD(7) [OF ok, of t] by (simp add: dir_pages_def dir_def)
  have run: "vstore32 (pte_addr t va) v s = Some (s\<lparr>phys := ?m\<rparr>)"
    unfolding pte_addr_def using vmm_okD(4) [OF ok] low_slot [OF t(2) low index_less(2)]
    by (simp add: vstore32_low)
  have out: "?m a = phys s a" if "page_base a \<notin> dir_tables (phys s) dir" for a
    using st(2) t(1) that by metis
  have pages: "dir_pages ?m dir = dir_pages (phys s) dir" using st(4) by (simp add: dir_pages_def)
  have cr3: "ident ?m (cr3 s) \<and> dir_pages ?m (cr3 s) = dir_pages (phys s) (cr3 s)"
  proof (cases "cr3 s = dir")
    case True
    have "translate ?m dir a = translate (phys s) dir a" if "unat a < 0x800000" for a
    proof -
      have "page_base a \<noteq> page_base va"
      proof
        assume "page_base a = page_base va"
        moreover have "0x800000 \<le> unat va" using va True by (simp add: dir_def)
        ultimately show False using that low_page [of a va] by simp
      qed
      then show ?thesis by (simp add: translate_def st(1))
    qed
    then show ?thesis using True pages vmm_okD(4) [OF ok] by (simp add: ident_def)
  next
    case False
    then have "dir_pages (phys s) (cr3 s) \<inter> dir_pages (phys s) dir = {}"
      using vmm_okD(8) [OF ok] by (simp add: dir_def)
    then have disj: "page_base a \<notin> dir_tables (phys s) dir" if "page_base a \<in> dir_pages (phys s) (cr3 s)" for a
      using that by (auto simp: dir_pages_def)
    then have same: "phys s a = ?m a" if "page_base a \<in> dir_pages (phys s) (cr3 s)" for a
      using out disj that by metis
    then have "dir_pages (phys s) (cr3 s) = dir_pages ?m (cr3 s)"
      using dir_tables_cong [OF vmm_okD(2) [OF ok], of "phys s" ?m] by (simp add: dir_pages_def)
    then show ?thesis using ident_cong [OF vmm_okD(2) [OF ok] same vmm_okD(4) [OF ok]] by simp
  qed
  have "vmm_ok (s\<lparr>phys := ?m\<rparr>)"
    using ok st(3) cr3 pages unfolding vmm_ok_def by (simp add: dir_def)
  with run st out show ?thesis by (intro that [of ?m]) auto
qed

text \<open>What the caller must know when the page's table is still missing: a low frame is left.\<close>

definition frame_ready :: "u32 \<Rightarrow> vm_state \<Rightarrow> bool" where
  "frame_ready va s \<longleftrightarrow> present (pde_of (phys s) (current_directory s) va) \<or>
     (let t = fst (pmm_alloc_pages 0 (pmm s)) in t \<noteq> 0 \<and> unat t < 0x800000)"

lemma vmm_get_table_ok:
  assumes ok: "vmm_ok s" and ready: "frame_ready va s" and fl: "page_base flags = 0"
  defines "dir \<equiv> current_directory s"
  obtains s' where
    "vmm_get_table (pde_addr dir va) flags s = Some (page_base (pde_of (phys s') dir va), s')"
    and "vmm_ok s'" and "present (pde_of (phys s') dir va)"
    and "current_directory s' = dir" "cr3 s' = cr3 s" "kernel_directory s' = kernel_directory s"
    and "interrupt_handlers s' = interrupt_handlers s"
    and "\<And>va'. entry (phys s') dir va' = entry (phys s) dir va'"
    and "\<And>va'. present (pde_of (phys s') dir va') \<longleftrightarrow>
           present (pde_of (phys s) dir va') \<or> drop_bit 22 va' = drop_bit 22 va"
    and "\<And>a. page_base a \<notin> dir_pages (phys s') dir \<Longrightarrow> phys s' a = phys s a"
    and "dir_pages (phys s) dir \<subseteq> dir_pages (phys s') dir"
    and "dir_pages (phys s') dir \<subseteq> dir_pages (phys s) dir \<union> free_frames (pmm s)"
    and "pmm s' = (if present (pde_of (phys s) dir va) then pmm s else snd (pmm_alloc_pages 0 (pmm s)))"
proof (cases "present (pde_of (phys s) dir va)")
  case True
  have wf: "dir_wf (phys s) dir" using vmm_okD(3) [OF ok] by (simp add: dir_def)
  have "vload32 (pde_addr dir va) s = Some (pde_of (phys s) dir va)"
    unfolding pde_addr_def pde_of_def
    using vmm_okD(4,7) [OF ok] low_slot [OF dir_wfD(1) [OF wf] _ index_less(1), of va]
    by (simp add: vload32_low dir_def dir_pages_def)
  then have "vmm_get_table (pde_addr dir va) flags s = Some (page_base (pde_of (phys s) dir va), s)"
    using True by (simp add: vmm_get_table_def present_def PAGE_PRESENT_def page_base_def)
  moreover have "present (pde_of (phys s) dir va') \<longleftrightarrow>
      present (pde_of (phys s) dir va') \<or> drop_bit 22 va' = drop_bit 22 va" for va'
    using True by (auto simp only: pde_of_def pde_addr_def)
  ultimately show ?thesis using ok True by (intro that [of s]) (simp_all add: dir_def)
next
  case False
  have wf: "dir_wf (phys s) dir" using vmm_okD(3) [OF ok] by (simp add: dir_def)
  have dlow: "unat dir < 0x800000" using vmm_okD(7) [OF ok, of dir] by (simp add: dir_def dir_pages_def)
  obtain t p where al: "pmm_alloc_pages 0 (pmm s) = (t, p)" by fastforce
  with ready False have t0: "t \<noteq> 0" "unat t < 0x800000" by (auto simp: frame_ready_def dir_def Let_def)
  note fr = pmm.alloc_frame [OF vmm_okD(1) [OF ok] al t0(1)]
  then have tb: "page_base t = t" "t \<in> free_frames (pmm s)"
    using pmm.frame_aligned [OF vmm_okD(1) [OF ok], of t] by (auto simp: page_base_offset)
  then have tnew: "t \<notin> dir_pages (phys s) dir" "t \<notin> dir_pages (phys s) (cr3 s)"
    using vmm_okD(5,6) [OF ok] by (auto simp: dir_def)
  let ?e = "t OR flags OR PAGE_PRESENT"
  have e: "present ?e" "page_base ?e = t"
    using fl page_base_or_flags [OF tb(1), of "flags OR 1"]
    by (auto simp: PAGE_PRESENT_def or.assoc page_base_def bit.conj_disj_distrib2)
       (metis present_or or.assoc)
  obtain m where m: "vmemset t 0 4096 (s\<lparr>pmm := p\<rparr>) = Some (s\<lparr>pmm := p, phys := m\<rparr>)"
      "\<And>a. m a = (if page_base a = t then 0 else phys s a)"
  proof -
    have "t \<notin> dir_pages (phys (s\<lparr>pmm := p\<rparr>)) (cr3 (s\<lparr>pmm := p\<rparr>))"
      "page_base (cr3 (s\<lparr>pmm := p\<rparr>)) = cr3 (s\<lparr>pmm := p\<rparr>)" "ident (phys (s\<lparr>pmm := p\<rparr>)) (cr3 (s\<lparr>pmm := p\<rparr>))"
      using tnew(2) vmm_okD(2,4) [OF ok] by simp_all
    then show thesis by (rule vmemset_page [OF tb(1) t0(2)]) (rule that, assumption, simp)
  qed
  have mdir: "phys s a = m a" if "page_base a \<in> dir_pages (phys s) dir" for a
    using m(2) that tnew(1) by auto
  have mcr: "phys s a = m a" if "page_base a \<in> dir_pages (phys s) (cr3 s)" for a
    using m(2) that tnew(2) by auto
  have mdirA: "phys s a = m a" if "page_base a = dir" for a
    using mdir that by (simp add: dir_pages_def)
  have wfm: "dir_wf m dir" by (rule dir_wf_cong [OF mdirA wf])
  have tabm: "dir_tables m dir = dir_tables (phys s) dir"
    using dir_tables_cong [OF dir_wfD(1) [OF wf] mdirA] by simp
  have pdem: "pde_of m dir va' = pde_of (phys s) dir va'" for va'
    using pde_of_cong [OF dir_wfD(1) [OF wf] mdirA] by simp
  have idm: "ident m (cr3 s)" by (rule ident_cong [OF vmm_okD(2) [OF ok] mcr vmm_okD(4) [OF ok]])
  let ?m = "store32 (pde_addr dir va) ?e m"
  have "\<not> present (pde_of m dir va)" "t \<notin> dir_pages m dir" using False tnew(1) tabm pdem by (auto simp: dir_pages_def)
  note fresh = this
  have mt: "m a = 0" if "page_base a = t" for a using m(2) that by simp
  have entm: "entry m dir va' = entry (phys s) dir va'" for va'
    by (rule entry_cong [OF dir_wfD(1) [OF wf] mdir, symmetric])
  note st = entry_store_pde [OF wfm fresh(1) tb(1) fresh(2) mt e]
  have st: "entry ?m dir va' = entry (phys s) dir va'" "page_base a \<noteq> dir \<Longrightarrow> ?m a = m a" "dir_wf ?m dir"
      "dir_tables ?m dir = insert t (dir_tables (phys s) dir)"
      "pde_of ?m dir va' = (if drop_bit 22 va' = drop_bit 22 va then ?e else pde_of (phys s) dir va')" for va' a
    using st by (simp_all add: tabm pdem entm)
  have store: "vstore32 (pde_addr dir va) ?e (s\<lparr>pmm := p, phys := m\<rparr>) = Some (s\<lparr>pmm := p, phys := ?m\<rparr>)"
    unfolding pde_addr_def using idm low_slot [OF dir_wfD(1) [OF wf] dlow index_less(1)]
    by (simp add: vstore32_low)
  have load: "vload32 (pde_addr dir va) s = Some (pde_of (phys s) dir va)"
    unfolding pde_addr_def pde_of_def
    using vmm_okD(4) [OF ok] low_slot [OF dir_wfD(1) [OF wf] dlow index_less(1)]
    by (simp add: vload32_low)
  let ?s = "s\<lparr>pmm := p, phys := ?m\<rparr>"
  have pe: "page_base (pde_of ?m dir va) = t" using e by (simp add: st(5))
  have run: "vmm_get_table (pde_addr dir va) flags s = Some (page_base (pde_of ?m dir va), ?s)"
    unfolding pe using False load al m(1) store
    by (simp add: vmm_get_table_def present_def PAGE_PRESENT_def)
  have pages: "dir_pages ?m dir = insert t (dir_pages (phys s) dir)" using st(4) by (auto simp: dir_pages_def)
  have cr3: "ident ?m (cr3 s) \<and> (cr3 s = dir \<or> dir_pages ?m (cr3 s) = dir_pages (phys s) (cr3 s))"
  proof (cases "cr3 s = dir")
    case True
    then show ?thesis using vmm_okD(4) [OF ok] st(1) by (simp add: ident_def translate_def)
  next
    case other: False
    then have "dir_pages (phys s) (cr3 s) \<inter> dir_pages (phys s) dir = {}"
      using vmm_okD(8) [OF ok] by (simp add: dir_def)
    then have "dir \<notin> dir_pages (phys s) (cr3 s)" by (auto simp: dir_pages_def)
    then have same: "phys s a = ?m a" if "page_base a \<in> dir_pages (phys s) (cr3 s)" for a
      using st(2) [of a] mcr [OF that] that by metis
    have "dir_tables (phys s) (cr3 s) = dir_tables ?m (cr3 s)"
      using same by (intro dir_tables_cong vmm_okD(2) [OF ok]) (simp add: dir_pages_def)
    then show ?thesis
      using ident_cong [OF vmm_okD(2) [OF ok] same vmm_okD(4) [OF ok]] by (simp add: dir_pages_def)
  qed
  have "vmm_ok ?s"
    unfolding vmm_ok_def
  proof (intro conjI)
    show "pmm_ok (pmm ?s)" "page_base (cr3 ?s) = cr3 ?s" "dir_wf (phys ?s) (current_directory ?s)"
      "ident (phys ?s) (cr3 ?s)"
      using fr vmm_okD(2) [OF ok] st(3) cr3 by (simp_all add: dir_def)
    show "\<forall>q\<in>dir_pages (phys ?s) (current_directory ?s) \<union> dir_pages (phys ?s) (cr3 ?s). q \<notin> free_frames (pmm ?s)"
      using fr pages cr3 vmm_okD(5,6) [OF ok] by (auto simp: dir_def)
    show "\<forall>q\<in>dir_pages (phys ?s) (current_directory ?s). unat q < 0x800000"
      using pages vmm_okD(7) [OF ok] t0(2) by (auto simp: dir_def)
    show "cr3 ?s = current_directory ?s \<or> dir_pages (phys ?s) (cr3 ?s) \<inter> dir_pages (phys ?s) (current_directory ?s) = {}"
      using pages cr3 vmm_okD(8) [OF ok] tnew(2) by (auto simp: dir_def)
  qed
  moreover have "?m a = phys s a" if "page_base a \<notin> dir_pages ?m dir" for a
    using that pages st(2) m(2) by (auto simp: dir_pages_def)
  ultimately show ?thesis
    using run pages st e False tb(2) al by (intro that [of ?s]) (auto simp: dir_def)
qed

text \<open>What every sequence of mappings leaves alone: nothing but page tables and free frames is written.\<close>

definition vmm_ext :: "vm_state \<Rightarrow> vm_state \<Rightarrow> bool" where
  "vmm_ext s s' \<longleftrightarrow>
     vmm_ok s' \<and> current_directory s' = current_directory s \<and> cr3 s' = cr3 s \<and>
     kernel_directory s' = kernel_directory s \<and> interrupt_handlers s' = interrupt_handlers s \<and>
     dir_pages (phys s) (current_directory s) \<subseteq> dir_pages (phys s') (current_directory s) \<and>
     dir_pages (phys s') (current_directory s) \<subseteq> dir_pages (phys s) (current_directory s) \<union> free_frames (pmm s) \<and>
     free_frames (pmm s') \<subseteq> free_frames (pmm s) \<and>
     (\<forall>a. page_base a \<notin> dir_pages (phys s') (current_directory s) \<longrightarrow> phys s' a = phys s a)"

lemma vmm_ext_refl: "vmm_ok s \<Longrightarrow> vmm_ext s s"
  by (auto simp: vmm_ext_def)

lemma vmm_ext_trans: "vmm_ext s t \<Longrightarrow> vmm_ext t u \<Longrightarrow> vmm_ext s u"
proof -
  assume st: "vmm_ext s t" and tu: "vmm_ext t u"
  note a = st [unfolded vmm_ext_def] and b = tu [unfolded vmm_ext_def]
  have dir: "current_directory t = current_directory s" using a by blast
  have "phys u x = phys s x" if "page_base x \<notin> dir_pages (phys u) (current_directory s)" for x
    using a b that unfolding dir by (metis subsetD)
  moreover have "dir_pages (phys u) (current_directory s) \<subseteq> dir_pages (phys s) (current_directory s) \<union> free_frames (pmm s)"
    using a b unfolding dir by blast
  ultimately show ?thesis using a b unfolding vmm_ext_def dir by (metis subset_trans)
qed

lemma vmm_extD:
  assumes "vmm_ext s s'"
  shows "vmm_ok s'" "current_directory s' = current_directory s" "cr3 s' = cr3 s"
    "kernel_directory s' = kernel_directory s" "interrupt_handlers s' = interrupt_handlers s"
    "dir_pages (phys s) (current_directory s) \<subseteq> dir_pages (phys s') (current_directory s)"
    "dir_pages (phys s') (current_directory s) \<subseteq> dir_pages (phys s) (current_directory s) \<union> free_frames (pmm s)"
    "free_frames (pmm s') \<subseteq> free_frames (pmm s)"
    "page_base a \<notin> dir_pages (phys s') (current_directory s) \<Longrightarrow> phys s' a = phys s a"
  using assms unfolding vmm_ext_def by blast+

lemma vmm_map_step:
  assumes ok: "vmm_ok s" and ready: "frame_ready va s" and fl: "page_base flags = 0"
    and va: "cr3 s = current_directory s \<Longrightarrow> 0x800000 \<le> unat va"
  defines "dir \<equiv> current_directory s"
  obtains s' where "vmm_map_page va pa flags s = Some s'" "vmm_ext s s'"
    and "\<And>va'. entry (phys s') dir va' =
           (if page_base va' = page_base va then page_base pa OR flags else entry (phys s) dir va')"
    and "\<And>va'. present (pde_of (phys s') dir va') \<longleftrightarrow>
           present (pde_of (phys s) dir va') \<or> drop_bit 22 va' = drop_bit 22 va"
    and "pmm s' = (if present (pde_of (phys s) dir va) then pmm s else snd (pmm_alloc_pages 0 (pmm s)))"
proof -
  obtain t where t: "vmm_get_table (pde_addr dir va) flags s = Some (page_base (pde_of (phys t) dir va), t)"
    "vmm_ok t" "present (pde_of (phys t) dir va)"
    "current_directory t = dir" "cr3 t = cr3 s" "kernel_directory t = kernel_directory s"
    "interrupt_handlers t = interrupt_handlers s"
    "\<And>va'. entry (phys t) dir va' = entry (phys s) dir va'"
    "\<And>va'. present (pde_of (phys t) dir va') \<longleftrightarrow>
           present (pde_of (phys s) dir va') \<or> drop_bit 22 va' = drop_bit 22 va"
    "\<And>a. page_base a \<notin> dir_pages (phys t) dir \<Longrightarrow> phys t a = phys s a"
    "dir_pages (phys s) dir \<subseteq> dir_pages (phys t) dir"
    "dir_pages (phys t) dir \<subseteq> dir_pages (phys s) dir \<union> free_frames (pmm s)"
    "pmm t = (if present (pde_of (phys s) dir va) then pmm s else snd (pmm_alloc_pages 0 (pmm s)))"
    by (rule vmm_get_table_ok [OF ok ready fl]) (unfold dir_def [symmetric], blast)
  have pr: "present (pde_of (phys t) (current_directory t) va)" using t(3,4) by simp
  have va': "cr3 t = current_directory t \<Longrightarrow> 0x800000 \<le> unat va" using va t(4,5) by (simp add: dir_def)
  obtain m where m:
    "vstore32 (pte_addr (page_base (pde_of (phys t) dir va)) va) (page_base pa OR flags) t = Some (t\<lparr>phys := m\<rparr>)"
    "vmm_ok (t\<lparr>phys := m\<rparr>)"
    "\<And>va'. entry m dir va' = (if page_base va' = page_base va then page_base pa OR flags else entry (phys t) dir va')"
    "dir_tables m dir = dir_tables (phys t) dir" "\<And>va'. pde_of m dir va' = pde_of (phys t) dir va'"
    "\<And>a. page_base a \<notin> dir_tables (phys t) dir \<Longrightarrow> m a = phys t a"
    by (rule vmm_set_entry [OF t(2) pr, of "page_base pa OR flags"]) (erule va', unfold t(4), rule that)
  have free: "free_frames (pmm t) \<subseteq> free_frames (pmm s)"
  proof (cases "present (pde_of (phys s) dir va)")
    case True
    then show ?thesis using t(13) by simp
  next
    case False
    obtain x p where "pmm_alloc_pages 0 (pmm s) = (x, p)" by fastforce
    with False ready pmm.alloc_frame [OF vmm_okD(1) [OF ok], of x p] t(13) show ?thesis
      by (auto simp: frame_ready_def dir_def)
  qed
  have "vmm_map_page va pa flags s = Some (t\<lparr>phys := m\<rparr>)"
    using t(1) m(1) by (simp add: vmm_map_page_def Let_def pde_addr_def pte_addr_def dir_def page_base_def)
  moreover have "vmm_ext s (t\<lparr>phys := m\<rparr>)"
  proof -
    have pages: "dir_pages m dir = dir_pages (phys t) dir" using m(4) by (simp add: dir_pages_def)
    have "m a = phys s a" if "page_base a \<notin> dir_pages (phys t) dir" for a
      using that m(6) t(10) by (simp add: dir_pages_def)
    then show ?thesis using m(2) t(4-7,11,12) pages free unfolding vmm_ext_def by (simp add: dir_def)
  qed
  ultimately show ?thesis using m(3,5) t(8,9,13) by (intro that [of "t\<lparr>phys := m\<rparr>"]) simp_all
qed

section \<open>Frames below 8 MB\<close>

definition low_frames :: "pmm_state \<Rightarrow> u32 set" where
  "low_frames p = {f \<in> free_frames p. unat f < 0x800000}"

text \<open>Above 8 MB only blocks of the highest order are free, so they are the last to be split.\<close>

definition low_first :: "pmm_state \<Rightarrow> bool" where
  "low_first p \<longleftrightarrow> (\<forall>b \<in> free_blocks p. 2048 \<le> fst b \<longrightarrow> snd b = 11)"

lemma spec_split_new:
  "b \<in> spec_split F i l ord \<Longrightarrow> b \<in> F \<or> (i \<le> fst b \<and> fst b < i + 2 ^ l)"
proof (induction l arbitrary: F)
  case 0
  then show ?case by simp
next
  case (Suc k)
  then show ?case by (auto split: if_splits dest!: Suc.IH)
qed

lemma low_alloc:
  assumes ok: "pmm_ok p" "low_first p" and ne: "low_frames p \<noteq> {}"
    and al: "pmm_alloc_pages 0 p = (t, p')"
  shows "t \<noteq> 0" "unat t < 0x800000" "low_first p'" "low_frames p' = low_frames p - {t}" "t \<in> low_frames p"
proof -
  obtain A where inv: "pmm_inv p A" using ok(1) by (auto simp: pmm_ok_def)
  have zero: "0 \<notin> cover (free_blocks p)" using ok(1) by (simp add: pmm_ok_def)
  have wf: "buddy_wf (total_pages p) (free_blocks p) A" using inv by (simp add: pmm_inv_def)
  obtain f where f: "f \<in> free_frames p" "unat f < 0x800000" using ne by (auto simp: low_frames_def)
  then obtain i where i: "i \<in> cover (free_blocks p)" "f = of_nat i * PAGE_SIZE" by (auto simp: free_frames_def)
  have "i < 2 ^ 20" using pmm_cover_bound [OF inv i(1)] .
  then have "i < 2048" using f(2) i(2) pmm_addr(1) [of i] by simp
  obtain b where b: "b \<in> free_blocks p" "i \<in> blk b" using i(1) by (auto simp: cover_def)
  have vb: "valid_block (total_pages p) b" using buddy_wf_valid [OF wf, of b] b(1) by simp
  show t0: "t \<noteq> 0"
    using pmm.alloc_empty [OF ok(1), of p'] al f(1) by auto
  have "snd b < 11"
  proof (rule ccontr)
    assume "\<not> snd b < 11"
    then have m: "snd b = 11" using vb by (simp add: valid_block_def MAX_ORDER_def)
    then have "2048 dvd fst b" using vb by (simp add: valid_block_def)
    moreover have "fst b < 2048" using b(2) \<open>i < 2048\<close> by (simp add: blk_def)
    ultimately have "fst b = 0" by auto
    then have "0 \<in> blk b" by (simp add: blk_def)
    with b(1) zero show False by (auto simp: cover_def)
  qed
  have "unat t < 0x800000 \<and> low_first p' \<and> low_frames p' = low_frames p - {t} \<and> t \<in> low_frames p"
  proof (cases rule: pmm_alloc_refines [OF inv, of 0])
    case 1
    with al t0 show ?thesis by simp
  next
    case (2 j l q)
    then have t: "t = of_nat j * PAGE_SIZE" and q: "p' = q" using al by auto
    have "l \<le> snd b" using 2(3) b(1) by (cases b) auto
    then have l: "l < 11" using \<open>snd b < 11\<close> by simp
    then have j: "j < 2048" using ok(2) 2(1) by (force simp: low_first_def)
    have vj: "2 ^ l dvd j" using buddy_wf_valid [OF wf, of "(j, l)"] 2(1) by (simp add: valid_block_def)
    have "(2::nat) ^ l dvd 2 ^ 11" using l by (intro le_imp_power_dvd) simp
    then have "2 ^ l dvd 2048 - j" using vj by (simp add: dvd_diff_nat)
    then have "j + 2 ^ l \<le> 2048" using j dvd_imp_le [of "2 ^ l" "2048 - j"] by simp
    have tl: "unat t < 0x800000" using pmm_addr(1) [of j] j t by simp
    have "low_first p'"
      unfolding low_first_def q 2(8)
      using ok(2) \<open>j + 2 ^ l \<le> 2048\<close> by (auto simp: low_first_def dest!: spec_split_new)
    moreover have "t \<in> free_frames p \<and> free_frames p' = free_frames p - {t}"
      using pmm.alloc_frame [OF ok(1) al t0] by blast
    ultimately show ?thesis using tl by (auto simp: low_frames_def)
  qed
  then show "unat t < 0x800000" "low_first p'" "low_frames p' = low_frames p - {t}" "t \<in> low_frames p"
    by auto
qed

section \<open>Mapping a range\<close>

text \<open>Directory slots of \<open>I\<close> that still lack a table.\<close>

definition absent :: "vm_state \<Rightarrow> u32 set \<Rightarrow> u32 set" where
  "absent s I = {drop_bit 22 va |va. drop_bit 22 va \<in> I \<and> \<not> present (pde_of (phys s) (current_directory s) va)}"

definition room :: "vm_state \<Rightarrow> u32 set \<Rightarrow> nat \<Rightarrow> bool" where
  "room s I spare \<longleftrightarrow> low_first (pmm s) \<and> card (absent s I) + spare \<le> card (low_frames (pmm s))"

lemma vmm_map_step_room:
  assumes ok: "vmm_ok s" and room: "room s I spare" and I: "drop_bit 22 va \<in> I" and fl: "page_base flags = 0"
    and va: "cr3 s = current_directory s \<Longrightarrow> 0x800000 \<le> unat va"
  obtains s' where "vmm_map_page va pa flags s = Some s'" "vmm_ext s s'" "room s' I spare"
    and "\<And>va'. entry (phys s') (current_directory s) va' =
           (if page_base va' = page_base va then page_base pa OR flags else entry (phys s) (current_directory s) va')"
proof -
  let ?d = "current_directory s"
  let ?p = "present (pde_of (phys s) ?d va)"
  obtain t p where al: "pmm_alloc_pages 0 (pmm s) = (t, p)" by fastforce
  have fresh: "t \<noteq> 0 \<and> unat t < 0x800000 \<and> low_first p \<and> low_frames p = low_frames (pmm s) - {t} \<and> t \<in> low_frames (pmm s)"
    if "\<not> ?p"
  proof -
    have "drop_bit 22 va \<in> absent s I" using I that by (auto simp: absent_def)
    then have "0 < card (absent s I)" using finite_u32 by (auto simp: card_gt_0_iff)
    then have "low_frames (pmm s) \<noteq> {}" using room by (auto simp: room_def)
    then show ?thesis using low_alloc [OF vmm_okD(1) [OF ok] _ _ al] room by (simp add: room_def)
  qed
  then have ready: "frame_ready va s" using al by (auto simp: frame_ready_def)
  obtain s' where s': "vmm_map_page va pa flags s = Some s'" "vmm_ext s s'"
    "\<And>va'. entry (phys s') ?d va' = (if page_base va' = page_base va then page_base pa OR flags else entry (phys s) ?d va')"
    "\<And>va'. present (pde_of (phys s') ?d va') \<longleftrightarrow> present (pde_of (phys s) ?d va') \<or> drop_bit 22 va' = drop_bit 22 va"
    "pmm s' = (if ?p then pmm s else snd (pmm_alloc_pages 0 (pmm s)))"
    by (rule vmm_map_step [OF ok ready fl]) (erule va, rule that)
  have ab: "absent s' I = absent s I - {drop_bit 22 va}"
    using vmm_extD(2) [OF s'(2)] s'(4) unfolding absent_def by auto
  have "room s' I spare"
  proof (cases ?p)
    case True
    then have "pmm s' = pmm s" using s'(5) by simp
    moreover have "card (absent s' I) \<le> card (absent s I)"
      unfolding ab by (intro card_mono finite_u32) auto
    ultimately show ?thesis using room by (simp add: room_def)
  next
    case False
    have "drop_bit 22 va \<in> absent s I" using I False by (auto simp: absent_def)
    then have "Suc (card (absent s' I)) = card (absent s I)"
      unfolding ab by (rule card_Suc_Diff1 [OF finite_u32])
    moreover have "pmm s' = p" using s'(5) al False by simp
    moreover have "Suc (card (low_frames p)) = card (low_frames (pmm s))"
      using fresh [OF False] card_Suc_Diff1 [OF finite_u32, of t "low_frames (pmm s)"] by simp
    ultimately show ?thesis using room fresh [OF False] unfolding room_def by (elim conjE) (simp only:, arith)
  qed
  then show ?thesis by (rule that [OF s'(1,2) _ s'(3)])
qed

text \<open>
  The pages of a range: \<open>n\<close> of them starting at the one that holds \<open>va\<close>.
\<close>

definition in_range :: "u32 \<Rightarrow> nat \<Rightarrow> nat \<Rightarrow> u32 \<Rightarrow> bool" where
  "in_range va k n va' \<longleftrightarrow> (\<exists>i. k \<le> i \<and> i < n \<and> page_base va' = page_base (va + of_nat (4096 * i)))"

definition page_count :: "u32 \<Rightarrow> nat" where
  "page_count len = (unat len + 4095) div 4096"

lemma map_loop_ok:
  assumes lim: "unat lim \<le> 2 ^ 32 - 4096" and d: "page_base d = d" "page_base flags = 0"
  shows "k \<le> page_count lim \<Longrightarrow> vmm_ok s \<Longrightarrow> room s I spare \<Longrightarrow>
    (\<And>i. k \<le> i \<Longrightarrow> i < page_count lim \<Longrightarrow> drop_bit 22 (pa + d + of_nat (4096 * i)) \<in> I \<and>
       (cr3 s = current_directory s \<longrightarrow> 0x800000 \<le> unat (pa + d + of_nat (4096 * i)))) \<Longrightarrow>
    \<exists>s'. map_loop (of_nat (4096 * k)) lim (pa + d) pa flags s = Some s' \<and> vmm_ext s s' \<and> room s' I spare \<and>
      (\<forall>va. entry (phys s') (current_directory s) va =
         (if in_range (pa + d) k (page_count lim) va then page_base (va - d) OR flags
          else entry (phys s) (current_directory s) va))"
proof (induction "page_count lim - k" arbitrary: k s)
  case 0
  then have k: "k = page_count lim" by simp
  have "unat lim \<le> 4096 * k" "4096 * k < 2 ^ 32"
    using lim unfolding k page_count_def by simp_all
  then have "\<not> of_nat (4096 * k) < lim"
    unfolding word_less_nat_alt unat_of_nat_32 [OF \<open>4096 * k < 2 ^ 32\<close>] by simp
  then have "map_loop (of_nat (4096 * k)) lim (pa + d) pa flags s = Some s"
    by (subst map_loop.simps) simp
  then show ?case using 0 k vmm_ext_refl by (auto simp: in_range_def)
next
  case (Suc n)
  let ?i = "of_nat (4096 * k) :: u32"
  let ?d = "current_directory s"
  have kn: "k < page_count lim" using Suc.hyps(2) by simp
  then have "Suc k \<le> (unat lim + 4095) div 4096" by (simp add: page_count_def)
  then have "4096 * k < unat lim" by (simp add: less_eq_div_iff_mult_less_eq)
  moreover have i: "unat ?i = 4096 * k" 
    using \<open>4096 * k < unat lim\<close> unat_less_32 [of lim] by (intro unat_of_nat_32) (rule less_trans)
  ultimately have lt: "?i < lim" by (simp add: word_less_nat_alt)
  have dI: "drop_bit 22 (pa + d + ?i) \<in> I" and hi: "cr3 s = ?d \<Longrightarrow> 0x800000 \<le> unat (pa + d + ?i)"
    using Suc.prems(4) [of k] kn by simp_all
  obtain t where t: "vmm_map_page (pa + d + ?i) (pa + ?i) flags s = Some t" "vmm_ext s t" "room t I spare"
    "\<And>va'. entry (phys t) ?d va' = (if page_base va' = page_base (pa + d + ?i) then page_base (pa + ?i) OR flags
        else entry (phys s) ?d va')"
    by (rule vmm_map_step_room [OF Suc.prems(2,3) dI d(2)]) (erule hi, rule that)
  have next_i: "of_nat (4096 * Suc k) = ?i + PAGE_SIZE" by (simp add: PAGE_SIZE_def)
  have "\<exists>s'. map_loop (of_nat (4096 * Suc k)) lim (pa + d) pa flags t = Some s' \<and> vmm_ext t s' \<and> room s' I spare \<and>
      (\<forall>va. entry (phys s') (current_directory t) va =
         (if in_range (pa + d) (Suc k) (page_count lim) va then page_base (va - d) OR flags
          else entry (phys t) (current_directory t) va))"
    using Suc.hyps kn t(3) vmm_extD(1,2,3) [OF t(2)] Suc.prems(4) by (intro Suc.hyps(1)) auto
  then obtain s' where s': "map_loop (?i + PAGE_SIZE) lim (pa + d) pa flags t = Some s'" "vmm_ext t s'" "room s' I spare"
      "\<And>va. entry (phys s') ?d va = (if in_range (pa + d) (Suc k) (page_count lim) va then page_base (va - d) OR flags
          else entry (phys t) ?d va)"
    unfolding next_i vmm_extD(2) [OF t(2)] by auto
  have run: "map_loop ?i lim (pa + d) pa flags s = Some s'"
    using lt t(1) s'(1) by (subst map_loop.simps) simp
  have md: "page_base (- d) = - d"
    using page_base_plus [OF d(1), of "- d"] by (simp add: page_base_def eq_neg_iff_add_eq_0)
  have hit: "page_base (va - d) = page_base (pa + ?i)" if "page_base va = page_base (pa + d + ?i)" for va
  proof -
    have e: "pa + ?i = pa + d + ?i + - d" "va - d = va + - d" by simp_all
    show ?thesis unfolding e page_base_plus [OF md] that ..
  qed
  have split: "in_range (pa + d) k (page_count lim) va \<longleftrightarrow>
      page_base va = page_base (pa + d + ?i) \<or> in_range (pa + d) (Suc k) (page_count lim) va" for va
    using kn unfolding in_range_def by (metis Suc_leD Suc_leI le_neq_implies_less order_refl)
  have "entry (phys s') ?d va = (if in_range (pa + d) k (page_count lim) va then page_base (va - d) OR flags
          else entry (phys s) ?d va)" for va
    using s'(4) [of va] t(4) [of va] split [of va] hit [of va] by auto
  with run s'(3) vmm_ext_trans [OF t(2) s'(2)] show ?case by auto
qed

section \<open>Building the kernel's address space\<close>

text \<open>
  The state \<^verbatim>\<open>kernel_entry.asm\<close> and the page allocator leave behind: a boot directory that maps the
  first 8 MB at their physical addresses and again from \<open>0xC0000000\<close>, none of whose pages
  is free.
\<close>

definition boot_ok :: "vm_state \<Rightarrow> bool" where
  "boot_ok s \<longleftrightarrow>
     pmm_ok (pmm s) \<and> low_first (pmm s) \<and> page_base (cr3 s) = cr3 s \<and> ident (phys s) (cr3 s) \<and>
     (\<forall>a. unat a < 0x800000 \<longrightarrow> translate (phys s) (cr3 s) (0xC0000000 + a) = Some a) \<and>
     dir_pages (phys s) (cr3 s) \<inter> free_frames (pmm s) = {}"

definition fb_start :: "vm_state \<Rightarrow> u32" where
  "fb_start s = load32 (phys s) 0x528"

definition fb_size :: "vm_state \<Rightarrow> u32" where
  "fb_size s = ucast (ucast (load32 (phys s) 0x514) :: u16) * ucast (ucast (load32 (phys s) 0x510) :: u16)"

text \<open>The directory slots the kernel, its second mapping and the framebuffer need.\<close>

definition needed_dirs :: "vm_state \<Rightarrow> u32 set" where
  "needed_dirs s = {0, 1, 768, 769} \<union>
     (\<lambda>i. drop_bit 22 (fb_start s + of_nat (4096 * i))) ` {..<page_count (fb_size s)}"

lemma translate_entry:
  assumes d: "page_base d = d" and e: "entry m dir va = page_base (va - d) OR (PAGE_PRESENT OR PAGE_RW)"
  shows "translate m dir va = Some (va - d)"
proof -
  have "present (entry m dir va)"
    unfolding e PAGE_PRESENT_def PAGE_RW_def by (metis present_or or.commute or.assoc)
  moreover have "page_base (entry m dir va) = page_base (va - d)"
    unfolding e by (intro page_base_or_flags) (simp_all add: page_base_def PAGE_PRESENT_def PAGE_RW_def)
  moreover have "va AND 0xFFF = (va - d) AND 0xFFF"
    unfolding offset_eq page_base_minus [OF d] by simp
  ultimately show ?thesis by (simp add: translate_def page_base_split)
qed

lemma in_range_aligned:
  assumes b: "page_base b = b" and n: "n \<le> 2 ^ 20"
  shows "in_range b 0 n va \<longleftrightarrow> unat (va - b) < 4096 * n"
proof -
  have key: "page_base va = page_base (b + of_nat (4096 * i)) \<longleftrightarrow> unat (va - b) div 4096 = i" if "i < n" for i
  proof -
    have u: "unat (of_nat (4096 * i) :: u32) = 4096 * i" using that n by (intro unat_of_nat_32) simp
    then have al: "page_base (of_nat (4096 * i)) = of_nat (4096 * i)" by (simp only: page_base_aligned) simp
    have "page_base (b + of_nat (4096 * i)) = b + of_nat (4096 * i)"
      using page_base_plus [OF al, of b] b by simp
    then have "page_base va = page_base (b + of_nat (4096 * i)) \<longleftrightarrow> page_base (va - b) = of_nat (4096 * i)"
      unfolding page_base_minus [OF b] by (auto simp: algebra_simps)
    also have "\<dots> \<longleftrightarrow> unat (va - b) div 4096 * 4096 = 4096 * i"
      unfolding word_unat_eq_iff u unat_page_base ..
    finally show ?thesis by simp
  qed
  show ?thesis
  proof
    assume "in_range b 0 n va"
    then obtain i where "i < n" "unat (va - b) div 4096 = i" using key by (auto simp: in_range_def)
    then show "unat (va - b) < 4096 * n" by (simp add: div_less_iff_less_mult mult.commute)
  next
    assume "unat (va - b) < 4096 * n"
    then have "unat (va - b) div 4096 < n" by (simp add: div_less_iff_less_mult mult.commute)
    then show "in_range b 0 n va" using key unfolding in_range_def by blast
  qed
qed

text \<open>A translation through the boot directory survives while another directory is being filled.\<close>

lemma vmm_ext_boot:
  assumes ok: "vmm_ok s" and ext: "vmm_ext s t" and ne: "cr3 s \<noteq> current_directory s"
  shows "translate (phys t) (cr3 s) va = translate (phys s) (cr3 s) va"
proof -
  have "page_base a \<notin> dir_pages (phys t) (current_directory s)" if "page_base a \<in> dir_pages (phys s) (cr3 s)" for a
    using that vmm_okD(6,8) [OF ok] vmm_extD(7) [OF ext] ne by blast
  then have "phys s a = phys t a" if "page_base a \<in> dir_pages (phys s) (cr3 s)" for a
    using vmm_extD(9) [OF ext] that by metis
  then show ?thesis
    using entry_cong [OF vmm_okD(2) [OF ok]] by (metis translate_def)
qed

text \<open>The first steps: a cleared frame becomes an empty directory.\<close>

lemma vmm_init_dir:
  assumes ok: "boot_ok s" and low: "low_frames (pmm s) \<noteq> {}"
    and al: "pmm_alloc_pages 0 (pmm s) = (dir, p)"
  defines "s1 \<equiv> s\<lparr>pmm := p, kernel_directory := dir\<rparr>"
  obtains s2 where "map_option (\<lambda>s. s\<lparr>current_directory := dir\<rparr>) (vmemset dir 0 4096 s1) = Some s2"
    and "vmm_ok s2" "current_directory s2 = dir" "kernel_directory s2 = dir" "cr3 s2 = cr3 s" "cr3 s \<noteq> dir"
    and "pmm s2 = p" "low_first p" "low_frames p = low_frames (pmm s) - {dir}" "dir \<in> low_frames (pmm s)"
    and "interrupt_handlers s2 = interrupt_handlers s"
    and "\<And>va. entry (phys s2) dir va = 0" and "dir_pages (phys s2) dir = {dir}"
    and "\<And>a. page_base a \<noteq> dir \<Longrightarrow> phys s2 a = phys s a"
    and "\<And>va. translate (phys s2) (cr3 s) va = translate (phys s) (cr3 s) va"
proof -
  have pok: "pmm_ok (pmm s)" and cb: "page_base (cr3 s) = cr3 s" and id: "ident (phys s) (cr3 s)"
    and lf: "low_first (pmm s)" and dj: "dir_pages (phys s) (cr3 s) \<inter> free_frames (pmm s) = {}"
    using ok by (simp_all add: boot_ok_def)
  note la = low_alloc [OF pok lf low al]
  have fr: "pmm_ok p" "dir \<in> free_frames (pmm s)" "free_frames p = free_frames (pmm s) - {dir}"
    using pmm.alloc_frame [OF pok al la(1)] by auto
  have db: "page_base dir = dir"
    using pmm.frame_aligned [OF pok fr(2)] by (simp add: page_base_offset)
  have dn: "dir \<notin> dir_pages (phys s) (cr3 s)" using dj fr(2) by blast
  obtain m where m: "vmemset dir 0 4096 s1 = Some (s1\<lparr>phys := m\<rparr>)"
    "\<And>a. m a = (if page_base a = dir then 0 else phys s1 a)"
    using vmemset_page [OF db la(2), of s1] dn cb id unfolding s1_def by (auto; blast)
  let ?s2 = "s1\<lparr>phys := m, current_directory := dir\<rparr>"
  have "load32 m (pde_addr dir va) = load32 (\<lambda>_. 0) (pde_addr dir va)" for va
    unfolding pde_addr_def using m(2) by (intro load_slot_cong [OF db index_less(1)]) simp
  then have pde: "pde_of m dir va = 0" for va by (simp add: pde_of_def load32_def)
  then have e: "entry m dir va = 0" "dir_pages m dir = {dir}" for va
    by (simp_all add: entry_def dir_pages_def dir_tables_def)
  have same: "phys s a = m a" if "page_base a \<in> dir_pages (phys s) (cr3 s)" for a
    using m(2) [of a] that dn by (auto simp: s1_def)
  have idm: "ident m (cr3 s)" by (rule ident_cong [OF cb same id])
  have "entry m (cr3 s) va = entry (phys s) (cr3 s) va" for va
    by (rule entry_cong [OF cb same, symmetric])
  then have tr: "translate m (cr3 s) va = translate (phys s) (cr3 s) va" for va
    by (simp only: translate_def)
  have "dir_tables (phys s) (cr3 s) = dir_tables m (cr3 s)"
    using same by (intro dir_tables_cong cb) (simp add: dir_pages_def)
  then have pg: "dir_pages m (cr3 s) = dir_pages (phys s) (cr3 s)" by (simp add: dir_pages_def)
  have ne: "cr3 s \<noteq> dir" using dn by (auto simp: dir_pages_def)
  have wf: "dir_wf m dir" by (simp add: dir_wf_def db pde dir_tables_def)
  have "vmm_ok ?s2"
    unfolding vmm_ok_def using fr cb wf idm e pg dj la(2) dn by (auto simp: s1_def)
  moreover have "map_option (\<lambda>s. s\<lparr>current_directory := dir\<rparr>) (vmemset dir 0 4096 s1) = Some ?s2"
    using m(1) by simp
  moreover have "m a = phys s a" if "page_base a \<noteq> dir" for a using m(2) [of a] that by (simp add: s1_def)
  ultimately show ?thesis
    using la(3-5) e tr ne by (intro that [of ?s2]) (simp_all add: s1_def)
qed

lemma page_count_8M: "page_count 0x800000 = 2048"
  by (simp add: page_count_def)

lemma low_dirs:
  assumes "i < 2048"
  shows "drop_bit 22 (of_nat (4096 * i) :: u32) \<in> {0, 1}"
    and "drop_bit 22 (0xC0000000 + of_nat (4096 * i) :: u32) \<in> {768, 769}"
proof -
  have "unat (of_nat (4096 * i) :: u32) = 4096 * i" using assms by (intro unat_of_nat_32) simp
  moreover have "unat (0xC0000000 + of_nat (4096 * i) :: u32) = 0xC0000000 + 4096 * i"
    using assms unat_add_of_nat [of "0xC0000000" "4096 * i"] by simp
  moreover have "4096 * i div 4194304 \<in> {0, 1}" "(0xC0000000 + 4096 * i) div 4194304 \<in> {768, 769}"
    using assms by auto
  ultimately show "drop_bit 22 (of_nat (4096 * i) :: u32) \<in> {0, 1}"
    "drop_bit 22 (0xC0000000 + of_nat (4096 * i) :: u32) \<in> {768, 769}"
    by (auto simp: word_unat_eq_iff unat_drop_22 simp del: of_nat_mult)
qed

lemma vbe_reads:
  assumes tr: "\<And>a. unat a < 0x800000 \<Longrightarrow> translate (phys s) (cr3 s) (0xC0000000 + a) = Some a"
    and same: "\<And>a. page_base a = 0 \<Longrightarrow> phys s a = phys s0 a"
  shows "vbe_framebuffer 0xC0000500 s = Some (fb_start s0)"
    "\<exists>h p. vbe_height 0xC0000500 s = Some h \<and> vbe_pitch 0xC0000500 s = Some p \<and>
       ucast h * ucast p = fb_size s0"
proof -
  have l: "load32 (phys s) (0 + 4 * w) = load32 (phys s0) (0 + 4 * w)" if "unat w < 1024" for w
    using that same by (intro load_slot_cong) (simp_all add: page_base_def)
  show "vbe_framebuffer 0xC0000500 s = Some (fb_start s0)"
    using tr [of "0x528"] l [of "0x14A"] by (simp add: vbe_framebuffer_def vload32_def fb_start_def)
  show "\<exists>h p. vbe_height 0xC0000500 s = Some h \<and> vbe_pitch 0xC0000500 s = Some p \<and>
       ucast h * ucast p = fb_size s0"
    using tr [of "0x514"] tr [of "0x510"] l [of "0x145"] l [of "0x144"]
    by (simp add: vbe_height_def vbe_pitch_def vload16_def fb_size_def)
qed

lemma fb_size_le: "unat (fb_size s) \<le> 2 ^ 32 - 4096"
proof -
  have b: "unat (w :: u16) \<le> 65535" for w
  proof -
    have "unat w < 2 ^ LENGTH(16)" by (rule unsigned_less)
    then show ?thesis by simp
  qed
  have "unat (ucast (h::u16) * ucast (p::u16) :: u32) \<le> unat h * unat p" for h p
  proof -
    have "unat (ucast h :: u32) \<le> unat h" for h :: u16 by (simp add: unsigned_ucast_eq take_bit_nat_less_eq_self)
    then have "unat (ucast h :: u32) * unat (ucast p :: u32) \<le> unat h * unat p" by (intro mult_le_mono) auto
    moreover have "unat (x * y) \<le> unat x * unat y" for x y :: u32 by (simp add: unat_word_ariths)
    ultimately show ?thesis by (rule order_trans [rotated])
  qed
  moreover have "unat (h::u16) * unat (p::u16) \<le> 65535 * 65535" for h p
    by (intro mult_le_mono b)
  ultimately show ?thesis unfolding fb_size_def by (rule order_trans [OF order_trans]) simp
qed

lemma vmm_init_spec:
  assumes ok: "boot_ok s" and I: "needed_dirs s \<subseteq> I" "card I + spare < card (low_frames (pmm s))"
  obtains s' dir where "vmm_init s = Some s'" "vmm_ok s'" "room s' I spare"
    and "cr3 s' = dir" "current_directory s' = dir" "kernel_directory s' = dir" "dir \<in> low_frames (pmm s)"
    and "interrupt_handlers s' = (interrupt_handlers s)(14 := Some page_fault_handler)"
    and "\<And>va. translate (phys s') dir va =
           (if in_range (fb_start s) 0 (page_count (fb_size s)) va then Some va
            else if unat (va - 0xC0000000) < 0x800000 then Some (va - 0xC0000000)
            else if unat va < 0x800000 then Some va
            else None)"
    and "0 \<notin> dir_pages (phys s') dir" "\<And>a. page_base a = 0 \<Longrightarrow> phys s' a = phys s a"
proof -
  let ?f = "PAGE_PRESENT OR PAGE_RW"
  have f: "page_base ?f = 0" by (simp add: page_base_def PAGE_PRESENT_def PAGE_RW_def)
  have z: "page_base 0 = 0" "page_base 0xC0000000 = 0xC0000000" by (simp_all add: page_base_def)
  obtain dir p where al: "pmm_alloc_pages 0 (pmm s) = (dir, p)" by fastforce
  have "low_frames (pmm s) \<noteq> {}" using I(2) by auto
  from vmm_init_dir [OF ok this al] obtain s2 where
    run2: "map_option (\<lambda>s. s\<lparr>current_directory := dir\<rparr>)
        (vmemset dir 0 4096 (s\<lparr>pmm := p, kernel_directory := dir\<rparr>)) = Some s2"
    and ok2: "vmm_ok s2" and d2: "current_directory s2 = dir" "kernel_directory s2 = dir" "cr3 s2 = cr3 s" "cr3 s \<noteq> dir"
      "pmm s2 = p" "low_first p" "low_frames p = low_frames (pmm s) - {dir}" "dir \<in> low_frames (pmm s)"
      "interrupt_handlers s2 = interrupt_handlers s"
    and e2: "\<And>va. entry (phys s2) dir va = 0" and pg2: "dir_pages (phys s2) dir = {dir}"
    and m2: "\<And>a. page_base a \<noteq> dir \<Longrightarrow> phys s2 a = phys s a"
    and t2: "\<And>va. translate (phys s2) (cr3 s) va = translate (phys s) (cr3 s) va"
    by metis
  have "card (absent s2 I) \<le> card I" by (intro card_mono finite_u32) (auto simp: absent_def)
  moreover have "card I + spare \<le> card (low_frames p)" using I(2) d2(7,8) finite_u32 by simp
  ultimately have r2: "room s2 I spare" using d2(5,6) by (simp add: room_def)
  have I4: "{0, 1} \<subseteq> I" "{768, 769} \<subseteq> I" using I(1) by (auto simp: needed_dirs_def)
  have dI: "drop_bit 22 (of_nat (4096 * i) :: u32) \<in> I" "drop_bit 22 (0xC0000000 + of_nat (4096 * i)) \<in> I"
    if "i < 2048" for i
    using low_dirs [OF that] I4 by blast+
  have dI3: "drop_bit 22 (fb_start s + of_nat (4096 * i)) \<in> I" if "i < page_count (fb_size s)" for i
    using I(1) that unfolding needed_dirs_def by blast
  have ne2: "cr3 s2 \<noteq> current_directory s2" using d2 by simp
  have "\<exists>s3. map_loop (of_nat (4096 * 0)) 0x800000 (0 + 0) 0 ?f s2 = Some s3 \<and> vmm_ext s2 s3 \<and> room s3 I spare \<and>
      (\<forall>va. entry (phys s3) (current_directory s2) va =
         (if in_range (0 + 0) 0 (page_count 0x800000) va then page_base (va - 0) OR ?f
          else entry (phys s2) (current_directory s2) va))"
    using dI(1) ne2
    by (intro map_loop_ok z f ok2 r2) (simp_all add: page_count_8M del: of_nat_mult)
  then obtain s3 where run3: "map_loop 0 0x800000 0 0 ?f s2 = Some s3" and x3: "vmm_ext s2 s3" and r3: "room s3 I spare"
    and e3: "\<And>va. entry (phys s3) dir va = (if unat va < 0x800000 then page_base (va - 0) OR ?f else 0)"
    using in_range_aligned [OF z(1), of 2048] by (auto simp: page_count_8M d2 e2)
  have d3: "current_directory s3 = dir" "cr3 s3 = cr3 s" using vmm_extD(2,3) [OF x3] d2 by simp_all
  have "\<exists>s4. map_loop (of_nat (4096 * 0)) 0x800000 (0 + 0xC0000000) 0 ?f s3 = Some s4 \<and> vmm_ext s3 s4 \<and> room s4 I spare \<and>
      (\<forall>va. entry (phys s4) (current_directory s3) va =
         (if in_range (0 + 0xC0000000) 0 (page_count 0x800000) va then page_base (va - 0xC0000000) OR ?f
          else entry (phys s3) (current_directory s3) va))"
    using dI(2) d2(4) d3 vmm_extD(1) [OF x3] r3
    by (intro map_loop_ok z f) (simp_all add: page_count_8M del: of_nat_mult)
  then obtain s4 where run4: "map_loop 0 0x800000 0xC0000000 0 ?f s3 = Some s4" and x4: "vmm_ext s3 s4" and r4: "room s4 I spare"
    and e4: "\<And>va. entry (phys s4) dir va =
      (if unat (va - 0xC0000000) < 0x800000 then page_base (va - 0xC0000000) OR ?f else entry (phys s3) dir va)"
    using in_range_aligned [OF z(2), of 2048] by (auto simp: page_count_8M d3)
  have x24: "vmm_ext s2 s4" by (rule vmm_ext_trans [OF x3 x4])
  have d4: "current_directory s4 = dir" "cr3 s4 = cr3 s" using vmm_extD(2,3) [OF x24] d2 by simp_all
  have t4: "translate (phys s4) (cr3 s) va = translate (phys s) (cr3 s) va" for va
    using vmm_ext_boot [OF ok2 x24 ne2] t2 d2 by simp
  have no0: "0 \<notin> dir_pages (phys t) dir" and low0: "page_base a = 0 \<Longrightarrow> phys t a = phys s a" if "vmm_ext s2 t" for t a
  proof -
    have "0 \<notin> free_frames p" using pmm.frame_aligned [OF vmm_okD(1) [OF ok2], of 0] d2(5) by auto
    moreover have "dir \<noteq> 0" using d2(8) pmm.frame_aligned [of "pmm s" dir] ok
      by (auto simp: boot_ok_def low_frames_def)
    ultimately show "0 \<notin> dir_pages (phys t) dir" using vmm_extD(7) [OF that] pg2 d2(1,5) by auto
    then show "page_base a = 0 \<Longrightarrow> phys t a = phys s a"
      using vmm_extD(9) [OF that, of a] m2 [of a] d2(1) pg2 by (auto simp: dir_pages_def)
  qed
  note m4 = low0 [OF x24]
  have tr4: "translate (phys s4) (cr3 s4) (0xC0000000 + a) = Some a" if "unat a < 0x800000" for a
    using ok that t4 d4(2) by (simp add: boot_ok_def)
  obtain h w where vbe: "vbe_framebuffer 0xC0000500 s4 = Some (fb_start s)"
      "vbe_height 0xC0000500 s4 = Some h" "vbe_pitch 0xC0000500 s4 = Some w" "ucast h * ucast w = fb_size s"
    using vbe_reads [OF tr4 m4] by blast
  have "\<exists>s5. map_loop (of_nat (4096 * 0)) (fb_size s) (fb_start s + 0) (fb_start s) ?f s4 = Some s5 \<and> vmm_ext s4 s5 \<and> room s5 I spare \<and>
      (\<forall>va. entry (phys s5) (current_directory s4) va =
         (if in_range (fb_start s + 0) 0 (page_count (fb_size s)) va then page_base (va - 0) OR ?f
          else entry (phys s4) (current_directory s4) va))"
    using dI3 d2(4) d4 vmm_extD(1) [OF x24] r4 fb_size_le
    by (intro map_loop_ok z f) (simp_all del: of_nat_mult)
  then obtain s5 where run5: "map_loop 0 (fb_size s) (fb_start s) (fb_start s) ?f s4 = Some s5"
    and x5: "vmm_ext s4 s5" and r5: "room s5 I spare"
    and e5: "\<And>va. entry (phys s5) dir va =
      (if in_range (fb_start s) 0 (page_count (fb_size s)) va then page_base (va - 0) OR ?f else entry (phys s4) dir va)"
    by (auto simp: d4)
  have x25: "vmm_ext s2 s5" by (rule vmm_ext_trans [OF x24 x5])
  note d5 = vmm_extD(2-5) [OF x25, unfolded d2]
  let ?s = "s5\<lparr>interrupt_handlers := (interrupt_handlers s)(14 := Some page_fault_handler), current_directory := dir, cr3 := dir\<rparr>"
  have "vmm_init s = Some ?s"
    using al run2 run3 run4 vbe run5 d5
    by (auto simp: vmm_init_def Let_def register_interrupt_handler_def vmm_switch_page_directory_def
        split: option.splits)
  moreover have tr: "translate (phys s5) dir va =
           (if in_range (fb_start s) 0 (page_count (fb_size s)) va then Some va
            else if unat (va - 0xC0000000) < 0x800000 then Some (va - 0xC0000000)
            else if unat va < 0x800000 then Some va
            else None)" for va
  proof -
    consider "in_range (fb_start s) 0 (page_count (fb_size s)) va"
      | "\<not> in_range (fb_start s) 0 (page_count (fb_size s)) va" "unat (va - 0xC0000000) < 0x800000"
      | "\<not> in_range (fb_start s) 0 (page_count (fb_size s)) va" "\<not> unat (va - 0xC0000000) < 0x800000" "unat va < 0x800000"
      | "\<not> in_range (fb_start s) 0 (page_count (fb_size s)) va" "\<not> unat (va - 0xC0000000) < 0x800000" "\<not> unat va < 0x800000"
      by blast
    then show ?thesis
    proof cases
      case 1
      then show ?thesis using translate_entry [OF z(1), where m = "phys s5" and dir = dir and va = va] e5 [of va] by simp
    next
      case 2
      then show ?thesis using translate_entry [OF z(2), where m = "phys s5" and dir = dir and va = va] e5 [of va] e4 [of va] by simp
    next
      case 3
      then show ?thesis using translate_entry [OF z(1), where m = "phys s5" and dir = dir and va = va] e5 [of va] e4 [of va] e3 [of va] by simp
    next
      case 4
      then show ?thesis using e5 [of va] e4 [of va] e3 [of va] by (simp add: translate_def)
    qed
  qed
  moreover have "vmm_ok ?s"
  proof -
    have ok5: "vmm_ok s5" by (rule vmm_extD(1) [OF x25])
    have wf: "dir_wf (phys s5) dir" using vmm_okD(3) [OF ok5] d5(1) by simp
    have "ident (phys s5) dir"
      unfolding ident_def
    proof (intro allI impI)
      fix a :: u32 assume a: "unat a < 0x800000"
      have e: "a - 0xC0000000 = a + 0x40000000" by (simp add: diff_eq_eq add.assoc)
      have "\<not> unat (a - 0xC0000000) < 0x800000"
        unfolding e using a unat_add_of_nat [of a "0x40000000"] by simp
      with a show "translate (phys s5) dir a = Some a" by (simp add: tr)
    qed
    then show ?thesis
      using vmm_okD(1,5,7) [OF ok5] dir_wfD(1) [OF wf] wf d5(1) by (simp add: vmm_ok_def)
  qed
  moreover have "room ?s I spare" using r5 d5 by (simp add: room_def absent_def)
  ultimately show thesis using d5 d2(8) no0 [OF x25] low0 [OF x25] by (intro that [of ?s dir]) simp_all
qed

section \<open>A boot state\<close>

lemma kmain_low_first: "low_first (kmain_pmm s)"
  unfolding low_first_def
proof (intro ballI impI)
  let ?F = "free_blocks (kmain_pmm s)"
  fix b assume b: "b \<in> ?F" "2048 \<le> fst b"
  obtain j l where jl: "b = (j, l)" by fastforce
  have wf: "buddy_wf (total_pages (kmain_pmm s)) ?F {}"
    using kmain_pmm_state(1) [of s] by (simp add: pmm_inv_def)
  have v: "valid_block 32768 (j, l)"
    using buddy_wf_valid [OF wf, of b] b(1) by (simp add: jl kmain_pmm_state)
  show "snd b = 11"
  proof (rule ccontr)
    assume "snd b \<noteq> 11"
    then have l: "l < 11" using v by (simp add: jl valid_block_def MAX_ORDER_def)
    let ?i = "j div 2048 * 2048"
    have j: "j < 32768" "2048 \<le> j" using v b(2) by (auto simp: valid_block_def jl intro: order_less_le_trans [of j "j + 2 ^ l"])
    then have "2048 \<le> ?i" "?i + 2048 \<le> 32768" by (auto simp: less_eq_div_iff_mult_less_eq)
    then have "blk (?i, 11) \<subseteq> {1280..<32768}" by (auto simp: blk_def)
    moreover have "blk (j, l) \<subseteq> blk (?i, 11)"
    proof (rule blk_nested)
      show "2 ^ l dvd j" using v by (simp add: valid_block_def)
      have "j \<in> blk (j, l)" "j \<in> blk (?i, 11)"
        using div_mult_mod_eq [of j 2048] mod_less_divisor [of 2048 j] by (auto simp: blk_def)
      then show "blk (j, l) \<inter> blk (?i, 11) \<noteq> {}" by blast
    qed (use l in simp_all)
    ultimately show False
      using coalesced_no_cover [OF wf kmain_pmm_state(2) [of s], of j l 11 ?i] b(1) l
      by (simp add: jl kmain_pmm_state MAX_ORDER_def)
  qed
qed

lemma kmain_low_frames: "card (low_frames (kmain_pmm s)) = 768"
proof -
  have a: "unat (of_nat i * PAGE_SIZE) = i * 4096" if "i < 32768" for i
    using pmm_addr(1) [of i] that by simp
  have "low_frames (kmain_pmm s) = (\<lambda>i. of_nat i * PAGE_SIZE) ` {1280..<2048}"
    unfolding low_frames_def free_frames_def kmain_pmm_state(4)
  proof (intro equalityI subsetI)
    fix x assume "x \<in> {f \<in> (\<lambda>i. of_nat i * PAGE_SIZE) ` {1280..<32768}. unat f < 0x800000}"
    then obtain i where "x = of_nat i * PAGE_SIZE" "1280 \<le> i" "i < 32768" "unat x < 0x800000" by auto
    with a [of i] show "x \<in> (\<lambda>i. of_nat i * PAGE_SIZE) ` {1280..<2048}" by auto
  next
    fix x assume "x \<in> (\<lambda>i. of_nat i * PAGE_SIZE :: u32) ` {1280..<2048}"
    then obtain i where "x = of_nat i * PAGE_SIZE" "1280 \<le> i" "i < 2048" by auto
    with a [of i] show "x \<in> {f \<in> (\<lambda>i. of_nat i * PAGE_SIZE) ` {1280..<32768}. unat f < 0x800000}" by auto
  qed
  moreover have "inj_on (\<lambda>i. of_nat i * PAGE_SIZE :: u32) {1280..<2048}"
    by (rule inj_onI, rule page_addr_inj) auto
  ultimately show ?thesis by (simp add: card_image)
qed

text \<open>A memory given by its 32-bit words.\<close>

definition mem_of_words :: "(u32 \<Rightarrow> u32) \<Rightarrow> mem" where
  "mem_of_words f a = ucast (drop_bit (8 * (unat a mod 4)) (f (a - a mod 4)))"

lemma load_mem_of_words:
  assumes t: "page_base t = t" and w: "unat w < 1024"
  shows "load32 (mem_of_words f) (t + 4 * w) = f (t + 4 * w)"
proof -
  have b: "mem_of_words f (t + 4 * w + of_nat i) = ucast (drop_bit (8 * i) (f (t + 4 * w)))" if i: "i < 4" for i
  proof -
    have "unat (t + 4 * w + of_nat i) = unat t + (4 * unat w + i)"
      using unat_page_add [OF t slot_offset(1) [OF w i]] slot_offset(2) [OF w i] by (simp add: add.assoc)
    moreover have "unat t mod 4 = 0"
      using t mod_mod_cancel [of 4 4096 "unat t"] by (simp add: page_base_aligned)
    ultimately have m: "unat (t + 4 * w + of_nat i) mod 4 = i" using i by (simp add: mod_add_eq [symmetric, of _ 4]) presburger
    then have "(t + 4 * w + of_nat i) mod 4 = of_nat i"
      using i by (simp add: word_unat_eq_iff unat_mod unat_of_nat_32)
    with m show ?thesis by (simp add: mem_of_words_def)
  qed
  show ?thesis
    unfolding load32_def using b [of 0] b [of 1] b [of 2] b [of 3] bytes_of_word [of "f (t + 4 * w)"] by simp
qed

text \<open>
  The boot tables as \<^verbatim>\<open>kernel_entry.asm\<close> fills them, at \<open>0x20000\<close>, \<open>0x21000\<close> and \<open>0x22000\<close>, and the
  VBE block of a 1024 by 768 mode of 32 bits with its framebuffer at \<open>0xFD000000\<close>.
\<close>

definition boot_word :: "u32 \<Rightarrow> u32" where
  "boot_word a =
     (let j = (a - page_base a) div 4
      in if page_base a = 0x20000 then
           if j = 0 \<or> j = 768 then 0x21003 else if j = 1 \<or> j = 769 then 0x22003 else 0
         else if page_base a = 0x21000 then 4096 * j + 3
         else if page_base a = 0x22000 then 0x400000 + 4096 * j + 3
         else if a = 0x510 then 0x04001000 else if a = 0x514 then 768 else if a = 0x518 then 0x2000 else if a = 0x528 then 0xFD000000
         else 0)"

definition boot_state :: vm_state where
  "boot_state = \<lparr>pmm = kmain_pmm undefined, phys = mem_of_words boot_word,
     kernel_directory = 0, current_directory = 0, cr3 = 0x20000, interrupt_handlers = (\<lambda>_. None)\<rparr>"

lemma boot_word_slot:
  assumes t: "page_base t = t" and w: "unat w < 1024"
  shows "page_base (t + 4 * w) = t" "(t + 4 * w - t) div 4 = w" "4 * w div 4 = w"
proof -
  show "page_base (t + 4 * w) = t" using slot_page [OF t w, of 0] by simp
  have "unat (4 * w) div 4 = unat w" using unat_times_4 [OF w] by simp
  then show "(t + 4 * w - t) div 4 = w" "4 * w div 4 = w" by (simp_all add: word_unat_eq_iff unat_div)
qed

lemma present_odd: "present e \<longleftrightarrow> odd (unat e)"
proof -
  have "unat (e AND 1) = unat e mod 2" by (simp add: and_one_eq unat_mod)
  then show ?thesis unfolding present_def by (metis mod2_eq_if odd_one unsigned_eq_0_iff even_iff_mod_2_eq_zero)
qed

lemma boot_translate:
  assumes d: "drop_bit 22 va = d" "d \<in> {0, 1, 768, 769}"
  shows "translate (mem_of_words boot_word) 0x20000 va =
    Some (va - (if d \<in> {0, 1} then 0 else 0xC0000000))"
proof -
  let ?m = "mem_of_words boot_word"
  let ?j = "drop_bit 12 va AND 0x3FF"
  have al: "page_base 0x20000 = 0x20000" "page_base 0x21000 = 0x21000" "page_base 0x22000 = 0x22000"
    by (simp_all add: page_base_def)
  have pde: "pde_of ?m 0x20000 va = (if d = 0 \<or> d = 768 then 0x21003 else 0x22003)"
    unfolding pde_of_def pde_addr_def load_mem_of_words [OF al(1) index_less(1)]
    unfolding boot_word_def boot_word_slot [OF al(1) index_less(1)] Let_def
    using d by auto
  have e: "entry ?m 0x20000 va = 4096 * ?j + (if d = 0 \<or> d = 768 then 0 else 0x400000) + 3"
  proof (cases "d = 0 \<or> d = 768")
    case True
    have "page_base 0x21003 = 0x21000" "present 0x21003" by (simp_all add: page_base_def present_def)
    with True have "entry ?m 0x20000 va = load32 ?m (pte_addr 0x21000 va)"
      by (simp add: entry_def pde)
    then show ?thesis using True
      unfolding pte_addr_def load_mem_of_words [OF al(2) index_less(2)]
      by (simp add: boot_word_def boot_word_slot [OF al(2) index_less(2)] Let_def)
  next
    case False
    have "page_base 0x22003 = 0x22000" "present 0x22003" by (simp_all add: page_base_def present_def)
    with False have "entry ?m 0x20000 va = load32 ?m (pte_addr 0x22000 va)"
      by (simp add: entry_def pde)
    then show ?thesis using False
      unfolding pte_addr_def load_mem_of_words [OF al(3) index_less(2)]
      by (simp add: boot_word_def boot_word_slot [OF al(3) index_less(2)] Let_def)
  qed
  let ?o = "if d \<in> {0, 1} then 0 else 0xC0000000 :: u32"
  let ?t = "4096 * ?j + (if d = 0 \<or> d = 768 then 0 else 0x400000)"
  have o: "page_base ?o = ?o" by (simp add: page_base_def)
  have j: "unat (4096 * ?j) = 4096 * unat ?j" using index_less(2) [of va] by (simp add: unat_word_ariths)
  have t: "unat ?t = 4096 * unat ?j + (if d = 0 \<or> d = 768 then 0 else 0x400000)"
    using j index_less(2) [of va] unat_add_of_nat [of "4096 * ?j" "0x400000"] by simp
  then have tb: "page_base ?t = ?t" unfolding page_base_aligned by simp
  have et: "page_base (?t + 3) = ?t" using page_base_add [OF tb, of 3] by simp
  have "unat (?t + 3) = unat ?t + 3" using unat_page_add [OF tb, of 3] by simp
  then have pr: "present (?t + 3)" unfolding present_odd t by simp
  have va: "unat va div 4096 = unat d * 1024 + unat ?j"
    using div_mult2_eq [of "unat va" 4096 1024] div_mult_mod_eq [of "unat va div 4096" 1024]
    by (simp add: d(1) [symmetric] unat_drop_22 unat_pt_index)
  have "page_base (va - ?o) = ?t"
  proof -
    have "unat (?o + ?t) = unat ?o + unat ?t"
      using t index_less(2) [of va] by (auto simp: unat_word_ariths)
    then have "unat (page_base va) = unat (?o + ?t)"
      using d(2) t va by (auto simp: unat_page_base)
    then have "page_base va = ?o + ?t" by (simp add: word_unat_eq_iff)
    then show ?thesis unfolding page_base_minus [OF o] by simp
  qed
  moreover have "va AND 0xFFF = (va - ?o) AND 0xFFF" unfolding offset_eq page_base_minus [OF o] by simp
  ultimately show ?thesis
    unfolding translate_def e Let_def using pr et page_base_split [of "va - ?o"] by simp
qed

lemma boot_dir_tables: "dir_tables (mem_of_words boot_word) 0x20000 \<subseteq> {0x21000, 0x22000}"
proof -
  have al: "page_base 0x20000 = 0x20000" by (simp add: page_base_def)
  have "pde_of (mem_of_words boot_word) 0x20000 va \<in> {0, 0x21003, 0x22003}" for va
    unfolding pde_of_def pde_addr_def load_mem_of_words [OF al index_less(1)]
    unfolding boot_word_def boot_word_slot [OF al index_less(1)] Let_def by simp
  moreover have "page_base 0x21003 = 0x21000" "page_base 0x22003 = 0x22000" by (simp_all add: page_base_def)
  ultimately show ?thesis
    unfolding dir_tables_def by (auto simp del: insert_iff) (metis insertE singletonD insertI1 insertI2 not_present_0)
qed

lemma boot_dir_pages: "dir_pages (mem_of_words boot_word) 0x20000 \<subseteq> {0x20000, 0x21000, 0x22000}"
  using boot_dir_tables unfolding dir_pages_def by blast

lemma boot_state_pmm_ok: "boot_ok (boot_state\<lparr>pmm := kmain_pmm p\<rparr>)" (is "boot_ok ?s")
  unfolding boot_ok_def
proof (intro conjI allI impI)
  show "pmm_ok (pmm ?s)" "low_first (pmm ?s)" "page_base (cr3 ?s) = cr3 ?s"
    by (simp_all add: boot_state_def kmain_pmm_ok kmain_low_first page_base_def)
  have d: "drop_bit 22 a \<in> {0, 1}" "drop_bit 22 (0xC0000000 + a) \<in> {768, 769}" if "unat a < 0x800000" for a :: u32
  proof -
    have "unat (0xC0000000 + a) = 0xC0000000 + unat a" using that by (simp add: unat_word_ariths)
    moreover have "unat a div 4194304 \<in> {0, 1}" "(0xC0000000 + unat a) div 4194304 \<in> {768, 769}" using that by auto
    ultimately show "drop_bit 22 a \<in> {0, 1}" "drop_bit 22 (0xC0000000 + a) \<in> {768, 769}"
      by (auto simp: word_unat_eq_iff unat_drop_22)
  qed
  show "ident (phys ?s) (cr3 ?s)"
    unfolding ident_def
  proof (intro allI impI)
    fix a :: u32 assume "unat a < 0x800000"
    with d(1) have "drop_bit 22 a = 0 \<or> drop_bit 22 a = 1" by blast
    then show "translate (phys ?s) (cr3 ?s) a = Some a"
      using boot_translate [OF refl, of a] by (auto simp only: boot_state_def vm_state.simps split: if_splits) simp_all
  qed
  show "translate (phys ?s) (cr3 ?s) (0xC0000000 + a) = Some a" if "unat a < 0x800000" for a
    using boot_translate [OF refl, of "0xC0000000 + a"] d(2) [OF that] by (auto simp: boot_state_def)
  have "unat f \<ge> 0x500000" if "f \<in> free_frames (kmain_pmm p)" for f
  proof -
    from that obtain i where "f = of_nat i * PAGE_SIZE" "1280 \<le> i" "i < 32768"
      by (auto simp: free_frames_def kmain_pmm_state)
    then show ?thesis using pmm_addr(1) [of i] by simp
  qed
  then show "dir_pages (phys ?s) (cr3 ?s) \<inter> free_frames (pmm ?s) = {}"
    using boot_dir_pages by (fastforce simp: boot_state_def)
qed

lemma boot_state_ok: "boot_ok boot_state"
  using boot_state_pmm_ok [of undefined] by (simp add: boot_state_def)

lemma boot_fb: "fb_start boot_state = 0xFD000000" "fb_size boot_state = 0x300000"
proof -
  have al: "page_base 0 = 0" by (simp add: page_base_def)
  have w: "load32 (mem_of_words boot_word) (4 * w) = boot_word (4 * w)" if "unat w < 1024" for w
    using load_mem_of_words [OF al that] by simp
  show "fb_start boot_state = 0xFD000000"
    using w [of "0x14A"] by (simp add: fb_start_def boot_state_def boot_word_def page_base_def)
  show "fb_size boot_state = 0x300000"
    using w [of "0x144"] w [of "0x145"] by (simp add: fb_size_def boot_state_def boot_word_def page_base_def)
qed

lemma boot_needed: "needed_dirs boot_state \<subseteq> {0, 1, 768, 769, 1012}"
proof -
  have "drop_bit 22 (0xFD000000 + of_nat (4096 * i) :: u32) = 1012" if "i < 768" for i
  proof -
    have "unat (0xFD000000 + of_nat (4096 * i) :: u32) = 0xFD000000 + 4096 * i"
      using that unat_add_of_nat [of "0xFD000000" "4096 * i"] by simp
    moreover have "(0xFD000000 + 4096 * i) div 4194304 = 1012" using that by simp
    ultimately show ?thesis by (simp add: word_unat_eq_iff unat_drop_22 del: of_nat_mult)
  qed
  then show ?thesis
    unfolding needed_dirs_def boot_fb page_count_def by (auto simp del: of_nat_mult)
qed

lemma boot_room: "card {0, 1, 768, 769, 1012 :: u32} < card (low_frames (pmm boot_state))"
  by (simp add: boot_state_def kmain_low_frames)

lemma low_free_frames: "pmm_ok p \<Longrightarrow> f \<in> low_frames p \<Longrightarrow> f \<noteq> 0"
  using pmm.frame_aligned [of p f] by (auto simp: low_frames_def)

lemma room_ready:
  assumes ok: "vmm_ok s" and room: "room s I spare" and I: "drop_bit 22 va \<in> I"
  shows "frame_ready va s"
proof (cases "present (pde_of (phys s) (current_directory s) va)")
  case True
  then show ?thesis by (simp add: frame_ready_def)
next
  case False
  obtain t p where al: "pmm_alloc_pages 0 (pmm s) = (t, p)" by fastforce
  have "drop_bit 22 va \<in> absent s I" using I False by (auto simp: absent_def)
  then have "0 < card (absent s I)" using finite_u32 by (auto simp: card_gt_0_iff)
  then have "low_frames (pmm s) \<noteq> {}" using room by (auto simp: room_def)
  then show ?thesis using low_alloc [OF vmm_okD(1) [OF ok] _ _ al] room al by (simp add: room_def frame_ready_def)
qed

text \<open>A request without a check: what happens to a caller when the allocator returns NULL.\<close>

lemma vmm_map_no_frame:
  assumes m: "page_base (cr3 s) = cr3 s" "ident (phys s) (cr3 s)" "0 \<notin> dir_pages (phys s) (cr3 s)"
    and dir: "page_base (current_directory s) = current_directory s" "unat (current_directory s) < 0x800000"
      "current_directory s \<noteq> 0" "current_directory s \<notin> dir_tables (phys s) (cr3 s)"
    and ab: "\<not> present (pde_of (phys s) (current_directory s) va)"
    and al: "pmm_alloc_pages 0 (pmm s) = (0, p)"
  obtains s' where "vmm_map_page va pa flags s = Some s'"
    and "\<And>a. page_base a = 0 \<Longrightarrow> 4 \<le> unat (a - pte_addr 0 va) \<Longrightarrow> phys s' a = 0"
    and "load32 (phys s') (pte_addr 0 va) = page_base pa OR flags"
proof -
  let ?d = "current_directory s"
  have z: "page_base 0 = 0" by (simp add: page_base_def)
  obtain m where run: "vmemset 0 0 4096 (s\<lparr>pmm := p\<rparr>) = Some (s\<lparr>pmm := p, phys := m\<rparr>)"
    and mem: "\<And>a. m a = (if page_base a = 0 then 0 else phys s a)"
  proof -
    have "0 \<notin> dir_pages (phys (s\<lparr>pmm := p\<rparr>)) (cr3 (s\<lparr>pmm := p\<rparr>))"
      "page_base (cr3 (s\<lparr>pmm := p\<rparr>)) = cr3 (s\<lparr>pmm := p\<rparr>)" "ident (phys (s\<lparr>pmm := p\<rparr>)) (cr3 (s\<lparr>pmm := p\<rparr>))"
      using m by simp_all
    then show thesis by (rule vmemset_page [OF z, rotated]) (rule that, assumption, simp_all)
  qed
  let ?e = "0 OR flags OR PAGE_PRESENT"
  let ?m1 = "store32 (pde_addr ?d va) ?e m"
  have i0: "ident m (cr3 s)"
    using mem m(3) by (intro ident_cong [OF m(1) _ m(2)]) auto
  have out1: "?m1 a = m a" if "page_base a \<noteq> ?d" for a
    unfolding pde_addr_def by (rule store_slot_other [OF dir(1) index_less(1) that])
  have tabs: "dir_tables m (cr3 s) = dir_tables (phys s) (cr3 s)"
    using mem m(1,3) by (intro dir_tables_cong) (auto simp: dir_pages_def)
  have same: "pde_of ?m1 (cr3 s) a = pde_of m (cr3 s) a" if a: "unat a < 0x800000" for a
  proof (cases "cr3 s = ?d")
    case True
    have "translate m (cr3 s) a = Some a" using i0 a by (simp add: ident_def)
    then have "present (pde_of m (cr3 s) a)" by (rule contrapos_pp) (simp add: translate_def entry_def)
    moreover have "pde_of m ?d va = pde_of (phys s) ?d va"
      using mem dir(1,3) by (intro pde_of_cong) auto
    ultimately have "drop_bit 22 va \<noteq> drop_bit 22 a" using ab True unfolding pde_of_def pde_addr_def by metis
    then show ?thesis unfolding pde_of_def pde_addr_def True by (simp add: load_store_slot [OF dir(1) index_less(1) index_less(1)])
  next
    case False
    show ?thesis by (rule pde_of_cong [OF m(1)]) (use out1 False in metis)
  qed
  have "entry ?m1 (cr3 s) a = entry m (cr3 s) a" if a: "unat a < 0x800000" for a
  proof -
    have "page_base (pde_of m (cr3 s) a) \<noteq> ?d" if "present (pde_of m (cr3 s) a)"
      using that tabs dir(4) by (auto simp: dir_tables_def)
    then have "load32 ?m1 (pte_addr (page_base (pde_of m (cr3 s) a)) a) = load32 m (pte_addr (page_base (pde_of m (cr3 s) a)) a)"
      if "present (pde_of m (cr3 s) a)"
      using that out1 unfolding pte_addr_def by (intro load_slot_cong index_less) simp_all
    then show ?thesis using same [OF a] by (simp add: entry_def Let_def)
  qed
  then have i1: "ident ?m1 (cr3 s)" using i0 by (simp add: ident_def translate_def)
  let ?s1 = "s\<lparr>pmm := p, phys := ?m1\<rparr>"
  let ?m2 = "store32 (pte_addr 0 va) ((pa AND 0xFFFFF000) OR flags) ?m1"
  have "vload32 (pde_addr ?d va) s = Some (pde_of (phys s) ?d va)"
    unfolding pde_addr_def pde_of_def using m(2) low_slot [OF dir(1,2) index_less(1)]
    by (simp add: vload32_low)
  moreover have "vstore32 (pde_addr ?d va) ?e (s\<lparr>pmm := p, phys := m\<rparr>) = Some ?s1"
    unfolding pde_addr_def using i0 low_slot [OF dir(1,2) index_less(1)] by (simp add: vstore32_low)
  ultimately have "vmm_get_table (pde_addr ?d va) flags s = Some (0, ?s1)"
    using ab al run by (simp add: vmm_get_table_def present_def PAGE_PRESENT_def)
  moreover have "vstore32 (pte_addr 0 va) ((pa AND 0xFFFFF000) OR flags) ?s1 = Some (?s1\<lparr>phys := ?m2\<rparr>)"
    unfolding pte_addr_def using i1 low_slot [OF z _ index_less(2)] by (simp add: vstore32_low)
  ultimately have "vmm_map_page va pa flags s = Some (?s1\<lparr>phys := ?m2\<rparr>)"
    by (simp add: vmm_map_page_def Let_def pde_addr_def pte_addr_def)
  moreover have "?m2 a = 0" if "page_base a = 0" "4 \<le> unat (a - pte_addr 0 va)" for a
  proof -
    have "sep (pte_addr 0 va) 4 a 1"
    proof (rule sepI, rule notI)
      fix i j :: nat assume "i < 4" "j < 1" "pte_addr 0 va + of_nat i = a + of_nat j"
      then have "a - pte_addr 0 va = of_nat i" by (simp add: algebra_simps)
      with that(2) \<open>i < 4\<close> show False using unat_of_nat_32 [of i] by simp
    qed
    then have "?m2 a = ?m1 a" by (rule store32_other)
    also have "\<dots> = m a" using that(1) dir(3) by (intro out1) simp
    finally show ?thesis using that(1) by (simp add: mem)
  qed
  moreover have "load32 ?m2 (pte_addr 0 va) = (pa AND 0xFFFFF000) OR flags"
    unfolding pte_addr_def by (subst load_store_slot [OF z index_less(2) index_less(2)]) simp
  ultimately show thesis by (intro that [of "?s1\<lparr>phys := ?m2\<rparr>"]) (simp_all add: page_base_def)
qed

lemma vmm_map_high_frame:
  assumes m: "ident (phys s) (cr3 s)"
    and dir: "page_base (current_directory s) = current_directory s" "unat (current_directory s) < 0x800000"
    and ab: "\<not> present (pde_of (phys s) (current_directory s) va)"
    and al: "pmm_alloc_pages 0 (pmm s) = (t, p)" and t: "translate (phys s) (cr3 s) t = None"
  shows "vmm_map_page va pa flags s = None"
proof -
  have "vload32 (pde_addr (current_directory s) va) s = Some (pde_of (phys s) (current_directory s) va)"
    unfolding pde_addr_def pde_of_def using m low_slot [OF dir(1,2) index_less(1)]
    by (simp add: vload32_low)
  moreover have "vmemset t 0 4096 (s\<lparr>pmm := p\<rparr>) = None"
  proof -
    have "vmemset_loop (Suc 4095) t 0 (s\<lparr>pmm := p\<rparr>) = None"
      using t by (simp only: vmemset_loop.simps) (simp add: vstore8_def)
    then show ?thesis by (simp add: vmemset_def)
  qed
  ultimately show ?thesis
    using ab al by (simp add: vmm_map_page_def Let_def vmm_get_table_def present_def PAGE_PRESENT_def pde_addr_def)
qed

section \<open>Properties\<close>

text \<open>
  C8: mapping a page succeeds when its table exists or a frame below 8 MB is left, and changes the
  translation of the addresses of that page only: they lead to the given frame, every other
  address leads where it led before, and the tables stay well formed.
\<close>

theorem vmm_map_page_exact:
  assumes "vmm_ok s" and "frame_ready va s" and "page_base flags = 0" and "present flags"
    and "cr3 s = current_directory s \<Longrightarrow> 0x800000 \<le> unat va"
  shows "\<exists>s'. vmm_map_page va pa flags s = Some s' \<and> vmm_ok s' \<and> current_directory s' = current_directory s \<and>
    (\<forall>x. translate (phys s') (current_directory s) x =
       (if page_base x = page_base va then Some (page_base pa OR (x AND 0xFFF))
        else translate (phys s) (current_directory s) x))"
proof -
  obtain s' where s': "vmm_map_page va pa flags s = Some s'" "vmm_ext s s'"
    "\<And>x. entry (phys s') (current_directory s) x =
       (if page_base x = page_base va then page_base pa OR flags else entry (phys s) (current_directory s) x)"
    by (rule vmm_map_step [OF assms(1-3)]) (erule assms(5), rule that)
  have "present (page_base pa OR flags)"
    using assms(4) unfolding present_odd by (simp add: unsigned_or_eq even_or_iff)
  moreover have "page_base (page_base pa OR flags) = page_base pa"
    using assms(3) by (intro page_base_or_flags) simp_all
  ultimately show ?thesis
    using s'(1,3) vmm_extD(1,2) [OF s'(2)] by (intro exI [of _ s']) (simp add: translate_def)
qed

theorem vmm_map_page_exact_witness:
  "\<exists>s s'. vmm_init boot_state = Some s \<and> vmm_map_page 0xD0000000 0x600000 3 s = Some s' \<and>
     translate (phys s') (current_directory s) 0xD0000123 = Some 0x600123"
proof -
  obtain s dir where s: "vmm_init boot_state = Some s" "vmm_ok s" "room s {0, 1, 768, 769, 832, 1012} 0"
    by (rule vmm_init_spec [OF boot_state_ok, of "{0, 1, 768, 769, 832, 1012}" 0])
       (use boot_needed in \<open>auto simp: boot_state_def kmain_low_frames\<close>)
  have "frame_ready 0xD0000000 s"
    by (rule room_ready [OF s(2,3)]) (simp add: drop_bit_eq_div)
  from vmm_map_page_exact [OF s(2) this, of 3 "0x600000"] show ?thesis
    using s(1) by (auto simp: page_base_def present_def)
qed

text \<open>
  C9: \<^verbatim>\<open>vmm_init\<close> builds exactly the intended address space and switches to it: the first 8 MB at
  their own addresses and again from \<open>0xC0000000\<close>, the framebuffer at its own address, and nothing
  else; the page fault handler is installed. Enough low frames must be free for the tables.
\<close>

theorem vmm_init_address_space:
  assumes "boot_ok s" and "card (needed_dirs s) < card (low_frames (pmm s))"
  shows "\<exists>s'. vmm_init s = Some s' \<and> vmm_ok s' \<and> current_directory s' = cr3 s' \<and> kernel_directory s' = cr3 s' \<and>
    interrupt_handlers s' = (interrupt_handlers s)(14 := Some page_fault_handler) \<and>
    (\<forall>va. translate (phys s') (cr3 s') va =
       (if in_range (fb_start s) 0 (page_count (fb_size s)) va then Some va
        else if unat (va - 0xC0000000) < 0x800000 then Some (va - 0xC0000000)
        else if unat va < 0x800000 then Some va
        else None))"
proof -
  obtain s' dir where "vmm_init s = Some s'" "vmm_ok s'" "room s' (needed_dirs s) 0"
    and "cr3 s' = dir" "current_directory s' = dir" "kernel_directory s' = dir" "dir \<in> low_frames (pmm s)"
    and "interrupt_handlers s' = (interrupt_handlers s)(14 := Some page_fault_handler)"
    and "\<And>va. translate (phys s') dir va =
           (if in_range (fb_start s) 0 (page_count (fb_size s)) va then Some va
            else if unat (va - 0xC0000000) < 0x800000 then Some (va - 0xC0000000)
            else if unat va < 0x800000 then Some va
            else None)"
    by (rule vmm_init_spec [OF assms(1) subset_refl, of 0]) (use assms(2) in simp, blast)
  then show ?thesis by auto
qed

theorem vmm_init_address_space_witness:
  "\<exists>s. vmm_init boot_state = Some s \<and> translate (phys s) (cr3 s) 0xC0012345 = Some 0x12345 \<and>
     translate (phys s) (cr3 s) 0xFD2FFFFF = Some 0xFD2FFFFF \<and> translate (phys s) (cr3 s) 0xD0000000 = None"
proof -
  have "card (needed_dirs boot_state) < card (low_frames (pmm boot_state))"
    by (rule order_le_less_trans [OF card_mono [OF finite_u32 boot_needed] boot_room])
  from vmm_init_address_space [OF boot_state_ok this] obtain s where "vmm_init boot_state = Some s"
    "\<And>va. translate (phys s) (cr3 s) va =
       (if in_range 0xFD000000 0 768 va then Some va
        else if unat (va - 0xC0000000) < 0x800000 then Some (va - 0xC0000000)
        else if unat va < 0x800000 then Some va else None)"
    by (auto simp: boot_fb page_count_def)
  then show ?thesis by (simp add: in_range_aligned page_base_def)
qed

text \<open>
  C10: the allocator's NULL is not checked. When a table is needed and no frame is left,
  \<^verbatim>\<open>vmm_map_page\<close> does not fail: it clears physical page 0, makes it the new table and writes the entry there.
  This holds before and after \<^verbatim>\<open>vmm_init\<close> has switched directories, as long as page 0 is not itself a
  directory or a table.
\<close>

theorem vmm_map_page_null:
  assumes "page_base (cr3 s) = cr3 s" and "ident (phys s) (cr3 s)" and "0 \<notin> dir_pages (phys s) (cr3 s)"
    and "page_base (current_directory s) = current_directory s" and "unat (current_directory s) < 0x800000"
    and "current_directory s \<noteq> 0" and "current_directory s \<notin> dir_tables (phys s) (cr3 s)"
    and "\<not> present (pde_of (phys s) (current_directory s) va)"
    and "pmm_alloc_pages 0 (pmm s) = (0, p)"
  shows "\<exists>s'. vmm_map_page va pa flags s = Some s' \<and> load32 (phys s') (pte_addr 0 va) = page_base pa OR flags \<and>
    (\<forall>a. page_base a = 0 \<longrightarrow> 4 \<le> unat (a - pte_addr 0 va) \<longrightarrow> phys s' a = 0)"
  by (rule vmm_map_no_frame [OF assms]) blast

text \<open>A state behind a switch of directories, with an allocator that has nothing left.\<close>

theorem vmm_map_page_null_witness:
  "\<exists>s'. vmm_map_page 0xD0000000 0 3
      (vmm_switch_page_directory 0x20000 (boot_state\<lparr>pmm := pmm_init 0x8000000 0x400000 undefined\<rparr>)) = Some s' \<and>
    phys boot_state 0x515 = 3 \<and> phys s' 0x515 = 0"
proof -
  let ?p = "pmm_init 0x8000000 0x400000 undefined"
  let ?s = "vmm_switch_page_directory 0x20000 (boot_state\<lparr>pmm := ?p\<rparr>)"
  have b: "page_base (cr3 boot_state) = cr3 boot_state" "ident (phys boot_state) (cr3 boot_state)"
    using boot_state_ok by (simp_all add: boot_ok_def)
  have cr: "cr3 boot_state = 0x20000" "phys boot_state = mem_of_words boot_word" by (simp_all add: boot_state_def)
  have pg: "0 \<notin> dir_pages (phys boot_state) 0x20000" "0x20000 \<notin> dir_tables (phys boot_state) 0x20000"
    using boot_dir_pages boot_dir_tables by (auto simp: cr)
  have al2: "page_base 0x20000 = 0x20000" by (simp add: page_base_def)
  have "pde_of (mem_of_words boot_word) 0x20000 0xD0000000 = 0"
    unfolding pde_of_def pde_addr_def load_mem_of_words [OF al2 index_less(1)]
    unfolding boot_word_def boot_word_slot [OF al2 index_less(1)] Let_def by (simp add: drop_bit_eq_div)
  then have ab: "\<not> present (pde_of (phys boot_state) 0x20000 0xD0000000)" by (simp add: cr)
  obtain q p where al: "pmm_alloc_pages 0 ?p = (q, p)" by fastforce
  have "pmm_ok ?p \<and> free_frames ?p = {}"
    using pmm_init_correct [of "0x8000000" "0x400000" undefined]
    by (auto simp: pmm_ok_def free_frames_def coalesced_def cover_def)
  then have "q = 0" using pmm.alloc_frame [of ?p q p] al by auto
  with al have al0: "pmm_alloc_pages 0 (pmm ?s) = (0, p)" by (simp add: vmm_switch_page_directory_def)
  have "\<exists>s'. vmm_map_page 0xD0000000 0 3 ?s = Some s' \<and> load32 (phys s') (pte_addr 0 0xD0000000) = page_base 0 OR 3 \<and>
    (\<forall>a. page_base a = 0 \<longrightarrow> 4 \<le> unat (a - pte_addr 0 0xD0000000) \<longrightarrow> phys s' a = 0)"
    using b pg al2 ab by (intro vmm_map_page_null [OF _ _ _ _ _ _ _ _ al0]) (simp_all add: cr vmm_switch_page_directory_def)
  moreover have "phys boot_state 0x515 = 3"
    by (simp add: cr mem_of_words_def boot_word_def page_base_def)
  ultimately show ?thesis by (auto simp: page_base_def pte_addr_def drop_bit_eq_div)
qed

text \<open>
  The comment that tables are \<open>allocated in the identity-mapped region (first 8MB)\<close> is not
  enforced. A frame that is not mapped at its own address makes \<^verbatim>\<open>memset\<close> fault, and the kernel
  never returns from \<^verbatim>\<open>vmm_map_page\<close>.
\<close>

theorem vmm_map_page_unmapped_frame:
  assumes "ident (phys s) (cr3 s)"
    and "page_base (current_directory s) = current_directory s" and "unat (current_directory s) < 0x800000"
    and "\<not> present (pde_of (phys s) (current_directory s) va)"
    and "pmm_alloc_pages 0 (pmm s) = (t, p)" and "translate (phys s) (cr3 s) t = None"
  shows "vmm_map_page va pa flags s = None"
  using assms by (rule vmm_map_high_frame)

theorem vmm_map_page_unmapped_frame_witness:
  "vmm_map_page 0xD0000000 0 3
     (boot_state\<lparr>pmm := pmm_add_region 0x800000 0x800000 (pmm_init 0x8000000 0x400000 undefined),
                 current_directory := 0x20000\<rparr>) = None"
proof -
  let ?p = "pmm_add_region 0x800000 0x800000 (pmm_init 0x8000000 0x400000 undefined)"
  let ?s = "boot_state\<lparr>pmm := ?p, current_directory := 0x20000\<rparr>"
  have cr: "cr3 boot_state = 0x20000" "phys boot_state = mem_of_words boot_word" by (simp_all add: boot_state_def)
  have b: "ident (phys boot_state) 0x20000" using boot_state_ok by (simp add: boot_ok_def cr)
  have al2: "page_base 0x20000 = 0x20000" by (simp add: page_base_def)
  have pde: "pde_of (mem_of_words boot_word) 0x20000 va = 0" if "drop_bit 22 va \<notin> {0, 1, 768, 769}" for va
    unfolding pde_of_def pde_addr_def load_mem_of_words [OF al2 index_less(1)]
    unfolding boot_word_def boot_word_slot [OF al2 index_less(1)] Let_def using that by simp
  obtain t p where al: "pmm_alloc_pages 0 ?p = (t, p)" by fastforce
  have p: "pmm_inv ?p {}" "coalesced (free_blocks ?p)" "cover (free_blocks ?p) = {2048..<4096}"
    using pmm_boot_state [of "0x800000" "0x800000" "0x8000000" "0x400000" undefined] by (simp_all add: PAGE_SIZE_def)
  then have ok: "pmm_ok ?p" by (auto simp: pmm_ok_def)
  have "free_frames ?p \<noteq> {}" using p(3) by (simp add: free_frames_def)
  then have "t \<noteq> 0" using pmm.alloc_empty [OF ok] al by auto
  then have "t \<in> free_frames ?p" using pmm.alloc_frame [OF ok al] by simp
  then obtain i where i: "t = of_nat i * PAGE_SIZE" "2048 \<le> i" "i < 4096" by (auto simp: free_frames_def p)
  have "unat t = i * 4096" using pmm_addr(1) [of i] i by simp
  then have "unat (drop_bit 22 t) \<in> {2, 3}" unfolding unat_drop_22 using i by auto
  then have "drop_bit 22 t \<in> {2, 3}" by (simp only: insert_iff empty_iff word_unat_eq_iff) simp
  then have "pde_of (mem_of_words boot_word) 0x20000 t = 0" by (intro pde) auto
  then have tt: "translate (mem_of_words boot_word) 0x20000 t = None" by (simp add: translate_def entry_def)
  have "pde_of (mem_of_words boot_word) 0x20000 0xD0000000 = 0" by (rule pde) (simp add: drop_bit_eq_div)
  then show ?thesis
    using b al tt al2 by (intro vmm_map_page_unmapped_frame [of ?s _ t p]) (simp_all add: cr)
qed

end
