(* ===== verification/Heap_Blocks.thy ===== *)
theory Heap_Blocks
  imports Page_Arith
begin

text \<open>
  The blocks of \<^verbatim>\<open>kernel/mm/kheap.c\<close> in memory: the five-field header in front of every block,
  the walk for a free block, splitting and freeing, on the bytes of the heap. A heap is
  described by the list of its blocks in address order, each a size and a flag saying whether it
  is a hole; the operations are shown to do to the memory what simple functions do to that list.
\<close>

section \<open>Block headers\<close>

definition KHEAP_START :: u32 where "KHEAP_START = 0xD0000000"
definition KHEAP_INITIAL_SIZE :: u32 where "KHEAP_INITIAL_SIZE = 0x100000"
definition KHEAP_MAGIC :: u32 where "KHEAP_MAGIC = 0x12345678"

record header_t =
  magic :: u32
  is_hole :: u8
  hsize :: u32
  hnext :: u32
  hprev :: u32

text \<open>Five fields in 20 bytes; the compiler pads \<^verbatim>\<open>is_hole\<close> to a word.\<close>

definition get_header :: "mem \<Rightarrow> u32 \<Rightarrow> header_t" where
  "get_header m a = \<lparr>magic = load32 m a, is_hole = m (a + 4), hsize = load32 m (a + 8),
     hnext = load32 m (a + 12), hprev = load32 m (a + 16)\<rparr>"

definition set_magic :: "u32 \<Rightarrow> u32 \<Rightarrow> mem \<Rightarrow> mem" where "set_magic a v m = store32 a v m"
definition set_is_hole :: "u32 \<Rightarrow> u8 \<Rightarrow> mem \<Rightarrow> mem" where "set_is_hole a v m = m(a + 4 := v)"
definition set_size :: "u32 \<Rightarrow> u32 \<Rightarrow> mem \<Rightarrow> mem" where "set_size a v m = store32 (a + 8) v m"
definition set_next :: "u32 \<Rightarrow> u32 \<Rightarrow> mem \<Rightarrow> mem" where "set_next a v m = store32 (a + 12) v m"
definition set_prev :: "u32 \<Rightarrow> u32 \<Rightarrow> mem \<Rightarrow> mem" where "set_prev a v m = store32 (a + 16) v m"

text \<open>Two headers that do not overlap are independent.\<close>

definition apart :: "u32 \<Rightarrow> u32 \<Rightarrow> bool" where
  "apart a b \<longleftrightarrow> a = b \<or> sep a 20 b 20"

lemma field_sep: "i + n \<le> 20 \<Longrightarrow> j + k \<le> 20 \<Longrightarrow> sep a 20 b 20 \<Longrightarrow> sep (a + of_nat i) n (b + of_nat j) k"
  by (rule sep_sub)

lemma sep_same: "i + n \<le> j \<or> j + k \<le> i \<Longrightarrow> i + n \<le> 20 \<Longrightarrow> j + k \<le> 20 \<Longrightarrow>
    sep (a + of_nat i) n (a + of_nat j) k"
proof (rule sepI, rule notI)
  fix x y assume a: "i + n \<le> j \<or> j + k \<le> i" "i + n \<le> 20" "j + k \<le> 20" "x < n" "y < k"
    and "a + of_nat i + of_nat x = a + of_nat j + of_nat y"
  then have "(of_nat (i + x) :: u32) = of_nat (j + y)" by (simp add: add.assoc)
  moreover have "unat (of_nat (i + x) :: u32) = i + x" "unat (of_nat (j + y) :: u32) = j + y"
    using a by (intro unat_of_nat_32; simp)+
  ultimately have "i + x = j + y" by metis
  with a show False by auto
qed

lemmas field_seps =
  sep_same [of 0 4 8 4, simplified] sep_same [of 0 4 12 4, simplified] sep_same [of 0 4 16 4, simplified]
  sep_same [of 0 4 4 1, simplified] sep_same [of 4 1 0 4, simplified] sep_same [of 4 1 8 4, simplified]
  sep_same [of 4 1 12 4, simplified] sep_same [of 4 1 16 4, simplified]
  sep_same [of 8 4 0 4, simplified] sep_same [of 8 4 4 1, simplified] sep_same [of 8 4 12 4, simplified]
  sep_same [of 8 4 16 4, simplified] sep_same [of 12 4 0 4, simplified] sep_same [of 12 4 4 1, simplified]
  sep_same [of 12 4 8 4, simplified] sep_same [of 12 4 16 4, simplified] sep_same [of 16 4 0 4, simplified]
  sep_same [of 16 4 4 1, simplified] sep_same [of 16 4 8 4, simplified] sep_same [of 16 4 12 4, simplified]

text \<open>The bytes outside a header are not changed by a store into it.\<close>

lemma set_field_other [frame_simps]:
  assumes "sep a 20 x 1"
  shows "set_magic a v m x = m x" "set_is_hole a w m x = m x" "set_size a v m x = m x"
    "set_next a v m x = m x" "set_prev a v m x = m x"
proof -
  have s: "sep (a + of_nat i) n x 1" if "i + n \<le> 20" for i n
    using sep_sub [OF assms, of i n 0 1] that by simp
  show "set_magic a v m x = m x" "set_size a v m x = m x" "set_next a v m x = m x" "set_prev a v m x = m x"
    using store32_other s [of 0 4] s [of 8 4] s [of 12 4] s [of 16 4]
    by (simp_all add: set_magic_def set_size_def set_next_def set_prev_def)
  show "set_is_hole a w m x = m x"
    using sepD [OF s [of 4 1], of 0 0] by (auto simp: set_is_hole_def)
qed

lemma get_header_cong:
  assumes "\<And>i. i < 20 \<Longrightarrow> m (a + of_nat i) = m' (a + of_nat i)"
  shows "get_header m a = get_header m' a"
proof -
  have l: "load32 m (a + of_nat k) = load32 m' (a + of_nat k)" if "k + 4 \<le> 20" for k
  proof (rule load32_cong)
    fix i :: nat assume "i < 4"
    with assms [of "k + i"] that show "m (a + of_nat k + of_nat i) = m' (a + of_nat k + of_nat i)"
      by (simp add: add.assoc)
  qed
  show ?thesis
    using l [of 0] l [of 8] l [of 12] l [of 16] assms [of 4] by (simp add: get_header_def)
qed

lemma get_header_other:
  assumes "sep b 20 a 20"
  shows "get_header (set_magic b v m) a = get_header m a" "get_header (set_is_hole b w m) a = get_header m a"
    "get_header (set_size b v m) a = get_header m a" "get_header (set_next b v m) a = get_header m a"
    "get_header (set_prev b v m) a = get_header m a"
proof -
  have s: "sep b 20 (a + of_nat i) 1" if "i < 20" for i
    using sep_sub [OF assms, of 0 20 i 1] that by simp
  show "get_header (set_magic b v m) a = get_header m a" "get_header (set_is_hole b w m) a = get_header m a"
    "get_header (set_size b v m) a = get_header m a" "get_header (set_next b v m) a = get_header m a"
    "get_header (set_prev b v m) a = get_header m a"
    using set_field_other [OF s] by (auto intro!: get_header_cong)
qed

lemma get_header_set:
  assumes "apart b a"
  shows "get_header (set_magic b v m) a = (if a = b then (get_header m a)\<lparr>magic := v\<rparr> else get_header m a)"
    "get_header (set_is_hole b w m) a = (if a = b then (get_header m a)\<lparr>is_hole := w\<rparr> else get_header m a)"
    "get_header (set_size b v m) a = (if a = b then (get_header m a)\<lparr>hsize := v\<rparr> else get_header m a)"
    "get_header (set_next b v m) a = (if a = b then (get_header m a)\<lparr>hnext := v\<rparr> else get_header m a)"
    "get_header (set_prev b v m) a = (if a = b then (get_header m a)\<lparr>hprev := v\<rparr> else get_header m a)"
proof -
  have sep: "sep b 20 a 20" if "a \<noteq> b" using assms that by (simp add: apart_def)
  have u: "store32 x v m y = m y" if "sep x 4 y 1" for x y using that by (rule store32_other)
  note hd = get_header_def set_magic_def set_is_hole_def set_size_def set_next_def set_prev_def
  note other = get_header_other [OF sep]
  show "get_header (set_magic b v m) a = (if a = b then (get_header m a)\<lparr>magic := v\<rparr> else get_header m a)"
    by (cases "a = b") (simp add: hd mem_simps field_seps u, simp add: other)
  show "get_header (set_is_hole b w m) a = (if a = b then (get_header m a)\<lparr>is_hole := w\<rparr> else get_header m a)"
    by (cases "a = b") (simp add: hd mem_simps field_seps u, simp add: other)
  show "get_header (set_size b v m) a = (if a = b then (get_header m a)\<lparr>hsize := v\<rparr> else get_header m a)"
    by (cases "a = b") (simp add: hd mem_simps field_seps u, simp add: other)
  show "get_header (set_next b v m) a = (if a = b then (get_header m a)\<lparr>hnext := v\<rparr> else get_header m a)"
    by (cases "a = b") (simp add: hd mem_simps field_seps u, simp add: other)
  show "get_header (set_prev b v m) a = (if a = b then (get_header m a)\<lparr>hprev := v\<rparr> else get_header m a)"
    by (cases "a = b") (simp add: hd mem_simps field_seps u, simp add: other)
qed

section \<open>The code on blocks\<close>

definition hdr_size :: "mem \<Rightarrow> u32 \<Rightarrow> u32" where "hdr_size m a = load32 m (a + 8)"
definition hdr_next :: "mem \<Rightarrow> u32 \<Rightarrow> u32" where "hdr_next m a = load32 m (a + 12)"
definition hdr_prev :: "mem \<Rightarrow> u32 \<Rightarrow> u32" where "hdr_prev m a = load32 m (a + 16)"
definition hdr_is_hole :: "mem \<Rightarrow> u32 \<Rightarrow> u8" where "hdr_is_hole m a = m (a + 4)"
definition hdr_magic :: "mem \<Rightarrow> u32 \<Rightarrow> u32" where "hdr_magic m a = load32 m a"

definition split_block :: "u32 \<Rightarrow> u32 \<Rightarrow> mem \<Rightarrow> mem" where
  "split_block block sz m =
     (if hdr_size m block \<le> sz + 20 then m
      else
        let new_hole = block + 20 + sz;
            m = set_magic new_hole KHEAP_MAGIC m;
            m = set_is_hole new_hole 1 m;
            m = set_size new_hole (hdr_size m block - sz - 20) m;
            m = set_next new_hole (hdr_next m block) m;
            m = set_prev new_hole block m;
            m = (if hdr_next m block \<noteq> 0 then set_prev (hdr_next m block) new_hole m else m);
            m = set_next block new_hole m
        in set_size block sz m)"

partial_function (option) kmalloc_walk :: "mem \<Rightarrow> u32 \<Rightarrow> u32 \<Rightarrow> bool \<Rightarrow> (u32 option \<times> mem) option" where
  "kmalloc_walk m cur sz align =
     (if cur = 0 then Some (None, m)
      else if hdr_is_hole m cur = 0 then kmalloc_walk m (hdr_next m cur) sz align
      else
        let data_addr = cur + 20;
            adjusted_addr = (if align \<and> data_addr AND 0xFFF \<noteq> 0 then (data_addr + 0xFFF) AND NOT 0xFFF else data_addr);
            padding = adjusted_addr - data_addr
        in if hdr_size m cur < padding + sz then kmalloc_walk m (hdr_next m cur) sz align
           else if padding > 20 then
             let m = split_block cur (padding - 20) m;
                 cur = hdr_next m cur;
                 m = split_block cur sz m
             in Some (Some (cur + 20), set_is_hole cur 0 m)
           else if padding > 0 then kmalloc_walk m (hdr_next m cur) sz align
           else
             let m = split_block cur sz m
             in Some (Some (cur + 20), set_is_hole cur 0 m))"

definition merge_forward :: "u32 \<Rightarrow> mem \<Rightarrow> mem" where
  "merge_forward header m =
     (if hdr_next m header \<noteq> 0 \<and> hdr_is_hole m (hdr_next m header) \<noteq> 0 then
        let m = set_size header (hdr_size m header + (hdr_size m (hdr_next m header) + 20)) m;
            m = set_next header (hdr_next m (hdr_next m header)) m
        in if hdr_next m header \<noteq> 0 then set_prev (hdr_next m header) header m else m
      else m)"

definition merge_backward :: "u32 \<Rightarrow> mem \<Rightarrow> mem" where
  "merge_backward header m =
     (if hdr_prev m header \<noteq> 0 \<and> hdr_is_hole m (hdr_prev m header) \<noteq> 0 then
        let m = set_size (hdr_prev m header) (hdr_size m (hdr_prev m header) + (hdr_size m header + 20)) m;
            m = set_next (hdr_prev m header) (hdr_next m header) m
        in if hdr_next m header \<noteq> 0 then set_prev (hdr_next m header) (hdr_prev m header) m else m
      else m)"

text \<open>A pointer outside the heap is ignored; a header without the magic number is reported.\<close>

datatype free_result = Ignored | Invalid_Magic | Freed

definition kfree :: "u32 \<Rightarrow> u32 \<Rightarrow> mem \<Rightarrow> free_result \<times> mem" where
  "kfree heap_end ptr m =
     (if ptr = 0 \<or> ptr < KHEAP_START \<or> heap_end \<le> ptr then (Ignored, m)
      else
        let header = ptr - 20
        in if hdr_magic m header \<noteq> KHEAP_MAGIC then (Invalid_Magic, m)
           else (Freed, merge_backward header (merge_forward header (set_is_hole header 1 m))))"

text \<open>The fields as the headers see them.\<close>

lemma hdr_get:
  "hdr_size m a = hsize (get_header m a)" "hdr_next m a = hnext (get_header m a)"
  "hdr_prev m a = hprev (get_header m a)" "hdr_is_hole m a = is_hole (get_header m a)"
  "hdr_magic m a = magic (get_header m a)"
  by (simp_all add: hdr_size_def hdr_next_def hdr_prev_def hdr_is_hole_def hdr_magic_def get_header_def)

section \<open>Blocks in address order\<close>

type_synonym block = "u32 \<times> bool"

definition block_header :: "block \<Rightarrow> u32 \<Rightarrow> u32 \<Rightarrow> header_t" where
  "block_header x nxt prv = \<lparr>magic = KHEAP_MAGIC, is_hole = (if snd x then 1 else 0), hsize = fst x,
     hnext = nxt, hprev = prv\<rparr>"

text \<open>
  \<open>seg H p a xs q b\<close>: from address \<open>a\<close> on stand the blocks \<open>xs\<close>, linked both ways; the block before
  them is \<open>p\<close>, the last of them (or \<open>p\<close>) is \<open>q\<close> and its \<^verbatim>\<open>next\<close> pointer is \<open>b\<close>. Blocks that
  follow each other in the list are adjacent in memory.
\<close>

primrec seg :: "(u32 \<Rightarrow> header_t) \<Rightarrow> u32 \<Rightarrow> u32 \<Rightarrow> block list \<Rightarrow> u32 \<Rightarrow> u32 \<Rightarrow> bool" where
  "seg H p a [] q b \<longleftrightarrow> q = p \<and> b = a"
| "seg H p a (x # xs) q b \<longleftrightarrow>
     (\<exists>nxt. a \<noteq> 0 \<and> H a = block_header x nxt p \<and>
        (nxt = 0 \<or> nxt = a + 20 + fst x) \<and> seg H a nxt xs q b)"

primrec heads :: "u32 \<Rightarrow> block list \<Rightarrow> u32 list" where
  "heads a [] = []"
| "heads a (x # xs) = a # heads (a + 20 + fst x) xs"

primrec span :: "block list \<Rightarrow> nat" where
  "span [] = 0"
| "span (x # xs) = 20 + unat (fst x) + span xs"

lemma span_append [simp]: "span (xs @ ys) = span xs + span ys"
  by (induction xs) auto

lemma seg_append: "seg H p a (xs @ ys) q b \<longleftrightarrow> (\<exists>q' b'. seg H p a xs q' b' \<and> seg H q' b' ys q b)"
  by (induction xs arbitrary: p a) auto

lemma seg_0: "seg H p 0 xs q b \<Longrightarrow> xs = [] \<and> q = p \<and> b = 0"
  by (cases xs) auto

lemma seg_end: "seg H p a xs q b \<Longrightarrow> b \<noteq> 0 \<Longrightarrow> b = a + of_nat (span xs)"
proof (induction xs arbitrary: p a)
  case Nil
  then show ?case by simp
next
  case (Cons x xs)
  then obtain nxt where n: "nxt = 0 \<or> nxt = a + 20 + fst x" "seg H a nxt xs q b" by auto
  then have "nxt = a + 20 + fst x" using Cons.prems(2) seg_0 by metis
  with Cons.IH [OF n(2) Cons.prems(2)] show ?case by (simp add: algebra_simps)
qed

lemma heads_append: "heads a (xs @ ys) = heads a xs @ heads (a + of_nat (span xs)) ys"
  by (induction xs arbitrary: a) (auto simp: algebra_simps)

lemma heads_range:
  "b \<in> set (heads a xs) \<Longrightarrow> unat a + span xs \<le> 2 ^ 32 \<Longrightarrow> unat a \<le> unat b \<and> unat b + 20 \<le> unat a + span xs"
proof (induction xs arbitrary: a)
  case Nil
  then show ?case by simp
next
  case (Cons x xs)
  show ?case
  proof (cases "b = a")
    case True
    then show ?thesis by simp
  next
    case False
    then have b: "b \<in> set (heads (a + 20 + fst x) xs)" using Cons.prems(1) by simp
    then have "xs \<noteq> []" by auto
    then have "0 < span xs" by (cases xs) auto
    then have "unat (a + of_nat (20 + unat (fst x))) = unat a + (20 + unat (fst x))"
      using Cons.prems(2) by (intro unat_add_of_nat) simp
    then have u: "unat (a + 20 + fst x) = unat a + 20 + unat (fst x)" by (simp add: add.assoc)
    then have "unat (a + 20 + fst x) + span xs \<le> 2 ^ 32" using Cons.prems(2) by simp
    from Cons.IH [OF b this] show ?thesis using u by simp
  qed
qed

lemma seg_cong:
  "seg H p a xs q b \<Longrightarrow> (\<And>x. x \<in> set (heads a xs) \<Longrightarrow> H x = H' x) \<Longrightarrow> seg H' p a xs q b"
proof (induction xs arbitrary: p a)
  case Nil
  then show ?case by simp
next
  case (Cons x xs)
  then obtain nxt where n: "a \<noteq> 0" "H a = block_header x nxt p" "nxt = 0 \<or> nxt = a + 20 + fst x" "seg H a nxt xs q b"
    by auto
  have "seg H' a nxt xs q b"
  proof (cases "nxt = 0")
    case True
    then show ?thesis using n(4) seg_0 [of H a xs q b] by simp
  next
    case False
    then show ?thesis using n(3,4) Cons.prems(2) by (intro Cons.IH) auto
  qed
  moreover have "H' a = block_header x nxt p" using n(2) Cons.prems(2) [of a] by simp
  ultimately show ?case using n by auto
qed

section \<open>Splitting\<close>

lemma split_block_headers:
  fixes m :: mem and a s :: u32
  defines "n \<equiv> a + 20 + s" and "nxt \<equiv> hnext (get_header m a)"
  assumes big: "unat s + 20 < unat (hsize (get_header m a))"
    and B: "\<And>x y. x \<in> B \<Longrightarrow> y \<in> B \<Longrightarrow> apart x y" "a \<in> B" "n \<in> B" "nxt \<noteq> 0 \<Longrightarrow> nxt \<in> B"
    and ne: "n \<noteq> a" "nxt \<noteq> a" "nxt \<noteq> n" and b: "b \<in> B"
  shows "get_header (split_block a s m) b =
    (if b = n then block_header (hsize (get_header m a) - s - 20, True) nxt a
     else if b = a then (get_header m a)\<lparr>hsize := s, hnext := n\<rparr>
     else if nxt \<noteq> 0 \<and> b = nxt then (get_header m b)\<lparr>hprev := n\<rparr>
     else get_header m b)"
proof -
  have "unat (s + 20) = unat s + 20"
    using big unat_less_32 [of "hsize (get_header m a)"] unat_add_of_nat [of s 20] by simp
  then have "\<not> hsize (get_header m a) \<le> s + 20" using big by (simp add: word_le_nat_alt)
  then have sp: "split_block a s m =
      (let m1 = set_prev n a (set_next n nxt (set_size n (hsize (get_header m a) - s - 20)
          (set_is_hole n 1 (set_magic n KHEAP_MAGIC m))));
         m2 = (if nxt \<noteq> 0 then set_prev nxt n m1 else m1)
       in set_size a s (set_next a n m2))"
    using ne B by (simp add: split_block_def hdr_get Let_def n_def [symmetric] nxt_def [symmetric] get_header_set)
  show ?thesis
    using ne b B by (auto simp: sp Let_def get_header_set block_header_def)
qed

text \<open>No byte outside the headers involved changes.\<close>

lemma split_block_bytes:
  fixes m :: mem and a s :: u32
  assumes "sep a 20 x 1" "sep (a + 20 + s) 20 x 1"
    "hnext (get_header m a) \<noteq> 0 \<Longrightarrow> sep (hnext (get_header m a)) 20 x 1"
    and B: "apart (a + 20 + s) a" "a + 20 + s \<noteq> a"
  shows "split_block a s m x = m x"
  using assms by (simp add: split_block_def hdr_get Let_def frame_simps get_header_set)

section \<open>Heaps\<close>

text \<open>The blocks \<open>bs\<close> stand one behind the other from \<open>start\<close> on, first one first.\<close>

definition heap_at :: "mem \<Rightarrow> u32 \<Rightarrow> block list \<Rightarrow> bool" where
  "heap_at m start bs \<longleftrightarrow> unat start + span bs \<le> 2 ^ 32 \<and> (\<exists>q. seg (get_header m) 0 start bs q 0)"

lemma span_pos: "xs \<noteq> [] \<Longrightarrow> 20 \<le> span xs"
  by (cases xs) auto

lemma step_unat:
  fixes a :: u32
  assumes "unat a + span (x # xs) \<le> 2 ^ 32" "xs \<noteq> []"
  shows "unat (a + 20 + fst x) = unat a + 20 + unat (fst x)"
  using assms span_pos [of xs] unat_add_of_nat [of a "20 + unat (fst x)"] by (simp add: add.assoc)

lemma heads_apart:
  assumes "unat a + span xs \<le> 2 ^ 32" "x \<in> set (heads a xs)" "y \<in> set (heads a xs)"
  shows "apart x y"
  using assms
proof (induction xs arbitrary: a x y)
  case Nil
  then show ?case by simp
next
  case (Cons z zs)
  have rest: "unat a + 20 \<le> unat b \<and> unat b + 20 \<le> 2 ^ 32" and tl: "unat (a + 20 + fst z) + span zs \<le> 2 ^ 32"
    if "b \<in> set (heads (a + 20 + fst z) zs)" for b
  proof -
    from that have "zs \<noteq> []" by auto
    note u = step_unat [OF Cons.prems(1) this]
    then show tl: "unat (a + 20 + fst z) + span zs \<le> 2 ^ 32" using Cons.prems(1) by simp
    from heads_range [OF that tl] u Cons.prems(1)
    show "unat a + 20 \<le> unat b \<and> unat b + 20 \<le> 2 ^ 32" by simp
  qed
  have ha: "sep a 20 b 20" "sep b 20 a 20" if "b \<in> set (heads (a + 20 + fst z) zs)" for b
    using rest [OF that] by (auto intro!: sep_ordered)
  show ?case
    using Cons.prems(2,3) Cons.IH [OF tl] ha by (auto simp: apart_def)
qed

lemma heads_distinct: "unat a + span xs \<le> 2 ^ 32 \<Longrightarrow> distinct (heads a xs)"
proof (induction xs arbitrary: a)
  case Nil
  then show ?case by simp
next
  case (Cons z zs)
  show ?case
  proof (cases "zs = []")
    case False
    note u = step_unat [OF Cons.prems False]
    then have tl: "unat (a + 20 + fst z) + span zs \<le> 2 ^ 32" using Cons.prems by simp
    from heads_range [OF _ tl] u have "a \<notin> set (heads (a + 20 + fst z) zs)" by force
    with Cons.IH [OF tl] show ?thesis by simp
  qed simp
qed

lemma seg_reparent:
  assumes "seg H p a (x # xs) q b" "H' a = (H a)\<lparr>hprev := p'\<rparr>"
    and "\<And>y. y \<in> set (heads (a + 20 + fst x) xs) \<Longrightarrow> H y = H' y"
  shows "seg H' p' a (x # xs) q b"
proof -
  obtain nxt where n: "a \<noteq> 0" "H a = block_header x nxt p" "nxt = 0 \<or> nxt = a + 20 + fst x" "seg H a nxt xs q b"
    using assms(1) by auto
  have "seg H' a nxt xs q b"
  proof (cases "nxt = 0")
    case True
    then show ?thesis using n(4) seg_0 [of H a xs q b] by simp
  next
    case False
    then show ?thesis using n(3,4) assms(3) by (intro seg_cong [OF n(4)]) auto
  qed
  moreover have "H' a = block_header x nxt p'" using n(2) assms(2) by (simp add: block_header_def)
  ultimately show ?thesis using n by auto
qed

lemma seg_ConsI:
  "a \<noteq> 0 \<Longrightarrow> H a = block_header x nxt p \<Longrightarrow> nxt = 0 \<or> nxt = a + 20 + fst x \<Longrightarrow>
     seg H a nxt xs q b \<Longrightarrow> seg H p a (x # xs) q b"
  unfolding seg.simps by blast

lemma heap_atI:
  "unat start + span (xs @ ys) \<le> 2 ^ 32 \<Longrightarrow> seg (get_header m) 0 start xs p a \<Longrightarrow>
     seg (get_header m) p a ys q 0 \<Longrightarrow> heap_at m start (xs @ ys)"
  by (auto simp: heap_at_def seg_append)

text \<open>A heap with one block singled out.\<close>

lemma heap_at_focus:
  assumes "heap_at m start (xs @ x # ys)"
  defines "a \<equiv> start + of_nat (span xs)"
  obtains p nxt q where "seg (get_header m) 0 start xs p a" "a \<noteq> 0" "get_header m a = block_header x nxt p"
    "nxt = 0 \<and> ys = [] \<or> nxt \<noteq> 0 \<and> nxt = a + 20 + fst x \<and> ys \<noteq> []"
    "seg (get_header m) a nxt ys q 0"
proof -
  obtain q p a' where s: "seg (get_header m) 0 start xs p a'" "seg (get_header m) p a' (x # ys) q 0"
    using assms(1) by (auto simp: heap_at_def seg_append)
  then have "a' \<noteq> 0" by auto
  then have a: "a' = a" using seg_end [OF s(1)] by (simp add: a_def)
  from s(2) obtain nxt where n: "get_header m a = block_header x nxt p" "nxt = 0 \<or> nxt = a + 20 + fst x"
    "seg (get_header m) a nxt ys q 0" by (auto simp: a)
  then have "nxt = 0 \<longleftrightarrow> ys = []"
    using seg_0 [of "get_header m" a ys q 0] by auto
  with n s a \<open>a' \<noteq> 0\<close> show thesis by (intro that) auto
qed

lemma heap_split:
  assumes hp: "heap_at m start (xs @ (sz, h) # ys)" and big: "unat s + 20 < unat sz"
  defines "a \<equiv> start + of_nat (span xs)"
  shows "heap_at (split_block a s m) start (xs @ (s, h) # (sz - s - 20, True) # ys)"
    and "\<And>x. \<forall>b \<in> set (heads start (xs @ (s, h) # (sz - s - 20, True) # ys)). sep b 20 x 1 \<Longrightarrow>
       split_block a s m x = m x"
proof -
  let ?H = "get_header m" and ?m = "split_block a s m" and ?n = "a + 20 + s"
  let ?new = "xs @ (s, h) # (sz - s - 20, True) # ys"
  obtain p nxt q where f: "seg ?H 0 start xs p a" "a \<noteq> 0" "?H a = block_header (sz, h) nxt p"
    "nxt = 0 \<and> ys = [] \<or> nxt \<noteq> 0 \<and> nxt = a + 20 + sz \<and> ys \<noteq> []" "seg ?H a nxt ys q 0"
    using heap_at_focus [OF hp] unfolding a_def by auto
  have sub: "unat (sz - s - 20) = unat sz - unat s - 20"
  proof -
    have "unat (sz - s) = unat sz - unat s" using big by (intro unat_sub) (simp add: word_le_nat_alt)
    then show ?thesis using big by (subst unat_sub) (simp_all add: word_le_nat_alt)
  qed
  have spn: "span ?new = span (xs @ (sz, h) # ys)" using sub big by simp
  have bound: "unat start + span ?new \<le> 2 ^ 32" using hp spn by (simp add: heap_at_def)
  have nn: "?n + 20 + (sz - s - 20) = a + 20 + sz" by simp
  have hd: "heads start ?new = heads start xs @ a # ?n # heads (a + 20 + sz) ys"
    by (simp add: heads_append a_def algebra_simps)
  have dist: "distinct (heads start xs @ a # ?n # heads (a + 20 + sz) ys)"
    using heads_distinct [OF bound] unfolding hd .
  have nxt: "nxt \<noteq> 0 \<Longrightarrow> nxt \<in> set (heads start ?new)" using f(4) unfolding hd by (cases ys) auto
  have nz: "?n \<noteq> 0"
  proof -
    have "?n \<in> set (heads start ?new)" by (simp add: hd)
    then have "unat start \<le> unat ?n" using heads_range [OF _ bound] by blast
    moreover have "start \<noteq> 0" using f(1,2) by (cases xs) auto
    ultimately show ?thesis by (metis le_zero_eq unsigned_0 unsigned_eq_0_iff)
  qed
  have hdn: "nxt \<in> set (heads (a + 20 + sz) ys)" if "nxt \<noteq> 0" using f(4) that by (cases ys) auto
  then have ne: "?n \<noteq> a" "nxt \<noteq> a" "nxt \<noteq> ?n"
    using dist f(2) nz by auto
  have H': "get_header ?m b = (if b = ?n then block_header (sz - s - 20, True) nxt a
     else if b = a then block_header (s, h) ?n p
     else if nxt \<noteq> 0 \<and> b = nxt then (?H b)\<lparr>hprev := ?n\<rparr> else ?H b)" if "b \<in> set (heads start ?new)" for b
  proof -
    have "get_header ?m b = (if b = ?n then block_header (hsize (?H a) - s - 20, True) (hnext (?H a)) a
       else if b = a then (?H a)\<lparr>hsize := s, hnext := ?n\<rparr>
       else if hnext (?H a) \<noteq> 0 \<and> b = hnext (?H a) then (?H b)\<lparr>hprev := ?n\<rparr> else ?H b)"
      using that nxt ne f(3)
      by (intro split_block_headers [where B = "set (heads start ?new)"] heads_apart [OF bound])
         (simp_all add: big hd block_header_def)
    then show ?thesis by (simp add: f(3) block_header_def)
  qed
  have "seg (get_header ?m) 0 start xs p a"
  proof (rule seg_cong [OF f(1)])
    fix x assume x: "x \<in> set (heads start xs)"
    then have "x \<noteq> ?n" "x \<noteq> a" "nxt \<noteq> 0 \<longrightarrow> x \<noteq> nxt" using dist hdn by auto
    then show "?H x = get_header ?m x" using H' [of x] x by (auto simp: hd)
  qed
  moreover have "get_header ?m a = block_header (s, h) ?n p" "get_header ?m ?n = block_header (sz - s - 20, True) nxt a"
    using H' [of a] H' [of ?n] ne by (simp_all add: hd)
  moreover have "\<exists>q. seg (get_header ?m) ?n nxt ys q 0"
  proof (cases ys)
    case Nil
    then show ?thesis using f(4) by auto
  next
    case (Cons y zs)
    then have nx: "nxt = a + 20 + sz" "nxt \<noteq> 0" using f(4) by auto
    have "seg (get_header ?m) ?n nxt (y # zs) q 0"
    proof (rule seg_reparent)
      show "seg ?H a nxt (y # zs) q 0" using f(5) Cons by simp
      show "get_header ?m nxt = (?H nxt)\<lparr>hprev := ?n\<rparr>"
        using H' [of nxt] nxt nx ne by simp
      fix x assume x: "x \<in> set (heads (nxt + 20 + fst y) zs)"
      then have "x \<noteq> ?n" "x \<noteq> a" "x \<noteq> nxt" "x \<in> set (heads start ?new)"
        using dist hd unfolding Cons nx(1) by auto
      then show "?H x = get_header ?m x" using H' [of x] by simp
    qed
    then show ?thesis using Cons by auto
  qed
  ultimately obtain q' where pre: "seg (get_header ?m) 0 start xs p a"
    and new: "get_header ?m a = block_header (s, h) ?n p" "get_header ?m ?n = block_header (sz - s - 20, True) nxt a"
    and suf: "seg (get_header ?m) ?n nxt ys q' 0" by blast
  have nx: "nxt = 0 \<or> nxt = ?n + 20 + fst (sz - s - 20, True)" using f(4) nn by auto
  have "seg (get_header ?m) a ?n ((sz - s - 20, True) # ys) q' 0"
    by (rule seg_ConsI) (rule nz new(2) nx suf)+
  then have "seg (get_header ?m) p a ((s, h) # (sz - s - 20, True) # ys) q' 0"
    by (rule seg_ConsI [OF f(2), of "get_header ?m", OF new(1), rotated]) simp
  then show "heap_at ?m start ?new" by (rule heap_atI [OF bound pre])
  show "?m x = m x" if x: "\<forall>b \<in> set (heads start ?new). sep b 20 x 1" for x
  proof (rule split_block_bytes)
    show "sep a 20 x 1" "sep (a + 20 + s) 20 x 1" using x by (simp_all add: hd)
    show "sep (hnext (?H a)) 20 x 1" if "hnext (?H a) \<noteq> 0"
      using x nxt that f(3) by (simp add: block_header_def)
    show "apart (a + 20 + s) a" by (rule heads_apart [OF bound]) (simp_all add: hd)
    show "a + 20 + s \<noteq> a" by (rule ne(1))
  qed
qed

section \<open>Marking a block used\<close>

lemma heap_mark:
  assumes hp: "heap_at m start (xs @ (sz, h) # ys)"
  defines "a \<equiv> start + of_nat (span xs)"
  shows "heap_at (set_is_hole a (if h' then 1 else 0) m) start (xs @ (sz, h') # ys)"
    and "\<And>x. \<forall>b \<in> set (heads start (xs @ (sz, h') # ys)). sep b 20 x 1 \<Longrightarrow>
       set_is_hole a (if h' then 1 else 0) m x = m x"
proof -
  let ?H = "get_header m" and ?m = "set_is_hole a (if h' then 1 else 0) m"
  let ?bs = "xs @ (sz, h) # ys"
  obtain p nxt q where f: "seg ?H 0 start xs p a" "a \<noteq> 0" "?H a = block_header (sz, h) nxt p"
    "nxt = 0 \<and> ys = [] \<or> nxt \<noteq> 0 \<and> nxt = a + 20 + sz \<and> ys \<noteq> []" "seg ?H a nxt ys q 0"
    using heap_at_focus [OF hp] unfolding a_def by auto
  have bound: "unat start + span ?bs \<le> 2 ^ 32" using hp by (simp add: heap_at_def)
  have hd: "heads start ?bs = heads start xs @ a # heads (a + 20 + sz) ys"
    by (simp add: heads_append a_def)
  have H': "get_header ?m b = (if b = a then block_header (sz, h') nxt p else ?H b)" if "b \<in> set (heads start ?bs)" for b
    using that heads_apart [OF bound, of a b] f(3)
    by (auto simp: get_header_set block_header_def hd)
  have dist: "distinct (heads start xs @ a # heads (a + 20 + sz) ys)"
    using heads_distinct [OF bound] unfolding hd .
  have pre: "seg (get_header ?m) 0 start xs p a"
    using f(1) by (rule seg_cong) (use H' dist in \<open>auto simp: hd\<close>)
  have suf: "seg (get_header ?m) a nxt ys q 0"
  proof (cases "ys = []")
    case True
    then show ?thesis using f(5) by simp
  next
    case False
    then have "nxt = a + 20 + sz" using f(4) by auto
    with f(5) show ?thesis by (intro seg_cong [OF f(5)]) (use H' dist in \<open>auto simp: hd\<close>)
  qed
  have "get_header ?m a = block_header (sz, h') nxt p" using H' [of a] by (simp add: hd)
  then have "seg (get_header ?m) p a ((sz, h') # ys) q 0"
    by (rule seg_ConsI [OF f(2), of "get_header ?m"]) (use f(4) suf in auto)
  then show "heap_at ?m start (xs @ (sz, h') # ys)"
    by (rule heap_atI [OF _ pre, rotated]) (use bound in simp)
  show "?m x = m x" if "\<forall>b \<in> set (heads start (xs @ (sz, h') # ys)). sep b 20 x 1" for x
    using that by (intro set_field_other) (simp add: heads_append a_def)
qed

section \<open>The walk\<close>

definition padding :: "u32 \<Rightarrow> bool \<Rightarrow> u32" where
  "padding d align = (if align \<and> d AND 0xFFF \<noteq> 0 then (d + 0xFFF) AND NOT 0xFFF else d) - d"

lemma padding_props:
  assumes "unat d + 4096 \<le> 2 ^ 32"
  shows "unat (padding d al) < 4096" "al \<Longrightarrow> page_base (d + padding d al) = d + padding d al"
    "unat (d + padding d al) = unat d + unat (padding d al)"
proof -
  have n: "x AND NOT 0xFFF = page_base x" for x :: u32
    unfolding page_base_push mask_12 by (rule bit_word_eqI) (auto simp: bit_simps)
  have "unat (padding d al) < 4096 \<and> (al \<longrightarrow> page_base (d + padding d al) = d + padding d al) \<and>
    unat (d + padding d al) = unat d + unat (padding d al)"
  proof (cases "al \<and> d AND 0xFFF \<noteq> 0")
    case False
    then show ?thesis using page_base_offset [of d] by (auto simp: padding_def)
  next
    case True
    have u: "unat (d + 0xFFF) = unat d + 4095" using assms unat_add_of_nat [of d 4095] by simp
    have "unat d mod 4096 \<noteq> 0" using True unfolding unat_offset [symmetric] by (metis unsigned_eq_0_iff)
    then have ge: "unat d \<le> unat (page_base (d + 0xFFF))" "unat (page_base (d + 0xFFF)) < unat d + 4096"
      unfolding unat_page_base u using div_mult_mod_eq [of "unat d + 4095" 4096] mod_less_divisor [of 4096 "unat d + 4095"]
      by linarith+
    have p: "padding d al = page_base (d + 0xFFF) - d" using True unfolding padding_def n by simp
    then have "unat (padding d al) = unat (page_base (d + 0xFFF)) - unat d"
      using ge by (simp add: unat_sub word_le_nat_alt)
    moreover have "d + padding d al = page_base (d + 0xFFF)" using p by simp
    moreover have "unat (page_base (d + 0xFFF)) - unat d < 4096" using ge by arith
    ultimately show ?thesis using ge by auto
  qed
  then show "unat (padding d al) < 4096" "al \<Longrightarrow> page_base (d + padding d al) = d + padding d al"
    "unat (d + padding d al) = unat d + unat (padding d al)" by auto
qed

text \<open>What the walk does to the list of blocks: first fit, padding split off in front, the rest behind.\<close>

definition cut_block :: "u32 \<Rightarrow> u32 \<Rightarrow> block list" where
  "cut_block bsz sz = (if unat sz + 20 < unat bsz then [(sz, False), (bsz - sz - 20, True)] else [(bsz, False)])"

fun take_block :: "u32 \<Rightarrow> block list \<Rightarrow> u32 \<Rightarrow> bool \<Rightarrow> (block list \<times> u32) option" where
  "take_block a [] sz al = None"
| "take_block a ((bsz, h) # bs) sz al =
     (let p = padding (a + 20) al
      in if h \<and> unat p + unat sz \<le> unat bsz \<and> (p = 0 \<or> 20 < unat p) then
           (if p = 0 then Some (cut_block bsz sz @ bs, a + 20)
            else Some ((p - 20, True) # cut_block (bsz - p) sz @ bs, a + 20 + p))
         else map_option (\<lambda>(bs', q). ((bsz, h) # bs', q)) (take_block (a + 20 + bsz) bs sz al))"

text \<open>Splitting off the tail of a block and marking it used.\<close>

lemma heap_cut:
  assumes hp: "heap_at m start (xs @ (bsz, True) # ys)" and fits: "unat sz \<le> unat bsz" "unat sz + 20 < 2 ^ 32"
  defines "a \<equiv> start + of_nat (span xs)"
  defines "m' \<equiv> set_is_hole a 0 (split_block a sz m)"
  shows "heap_at m' start (xs @ cut_block bsz sz @ ys)"
    and "\<And>x. \<forall>b \<in> set (heads start (xs @ cut_block bsz sz @ ys)). sep b 20 x 1 \<Longrightarrow> m' x = m x"
proof -
  have conc: "heap_at m' start (xs @ cut_block bsz sz @ ys) \<and>
    (\<forall>x. (\<forall>b \<in> set (heads start (xs @ cut_block bsz sz @ ys)). sep b 20 x 1) \<longrightarrow> m' x = m x)"
  proof (cases "unat sz + 20 < unat bsz")
    case True
    have c: "xs @ cut_block bsz sz @ ys = xs @ (sz, False) # (bsz - sz - 20, True) # ys" using True by (simp add: cut_block_def)
    note sp = heap_split [OF hp True, folded a_def]
    note mk = heap_mark [OF sp(1), of False, folded a_def]
    show ?thesis unfolding c m'_def using mk sp(2) by (simp add: heads_append)
  next
    case False
    obtain p nxt q where "get_header m a = block_header (bsz, True) nxt p"
      using heap_at_focus [OF hp] unfolding a_def by metis
    then have "hdr_size m a = bsz" by (simp add: hdr_get block_header_def)
    moreover have "unat (sz + 20) = unat sz + 20" using fits(2) unat_add_of_nat [of sz 20] by simp
    ultimately have "split_block a sz m = m" using False by (simp add: split_block_def word_le_nat_alt)
    then show ?thesis using heap_mark [OF hp, of False, folded a_def] False by (simp add: m'_def cut_block_def)
  qed
  then show "heap_at m' start (xs @ cut_block bsz sz @ ys)"
    "\<And>x. \<forall>b \<in> set (heads start (xs @ cut_block bsz sz @ ys)). sep b 20 x 1 \<Longrightarrow> m' x = m x" by auto
qed

lemma cut_heads: "a \<in> set (heads a (cut_block bsz sz @ ys)) \<and>
    set (heads (a + 20 + bsz) ys) \<subseteq> set (heads a (cut_block bsz sz @ ys))"
  by (auto simp: cut_block_def algebra_simps)

text \<open>One block of the walk: a fitting hole.\<close>

lemma kmalloc_take:
  fixes m :: mem and al :: bool
  assumes hp: "heap_at m start (xs @ (bsz, True) # ys)"
    and bound: "unat start + span (xs @ (bsz, True) # ys) + 4096 \<le> 2 ^ 32"
    and sz: "0 < unat sz" "unat sz + 8192 \<le> 2 ^ 32"
  defines "a \<equiv> start + of_nat (span xs)"
  defines "p \<equiv> padding (a + 20) al"
  assumes fits: "unat p + unat sz \<le> unat bsz" "p = 0 \<or> 20 < unat p"
  defines "new \<equiv> (if p = 0 then cut_block bsz sz @ ys else (p - 20, True) # cut_block (bsz - p) sz @ ys)"
  shows "\<exists>m'. kmalloc_walk m a sz al = Some (Some (a + 20 + p), m') \<and> heap_at m' start (xs @ new) \<and>
     (\<forall>x. (\<forall>b \<in> set (heads start (xs @ new)). sep b 20 x 1) \<longrightarrow> m' x = m x)"
proof -
  obtain pr nxt q where f: "a \<noteq> 0" "get_header m a = block_header (bsz, True) nxt pr"
    using heap_at_focus [OF hp] unfolding a_def by metis
  have hd: "hdr_is_hole m a = 1" "hdr_size m a = bsz" using f(2) by (simp_all add: hdr_get block_header_def)
  have ps: "unat (p + sz) = unat p + unat sz"
    using fits(1) unat_less_32 [of bsz] unat_add_of_nat [of p "unat sz"] by simp
  then have ge: "\<not> bsz < p + sz" using fits(1) by (simp add: word_less_nat_alt)
  have sz20: "unat sz + 20 < 2 ^ 32" using sz(2) by simp
  show ?thesis
  proof (cases "p = 0")
    case True
    have "unat sz \<le> unat bsz" using fits(1) by simp
    note c = heap_cut [OF hp this sz20, folded a_def]
    have "kmalloc_walk m a sz al = Some (Some (a + 20), set_is_hole a 0 (split_block a sz m))"
      using f(1) hd ge True
      by (subst kmalloc_walk.simps) (simp add: Let_def p_def padding_def)
    then show ?thesis using c True by (simp add: new_def)
  next
    case False
    then have p20: "20 < unat p" using fits(2) by simp
    have pp: "unat (p - 20) = unat p - 20" using p20 by (subst unat_sub) (simp_all add: word_le_nat_alt)
    let ?m1 = "split_block a (p - 20) m"
    have big: "unat (p - 20) + 20 < unat bsz" using pp p20 fits(1) sz(1) by simp
    have e: "bsz - (p - 20) - 20 = bsz - p" by simp
    note sp = heap_split [OF hp big, folded a_def, unfolded e]
    let ?xs = "xs @ [(p - 20, True)]"
    have h1: "heap_at ?m1 start (?xs @ (bsz - p, True) # ys)" using sp(1) by simp
    have a1: "start + of_nat (span ?xs) = a + p" using pp p20 by (simp add: a_def)
    have nx: "hdr_next ?m1 a = a + p"
    proof -
      obtain pr nxt q where "get_header ?m1 a = block_header (p - 20, True) nxt pr"
        "nxt = a + 20 + fst (p - 20, True)"
        using heap_at_focus [OF sp(1)] unfolding a_def by (metis list.distinct(1))
      then show ?thesis by (simp add: hdr_get block_header_def)
    qed
    have "unat (bsz - p) = unat bsz - unat p" using fits(1) by (subst unat_sub) (simp_all add: word_le_nat_alt)
    then have "unat sz \<le> unat (bsz - p)" using fits(1) by simp
    note c = heap_cut [OF h1 this sz20, unfolded a1]
    let ?m2 = "set_is_hole (a + p) 0 (split_block (a + p) sz ?m1)"
    have run: "kmalloc_walk m a sz al = Some (Some (a + p + 20), ?m2)"
      using f(1) hd ge False p20 nx
      by (subst kmalloc_walk.simps) (simp add: Let_def p_def padding_def word_less_nat_alt)
    have new: "xs @ new = ?xs @ cut_block (bsz - p) sz @ ys" using False by (simp add: new_def)
    have "?m2 x = m x" if x: "\<forall>b \<in> set (heads start (xs @ new)). sep b 20 x 1" for x
    proof -
      have "set (heads start (xs @ (p - 20, True) # (bsz - p, True) # ys)) \<subseteq> set (heads start (xs @ new))"
      proof -
        have "heads start (xs @ new) = heads start xs @ a # heads (a + p) (cut_block (bsz - p) sz @ ys)"
          using False by (simp add: new_def heads_append [of _ xs] a_def [symmetric])
        moreover have "heads start (xs @ (p - 20, True) # (bsz - p, True) # ys) =
            heads start xs @ a # (a + p) # heads (a + p + 20 + (bsz - p)) ys"
          by (simp add: heads_append [of _ xs] a_def [symmetric])
        ultimately show ?thesis using cut_heads [of "a + p" "bsz - p" sz ys] by auto
      qed
      then have "?m1 x = m x" using x by (intro sp(2)) blast
      moreover have "?m2 x = ?m1 x" using x c(2) [of x] new by simp
      ultimately show ?thesis by simp
    qed
    then show ?thesis using run c(1) new by (intro exI [of _ ?m2]) (simp add: algebra_simps)
  qed
qed

lemma kmalloc_walk_refines:
  assumes sz: "0 < unat sz" "unat sz + 8192 \<le> 2 ^ 32"
  shows "heap_at m start (xs @ ys) \<Longrightarrow> unat start + span (xs @ ys) + 4096 \<le> 2 ^ 32 \<Longrightarrow>
    (case take_block (start + of_nat (span xs)) ys sz al of
       None \<Rightarrow> kmalloc_walk m (if ys = [] then 0 else start + of_nat (span xs)) sz al = Some (None, m)
     | Some (ys', p) \<Rightarrow> \<exists>m'. kmalloc_walk m (if ys = [] then 0 else start + of_nat (span xs)) sz al = Some (Some p, m') \<and>
         heap_at m' start (xs @ ys') \<and> (\<forall>x. (\<forall>b \<in> set (heads start (xs @ ys')). sep b 20 x 1) \<longrightarrow> m' x = m x))"
proof (induction ys arbitrary: xs)
  case Nil
  then show ?case by (subst kmalloc_walk.simps) simp
next
  case (Cons y ys)
  obtain bsz h where y: "y = (bsz, h)" by fastforce
  let ?a = "start + of_nat (span xs)"
  let ?p = "padding (?a + 20) al"
  obtain pr nxt q where f: "?a \<noteq> 0" "get_header m ?a = block_header y nxt pr"
    "nxt = 0 \<and> ys = [] \<or> nxt \<noteq> 0 \<and> nxt = ?a + 20 + fst y \<and> ys \<noteq> []"
    using heap_at_focus [OF Cons.prems(1)] by metis
  have hd: "hdr_is_hole m ?a = (if h then 1 else 0)" "hdr_size m ?a = bsz" "hdr_next m ?a = nxt"
    using f(2) y by (simp_all add: hdr_get block_header_def)
  have nxt: "nxt = (if ys = [] then 0 else start + of_nat (span (xs @ [y])))"
    using f(3) y by (auto simp: algebra_simps)
  have ih: "case take_block (start + of_nat (span (xs @ [y]))) ys sz al of
       None \<Rightarrow> kmalloc_walk m nxt sz al = Some (None, m)
     | Some (ys', p) \<Rightarrow> \<exists>m'. kmalloc_walk m nxt sz al = Some (Some p, m') \<and>
         heap_at m' start ((xs @ [y]) @ ys') \<and>
         (\<forall>x. (\<forall>b \<in> set (heads start ((xs @ [y]) @ ys')). sep b 20 x 1) \<longrightarrow> m' x = m x)"
    using Cons.IH [of "xs @ [y]"] Cons.prems unfolding nxt by simp
  have next_a: "start + of_nat (span (xs @ [y])) = ?a + 20 + bsz" using y by (simp add: algebra_simps)
  show ?case
  proof (cases "h \<and> unat ?p + unat sz \<le> unat bsz \<and> (?p = 0 \<or> 20 < unat ?p)")
    case True
    let ?new = "if ?p = 0 then cut_block bsz sz @ ys else (?p - 20, True) # cut_block (bsz - ?p) sz @ ys"
    have "take_block ?a (y # ys) sz al = Some (?new, ?a + 20 + ?p)" using True y by (simp add: Let_def)
    moreover have "heap_at m start (xs @ (bsz, True) # ys)" "unat start + span (xs @ (bsz, True) # ys) + 4096 \<le> 2 ^ 32"
      using Cons.prems y True by simp_all
    ultimately show ?thesis
      using kmalloc_take [OF _ _ sz, of m start xs bsz ys al] True by simp
  next
    case False
    have "kmalloc_walk m ?a sz al = kmalloc_walk m nxt sz al"
    proof (cases h)
      case False
      then show ?thesis using f(1) hd by (subst kmalloc_walk.simps) simp
    next
      case True
      have "?a \<in> set (heads start (xs @ y # ys))" by (simp add: heads_append)
      then have "unat ?a + 20 \<le> unat start + span (xs @ y # ys)"
        using heads_range Cons.prems(2) by fastforce
      then have "unat (?a + 20) + 4096 \<le> 2 ^ 32"
        using Cons.prems(2) unat_add_of_nat [of ?a 20] by simp
      then have "unat ?p < 4096" by (rule padding_props(1))
      then have ps: "unat (?p + sz) = unat ?p + unat sz"
        using sz(2) unat_add_of_nat [of ?p "unat sz"] by simp
      have "bsz < ?p + sz \<or> (0 < ?p \<and> \<not> 20 < ?p)"
        using False True ps by (auto simp: word_less_nat_alt unat_gt_0)
      then show ?thesis using f(1) hd True
        by (subst kmalloc_walk.simps) (auto simp: Let_def padding_def split: if_splits)
    qed
    moreover have "take_block ?a (y # ys) sz al =
        map_option (\<lambda>(bs', q). ((bsz, h) # bs', q)) (take_block (?a + 20 + bsz) ys sz al)"
      using False y by (auto simp: Let_def)
    ultimately show ?thesis
      using ih [unfolded next_a] y by (cases "take_block (?a + 20 + bsz) ys sz al") auto
  qed
qed

section \<open>Freeing\<close>

text \<open>Both merges of \<^verbatim>\<open>kfree\<close> absorb the block \<open>b\<close> into the block \<open>a\<close> in front of it.\<close>

definition absorb :: "u32 \<Rightarrow> u32 \<Rightarrow> mem \<Rightarrow> mem" where
  "absorb a b m =
     (let nxt = hdr_next m b;
          m = set_next a nxt (set_size a (hdr_size m a + (hdr_size m b + 20)) m)
      in if nxt \<noteq> 0 then set_prev nxt a m else m)"

lemma absorb_headers:
  fixes m :: mem and a b :: u32
  defines "nxt \<equiv> hnext (get_header m b)"
  assumes B: "\<And>x y. x \<in> B \<Longrightarrow> y \<in> B \<Longrightarrow> apart x y" "a \<in> B" "nxt \<noteq> 0 \<Longrightarrow> nxt \<in> B"
    and ne: "nxt \<noteq> a" and c: "c \<in> B"
  shows "get_header (absorb a b m) c =
    (if c = a then (get_header m a)\<lparr>hsize := hsize (get_header m a) + (hsize (get_header m b) + 20), hnext := nxt\<rparr>
     else if nxt \<noteq> 0 \<and> c = nxt then (get_header m c)\<lparr>hprev := a\<rparr>
     else get_header m c)"
proof -
  have ab: "absorb a b m = (if nxt \<noteq> 0 then set_prev nxt a (set_next a nxt (set_size a
      (hsize (get_header m a) + (hsize (get_header m b) + 20)) m))
    else set_next a nxt (set_size a (hsize (get_header m a) + (hsize (get_header m b) + 20)) m))"
    by (simp add: absorb_def hdr_get Let_def nxt_def)
  show ?thesis using ne c B by (simp add: ab get_header_set)
qed

lemma absorb_bytes:
  assumes "sep a 20 x 1" "hnext (get_header m b) \<noteq> 0 \<Longrightarrow> sep (hnext (get_header m b)) 20 x 1"
  shows "absorb a b m x = m x"
  using assms by (simp add: absorb_def hdr_get Let_def frame_simps)

lemma span_absorb:
  assumes "unat start + span (xs @ (s1, h1) # (s2, h2) # ys) \<le> 2 ^ 32"
  shows "span (xs @ (s1 + (s2 + 20), h1) # ys) = span (xs @ (s1, h1) # (s2, h2) # ys)"
proof -
  have "unat (s2 + 20) = unat s2 + 20" using assms unat_add_of_nat [of s2 20] by simp
  moreover have "unat (s1 + of_nat (unat (s2 + 20))) = unat s1 + unat (s2 + 20)"
    using assms calculation by (intro unat_add_of_nat) simp
  ultimately show ?thesis by simp
qed

lemma heap_absorb:
  assumes hp: "heap_at m start (xs @ (s1, h1) # (s2, h2) # ys)"
  defines "a \<equiv> start + of_nat (span xs)"
  shows "heap_at (absorb a (a + 20 + s1) m) start (xs @ (s1 + (s2 + 20), h1) # ys)"
    and "\<And>x. \<forall>b \<in> set (heads start (xs @ (s1, h1) # (s2, h2) # ys)). sep b 20 x 1 \<Longrightarrow>
       absorb a (a + 20 + s1) m x = m x"
proof -
  let ?H = "get_header m" and ?b = "a + 20 + s1" and ?c = "a + 20 + s1 + 20 + s2"
  let ?m = "absorb a ?b m"
  let ?old = "xs @ (s1, h1) # (s2, h2) # ys" and ?new = "xs @ (s1 + (s2 + 20), h1) # ys"
  have bound: "unat start + span ?old \<le> 2 ^ 32" using hp by (simp add: heap_at_def)
  obtain p n1 q where f: "seg ?H 0 start xs p a" "a \<noteq> 0" "?H a = block_header (s1, h1) n1 p"
    "n1 = 0 \<and> (s2, h2) # ys = [] \<or> n1 \<noteq> 0 \<and> n1 = a + 20 + fst (s1, h1) \<and> (s2, h2) # ys \<noteq> []"
    "seg ?H a n1 ((s2, h2) # ys) q 0"
    by (rule heap_at_focus [OF hp, folded a_def])
  then have n1: "n1 = ?b" by simp
  with f(5) obtain nxt where g: "?b \<noteq> 0" "?H ?b = block_header (s2, h2) nxt a" "nxt = 0 \<or> nxt = ?c"
    "seg ?H ?b nxt ys q 0" by auto
  have nys: "nxt = 0 \<longleftrightarrow> ys = []" using g(4) seg_0 [of ?H ?b ys q 0] by auto
  have hd: "heads start ?old = heads start xs @ a # ?b # heads ?c ys"
    by (simp add: heads_append a_def)
  have hdn: "heads start ?new = heads start xs @ a # heads ?c ys"
    by (simp add: heads_append a_def algebra_simps)
  have dist: "distinct (heads start xs @ a # ?b # heads ?c ys)"
    using heads_distinct [OF bound] unfolding hd .
  have nin: "nxt \<in> set (heads ?c ys)" if "nxt \<noteq> 0" using g(3) nys that by (cases ys) auto
  have ne: "nxt \<noteq> a" using nin dist f(2) by auto
  have nx: "hnext (?H ?b) = nxt" using g(2) by (simp add: block_header_def)
  have H': "get_header ?m c = (if c = a then block_header (s1 + (s2 + 20), h1) nxt p
      else if nxt \<noteq> 0 \<and> c = nxt then (?H c)\<lparr>hprev := a\<rparr> else ?H c)" if "c \<in> set (heads start ?old)" for c
  proof -
    have "get_header ?m c = (if c = a then (?H a)\<lparr>hsize := hsize (?H a) + (hsize (?H ?b) + 20), hnext := hnext (?H ?b)\<rparr>
       else if hnext (?H ?b) \<noteq> 0 \<and> c = hnext (?H ?b) then (?H c)\<lparr>hprev := a\<rparr> else ?H c)"
      using that nin ne nx
      by (intro absorb_headers [where B = "set (heads start ?old)"] heads_apart [OF bound])
         (auto simp: hd)
    then show ?thesis by (simp add: f(3) g(2) block_header_def)
  qed
  have pre: "seg (get_header ?m) 0 start xs p a"
  proof (rule seg_cong [OF f(1)])
    fix x assume x: "x \<in> set (heads start xs)"
    then have "x \<noteq> a" "nxt \<noteq> 0 \<longrightarrow> x \<noteq> nxt" using dist nin by auto
    then show "?H x = get_header ?m x" using H' [of x] x by (auto simp: hd)
  qed
  have suf: "seg (get_header ?m) a nxt ys (if ys = [] then a else q) 0"
  proof (cases ys)
    case Nil
    then show ?thesis using nys by simp
  next
    case (Cons y zs)
    then have nc: "nxt = ?c" "nxt \<noteq> 0" using g(3) nys by auto
    have "seg (get_header ?m) a nxt (y # zs) q 0"
    proof (rule seg_reparent)
      show "seg ?H ?b nxt (y # zs) q 0" using g(4) Cons by simp
      show "get_header ?m nxt = (?H nxt)\<lparr>hprev := a\<rparr>" using H' [of nxt] nin nc ne by (simp add: hd)
      fix x assume x: "x \<in> set (heads (nxt + 20 + fst y) zs)"
      then have "x \<noteq> a" "x \<noteq> nxt" "x \<in> set (heads start ?old)"
        using dist hd unfolding Cons nc(1) by auto
      then show "?H x = get_header ?m x" using H' [of x] by simp
    qed
    then show ?thesis using Cons by simp
  qed
  have "get_header ?m a = block_header (s1 + (s2 + 20), h1) nxt p" using H' [of a] by (simp add: hd)
  moreover have "nxt = 0 \<or> nxt = a + 20 + fst (s1 + (s2 + 20), h1)" using g(3) by (auto simp: algebra_simps)
  ultimately have "seg (get_header ?m) p a ((s1 + (s2 + 20), h1) # ys) (if ys = [] then a else q) 0"
    using suf by (rule seg_ConsI [OF f(2), of "get_header ?m"])
  moreover have "unat start + span ?new \<le> 2 ^ 32"
    using bound span_absorb [of start xs s1 h1 s2 h2 ys] by simp
  ultimately show "heap_at ?m start ?new" by (rule heap_atI [OF _ pre, rotated])
  show "?m x = m x" if x: "\<forall>b \<in> set (heads start ?old). sep b 20 x 1" for x
    using x nin nx by (intro absorb_bytes) (auto simp: hd)
qed

lemma merge_forward_absorb:
  assumes "apart h (hdr_next m h)" "apart (hdr_next m h) h" "hdr_next m h \<noteq> h"
  shows "merge_forward h m = (if hdr_next m h \<noteq> 0 \<and> hdr_is_hole m (hdr_next m h) \<noteq> 0 then absorb h (hdr_next m h) m else m)"
  using assms by (auto simp: merge_forward_def absorb_def hdr_get Let_def get_header_set apart_def)

lemma merge_backward_absorb:
  assumes "apart h (hdr_prev m h)" "apart (hdr_prev m h) h" "hdr_prev m h \<noteq> h"
  shows "merge_backward h m = (if hdr_prev m h \<noteq> 0 \<and> hdr_is_hole m (hdr_prev m h) \<noteq> 0 then absorb (hdr_prev m h) h m else m)"
  using assms by (auto simp: merge_backward_def absorb_def hdr_get Let_def get_header_set apart_def)

text \<open>What freeing the block between \<open>xs\<close> and \<open>ys\<close> does to the list of blocks.\<close>

definition join_next :: "u32 \<Rightarrow> block list \<Rightarrow> block list" where
  "join_next sz ys = (case ys of (s2, True) # zs \<Rightarrow> (sz + (s2 + 20), True) # zs | _ \<Rightarrow> (sz, True) # ys)"

definition join_prev :: "block list \<Rightarrow> block list \<Rightarrow> block list" where
  "join_prev xs ys =
     (if xs \<noteq> [] \<and> snd (last xs) then butlast xs @ (fst (last xs) + (fst (hd ys) + 20), True) # tl ys else xs @ ys)"

definition release :: "block list \<Rightarrow> u32 \<Rightarrow> block list \<Rightarrow> block list" where
  "release xs sz ys = join_prev xs (join_next sz ys)"

lemma heap_heads_apart:
  "heap_at m start bs \<Longrightarrow> x \<in> set (heads start bs) \<Longrightarrow> y \<in> set (heads start bs) \<Longrightarrow> apart x y"
  unfolding heap_at_def using heads_apart by blast

lemma merge_forward_refines:
  assumes hp: "heap_at m start (xs @ (sz, True) # ys)"
  defines "a \<equiv> start + of_nat (span xs)"
  shows "heap_at (merge_forward a m) start (xs @ join_next sz ys)"
    and "\<And>x. \<forall>b \<in> set (heads start (xs @ (sz, True) # ys)). sep b 20 x 1 \<Longrightarrow> merge_forward a m x = m x"
proof -
  obtain p nxt q where f: "get_header m a = block_header (sz, True) nxt p" "a \<noteq> 0"
    "nxt = 0 \<and> ys = [] \<or> nxt \<noteq> 0 \<and> nxt = a + 20 + sz \<and> ys \<noteq> []" "seg (get_header m) a nxt ys q 0"
    by (rule heap_at_focus [OF hp, folded a_def]) (rule that, simp_all)
  have nx: "hdr_next m a = nxt" using f(1) by (simp add: hdr_get block_header_def)
  have "heap_at (merge_forward a m) start (xs @ join_next sz ys) \<and>
    (\<forall>x. (\<forall>b \<in> set (heads start (xs @ (sz, True) # ys)). sep b 20 x 1) \<longrightarrow> merge_forward a m x = m x)"
  proof (cases ys)
    case Nil
    then have "merge_forward a m = m" using f(3) nx by (simp add: merge_forward_def)
    then show ?thesis using hp Nil by (simp add: join_next_def)
  next
    case (Cons y zs)
    obtain s2 h2 where y: "y = (s2, h2)" by fastforce
    have nc: "nxt = a + 20 + sz" "nxt \<noteq> 0" using f(3) Cons by auto
    obtain n' where hn: "get_header m nxt = block_header y n' a"
      using f(4) Cons by auto
    have ho: "hdr_is_hole m nxt = (if h2 then 1 else 0)" by (simp add: hdr_get hn y block_header_def)
    have inh: "a \<in> set (heads start (xs @ (sz, True) # ys))" "nxt \<in> set (heads start (xs @ (sz, True) # ys))"
      using nc(1) by (simp_all add: heads_append a_def Cons)
    have "distinct (heads start (xs @ (sz, True) # ys))"
      using hp heads_distinct by (simp add: heap_at_def)
    then have "nxt \<noteq> a" using nc(1) by (simp add: heads_append a_def Cons)
    then have mf: "merge_forward a m = (if h2 then absorb a nxt m else m)"
      using merge_forward_absorb [of a m] heap_heads_apart [OF hp inh] heap_heads_apart [OF hp inh(2,1)] nx nc(2) ho
      by simp
    show ?thesis
    proof (cases h2)
      case True
      have hp': "heap_at m start (xs @ (sz, True) # (s2, True) # zs)" using hp Cons y True by simp
      show ?thesis
        using heap_absorb [OF hp', folded a_def] mf True nc(1) Cons y by (simp add: join_next_def)
    next
      case False
      then show ?thesis using mf hp Cons y by (simp add: join_next_def)
    qed
  qed
  then show "heap_at (merge_forward a m) start (xs @ join_next sz ys)"
    "\<And>x. \<forall>b \<in> set (heads start (xs @ (sz, True) # ys)). sep b 20 x 1 \<Longrightarrow> merge_forward a m x = m x" by auto
qed

lemma merge_backward_refines:
  assumes hp: "heap_at m start (xs @ (sz, True) # ys)"
  defines "a \<equiv> start + of_nat (span xs)"
  shows "heap_at (merge_backward a m) start (join_prev xs ((sz, True) # ys))"
    and "\<And>x. \<forall>b \<in> set (heads start (xs @ (sz, True) # ys)). sep b 20 x 1 \<Longrightarrow> merge_backward a m x = m x"
proof -
  obtain p nxt q where f: "seg (get_header m) 0 start xs p a" "get_header m a = block_header (sz, True) nxt p" "a \<noteq> 0"
    using heap_at_focus [OF hp] unfolding a_def by metis
  have pv: "hdr_prev m a = p" using f(2) by (simp add: hdr_get block_header_def)
  have "heap_at (merge_backward a m) start (join_prev xs ((sz, True) # ys)) \<and>
    (\<forall>x. (\<forall>b \<in> set (heads start (xs @ (sz, True) # ys)). sep b 20 x 1) \<longrightarrow> merge_backward a m x = m x)"
  proof (cases xs rule: rev_cases)
    case Nil
    then have "p = 0" using f(1) by simp
    then have "merge_backward a m = m" using pv by (simp add: merge_backward_def)
    then show ?thesis using hp Nil by (simp add: join_prev_def)
  next
    case (snoc ws y)
    obtain s0 h0 where y: "y = (s0, h0)" by fastforce
    have hp': "heap_at m start (ws @ (s0, h0) # (sz, True) # ys)" using hp snoc y by simp
    let ?b = "start + of_nat (span ws)"
    obtain p0 n0 where g: "?b \<noteq> 0" "get_header m ?b = block_header (s0, h0) n0 p0"
      using heap_at_focus [OF hp'] by metis
    have a: "a = ?b + 20 + s0" using snoc y by (simp add: a_def algebra_simps)
    have "p = ?b"
    proof -
      from f(1) snoc obtain q' b' where "seg (get_header m) 0 start ws q' b'" "seg (get_header m) q' b' [y] p a"
        by (auto simp: seg_append)
      then show ?thesis using seg_end by auto
    qed
    have inh: "a \<in> set (heads start (xs @ (sz, True) # ys))" "?b \<in> set (heads start (xs @ (sz, True) # ys))"
      using snoc y by (simp_all add: heads_append a_def)
    have "distinct (heads start (ws @ (s0, h0) # (sz, True) # ys))"
      using hp' heads_distinct by (simp add: heap_at_def)
    then have "?b \<noteq> a" unfolding a by (simp add: heads_append)
    then have mb: "merge_backward a m = (if h0 then absorb ?b a m else m)"
      using merge_backward_absorb [of a m] heap_heads_apart [OF hp inh] heap_heads_apart [OF hp inh(2,1)] pv \<open>p = ?b\<close> g
      by (simp add: hdr_get block_header_def)
    show ?thesis
    proof (cases h0)
      case True
      then show ?thesis
        using heap_absorb [OF hp', folded a] mb snoc y by (simp add: join_prev_def)
    next
      case False
      then show ?thesis using mb hp snoc y by (simp add: join_prev_def)
    qed
  qed
  then show "heap_at (merge_backward a m) start (join_prev xs ((sz, True) # ys))"
    "\<And>x. \<forall>b \<in> set (heads start (xs @ (sz, True) # ys)). sep b 20 x 1 \<Longrightarrow> merge_backward a m x = m x" by auto
qed

lemma join_next_append: "join_next sz ys \<noteq> []"
  by (auto simp: join_next_def split: list.splits prod.splits bool.splits)

lemma kfree_refines:
  assumes hp: "heap_at m KHEAP_START (xs @ (sz, h) # ys)"
  defines "a \<equiv> KHEAP_START + of_nat (span xs)"
  assumes he: "a + 20 < heap_end" and lt: "unat KHEAP_START + span (xs @ (sz, h) # ys) < 2 ^ 32"
  obtains m' where "kfree heap_end (a + 20) m = (Freed, m')"
    and "heap_at m' KHEAP_START (release xs sz ys)"
    and "\<And>x. \<forall>b \<in> set (heads KHEAP_START (xs @ (sz, h) # ys)). sep b 20 x 1 \<Longrightarrow> m' x = m x"
proof -
  let ?m1 = "set_is_hole a 1 m"
  let ?m2 = "merge_forward a ?m1"
  let ?m3 = "merge_backward a ?m2"
  have bound: "unat KHEAP_START + span (xs @ (sz, h) # ys) \<le> 2 ^ 32" using hp by (simp add: heap_at_def)
  obtain nxt p where f: "get_header m a = block_header (sz, h) nxt p"
    using heap_at_focus [OF hp, folded a_def] by metis
  then have mg: "hdr_magic m a = KHEAP_MAGIC" by (simp add: hdr_get block_header_def)
  have ua: "unat a = unat KHEAP_START + span xs" unfolding a_def
    using bound by (intro unat_add_of_nat) simp
  then have "unat (a + 20) = unat a + 20" using lt unat_add_of_nat [of a 20] by simp
  then have "a + 20 \<noteq> 0 \<and> \<not> a + 20 < KHEAP_START"
    using ua by (auto simp: word_less_nat_alt unat_eq_zero [symmetric] simp del: unat_eq_zero)
  then have run: "kfree heap_end (a + 20) m = (Freed, ?m3)"
    using he mg by (simp add: kfree_def Let_def)
  have m1: "heap_at ?m1 KHEAP_START (xs @ (sz, True) # ys)"
    "\<And>x. \<forall>b \<in> set (heads KHEAP_START (xs @ (sz, h) # ys)). sep b 20 x 1 \<Longrightarrow> ?m1 x = m x"
    using heap_mark [OF hp, of True, folded a_def] by (simp_all add: heads_append)
  note m2 = merge_forward_refines [OF m1(1), folded a_def]
  obtain s1 zs where j: "join_next sz ys = (s1, True) # zs"
    and sub: "set (heads KHEAP_START (xs @ (s1, True) # zs)) \<subseteq> set (heads KHEAP_START (xs @ (sz, True) # ys))"
  proof (cases "\<exists>s2 zs. ys = (s2, True) # zs")
    case True
    then obtain s2 zs where "ys = (s2, True) # zs" by blast
    then show thesis by (intro that [of "sz + (s2 + 20)" zs]) (auto simp: join_next_def heads_append algebra_simps)
  next
    case False
    then have "join_next sz ys = (sz, True) # ys"
      by (auto simp: join_next_def split: list.splits prod.splits bool.splits)
    then show thesis by (intro that) auto
  qed
  note m3 = merge_backward_refines [OF m2(1) [unfolded j], folded a_def]
  have "?m3 x = m x" if x: "\<forall>b \<in> set (heads KHEAP_START (xs @ (sz, h) # ys)). sep b 20 x 1" for x
  proof -
    have x2: "\<forall>b \<in> set (heads KHEAP_START (xs @ (sz, True) # ys)). sep b 20 x 1" using x by (simp add: heads_append)
    then have x3: "\<forall>b \<in> set (heads KHEAP_START (xs @ (s1, True) # zs)). sep b 20 x 1" using sub by blast
    show ?thesis using m3(2) [OF x3] m2(2) [OF x2] m1(2) [OF x] by simp
  qed
  with run m3(1) show thesis by (intro that [of ?m3]) (simp_all add: release_def j)
qed

section \<open>Growing the last block\<close>

partial_function (option) last_block :: "mem \<Rightarrow> u32 \<Rightarrow> u32 option" where
  "last_block m h = (if hdr_next m h \<noteq> 0 then last_block m (hdr_next m h) else Some h)"

definition grow :: "u32 \<Rightarrow> u32 \<Rightarrow> u32 \<Rightarrow> mem \<Rightarrow> mem option" where
  "grow heap_start old_heap_end new_size m =
     (case last_block m heap_start of
        None \<Rightarrow> None
      | Some lst \<Rightarrow>
          if hdr_is_hole m lst \<noteq> 0 then Some (set_size lst (hdr_size m lst + new_size) m)
          else
            let new_hole = old_heap_end;
                m = set_magic new_hole KHEAP_MAGIC m;
                m = set_is_hole new_hole 1 m;
                m = set_size new_hole (new_size - 20) m;
                m = set_prev new_hole lst m;
                m = set_next new_hole 0 m
            in Some (set_next lst new_hole m))"

definition grown :: "block list \<Rightarrow> u32 \<Rightarrow> block list" where
  "grown bs n = (if snd (last bs) then butlast bs @ [(fst (last bs) + n, True)] else bs @ [(n - 20, True)])"

lemma last_block_seg:
  "seg (get_header m) p a (xs @ [x]) q 0 \<Longrightarrow> last_block m a = Some q"
proof (induction xs arbitrary: p a)
  case Nil
  then have "hnext (get_header m a) = 0" "q = a" by (auto simp: block_header_def)
  then show ?case by (subst last_block.simps) (simp add: hdr_get)
next
  case (Cons y ys)
  then obtain nxt where n: "get_header m a = block_header y nxt p" "seg (get_header m) a nxt (ys @ [x]) q 0" by auto
  then have "nxt \<noteq> 0" using seg_0 by blast
  moreover have "hdr_next m a = nxt" using n(1) by (simp add: hdr_get block_header_def)
  ultimately show ?case using Cons.IH [OF n(2)] by (subst last_block.simps) simp
qed

lemma grow_refines:
  assumes hp: "heap_at m start bs" and ne: "bs \<noteq> []" and n: "20 \<le> unat n"
    and bound: "unat start + span bs + unat n \<le> 2 ^ 32" and e: "old_end = start + of_nat (span bs)"
  obtains m' where "grow start old_end n m = Some m'" "heap_at m' start (grown bs n)"
    and "span (grown bs n) = span bs + unat n"
    and "\<And>x. \<forall>b \<in> set (heads start (grown bs n)). sep b 20 x 1 \<Longrightarrow> m' x = m x"
proof -
  obtain ws sz h where bs: "bs = ws @ [(sz, h)]" using ne by (metis prod.exhaust rev_exhaust)
  let ?H = "get_header m"
  let ?a = "start + of_nat (span ws)"
  obtain p nxt q where f: "seg ?H 0 start ws p ?a" "?a \<noteq> 0" "?H ?a = block_header (sz, h) nxt p" "nxt = 0"
    using heap_at_focus [of m start ws "(sz, h)" "[]"] hp unfolding bs by (metis list.distinct(1))
  have lb: "last_block m start = Some ?a"
  proof -
    have "seg ?H p ?a [(sz, h)] ?a 0" using f(2-4) by (intro seg_ConsI [of ?a ?H "(sz, h)" 0]) simp_all
    then have "seg ?H 0 start (ws @ [(sz, h)]) ?a 0" using f(1) by (auto simp: seg_append)
    then show ?thesis by (rule last_block_seg)
  qed
  have hd: "hdr_is_hole m ?a = (if h then 1 else 0)" "hdr_size m ?a = sz"
    using f(3) by (simp_all add: hdr_get block_header_def)
  have b0: "unat start + span bs \<le> 2 ^ 32" using bound by simp
  show thesis
  proof (cases h)
    case True
    let ?m = "set_size ?a (sz + n) m"
    have u: "unat (sz + n) = unat sz + unat n"
      using bound unat_add_of_nat [of sz "unat n"] by (simp add: bs)
    have g: "grown bs n = ws @ [(sz + n, True)]" using True by (simp add: grown_def bs)
    have hds: "heads start (grown bs n) = heads start ws @ [?a]" by (simp add: g heads_append)
    have H': "get_header ?m b = (if b = ?a then block_header (sz + n, True) 0 p else ?H b)"
      if "b \<in> set (heads start bs)" for b
      using that heads_apart [OF b0, of ?a b] f(3,4) True
      by (auto simp: get_header_set block_header_def bs heads_append)
    have "distinct (heads start bs)" using heads_distinct [OF b0] .
    then have pre: "seg (get_header ?m) 0 start ws p ?a"
      using f(1) by (intro seg_cong [OF f(1)]) (use H' in \<open>auto simp: bs heads_append\<close>)
    have suf: "seg (get_header ?m) p ?a [(sz + n, True)] ?a 0"
      using H' [of ?a] by (intro seg_ConsI [OF f(2), of "get_header ?m" _ 0]) (simp_all add: bs heads_append)
    have "heap_at ?m start (ws @ [(sz + n, True)])"
      by (rule heap_atI [OF _ pre suf]) (use bound u in \<open>simp add: bs\<close>)
    then have at: "heap_at ?m start (grown bs n)" by (simp only: g)
    have out: "?m x = m x" if "\<forall>b \<in> set (heads start (grown bs n)). sep b 20 x 1" for x
      using that by (intro set_field_other) (simp add: hds)
    have run: "grow start old_end n m = Some ?m" using lb hd True by (simp add: grow_def)
    have sp: "span (grown bs n) = span bs + unat n" unfolding g using u by (simp add: bs)
    show thesis by (rule that [OF run at sp out])
  next
    case False
    let ?n = "old_end"
    let ?m = "set_next ?a ?n (set_next ?n 0 (set_prev ?n ?a (set_size ?n (n - 20) (set_is_hole ?n 1 (set_magic ?n KHEAP_MAGIC m)))))"
    have g: "grown bs n = ws @ [(sz, False), (n - 20, True)]" using False by (simp add: grown_def bs)
    have en: "?n = ?a + 20 + sz" using e by (simp add: bs algebra_simps)
    have u: "unat (n - 20) = unat n - 20" using n by (subst unat_sub) (simp_all add: word_le_nat_alt)
    then have sp: "span (grown bs n) = span bs + unat n" unfolding g using n by (simp add: bs)
    then have bd: "unat start + span (grown bs n) \<le> 2 ^ 32" using bound by simp
    have hds: "heads start (grown bs n) = heads start ws @ [?a, ?n]" by (simp add: g heads_append en)
    have dist: "distinct (heads start ws @ [?a, ?n])" using heads_distinct [OF bd] unfolding hds .
    have un: "unat ?n = unat start + span bs"
      unfolding e using n bound by (intro unat_add_of_nat) simp
    then have nz: "?n \<noteq> 0" using f(2) span_pos [OF ne] by (auto simp: word_unat_eq_iff)
    have H': "get_header ?m b = (if b = ?n then block_header (n - 20, True) 0 ?a
        else if b = ?a then block_header (sz, False) ?n p else ?H b)"
      if "b \<in> set (heads start (grown bs n))" for b
      using that heads_apart [OF bd, of ?a b] heads_apart [OF bd, of ?n b] dist f(3) False
      by (auto simp: get_header_set block_header_def hds)
    have pre: "seg (get_header ?m) 0 start ws p ?a"
      by (rule seg_cong [OF f(1)]) (use H' dist hds in auto)
    have "seg (get_header ?m) ?a ?n [(n - 20, True)] ?n 0"
      using H' [of ?n] nz by (intro seg_ConsI [of ?n "get_header ?m" _ 0]) (simp_all add: hds)
    then have suf: "seg (get_header ?m) p ?a [(sz, False), (n - 20, True)] ?n 0"
      using H' [of ?a] dist en by (intro seg_ConsI [OF f(2), of "get_header ?m" _ ?n]) (simp_all add: hds)
    have "heap_at ?m start (ws @ [(sz, False), (n - 20, True)])"
      by (rule heap_atI [OF _ pre suf]) (use bd in \<open>simp add: g\<close>)
    then have at: "heap_at ?m start (grown bs n)" by (simp only: g)
    have out: "?m x = m x" if "\<forall>b \<in> set (heads start (grown bs n)). sep b 20 x 1" for x
      using that by (simp add: hds frame_simps)
    have run: "grow start old_end n m = Some ?m" using lb hd False by (simp add: grow_def Let_def)
    show thesis by (rule that [OF run at sp out])
  qed
qed

section \<open>The blocks in use\<close>

text \<open>Data address and size of every block in use.\<close>

primrec used :: "u32 \<Rightarrow> block list \<Rightarrow> (u32 \<times> u32) set" where
  "used a [] = {}"
| "used a (x # xs) = (if snd x then {} else {(a + 20, fst x)}) \<union> used (a + 20 + fst x) xs"

text \<open>No two holes are adjacent: merging is never left undone.\<close>

fun merged :: "block list \<Rightarrow> bool" where
  "merged (x # y # zs) \<longleftrightarrow> \<not> (snd x \<and> snd y) \<and> merged (y # zs)"
| "merged _ \<longleftrightarrow> True"

lemma used_append: "used a (xs @ ys) = used a xs \<union> used (a + of_nat (span xs)) ys"
  by (induction xs arbitrary: a) (auto simp: algebra_simps)

lemma used_heads: "(p, z) \<in> used a xs \<Longrightarrow> p - 20 \<in> set (heads a xs)"
  by (induction xs arbitrary: a) (auto split: if_splits)

lemma used_range:
  "(p, z) \<in> used a xs \<Longrightarrow> unat a + span xs < 2 ^ 32 \<Longrightarrow>
     unat a + 20 \<le> unat p \<and> unat p + unat z \<le> unat a + span xs"
proof (induction xs arbitrary: a)
  case Nil
  then show ?case by simp
next
  case (Cons x xs)
  have u20: "unat (a + 20) = unat a + 20"
    using Cons.prems(2) unat_add_of_nat [of a 20] by simp
  have u: "unat (a + 20 + fst x) = unat a + 20 + unat (fst x)"
    using Cons.prems(2) unat_add_of_nat [of a "20 + unat (fst x)"] by (simp add: add.assoc)
  show ?case
  proof (cases "(p, z) \<in> used (a + 20 + fst x) xs")
    case True
    then show ?thesis using Cons.IH [OF True] Cons.prems(2) u by simp
  next
    case False
    then have "p = a + 20" "z = fst x" using Cons.prems(1) by (auto split: if_splits)
    then show ?thesis using u20 by simp
  qed
qed

text \<open>The data of a block in use meets no header and no other block.\<close>

lemma used_sep_heads:
  "(p, z) \<in> used a xs \<Longrightarrow> unat a + span xs < 2 ^ 32 \<Longrightarrow> b \<in> set (heads a xs) \<Longrightarrow> sep b 20 p (unat z)"
proof (induction xs arbitrary: a)
  case Nil
  then show ?case by simp
next
  case (Cons x xs)
  have u20: "unat (a + 20) = unat a + 20"
    using Cons.prems(2) unat_add_of_nat [of a 20] by simp
  have u: "unat (a + 20 + fst x) = unat a + 20 + unat (fst x)"
    using Cons.prems(2) unat_add_of_nat [of a "20 + unat (fst x)"] by (simp add: add.assoc)
  have rest: "unat (a + 20 + fst x) + span xs < 2 ^ 32" using Cons.prems(2) u by simp
  show ?case
  proof (cases "(p, z) \<in> used (a + 20 + fst x) xs")
    case True
    have "unat a + 40 + unat (fst x) \<le> unat p" "unat p + unat z < 2 ^ 32"
      using used_range [OF True rest] rest u by auto
    then have "sep a 20 p (unat z)" by (intro sep_ordered) auto
    then show ?thesis using Cons.IH [OF True rest] Cons.prems(3) by auto
  next
    case False
    then have p: "p = a + 20" "z = fst x" using Cons.prems(1) by (auto split: if_splits)
    show ?thesis
    proof (cases "b = a")
      case True
      then show ?thesis using p u20 Cons.prems(2) by (intro sep_ordered) auto
    next
      case False
      then have b: "b \<in> set (heads (a + 20 + fst x) xs)" using Cons.prems(3) by simp
      have "unat a + 20 + unat (fst x) \<le> unat b \<and> unat b + 20 \<le> 2 ^ 32"
        using heads_range [OF b] rest u by simp
      then show ?thesis using p u20 Cons.prems(2) by (intro sep_ordered) auto
    qed
  qed
qed

lemma used_disjoint:
  "(p, z) \<in> used a xs \<Longrightarrow> (p', z') \<in> used a xs \<Longrightarrow> unat a + span xs < 2 ^ 32 \<Longrightarrow>
     (p, z) \<noteq> (p', z') \<Longrightarrow> p \<noteq> p' \<and> sep p (unat z) p' (unat z')"
proof (induction xs arbitrary: a)
  case Nil
  then show ?case by simp
next
  case (Cons x xs)
  have u20: "unat (a + 20) = unat a + 20"
    using Cons.prems(3) unat_add_of_nat [of a 20] by simp
  have u: "unat (a + 20 + fst x) = unat a + 20 + unat (fst x)"
    using Cons.prems(3) unat_add_of_nat [of a "20 + unat (fst x)"] by (simp add: add.assoc)
  have rest: "unat (a + 20 + fst x) + span xs < 2 ^ 32" using Cons.prems(3) u by simp
  have first: "a + 20 \<noteq> q \<and> sep (a + 20) (unat (fst x)) q (unat w)" if q: "(q, w) \<in> used (a + 20 + fst x) xs" for q w
  proof -
    have r: "unat a + 40 + unat (fst x) \<le> unat q" "unat q + unat w < 2 ^ 32"
      using used_range [OF q rest] rest u by auto
    then have "sep (a + 20) (unat (fst x)) q (unat w)" using u20 Cons.prems(3) by (intro sep_ordered) auto
    moreover have "a + 20 \<noteq> q" using r u20 by auto
    ultimately show ?thesis by simp
  qed
  consider "(p, z) \<in> used (a + 20 + fst x) xs" "(p', z') \<in> used (a + 20 + fst x) xs"
    | "(p, z) = (a + 20, fst x)" "(p', z') \<in> used (a + 20 + fst x) xs"
    | "(p, z) \<in> used (a + 20 + fst x) xs" "(p', z') = (a + 20, fst x)"
    using Cons.prems(1,2,4) by (auto split: if_splits)
  then show ?case
  proof cases
    case 1
    then show ?thesis using Cons.IH [OF _ _ rest Cons.prems(4)] by simp
  next
    case 2
    then show ?thesis using first by simp
  next
    case 3
    then show ?thesis using first [of p z] sep_commute [of p "unat z" "a + 20" "unat (fst x)"] by auto
  qed
qed

section \<open>What an allocation and a release do to the blocks in use\<close>

lemma cut_props:
  assumes "unat sz \<le> unat b"
  shows "\<exists>z. used a (cut_block b sz @ ys) = insert (a + 20, z) (used (a + 20 + b) ys) \<and> unat sz \<le> unat z \<and>
    span (cut_block b sz @ ys) = 20 + unat b + span ys"
proof (cases "unat sz + 20 < unat b")
  case True
  have s: "unat (b - sz) = unat b - unat sz" using assms by (intro unat_sub) (simp add: word_le_nat_alt)
  then have "unat (b - sz - 20) = unat b - unat sz - 20"
    using True by (subst unat_sub) (simp_all add: word_le_nat_alt)
  then show ?thesis using True by (intro exI [of _ sz]) (simp add: cut_block_def algebra_simps)
next
  case False
  then show ?thesis using assms by (intro exI [of _ b]) (simp add: cut_block_def)
qed

lemma take_block_used:
  "take_block a ys sz al = Some (ys', p) \<Longrightarrow> unat a + span ys + 4096 \<le> 2 ^ 32 \<Longrightarrow>
     span ys' = span ys \<and> (\<exists>z. used a ys' = insert (p, z) (used a ys) \<and> unat sz \<le> unat z \<and>
       (\<forall>w. (p, w) \<notin> used a ys)) \<and> (al \<longrightarrow> page_base p = p)"
proof (induction ys arbitrary: a ys' p)
  case Nil
  then show ?case by simp
next
  case (Cons y ys)
  obtain b h where y: "y = (b, h)" by fastforce
  let ?p = "padding (a + 20) al"
  have u20: "unat (a + 20) = unat a + 20"
    using Cons.prems(2) unat_add_of_nat [of a 20] by simp
  have u: "unat (a + 20 + b) = unat a + 20 + unat b"
    using Cons.prems(2) y unat_add_of_nat [of a "20 + unat b"] by (simp add: add.assoc)
  have rest: "unat (a + 20 + b) + span ys + 4096 \<le> 2 ^ 32" using Cons.prems(2) u y by simp
  have far: "(q, w) \<notin> used (a + 20 + b) ys" if "unat q < unat a + 40 + unat b" for q w
    using used_range [of q w "a + 20 + b" ys] rest that u by fastforce
  show ?case
  proof (cases "h \<and> unat ?p + unat sz \<le> unat b \<and> (?p = 0 \<or> 20 < unat ?p)")
    case True
    have pp: "unat (a + 20 + ?p) = unat a + 20 + unat ?p" "al \<Longrightarrow> page_base (a + 20 + ?p) = a + 20 + ?p"
      using padding_props [of "a + 20" al] Cons.prems(2) u20 by simp_all
    have p: "p = a + 20 + ?p" using Cons.prems(1) True y by (auto simp: Let_def split: if_splits)
    have fresh: "(p, w) \<notin> used a (y # ys)" for w
      using far [of p w] True pp(1) y by (auto simp: p)
    show ?thesis
    proof (cases "?p = 0")
      case z: True
      have ys': "ys' = cut_block b sz @ ys" using Cons.prems(1) True y z by (simp add: Let_def)
      have "unat sz \<le> unat b" using True by simp
      then obtain z where "used a (cut_block b sz @ ys) = insert (a + 20, z) (used (a + 20 + b) ys)" "unat sz \<le> unat z"
        "span (cut_block b sz @ ys) = 20 + unat b + span ys"
        using cut_props by metis
      then show ?thesis using True y z fresh pp(2) by (auto simp: ys' p)
    next
      case False
      have p20: "20 < unat ?p" using True False by simp
      have s20: "unat (?p - 20) = unat ?p - 20" using p20 by (subst unat_sub) (simp_all add: word_le_nat_alt)
      have sb: "unat (b - ?p) = unat b - unat ?p" using True by (subst unat_sub) (simp_all add: word_le_nat_alt)
      have ys': "ys' = (?p - 20, True) # cut_block (b - ?p) sz @ ys" using Cons.prems(1) True y False by (simp add: Let_def)
      have "unat sz \<le> unat (b - ?p)" using True unfolding sb by arith
      then obtain z where "used (a + ?p) (cut_block (b - ?p) sz @ ys) = insert (a + ?p + 20, z) (used (a + ?p + 20 + (b - ?p)) ys)"
        "unat sz \<le> unat z" "span (cut_block (b - ?p) sz @ ys) = 20 + unat (b - ?p) + span ys"
        using cut_props by metis
      moreover have "a + ?p + 20 = p" "a + ?p + 20 + (b - ?p) = a + 20 + b" by (simp_all add: p algebra_simps)
      moreover have "used a ys' = used (a + ?p) (cut_block (b - ?p) sz @ ys)" by (simp add: ys')
      moreover have "used a (y # ys) = used (a + 20 + b) ys" using True y by simp
      ultimately show ?thesis using True y fresh pp(2) s20 sb p20
        by (intro conjI exI [of _ z]) (simp_all add: ys' p algebra_simps)
    qed
  next
    case False
    then obtain ys1 where t: "take_block (a + 20 + b) ys sz al = Some (ys1, p)" and ys': "ys' = (b, h) # ys1"
      using Cons.prems(1) y by (auto simp: Let_def)
    from Cons.IH [OF t rest] obtain z where ih: "span ys1 = span ys" "used (a + 20 + b) ys1 = insert (p, z) (used (a + 20 + b) ys)"
      "unat sz \<le> unat z" "\<forall>w. (p, w) \<notin> used (a + 20 + b) ys" "al \<longrightarrow> page_base p = p" by auto
    have "(p, z) \<in> used (a + 20 + b) ys1" using ih(2) by simp
    then have "unat a + 40 + unat b \<le> unat p" using used_range rest ih(1) u by fastforce
    then have "p \<noteq> a + 20" using u20 by auto
    then show ?thesis using ih y by (auto simp: ys')
  qed
qed

lemma join_next_used:
  "used a (join_next sz ys) = used (a + 20 + sz) ys"
  by (auto simp: join_next_def algebra_simps split: list.splits prod.splits bool.splits)

lemma join_next_shape: "\<exists>s1 zs. join_next sz ys = (s1, True) # zs"
proof (cases ys)
  case Nil
  then show ?thesis by (simp add: join_next_def)
next
  case (Cons y zs)
  then show ?thesis by (cases y; cases "snd y") (auto simp: join_next_def)
qed

lemma release_used:
  "used a (release xs sz ys) = used a xs \<union> used (a + of_nat (span xs) + 20 + sz) ys"
proof (cases "xs \<noteq> [] \<and> snd (last xs)")
  case False
  then have "release xs sz ys = xs @ join_next sz ys" by (auto simp: release_def join_prev_def)
  then show ?thesis by (simp add: used_append join_next_used)
next
  case True
  then obtain ws s0 where xs: "xs = ws @ [(s0, True)]" by (metis append_butlast_last_id prod.collapse)
  obtain s1 zs where j: "join_next sz ys = (s1, True) # zs" using join_next_shape by blast
  let ?A = "a + of_nat (span ws)"
  have "used a (release xs sz ys) = used a ws \<union> used (?A + 20 + (s0 + (s1 + 20))) zs"
    by (simp add: release_def join_prev_def j xs used_append)
  also have "?A + 20 + (s0 + (s1 + 20)) = ?A + 20 + s0 + 20 + s1" by simp
  also have "used (?A + 20 + s0 + 20 + s1) zs = used (?A + 20 + s0 + 20 + sz) ys"
    using join_next_used [of "?A + 20 + s0" sz ys] by (simp add: j)
  also have "?A + 20 + s0 = a + of_nat (span xs)" by (simp add: xs algebra_simps)
  also have "used a ws = used a xs" by (simp add: xs used_append)
  finally show ?thesis .
qed

lemma merged_append:
  "merged (xs @ ys) \<longleftrightarrow> merged xs \<and> merged ys \<and> (xs \<noteq> [] \<and> ys \<noteq> [] \<longrightarrow> \<not> (snd (last xs) \<and> snd (hd ys)))"
  by (induction xs rule: merged.induct; cases ys) auto

text \<open>The blocks in use and the end of the heap determine the list of blocks, for no two holes are adjacent.\<close>

lemma step_unat_less: "unat a + span (x # xs) < 2 ^ 32 \<Longrightarrow> unat (a + 20 + fst x) = unat a + 20 + unat (fst x)"
  using unat_add_of_nat [of a "20 + unat (fst x)"] by (simp add: add.assoc)

text \<open>The first block in use lies behind at most one hole, so it tells how large the hole is.\<close>

lemma used_first:
  assumes "unat a + span (x # xs) < 2 ^ 32" "merged (x # xs)" "snd x" "xs \<noteq> []"
  shows "\<exists>p z. (p, z) \<in> used a (x # xs) \<and> unat p = unat a + 40 + unat (fst x)"
    "(p, z) \<in> used a (x # xs) \<Longrightarrow> unat a + 40 + unat (fst x) \<le> unat p"
proof -
  obtain y ys where y: "xs = y # ys" "\<not> snd y" using assms(2,3,4) by (cases xs) auto
  have s: "unat (a + 20 + fst x) = unat a + 20 + unat (fst x)" by (rule step_unat_less [OF assms(1)])
  have "unat (a + 20 + fst x + 20) = unat a + 40 + unat (fst x)"
    using assms(1) s unat_add_of_nat [of "a + 20 + fst x" 20] by (simp add: y)
  moreover have "(a + 20 + fst x + 20, fst y) \<in> used a (x # xs)" using y by simp
  ultimately show "\<exists>p z. (p, z) \<in> used a (x # xs) \<and> unat p = unat a + 40 + unat (fst x)" by blast
  show "unat a + 40 + unat (fst x) \<le> unat p" if "(p, z) \<in> used a (x # xs)"
  proof -
    have "(p, z) \<in> used (a + 20 + fst x) xs" using that assms(3) by simp
    from used_range [OF this] show ?thesis using assms(1) s by simp
  qed
qed

lemma merged_unique:
  "merged bs \<Longrightarrow> merged cs \<Longrightarrow> used a bs = used a cs \<Longrightarrow> span bs = span cs \<Longrightarrow> unat a + span bs < 2 ^ 32 \<Longrightarrow> bs = cs"
proof (induction bs arbitrary: a cs)
  case Nil
  then show ?case using span_pos [of cs] by auto
next
  case (Cons x xs)
  then obtain y ys where cs: "cs = y # ys" by (cases cs) auto
  have b: "unat a + span (x # xs) < 2 ^ 32" "unat a + span (y # ys) < 2 ^ 32" using Cons.prems(4,5) by (simp_all add: cs)
  have m: "merged xs" "merged ys" using Cons.prems(1,2) cs by (auto elim: merged.elims)
  have far: "(a + 20, w) \<notin> used (a + 20 + fst v) vs" if v: "unat a + span (v # vs) < 2 ^ 32" for v vs w
  proof
    assume "(a + 20, w) \<in> used (a + 20 + fst v) vs"
    from used_range [OF this] show False using v step_unat_less [OF v] unat_add_of_nat [of a 20] by simp
  qed
  have rest: ?case if "fst x = fst y" "snd x = snd y"
  proof -
    have "used (a + 20 + fst x) xs = used (a + 20 + fst x) ys"
      using Cons.prems(3) far [OF b(1)] far [OF b(2)] that by (simp add: cs insert_ident split: if_splits)
    moreover have "unat (a + 20 + fst x) + span xs < 2 ^ 32" using b(1) step_unat_less [OF b(1)] by simp
    moreover have "span xs = span ys" using Cons.prems(4) that(1) by (simp add: cs)
    ultimately show ?thesis using Cons.IH [OF m] that by (simp add: cs prod_eq_iff)
  qed
  have eq: "used a (x # xs) = used a (y # ys)" using Cons.prems(3) by (simp add: cs)
  show ?case
  proof (cases "snd x = snd y")
    case False
    then have "(\<exists>w. (a + 20, w) \<in> used a (x # xs)) \<noteq> (\<exists>w. (a + 20, w) \<in> used a (y # ys))"
      using far [OF b(1)] far [OF b(2)] by auto
    then show ?thesis unfolding eq by blast
  next
    case same: True
    show ?thesis
    proof (cases "snd x")
      case False
      then have "(a + 20, fst x) \<in> used a (y # ys)" unfolding eq [symmetric] by simp
      then have "fst x = fst y" using far [OF b(2)] False same by auto
      then show ?thesis by (rule rest) (rule same)
    next
      case True
      have "fst x = fst y"
      proof (cases "xs = [] \<or> ys = []")
        case True
        then have e: "xs = [] \<and> ys = []"
          using used_first(1) [OF b(1) Cons.prems(1) \<open>snd x\<close>] used_first(1) [OF b(2) Cons.prems(2) [unfolded cs]] eq same \<open>snd x\<close>
          by (cases "xs = []"; cases "ys = []") auto
        then show ?thesis using Cons.prems(4) by (simp add: cs word_unat_eq_iff)
      next
        case False
        then have n: "xs \<noteq> []" "ys \<noteq> []" by simp_all
        have h: "snd x" "snd y" using True same by simp_all
        note f = used_first [OF b(1) Cons.prems(1) h(1) n(1)] and g = used_first [OF b(2) Cons.prems(2) [unfolded cs] h(2) n(2)]
        have "unat (fst x) \<le> unat (fst y)" using g(1) f(2) unfolding eq by fastforce
        moreover have "unat (fst y) \<le> unat (fst x)" using f(1) g(2) unfolding eq by fastforce
        ultimately have "unat (fst x) = unat (fst y)" by simp
        then show ?thesis by (simp add: word_unat_eq_iff)
      qed
      then show ?thesis by (rule rest) (rule same)
    qed
  qed
qed

lemma merged_release:
  assumes "merged (xs @ (sz, False) # ys)"
  shows "merged (release xs sz ys)"
proof -
  have m: "merged xs" "merged ys" using assms by (simp_all add: merged_append) (cases ys; auto)
  have j: "merged (join_next sz ys)" "snd (hd (join_next sz ys))" "join_next sz ys \<noteq> []"
    using m(2) by (cases ys rule: merged.cases; auto simp: join_next_def split: bool.splits)+
  show ?thesis
  proof (cases "xs \<noteq> [] \<and> snd (last xs)")
    case False
    then show ?thesis using m(1) j by (auto simp: release_def join_prev_def merged_append)
  next
    case True
    then obtain ws s0 where xs: "xs = ws @ [(s0, True)]" by (metis append_butlast_last_id prod.collapse)
    obtain s1 zs where z: "join_next sz ys = (s1, True) # zs" using j(2,3) by (cases "join_next sz ys") auto
    have "merged ((s0 + (s1 + 20), True) # zs)" using j(1) unfolding z by (cases zs) auto
    moreover have "merged ws" "ws \<noteq> [] \<longrightarrow> \<not> snd (last ws)" using m(1) by (auto simp: xs merged_append)
    ultimately show ?thesis by (simp add: release_def join_prev_def xs z merged_append)
  qed
qed

lemma merged_take:
  "take_block a ys sz al = Some (ys', p) \<Longrightarrow> merged ys \<Longrightarrow>
     merged ys' \<and> (ys \<noteq> [] \<longrightarrow> ys' \<noteq> [] \<and> (snd (hd ys') \<longrightarrow> snd (hd ys)))"
proof (induction ys arbitrary: a ys' p)
  case Nil
  then show ?case by simp
next
  case (Cons y ys)
  obtain b h where y: "y = (b, h)" by fastforce
  let ?p = "padding (a + 20) al"
  have my: "merged ys" "ys \<noteq> [] \<longrightarrow> \<not> (h \<and> snd (hd ys))" using Cons.prems(2) y by (cases ys; auto)+
  show ?case
  proof (cases "h \<and> unat ?p + unat sz \<le> unat b \<and> (?p = 0 \<or> 20 < unat ?p)")
    case True
    have c: "merged (cut_block c sz @ ys) \<and> \<not> snd (hd (cut_block c sz)) \<and> cut_block c sz \<noteq> []" for c
      using my True by (cases ys) (auto simp: cut_block_def)
    have "ys' = (if ?p = 0 then cut_block b sz @ ys else (?p - 20, True) # cut_block (b - ?p) sz @ ys)"
      using Cons.prems(1) True y by (auto simp: Let_def split: if_splits)
    moreover have "merged ((?p - 20, True) # cut_block (b - ?p) sz @ ys)"
      using c [of "b - ?p"] merged_append [of "[(?p - 20, True)]" "cut_block (b - ?p) sz @ ys"] by simp
    ultimately show ?thesis using c [of b] True y by auto
  next
    case False
    then obtain ys1 where t: "take_block (a + 20 + b) ys sz al = Some (ys1, p)" and ys': "ys' = (b, h) # ys1"
      using Cons.prems(1) y by (auto simp: Let_def)
    then have "ys \<noteq> []" by auto
    with Cons.IH [OF t my(1)] my(2) show ?thesis
      unfolding ys' y using merged_append [of "[(b, h)]" ys1] by auto
  qed
qed

lemma merged_grown:
  assumes "merged bs" "bs \<noteq> []" shows "merged (grown bs n)"
proof -
  obtain ws x where bs: "bs = ws @ [x]" using assms(2) by (metis rev_exhaust)
  show ?thesis using assms(1) by (auto simp: grown_def bs merged_append)
qed

lemma grown_used: "bs \<noteq> [] \<Longrightarrow> used a (grown bs n) = used a bs"
  by (cases bs rule: rev_cases) (auto simp: grown_def used_append)

end
