(* ===== verification/Kheap.thy ===== *)
theory Kheap
  imports Vmm Heap_Blocks
begin

text \<open>
  \<^verbatim>\<open>kernel/mm/kheap.c\<close> as a whole: the heap's memory of \<^theory_text>\<open>Heap_Blocks\<close> together with the
  page tables that back it. The bytes of the heap are kept by virtual address in \<open>hmem\<close>;
  that this is sound is part of what is shown: every page below \<open>heap_end\<close> is mapped, and
  different pages are mapped to different frames that nothing else owns.
\<close>

section \<open>State and code\<close>

record heap_state =
  vm :: vm_state
  hmem :: mem
  heap_start :: u32
  heap_end :: u32

text \<open>
  The loop of \<^verbatim>\<open>kheap_init\<close> and of \<^verbatim>\<open>expand_heap\<close>: one new frame per page. The frame is not checked.
\<close>

partial_function (option) map_fresh_loop :: "u32 \<Rightarrow> u32 \<Rightarrow> u32 \<Rightarrow> vm_state \<Rightarrow> vm_state option" where
  "map_fresh_loop i lim base s =
     (if i < lim then
        let (phys, p) = pmm_alloc_pages 0 (pmm s)
        in case vmm_map_page (base + i) phys (PAGE_PRESENT OR PAGE_RW) (s\<lparr>pmm := p\<rparr>) of
             None \<Rightarrow> None
           | Some s \<Rightarrow> map_fresh_loop (i + PAGE_SIZE) lim base s
      else Some s)"

definition kheap_init :: "heap_state \<Rightarrow> heap_state option" where
  "kheap_init s =
     (case map_fresh_loop 0 KHEAP_INITIAL_SIZE KHEAP_START (vm s) of
        None \<Rightarrow> None
      | Some v \<Rightarrow>
          let m = set_magic KHEAP_START KHEAP_MAGIC (hmem s);
              m = set_is_hole KHEAP_START 1 m;
              m = set_size KHEAP_START (KHEAP_INITIAL_SIZE - 20) m;
              m = set_next KHEAP_START 0 m;
              m = set_prev KHEAP_START 0 m
          in Some (s\<lparr>vm := v, hmem := m, heap_start := KHEAP_START,
                     heap_end := KHEAP_START + KHEAP_INITIAL_SIZE\<rparr>))"

definition round_up :: "u32 \<Rightarrow> u32" where
  "round_up n = (if n mod PAGE_SIZE \<noteq> 0 then (n div PAGE_SIZE + 1) * PAGE_SIZE else n)"

definition expand_heap :: "u32 \<Rightarrow> heap_state \<Rightarrow> heap_state option" where
  "expand_heap new_size s =
     (let new_size = round_up new_size;
          old_heap_end = heap_end s
      in case map_fresh_loop 0 new_size (heap_end s) (vm s) of
           None \<Rightarrow> None
         | Some v \<Rightarrow>
             (case grow (heap_start s) old_heap_end new_size (hmem s) of
                None \<Rightarrow> None
              | Some m \<Rightarrow> Some (s\<lparr>vm := v, hmem := m, heap_end := heap_end s + new_size\<rparr>)))"

partial_function (option) kmalloc_internal :: "u32 \<Rightarrow> bool \<Rightarrow> heap_state \<Rightarrow> (u32 \<times> heap_state) option" where
  "kmalloc_internal sz align s =
     (case kmalloc_walk (hmem s) (heap_start s) sz align of
        None \<Rightarrow> None
      | Some (Some p, m) \<Rightarrow> Some (p, s\<lparr>hmem := m\<rparr>)
      | Some (None, m) \<Rightarrow>
          (case expand_heap (sz + (if align then PAGE_SIZE else 0) + 20) (s\<lparr>hmem := m\<rparr>) of
             None \<Rightarrow> None
           | Some s \<Rightarrow> kmalloc_internal sz align s))"

definition kmalloc :: "u32 \<Rightarrow> heap_state \<Rightarrow> (u32 \<times> heap_state) option" where
  "kmalloc sz s = kmalloc_internal sz False s"

definition kmalloc_a :: "u32 \<Rightarrow> heap_state \<Rightarrow> (u32 \<times> heap_state) option" where
  "kmalloc_a sz s = kmalloc_internal sz True s"

definition kheap_free :: "u32 \<Rightarrow> heap_state \<Rightarrow> free_result \<times> heap_state" where
  "kheap_free ptr s = (let (r, m) = kfree (heap_end s) ptr (hmem s) in (r, s\<lparr>hmem := m\<rparr>))"

section \<open>Pages and their frames\<close>

definition frame_of :: "vm_state \<Rightarrow> u32 \<Rightarrow> u32" where
  "frame_of v a = page_base (entry (phys v) (current_directory v) a)"

text \<open>Every page of \<open>P\<close> has a frame of its own that is neither free nor a page table.\<close>

definition backed :: "vm_state \<Rightarrow> u32 set \<Rightarrow> bool" where
  "backed v P \<longleftrightarrow>
     (\<forall>a\<in>P. page_base a = a \<and> present (entry (phys v) (current_directory v) a) \<and>
        frame_of v a \<notin> free_frames (pmm v) \<and> frame_of v a \<notin> dir_pages (phys v) (current_directory v)) \<and>
     inj_on (frame_of v) P"

text \<open>Enough frames for \<open>n\<close> pages and the tables they need.\<close>

definition frames_for :: "vm_state \<Rightarrow> u32 set \<Rightarrow> nat \<Rightarrow> bool" where
  "frames_for v I n \<longleftrightarrow>
     card (absent v I) + n \<le> card (free_frames (pmm v)) \<and>
     (absent v I = {} \<or> low_first (pmm v) \<and> card (absent v I) + n \<le> card (low_frames (pmm v)))"

lemma vmm_ok_take:
  assumes ok: "vmm_ok v" and al: "pmm_alloc_pages 0 (pmm v) = (f, p)" and f: "f \<noteq> 0"
  shows "vmm_ok (v\<lparr>pmm := p\<rparr>)" "page_base f = f" "f \<in> free_frames (pmm v)"
    "free_frames p = free_frames (pmm v) - {f}"
    "f \<notin> dir_pages (phys v) (current_directory v)"
proof -
  note fr = pmm.alloc_frame [OF vmm_okD(1) [OF ok] al f]
  then show "f \<in> free_frames (pmm v)" "free_frames p = free_frames (pmm v) - {f}" by auto
  then show "page_base f = f"
    using pmm.frame_aligned [OF vmm_okD(1) [OF ok]] by (simp add: page_base_offset)
  show "vmm_ok (v\<lparr>pmm := p\<rparr>)" using ok fr unfolding vmm_ok_def by auto
  show "f \<notin> dir_pages (phys v) (current_directory v)" using vmm_okD(5) [OF ok] fr by blast
qed

lemma frames_for_take:
  assumes ok: "vmm_ok v" and en: "frames_for v I (Suc n)"
  obtains f p where "pmm_alloc_pages 0 (pmm v) = (f, p)" "f \<noteq> 0" "frames_for (v\<lparr>pmm := p\<rparr>) I n"
proof -
  obtain f p where al: "pmm_alloc_pages 0 (pmm v) = (f, p)" by fastforce
  have pok: "pmm_ok (pmm v)" by (rule vmm_okD(1) [OF ok])
  have f: "f \<noteq> 0" using pmm.alloc_empty [OF pok] al en by (auto simp: frames_for_def)
  note fr = pmm.alloc_frame [OF pok al f]
  have ab: "absent (v\<lparr>pmm := p\<rparr>) I = absent v I" by (simp add: absent_def)
  have cf: "card (free_frames p) = card (free_frames (pmm v)) - 1" using fr by (simp add: finite_u32)
  have "absent v I = {} \<or> low_first p \<and> card (absent v I) + n \<le> card (low_frames p)"
  proof (cases "absent v I = {}")
    case False
    then have l: "low_first (pmm v)" "card (absent v I) + Suc n \<le> card (low_frames (pmm v))"
      using en by (auto simp: frames_for_def)
    then have "low_frames (pmm v) \<noteq> {}" by auto
    note la = low_alloc [OF pok l(1) this al]
    then have "card (low_frames p) = card (low_frames (pmm v)) - 1" by (simp add: finite_u32)
    then have "card (absent v I) + n \<le> card (low_frames p)" using l(2) by arith
    then show ?thesis using la(3) by simp
  qed simp
  moreover have "card (absent v I) + n \<le> card (free_frames p)"
    using en cf unfolding frames_for_def by arith
  ultimately have "frames_for (v\<lparr>pmm := p\<rparr>) I n"
    using ab by (simp add: frames_for_def)
  with al f show thesis by (rule that)
qed

lemma frames_for_ready:
  assumes ok: "vmm_ok v" and en: "frames_for v I n" and I: "drop_bit 22 va \<in> I"
  shows "frame_ready va v"
proof (cases "absent v I = {}")
  case True
  then show ?thesis using I by (auto simp: frame_ready_def absent_def)
next
  case False
  then have "room v I 0" using en by (auto simp: frames_for_def room_def)
  then show ?thesis by (rule room_ready [OF ok _ I])
qed

lemma frames_for_map:
  assumes ok: "vmm_ok v" and en: "frames_for v I n" and I: "drop_bit 22 va \<in> I"
    and cd: "current_directory v' = current_directory v"
    and pr: "\<And>x. present (pde_of (phys v') (current_directory v) x) \<longleftrightarrow>
           present (pde_of (phys v) (current_directory v) x) \<or> drop_bit 22 x = drop_bit 22 va"
    and pm: "pmm v' = (if present (pde_of (phys v) (current_directory v) va) then pmm v
        else snd (pmm_alloc_pages 0 (pmm v)))"
  shows "frames_for v' I n"
proof -
  have ab: "absent v' I = absent v I - {drop_bit 22 va}"
    using cd pr unfolding absent_def by auto
  show ?thesis
  proof (cases "present (pde_of (phys v) (current_directory v) va)")
    case True
    then have "drop_bit 22 va \<notin> absent v I" by (auto simp: absent_def pde_of_def pde_addr_def)
    then show ?thesis using en ab pm True by (simp add: frames_for_def)
  next
    case False
    then have in': "drop_bit 22 va \<in> absent v I" using I by (auto simp: absent_def)
    then have c: "card (absent v' I) = card (absent v I) - 1" "0 < card (absent v I)"
      unfolding ab by (auto simp: finite_u32 card_gt_0_iff)
    have l: "low_first (pmm v)" "card (absent v I) + n \<le> card (low_frames (pmm v))"
      using en in' by (auto simp: frames_for_def)
    obtain t p where al: "pmm_alloc_pages 0 (pmm v) = (t, p)" by fastforce
    have "low_frames (pmm v) \<noteq> {}" using l(2) c(2) by auto
    note la = low_alloc [OF vmm_okD(1) [OF ok] l(1) this al]
    then have "card (low_frames p) = card (low_frames (pmm v)) - 1" by (simp add: finite_u32)
    moreover have "card (free_frames p) = card (free_frames (pmm v)) - 1"
      using pmm.alloc_frame [OF vmm_okD(1) [OF ok] al la(1)] by (simp add: finite_u32)
    moreover have "pmm v' = p" using pm False al by simp
    ultimately show ?thesis using en l c la(3) unfolding frames_for_def by simp arith
  qed
qed

lemma vmm_map_ex:
  assumes "vmm_ok s" "frame_ready va s" "page_base flags = 0"
    and "cr3 s = current_directory s \<Longrightarrow> 0x800000 \<le> unat va"
  shows "\<exists>s'. vmm_map_page va pa flags s = Some s' \<and> vmm_ext s s' \<and>
    (\<forall>x. entry (phys s') (current_directory s) x =
       (if page_base x = page_base va then page_base pa OR flags else entry (phys s) (current_directory s) x)) \<and>
    (\<forall>x. present (pde_of (phys s') (current_directory s) x) \<longleftrightarrow>
       present (pde_of (phys s) (current_directory s) x) \<or> drop_bit 22 x = drop_bit 22 va) \<and>
    pmm s' = (if present (pde_of (phys s) (current_directory s) va) then pmm s
      else snd (pmm_alloc_pages 0 (pmm s)))"
  by (rule vmm_map_step [OF assms(1-3)]) (erule assms(4), blast)

lemma map_fresh_step:
  assumes ok: "vmm_ok v" and en: "frames_for v I (Suc n)" and I: "drop_bit 22 va \<in> I"
    and bk: "backed v P" and va: "page_base va = va" "va \<notin> P" "0x800000 \<le> unat va"
  obtains f p v' where "pmm_alloc_pages 0 (pmm v) = (f, p)"
    "vmm_map_page va f (PAGE_PRESENT OR PAGE_RW) (v\<lparr>pmm := p\<rparr>) = Some v'"
    "vmm_ok v'" "current_directory v' = current_directory v" "cr3 v' = cr3 v" "frames_for v' I n"
    "backed v' (insert va P)"
    "\<forall>x. page_base x \<noteq> va \<longrightarrow> entry (phys v') (current_directory v) x = entry (phys v) (current_directory v) x" "vmm_ext v v'"
proof -
  let ?d = "current_directory v" and ?fl = "PAGE_PRESENT OR PAGE_RW"
  have fl: "page_base ?fl = 0" by (simp add: page_base_def PAGE_PRESENT_def PAGE_RW_def)
  obtain f p where al: "pmm_alloc_pages 0 (pmm v) = (f, p)" "f \<noteq> 0" and en1: "frames_for (v\<lparr>pmm := p\<rparr>) I n"
    by (rule frames_for_take [OF ok en])
  note tk = vmm_ok_take [OF ok al]
  let ?v1 = "v\<lparr>pmm := p\<rparr>"
  obtain v' where v': "vmm_map_page va f ?fl ?v1 = Some v'" "vmm_ext ?v1 v'"
    "\<And>x. entry (phys v') ?d x = (if page_base x = page_base va then page_base f OR ?fl else entry (phys v) ?d x)"
    "\<And>x. present (pde_of (phys v') ?d x) \<longleftrightarrow> present (pde_of (phys v) ?d x) \<or> drop_bit 22 x = drop_bit 22 va"
    "pmm v' = (if present (pde_of (phys v) ?d va) then p else snd (pmm_alloc_pages 0 p))"
    using vmm_map_ex [OF tk(1) frames_for_ready [OF tk(1) en1 I] fl, of f] va(3) by auto
  have cd: "current_directory v' = ?d" "cr3 v' = cr3 v" using vmm_extD(2,3) [OF v'(2)] by simp_all
  have en2: "frames_for v' I n"
    by (rule frames_for_map [OF tk(1) en1 I]) (use cd v'(4,5) in simp_all)
  have dp: "dir_pages (phys v') ?d \<subseteq> dir_pages (phys v) ?d \<union> free_frames p" "free_frames (pmm v') \<subseteq> free_frames p"
    using vmm_extD(7,8) [OF v'(2)] by simp_all
  have fr: "frame_of v' x = (if x = va then f else frame_of v x)" if "page_base x = x" for x
    using that va(1) tk(2) fl by (simp add: frame_of_def cd v'(3) page_base_or_flags)
  have bk': "backed v' (insert va P)"
    unfolding backed_def
  proof (intro conjI ballI)
    fix a assume a: "a \<in> insert va P"
    then show pa: "page_base a = a" using bk va(1) by (auto simp: backed_def)
    have "present (f OR ?fl)" unfolding PAGE_PRESENT_def PAGE_RW_def by (metis present_or or.assoc or.commute)
    then show "present (entry (phys v') (current_directory v') a)"
      using a bk pa va(1) tk(2) by (auto simp: cd v'(3) backed_def)
    show "frame_of v' a \<notin> free_frames (pmm v')"
      using a bk fr [OF pa] dp(2) tk(4) by (auto simp: backed_def split: if_splits)
    show "frame_of v' a \<notin> dir_pages (phys v') (current_directory v')"
      using a bk fr [OF pa] dp(1) tk(4,5) by (auto simp: backed_def cd split: if_splits)
  next
    have pP: "page_base a = a" if "a \<in> P" for a using bk that by (auto simp: backed_def)
    have "f \<notin> frame_of v ` P" using bk tk(3) by (auto simp: backed_def)
    moreover have eq: "frame_of v' a = frame_of v a" if "a \<in> P" for a
      using fr [OF pP [OF that]] that va(2) by (cases "a = va") simp_all
    moreover have "inj_on (frame_of v') P"
      using inj_on_cong [of P "frame_of v'" "frame_of v"] eq bk by (simp add: backed_def)
    moreover have "frame_of v' ` P = frame_of v ` P" by (rule image_cong [OF refl eq])
    moreover have "frame_of v' va = f" using fr [OF va(1)] by simp
    ultimately show "inj_on (frame_of v') (insert va P)" using va(2) by (simp add: inj_on_insert)
  qed
  have ext: "vmm_ext v v'" using v'(2) tk(4) unfolding vmm_ext_def by auto
  show thesis
    by (rule that [OF al(1) v'(1) vmm_extD(1) [OF v'(2)] cd en2 bk' _ ext]) (simp add: v'(3) va(1))
qed

text \<open>The pages of the heap up to \<open>e\<close>, and the directory slots of the \<open>n\<close> pages from \<open>e\<close> on.\<close>

definition heap_pages :: "u32 \<Rightarrow> u32 set" where
  "heap_pages e = {a. page_base a = a \<and> KHEAP_START \<le> a \<and> a < e}"

definition new_dirs :: "u32 \<Rightarrow> nat \<Rightarrow> u32 set" where
  "new_dirs e n = (\<lambda>j. drop_bit 22 (e + of_nat (4096 * j))) ` {..<n}"

definition can_grow :: "vm_state \<Rightarrow> u32 \<Rightarrow> nat \<Rightarrow> bool" where
  "can_grow v e n \<longleftrightarrow> frames_for v (new_dirs e n) n"

lemma heap_pages_Suc:
  assumes e: "page_base e = e" "KHEAP_START \<le> e" "unat e + 4096 < 2 ^ 32"
  shows "heap_pages (e + 4096) = insert e (heap_pages e)" "page_base (e + 4096) = e + 4096"
    "unat (e + 4096) = unat e + 4096"
proof -
  show u: "unat (e + 4096) = unat e + 4096" using unat_add_of_nat [of e 4096] e(3) by simp
  show "page_base (e + 4096) = e + 4096" using e(1) u by (simp add: page_base_aligned)
  have "a < e + 4096 \<longleftrightarrow> a = e \<or> a < e" if "page_base a = a" for a
  proof -
    have "4096 dvd unat a" "4096 dvd unat e"
      using that e(1) unfolding page_base_aligned by (simp_all only: dvd_eq_mod_eq_0)
    then obtain i j where "unat a = 4096 * i" "unat e = 4096 * j" by (elim dvdE)
    then show ?thesis using u by (auto simp: word_less_nat_alt word_unat_eq_iff)
  qed
  then show "heap_pages (e + 4096) = insert e (heap_pages e)"
    using e(1,2) by (auto simp: heap_pages_def)
qed

lemma map_fresh_loop_ok:
  "vmm_ok v \<Longrightarrow> frames_for v I (n + k) \<Longrightarrow> backed v (heap_pages e) \<Longrightarrow> unat lim = unat i + 4096 * n \<Longrightarrow>
   base + i = e \<Longrightarrow> page_base e = e \<Longrightarrow> KHEAP_START \<le> e \<Longrightarrow> unat e + 4096 * n < 2 ^ 32 \<Longrightarrow>
   new_dirs e n \<subseteq> I \<Longrightarrow>
   \<exists>v'. map_fresh_loop i lim base v = Some v' \<and> vmm_ok v' \<and> current_directory v' = current_directory v \<and>
     cr3 v' = cr3 v \<and> frames_for v' I k \<and> backed v' (heap_pages (e + of_nat (4096 * n))) \<and>
     (\<forall>x. x < e \<longrightarrow> entry (phys v') (current_directory v) x = entry (phys v) (current_directory v) x) \<and> vmm_ext v v'"
proof (induction n arbitrary: v i e)
  case 0
  then have "i = lim" by (simp add: word_unat_eq_iff)
  then show ?case using 0 vmm_ext_refl by (subst map_fresh_loop.simps) simp
next
  case (Suc n)
  note prem = Suc.prems
  have e4: "unat e + 4096 < 2 ^ 32 \<or> n = 0" using prem(8) by simp
  have lt: "i < lim" using prem(4) by (simp add: word_less_nat_alt)
  have "e = e + of_nat (4096 * 0)" by simp
  then have I: "drop_bit 22 e \<in> I" using prem(9) by (auto simp: new_dirs_def)
  have big: "0x800000 \<le> unat e" using prem(7) by (simp add: KHEAP_START_def word_le_nat_alt)
  have nin: "e \<notin> heap_pages e" by (simp add: heap_pages_def)
  have e4: "unat e + 4096 < 2 ^ 32" using prem(8) by simp
  note hp = heap_pages_Suc [OF prem(6,7) e4]
  obtain f p v1 where st: "pmm_alloc_pages 0 (pmm v) = (f, p)"
    "vmm_map_page e f (PAGE_PRESENT OR PAGE_RW) (v\<lparr>pmm := p\<rparr>) = Some v1"
    "vmm_ok v1" "current_directory v1 = current_directory v" "cr3 v1 = cr3 v" "frames_for v1 I (n + k)"
    "backed v1 (insert e (heap_pages e))"
    "\<forall>x. page_base x \<noteq> e \<longrightarrow> entry (phys v1) (current_directory v) x = entry (phys v) (current_directory v) x" "vmm_ext v v1"
    by (rule map_fresh_step [OF prem(1) prem(2) [unfolded add_Suc] I prem(3,6) nin big])
  have ui: "unat (i + PAGE_SIZE) = unat i + 4096"
    using unat_add_of_nat [of i 4096] prem(4) unat_less_32 [of lim] by (simp add: PAGE_SIZE_def)
  have nd: "new_dirs (e + 4096) n \<subseteq> I"
  proof -
    have "drop_bit 22 (e + 4096 + of_nat (4096 * j)) \<in> new_dirs e (Suc n)" if "j < n" for j
      unfolding new_dirs_def by (rule image_eqI [of _ _ "Suc j"]) (use that in \<open>simp_all add: algebra_simps\<close>)
    then have "new_dirs (e + 4096) n \<subseteq> new_dirs e (Suc n)" unfolding new_dirs_def [of "e + 4096"] by blast
    then show ?thesis using prem(9) by blast
  qed
  have K: "KHEAP_START \<le> e + 4096" using prem(7) hp(3) by (simp add: word_le_nat_alt)
  have lim': "unat lim = unat (i + PAGE_SIZE) + 4096 * n" using prem(4) ui by simp
  have e': "base + (i + PAGE_SIZE) = e + 4096" using prem(5) by (simp add: PAGE_SIZE_def add.assoc [symmetric])
  have bd: "unat (e + 4096) + 4096 * n < 2 ^ 32" using prem(8) hp(3) by simp
  obtain v2 where v2: "map_fresh_loop (i + PAGE_SIZE) lim base v1 = Some v2" "vmm_ok v2"
    "current_directory v2 = current_directory v1" "cr3 v2 = cr3 v1" "frames_for v2 I k"
    "backed v2 (heap_pages (e + 4096 + of_nat (4096 * n)))"
    "\<And>x. x < e + 4096 \<Longrightarrow> entry (phys v2) (current_directory v1) x = entry (phys v1) (current_directory v1) x"
    "vmm_ext v1 v2"
    using Suc.IH [OF st(3,6) st(7) [folded hp(1)] lim' e' hp(2) K bd nd] by blast
  have "map_fresh_loop i lim base v = Some v2"
    using lt prem(5) st(1,2) v2(1) by (subst map_fresh_loop.simps) simp
  moreover have "e + 4096 + of_nat (4096 * n) = e + of_nat (4096 * Suc n)" by (simp add: algebra_simps)
  moreover have "entry (phys v2) (current_directory v) x = entry (phys v) (current_directory v) x" if "x < e" for x
  proof -
    have "page_base x \<noteq> e" using that by (auto simp: word_less_nat_alt unat_page_base word_unat_eq_iff)
    moreover have "x < e + 4096" using that hp(3) by (simp add: word_less_nat_alt)
    ultimately show ?thesis using st(4,8) v2(7) by simp
  qed
  moreover have "vmm_ext v v2" by (rule vmm_ext_trans [OF st(9) v2(8)])
  ultimately show ?case using v2 st by metis
qed

section \<open>The heap's invariant\<close>

text \<open>
  The blocks fill the range between \<open>KHEAP_START\<close> and \<open>heap_end\<close>, no two holes are adjacent, and
  every page of the range has a frame of its own.
\<close>

definition heap_ok :: "heap_state \<Rightarrow> block list \<Rightarrow> bool" where
  "heap_ok s bs \<longleftrightarrow>
     heap_start s = KHEAP_START \<and> heap_at (hmem s) KHEAP_START bs \<and> bs \<noteq> [] \<and> merged bs \<and>
     unat (heap_end s) = unat KHEAP_START + span bs \<and> page_base (heap_end s) = heap_end s \<and>
     vmm_ok (vm s) \<and> backed (vm s) (heap_pages (heap_end s))"

lemma heap_okD:
  assumes "heap_ok s bs"
  shows "heap_start s = KHEAP_START" "heap_at (hmem s) KHEAP_START bs" "bs \<noteq> []" "merged bs"
    "unat (heap_end s) = unat KHEAP_START + span bs" "page_base (heap_end s) = heap_end s"
    "vmm_ok (vm s)" "backed (vm s) (heap_pages (heap_end s))"
  using assms by (auto simp: heap_ok_def)

lemma heap_ok_bounds:
  assumes "heap_ok s bs"
  shows "unat KHEAP_START + span bs + 4096 \<le> 2 ^ 32" "heap_end s = KHEAP_START + of_nat (span bs)"
    "KHEAP_START \<le> heap_end s"
proof -
  note ok = heap_okD(5,6) [OF assms]
  have "4096 dvd unat (heap_end s)" "unat (heap_end s) < 2 ^ 32"
    using ok(2) unat_less_32 unfolding page_base_aligned by (simp_all only: dvd_eq_mod_eq_0)
  then have "unat (heap_end s) + 4096 \<le> 2 ^ 32" by (elim dvdE) simp
  then show "unat KHEAP_START + span bs + 4096 \<le> 2 ^ 32" using ok(1) by simp
  then have "unat (KHEAP_START + of_nat (span bs)) = unat KHEAP_START + span bs"
    by (intro unat_add_of_nat) simp
  then show "heap_end s = KHEAP_START + of_nat (span bs)" using ok(1) by (simp add: word_unat_eq_iff)
  show "KHEAP_START \<le> heap_end s" using ok(1) by (simp add: word_le_nat_alt)
qed

lemma round_up_unat:
  assumes "unat n + 4096 \<le> 2 ^ 32"
  shows "unat (round_up n) = 4096 * ((unat n + 4095) div 4096)"
proof -
  have m: "n mod PAGE_SIZE = 0 \<longleftrightarrow> unat n mod 4096 = 0"
    by (simp add: PAGE_SIZE_def unat_mod word_unat_eq_iff)
  show ?thesis
  proof (cases "unat n mod 4096 = 0")
    case True
    then obtain q where "unat n = 4096 * q" by (elim mod_0_imp_dvd [THEN dvdE])
    then show ?thesis using m by (simp add: round_up_def)
  next
    case False
    define q r where "q = unat n div 4096" and "r = unat n mod 4096"
    have n: "unat n = 4096 * q + r" "0 < r" "r < 4096" using False by (simp_all add: q_def r_def)
    have d: "unat (n div PAGE_SIZE) = q" by (simp add: PAGE_SIZE_def unat_div q_def)
    have q: "4096 * (q + 1) < 2 ^ 32" using assms n by simp
    have mul: "unat (x * PAGE_SIZE) = unat x * 4096 mod 2 ^ 32" for x :: u32
      by (simp add: unat_word_ariths PAGE_SIZE_def)
    have "unat (n div PAGE_SIZE + 1) = q + 1" using unat_add_of_nat [of "n div PAGE_SIZE" 1] d q by simp
    then have "unat ((n div PAGE_SIZE + 1) * PAGE_SIZE) = 4096 * (q + 1)"
      using q mul [of "n div PAGE_SIZE + 1"] by simp
    moreover have "(unat n + 4095) div 4096 = q + 1" using n by simp
    ultimately show ?thesis using m False by (simp add: round_up_def)
  qed
qed

lemma heap_header_init:
  fixes m :: mem and a sz :: u32
  defines "m' \<equiv> set_prev a 0 (set_next a 0 (set_size a sz (set_is_hole a 1 (set_magic a KHEAP_MAGIC m))))"
  assumes a: "a \<noteq> 0" and fit: "unat a + 20 + unat sz \<le> 2 ^ 32"
  shows "heap_at m' a [(sz, True)]"
proof -
  have "get_header m' a = block_header (sz, True) 0 0"
    by (cases "get_header m a") (simp add: m'_def get_header_set apart_def block_header_def)
  then show ?thesis using a fit by (simp add: heap_at_def)
qed

lemma kheap_init_ok:
  assumes ok: "vmm_ok (vm s)" and I: "new_dirs KHEAP_START 256 \<subseteq> I"
    and room: "frames_for (vm s) I (256 + k)"
  shows "\<exists>s'. kheap_init s = Some s' \<and> heap_ok s' [(KHEAP_INITIAL_SIZE - 20, True)] \<and>
    current_directory (vm s') = current_directory (vm s) \<and> cr3 (vm s') = cr3 (vm s) \<and> frames_for (vm s') I k \<and> vmm_ext (vm s) (vm s') \<and>
    (\<forall>x. x < KHEAP_START \<longrightarrow> entry (phys (vm s')) (current_directory (vm s)) x = entry (phys (vm s)) (current_directory (vm s)) x)"
proof -
  have P: "backed (vm s) (heap_pages KHEAP_START)"
  proof -
    have "heap_pages KHEAP_START = {}" by (auto simp: heap_pages_def)
    then show ?thesis by (simp add: backed_def)
  qed
  have K: "unat KHEAP_START = 0xD0000000" by (simp add: KHEAP_START_def)
  have lim: "unat KHEAP_INITIAL_SIZE = unat (0::u32) + 4096 * 256" by (simp add: KHEAP_INITIAL_SIZE_def)
  have b: "page_base KHEAP_START = KHEAP_START" by (simp add: page_base_aligned K)
  have bd: "unat KHEAP_START + 4096 * 256 < 2 ^ 32" by (simp add: K)
  obtain v where v: "map_fresh_loop 0 KHEAP_INITIAL_SIZE KHEAP_START (vm s) = Some v" "vmm_ok v"
    "current_directory v = current_directory (vm s)" "cr3 v = cr3 (vm s)" "frames_for v I k"
    "backed v (heap_pages (KHEAP_START + of_nat (4096 * 256)))" "vmm_ext (vm s) v"
    "\<forall>x. x < KHEAP_START \<longrightarrow> entry (phys v) (current_directory (vm s)) x = entry (phys (vm s)) (current_directory (vm s)) x"
    using map_fresh_loop_ok [OF ok room P lim _ b order_refl bd I] by auto
  have hd: "heap_at (set_prev KHEAP_START 0 (set_next KHEAP_START 0 (set_size KHEAP_START (KHEAP_INITIAL_SIZE - 20)
      (set_is_hole KHEAP_START 1 (set_magic KHEAP_START KHEAP_MAGIC (hmem s)))))) KHEAP_START
      [(KHEAP_INITIAL_SIZE - 20, True)]"
    by (rule heap_header_init) (simp_all add: KHEAP_START_def KHEAP_INITIAL_SIZE_def)
  have e: "unat (KHEAP_START + KHEAP_INITIAL_SIZE) = 0xD0100000"
    "page_base (KHEAP_START + KHEAP_INITIAL_SIZE) = KHEAP_START + KHEAP_INITIAL_SIZE"
    "KHEAP_START + of_nat (4096 * 256) = KHEAP_START + KHEAP_INITIAL_SIZE"
    by (simp_all add: KHEAP_START_def KHEAP_INITIAL_SIZE_def page_base_aligned)
  have sp: "span [(KHEAP_INITIAL_SIZE - 20, True)] = 0x100000" by (simp add: KHEAP_INITIAL_SIZE_def)
  show ?thesis
    using v hd e sp K unfolding kheap_init_def heap_ok_def Let_def by simp
qed

section \<open>Growing\<close>

lemma expand_heap_ok:
  assumes ok: "heap_ok s bs" and sz: "20 \<le> unat sz" "unat sz + 4096 \<le> 2 ^ 32"
    and n: "n = (unat sz + 4095) div 4096" and fit: "unat (heap_end s) + 4096 * n < 2 ^ 32"
    and room: "can_grow (vm s) (heap_end s) n"
  obtains s' where "expand_heap sz s = Some s'" "heap_ok s' (grown bs (of_nat (4096 * n)))"
    "heap_end s' = heap_end s + of_nat (4096 * n)"
    "\<forall>x. (\<forall>b \<in> set (heads KHEAP_START (grown bs (of_nat (4096 * n)))). sep b 20 x 1) \<longrightarrow> hmem s' x = hmem s x"
    "current_directory (vm s') = current_directory (vm s)" "cr3 (vm s') = cr3 (vm s)"
proof -
  note h = heap_okD [OF ok] and b = heap_ok_bounds [OF ok]
  let ?n = "of_nat (4096 * n) :: u32"
  have un: "unat (round_up sz) = 4096 * n" using round_up_unat [OF sz(2)] n by simp
  then have lt: "4096 * n < 2 ^ 32" using unat_less_32 [of "round_up sz"] by simp
  have ru2: "unat ?n = 4096 * n" by (rule unat_of_nat_32 [OF lt])
  have ru1: "round_up sz = ?n" by (simp only: word_unat_eq_iff un ru2)
  have n20: "20 \<le> 4096 * n" "1 \<le> n" using sz(1) n by simp_all
  have lim: "unat (round_up sz) = unat (0::u32) + 4096 * n" using un by simp
  have room': "frames_for (vm s) (new_dirs (heap_end s) n) (n + 0)" using room by (simp add: can_grow_def)
  obtain v where v: "map_fresh_loop 0 (round_up sz) (heap_end s) (vm s) = Some v" "vmm_ok v"
    "current_directory v = current_directory (vm s)" "cr3 v = cr3 (vm s)"
    "backed v (heap_pages (heap_end s + ?n))"
    using map_fresh_loop_ok [OF h(7) room' h(8) lim _ h(6) b(3) fit order_refl] by auto
  have bd: "unat KHEAP_START + span bs + unat ?n \<le> 2 ^ 32" using fit h(5) ru2 by simp
  have n20': "20 \<le> unat ?n" using n20 ru2 by simp
  obtain m where m: "grow KHEAP_START (heap_end s) ?n (hmem s) = Some m" "heap_at m KHEAP_START (grown bs ?n)"
    "span (grown bs ?n) = span bs + unat ?n"
    "\<forall>x. (\<forall>b \<in> set (heads KHEAP_START (grown bs ?n)). sep b 20 x 1) \<longrightarrow> m x = hmem s x"
    by (rule grow_refines [OF h(2,3) n20' bd b(2)]) blast
  let ?s = "s\<lparr>vm := v, hmem := m, heap_end := heap_end s + ?n\<rparr>"
  have run: "expand_heap sz s = Some ?s" using v(1) m(1) by (simp add: expand_heap_def ru1 h(1))
  have ue: "unat (heap_end s + ?n) = unat (heap_end s) + 4096 * n" using fit by (intro unat_add_of_nat)
  have "page_base (heap_end s + ?n) = heap_end s + ?n"
    using h(6) ue unfolding page_base_aligned by simp
  moreover have "unat (heap_end s + ?n) = unat KHEAP_START + span (grown bs ?n)"
    using ue h(5) m(3) ru2 by simp
  moreover have "grown bs ?n \<noteq> []" by (simp add: grown_def)
  ultimately have "heap_ok ?s (grown bs ?n)"
    using h(1) m(2) merged_grown [OF h(4,3)] v(2,5) by (simp add: heap_ok_def)
  with run show thesis by (rule that) (use m(4) v(3,4) in auto)
qed

section \<open>Finding a block\<close>

lemma take_block_last:
  "padding (a + of_nat (span ws) + 20) al = p \<Longrightarrow> unat p + unat sz \<le> unat b \<Longrightarrow> p = 0 \<or> 20 < unat p \<Longrightarrow>
     take_block a (ws @ [(b, True)]) sz al \<noteq> None"
proof (induction ws arbitrary: a)
  case (Cons w ws)
  have "a + 20 + fst w + of_nat (span ws) + 20 = a + of_nat (span (w # ws)) + 20" by (simp add: algebra_simps)
  then have "take_block (a + 20 + fst w) (ws @ [(b, True)]) sz al \<noteq> None"
    using Cons.IH [of "a + 20 + fst w"] Cons.prems by simp
  then show ?case by (cases w) (auto simp: Let_def)
qed (auto simp: Let_def)


text \<open>What the walk leaves: the new block is in use, the bytes of the old ones are as before.\<close>

lemma kmalloc_walk_ok:
  assumes ok: "heap_ok s bs" and sz: "0 < unat sz" "unat sz + 8192 \<le> 2 ^ 32"
  shows "take_block KHEAP_START bs sz al = None \<Longrightarrow>
      kmalloc_walk (hmem s) (heap_start s) sz al = Some (None, hmem s)"
    and "take_block KHEAP_START bs sz al = Some (bs', p) \<Longrightarrow>
      \<exists>m'. kmalloc_walk (hmem s) (heap_start s) sz al = Some (Some p, m') \<and> heap_ok (s\<lparr>hmem := m'\<rparr>) bs' \<and>
        (\<forall>x. (\<forall>b \<in> set (heads KHEAP_START bs'). sep b 20 x 1) \<longrightarrow> m' x = hmem s x)"
proof -
  note h = heap_okD [OF ok] and b = heap_ok_bounds [OF ok]
  have w: "heap_at (hmem s) KHEAP_START ([] @ bs)" "unat KHEAP_START + span ([] @ bs) + 4096 \<le> 2 ^ 32"
    using h(2) b(1) by simp_all
  note wr = kmalloc_walk_refines [OF sz w, of al]
  show "kmalloc_walk (hmem s) (heap_start s) sz al = Some (None, hmem s)" if "take_block KHEAP_START bs sz al = None"
    using wr that h(1,3) by simp
  show "\<exists>m'. kmalloc_walk (hmem s) (heap_start s) sz al = Some (Some p, m') \<and> heap_ok (s\<lparr>hmem := m'\<rparr>) bs' \<and>
        (\<forall>x. (\<forall>b \<in> set (heads KHEAP_START bs'). sep b 20 x 1) \<longrightarrow> m' x = hmem s x)"
    if t: "take_block KHEAP_START bs sz al = Some (bs', p)"
  proof -
    obtain m' where m': "kmalloc_walk (hmem s) KHEAP_START sz al = Some (Some p, m')" "heap_at m' KHEAP_START bs'"
      "\<forall>x. (\<forall>b \<in> set (heads KHEAP_START bs'). sep b 20 x 1) \<longrightarrow> m' x = hmem s x"
      using wr t h(3) by auto
    have "span bs' = span bs" using take_block_used [OF t b(1)] by simp
    moreover have "merged bs'" "bs' \<noteq> []" using merged_take [OF t h(4)] h(3) by simp_all
    ultimately have "heap_ok (s\<lparr>hmem := m'\<rparr>) bs'" using m'(2) h by (simp add: heap_ok_def)
    then show ?thesis using m'(1,3) h(1) by auto
  qed
qed

section \<open>The heap as its clients see it\<close>

text \<open>The blocks are determined by the memory, so the blocks in use are a function of the state.\<close>

lemma seg_unique: "seg H p a xs q 0 \<Longrightarrow> seg H p a ys q' 0 \<Longrightarrow> xs = ys"
proof (induction xs arbitrary: p a ys)
  case Nil
  then show ?case by (cases ys) auto
next
  case (Cons x xs)
  obtain nxt where x: "a \<noteq> 0" "H a = block_header x nxt p" "seg H a nxt xs q 0" using Cons.prems(1) by auto
  then obtain y zs where ys: "ys = y # zs" using Cons.prems(2) by (cases ys) auto
  then obtain nxt' where y: "H a = block_header y nxt' p" "seg H a nxt' zs q' 0" using Cons.prems(2) by auto
  have "x = y" "nxt' = nxt" using x(2) y(1) by (auto simp: block_header_def prod_eq_iff split: if_splits)
  then show ?case using Cons.IH [OF x(3)] y(2) ys by simp
qed

lemma heap_ok_unique: "heap_ok s bs \<Longrightarrow> heap_ok s cs \<Longrightarrow> bs = cs"
  unfolding heap_ok_def heap_at_def by (metis seg_unique)

definition heap_inv :: "heap_state \<Rightarrow> bool" where
  "heap_inv s \<longleftrightarrow> (\<exists>bs. heap_ok s bs)"

definition live :: "heap_state \<Rightarrow> (u32 \<times> u32) set" where
  "live s = {x. \<exists>bs. heap_ok s bs \<and> x \<in> used KHEAP_START bs}"

lemma live_used: "heap_ok s bs \<Longrightarrow> live s = used KHEAP_START bs"
  unfolding live_def by (auto dest: heap_ok_unique)

lemma heap_ok_determined:
  assumes "heap_ok s bs" "heap_ok s' cs" "live s = live s'" "heap_end s = heap_end s'"
  shows "bs = cs"
proof (rule merged_unique)
  show "used KHEAP_START bs = used KHEAP_START cs" using assms(3) by (simp add: live_used [OF assms(1)] live_used [OF assms(2)])
  show "span bs = span cs" using heap_okD(5) [OF assms(1)] heap_okD(5) [OF assms(2)] assms(4) by simp
  show "unat KHEAP_START + span bs < 2 ^ 32" using heap_ok_bounds(1) [OF assms(1)] by simp
qed (rule heap_okD [OF assms(1)], rule heap_okD [OF assms(2)])

text \<open>The contents of the blocks in \<open>L\<close> are untouched.\<close>

definition kept :: "(u32 \<times> u32) set \<Rightarrow> heap_state \<Rightarrow> heap_state \<Rightarrow> bool" where
  "kept L s s' \<longleftrightarrow> (\<forall>(q, w) \<in> L. \<forall>i < unat w. hmem s' (q + of_nat i) = hmem s (q + of_nat i))"

lemma keptI:
  assumes out: "\<forall>x. (\<forall>b \<in> set (heads KHEAP_START cs). sep b 20 x 1) \<longrightarrow> hmem s' x = hmem s x"
    and cs: "unat KHEAP_START + span cs < 2 ^ 32" and L: "L \<subseteq> used KHEAP_START cs"
  shows "kept L s s'"
proof -
  have "hmem s' (q + of_nat i) = hmem s (q + of_nat i)" if q: "(q, w) \<in> L" and i: "i < unat w" for q w i
  proof -
    have "sep b 20 (q + of_nat i) 1" if "b \<in> set (heads KHEAP_START cs)" for b
    proof -
      have "sep b 20 q (unat w)" using used_sep_heads [OF _ cs that] q L by blast
      then have "sep (b + of_nat 0) 20 (q + of_nat i) 1" by (rule sep_sub) (use i in simp_all)
      then show ?thesis by simp
    qed
    with out show ?thesis by blast
  qed
  then show ?thesis by (auto simp: kept_def)
qed

definition grow_pages :: "u32 \<Rightarrow> bool \<Rightarrow> nat" where
  "grow_pages sz al = (unat sz + (if al then 4096 else 0) + 20 + 4095) div 4096"

definition can_expand :: "heap_state \<Rightarrow> u32 \<Rightarrow> bool \<Rightarrow> bool" where
  "can_expand s sz al \<longleftrightarrow> unat (heap_end s) + 4096 * grow_pages sz al < 2 ^ 32 \<and>
     can_grow (vm s) (heap_end s) (grow_pages sz al)"

text \<open>The outcome of a successful request.\<close>

definition granted :: "heap_state \<Rightarrow> u32 \<Rightarrow> u32 \<Rightarrow> heap_state \<Rightarrow> bool" where
  "granted s sz p s' \<longleftrightarrow> heap_inv s' \<and> p \<noteq> 0 \<and>
     (\<exists>z. sz \<le> z \<and> live s' = insert (p, z) (live s)) \<and> (\<forall>w. (p, w) \<notin> live s) \<and> kept (live s) s s'"

lemma kmalloc_found:
  assumes ok: "heap_ok s bs" and sz: "0 < unat sz" "unat sz + 8192 \<le> 2 ^ 32"
    and t: "take_block KHEAP_START bs sz al = Some (bs', p)"
  obtains s' where "kmalloc_internal sz al s = Some (p, s')" "granted s sz p s'" "al \<longrightarrow> page_base p = p"
    "heap_ok s' bs'" "vm s' = vm s"
proof -
  note h = heap_okD [OF ok] and b = heap_ok_bounds [OF ok]
  obtain m' where m': "kmalloc_walk (hmem s) (heap_start s) sz al = Some (Some p, m')" "heap_ok (s\<lparr>hmem := m'\<rparr>) bs'"
    "\<forall>x. (\<forall>b \<in> set (heads KHEAP_START bs'). sep b 20 x 1) \<longrightarrow> m' x = hmem s x"
    using kmalloc_walk_ok(2) [OF ok sz t] by blast
  let ?s = "s\<lparr>hmem := m'\<rparr>"
  have run: "kmalloc_internal sz al s = Some (p, ?s)" using m'(1) by (subst kmalloc_internal.simps) simp
  obtain z where z: "used KHEAP_START bs' = insert (p, z) (used KHEAP_START bs)" "unat sz \<le> unat z"
    "\<forall>w. (p, w) \<notin> used KHEAP_START bs" "al \<longrightarrow> page_base p = p" and sp: "span bs' = span bs"
    using take_block_used [OF t b(1)] by blast
  have lv: "live ?s = insert (p, z) (live s)" "\<forall>w. (p, w) \<notin> live s"
    using live_used [OF m'(2)] live_used [OF ok] z by simp_all
  have bd: "unat KHEAP_START + span bs' < 2 ^ 32" using b(1) sp by simp
  have "kept (live s) s ?s"
    by (rule keptI [OF _ bd]) (use m'(3) live_used [OF ok] z(1) in auto)
  moreover have "p \<noteq> 0"
  proof -
    have "(p, z) \<in> used KHEAP_START bs'" using z(1) by simp
    from used_range [OF this bd] show ?thesis by (auto simp: KHEAP_START_def)
  qed
  ultimately have "granted s sz p ?s"
    using lv z(2) m'(2) by (auto simp: granted_def heap_inv_def word_le_nat_alt)
  then show thesis using run z(4) m'(2) by (intro that [of ?s]) simp_all
qed

text \<open>When nothing fits, the heap grows once; the walk then runs again over the grown list.\<close>

lemma kmalloc_grow:
  assumes ok: "heap_ok s bs" and sz: "0 < unat sz" "unat sz + 16384 \<le> 2 ^ 32"
    and none: "take_block KHEAP_START bs sz al = None" and ex: "can_expand s sz al"
  defines "n \<equiv> of_nat (4096 * grow_pages sz al)"
  obtains s' where "kmalloc_internal sz al s = kmalloc_internal sz al s'"
    "expand_heap (sz + (if al then PAGE_SIZE else 0) + 20) s = Some s'"
    "heap_ok s' (grown bs n)" "live s' = live s" "kept (live s) s s'" "heap_end s' = heap_end s + n"
    "unat (heap_end s + n) = unat (heap_end s) + 4096 * grow_pages sz al"
    "unat n = 4096 * grow_pages sz al"
proof -
  let ?need = "sz + (if al then PAGE_SIZE else 0) + 20"
  have u: "unat ?need = unat sz + (if al then 4096 else 0) + 20"
    using sz(2) unat_add_of_nat [of sz 20] unat_add_of_nat [of sz "4096 + 20"]
    by (simp add: PAGE_SIZE_def add.assoc)
  have gp: "grow_pages sz al = (unat ?need + 4095) div 4096" unfolding grow_pages_def u ..
  have r: "20 \<le> unat ?need" "unat ?need + 4096 \<le> 2 ^ 32" unfolding u using sz(2) by simp_all
  have f: "unat (heap_end s) + 4096 * grow_pages sz al < 2 ^ 32"
    "can_grow (vm s) (heap_end s) (grow_pages sz al)" using ex by (simp_all add: can_expand_def)
  obtain s' where s': "expand_heap ?need s = Some s'" "heap_ok s' (grown bs n)" "heap_end s' = heap_end s + n"
    "\<forall>x. (\<forall>b \<in> set (heads KHEAP_START (grown bs n)). sep b 20 x 1) \<longrightarrow> hmem s' x = hmem s x"
    using expand_heap_ok [OF ok r gp f, folded n_def] by metis
  have s: "s\<lparr>hmem := hmem s\<rparr> = s" by simp
  have run: "kmalloc_internal sz al s = kmalloc_internal sz al s'"
    using kmalloc_walk_ok(1) [OF ok sz(1) _ none] sz(2) s'(1) by (subst kmalloc_internal.simps) simp
  have lv: "live s' = live s"
    using live_used [OF s'(2)] live_used [OF ok] grown_used [OF heap_okD(3) [OF ok]] by simp
  have bd: "unat KHEAP_START + span (grown bs n) < 2 ^ 32" using heap_ok_bounds(1) [OF s'(2)] by simp
  have k: "kept (live s) s s'" by (rule keptI [OF s'(4) bd]) (use lv live_used [OF s'(2)] in simp)
  have e: "unat (heap_end s + n) = unat (heap_end s) + 4096 * grow_pages sz al"
    unfolding n_def using f(1) by (intro unat_add_of_nat)
  have un: "unat n = 4096 * grow_pages sz al" unfolding n_def using f(1) by (intro unat_of_nat_32) simp
  show thesis by (rule that [OF run s'(1,2) lv k s'(3) e un])
qed

text \<open>
  Whether the hole at the end of the heap can be aligned: its padding must be zero or leave room
  for a header. Growing moves the end of that hole, not its start.
\<close>

definition tail_padding :: "block list \<Rightarrow> u32" where
  "tail_padding bs = padding (KHEAP_START + of_nat (span (butlast bs)) + 20) True"

definition tail_ok :: "block list \<Rightarrow> bool" where
  "tail_ok bs \<longleftrightarrow> (snd (last bs) \<longrightarrow> tail_padding bs = 0 \<or> 20 < unat (tail_padding bs))"

lemma next_header_padding:
  fixes x :: nat
  assumes "(20 + x) mod 4096 = 0" "x < 4096" shows "x = 4076"
proof -
  have "20 + x < 4096 \<or> 20 + x = 4096 \<or> 4096 < 20 + x" by arith
  then show ?thesis
  proof (elim disjE)
    assume "4096 < 20 + x"
    then have "(20 + x) mod 4096 = 20 + x - 4096" using assms(2) by (simp add: mod_if)
    then show ?thesis using assms \<open>4096 < 20 + x\<close> by simp
  qed (use assms in simp_all)
qed

lemma padding_new_page:
  assumes e: "page_base e = e" "unat e + 8192 \<le> 2 ^ 32"
  shows "unat (padding (e + 20) True) = 4076"
proof -
  let ?p = "padding (e + 20) True"
  have u: "unat (e + 20) = unat e + 20" using unat_add_of_nat [of e 20] e(2) by simp
  note pp = padding_props [of "e + 20" True]
  have p: "unat ?p < 4096" "page_base (e + 20 + ?p) = e + 20 + ?p" "unat (e + 20 + ?p) = unat e + 20 + unat ?p"
    using pp u e(2) by simp_all
  have "unat e mod 4096 = 0" "(unat e + (20 + unat ?p)) mod 4096 = 0"
    using e(1) p(2) unfolding page_base_aligned p(3) by (simp_all only: add.assoc)
  then have "(20 + unat ?p) mod 4096 = 0" by (metis add_0 mod_add_left_eq)
  then show ?thesis using p(1) by (rule next_header_padding)
qed

lemma take_grown:
  assumes bs: "bs \<noteq> []" and bd: "unat KHEAP_START + span (grown bs n) + 4096 \<le> 2 ^ 32"
    and sp: "span (grown bs n) = span bs + unat n"
    and e: "page_base (KHEAP_START + of_nat (span bs)) = KHEAP_START + of_nat (span bs)"
    and n: "unat sz + (if al then 4096 else 0) + 20 \<le> unat n" and tl: "al \<longrightarrow> tail_ok bs"
  shows "take_block KHEAP_START (grown bs n) sz al \<noteq> None"
proof -
  obtain ws b h where ws: "bs = ws @ [(b, h)]" using bs by (metis prod.exhaust rev_exhaust)
  show ?thesis
  proof (cases h)
    case True
    then have g: "grown bs n = ws @ [(b + n, True)]" by (simp add: grown_def ws)
    let ?d = "KHEAP_START + of_nat (span ws) + 20"
    have u: "unat (b + n) = unat b + unat n" using sp unfolding g by (simp add: ws)
    have "unat ?d = unat KHEAP_START + span ws + 20"
    proof -
      have "unat KHEAP_START + (span ws + 20) < 2 ^ 32" using bd unfolding g by simp
      from unat_add_of_nat [OF this] show ?thesis by (simp only: of_nat_add of_nat_numeral add.assoc)
    qed
    then have p: "unat (padding ?d al) < 4096" using bd unfolding g by (intro padding_props(1)) simp
    have z: "\<not> al \<Longrightarrow> padding ?d al = 0" by (simp add: padding_def)
    have "unat (padding ?d al) + unat sz \<le> unat (b + n)" using u n p z by (cases al) auto
    moreover have "padding ?d al = 0 \<or> 20 < unat (padding ?d al)"
      using tl z True by (cases al) (auto simp: tail_ok_def tail_padding_def ws)
    ultimately show ?thesis unfolding g by (rule take_block_last [OF refl])
  next
    case False
    then have g: "grown bs n = bs @ [(n - 20, True)]" by (simp add: grown_def ws)
    let ?e = "KHEAP_START + of_nat (span bs)"
    have un: "unat (n - 20) = unat n - 20" using n by (subst unat_sub) (simp_all add: word_le_nat_alt)
    have ue: "unat ?e = unat KHEAP_START + span bs" using bd sp by (intro unat_add_of_nat) simp
    have z: "\<not> al \<Longrightarrow> padding (?e + 20) al = 0" by (simp add: padding_def)
    have a: "unat (padding (?e + 20) al) = 4076" if al
    proof -
      have "unat ?e + 8192 \<le> 2 ^ 32" using that ue bd sp n by simp
      from padding_new_page [OF e this] that show ?thesis by simp
    qed
    have "unat (padding (?e + 20) al) + unat sz \<le> unat (n - 20)" using un n a z by (cases al) auto
    moreover have "padding (?e + 20) al = 0 \<or> 20 < unat (padding (?e + 20) al)" using a z by (cases al) auto
    ultimately show ?thesis unfolding g by (rule take_block_last [OF refl])
  qed
qed

lemma granted_trans:
  assumes "live s1 = live s" "kept (live s) s s1" "granted s1 sz p s2"
  shows "granted s sz p s2"
  using assms unfolding granted_def kept_def by (auto split: prod.splits)

lemma kmalloc_internal_ok:
  assumes ok: "heap_ok s bs" and sz: "0 < unat sz" "unat sz + 16384 \<le> 2 ^ 32"
    and ex: "take_block KHEAP_START bs sz al \<noteq> None \<or> can_expand s sz al \<and> (al \<longrightarrow> tail_ok bs)"
  obtains p s' where "kmalloc_internal sz al s = Some (p, s')" "granted s sz p s'" "al \<longrightarrow> page_base p = p"
proof (cases "take_block KHEAP_START bs sz al")
  case (Some r)
  then obtain bs' p where t: "take_block KHEAP_START bs sz al = Some (bs', p)" by (cases r) simp
  have sz': "unat sz + 8192 \<le> 2 ^ 32" using sz(2) by simp
  show thesis by (rule kmalloc_found [OF ok sz(1) sz' t]) (erule that)
next
  case None
  then have ce: "can_expand s sz al" and tl: "al \<longrightarrow> tail_ok bs" using ex by auto
  let ?n = "of_nat (4096 * grow_pages sz al) :: u32"
  obtain s1 where s1: "kmalloc_internal sz al s = kmalloc_internal sz al s1" "heap_ok s1 (grown bs ?n)"
    "live s1 = live s" "kept (live s) s s1" "heap_end s1 = heap_end s + ?n"
    "unat (heap_end s + ?n) = unat (heap_end s) + 4096 * grow_pages sz al"
    "unat ?n = 4096 * grow_pages sz al"
    by (rule kmalloc_grow [OF ok sz None ce])
  note b = heap_ok_bounds [OF ok] and b1 = heap_ok_bounds [OF s1(2)]
  have "span (grown bs ?n) = span bs + unat ?n"
    using heap_okD(5) [OF ok] heap_okD(5) [OF s1(2)] s1(5-7) by simp
  moreover have "unat sz + (if al then 4096 else 0) + 20 \<le> unat ?n"
    unfolding s1(7) by (simp add: grow_pages_def)
  moreover have "page_base (KHEAP_START + of_nat (span bs)) = KHEAP_START + of_nat (span bs)"
    using heap_okD(6) [OF ok] b(2) by simp
  ultimately have "take_block KHEAP_START (grown bs ?n) sz al \<noteq> None"
    by (intro take_grown [OF heap_okD(3) [OF ok] b1(1)] tl)
  then obtain bs' p where t: "take_block KHEAP_START (grown bs ?n) sz al = Some (bs', p)" by auto
  have sz': "unat sz + 8192 \<le> 2 ^ 32" using sz(2) by simp
  obtain s2 where s2: "kmalloc_internal sz al s1 = Some (p, s2)" "granted s1 sz p s2" "al \<longrightarrow> page_base p = p"
    by (rule kmalloc_found [OF s1(2) sz(1) sz' t])
  show thesis
    by (rule that [OF _ granted_trans [OF s1(3,4) s2(2)] s2(3)]) (simp only: s1(1) s2(1))
qed

lemma heap_at_write:
  assumes hp: "heap_at m KHEAP_START bs" and bd: "unat KHEAP_START + span bs < 2 ^ 32"
    and u: "(p, z) \<in> used KHEAP_START bs" "i < unat z"
  shows "heap_at (m(p + of_nat i := v)) KHEAP_START bs"
proof -
  have "get_header m b = get_header (m(p + of_nat i := v)) b" if "b \<in> set (heads KHEAP_START bs)" for b
  proof (rule get_header_cong)
    fix k :: nat assume "k < 20"
    with used_sep_heads [OF u(1) bd that] u(2) have "b + of_nat k \<noteq> p + of_nat i" by (intro sepD)
    then show "m (b + of_nat k) = (m(p + of_nat i := v)) (b + of_nat k)" by simp
  qed
  with hp show ?thesis unfolding heap_at_def using seg_cong by metis
qed

text \<open>A byte stored by the client.\<close>

definition store_byte :: "u32 \<Rightarrow> u8 \<Rightarrow> heap_state \<Rightarrow> heap_state" where
  "store_byte a v s = s\<lparr>hmem := (hmem s)(a := v)\<rparr>"

lemma store_byte_ok:
  assumes "heap_inv s" "(p, z) \<in> live s" "i < unat z"
  shows "heap_inv (store_byte (p + of_nat i) v s)" "live (store_byte (p + of_nat i) v s) = live s"
proof -
  obtain bs where bs: "heap_ok s bs" using assms(1) by (auto simp: heap_inv_def)
  have u: "(p, z) \<in> used KHEAP_START bs" using assms(2) live_used [OF bs] by simp
  have bd: "unat KHEAP_START + span bs < 2 ^ 32" using heap_ok_bounds(1) [OF bs] by simp
  have "heap_ok (store_byte (p + of_nat i) v s) bs"
    using bs heap_at_write [OF heap_okD(2) [OF bs] bd u assms(3)] by (simp add: heap_ok_def store_byte_def)
  then show "heap_inv (store_byte (p + of_nat i) v s)" "live (store_byte (p + of_nat i) v s) = live s"
    using live_used [OF bs] by (auto simp: heap_inv_def live_used)
qed

lemma live_range:
  assumes "heap_inv s" "(p, z) \<in> live s"
  shows "unat KHEAP_START + 20 \<le> unat p" "unat p + unat z \<le> unat (heap_end s)" "p \<noteq> 0"
proof -
  obtain bs where bs: "heap_ok s bs" using assms(1) by (auto simp: heap_inv_def)
  have "(p, z) \<in> used KHEAP_START bs" using assms(2) live_used [OF bs] by simp
  from used_range [OF this] show "unat KHEAP_START + 20 \<le> unat p" "unat p + unat z \<le> unat (heap_end s)"
    using heap_okD(5) [OF bs] heap_ok_bounds(1) [OF bs] by simp_all
  then show "p \<noteq> 0" by auto
qed

lemma live_apart:
  assumes "heap_inv s" "(p, z) \<in> live s" "(q, w) \<in> live s" "p \<noteq> q"
  shows "sep p (unat z) q (unat w)"
proof -
  obtain bs where bs: "heap_ok s bs" using assms(1) by (auto simp: heap_inv_def)
  have bd: "unat KHEAP_START + span bs < 2 ^ 32" using heap_ok_bounds(1) [OF bs] by simp
  show ?thesis using used_disjoint [OF _ _ bd] assms(2-4) live_used [OF bs] by auto
qed

text \<open>A block in use stands between two parts of the list of blocks.\<close>

lemma used_split: "(p, z) \<in> used a bs \<Longrightarrow>
    \<exists>xs ys. bs = xs @ (z, False) # ys \<and> p = a + of_nat (span xs) + 20"
proof (induction bs arbitrary: a)
  case (Cons x bs)
  show ?case
  proof (cases "(p, z) \<in> used (a + 20 + fst x) bs")
    case True
    from Cons.IH [OF this] obtain xs ys
      where "bs = xs @ (z, False) # ys" "p = a + 20 + fst x + of_nat (span xs) + 20" by blast
    then show ?thesis by (intro exI [of _ "x # xs"] exI [of _ ys]) (simp add: algebra_simps)
  next
    case False
    then have "p = a + 20" "x = (z, False)" using Cons.prems by (cases x; auto split: if_splits)+
    then show ?thesis by (intro exI [of _ "[]"] exI [of _ bs]) simp
  qed
qed simp

lemma release_span:
  assumes "unat start + span (xs @ (sz, h) # ys) \<le> 2 ^ 32"
  shows "span (release xs sz ys) = span (xs @ (sz, h) # ys)"
proof -
  have j: "span (xs @ join_next sz ys) = span (xs @ (sz, h) # ys)"
    using span_absorb [of start xs sz True] assms
    by (cases ys) (auto simp: join_next_def split: bool.splits)
  show ?thesis
  proof (cases "xs \<noteq> [] \<and> snd (last xs)")
    case True
    then obtain ws s0 where xs: "xs = ws @ [(s0, True)]" by (metis append_butlast_last_id prod.collapse)
    obtain s1 zs where z: "join_next sz ys = (s1, True) # zs" using join_next_shape by blast
    have "unat start + span (ws @ (s0, True) # (s1, True) # zs) \<le> 2 ^ 32"
      using j assms unfolding xs z by simp
    from span_absorb [OF this] show ?thesis using j by (simp add: release_def join_prev_def xs z)
  next
    case False
    then show ?thesis using j by (auto simp: release_def join_prev_def)
  qed
qed

lemma kheap_free_ok:
  assumes inv: "heap_inv s" and lv: "(p, z) \<in> live s" and z: "0 < unat z"
  obtains s' where "kheap_free p s = (Freed, s')" "heap_inv s'" "live s' = live s - {(p, z)}"
    "kept (live s') s s'" "heap_end s' = heap_end s" "vm s' = vm s"
proof -
  obtain bs where ok: "heap_ok s bs" using inv by (auto simp: heap_inv_def)
  note h = heap_okD [OF ok] and b = heap_ok_bounds [OF ok]
  have u: "(p, z) \<in> used KHEAP_START bs" using lv live_used [OF ok] by simp
  then obtain xs ys where bs: "bs = xs @ (z, False) # ys" and p: "p = KHEAP_START + of_nat (span xs) + 20"
    using used_split by blast
  have bd: "unat KHEAP_START + span (xs @ (z, False) # ys) < 2 ^ 32" using b(1) by (simp add: bs)
  have uh: "unat (KHEAP_START + of_nat (span xs)) = unat KHEAP_START + span xs"
    using bd by (intro unat_add_of_nat) simp
  let ?a = "KHEAP_START + of_nat (span xs)"
  have up: "unat p = unat KHEAP_START + span xs + 20"
    using unat_add_of_nat [of ?a 20] uh bd by (simp add: p)
  have lt: "p < heap_end s" using live_range(2) [OF inv lv] z by (simp add: word_less_nat_alt)
  obtain m where m: "kfree (heap_end s) p (hmem s) = (Freed, m)" "heap_at m KHEAP_START (release xs z ys)"
    "\<forall>x. (\<forall>b \<in> set (heads KHEAP_START bs). sep b 20 x 1) \<longrightarrow> m x = hmem s x"
    using kfree_refines [OF h(2) [unfolded bs] lt [unfolded p] bd] unfolding p bs by metis
  let ?s = "s\<lparr>hmem := m\<rparr>"
  have run: "kheap_free p s = (Freed, ?s)" using m(1) by (simp add: kheap_free_def)
  have sp: "span (release xs z ys) = span bs" unfolding bs by (rule release_span [of KHEAP_START]) (use bd in simp)
  have ne: "release xs z ys \<noteq> []"
    using join_next_shape [of z ys] by (auto simp: release_def join_prev_def)
  have ok': "heap_ok ?s (release xs z ys)"
    using h m(2) sp ne merged_release [OF h(4) [unfolded bs]] by (simp add: heap_ok_def)
  have us: "used KHEAP_START bs = used KHEAP_START xs \<union> {(p, z)} \<union> used (?a + 20 + z) ys"
    by (auto simp: bs used_append p)
  have "(p, z) \<notin> used KHEAP_START xs"
    using used_range [of p z KHEAP_START xs] bd up by auto
  moreover have "(p, z) \<notin> used (?a + 20 + z) ys"
  proof
    assume q: "(p, z) \<in> used (?a + 20 + z) ys"
    have "unat (p + z) = unat p + unat z" using unat_add_of_nat [of p "unat z"] up bd by simp
    moreover have "?a + 20 + z = p + z" by (simp add: p)
    ultimately show False using used_range [OF q] up bd z by simp
  qed
  ultimately have lv': "live ?s = live s - {(p, z)}"
    unfolding live_used [OF ok] live_used [OF ok'] release_used us by blast
  have bd': "unat KHEAP_START + span bs < 2 ^ 32" using bd by (simp add: bs)
  have "kept (live ?s) s ?s"
    by (rule keptI [OF _ bd']) (use m(3) lv' live_used [OF ok] in auto)
  then show thesis using run ok' lv' by (intro that [of ?s]) (auto simp: heap_inv_def)
qed

section \<open>The contract of a heap\<close>

text \<open>
  What the rest of the kernel relies on: a request that the heap is ready for returns a block
  that overlaps no other one and leaves their contents alone, freeing takes exactly that block
  away, and a client may write any byte of its blocks.
\<close>

locale heap_source =
  fixes alloc :: "u32 \<Rightarrow> 's \<Rightarrow> (u32 \<times> 's) option"
    and free :: "u32 \<Rightarrow> 's \<Rightarrow> 's"
    and ok :: "'s \<Rightarrow> bool"
    and ready :: "'s \<Rightarrow> u32 \<Rightarrow> bool"
    and blocks :: "'s \<Rightarrow> (u32 \<times> u32) set"
    and peek :: "'s \<Rightarrow> u32 \<Rightarrow> u8"
    and poke :: "u32 \<Rightarrow> u8 \<Rightarrow> 's \<Rightarrow> 's"
  assumes alloc_ok: "ok s \<Longrightarrow> ready s n \<Longrightarrow> 0 < unat n \<Longrightarrow> unat n + 16384 \<le> 2 ^ 32 \<Longrightarrow>
      \<exists>p z s'. alloc n s = Some (p, s') \<and> ok s' \<and> p \<noteq> 0 \<and> n \<le> z \<and> blocks s' = insert (p, z) (blocks s) \<and>
        (\<forall>w. (p, w) \<notin> blocks s) \<and>
        (\<forall>(q, w) \<in> blocks s. \<forall>i < unat w. peek s' (q + of_nat i) = peek s (q + of_nat i))"
    and free_ok: "ok s \<Longrightarrow> (p, z) \<in> blocks s \<Longrightarrow> 0 < unat z \<Longrightarrow>
      ok (free p s) \<and> blocks (free p s) = blocks s - {(p, z)} \<and>
        (\<forall>(q, w) \<in> blocks s - {(p, z)}. \<forall>i < unat w. peek (free p s) (q + of_nat i) = peek s (q + of_nat i))"
    and blocks_apart: "ok s \<Longrightarrow> (p, z) \<in> blocks s \<Longrightarrow> (q, w) \<in> blocks s \<Longrightarrow> p \<noteq> q \<Longrightarrow> sep p (unat z) q (unat w)"
    and blocks_range: "ok s \<Longrightarrow> (p, z) \<in> blocks s \<Longrightarrow> p \<noteq> 0 \<and> unat p + unat z < 2 ^ 32"
    and poke_ok: "ok s \<Longrightarrow> (p, z) \<in> blocks s \<Longrightarrow> i < unat z \<Longrightarrow>
      ok (poke (p + of_nat i) v s) \<and> blocks (poke (p + of_nat i) v s) = blocks s"
    and peek_poke: "peek (poke a v s) b = (if b = a then v else peek s b)"
begin

text \<open>A client that writes a run of bytes into its block.\<close>

fun poke_list :: "u32 \<Rightarrow> u8 list \<Rightarrow> 's \<Rightarrow> 's" where
  "poke_list a [] s = s"
| "poke_list a (v # vs) s = poke_list (a + 1) vs (poke a v s)"

lemma poke_list_ok:
  "ok s \<Longrightarrow> (p, z) \<in> blocks s \<Longrightarrow> i + length vs \<le> unat z \<Longrightarrow>
     ok (poke_list (p + of_nat i) vs s) \<and> blocks (poke_list (p + of_nat i) vs s) = blocks s"
proof (induction vs arbitrary: s i)
  case (Cons v vs)
  note w = poke_ok [OF Cons.prems(1,2), of i v]
  show ?case using Cons.IH [of "poke (p + of_nat i) v s" "Suc i"] w Cons.prems by (simp add: ac_simps)
qed simp

text \<open>Writing into one block leaves the bytes of every other block alone.\<close>

lemma poke_list_other:
  "ok s \<Longrightarrow> (p, z) \<in> blocks s \<Longrightarrow> (q, w) \<in> blocks s \<Longrightarrow> p \<noteq> q \<Longrightarrow> i + length vs \<le> unat z \<Longrightarrow> j < unat w \<Longrightarrow>
     peek (poke_list (p + of_nat i) vs s) (q + of_nat j) = peek s (q + of_nat j)"
proof (induction vs arbitrary: s i)
  case (Cons v vs)
  note w = poke_ok [OF Cons.prems(1,2), of i v]
  have "p + of_nat i \<noteq> q + of_nat j"
    by (rule sepD [OF blocks_apart [OF Cons.prems(1-4)]]) (use Cons.prems in simp_all)
  then show ?case
    using Cons.IH [of "poke (p + of_nat i) v s" "Suc i"] w Cons.prems by (simp add: peek_poke ac_simps)
qed simp

text \<open>Two requests in a row: two blocks that overlap neither each other nor an old one.\<close>

lemma alloc_pair:
  assumes "ok s" "ready s n" "0 < unat n" "unat n + 16384 \<le> 2 ^ 32"
    and "\<And>p s1. alloc n s = Some (p, s1) \<Longrightarrow> ready s1 k" "0 < unat k" "unat k + 16384 \<le> 2 ^ 32"
  obtains p q z w s1 s2 where "alloc n s = Some (p, s1)" "alloc k s1 = Some (q, s2)" "ok s2"
    "n \<le> z" "k \<le> w" "blocks s2 = insert (q, w) (insert (p, z) (blocks s))" "p \<noteq> 0" "q \<noteq> 0" "p \<noteq> q"
    "\<forall>v. (p, v) \<notin> blocks s" "\<forall>v. (q, v) \<notin> blocks s" "sep p (unat z) q (unat w)"
    "\<forall>(r, v) \<in> blocks s. \<forall>i < unat v. peek s2 (r + of_nat i) = peek s (r + of_nat i)"
proof -
  obtain p z s1 where 1: "alloc n s = Some (p, s1)" "ok s1" "p \<noteq> 0" "n \<le> z" "blocks s1 = insert (p, z) (blocks s)"
    "\<forall>w. (p, w) \<notin> blocks s"
    "\<forall>(q, w) \<in> blocks s. \<forall>i < unat w. peek s1 (q + of_nat i) = peek s (q + of_nat i)"
    using alloc_ok [OF assms(1-4)] by blast
  obtain q w s2 where 2: "alloc k s1 = Some (q, s2)" "ok s2" "q \<noteq> 0" "k \<le> w" "blocks s2 = insert (q, w) (blocks s1)"
    "\<forall>w. (q, w) \<notin> blocks s1"
    "\<forall>(q, w) \<in> blocks s1. \<forall>i < unat w. peek s2 (q + of_nat i) = peek s1 (q + of_nat i)"
    using alloc_ok [OF 1(2) assms(5) [OF 1(1)] assms(6,7)] by blast
  have ne: "p \<noteq> q" and nq: "\<forall>v. (q, v) \<notin> blocks s" using 1(5) 2(6) by auto
  have sp: "sep p (unat z) q (unat w)" using blocks_apart [OF 2(2) _ _ ne] 1(5) 2(5) by simp
  have "\<forall>(r, v) \<in> blocks s. \<forall>i < unat v. peek s2 (r + of_nat i) = peek s (r + of_nat i)"
    using 1(5,7) 2(7) by fastforce
  with 2(5) [unfolded 1(5)] show thesis by (intro that [OF 1(1) 2(1,2) 1(4) 2(4) _ 1(3) 2(3) ne 1(6) nq sp])
qed

end

definition heap_ready :: "heap_state \<Rightarrow> u32 \<Rightarrow> bool" where
  "heap_ready s sz \<longleftrightarrow> (\<exists>bs. heap_ok s bs \<and> take_block KHEAP_START bs sz False \<noteq> None) \<or> can_expand s sz False"

lemma kmalloc_ok:
  assumes "heap_inv s" "heap_ready s sz" "0 < unat sz" "unat sz + 16384 \<le> 2 ^ 32"
  obtains p s' where "kmalloc sz s = Some (p, s')" "granted s sz p s'"
proof -
  obtain bs where bs: "heap_ok s bs" using assms(1) by (auto simp: heap_inv_def)
  have "take_block KHEAP_START bs sz False \<noteq> None \<or> can_expand s sz False"
    using assms(2) heap_ok_unique [OF bs] by (auto simp: heap_ready_def)
  then have ex: "take_block KHEAP_START bs sz False \<noteq> None \<or>
      can_expand s sz False \<and> (False \<longrightarrow> tail_ok bs)" by simp
  show thesis
    by (rule kmalloc_internal_ok [OF bs assms(3,4) ex]) (rule that, simp_all only: kmalloc_def)
qed

interpretation kheap: heap_source kmalloc "\<lambda>p s. snd (kheap_free p s)" heap_inv heap_ready live hmem store_byte
proof unfold_locales
  fix s :: heap_state and n p z q w :: u32 and i :: nat and v :: u8 and a b :: u32
  show "\<exists>p z s'. kmalloc n s = Some (p, s') \<and> heap_inv s' \<and> p \<noteq> 0 \<and> n \<le> z \<and> live s' = insert (p, z) (live s) \<and>
        (\<forall>w. (p, w) \<notin> live s) \<and>
        (\<forall>(q, w) \<in> live s. \<forall>i < unat w. hmem s' (q + of_nat i) = hmem s (q + of_nat i))"
    if "heap_inv s" "heap_ready s n" "0 < unat n" "unat n + 16384 \<le> 2 ^ 32"
    by (rule kmalloc_ok [OF that]) (auto simp: granted_def kept_def)
  show "heap_inv (snd (kheap_free p s)) \<and> live (snd (kheap_free p s)) = live s - {(p, z)} \<and>
        (\<forall>(q, w) \<in> live s - {(p, z)}. \<forall>i < unat w.
          hmem (snd (kheap_free p s)) (q + of_nat i) = hmem s (q + of_nat i))"
    if "heap_inv s" "(p, z) \<in> live s" "0 < unat z"
    by (rule kheap_free_ok [OF that]) (simp add: kept_def)
  show "sep p (unat z) q (unat w)" if "heap_inv s" "(p, z) \<in> live s" "(q, w) \<in> live s" "p \<noteq> q"
    using that by (rule live_apart)
  show "p \<noteq> 0 \<and> unat p + unat z < 2 ^ 32" if "heap_inv s" "(p, z) \<in> live s"
    using live_range [OF that] unat_less_32 [of "heap_end s"] by simp
  show "heap_inv (store_byte (p + of_nat i) v s) \<and> live (store_byte (p + of_nat i) v s) = live s"
    if "heap_inv s" "(p, z) \<in> live s" "i < unat z"
    using store_byte_ok [OF that] by simp
  show "hmem (store_byte a v s) b = (if b = a then v else hmem s b)" by (simp add: store_byte_def)
qed

section \<open>Addresses of the heap in physical memory\<close>

lemma entry_page: "entry m d a = entry m d (page_base a)"
proof -
  have "drop_bit 22 a = drop_bit 22 (page_base a) \<and> drop_bit 12 a AND 0x3FF = drop_bit 12 (page_base a) AND (0x3FF::u32)"
    by (rule same_page_iff [THEN iffD1]) (simp add: page_base_idem)
  then show ?thesis by (simp add: entry_def pde_of_def pde_addr_def pte_addr_def Let_def)
qed

lemma heap_page:
  assumes "KHEAP_START \<le> a" "a < e"
  shows "page_base a \<in> heap_pages e"
proof -
  have "unat KHEAP_START = 4096 * 0xD0000" by (simp add: KHEAP_START_def)
  then have "KHEAP_START \<le> page_base a"
    using assms(1) by (simp add: word_le_nat_alt unat_page_base)
  moreover have "page_base a \<le> a" by (simp add: word_le_nat_alt unat_page_base)
  ultimately show ?thesis using assms(2) by (auto simp: heap_pages_def page_base_idem)
qed

lemma heap_translate:
  assumes inv: "heap_inv s" and a: "KHEAP_START \<le> a" "a < heap_end s"
  defines "d \<equiv> current_directory (vm s)"
  obtains x where "translate (phys (vm s)) d a = Some x" "page_base x = frame_of (vm s) (page_base a)"
    "x AND 0xFFF = a AND 0xFFF" "page_base x \<notin> free_frames (pmm (vm s))" "page_base x \<notin> dir_pages (phys (vm s)) d"
proof -
  have b: "backed (vm s) (heap_pages (heap_end s))" using inv by (auto simp: heap_inv_def heap_ok_def)
  note p = heap_page [OF a]
  have pr: "present (entry (phys (vm s)) d a)"
    using b p entry_page [of _ _ a] unfolding backed_def d_def by metis
  then obtain x where x: "translate (phys (vm s)) d a = Some x" by (auto simp: translate_def Let_def)
  from translate_page [OF x] have "page_base x = frame_of (vm s) (page_base a)" "x AND 0xFFF = a AND 0xFFF"
    using entry_page [of "phys (vm s)" d a] by (simp_all add: frame_of_def d_def)
  with x b p show thesis by (intro that [of x]) (auto simp: backed_def d_def)
qed

lemma used_empty: "used a bs = {} \<Longrightarrow> b \<in> set bs \<Longrightarrow> snd b"
  by (induction bs arbitrary: a) (auto split: if_splits)

lemma merged_holes: "merged bs \<Longrightarrow> \<forall>b \<in> set bs. snd b \<Longrightarrow> bs \<noteq> [] \<Longrightarrow> \<exists>sz. bs = [(sz, True)]"
  by (cases bs rule: merged.cases) auto

text \<open>
  Any sequence of requests that can be served, of writes into blocks and of frees of blocks in use, from a heap
  \<open>s0\<close> with nothing in use; the set is the addresses handed out and not yet given back.
\<close>

inductive heap_history :: "heap_state \<Rightarrow> heap_state \<Rightarrow> u32 set \<Rightarrow> bool" for s0 where
  start: "heap_history s0 s0 {}"
| alloc: "heap_history s0 s L \<Longrightarrow> heap_ready s n \<Longrightarrow> 0 < unat n \<Longrightarrow> unat n + 16384 \<le> 2 ^ 32 \<Longrightarrow>
     kmalloc n s = Some (p, s') \<Longrightarrow> heap_history s0 s' (insert p L)"
| aligned: "heap_history s0 s L \<Longrightarrow> heap_ok s bs \<Longrightarrow>
     take_block KHEAP_START bs n True \<noteq> None \<or> can_expand s n True \<and> tail_ok bs \<Longrightarrow> 0 < unat n \<Longrightarrow> unat n + 16384 \<le> 2 ^ 32 \<Longrightarrow>
     kmalloc_a n s = Some (p, s') \<Longrightarrow> heap_history s0 s' (insert p L)"
| put_byte: "heap_history s0 s L \<Longrightarrow> (p, z) \<in> live s \<Longrightarrow> i < unat z \<Longrightarrow> heap_history s0 (store_byte (p + of_nat i) v s) L"
| free: "heap_history s0 s L \<Longrightarrow> p \<in> L \<Longrightarrow> heap_history s0 (snd (kheap_free p s)) (L - {p})"

lemma granted_live: "granted s n p s' \<Longrightarrow> 0 < unat n \<Longrightarrow> \<forall>(q, w) \<in> live s. 0 < unat w \<Longrightarrow>
    heap_inv s' \<and> fst ` live s' = insert p (fst ` live s) \<and> (\<forall>(q, w) \<in> live s'. 0 < unat w)"
  by (auto simp: granted_def word_le_nat_alt)

lemma live_unique: "heap_inv s \<Longrightarrow> (p, z) \<in> live s \<Longrightarrow> (p, w) \<in> live s \<Longrightarrow> z = w"
proof -
  assume "heap_inv s" "(p, z) \<in> live s" "(p, w) \<in> live s"
  then obtain bs where bs: "heap_ok s bs" "(p, z) \<in> used KHEAP_START bs" "(p, w) \<in> used KHEAP_START bs"
    using live_used by (auto simp: heap_inv_def)
  have "unat KHEAP_START + span bs < 2 ^ 32" using heap_ok_bounds(1) [OF bs(1)] by simp
  from used_disjoint [OF bs(2,3) this] show "z = w" by auto
qed

lemma heap_history_inv:
  assumes "heap_inv s0" "live s0 = {}"
  shows "heap_history s0 s L \<Longrightarrow> heap_inv s \<and> fst ` live s = L \<and> (\<forall>(q, w) \<in> live s. 0 < unat w)"
proof (induction rule: heap_history.induct)
  case start
  with assms show ?case by simp
next
  case (alloc s L n p s')
  then obtain bs where bs: "heap_ok s bs" by (auto simp: heap_inv_def)
  have "take_block KHEAP_START bs n False \<noteq> None \<or> can_expand s n False \<and> (False \<longrightarrow> tail_ok bs)"
    using alloc.hyps(2) heap_ok_unique [OF bs] unfolding heap_ready_def by blast
  then obtain q t where "kmalloc_internal n False s = Some (q, t)" "granted s n q t"
    by (rule kmalloc_internal_ok [OF bs alloc.hyps(3,4)]) (rule that)
  then have "granted s n p s'" using alloc.hyps(5) by (simp add: kmalloc_def)
  then show ?case using granted_live alloc.hyps(3) alloc.IH by blast
next
  case (aligned s L bs n p s')
  then have "take_block KHEAP_START bs n True \<noteq> None \<or> can_expand s n True \<and> (True \<longrightarrow> tail_ok bs)" by simp
  then obtain q t where "kmalloc_internal n True s = Some (q, t)" "granted s n q t"
    by (rule kmalloc_internal_ok [OF aligned.hyps(2,4,5)]) (rule that)
  then have "granted s n p s'" using aligned.hyps(6) by (simp add: kmalloc_a_def)
  then show ?case using granted_live aligned.hyps(4) aligned.IH by blast
next
  case (put_byte s L p z i v)
  then show ?case using store_byte_ok [of s p z i] by auto
next
  case (free s L p)
  then obtain z where z: "(p, z) \<in> live s" by auto
  then have z0: "0 < unat z" using free.IH by auto
  have inv: "heap_inv s" using free.IH by simp
  obtain s' where s': "kheap_free p s = (Freed, s')" "heap_inv s'" "live s' = live s - {(p, z)}"
    by (rule kheap_free_ok [OF inv z z0]) (rule that)
  have "fst ` (live s - {(p, z)}) = fst ` live s - {p}" using live_unique [OF inv z] by force
  then show ?case using s' free.IH by auto
qed

lemma empty_heap_header:
  assumes "heap_inv s" and "live s = {}"
  shows "get_header (hmem s) KHEAP_START =
    \<lparr>magic = KHEAP_MAGIC, is_hole = 1, hsize = heap_end s - KHEAP_START - 20, hnext = 0, hprev = 0\<rparr>"
proof -
  obtain bs where bs: "heap_ok s bs" using assms(1) by (auto simp: heap_inv_def)
  have "\<forall>b \<in> set bs. snd b" using assms(2) used_empty unfolding live_used [OF bs] by blast
  then obtain sz where sz: "bs = [(sz, True)]" using merged_holes heap_okD(3,4) [OF bs] by blast
  have "get_header (hmem s) KHEAP_START = block_header (sz, True) 0 0"
    using heap_okD(2) [OF bs] by (auto simp: heap_at_def sz)
  moreover have "heap_end s - KHEAP_START - 20 = sz"
    using heap_ok_bounds(2) [OF bs] by (simp add: sz)
  ultimately show ?thesis by (simp add: block_header_def)
qed





section \<open>A heap on the boot state\<close>

lemma frames_for_mono:
  assumes "frames_for v I n" "J \<subseteq> I" "m \<le> n" shows "frames_for v J m"
proof -
  have s: "absent v J \<subseteq> absent v I" using assms(2) by (auto simp: absent_def)
  then have "card (absent v J) \<le> card (absent v I)" by (rule card_mono [OF finite_u32])
  then show ?thesis using assms(1,3) s by (auto simp: frames_for_def)
qed

lemma room_frames: "room v I n \<Longrightarrow> frames_for v I n"
proof -
  assume r: "room v I n"
  have "card (low_frames (pmm v)) \<le> card (free_frames (pmm v))"
    by (rule card_mono [OF finite_u32]) (auto simp: low_frames_def)
  then show ?thesis using r by (auto simp: room_def frames_for_def)
qed

lemma new_dirs_832:
  assumes "unat e = 0xD0000000 + 4096 * j" "j + n \<le> 1024"
  shows "new_dirs e n \<subseteq> {832}"
proof -
  have "drop_bit 22 (e + of_nat (4096 * i)) = 832" if "i < n" for i
  proof -
    have "unat (e + of_nat (4096 * i)) = 0xD0000000 + 4096 * (j + i)"
      using unat_add_of_nat [of e "4096 * i"] assms that by simp
    moreover have "(0xD0000000 + 4096 * (j + i)) div 4194304 = 832" using assms(2) that by simp
    ultimately show ?thesis by (simp add: word_unat_eq_iff unat_drop_22 del: of_nat_mult)
  qed
  then show ?thesis by (auto simp: new_dirs_def)
qed

definition boot_heap :: "vm_state \<Rightarrow> heap_state" where
  "boot_heap v = \<lparr>vm = v, hmem = (\<lambda>_. 0), heap_start = 0, heap_end = KHEAP_START\<rparr>"

lemma boot_heap_ok:
  obtains v s where "vmm_init boot_state = Some v" "vmm_ok v" "frames_for v {832} 400"
    "kheap_init (boot_heap v) = Some s" "heap_ok s [(KHEAP_INITIAL_SIZE - 20, True)]" "frames_for (vm s) {832} 100"
proof -
  let ?I = "{0, 1, 768, 769, 1012, 832} :: u32 set"
  obtain v where v: "vmm_init boot_state = Some v" "vmm_ok v" "room v ?I 400"
    by (rule vmm_init_spec [OF boot_state_ok, of ?I 400])
       (use boot_needed in \<open>auto simp: boot_state_def kmain_low_frames\<close>)
  then have fr: "frames_for v {832} 400" by (intro frames_for_mono [OF room_frames [OF v(3)]]) simp_all
  have "frames_for (vm (boot_heap v)) {832} (256 + 100)"
    using frames_for_mono [OF fr order_refl] by (simp add: boot_heap_def)
  moreover have "new_dirs KHEAP_START 256 \<subseteq> {832}"
    by (rule new_dirs_832 [of _ 0]) (simp_all add: KHEAP_START_def)
  moreover have "vmm_ok (vm (boot_heap v))" using v(2) by (simp add: boot_heap_def)
  ultimately show thesis using kheap_init_ok that v(1,2) fr by blast
qed

section \<open>Properties\<close>

text \<open>
  C11: with 256 frames and the page tables they need, \<^verbatim>\<open>kheap_init\<close> returns a heap in which nothing
  is in use: one hole of 1 MB less its header, every page of it backed by a frame of its own.
\<close>

theorem kheap_init_correct:
  assumes "vmm_ok (vm s)" and "can_grow (vm s) KHEAP_START 256"
  shows "\<exists>s'. kheap_init s = Some s' \<and> heap_inv s' \<and> live s' = {} \<and> heap_end s' = 0xD0100000 \<and>
    get_header (hmem s') KHEAP_START =
      \<lparr>magic = KHEAP_MAGIC, is_hole = 1, hsize = 0xFFFEC, hnext = 0, hprev = 0\<rparr>"
proof -
  obtain s' where s': "kheap_init s = Some s'" "heap_ok s' [(KHEAP_INITIAL_SIZE - 20, True)]"
    using kheap_init_ok [OF assms(1) order_refl, of 0] assms(2) by (auto simp: can_grow_def)
  have "unat (heap_end s') = 0xD0100000"
    using heap_okD(5) [OF s'(2)] by (simp add: KHEAP_START_def KHEAP_INITIAL_SIZE_def)
  moreover have "get_header (hmem s') KHEAP_START = block_header (KHEAP_INITIAL_SIZE - 20, True) 0 0"
    using heap_okD(2) [OF s'(2)] by (auto simp: heap_at_def)
  ultimately show ?thesis
    using s' live_used [OF s'(2)]
    by (intro exI [of _ s']) (auto simp: heap_inv_def block_header_def KHEAP_INITIAL_SIZE_def word_unat_eq_iff)
qed

theorem kheap_init_correct_witness:
  "\<exists>v s. vmm_init boot_state = Some v \<and> kheap_init (boot_heap v) = Some s \<and> live s = {}"
proof -
  obtain v s where v: "vmm_init boot_state = Some v" "vmm_ok v" "frames_for v {832} 400"
    by (rule boot_heap_ok)
  have "new_dirs KHEAP_START 256 \<subseteq> {832}" by (rule new_dirs_832 [of _ 0]) (simp_all add: KHEAP_START_def)
  then have "can_grow v KHEAP_START 256"
    unfolding can_grow_def by (intro frames_for_mono [OF v(3)]) simp_all
  with kheap_init_correct [of "boot_heap v"] v(1,2) show ?thesis by (auto simp: boot_heap_def)
qed

text \<open>
  C12: \<^verbatim>\<open>kmalloc\<close> of a positive size returns whenever a hole fits or the heap can grow once. The
  block is at least as large as asked, not NULL, different from every block in use; the blocks in
  use are the old ones and it, and not a byte of the old ones has changed.
\<close>

theorem kmalloc_sound:
  assumes "heap_inv s" and "heap_ready s sz" and "0 < unat sz" and "unat sz + 16384 \<le> 2 ^ 32"
  shows "\<exists>p z s'. kmalloc sz s = Some (p, s') \<and> heap_inv s' \<and> p \<noteq> 0 \<and> sz \<le> z \<and>
    live s' = insert (p, z) (live s) \<and> (\<forall>w. (p, w) \<notin> live s) \<and>
    (\<forall>(q, w) \<in> live s. sep p (unat z) q (unat w) \<and>
       (\<forall>i < unat w. hmem s' (q + of_nat i) = hmem s (q + of_nat i)))"
proof -
  obtain p z s' where s': "kmalloc sz s = Some (p, s')" "heap_inv s'" "p \<noteq> 0" "sz \<le> z"
    "live s' = insert (p, z) (live s)" "\<forall>w. (p, w) \<notin> live s"
    "\<forall>(q, w) \<in> live s. \<forall>i < unat w. hmem s' (q + of_nat i) = hmem s (q + of_nat i)"
    using kheap.alloc_ok [OF assms] by blast
  moreover have "sep p (unat z) q (unat w)" if "(q, w) \<in> live s" for q w
    using kheap.blocks_apart [OF s'(2), of p z q w] s'(5,6) that by auto
  ultimately show ?thesis by (intro exI [of _ p] exI [of _ z] exI [of _ s']) blast
qed

theorem kmalloc_sound_witness:
  "\<exists>v s p s'. vmm_init boot_state = Some v \<and> kheap_init (boot_heap v) = Some s \<and>
     kmalloc 32 s = Some (p, s') \<and> p \<noteq> 0"
proof -
  obtain v s where s: "vmm_init boot_state = Some v" "kheap_init (boot_heap v) = Some s"
    "heap_ok s [(KHEAP_INITIAL_SIZE - 20, True)]"
    by (rule boot_heap_ok)
  have "take_block KHEAP_START [(KHEAP_INITIAL_SIZE - 20, True)] 32 False \<noteq> None"
    by (simp add: padding_def KHEAP_INITIAL_SIZE_def)
  then have "heap_inv s" "heap_ready s 32" using s(3) by (auto simp: heap_inv_def heap_ready_def)
  with kmalloc_sound [of s 32] s(1,2) show ?thesis by auto
qed

text \<open>
  C13: \<^verbatim>\<open>kmalloc_a\<close> does the same with a page-aligned result, provided a block fits already or the
  hole at the end of the heap can be aligned (there is none, or its padding leaves room for a header).
\<close>

theorem kmalloc_a_aligned:
  assumes "heap_ok s bs" and "0 < unat sz" and "unat sz + 16384 \<le> 2 ^ 32"
    and "take_block KHEAP_START bs sz True \<noteq> None \<or> can_expand s sz True \<and> tail_ok bs"
  shows "\<exists>p z s'. kmalloc_a sz s = Some (p, s') \<and> p AND 0xFFF = 0 \<and> heap_inv s' \<and> sz \<le> z \<and>
    live s' = insert (p, z) (live s) \<and> (\<forall>w. (p, w) \<notin> live s)"
proof -
  have "take_block KHEAP_START bs sz True \<noteq> None \<or> can_expand s sz True \<and> (True \<longrightarrow> tail_ok bs)"
    using assms(4) by simp
  then obtain p s' where "kmalloc_internal sz True s = Some (p, s')" "granted s sz p s'" "page_base p = p"
    by (rule kmalloc_internal_ok [OF assms(1-3)]) blast
  then show ?thesis by (auto simp: kmalloc_a_def granted_def page_base_offset)
qed

theorem kmalloc_a_aligned_witness:
  "\<exists>v s p s'. vmm_init boot_state = Some v \<and> kheap_init (boot_heap v) = Some s \<and>
     kmalloc_a 4096 s = Some (p, s') \<and> p AND 0xFFF = 0"
proof -
  obtain v s where s: "vmm_init boot_state = Some v" "kheap_init (boot_heap v) = Some s"
    "heap_ok s [(KHEAP_INITIAL_SIZE - 20, True)]"
    by (rule boot_heap_ok)
  have "take_block KHEAP_START [(KHEAP_INITIAL_SIZE - 20, True)] 4096 True \<noteq> None"
    by (simp add: padding_def KHEAP_INITIAL_SIZE_def KHEAP_START_def)
  with kmalloc_a_aligned [OF s(3), of 4096] s(1,2) show ?thesis by auto
qed

text \<open>
  C14: \<^verbatim>\<open>kfree\<close> of a block in use takes exactly that block away, whatever its neighbours are, keeps
  the heap's invariant (holes merged) and the contents of every other block.
\<close>

theorem kheap_free_sound:
  assumes "heap_inv s" and "(p, z) \<in> live s" and "0 < unat z"
  shows "\<exists>s'. kheap_free p s = (Freed, s') \<and> heap_inv s' \<and> live s' = live s - {(p, z)} \<and>
    (\<forall>(q, w) \<in> live s'. \<forall>i < unat w. hmem s' (q + of_nat i) = hmem s (q + of_nat i))"
  by (rule kheap_free_ok [OF assms]) (auto simp: kept_def)

lemma boot_kmalloc:
  assumes "take_block KHEAP_START [(KHEAP_INITIAL_SIZE - 20, True)] sz False = Some (bs, p)"
    and "0 < unat sz" "unat sz + 8192 \<le> 2 ^ 32"
  obtains v s s' where "vmm_init boot_state = Some v" "kheap_init (boot_heap v) = Some s"
    "kmalloc sz s = Some (p, s')" "granted s sz p s'" "heap_ok s' bs" "frames_for (vm s') {832} 100"
    "heap_end s' = 0xD0100000"
proof -
  obtain v s where s: "vmm_init boot_state = Some v" "kheap_init (boot_heap v) = Some s"
    "heap_ok s [(KHEAP_INITIAL_SIZE - 20, True)]" "frames_for (vm s) {832} 100"
    by (rule boot_heap_ok)
  obtain s' where s': "kmalloc_internal sz False s = Some (p, s')" "granted s sz p s'" "heap_ok s' bs" "vm s' = vm s"
    by (rule kmalloc_found [OF s(3) assms(2,3,1)])
  have "span bs = 0x100000"
    using take_block_used [OF assms(1)] by (simp add: KHEAP_START_def KHEAP_INITIAL_SIZE_def)
  then have "heap_end s' = 0xD0100000"
    using heap_okD(5) [OF s'(3)] by (simp add: KHEAP_START_def word_unat_eq_iff)
  with s s' show thesis by (intro that [of v s s']) (simp_all add: kmalloc_def)
qed

theorem kheap_free_sound_witness:
  "\<exists>v s p z s'. vmm_init boot_state = Some v \<and> kheap_init (boot_heap v) = Some s \<and>
     kmalloc 32 s = Some (p, s') \<and> live s' = {(p, z)} \<and>
     fst (kheap_free p s') = Freed \<and> live (snd (kheap_free p s')) = {}"
proof -
  have t: "take_block KHEAP_START [(KHEAP_INITIAL_SIZE - 20, True)] 32 False =
      Some ([(32, False), (0xFFFB8, True)], 0xD0000014)"
    by (simp add: padding_def cut_block_def KHEAP_INITIAL_SIZE_def KHEAP_START_def)
  obtain v s s' where s: "vmm_init boot_state = Some v" "kheap_init (boot_heap v) = Some s"
    "kmalloc 32 s = Some (0xD0000014, s')" "heap_ok s' [(32, False), (0xFFFB8, True)]"
    by (rule boot_kmalloc [OF t]) simp_all
  have "live s' = {(0xD0000014, 32)}" using live_used [OF s(4)] by (simp add: KHEAP_START_def)
  moreover have "heap_inv s'" using s(4) by (auto simp: heap_inv_def)
  ultimately show ?thesis using kheap_free_sound [of s' "0xD0000014" 32] s(1-3) by auto
qed

text \<open>
  C15: memory is never lost to fragmentation. From a fresh heap, after any sequence of \<^verbatim>\<open>kmalloc\<close>,
  \<^verbatim>\<open>kmalloc_a\<close>, writes into blocks and \<^verbatim>\<open>kfree\<close> of blocks, in any order, the blocks in use are those that were
  handed out and not given back; once all are given back the heap is one single hole again, from \<open>KHEAP_START\<close>
  to \<open>heap_end\<close>, which every \<^verbatim>\<open>kfree\<close> has to merge for.
\<close>

theorem kheap_coalesced:
  assumes "heap_inv s0" and "live s0 = {}" and "heap_history s0 s L"
  shows "fst ` live s = L \<and> (L = {} \<longrightarrow> get_header (hmem s) KHEAP_START =
    \<lparr>magic = KHEAP_MAGIC, is_hole = 1, hsize = heap_end s - KHEAP_START - 20, hnext = 0, hprev = 0\<rparr>)"
  using heap_history_inv [OF assms] by (auto intro: empty_heap_header)

text \<open>Two blocks, given back in the order in which they were handed out.\<close>

theorem kheap_coalesced_witness:
  "\<exists>v s p1 s1 p2 s2 s'. vmm_init boot_state = Some v \<and> kheap_init (boot_heap v) = Some s \<and>
     kmalloc 32 s = Some (p1, s1) \<and> kmalloc 32 s1 = Some (p2, s2) \<and>
     s' = snd (kheap_free p2 (snd (kheap_free p1 s2))) \<and>
     hsize (get_header (hmem s') KHEAP_START) = heap_end s' - KHEAP_START - 20"
proof -
  have t: "take_block KHEAP_START [(KHEAP_INITIAL_SIZE - 20, True)] 32 False =
      Some ([(32, False), (0xFFFB8, True)], 0xD0000014)"
    by (simp add: padding_def cut_block_def KHEAP_INITIAL_SIZE_def KHEAP_START_def)
  obtain v s s1 where s: "vmm_init boot_state = Some v" "kheap_init (boot_heap v) = Some s"
    "kmalloc 32 s = Some (0xD0000014, s1)" "heap_ok s1 [(32, False), (0xFFFB8, True)]"
    by (rule boot_kmalloc [OF t]) simp_all
  obtain v' s0 where s0: "vmm_init boot_state = Some v'" "kheap_init (boot_heap v') = Some s0"
    "heap_ok s0 [(KHEAP_INITIAL_SIZE - 20, True)]" by (rule boot_heap_ok)
  have h0: "heap_ok s [(KHEAP_INITIAL_SIZE - 20, True)]" using s0 s(1,2) by simp
  have i0: "heap_inv s" "live s = {}" using h0 live_used [OF h0] by (auto simp: heap_inv_def)
  have r0: "heap_ready s 32" using h0 t unfolding heap_ready_def by blast
  have "take_block KHEAP_START [(32, False), (0xFFFB8, True)] 32 False \<noteq> None" by (simp add: padding_def)
  then have r1: "heap_ready s1 32" using s(4) unfolding heap_ready_def by blast
  have i1: "heap_inv s1" using s(4) by (auto simp: heap_inv_def)
  obtain p2 s2 where s2: "kmalloc 32 s1 = Some (p2, s2)" "\<forall>w. (p2, w) \<notin> live s1"
    using kmalloc_sound [OF i1 r1] by auto
  have l1: "live s1 = {(0xD0000014, 32)}" using live_used [OF s(4)] by (simp add: KHEAP_START_def)
  then have ne: "p2 \<noteq> 0xD0000014" using s2(2) by auto
  have "heap_history s s1 {0xD0000014}"
    using heap_history.alloc [OF heap_history.start r0 _ _ s(3)] by simp
  then have "heap_history s s2 {p2, 0xD0000014}" by (rule heap_history.alloc [OF _ r1 _ _ s2(1)]) simp_all
  then have "heap_history s (snd (kheap_free 0xD0000014 s2)) ({p2, 0xD0000014} - {0xD0000014})"
    by (rule heap_history.free) simp
  then have "heap_history s (snd (kheap_free p2 (snd (kheap_free 0xD0000014 s2)))) ({p2, 0xD0000014} - {0xD0000014} - {p2})"
    by (rule heap_history.free) (use ne in simp)
  from kheap_coalesced [OF i0 this] s(1-3) s2(1) show ?thesis by auto
qed

text \<open>
  Through the page tables, different bytes of the heap are different bytes of physical
  memory, in frames that the allocator does not hold and that no page table uses. The heap's
  memory may be treated as memory of its own.
\<close>

theorem heap_bytes_distinct:
  assumes "heap_inv s" and "KHEAP_START \<le> a" and "a < heap_end s" and "KHEAP_START \<le> b" and "b < heap_end s"
    and "a \<noteq> b"
  shows "\<exists>x y. translate (phys (vm s)) (current_directory (vm s)) a = Some x \<and>
    translate (phys (vm s)) (current_directory (vm s)) b = Some y \<and> x \<noteq> y \<and>
    page_base x \<notin> free_frames (pmm (vm s)) \<and> page_base x \<notin> dir_pages (phys (vm s)) (current_directory (vm s))"
proof -
  let ?t = "translate (phys (vm s)) (current_directory (vm s))"
  obtain x where x: "?t a = Some x" "page_base x = frame_of (vm s) (page_base a)" "x AND 0xFFF = a AND 0xFFF"
    "page_base x \<notin> free_frames (pmm (vm s))" "page_base x \<notin> dir_pages (phys (vm s)) (current_directory (vm s))"
    by (rule heap_translate [OF assms(1-3)])
  obtain y where y: "?t b = Some y" "page_base y = frame_of (vm s) (page_base b)" "y AND 0xFFF = b AND 0xFFF"
    by (rule heap_translate [OF assms(1,4,5)])
  have "x \<noteq> y"
  proof
    assume e: "x = y"
    have "inj_on (frame_of (vm s)) (heap_pages (heap_end s))"
      using assms(1) by (auto simp: heap_inv_def heap_ok_def backed_def)
    then have "page_base a = page_base b"
      using x(2) y(2) e heap_page [OF assms(2,3)] heap_page [OF assms(4,5)] by (auto dest: inj_onD)
    then have "a = b" using x(3) y(3) e page_base_split [of a] page_base_split [of b] by simp
    with assms(6) show False ..
  qed
  with x y show ?thesis by blast
qed

theorem heap_bytes_distinct_witness:
  "\<exists>v s x y. vmm_init boot_state = Some v \<and> kheap_init (boot_heap v) = Some s \<and>
     translate (phys (vm s)) (current_directory (vm s)) 0xD0000000 = Some x \<and>
     translate (phys (vm s)) (current_directory (vm s)) 0xD0000FFF = Some y \<and> x \<noteq> y"
proof -
  obtain v s where s: "vmm_init boot_state = Some v" "kheap_init (boot_heap v) = Some s"
    "heap_ok s [(KHEAP_INITIAL_SIZE - 20, True)]"
    by (rule boot_heap_ok)
  have "heap_inv s" "unat (heap_end s) = 0xD0100000"
    using s(3) heap_okD(5) [OF s(3)] by (auto simp: heap_inv_def KHEAP_START_def KHEAP_INITIAL_SIZE_def)
  from heap_bytes_distinct [OF this(1), of "0xD0000000" "0xD0000FFF"] this(2) s(1,2) show ?thesis
    by (auto simp: KHEAP_START_def word_less_nat_alt)
qed



end
