(* ===== verification/Chain.thy ===== *)
theory Chain
  imports Prelude
begin

text \<open>
  Singly linked lists through a \<open>next\<close> pointer that is part of the nodes: the task list of
  \<^verbatim>\<open>task.c\<close> and the wait queues of \<^verbatim>\<open>mutex.c\<close> and \<^verbatim>\<open>cond.c\<close>. A pointer is a 32-bit address and 0
  is \<^verbatim>\<open>NULL\<close>. \<open>chain nx a xs\<close> says that the list that starts at \<open>a\<close> has the nodes \<open>xs\<close>.
\<close>

primrec chain :: "(u32 \<Rightarrow> u32) \<Rightarrow> u32 \<Rightarrow> u32 list \<Rightarrow> bool" where
  "chain nx a [] \<longleftrightarrow> a = 0"
| "chain nx a (x # xs) \<longleftrightarrow> a = x \<and> x \<noteq> 0 \<and> chain nx (nx x) xs"

text \<open>The walk \<^verbatim>\<open>while (p->next) p = p->next\<close>; it may not end.\<close>

partial_function (option) chain_end :: "(u32 \<Rightarrow> u32) \<Rightarrow> u32 \<Rightarrow> u32 option" where
  "chain_end nx a = (if nx a \<noteq> 0 then chain_end nx (nx a) else Some a)"

lemma chain_nonzero: "chain nx a xs \<Longrightarrow> x \<in> set xs \<Longrightarrow> x \<noteq> 0"
  by (induction xs arbitrary: a) auto

lemma chain_0 [simp]: "chain nx 0 xs \<longleftrightarrow> xs = []"
  by (cases xs) auto

lemma chain_start: "chain nx a xs \<Longrightarrow> xs \<noteq> [] \<Longrightarrow> a = hd xs \<and> a \<noteq> 0"
  by (cases xs) auto

lemma chain_empty: "chain nx a xs \<Longrightarrow> a = 0 \<longleftrightarrow> xs = []"
  by (cases xs) auto

lemma chain_cong: "(\<And>x. x \<in> set xs \<Longrightarrow> nx x = nx' x) \<Longrightarrow> chain nx a xs = chain nx' a xs"
  by (induction xs arbitrary: a) auto

lemma chain_unique: "chain nx a xs \<Longrightarrow> chain nx a ys \<Longrightarrow> xs = ys"
proof (induction xs arbitrary: a ys)
  case (Cons x xs)
  then show ?case by (cases ys) auto
qed simp

text \<open>A node that follows a chain of distinct nodes: \<open>nx\<close> reads the next one.\<close>

lemma chain_next: "chain nx a (xs @ x # ys) \<Longrightarrow> nx x = (if ys = [] then 0 else hd ys)"
  by (induction xs arbitrary: a) (cases ys; auto)+

lemma chain_suffix: "chain nx a (xs @ x # ys) \<Longrightarrow> chain nx x (x # ys)"
  by (induction xs arbitrary: a) auto

text \<open>The walk ends at the last node.\<close>

lemma chain_end_last: "chain nx a xs \<Longrightarrow> xs \<noteq> [] \<Longrightarrow> chain_end nx a = Some (last xs)"
proof (induction xs arbitrary: a)
  case (Cons x xs)
  show ?case
  proof (cases xs)
    case Nil
    then show ?thesis using Cons.prems by (subst chain_end.simps) simp
  next
    case (Cons y ys)
    then have "nx x \<noteq> 0" "chain nx (nx x) xs" using Cons.prems by auto
    with Cons.IH [of "nx x"] Cons Cons.prems show ?thesis by (subst chain_end.simps) auto
  qed
qed simp

text \<open>Appending a node behind the last one.\<close>

lemma chain_snoc:
  "chain nx a xs \<Longrightarrow> xs \<noteq> [] \<Longrightarrow> distinct xs \<Longrightarrow> n \<notin> set xs \<Longrightarrow> n \<noteq> 0 \<Longrightarrow>
     chain (nx(n := 0, last xs := n)) a (xs @ [n])"
proof (induction xs arbitrary: a)
  case (Cons x xs)
  show ?case
  proof (cases xs)
    case Nil
    with Cons.prems show ?thesis by auto
  next
    case (Cons y ys)
    let ?f = "nx(n := 0, last xs := n)"
    have "chain ?f (nx x) (xs @ [n])"
      using Cons by (intro Cons.IH) (use Cons.prems in simp_all)
    moreover have "?f x = nx x" "last (x # xs) = last xs" using Cons Cons.prems by auto
    ultimately have "chain ?f a ((x # xs) @ [n])" using Cons.prems by (simp only: append_Cons chain.simps) simp
    then show ?thesis by (simp only: \<open>last (x # xs) = last xs\<close>)
  qed
qed simp

end
