(* ===== verification/Task.thy ===== *)
theory Task
  imports Kheap Chain
begin

text \<open>
  \<^verbatim>\<open>kernel/task.c\<close>: the task list, the creation of tasks and the round-robin scheduler. Task control
  blocks live in blocks of the heap; they are kept here as records by address, which is sound
  because nothing else writes into a block in use (\<^theory_text>\<open>Kheap\<close>). A new task's stack is written into
  the heap's memory byte by byte, the way the code pushes the frame that \<^verbatim>\<open>irq_common_stub\<close> will
  pop. What \<^verbatim>\<open>printf\<close> shows on the screen is not part of this state.
\<close>

section \<open>State and code\<close>

datatype task_state_t = TASK_RUNNING | TASK_READY | TASK_BLOCKED | TASK_SLEEPING

record task_t =
  task_id :: u32
  esp :: u32
  kstack :: u32
  page_directory :: u32
  task_state :: task_state_t
  sleep_ticks :: u32
  task_next :: u32
  wait_next :: u32

record task_sys =
  heap :: heap_state
  tcb :: "u32 \<Rightarrow> task_t"
  running_task :: u32
  ready_queue :: u32
  next_task_id :: u32

definition set_tcb :: "u32 \<Rightarrow> (task_t \<Rightarrow> task_t) \<Rightarrow> 'a task_sys_scheme \<Rightarrow> 'a task_sys_scheme" where
  "set_tcb p f s = s\<lparr>tcb := (tcb s)(p := f (tcb s p))\<rparr>"

definition task_init :: "'a task_sys_scheme \<Rightarrow> 'a task_sys_scheme option" where
  "task_init s =
     (case kmalloc 32 (heap s) of
        None \<Rightarrow> None
      | Some (p, h) \<Rightarrow>
          let s = s\<lparr>heap := h, running_task := p\<rparr>;
              s = set_tcb p (\<lambda>t. t\<lparr>task_id := next_task_id s, esp := 0, kstack := 0,
                    page_directory := current_directory (vm h), task_state := TASK_RUNNING,
                    sleep_ticks := 0, task_next := 0\<rparr>) s
          in Some (s\<lparr>next_task_id := next_task_id s + 1, ready_queue := running_task s\<rparr>))"

text \<open>\<^verbatim>\<open>*(--ptr) = v\<close>\<close>

definition push :: "u32 \<Rightarrow> u32 \<times> mem \<Rightarrow> u32 \<times> mem" where
  "push v = (\<lambda>(ptr, m). (ptr - 4, store32 (ptr - 4) v m))"

text \<open>The words of the initial frame in the order they are pushed, \<^verbatim>\<open>eflags\<close> first and \<^verbatim>\<open>ds\<close> last.\<close>

definition initial_frame :: "u32 \<Rightarrow> u32 list" where
  "initial_frame entry_point =
     [0x0202, 0x08, entry_point, 0, 0, 0, 0, 0, 0, 0, 0, 0, 0, 0x10]"

definition last_task :: "(u32 \<Rightarrow> task_t) \<Rightarrow> u32 \<Rightarrow> u32 option" where
  "last_task t tmp = chain_end (\<lambda>p. task_next (t p)) tmp"

text \<open>
  \<^verbatim>\<open>task_create\<close> up to its message, with the pointer \<^verbatim>\<open>new_task\<close>. The messages of \<^verbatim>\<open>task_init\<close> and
  \<^verbatim>\<open>task_create\<close> need the screen; they are added in \<open>Boot\<close>.
\<close>

definition create_task :: "u32 \<Rightarrow> 'a task_sys_scheme \<Rightarrow> (u32 \<times> 'a task_sys_scheme) option" where
  "create_task entry_point s =
     (case kmalloc 32 (heap s) of
        None \<Rightarrow> None
      | Some (new_task, h) \<Rightarrow>
          let tid = next_task_id s;
              s = s\<lparr>heap := h, next_task_id := next_task_id s + 1\<rparr>
          in case kmalloc 4096 (heap s) of
               None \<Rightarrow> None
             | Some (stack_base, h) \<Rightarrow>
                 let stack_top = stack_base + 4096;
                     (ptr, m) = fold push (initial_frame entry_point) (stack_top, hmem h);
                     s = s\<lparr>heap := h\<lparr>hmem := m\<rparr>\<rparr>;
                     s = set_tcb new_task (\<lambda>t. t\<lparr>task_id := tid, kstack := stack_base, esp := ptr,
                           page_directory := current_directory (vm h), task_state := TASK_READY,
                           sleep_ticks := 0, task_next := 0\<rparr>) s
                 in case last_task (tcb s) (ready_queue s) of
                      None \<Rightarrow> None
                    | Some tmp \<Rightarrow> Some (new_task, set_tcb tmp (\<lambda>t. t\<lparr>task_next := new_task\<rparr>) s))"

definition task_create :: "u32 \<Rightarrow> 'a task_sys_scheme \<Rightarrow> 'a task_sys_scheme option" where
  "task_create entry_point s = map_option snd (create_task entry_point s)"

text \<open>The \<^verbatim>\<open>do ... while\<close> of \<^verbatim>\<open>schedule\<close>; a list without the starting task would be walked for ever.\<close>

definition runnable :: "task_t \<Rightarrow> bool" where
  "runnable t \<longleftrightarrow> task_state t = TASK_READY \<or> task_state t = TASK_RUNNING"

partial_function (option) schedule_loop :: "(u32 \<Rightarrow> task_t) \<Rightarrow> u32 \<Rightarrow> u32 \<Rightarrow> u32 \<Rightarrow> u32 option" where
  "schedule_loop t queue start_task running =
     (let running = task_next (t running);
          running = (if running = 0 then queue else running)
      in if runnable (t running) then Some running
         else if running \<noteq> start_task then schedule_loop t queue start_task running
         else Some running)"

definition schedule :: "u32 \<Rightarrow> 'a task_sys_scheme \<Rightarrow> (u32 \<times> 'a task_sys_scheme) option" where
  "schedule current_esp s =
     (if running_task s = 0 then Some (current_esp, s)
      else
        let s = set_tcb (running_task s) (\<lambda>t. t\<lparr>esp := current_esp\<rparr>) s;
            s = (if task_state (tcb s (running_task s)) = TASK_RUNNING
                 then set_tcb (running_task s) (\<lambda>t. t\<lparr>task_state := TASK_READY\<rparr>) s else s)
        in case schedule_loop (tcb s) (ready_queue s) (running_task s) (running_task s) of
             None \<Rightarrow> None
           | Some r \<Rightarrow>
               let s = set_tcb r (\<lambda>t. t\<lparr>task_state := TASK_RUNNING\<rparr>) (s\<lparr>running_task := r\<rparr>)
               in Some (esp (tcb s r), s))"

definition task_get_current :: "'a task_sys_scheme \<Rightarrow> u32" where
  "task_get_current s = running_task s"

partial_function (option) update_sleep_loop :: "u32 \<Rightarrow> (u32 \<Rightarrow> task_t) \<Rightarrow> (u32 \<Rightarrow> task_t) option" where
  "update_sleep_loop tmp t =
     (if tmp = 0 then Some t
      else
        let t = (if task_state (t tmp) = TASK_SLEEPING \<and> sleep_ticks (t tmp) > 0 then
                   let t = t(tmp := (t tmp)\<lparr>sleep_ticks := sleep_ticks (t tmp) - 1\<rparr>)
                   in if sleep_ticks (t tmp) = 0 then t(tmp := (t tmp)\<lparr>task_state := TASK_READY\<rparr>) else t
                 else t)
        in update_sleep_loop (task_next (t tmp)) t)"

definition tasks_update_sleep_ticks :: "'a task_sys_scheme \<Rightarrow> 'a task_sys_scheme option" where
  "tasks_update_sleep_ticks s = map_option (\<lambda>t. s\<lparr>tcb := t\<rparr>) (update_sleep_loop (ready_queue s) (tcb s))"

section \<open>The round\<close>

text \<open>
  The task list is a chain of distinct blocks. Starting behind the running task and going round
  once visits every other task and comes back to it.
\<close>

definition task_list :: "'a task_sys_scheme \<Rightarrow> u32 list \<Rightarrow> bool" where
  "task_list s ts \<longleftrightarrow> chain (\<lambda>p. task_next (tcb s p)) (ready_queue s) ts \<and> distinct ts"

definition succ_task :: "(u32 \<Rightarrow> task_t) \<Rightarrow> u32 \<Rightarrow> u32 \<Rightarrow> u32" where
  "succ_task t q p = (if task_next (t p) = 0 then q else task_next (t p))"

primrec path :: "(u32 \<Rightarrow> u32) \<Rightarrow> u32 \<Rightarrow> u32 list \<Rightarrow> bool" where
  "path f a [] \<longleftrightarrow> True"
| "path f a (x # xs) \<longleftrightarrow> f a = x \<and> path f x xs"

lemma path_append: "path f a (xs @ ys) \<longleftrightarrow> path f a xs \<and> path f (last (a # xs)) ys"
  by (induction xs arbitrary: a) auto

lemma chain_path: "chain (\<lambda>p. task_next (t p)) a xs \<Longrightarrow> (a = 0 \<longrightarrow> path (succ_task t q) b []) \<Longrightarrow>
    xs \<noteq> [] \<Longrightarrow> path (succ_task t q) (hd xs) (tl xs) \<and> succ_task t q (last xs) = q"
proof (induction xs arbitrary: a)
  case (Cons x xs)
  then show ?case
    by (cases xs) (auto simp: succ_task_def)
qed simp

lemma round_path:
  assumes c: "chain (\<lambda>p. task_next (t p)) q (xs @ r # ys)"
  shows "path (succ_task t q) r (ys @ xs @ [r])"
proof -
  have all: "path (succ_task t q) (hd (xs @ r # ys)) (tl (xs @ r # ys))" "succ_task t q (last (xs @ r # ys)) = q"
    using chain_path [OF c] by simp_all
  have suf: "path (succ_task t q) r ys"
    using chain_path [OF chain_suffix [OF c]] by simp
  have q: "q = hd (xs @ r # ys)" using chain_start [OF c] by simp
  have pre: "path (succ_task t q) (last (r # ys)) (xs @ [r])"
  proof (cases xs)
    case Nil
    then show ?thesis using all(2) q by simp
  next
    case (Cons z zs)
    then have "path (succ_task t q) z (zs @ [r] @ ys)" "succ_task t q (last (r # ys)) = z"
      using all q by simp_all
    then show ?thesis using Cons by (simp add: path_append)
  qed
  show ?thesis using suf pre by (simp add: path_append)
qed

text \<open>The first runnable task of a list of candidates, the starting task when there is none.\<close>

definition pick :: "(u32 \<Rightarrow> task_t) \<Rightarrow> u32 list \<Rightarrow> u32 \<Rightarrow> u32" where
  "pick t zs r = (case find (\<lambda>p. runnable (t p)) zs of None \<Rightarrow> r | Some p \<Rightarrow> p)"

lemma pick_Cons: "pick t (z # zs) r = (if runnable (t z) then z else pick t zs r)"
  by (simp add: pick_def)

lemma pick_Nil [simp]: "pick t [] r = r"
  by (simp add: pick_def)

lemma pick_in: "pick t zs r \<in> set (r # zs)"
  by (induction zs) (auto simp: pick_Cons)

lemma pick_runnable: "pick t zs r = r \<and> (\<forall>z \<in> set zs. \<not> runnable (t z)) \<or>
    pick t zs r \<in> set zs \<and> runnable (t (pick t zs r))"
  by (induction zs) (auto simp: pick_Cons)

lemma schedule_loop_pick:
  "path (succ_task t q) cur (zs @ [r]) \<Longrightarrow> r \<notin> set zs \<Longrightarrow> schedule_loop t q r cur = Some (pick t zs r)"
proof (induction zs arbitrary: cur)
  case Nil
  then show ?case by (subst schedule_loop.simps) (simp add: succ_task_def Let_def)
next
  case (Cons z zs)
  then have z: "succ_task t q cur = z" "z \<noteq> r" and rest: "schedule_loop t q r z = Some (pick t zs r)" by auto
  then show ?case by (subst schedule_loop.simps) (auto simp: succ_task_def Let_def pick_Cons)
qed

text \<open>What \<^verbatim>\<open>schedule\<close> saves in the task it leaves.\<close>

definition suspended :: "u32 \<Rightarrow> task_t \<Rightarrow> task_t" where
  "suspended e t = t\<lparr>esp := e, task_state := (if task_state t = TASK_RUNNING then TASK_READY else task_state t)\<rparr>"

definition switch_to :: "u32 \<Rightarrow> u32 \<Rightarrow> u32 \<Rightarrow> (u32 \<Rightarrow> task_t) \<Rightarrow> u32 \<Rightarrow> task_t" where
  "switch_to e r n t = (let t = t(r := suspended e (t r)) in t(n := (t n)\<lparr>task_state := TASK_RUNNING\<rparr>))"

lemma suspended_simps [simp]:
  "task_next (suspended e t) = task_next t" "wait_next (suspended e t) = wait_next t" "esp (suspended e t) = e"
  "task_id (suspended e t) = task_id t" "sleep_ticks (suspended e t) = sleep_ticks t"
  "kstack (suspended e t) = kstack t"
  by (simp_all add: suspended_def)

lemma schedule_spec:
  assumes l: "task_list s (xs @ r # ys)" and r: "running_task s = r"
  defines "n \<equiv> pick (tcb s) (ys @ xs) r"
  shows "schedule e s = Some (if n = r then e else esp (tcb s n),
    s\<lparr>tcb := switch_to e r n (tcb s), running_task := n\<rparr>)"
proof -
  let ?t = "(tcb s)(r := suspended e (tcb s r))"
  have c: "chain (\<lambda>p. task_next (tcb s p)) (ready_queue s) (xs @ r # ys)" and d: "distinct (xs @ r # ys)"
    using l by (auto simp: task_list_def)
  have r0: "r \<noteq> 0" using chain_nonzero [OF c] by simp
  have nx: "(\<lambda>p. task_next (?t p)) = (\<lambda>p. task_next (tcb s p))" by (auto simp: fun_eq_iff)
  have "chain (\<lambda>p. task_next (?t p)) (ready_queue s) (xs @ r # ys)" unfolding nx by (rule c)
  from round_path [OF this] have "path (succ_task ?t (ready_queue s)) r ((ys @ xs) @ [r])" by (simp only: append_assoc)
  moreover have rn: "r \<notin> set (ys @ xs)" using d by auto
  ultimately have "schedule_loop ?t (ready_queue s) r r = Some (pick ?t (ys @ xs) r)"
    by (rule schedule_loop_pick)
  moreover have "pick ?t (ys @ xs) r = n"
    unfolding n_def pick_def using rn by (intro arg_cong [where f = "case_option r (\<lambda>p. p)"] find_cong) auto
  ultimately have lp: "schedule_loop ?t (ready_queue s) r r = Some n" by simp
  show ?thesis
    using r r0 lp by (auto simp: schedule_def set_tcb_def suspended_def switch_to_def Let_def)
qed

text \<open>The tasks in the order in which \<^verbatim>\<open>schedule\<close> looks at them when \<open>r\<close> is running.\<close>

definition others :: "u32 \<Rightarrow> u32 list \<Rightarrow> u32 list" where
  "others r ts = tl (dropWhile (\<lambda>p. p \<noteq> r) ts) @ takeWhile (\<lambda>p. p \<noteq> r) ts"

lemma others_split [simp]: "r \<notin> set xs \<Longrightarrow> others r (xs @ r # ys) = ys @ xs"
  by (simp add: others_def dropWhile_append takeWhile_append)

lemma others_set: "distinct ts \<Longrightarrow> r \<in> set ts \<Longrightarrow> set (others r ts) = set ts - {r}"
proof -
  assume d: "distinct ts" and r: "r \<in> set ts"
  obtain xs ys where ts: "ts = xs @ r # ys" using r by (metis split_list)
  then have "r \<notin> set xs" "r \<notin> set ys" using d by auto
  then show ?thesis using ts by auto
qed

lemma others_next:
  assumes "distinct ts" "r \<in> set ts" "others r ts = as @ n # bs"
  shows "others n ts = bs @ r # as"
proof -
  obtain xs ys where ts: "ts = xs @ r # ys" using assms(2) by (metis split_list)
  have "r \<notin> set xs" using assms(1) ts by auto
  then have o: "ys @ xs = as @ n # bs" using assms(3) ts by simp
  then consider us where "ys = as @ n # us" "bs = us @ xs" | us where "xs = us @ n # bs" "as = ys @ us"
  proof -
    from o consider us where "ys = as @ us" "us @ xs = n # bs" | us where "as = ys @ us" "xs = us @ n # bs"
      by (auto simp: append_eq_append_conv2)
    then show thesis
    proof cases
      case (1 us)
      then show thesis by (cases us) (use that in auto)
    qed (rule that(2))
  qed
  then show ?thesis
  proof cases
    case 1
    have "n \<notin> set (xs @ r # as)" using assms(1) unfolding ts 1 by auto
    from others_split [OF this, of us] show ?thesis by (simp add: ts 1)
  next
    case 2
    have "n \<notin> set us" using assms(1) unfolding ts 2 by auto
    from others_split [OF this, of "bs @ r # ys"] show ?thesis by (simp add: ts 2)
  qed
qed

lemma schedule_others:
  assumes l: "task_list s ts" and r: "running_task s \<in> set ts"
  defines "n \<equiv> pick (tcb s) (others (running_task s) ts) (running_task s)"
  shows "schedule e s = Some (if n = running_task s then e else esp (tcb s n),
    s\<lparr>tcb := switch_to e (running_task s) n (tcb s), running_task := n\<rparr>)"
proof -
  obtain xs ys where ts: "ts = xs @ running_task s # ys" using r by (metis split_list)
  have "running_task s \<notin> set xs" using l ts by (auto simp: task_list_def)
  then have "others (running_task s) ts = ys @ xs" using ts by simp
  with schedule_spec [OF l [unfolded ts] refl] show ?thesis by (simp add: n_def)
qed

lemma switch_to_next [simp]: "task_next (switch_to e r n t p) = task_next (t p)"
  by (simp add: switch_to_def Let_def)

lemma switch_to_state:
  "task_state (switch_to e r n t p) =
     (if p = n then TASK_RUNNING else if p = r then task_state (suspended e (t r)) else task_state (t p))"
  by (simp add: switch_to_def Let_def)

lemma schedule_list:
  assumes "task_list s ts" "running_task s \<in> set ts" "schedule e s = Some (x, s')"
  shows "task_list s' ts" "running_task s' \<in> set ts" "task_state (tcb s' (running_task s')) = TASK_RUNNING"
proof -
  note sp = schedule_others [OF assms(1,2), of e]
  show "task_list s' ts" using assms(1,3) sp by (auto simp: task_list_def)
  have "set (others (running_task s) ts) \<subseteq> set ts"
    using others_set assms(1,2) by (auto simp: task_list_def)
  then show "running_task s' \<in> set ts" "task_state (tcb s' (running_task s')) = TASK_RUNNING"
    using pick_in [of "tcb s" "others (running_task s) ts" "running_task s"] assms(2,3) sp
    by (auto simp: switch_to_state)
qed

text \<open>At most the current task is marked as running.\<close>

definition one_running :: "'a task_sys_scheme \<Rightarrow> u32 list \<Rightarrow> bool" where
  "one_running s ts \<longleftrightarrow> (\<forall>p \<in> set ts. task_state (tcb s p) = TASK_RUNNING \<longrightarrow> p = running_task s)"

lemma schedule_one_running:
  assumes "task_list s ts" "running_task s \<in> set ts" "one_running s ts" "schedule e s = Some (x, s')"
  shows "one_running s' ts"
  unfolding one_running_def
proof (intro ballI impI)
  fix p assume p: "p \<in> set ts" "task_state (tcb s' p) = TASK_RUNNING"
  let ?r = "running_task s" and ?n = "running_task s'"
  have s': "tcb s' = switch_to e ?r ?n (tcb s)" using schedule_others [OF assms(1,2), of e] assms(4) by auto
  show "p = ?n"
  proof (rule ccontr)
    assume "p \<noteq> ?n"
    then have "task_state (if p = ?r then suspended e (tcb s ?r) else tcb s p) = TASK_RUNNING"
      using p(2) by (simp add: s' switch_to_state split: if_splits)
    then have "p \<noteq> ?r" "task_state (tcb s p) = TASK_RUNNING"
      by (auto simp: suspended_def split: if_splits)
    then show False using assms(3) p(1) by (simp add: one_running_def)
  qed
qed

section \<open>Every ready task gets its turn\<close>

lemma pick_before: "runnable (t p) \<Longrightarrow> pick t (as @ p # bs) r \<in> set (as @ [p])"
  by (induction as) (auto simp: pick_Cons)

lemma schedule_progress:
  assumes l: "task_list s ts" and r: "running_task s \<in> set ts" and t: "runnable (tcb s t)"
    and o: "others (running_task s) ts = as @ t # bs" and s': "schedule e s = Some (x, s')"
  shows "running_task s' = t \<or> (\<exists>as' bs'. others (running_task s') ts = as' @ t # bs' \<and> length as' < length as)"
proof -
  let ?r = "running_task s"
  let ?n = "pick (tcb s) (others ?r ts) ?r"
  have n: "running_task s' = ?n" using schedule_others [OF l r, of e] s' by auto
  have "?n \<in> set (as @ [t])" unfolding o by (rule pick_before [of "tcb s" t, OF t])
  then consider "?n = t" | a1 a2 where "as = a1 @ ?n # a2" by (auto dest: split_list)
  then show ?thesis
  proof cases
    case 2
    have "others ?r ts = a1 @ ?n # (a2 @ t # bs)" using o 2 by simp
    then have "others ?n ts = (a2 @ t # bs) @ ?r # a1"
      using others_next l r by (metis task_list_def)
    moreover have "length a2 < length as" by (subst 2) simp
    ultimately show ?thesis unfolding n by auto
  qed (simp add: n)
qed

lemma schedule_reaches:
  assumes l: "\<And>i. i < k \<Longrightarrow> task_list (u i) ts \<and> schedule (e i) (u i) = Some (x i, v i) \<and>
      running_task (u (Suc i)) = running_task (v i) \<and> (running_task (u i) \<noteq> t \<longrightarrow> runnable (tcb (u i) t))"
    and r: "running_task (u 0) \<in> set ts"
  shows "i \<le> k \<Longrightarrow> others (running_task (u i)) ts = as @ t # bs \<Longrightarrow> running_task (u i) \<in> set ts \<Longrightarrow>
    i + length as < k \<Longrightarrow> \<exists>j \<le> i + Suc (length as). running_task (u j) = t"
proof (induction "length as" arbitrary: i as bs rule: less_induct)
  case less
  have i: "i < k" using less.prems(4) by simp
  show ?case
  proof (cases "running_task (u i) = t")
    case False
    then have t: "runnable (tcb (u i) t)" and tl: "task_list (u i) ts"
      and s: "schedule (e i) (u i) = Some (x i, v i)" and ru: "running_task (u (Suc i)) = running_task (v i)"
      using l [OF i] by auto
    from schedule_progress [OF tl less.prems(3) t less.prems(2) s]
    consider "running_task (v i) = t"
      | as' bs' where "others (running_task (v i)) ts = as' @ t # bs'" "length as' < length as" by blast
    then show ?thesis
    proof cases
      case 1
      then show ?thesis using ru by (intro exI [of _ "Suc i"]) simp
    next
      case 2
      have "running_task (v i) \<in> set ts" using schedule_list(2) [OF tl less.prems(3) s] .
      from less.hyps [OF 2(2), of "Suc i" bs'] 2 this ru i less.prems(4)
      obtain j where "j \<le> Suc i + Suc (length as')" "running_task (u j) = t" by auto
      then show ?thesis using 2(2) by (intro exI [of _ j]) simp
    qed
  qed (intro exI [of _ i], simp)
qed

section \<open>Sleeping tasks\<close>

text \<open>One tick for one task.\<close>

definition woken :: "task_t \<Rightarrow> task_t" where
  "woken t = (if task_state t = TASK_SLEEPING \<and> 0 < sleep_ticks t then
     t\<lparr>sleep_ticks := sleep_ticks t - 1,
       task_state := (if sleep_ticks t = 1 then TASK_READY else TASK_SLEEPING)\<rparr> else t)"

lemma woken_simps [simp]:
  "task_next (woken t) = task_next t" "wait_next (woken t) = wait_next t" "esp (woken t) = esp t"
  "task_id (woken t) = task_id t" "kstack (woken t) = kstack t"
  by (simp_all add: woken_def)

lemma woken_step:
  "(if task_state (t p) = TASK_SLEEPING \<and> sleep_ticks (t p) > 0 then
      let t = t(p := (t p)\<lparr>sleep_ticks := sleep_ticks (t p) - 1\<rparr>)
      in if sleep_ticks (t p) = 0 then t(p := (t p)\<lparr>task_state := TASK_READY\<rparr>) else t
    else t) = t(p := woken (t p))"
  by (auto simp: woken_def Let_def fun_eq_iff)

lemma update_sleep_unfold:
  "update_sleep_loop a t = (if a = 0 then Some t
     else let t = t(a := woken (t a)) in update_sleep_loop (task_next (t a)) t)"
  by (subst update_sleep_loop.simps) (simp only: woken_step)

lemma update_sleep_loop_all:
  "chain (\<lambda>p. task_next (t p)) a ts \<Longrightarrow> distinct ts \<Longrightarrow>
     update_sleep_loop a t = Some (\<lambda>p. if p \<in> set ts then woken (t p) else t p)"
proof (induction ts arbitrary: a t)
  case Nil
  then show ?case by (subst update_sleep_loop.simps) simp
next
  case (Cons x ts)
  let ?t = "t(x := woken (t x))"
  have x: "a = x" "x \<noteq> 0" "x \<notin> set ts" "distinct ts" and c: "chain (\<lambda>p. task_next (t p)) (task_next (t x)) ts"
    using Cons.prems by auto
  have nx: "(\<lambda>p. task_next (?t p)) = (\<lambda>p. task_next (t p))" by (auto simp: fun_eq_iff)
  have "update_sleep_loop (task_next (t x)) ?t = Some (\<lambda>p. if p \<in> set ts then woken (?t p) else ?t p)"
    by (rule Cons.IH) (use c x(4) in \<open>simp_all only: nx\<close>)
  also have "(\<lambda>p. if p \<in> set ts then woken (?t p) else ?t p) =
      (\<lambda>p. if p \<in> set (x # ts) then woken (t p) else t p)"
    using x(3) by (auto simp: fun_eq_iff)
  finally have run: "update_sleep_loop (task_next (t x)) ?t = Some (\<lambda>p. if p \<in> set (x # ts) then woken (t p) else t p)" .
  have "task_next (?t x) = task_next (t x)" by simp
  with run x(1,2) show ?case by (subst update_sleep_unfold) (simp only: Let_def if_False)
qed

lemma update_sleep_spec:
  assumes "task_list s ts"
  shows "tasks_update_sleep_ticks s = Some (s\<lparr>tcb := (\<lambda>p. if p \<in> set ts then woken (tcb s p) else tcb s p)\<rparr>)"
  using assms update_sleep_loop_all [of "tcb s" "ready_queue s" ts]
  by (simp add: tasks_update_sleep_ticks_def task_list_def)

lemma task_list_woken:
  "task_list s ts \<Longrightarrow> task_list (s\<lparr>tcb := (\<lambda>p. if p \<in> set ts then woken (tcb s p) else tcb s p)\<rparr>) ts"
  by (simp add: task_list_def if_distrib cong: if_cong)

lemma woken_sleep:
  assumes "task_state t = TASK_SLEEPING" "unat (sleep_ticks t) = Suc n"
  shows "unat (sleep_ticks (woken t)) = n" "task_state (woken t) = (if n = 0 then TASK_READY else TASK_SLEEPING)"
proof -
  have "sleep_ticks t \<noteq> 0" using assms(2) by auto
  then have u: "unat (sleep_ticks t - 1) = n" "0 < sleep_ticks t"
    using unat_pred [of "sleep_ticks t"] assms(2) by (simp_all add: word_gt_0)
  have "sleep_ticks t = 1 \<longleftrightarrow> n = 0" using assms(2) by (simp add: word_unat_eq_iff)
  with u assms(1) show "unat (sleep_ticks (woken t)) = n"
    "task_state (woken t) = (if n = 0 then TASK_READY else TASK_SLEEPING)"
    by (simp_all add: woken_def)
qed

section \<open>A new task\<close>

text \<open>The frame as \<^verbatim>\<open>registers_t\<close> of \<^verbatim>\<open>isr.h\<close> (the last two fields exist only on a change of privilege).\<close>

record registers_t =
  r_ds :: u32
  r_edi :: u32
  r_esi :: u32
  r_ebp :: u32
  r_esp :: u32
  r_ebx :: u32
  r_edx :: u32
  r_ecx :: u32
  r_eax :: u32
  r_int_no :: u32
  r_err_code :: u32
  r_eip :: u32
  r_cs :: u32
  r_eflags :: u32

definition get_registers :: "mem \<Rightarrow> u32 \<Rightarrow> registers_t" where
  "get_registers m a = \<lparr>r_ds = load32 m a, r_edi = load32 m (a + 4), r_esi = load32 m (a + 8),
     r_ebp = load32 m (a + 12), r_esp = load32 m (a + 16), r_ebx = load32 m (a + 20),
     r_edx = load32 m (a + 24), r_ecx = load32 m (a + 28), r_eax = load32 m (a + 32),
     r_int_no = load32 m (a + 36), r_err_code = load32 m (a + 40), r_eip = load32 m (a + 44),
     r_cs = load32 m (a + 48), r_eflags = load32 m (a + 52)\<rparr>"

text \<open>Storing a word inside a block is four stores of the client.\<close>

lemma store_word:
  "h\<lparr>hmem := store32 a v (hmem h)\<rparr> =
     kheap.poke_list a [ucast v, ucast (drop_bit 8 v), ucast (drop_bit 16 v), ucast (drop_bit 24 v)] h"
  by (simp add: store_byte_def store32_def add.assoc)

lemma store_word_ok:
  assumes "heap_inv h" "(q, w) \<in> live h" "i + 4 \<le> unat w"
  shows "heap_inv (h\<lparr>hmem := store32 (q + of_nat i) v (hmem h)\<rparr>)"
    "live (h\<lparr>hmem := store32 (q + of_nat i) v (hmem h)\<rparr>) = live h"
  unfolding store_word using kheap.poke_list_ok [OF assms(1,2)] assms(3)
  by (simp_all del: kheap.poke_list.simps)

lemma sep_offsets:
  assumes "i + n \<le> j \<or> j + k \<le> i" "i + n \<le> 2 ^ 32" "j + k \<le> 2 ^ 32"
  shows "sep (q + of_nat i) n (q + of_nat j) k"
proof (rule sepI, rule notI)
  fix x y assume x: "x < n" "y < k" and e: "q + of_nat i + of_nat x = q + of_nat j + of_nat y"
  then have "(of_nat (i + x) :: u32) = of_nat (j + y)" by (simp add: add.assoc)
  moreover have "i + x < 2 ^ 32" "j + y < 2 ^ 32" using assms(2,3) x by linarith+
  ultimately have "i + x = j + y" using unat_of_nat_32 by metis
  with assms(1) x show False by auto
qed

lemma push_words:
  "4 * length ws \<le> k \<Longrightarrow> k \<le> unat w \<Longrightarrow> heap_inv h \<Longrightarrow> (q, w) \<in> live h \<Longrightarrow>
   \<exists>m. fold push ws (q + of_nat k, hmem h) = (q + of_nat (k - 4 * length ws), m) \<and>
     heap_inv (h\<lparr>hmem := m\<rparr>) \<and> live (h\<lparr>hmem := m\<rparr>) = live h \<and>
     (\<forall>i < length ws. load32 m (q + of_nat (k - 4 * Suc i)) = ws ! i) \<and>
     (\<forall>x. sep (q + of_nat (k - 4 * length ws)) (4 * length ws) x 1 \<longrightarrow> m x = hmem h x)"
proof (induction ws arbitrary: k h)
  case Nil
  then show ?case by simp
next
  case (Cons v ws)
  let ?l = "length ws"
  let ?h = "h\<lparr>hmem := store32 (q + of_nat (k - 4)) v (hmem h)\<rparr>"
  have k: "4 \<le> k" "4 * ?l \<le> k - 4" "k - 4 \<le> unat w" "k - 4 + 4 \<le> unat w" using Cons.prems(1,2) by auto
  have st: "heap_inv ?h" "live ?h = live h" using store_word_ok [OF Cons.prems(3,4) k(4)] .
  have w: "unat w < 2 ^ 32" by (rule unat_less_32)
  have a: "q + of_nat k - 4 = q + of_nat (k - 4)" using k(1) by (simp add: of_nat_diff)
  obtain m where m: "fold push ws (q + of_nat (k - 4), hmem ?h) = (q + of_nat (k - 4 - 4 * ?l), m)"
    "heap_inv (?h\<lparr>hmem := m\<rparr>)" "live (?h\<lparr>hmem := m\<rparr>) = live ?h"
    "\<forall>i < ?l. load32 m (q + of_nat (k - 4 - 4 * Suc i)) = ws ! i"
    "\<forall>x. sep (q + of_nat (k - 4 - 4 * ?l)) (4 * ?l) x 1 \<longrightarrow> m x = hmem ?h x"
    using Cons.IH [OF k(2,3) st(1)] Cons.prems(4) st(2) by blast
  have e: "k - 4 - 4 * ?l = k - 4 * length (v # ws)" by simp
  have run: "fold push (v # ws) (q + of_nat k, hmem h) = (q + of_nat (k - 4 * length (v # ws)), m)"
    using m(1) by (simp add: push_def a)
  have "load32 m (q + of_nat (k - 4)) = load32 (hmem ?h) (q + of_nat (k - 4))"
  proof (rule load32_cong)
    fix i :: nat assume "i < 4"
    then have "sep (q + of_nat (k - 4 - 4 * ?l)) (4 * ?l) (q + of_nat (k - 4 + i)) 1"
      using k w by (intro sep_offsets) linarith+
    then show "m (q + of_nat (k - 4) + of_nat i) = hmem ?h (q + of_nat (k - 4) + of_nat i)"
      using m(5) by (simp add: add.assoc)
  qed
  then have first: "load32 m (q + of_nat (k - 4)) = v" by (simp add: load32_store32_same)
  have ld: "load32 m (q + of_nat (k - 4 * Suc i)) = (v # ws) ! i" if "i < length (v # ws)" for i
  proof (cases i)
    case (Suc j)
    then have "k - 4 * Suc i = k - 4 - 4 * Suc j" by simp
    then show ?thesis using m(4) Suc that by simp
  qed (use first in simp)
  have out: "m x = hmem h x" if x: "sep (q + of_nat (k - 4 * length (v # ws))) (4 * length (v # ws)) x 1" for x
  proof -
    have "sep (q + of_nat (k - 4 * length (v # ws)) + of_nat 0) (4 * ?l) (x + of_nat 0) 1"
      by (rule sep_sub [OF x]) simp_all
    then have 1: "m x = hmem ?h x" using m(5) e by simp
    have A: "sep (q + of_nat (k - 4 * length (v # ws)) + of_nat (4 * ?l)) 4 (x + of_nat 0) 1"
      by (rule sep_sub [OF x]) simp_all
    have "k - 4 * length (v # ws) + 4 * ?l = k - 4" using k(1,2) by simp
    then have E: "q + of_nat (k - 4 * length (v # ws)) + of_nat (4 * ?l) = q + of_nat (k - 4)"
      by (simp only: add.assoc of_nat_add [symmetric])
    have "x + of_nat 0 = x" by simp
    with A have "sep (q + of_nat (k - 4)) 4 x 1" unfolding E by (simp only:)
    then show ?thesis using 1 store32_other by simp
  qed
  show ?case using run m(2,3) st(2) ld out by (intro exI [of _ m]) simp
qed

text \<open>Task control blocks are blocks of the heap in use.\<close>

definition tasks_ok :: "'a task_sys_scheme \<Rightarrow> u32 list \<Rightarrow> bool" where
  "tasks_ok s ts \<longleftrightarrow> task_list s ts \<and> running_task s \<in> set ts \<and> heap_inv (heap s) \<and>
     (\<forall>p \<in> set ts. \<exists>z. (p, z) \<in> live (heap s))"

lemma initial_frame_regs:
  assumes "\<And>i. i < 14 \<Longrightarrow> load32 m (a + of_nat (52 - 4 * i)) = initial_frame e ! i"
  shows "get_registers m a = \<lparr>r_ds = 0x10, r_edi = 0, r_esi = 0, r_ebp = 0, r_esp = 0, r_ebx = 0, r_edx = 0,
    r_ecx = 0, r_eax = 0, r_int_no = 0, r_err_code = 0, r_eip = e, r_cs = 8, r_eflags = 0x202\<rparr>"
  using assms [of 0] assms [of 1] assms [of 2] assms [of 3] assms [of 4] assms [of 5] assms [of 6]
    assms [of 7] assms [of 8] assms [of 9] assms [of 10] assms [of 11] assms [of 12] assms [of 13]
  by (simp add: get_registers_def initial_frame_def)

lemma task_create_ok:
  assumes ok: "tasks_ok s ts" and r1: "heap_ready (heap s) 32"
    and r2: "\<And>p h. kmalloc 32 (heap s) = Some (p, h) \<Longrightarrow> heap_ready h 4096"
  obtains s' p q w where "task_create start s = Some s'" "tasks_ok s' (ts @ [p])" "p \<notin> set ts"
    "running_task s' = running_task s" "next_task_id s' = next_task_id s + 1" "ready_queue s' = ready_queue s"
    "tcb s' = (tcb s)
       (p := (tcb s p)\<lparr>task_id := next_task_id s, kstack := q, esp := q + 4040,
           page_directory := current_directory (vm (heap s')), task_state := TASK_READY, sleep_ticks := 0, task_next := 0\<rparr>,
        last ts := (tcb s (last ts))\<lparr>task_next := p\<rparr>)"
    "(q, w) \<in> live (heap s')" "4096 \<le> w" "\<forall>v. (q, v) \<notin> live (heap s)"
    "get_registers (hmem (heap s')) (q + 4040) = \<lparr>r_ds = 0x10, r_edi = 0, r_esi = 0, r_ebp = 0, r_esp = 0,
       r_ebx = 0, r_edx = 0, r_ecx = 0, r_eax = 0, r_int_no = 0, r_err_code = 0, r_eip = start, r_cs = 8,
       r_eflags = 0x202\<rparr>"
    "\<forall>(r, v) \<in> live (heap s). \<forall>i < unat v. hmem (heap s') (r + of_nat i) = hmem (heap s) (r + of_nat i)"
    "live (heap s) \<subseteq> live (heap s')" "create_task start s = Some (p, s')"
proof -
  note tl = ok [unfolded tasks_ok_def]
  have c: "chain (\<lambda>p. task_next (tcb s p)) (ready_queue s) ts" and d: "distinct ts" and ne: "ts \<noteq> []"
    using tl by (auto simp: task_list_def)
  have inv: "heap_inv (heap s)" using tl by simp
  obtain p q z w h1 h2 where al: "kmalloc 32 (heap s) = Some (p, h1)" "kmalloc 4096 h1 = Some (q, h2)" "heap_inv h2"
    "4096 \<le> w" "live h2 = insert (q, w) (insert (p, z) (live (heap s)))" "p \<noteq> 0" "p \<noteq> q"
    "\<forall>v. (p, v) \<notin> live (heap s)" "\<forall>v. (q, v) \<notin> live (heap s)"
    "\<forall>(r, v) \<in> live (heap s). \<forall>i < unat v. hmem h2 (r + of_nat i) = hmem (heap s) (r + of_nat i)"
    by (rule kheap.alloc_pair [where k = 4096, OF inv r1 _ _ r2]) simp_all
  have pn: "p \<notin> set ts" using al(8) tl by auto
  have q: "(q, w) \<in> live h2" "4096 \<le> unat w" using al(4,5) by (auto simp: word_le_nat_alt)
  have l14: "length (initial_frame start) = 14" by (simp add: initial_frame_def)
  obtain m where m: "fold push (initial_frame start) (q + 4096, hmem h2) = (q + 4040, m)"
    "heap_inv (h2\<lparr>hmem := m\<rparr>)" "live (h2\<lparr>hmem := m\<rparr>) = live h2"
    "\<forall>i < 14. load32 m (q + of_nat (4096 - 4 * Suc i)) = initial_frame start ! i"
    "\<forall>x. sep (q + 4040) 56 x 1 \<longrightarrow> m x = hmem h2 x"
    using push_words [of "initial_frame start" 4096 w h2 q] q al(3) unfolding l14 by auto
  have regs: "get_registers m (q + 4040) = \<lparr>r_ds = 0x10, r_edi = 0, r_esi = 0, r_ebp = 0, r_esp = 0,
       r_ebx = 0, r_edx = 0, r_ecx = 0, r_eax = 0, r_int_no = 0, r_err_code = 0, r_eip = start, r_cs = 8,
       r_eflags = 0x202\<rparr>"
  proof (rule initial_frame_regs)
    fix i :: nat assume "i < 14"
    then have "4096 - 4 * Suc i = 4040 + (52 - 4 * i)" by simp
    moreover have "q + of_nat (4040 + n) = q + 4040 + of_nat n" for n by (simp add: add.assoc)
    moreover have "load32 m (q + of_nat (4096 - 4 * Suc i)) = initial_frame start ! i" using m(4) \<open>i < 14\<close> by blast
    ultimately show "load32 m (q + 4040 + of_nat (52 - 4 * i)) = initial_frame start ! i" by (simp only:)
  qed
  have kept: "m (r + of_nat i) = hmem (heap s) (r + of_nat i)" if "(r, v) \<in> live (heap s)" "i < unat v" for r v i
  proof -
    have "(r, v) \<in> live h2" "q \<noteq> r" using that al(5,9) by auto
    then have "sep q (unat w) r (unat v)" using live_apart [OF al(3) q(1)] by simp
    then have "sep (q + of_nat 4040) 56 (r + of_nat i) 1" by (rule sep_sub) (use q(2) that(2) in simp_all)
    then have "m (r + of_nat i) = hmem h2 (r + of_nat i)" using m(5) by simp
    then show ?thesis using al(10) that by fastforce
  qed
  let ?new = "(tcb s p)\<lparr>task_id := next_task_id s, kstack := q, esp := q + 4040,
    page_directory := current_directory (vm h2), task_state := TASK_READY, sleep_ticks := 0, task_next := 0\<rparr>"
  let ?t = "(tcb s)(p := ?new)"
  let ?s = "s\<lparr>next_task_id := next_task_id s + 1, heap := h2\<lparr>hmem := m\<rparr>,
    tcb := ?t(last ts := (tcb s (last ts))\<lparr>task_next := p\<rparr>)\<rparr>"
  have lp: "last ts \<noteq> p" using pn ne last_in_set by metis
  have "chain (\<lambda>x. task_next (?t x)) (ready_queue s) ts"
    by (rule chain_cong [THEN iffD2, OF _ c]) (use pn in auto)
  then have lt: "last_task ?t (ready_queue s) = Some (last ts)"
    unfolding last_task_def using chain_end_last ne by blast
  have new: "create_task start s = Some (p, ?s)"
    using al(1,2) m(1) lt lp by (simp add: create_task_def set_tcb_def Let_def)
  then have run: "task_create start s = Some ?s" by (simp add: task_create_def)
  have "(\<lambda>x. task_next (tcb ?s x)) = (\<lambda>x. task_next (tcb s x))(p := 0, last ts := p)"
    using lp by (auto simp: fun_eq_iff)
  then have tl': "task_list ?s (ts @ [p])"
    using chain_snoc [OF c ne d pn al(6)] d pn by (simp add: task_list_def)
  have ok': "tasks_ok ?s (ts @ [p])"
    unfolding tasks_ok_def using tl' tl m(2,3) al(5) by auto
  have tc: "tcb ?s = (tcb s)(p := (tcb s p)\<lparr>task_id := next_task_id s, kstack := q, esp := q + 4040,
           page_directory := current_directory (vm (heap ?s)), task_state := TASK_READY, sleep_ticks := 0, task_next := 0\<rparr>,
        last ts := (tcb s (last ts))\<lparr>task_next := p\<rparr>)"
    using lp by simp
  show thesis
    by (rule that [OF run ok' pn _ _ _ tc _ al(4,9) _ _ _ new]) (use regs kept m(3) al(5) in auto)
qed

lemma task_init_ok:
  fixes s :: "'a task_sys_scheme"
  assumes inv: "heap_inv (heap s)" and r: "heap_ready (heap s) 32"
  obtains s' p where "task_init s = Some s'" "tasks_ok s' [p]" "one_running s' [p]" "running_task s' = p"
    "task_id (tcb s' p) = next_task_id s" "next_task_id s' = next_task_id s + 1"
    "live (heap s) \<subseteq> live (heap s')" "(p, z) \<notin> live (heap s)" "task_state (tcb s' p) = TASK_RUNNING"
proof -
  obtain p z h where al: "kmalloc 32 (heap s) = Some (p, h)" "heap_inv h" "p \<noteq> 0"
    "live h = insert (p, z) (live (heap s))" "\<forall>w. (p, w) \<notin> live (heap s)"
    using kheap.alloc_ok [OF inv r] by auto
  let ?s = "set_tcb p (\<lambda>t. t\<lparr>task_id := next_task_id s, esp := 0, kstack := 0,
    page_directory := current_directory (vm h), task_state := TASK_RUNNING, sleep_ticks := 0, task_next := 0\<rparr>)
    (s\<lparr>heap := h, running_task := p\<rparr>)\<lparr>next_task_id := next_task_id s + 1, ready_queue := p\<rparr>"
  have "task_init s = Some ?s" using al(1) by (simp add: task_init_def set_tcb_def Let_def)
  then show thesis
    by (rule that)
       (use al in \<open>auto simp: tasks_ok_def task_list_def one_running_def set_tcb_def\<close>)
qed

section \<open>Properties\<close>

text \<open>
  C17: \<^verbatim>\<open>task_create\<close> puts a new task at the end of the task list. Its control block and its stack are
  fresh blocks of the heap, its saved stack pointer leads to a complete interrupt frame that starts
  the entry point with interrupts enabled in the kernel's segments, it is ready, and nothing else
  changes: not a byte of the blocks in use before, and of the other tasks only the last one's link.
\<close>

theorem task_create_appends:
  assumes "tasks_ok s ts" and "heap_ready (heap s) 32"
    and "\<And>p h. kmalloc 32 (heap s) = Some (p, h) \<Longrightarrow> heap_ready h 4096"
  shows "\<exists>s' p w. task_create start s = Some s' \<and> tasks_ok s' (ts @ [p]) \<and> p \<notin> set ts \<and>
    running_task s' = running_task s \<and> task_id (tcb s' p) = next_task_id s \<and>
    next_task_id s' = next_task_id s + 1 \<and> task_state (tcb s' p) = TASK_READY \<and>
    (kstack (tcb s' p), w) \<in> live (heap s') \<and> 4096 \<le> w \<and> esp (tcb s' p) = kstack (tcb s' p) + 4040 \<and>
    get_registers (hmem (heap s')) (esp (tcb s' p)) =
      \<lparr>r_ds = 0x10, r_edi = 0, r_esi = 0, r_ebp = 0, r_esp = 0, r_ebx = 0, r_edx = 0, r_ecx = 0, r_eax = 0,
       r_int_no = 0, r_err_code = 0, r_eip = start, r_cs = 0x08, r_eflags = 0x202\<rparr> \<and>
    (\<forall>x \<in> set ts. tcb s' x = (tcb s x)\<lparr>task_next := (if x = last ts then p else task_next (tcb s x))\<rparr>) \<and>
    (\<forall>(r, v) \<in> live (heap s). \<forall>i < unat v. hmem (heap s') (r + of_nat i) = hmem (heap s) (r + of_nat i))"
proof -
  have ne: "ts \<noteq> []" using assms(1) by (auto simp: tasks_ok_def)
  obtain s' p q w where s': "task_create start s = Some s'" "tasks_ok s' (ts @ [p])" "p \<notin> set ts"
    "running_task s' = running_task s" "next_task_id s' = next_task_id s + 1"
    "tcb s' = (tcb s)
       (p := (tcb s p)\<lparr>task_id := next_task_id s, kstack := q, esp := q + 4040,
           page_directory := current_directory (vm (heap s')), task_state := TASK_READY, sleep_ticks := 0, task_next := 0\<rparr>,
        last ts := (tcb s (last ts))\<lparr>task_next := p\<rparr>)"
    "(q, w) \<in> live (heap s')" "4096 \<le> w"
    "get_registers (hmem (heap s')) (q + 4040) = \<lparr>r_ds = 0x10, r_edi = 0, r_esi = 0, r_ebp = 0, r_esp = 0,
       r_ebx = 0, r_edx = 0, r_ecx = 0, r_eax = 0, r_int_no = 0, r_err_code = 0, r_eip = start, r_cs = 8,
       r_eflags = 0x202\<rparr>"
    "\<forall>(r, v) \<in> live (heap s). \<forall>i < unat v. hmem (heap s') (r + of_nat i) = hmem (heap s) (r + of_nat i)"
    by (rule task_create_ok [OF assms])
  have "last ts \<noteq> p" using s'(3) last_in_set [OF ne] by metis
  then have p: "tcb s' p = (tcb s p)\<lparr>task_id := next_task_id s, kstack := q, esp := q + 4040,
      page_directory := current_directory (vm (heap s')), task_state := TASK_READY, sleep_ticks := 0, task_next := 0\<rparr>"
    by (subst s'(6)) simp
  have "tcb s' x = (tcb s x)\<lparr>task_next := (if x = last ts then p else task_next (tcb s x))\<rparr>" if "x \<in> set ts" for x
    using that s'(3) by (subst s'(6)) auto
  with s' p show ?thesis by (intro exI [of _ s'] exI [of _ p] exI [of _ w]) simp
qed

lemma boot_tasks:
  obtains v h s p where "vmm_init boot_state = Some v" "kheap_init (boot_heap v) = Some h"
    "task_init \<lparr>heap = h, tcb = (\<lambda>_. undefined), running_task = 0, ready_queue = 0, next_task_id = 1\<rparr> = Some s"
    "tasks_ok s [p]" "heap_ready (heap s) 32" "\<forall>q h'. kmalloc 32 (heap s) = Some (q, h') \<longrightarrow> heap_ready h' 4096"
proof -
  obtain v h where h: "vmm_init boot_state = Some v" "kheap_init (boot_heap v) = Some h"
    "heap_ok h [(KHEAP_INITIAL_SIZE - 20, True)]"
    by (rule boot_heap_ok)
  have t: "take_block KHEAP_START [(KHEAP_INITIAL_SIZE - 20, True)] 32 False =
      Some ([(32, False), (0xFFFB8, True)], 0xD0000014)"
    "take_block KHEAP_START [(32, False), (0xFFFB8, True)] 32 False =
      Some ([(32, False), (32, False), (0xFFF84, True)], 0xD0000048)"
    "take_block KHEAP_START [(32, False), (32, False), (0xFFF84, True)] 4096 False \<noteq> None"
    by (simp_all add: padding_def cut_block_def KHEAP_INITIAL_SIZE_def KHEAP_START_def)
  let ?s = "\<lparr>heap = h, tcb = (\<lambda>_. undefined), running_task = 0, ready_queue = 0, next_task_id = 1\<rparr>"
  obtain h1 where h1: "kmalloc 32 h = Some (0xD0000014, h1)" "heap_ok h1 [(32, False), (0xFFFB8, True)]"
    using kmalloc_found [OF h(3) _ _ t(1)] by (auto simp: kmalloc_def)
  obtain h2 where h2: "kmalloc 32 h1 = Some (0xD0000048, h2)" "heap_ok h2 [(32, False), (32, False), (0xFFF84, True)]"
    using kmalloc_found [OF h1(2) _ _ t(2)] by (auto simp: kmalloc_def)
  have r: "heap_ready h 32" "heap_ready h1 32" "heap_ready h2 4096"
    using h(3) h1(2) h2(2) t unfolding heap_ready_def by (metis option.distinct(1))+
  have "heap_inv (heap ?s)" using h(3) by (auto simp: heap_inv_def)
  then obtain s p where s: "task_init ?s = Some s" "tasks_ok s [p]"
    by (rule task_init_ok) (use r(1) in auto)
  have "heap s = h1" using s(1) h1(1) by (auto simp: task_init_def set_tcb_def Let_def)
  then show thesis using that [OF h(1,2) s(1,2)] r h2(1) by auto
qed

theorem task_create_appends_witness:
  "\<exists>v h s p s' q. vmm_init boot_state = Some v \<and> kheap_init (boot_heap v) = Some h \<and>
     task_init \<lparr>heap = h, tcb = (\<lambda>_. undefined), running_task = 0, ready_queue = 0, next_task_id = 1\<rparr> = Some s \<and>
     task_create 0xC0001000 s = Some s' \<and> tasks_ok s' [p, q] \<and>
     r_eip (get_registers (hmem (heap s')) (esp (tcb s' q))) = 0xC0001000"
proof -
  obtain v h s p where s: "vmm_init boot_state = Some v" "kheap_init (boot_heap v) = Some h"
    "task_init \<lparr>heap = h, tcb = (\<lambda>_. undefined), running_task = 0, ready_queue = 0, next_task_id = 1\<rparr> = Some s"
    "tasks_ok s [p]" "heap_ready (heap s) 32" "\<forall>q h'. kmalloc 32 (heap s) = Some (q, h') \<longrightarrow> heap_ready h' 4096"
    by (rule boot_tasks)
  have "heap_ready h' 4096" if "kmalloc 32 (heap s) = Some (q, h')" for q h' using s(6) that by blast
  from task_create_appends [where start = "0xC0001000", OF s(4,5) this] s(1-3) show ?thesis by fastforce
qed

text \<open>
  C18: one call of \<^verbatim>\<open>schedule\<close> is one step of a round robin. It returns; it saves the stack pointer of
  the task it leaves and takes the first runnable task behind it in the ring, the same task when
  there is no other; it returns that task's saved stack pointer and touches no other task.
\<close>

theorem schedule_round_robin:
  assumes "task_list s ts" and "running_task s \<in> set ts"
  shows "\<exists>s'. schedule e s = Some (esp (tcb s' (running_task s')), s') \<and> task_list s' ts \<and>
    running_task s' = (case find (\<lambda>p. runnable (tcb s p)) (others (running_task s) ts) of
      None \<Rightarrow> running_task s | Some p \<Rightarrow> p) \<and>
    esp (tcb s' (running_task s)) = e \<and> task_state (tcb s' (running_task s')) = TASK_RUNNING \<and>
    (\<forall>p. p \<noteq> running_task s \<longrightarrow> p \<noteq> running_task s' \<longrightarrow> tcb s' p = tcb s p) \<and>
    (running_task s' \<noteq> running_task s \<longrightarrow>
       tcb s' (running_task s') = (tcb s (running_task s'))\<lparr>task_state := TASK_RUNNING\<rparr> \<and>
       task_state (tcb s' (running_task s)) \<noteq> TASK_RUNNING)"
proof -
  let ?r = "running_task s"
  let ?n = "pick (tcb s) (others ?r ts) ?r"
  let ?s = "s\<lparr>tcb := switch_to e ?r ?n (tcb s), running_task := ?n\<rparr>"
  note sp = schedule_others [OF assms, of e]
  have x: "(if ?n = ?r then e else esp (tcb s ?n)) = esp (tcb ?s ?n)" by (simp add: switch_to_def Let_def)
  have "task_list ?s ts" by (rule schedule_list(1) [OF assms sp])
  with sp show ?thesis
    unfolding x
    by (intro exI [of _ ?s]) (simp add: switch_to_def Let_def pick_def suspended_def split: option.splits)
qed

definition demo_task :: "u32 \<Rightarrow> task_state_t \<Rightarrow> u32 \<Rightarrow> task_t" where
  "demo_task i st nx = \<lparr>task_id = i, esp = 0xD0000000 + 16 * i, kstack = 0, page_directory = 0, task_state = st,
     sleep_ticks = 2, task_next = nx, wait_next = 0\<rparr>"

text \<open>Three tasks: the running one at 16, one in the given state at 32, a ready one at 48.\<close>

definition demo_sys :: "task_state_t \<Rightarrow> task_state_t \<Rightarrow> task_state_t \<Rightarrow> task_sys" where
  "demo_sys a b c = \<lparr>heap = boot_heap boot_state,
     tcb = (\<lambda>p. if p = 16 then demo_task 1 a 32 else if p = 32 then demo_task 2 b 48 else demo_task 3 c 0),
     running_task = 16, ready_queue = 16, next_task_id = 4\<rparr>"

lemma demo_list: "task_list (demo_sys a b c) [16, 32, 48]"
  by (simp add: task_list_def demo_sys_def demo_task_def)

lemma demo_others: "others 16 [16, 32, 48] = [32, 48]" "others 48 [16, 32, 48] = [16, 32]"
  "others 32 [16, 32, 48] = [48, 16]"
  by (simp_all add: others_def)

lemma demo_fields: "running_task (demo_sys a b c) = 16" "task_state (tcb (demo_sys a b c) 16) = a"
  "task_state (tcb (demo_sys a b c) 32) = b" "task_state (tcb (demo_sys a b c) 48) = c"
  "sleep_ticks (tcb (demo_sys a b c) p) = 2"
  by (simp_all add: demo_sys_def demo_task_def)

theorem schedule_round_robin_witness:
  "\<exists>s' x. schedule 7 (demo_sys TASK_RUNNING TASK_BLOCKED TASK_READY) = Some (x, s') \<and>
     running_task s' = 48 \<and> esp (tcb s' 16) = 7"
  using schedule_round_robin [OF demo_list, of TASK_RUNNING TASK_BLOCKED TASK_READY 7]
  by (auto simp: demo_fields demo_others runnable_def)

text \<open>
  Never are two tasks marked as running: if at most the current task is, \<^verbatim>\<open>schedule\<close> leaves
  exactly one, the new current task, which is one of the list.
\<close>

theorem schedule_single_running:
  assumes "task_list s ts" and "running_task s \<in> set ts" and "one_running s ts"
    and "schedule e s = Some (x, s')"
  shows "running_task s' \<in> set ts \<and> {p \<in> set ts. task_state (tcb s' p) = TASK_RUNNING} = {running_task s'}"
  using schedule_list(2,3) [OF assms(1,2,4)] schedule_one_running [OF assms(1-4)]
  unfolding one_running_def by blast

theorem schedule_single_running_witness:
  "\<exists>x s'. schedule 7 (demo_sys TASK_RUNNING TASK_READY TASK_READY) = Some (x, s') \<and>
     {p \<in> {16, 32, 48}. task_state (tcb s' p) = TASK_RUNNING} = {running_task s'}"
proof -
  let ?s = "demo_sys TASK_RUNNING TASK_READY TASK_READY"
  have r: "running_task ?s \<in> set [16, 32, 48]" by (simp add: demo_fields)
  have o: "one_running ?s [16, 32, 48]" by (simp add: one_running_def demo_fields)
  obtain x s' where s': "schedule 7 ?s = Some (x, s')" using schedule_others [OF demo_list r] by blast
  from schedule_single_running [OF demo_list r o s'] s' show ?thesis by auto
qed

text \<open>
  C19: no task starves. Whatever happens between the calls of \<^verbatim>\<open>schedule\<close> (tasks may block, sleep
  and wake up), a task that is runnable each time another one is about to be left gets the
  processor after fewer calls than there are tasks.
\<close>

theorem schedule_fair:
  assumes "\<And>i. i < length ts \<Longrightarrow> task_list (u i) ts \<and> schedule (e i) (u i) = Some (x i, v i) \<and>
      running_task (u (Suc i)) = running_task (v i) \<and> (running_task (u i) \<noteq> t \<longrightarrow> runnable (tcb (u i) t))"
    and "running_task (u 0) \<in> set ts" and "t \<in> set ts"
  shows "\<exists>j < length ts. running_task (u j) = t"
proof (cases "running_task (u 0) = t")
  case True
  then show ?thesis using assms(2) by (intro exI [of _ 0]) (auto simp: length_pos_if_in_set)
next
  case False
  have n: "0 < length ts" using assms(3) by (auto simp: length_pos_if_in_set)
  then have d: "distinct ts" using assms(1) [of 0] by (auto simp: task_list_def)
  let ?o = "others (running_task (u 0)) ts"
  have "t \<in> set ?o" using others_set [OF d assms(2)] False assms(3) by simp
  then obtain as bs where o: "?o = as @ t # bs" by (metis split_list)
  have "length ?o < length ts"
  proof -
    obtain xs ys where ts: "ts = xs @ running_task (u 0) # ys" using assms(2) by (metis split_list)
    then have "running_task (u 0) \<notin> set xs" using d by auto
    then show ?thesis by (subst (1 2) ts) simp
  qed
  then have l: "Suc (length as) < length ts" unfolding o by simp
  then obtain j where "j \<le> 0 + Suc (length as)" "running_task (u j) = t"
    using schedule_reaches [where i = 0 and k = "length ts" and t = t and u = u and e = e and x = x and v = v,
        OF assms(1,2) _ o assms(2)] by auto
  then show ?thesis using l by (intro exI [of _ j]) simp
qed

theorem schedule_fair_witness:
  "\<exists>x u. u 0 = demo_sys TASK_RUNNING TASK_READY TASK_READY \<and>
     (\<forall>i < 3. schedule 7 (u i) = Some (x i, u (Suc i))) \<and> (\<exists>j < length [16, 32, 48 :: u32]. running_task (u j) = 48)"
proof -
  let ?ts = "[16, 32, 48] :: u32 list"
  let ?s0 = "demo_sys TASK_RUNNING TASK_READY TASK_READY"
  let ?s1 = "?s0\<lparr>tcb := switch_to 7 16 32 (tcb ?s0), running_task := 32\<rparr>"
  let ?s2 = "?s1\<lparr>tcb := switch_to 7 32 48 (tcb ?s1), running_task := 48\<rparr>"
  let ?s3 = "?s2\<lparr>tcb := switch_to 7 48 16 (tcb ?s2), running_task := 16\<rparr>"
  let ?u = "\<lambda>i. [?s0, ?s1, ?s2, ?s3] ! i"
  have l: "task_list ?s1 ?ts" "task_list ?s2 ?ts" using demo_list by (simp_all add: task_list_def)
  have st: "runnable (tcb ?s0 p)" "runnable (tcb ?s1 p)" "runnable (tcb ?s2 p)" for p
    by (simp_all add: runnable_def switch_to_state suspended_def demo_sys_def demo_task_def)
  have "schedule 7 ?s0 = Some (fst (the (schedule 7 ?s0)), ?s1)"
    using schedule_others [OF demo_list, of TASK_RUNNING TASK_READY TASK_READY 7] st(1)
    by (simp add: demo_fields demo_others pick_Cons)
  moreover have "schedule 7 ?s1 = Some (fst (the (schedule 7 ?s1)), ?s2)"
    using schedule_others [OF l(1), of 7] st(2) by (simp add: demo_others pick_Cons)
  moreover have "schedule 7 ?s2 = Some (fst (the (schedule 7 ?s2)), ?s3)"
    using schedule_others [OF l(2), of 7] st(3) by (simp add: demo_others pick_Cons)
  ultimately have sc: "schedule 7 (?u i) = Some (fst (the (schedule 7 (?u i))), ?u (Suc i))" if "i < 3" for i
    using that by (cases i; cases "i - 1") (simp_all add: less_Suc_eq numeral_3_eq_3)
  have "task_list (?u i) ?ts \<and> runnable (tcb (?u i) 48)" if "i < 3" for i
    using that l demo_list st by (cases i; cases "i - 1") (simp_all add: less_Suc_eq numeral_3_eq_3)
  then have "\<exists>j < length ?ts. running_task (?u j) = 48"
    by (intro schedule_fair [where e = "\<lambda>_. 7" and x = "\<lambda>i. fst (the (schedule 7 (?u i)))" and v = "\<lambda>i. ?u (Suc i)"])
       (use sc in \<open>auto simp: demo_fields\<close>)
  moreover have "?u 0 = ?s0" by simp
  ultimately show ?thesis
    by (intro exI [of _ "\<lambda>i. fst (the (schedule 7 (?u i)))"] exI [of _ ?u]) (use sc in blast)
qed

text \<open>
  C20: the loop of \<^verbatim>\<open>schedule\<close> ends with the task it started from even when that task may not run.
  If no other task is runnable, a task that has just blocked or gone to sleep is resumed and marked
  as running: it returns from \<^verbatim>\<open>task_yield\<close> without having been woken.
\<close>

theorem schedule_resumes_blocked:
  assumes "task_list s ts" and "running_task s \<in> set ts"
    and "\<forall>p \<in> set ts. \<not> runnable (tcb s p)"
  shows "\<exists>s'. schedule e s = Some (e, s') \<and> running_task s' = running_task s \<and>
    task_state (tcb s' (running_task s)) = TASK_RUNNING"
proof -
  have "pick (tcb s) (others (running_task s) ts) (running_task s) = running_task s"
    using pick_runnable [of "tcb s" "others (running_task s) ts" "running_task s"] assms
      others_set [of ts "running_task s"] by (auto simp: task_list_def)
  then show ?thesis using schedule_others [OF assms(1,2), of e] by (simp add: switch_to_state)
qed

theorem schedule_resumes_blocked_witness:
  "\<exists>s'. schedule 7 (demo_sys TASK_SLEEPING TASK_BLOCKED TASK_SLEEPING) = Some (7, s') \<and>
     task_state (tcb s' 16) = TASK_RUNNING"
  using schedule_resumes_blocked [OF demo_list, of TASK_SLEEPING TASK_BLOCKED TASK_SLEEPING 7]
  by (auto simp: demo_fields runnable_def)

end
