(* ===== verification/Devices.thy ===== *)
theory Devices
  imports Prelude
begin

text \<open>
  Port output and the tables the processor reads: \<^verbatim>\<open>io.h\<close>, \<^verbatim>\<open>drivers/pic.c\<close>, \<^verbatim>\<open>gdt.c\<close>, \<^verbatim>\<open>sys/idt.c\<close>
  and \<^verbatim>\<open>isr_install\<close> of \<^verbatim>\<open>sys/isr.c\<close>. The devices are not modelled: an output is an entry at the end
  of a log, and the value of an input is an argument. The addresses of the assembly stubs and of
  the tables themselves are arguments too.
\<close>

section \<open>Ports\<close>

type_synonym port_log = "(u16 \<times> u8) list"

definition outb :: "u16 \<Rightarrow> u8 \<Rightarrow> port_log \<Rightarrow> port_log" where
  "outb port val l = l @ [(port, val)]"

definition io_wait :: "port_log \<Rightarrow> port_log" where
  "io_wait l = outb 0x80 0 l"

section \<open>The interrupt controllers\<close>

definition PIC1_COMMAND :: u16 where "PIC1_COMMAND = 0x20"
definition PIC1_DATA :: u16 where "PIC1_DATA = PIC1_COMMAND + 1"
definition PIC2_COMMAND :: u16 where "PIC2_COMMAND = 0xA0"
definition PIC2_DATA :: u16 where "PIC2_DATA = PIC2_COMMAND + 1"
definition PIC_EOI :: u8 where "PIC_EOI = 0x20"
definition ICW1_ICW4 :: u8 where "ICW1_ICW4 = 0x01"
definition ICW1_INIT :: u8 where "ICW1_INIT = 0x10"
definition ICW4_8086 :: u8 where "ICW4_8086 = 0x01"

definition pic_send_eoi :: "u8 \<Rightarrow> port_log \<Rightarrow> port_log" where
  "pic_send_eoi irq l =
     (let l = (if irq \<ge> 8 then outb PIC2_COMMAND PIC_EOI l else l)
      in outb PIC1_COMMAND PIC_EOI l)"

text \<open>\<open>inb\<close> is what the controllers answer when their masks are read.\<close>

definition pic_remap :: "(u16 \<Rightarrow> u8) \<Rightarrow> u32 \<Rightarrow> u32 \<Rightarrow> port_log \<Rightarrow> port_log" where
  "pic_remap inb offset1 offset2 l =
     (let a1 = inb PIC1_DATA;
          a2 = inb PIC2_DATA;
          l = io_wait (outb PIC1_COMMAND (ICW1_INIT OR ICW1_ICW4) l);
          l = io_wait (outb PIC2_COMMAND (ICW1_INIT OR ICW1_ICW4) l);
          l = io_wait (outb PIC1_DATA (ucast offset1) l);
          l = io_wait (outb PIC2_DATA (ucast offset2) l);
          l = io_wait (outb PIC1_DATA 4 l);
          l = io_wait (outb PIC2_DATA 2 l);
          l = io_wait (outb PIC1_DATA ICW4_8086 l);
          l = io_wait (outb PIC2_DATA ICW4_8086 l);
          l = outb PIC1_DATA a1 l
      in outb PIC2_DATA a2 l)"

section \<open>The segment descriptors\<close>

record gdt_entry =
  g_limit_low :: u16
  g_base_low :: u16
  g_base_middle :: u8
  g_access :: u8
  g_granularity :: u8
  g_base_high :: u8

record table_ptr =
  pt_limit :: u16
  pt_base :: u32

definition gdt_set_gate :: "nat \<Rightarrow> u32 \<Rightarrow> u32 \<Rightarrow> u8 \<Rightarrow> u8 \<Rightarrow> gdt_entry list \<Rightarrow> gdt_entry list" where
  "gdt_set_gate num base limit access gran gdt =
     (let e = (gdt ! num)\<lparr>
            g_base_low := ucast (base AND 0xFFFF),
            g_base_middle := ucast (drop_bit 16 base AND 0xFF),
            g_base_high := ucast (drop_bit 24 base AND 0xFF),
            g_limit_low := ucast (limit AND 0xFFFF),
            g_granularity := ucast (drop_bit 16 limit AND 0x0F)\<rparr>;
          e = e\<lparr>g_granularity := g_granularity e OR (gran AND 0xF0)\<rparr>
      in gdt[num := e\<lparr>g_access := access\<rparr>])"

definition gdt_init :: "u32 \<Rightarrow> gdt_entry list \<Rightarrow> gdt_entry list \<times> table_ptr" where
  "gdt_init gdt_addr gdt =
     (let gp = \<lparr>pt_limit = 8 * 3 - 1, pt_base = gdt_addr\<rparr>;
          gdt = gdt_set_gate 0 0 0 0 0 gdt;
          gdt = gdt_set_gate 1 0 0xFFFFFFFF 0x9A 0xCF gdt;
          gdt = gdt_set_gate 2 0 0xFFFFFFFF 0x92 0xCF gdt
      in (gdt, gp))"

section \<open>The interrupt gates\<close>

record idt_entry =
  i_base_low :: u16
  i_selector :: u16
  i_always0 :: u8
  i_flags :: u8
  i_base_high :: u16

definition idt_set_gate :: "u8 \<Rightarrow> u32 \<Rightarrow> u16 \<Rightarrow> u8 \<Rightarrow> (u8 \<Rightarrow> idt_entry) \<Rightarrow> u8 \<Rightarrow> idt_entry" where
  "idt_set_gate num base sel flags idt = idt(num := (idt num)\<lparr>
     i_base_low := ucast (base AND 0xFFFF), i_base_high := ucast (drop_bit 16 base AND 0xFFFF),
     i_selector := sel, i_always0 := 0, i_flags := flags\<rparr>)"

definition idt_init :: "u32 \<Rightarrow> (u8 \<Rightarrow> idt_entry) \<Rightarrow> (u8 \<Rightarrow> idt_entry) \<times> table_ptr" where
  "idt_init idt_addr idt =
     (let idtp = \<lparr>pt_limit = 8 * 256 - 1, pt_base = idt_addr\<rparr>
      in (fold (\<lambda>i. idt_set_gate (of_nat i) 0 0 0) [0..<256] idt, idtp))"

text \<open>\<open>isr_stub\<close> and \<open>irq_stub\<close> give the addresses of \<^verbatim>\<open>isr0 ... isr31\<close> and \<^verbatim>\<open>irq0 ... irq15\<close>.\<close>

definition isr_install :: "(nat \<Rightarrow> u32) \<Rightarrow> (nat \<Rightarrow> u32) \<Rightarrow> (u16 \<Rightarrow> u8) \<Rightarrow>
    (u8 \<Rightarrow> idt_entry) \<times> port_log \<Rightarrow> (u8 \<Rightarrow> idt_entry) \<times> port_log \<times> (u8 \<Rightarrow> 'h option)" where
  "isr_install isr_stub irq_stub inb = (\<lambda>(idt, l).
     let idt = fold (\<lambda>i. idt_set_gate (of_nat i) (isr_stub i) 0x08 0x8E) [0..<32] idt;
         l = pic_remap inb 0x20 0x28 l;
         idt = fold (\<lambda>i. idt_set_gate (of_nat (32 + i)) (irq_stub i) 0x08 0x8E) [0..<16] idt
     in (idt, l, \<lambda>_. None))"

section \<open>What the processor reads\<close>

definition gdt_base :: "gdt_entry \<Rightarrow> u32" where
  "gdt_base e = ucast (g_base_low e) OR push_bit 16 (ucast (g_base_middle e)) OR push_bit 24 (ucast (g_base_high e))"

definition gdt_limit :: "gdt_entry \<Rightarrow> u32" where
  "gdt_limit e = ucast (g_limit_low e) OR push_bit 16 (ucast (g_granularity e AND 0x0F))"

definition gate_base :: "idt_entry \<Rightarrow> u32" where
  "gate_base e = ucast (i_base_low e) OR push_bit 16 (ucast (i_base_high e))"

text \<open>The masks of the code are the low bits of a word.\<close>

lemma mask_lits:
  fixes b :: u32 and g :: u8
  shows "b AND 0xFFFF = take_bit 16 b" "b AND 0xFF = take_bit 8 b" "b AND 0x0F = take_bit 4 b"
    "b AND 0xFFFFF = take_bit 20 b" "g AND 0x0F = take_bit 4 g" "g AND 0xF0 = g AND NOT (mask 4)"
proof -
  have "(0xF0 :: u8) = NOT (mask 4)" by (simp add: mask_eq_exp_minus_1)
  then show "g AND 0xF0 = g AND NOT (mask 4)" by (rule arg_cong)
qed (simp_all add: take_bit_eq_mask mask_eq_exp_minus_1)

lemma byte_cases:
  fixes n :: nat
  obtains "n < 16" | "16 \<le> n" "n < 24" | "24 \<le> n"
  by linarith

lemma word32_halves:
  "(ucast (ucast (b AND 0xFFFF) :: u16) :: u32) OR push_bit 16 (ucast (ucast (drop_bit 16 b AND 0xFFFF) :: u16)) = b"
  unfolding mask_lits by (rule bit_word_eqI) (auto simp: bit_simps)

lemma gdt_decode:
  fixes b l :: u32 and g :: u8
  shows "(ucast (ucast (b AND 0xFFFF) :: u16) :: u32) OR push_bit 16 (ucast (ucast (drop_bit 16 b AND 0xFF) :: u8))
      OR push_bit 24 (ucast (ucast (drop_bit 24 b AND 0xFF) :: u8)) = b"
    "(ucast (ucast (l AND 0xFFFF) :: u16) :: u32)
      OR push_bit 16 (ucast (((ucast (drop_bit 16 l AND 0x0F) :: u8) OR g AND 0xF0) AND 0x0F)) = l AND 0xFFFFF"
    "((ucast (drop_bit 16 l AND 0x0F) :: u8) OR g AND 0xF0) AND 0xF0 = g AND 0xF0"
  unfolding mask_lits
  subgoal
    apply (rule bit_word_eqI)
    subgoal for n by (cases n rule: byte_cases) (auto simp: bit_simps)
    done
  subgoal by (rule bit_word_eqI) (auto simp: bit_simps)
  subgoal by (rule bit_word_eqI) (auto simp: bit_simps)
  done

lemma gdt_set_gate_same:
  assumes "num < length gdt"
  shows "gdt_base (gdt_set_gate num base limit access gran gdt ! num) = base"
    "gdt_limit (gdt_set_gate num base limit access gran gdt ! num) = limit AND 0xFFFFF"
    "g_access (gdt_set_gate num base limit access gran gdt ! num) = access"
    "g_granularity (gdt_set_gate num base limit access gran gdt ! num) AND 0xF0 = gran AND 0xF0"
  using assms by (simp_all add: gdt_set_gate_def gdt_base_def gdt_limit_def gdt_decode Let_def)

lemma gdt_set_gate_other:
  "i \<noteq> num \<Longrightarrow> gdt_set_gate num base limit access gran gdt ! i = gdt ! i"
  "length (gdt_set_gate num base limit access gran gdt) = length gdt"
  by (simp_all add: gdt_set_gate_def Let_def)

definition gate :: "u32 \<Rightarrow> u16 \<Rightarrow> u8 \<Rightarrow> idt_entry \<Rightarrow> bool" where
  "gate base sel flags e \<longleftrightarrow> gate_base e = base \<and> i_selector e = sel \<and> i_flags e = flags \<and> i_always0 e = 0"

lemma idt_set_gate_same: "gate base sel flags (idt_set_gate num base sel flags idt num)"
  by (simp add: idt_set_gate_def gate_def gate_base_def word32_halves)

lemma idt_set_gate_other: "v \<noteq> num \<Longrightarrow> idt_set_gate num base sel flags idt v = idt v"
  by (simp add: idt_set_gate_def)

lemma unat_of_nat_8: "n < 256 \<Longrightarrow> unat (of_nat n :: u8) = n"
  by (simp add: unat_of_nat take_bit_nat_eq_self)

lemma unat_less_8: "unat (v :: u8) < 256"
  using unsigned_less [of v] by simp

text \<open>Filling \<open>n\<close> gates from vector \<open>b\<close> on.\<close>

definition idt_fill :: "nat \<Rightarrow> (nat \<Rightarrow> u32) \<Rightarrow> u16 \<Rightarrow> u8 \<Rightarrow> nat \<Rightarrow> (u8 \<Rightarrow> idt_entry) \<Rightarrow> u8 \<Rightarrow> idt_entry" where
  "idt_fill b f sel flags n idt = fold (\<lambda>i. idt_set_gate (of_nat (b + i)) (f i) sel flags) [0..<n] idt"

lemma idt_gates:
  fixes f :: "nat \<Rightarrow> u32"
  assumes "b + n \<le> 256"
  shows "b \<le> unat v \<Longrightarrow> unat v < b + n \<Longrightarrow> gate (f (unat v - b)) sel flags (idt_fill b f sel flags n idt v)"
    and "unat v < b \<or> b + n \<le> unat v \<Longrightarrow> idt_fill b f sel flags n idt v = idt v"
proof -
  have "(b \<le> unat v \<and> unat v < b + n \<longrightarrow> gate (f (unat v - b)) sel flags (idt_fill b f sel flags n idt v)) \<and>
      (unat v < b \<or> b + n \<le> unat v \<longrightarrow> idt_fill b f sel flags n idt v = idt v)"
    using assms(1)
  proof (induction n)
    case 0
    then show ?case by (auto simp: idt_fill_def)
  next
    case (Suc n)
    have u: "unat (of_nat (b + n) :: u8) = b + n" by (rule unat_of_nat_8) (use Suc.prems in simp)
    then have e: "v = of_nat (b + n) \<longleftrightarrow> unat v = b + n" by (auto simp: word_unat_eq_iff)
    have F: "idt_fill b f sel flags (Suc n) idt = idt_set_gate (of_nat (b + n)) (f n) sel flags (idt_fill b f sel flags n idt)" by (simp add: idt_fill_def)
    show ?case
    proof (cases "v = of_nat (b + n)")
      case True
      then have "unat v = b + n" using e by simp
      then show ?thesis using idt_set_gate_same [of "f n" sel flags v "idt_fill b f sel flags n idt"] True by (simp add: F)
    next
      case False
      then have "idt_fill b f sel flags (Suc n) idt v = idt_fill b f sel flags n idt v" unfolding F by (rule idt_set_gate_other)
      then show ?thesis using Suc e False by (auto simp: less_Suc_eq)
    qed
  qed
  then show "b \<le> unat v \<Longrightarrow> unat v < b + n \<Longrightarrow> gate (f (unat v - b)) sel flags (idt_fill b f sel flags n idt v)"
    "unat v < b \<or> b + n \<le> unat v \<Longrightarrow> idt_fill b f sel flags n idt v = idt v" by blast+
qed

section \<open>Properties\<close>

text \<open>
  a segment descriptor means what \<^verbatim>\<open>gdt_set_gate\<close> was given: the processor reads back the base,
  the low twenty bits of the limit, the access byte and the upper four flag bits; the other
  descriptors are untouched.
\<close>

theorem gdt_gate_roundtrip:
  assumes "num < length gdt"
  shows "let gdt' = gdt_set_gate num base limit access gran gdt in
    gdt_base (gdt' ! num) = base \<and> gdt_limit (gdt' ! num) = limit AND 0xFFFFF \<and>
    g_access (gdt' ! num) = access \<and> g_granularity (gdt' ! num) AND 0xF0 = gran AND 0xF0 \<and>
    length gdt' = length gdt \<and> (\<forall>i. i \<noteq> num \<longrightarrow> gdt' ! i = gdt ! i)"
  using gdt_set_gate_same [OF assms] gdt_set_gate_other by (simp add: Let_def)

theorem gdt_gate_roundtrip_witness:
  "gdt_limit (fst (gdt_init 0 (replicate 3 \<lparr>g_limit_low = 0, g_base_low = 0, g_base_middle = 0, g_access = 0,
     g_granularity = 0, g_base_high = 0\<rparr>)) ! 2) = 0xFFFFF"
  using gdt_gate_roundtrip [of 2 "gdt_set_gate 1 0 0xFFFFFFFF 0x9A 0xCF (gdt_set_gate 0 0 0 0 0
    (replicate 3 \<lparr>g_limit_low = 0, g_base_low = 0, g_base_middle = 0, g_access = 0, g_granularity = 0,
       g_base_high = 0\<rparr>))" 0 "0xFFFFFFFF" "0x92" "0xCF"]
  by (simp add: gdt_init_def gdt_set_gate_other Let_def)

text \<open>
  What the outputs mean to an interrupt controller, as its data sheet describes the initialisation: a
  command with bit 4 set starts it; the next words on the data port are the first vector, the wiring to
  the other controller (unless bit 1 of the command says there is none) and the mode (if bit 0 of the
  command announces it); after that the data port is the mask.
\<close>

record pic_chip =
  icw1 :: u8
  first_vector :: u8
  cascade :: u8
  pic_mode :: u8
  pic_mask :: u8
  expects :: nat

definition pic_write :: "u16 \<Rightarrow> u16 \<Rightarrow> u16 \<times> u8 \<Rightarrow> pic_chip \<Rightarrow> pic_chip" where
  "pic_write command data = (\<lambda>(port, v) c.
     if port = command then
       if v AND 0x10 \<noteq> 0 then c\<lparr>icw1 := v, pic_mode := 0, pic_mask := 0, expects := 2\<rparr> else c
     else if port = data then
       if expects c = 2 then
         c\<lparr>first_vector := v AND 0xF8, expects := if icw1 c AND 2 = 0 then 3 else if icw1 c AND 1 \<noteq> 0 then 4 else 0\<rparr>
       else if expects c = 3 then c\<lparr>cascade := v, expects := if icw1 c AND 1 \<noteq> 0 then 4 else 0\<rparr>
       else if expects c = 4 then c\<lparr>pic_mode := v, expects := 0\<rparr>
       else c\<lparr>pic_mask := v\<rparr>
     else c)"

lemma pic_remap_effect:
  "\<exists>w. pic_remap inb 0x20 0x28 l = l @ w \<and>
     fold (pic_write PIC1_COMMAND PIC1_DATA) w c1 =
       \<lparr>icw1 = 0x11, first_vector = 32, cascade = 4, pic_mode = ICW4_8086, pic_mask = inb PIC1_DATA, expects = 0\<rparr> \<and>
     fold (pic_write PIC2_COMMAND PIC2_DATA) w c2 =
       \<lparr>icw1 = 0x11, first_vector = 40, cascade = 2, pic_mode = ICW4_8086, pic_mask = inb PIC2_DATA, expects = 0\<rparr>"
proof -
  let ?pause = "[(0x80, 0) :: u16 \<times> u8]"
  let ?w = "[(PIC1_COMMAND, 0x11)] @ ?pause @ [(PIC2_COMMAND, 0x11)] @ ?pause @ [(PIC1_DATA, 32)] @ ?pause @ [(PIC2_DATA, 40)] @ ?pause @
    [(PIC1_DATA, 4)] @ ?pause @ [(PIC2_DATA, 2)] @ ?pause @ [(PIC1_DATA, ICW4_8086)] @ ?pause @ [(PIC2_DATA, ICW4_8086)] @ ?pause @
    [(PIC1_DATA, inb PIC1_DATA), (PIC2_DATA, inb PIC2_DATA)]"
  note ports = PIC1_COMMAND_def PIC1_DATA_def PIC2_COMMAND_def PIC2_DATA_def ICW1_INIT_def ICW1_ICW4_def ICW4_8086_def
  have "pic_remap inb 0x20 0x28 l = l @ ?w"
    by (simp add: pic_remap_def outb_def io_wait_def Let_def ports)
  moreover have "fold (pic_write PIC1_COMMAND PIC1_DATA) ?w c1 =
       \<lparr>icw1 = 0x11, first_vector = 32, cascade = 4, pic_mode = ICW4_8086, pic_mask = inb PIC1_DATA, expects = 0\<rparr>"
    by (cases c1) (simp add: pic_write_def ports)
  moreover have "fold (pic_write PIC2_COMMAND PIC2_DATA) ?w c2 =
       \<lparr>icw1 = 0x11, first_vector = 40, cascade = 2, pic_mode = ICW4_8086, pic_mask = inb PIC2_DATA, expects = 0\<rparr>"
    by (cases c2) (simp add: pic_write_def ports)
  ultimately show ?thesis by blast
qed

text \<open>
  C21: after \<^verbatim>\<open>idt_init\<close> and \<^verbatim>\<open>isr_install\<close> the 32 exceptions lead to their stubs and the 16 hardware
  interrupts to theirs, each through an interrupt gate of the kernel's code segment; every other gate is
  empty and no handler is set. The outputs initialise both controllers, whatever state they were in:
  the first raises from vector 32 and has the second on line 2, the second raises from vector 40, both are in 8086 mode,
  and both have the masks that were read before.
\<close>

theorem interrupts_installed:
  fixes idt :: "u8 \<Rightarrow> idt_entry"
  shows "\<exists>idt' w hs. isr_install isr_stub irq_stub inb (fst (idt_init addr idt), l) = (idt', l @ w, hs) \<and>
    (\<forall>v. gate (if unat v < 32 then isr_stub (unat v) else if unat v < 48 then irq_stub (unat v - 32) else 0)
      (if unat v < 48 then 0x08 else 0) (if unat v < 48 then 0x8E else 0) (idt' v)) \<and>
    (\<forall>v. hs v = None) \<and>
    fold (pic_write PIC1_COMMAND PIC1_DATA) w c1 =
      \<lparr>icw1 = 0x11, first_vector = 32, cascade = 4, pic_mode = ICW4_8086, pic_mask = inb PIC1_DATA, expects = 0\<rparr> \<and>
    fold (pic_write PIC2_COMMAND PIC2_DATA) w c2 =
      \<lparr>icw1 = 0x11, first_vector = 40, cascade = 2, pic_mode = ICW4_8086, pic_mask = inb PIC2_DATA, expects = 0\<rparr>"
proof -
  let ?i0 = "idt_fill 0 (\<lambda>_. 0) 0 0 256 idt"
  let ?i1 = "idt_fill 0 isr_stub 0x08 0x8E 32 ?i0"
  let ?i2 = "idt_fill 32 irq_stub 0x08 0x8E 16 ?i1"
  have e: "isr_install isr_stub irq_stub inb (fst (idt_init addr idt), l) = (?i2, pic_remap inb 0x20 0x28 l, \<lambda>_. None)"
    by (simp add: isr_install_def idt_init_def idt_fill_def Let_def)
  have "gate (if unat v < 32 then isr_stub (unat v) else if unat v < 48 then irq_stub (unat v - 32) else 0)
      (if unat v < 48 then 0x08 else 0) (if unat v < 48 then 0x8E else 0) (?i2 v)" for v
  proof -
    have 0: "gate 0 0 0 (?i0 v)" using idt_gates(1) [of 0 256 v "\<lambda>_. 0" 0 0 idt] unat_less_8 [of v] by simp
    consider "unat v < 32" | "32 \<le> unat v" "unat v < 48" | "48 \<le> unat v" by linarith
    then show ?thesis
    proof cases
      case 1
      have "?i2 v = ?i1 v" by (rule idt_gates(2)) (use 1 in simp_all)
      moreover have "gate (isr_stub (unat v - 0)) 0x08 0x8E (?i1 v)" by (rule idt_gates(1)) (use 1 in simp_all)
      ultimately show ?thesis using 1 by simp
    next
      case 2
      have "gate (irq_stub (unat v - 32)) 0x08 0x8E (?i2 v)" by (rule idt_gates(1)) (use 2 in simp_all)
      then show ?thesis using 2 by simp
    next
      case 3
      have "?i2 v = ?i1 v" "?i1 v = ?i0 v" by (rule idt_gates(2); use 3 in simp)+
      then show ?thesis using 0 3 by simp
    qed
  qed
  with pic_remap_effect [of inb l c1 c2] show ?thesis unfolding e by blast
qed

end
