(* ===== verification/Timer.thy ===== *)
theory Timer
  imports Task Devices
begin

text \<open>
  \<^verbatim>\<open>drivers/timer.c\<close>: the tick counter, the interrupt routine that wakes sleeping tasks and calls
  the scheduler, the programming of the interval timer, and \<^verbatim>\<open>sleep\<close>. The state of the tasks is
  extended by the counter and by the log of port outputs. Where the code gives up the processor
  (\<^verbatim>\<open>task_yield\<close>), what happens until the task runs again is the argument \<open>yield\<close>.
\<close>

section \<open>State and code\<close>

record timer_sys = task_sys +
  tick :: u32
  ports :: port_log

text \<open>The body of \<^verbatim>\<open>timer_callback\<close>; \<open>regs\<close> is the stack pointer of the interrupted task.\<close>

definition timer_interrupt :: "u32 \<Rightarrow> 'a timer_sys_scheme \<Rightarrow> (u32 \<times> 'a timer_sys_scheme) option" where
  "timer_interrupt regs s =
     (case tasks_update_sleep_ticks (s\<lparr>tick := tick s + 1\<rparr>) of
        None \<Rightarrow> None
      | Some s \<Rightarrow> schedule regs s)"

definition set_handler :: "u8 \<Rightarrow> isr_t \<Rightarrow> 'a task_sys_scheme \<Rightarrow> 'a task_sys_scheme" where
  "set_handler n h s = s\<lparr>heap := heap s\<lparr>vm := vm (heap s)\<lparr>interrupt_handlers :=
     register_interrupt_handler n h (interrupt_handlers (vm (heap s)))\<rparr>\<rparr>\<rparr>"

text \<open>A frequency of zero is a division fault, which halts the machine.\<close>

definition timer_init :: "u32 \<Rightarrow> 'a timer_sys_scheme \<Rightarrow> 'a timer_sys_scheme option" where
  "timer_init frequency s =
     (let s = set_handler 32 timer_callback s
      in if frequency = 0 then None
         else
           let divisor = 1193180 div frequency;
               l = outb 0x43 0x36 (ports s);
               lo = ucast (divisor AND 0xFF);
               hi = ucast (drop_bit 8 divisor AND 0xFF);
               l = outb 0x40 lo l;
               l = outb 0x40 hi l
           in Some (s\<lparr>ports := l\<rparr>))"

definition timer_get_ticks :: "'a timer_sys_scheme \<Rightarrow> u32" where
  "timer_get_ticks s = tick s"

definition sleep_ticks_for :: "u32 \<Rightarrow> u32" where
  "sleep_ticks_for ms = (let ticks_to_wait = ms div 10 in if ticks_to_wait = 0 then 1 else ticks_to_wait)"

definition sleep :: "('a timer_sys_scheme \<Rightarrow> 'a timer_sys_scheme option) \<Rightarrow> u32 \<Rightarrow> 'a timer_sys_scheme \<Rightarrow> 'a timer_sys_scheme option" where
  "sleep yield ms s =
     (let ticks_to_wait = sleep_ticks_for ms;
          current = task_get_current s
      in if current \<noteq> 0 then
           let s = set_tcb current (\<lambda>t. t\<lparr>sleep_ticks := ticks_to_wait\<rparr>) s;
               s = set_tcb current (\<lambda>t. t\<lparr>task_state := TASK_SLEEPING\<rparr>) s
           in yield s
         else Some s)"

section \<open>The divisor\<close>

lemma unat_low_byte: "unat (ucast x :: u8) = unat x mod 256" for x :: u32
  by (simp add: unsigned_ucast_eq take_bit_eq_mod)

lemma two_bytes: "unat (ucast d :: u8) + 256 * unat (ucast (drop_bit 8 d) :: u8) = unat d mod 65536" for d :: u32
proof -
  have "unat (drop_bit 8 d) = unat d div 256" by (simp add: drop_bit_eq_div unat_div)
  moreover have "x mod 256 + 256 * (x div 256 mod 256) = x mod 65536" for x :: nat
    using mod_mult2_eq [of x 256 256] by simp
  ultimately show ?thesis by (simp add: unat_low_byte)
qed

lemma divisor_fits: "0 < n \<Longrightarrow> 1193180 div n mod 65536 = 1193180 div n \<longleftrightarrow> 19 \<le> n" for n :: nat
proof -
  assume n: "0 < n"
  have "1193180 div n < 65536 \<longleftrightarrow> 1193180 < 65536 * n" using n by (simp add: div_less_iff_less_mult)
  also have "\<dots> \<longleftrightarrow> 19 \<le> n" by auto
  finally have "1193180 div n < 65536 \<longleftrightarrow> 19 \<le> n" .
  then show ?thesis by (metis mod_less mod_less_divisor zero_less_numeral)
qed

text \<open>How many ticks \<^verbatim>\<open>sleep\<close> asks for.\<close>

lemma sleep_ticks_count: "unat (sleep_ticks_for ms) = max 1 (unat ms div 10)"
proof -
  have "unat (ms div 10) = unat ms div 10" by (simp add: unat_div)
  moreover from this have "ms div 10 = 0 \<longleftrightarrow> unat ms div 10 = 0" by (metis unat_eq_zero)
  ultimately show ?thesis by (auto simp: sleep_ticks_for_def Let_def max_def)
qed

section \<open>Properties\<close>

text \<open>
  C22: \<^verbatim>\<open>timer_init\<close> selects the mode and writes the divisor low byte first. The two bytes are the
  divisor modulo 65536, so the timer runs at the requested frequency only from 19 Hz on. The handler
  is registered for vector 32.
\<close>

theorem timer_divisor:
  assumes "frequency \<noteq> 0"
  shows "\<exists>lo hi s'. timer_init frequency s = Some s' \<and>
      ports s' = ports s @ [(0x43, 0x36), (0x40, lo), (0x40, hi)] \<and>
      unat lo + 256 * unat hi = 1193180 div unat frequency mod 65536 \<and>
      (unat lo + 256 * unat hi = 1193180 div unat frequency \<longleftrightarrow> 19 \<le> frequency) \<and>
      interrupt_handlers (vm (heap s')) = (interrupt_handlers (vm (heap s)))(32 := Some timer_callback)"
proof -
  let ?d = "1193180 div frequency"
  let ?lo = "ucast ?d :: u8" and ?hi = "ucast (drop_bit 8 ?d) :: u8"
  have b: "(ucast (?d AND 0xFF) :: u8) = ?lo" "(ucast (drop_bit 8 ?d AND 0xFF) :: u8) = ?hi"
    unfolding mask_lits by (rule bit_word_eqI; simp add: bit_simps)+
  have d: "unat ?d = 1193180 div unat frequency" by (simp add: unat_div)
  have "0 < unat frequency" using assms by (simp add: word_unat_eq_iff)
  note fit = divisor_fits [OF this]
  have "19 \<le> frequency \<longleftrightarrow> 19 \<le> unat frequency" by (simp add: word_le_nat_alt)
  then have "unat ?lo + 256 * unat ?hi = 1193180 div unat frequency \<longleftrightarrow> 19 \<le> frequency"
    using fit by (simp add: two_bytes d)
  then show ?thesis
    using assms by (intro exI [of _ ?lo] exI [of _ ?hi])
      (simp add: timer_init_def b outb_def set_handler_def register_interrupt_handler_def two_bytes d Let_def)
qed

theorem timer_divisor_witness:
  "\<exists>lo hi s'. timer_init 100 (task_sys.extend (demo_sys TASK_RUNNING TASK_READY TASK_READY)
      \<lparr>tick = 0, ports = []\<rparr>) = Some s' \<and>
     ports s' = [(0x43, 0x36), (0x40, lo), (0x40, hi)] \<and> unat lo + 256 * unat hi = 11931"
  using timer_divisor [of 100] by (fastforce simp: task_sys.defs)

end
