(* ===== verification/Fifo.thy ===== *)
theory Fifo
  imports Prelude
begin

text \<open>
  The contract of the queues of the kernel: the wait queues of mutexes and condition variables
  and the keyboard buffer. A queue is a part of the state that represents a list; what goes in
  comes out in the same order. Taking from an empty queue and putting into one that refuses give \<open>None\<close>.
\<close>

datatype 'a fifo_op = Enq 'a | Deq

text \<open>A sequence of operations that all succeed: what came out and the state afterwards.\<close>

fun fifo_run :: "('a \<Rightarrow> 's \<Rightarrow> 's option) \<Rightarrow> ('s \<Rightarrow> ('a \<times> 's) option) \<Rightarrow> 'a fifo_op list \<Rightarrow> 's \<Rightarrow> ('a list \<times> 's) option" where
  "fifo_run enq deq [] s = Some ([], s)"
| "fifo_run enq deq (Enq a # ops) s = (case enq a s of None \<Rightarrow> None | Some s \<Rightarrow> fifo_run enq deq ops s)"
| "fifo_run enq deq (Deq # ops) s =
     (case deq s of
        None \<Rightarrow> None
      | Some (a, s) \<Rightarrow> (case fifo_run enq deq ops s of None \<Rightarrow> None | Some (out, s) \<Rightarrow> Some (a # out, s)))"

definition inputs :: "'a fifo_op list \<Rightarrow> 'a list" where
  "inputs ops = concat (map (\<lambda>op. case op of Enq a \<Rightarrow> [a] | Deq \<Rightarrow> []) ops)"

lemma inputs_simps [simp]: "inputs [] = []" "inputs (Enq a # ops) = a # inputs ops" "inputs (Deq # ops) = inputs ops"
  by (simp_all add: inputs_def)

text \<open>The same run on lists. \<open>room a xs\<close> says that the queue may take \<open>a\<close> when it holds \<open>xs\<close>.\<close>

fun spec_run :: "('a \<Rightarrow> 'a list \<Rightarrow> bool) \<Rightarrow> 'a fifo_op list \<Rightarrow> 'a list \<Rightarrow> ('a list \<times> 'a list) option" where
  "spec_run room [] xs = Some ([], xs)"
| "spec_run room (Enq a # ops) xs = (if room a xs then spec_run room ops (xs @ [a]) else None)"
| "spec_run room (Deq # ops) xs =
     (case xs of [] \<Rightarrow> None | a # xs \<Rightarrow> map_option (\<lambda>(out, ys). (a # out, ys)) (spec_run room ops xs))"

text \<open>First in, first out: what comes out is the head of what was in the queue and what went in.\<close>

lemma spec_run_order: "spec_run room ops xs = Some (out, ys) \<Longrightarrow> xs @ inputs ops = out @ ys"
proof (induction ops arbitrary: xs out)
  case (Cons op ops)
  show ?case
  proof (cases op)
    case (Enq a)
    then show ?thesis using Cons.prems Cons.IH [of "xs @ [a]"] by (auto split: if_splits)
  next
    case Deq
    then obtain a xs' out' where "xs = a # xs'" "spec_run room ops xs' = Some (out', ys)" "out = a # out'"
      using Cons.prems by (auto split: list.splits)
    then show ?thesis using Deq Cons.IH by simp
  qed
qed simp

locale fifo =
  fixes enq :: "'a \<Rightarrow> 's \<Rightarrow> 's option"
    and deq :: "'s \<Rightarrow> ('a \<times> 's) option"
    and holds :: "'s \<Rightarrow> 'a list \<Rightarrow> bool"
    and room :: "'a \<Rightarrow> 'a list \<Rightarrow> bool"
  assumes enq_ok: "holds s xs \<Longrightarrow> room a xs \<Longrightarrow> \<exists>s'. enq a s = Some s' \<and> holds s' (xs @ [a])"
    and deq_ok: "holds s (a # xs) \<Longrightarrow> \<exists>s'. deq s = Some (a, s') \<and> holds s' xs"
    and deq_empty: "holds s [] \<Longrightarrow> deq s = None"
begin

lemma run_refines:
  "holds s xs \<Longrightarrow> spec_run room ops xs = Some (out, ys) \<Longrightarrow>
     \<exists>s'. fifo_run enq deq ops s = Some (out, s') \<and> holds s' ys"
proof (induction ops arbitrary: s xs out)
  case (Cons op ops)
  show ?case
  proof (cases op)
    case (Enq a)
    then have "room a xs" and r: "spec_run room ops (xs @ [a]) = Some (out, ys)"
      using Cons.prems(2) by (auto split: if_splits)
    then obtain s1 where "enq a s = Some s1" "holds s1 (xs @ [a])" using enq_ok [OF Cons.prems(1)] by blast
    then show ?thesis using Cons.IH [OF _ r] Enq by simp
  next
    case Deq
    then obtain a xs' out' where x: "xs = a # xs'" "spec_run room ops xs' = Some (out', ys)" "out = a # out'"
      using Cons.prems(2) by (auto split: list.splits)
    then obtain s1 where "deq s = Some (a, s1)" "holds s1 xs'" using deq_ok Cons.prems(1) by blast
    then show ?thesis using Cons.IH [OF _ x(2)] Deq x(3) by fastforce
  qed
qed (auto intro: exI [of _ s])

text \<open>What waits comes out, all of it and in order.\<close>

lemma drain: "holds s xs \<Longrightarrow> \<exists>s'. fifo_run enq deq (replicate (length xs) Deq) s = Some (xs, s') \<and> holds s' []"
proof -
  have "spec_run room (replicate (length xs) Deq) xs = Some (xs, [])" by (induction xs) auto
  then show "holds s xs \<Longrightarrow> ?thesis" by (rule run_refines [rotated])
qed

end

text \<open>A queue that refuses what it has no room for: then the run on lists tells exactly what happens.\<close>

locale bounded_fifo = fifo +
  assumes enq_full: "holds s xs \<Longrightarrow> \<not> room a xs \<Longrightarrow> enq a s = None"
begin

lemma run_none: "holds s xs \<Longrightarrow> spec_run room ops xs = None \<Longrightarrow> fifo_run enq deq ops s = None"
proof (induction ops arbitrary: s xs)
  case (Cons op ops)
  show ?case
  proof (cases op)
    case (Enq a)
    show ?thesis
    proof (cases "room a xs")
      case True
      then obtain s1 where "enq a s = Some s1" "holds s1 (xs @ [a])" using enq_ok [OF Cons.prems(1)] by blast
      then show ?thesis using Enq True Cons.prems(2) Cons.IH by simp
    qed (use Enq enq_full [OF Cons.prems(1)] in simp)
  next
    case Deq
    show ?thesis
    proof (cases xs)
      case (Cons a ys)
      then obtain s1 where "deq s = Some (a, s1)" "holds s1 ys" using deq_ok Cons.prems(1) by blast
      then show ?thesis using Deq Cons Cons.prems(2) Cons.IH by simp
    qed (use Deq deq_empty Cons.prems(1) in simp)
  qed
qed simp

lemma run_order:
  assumes "holds s xs" "fifo_run enq deq ops s = Some (out, s')"
  shows "\<exists>ys. xs @ inputs ops = out @ ys \<and> holds s' ys"
proof (cases "spec_run room ops xs")
  case None
  with run_none [OF assms(1)] assms(2) show ?thesis by simp
next
  case (Some r)
  then obtain o' ys where r: "spec_run room ops xs = Some (o', ys)" by (cases r) simp
  from run_refines [OF assms(1) this] spec_run_order [OF r] assms(2) show ?thesis by auto
qed

end

end
