(* ===== verification/Sync.thy ===== *)
theory Sync
  imports Timer Fifo
begin

text \<open>
  \<^verbatim>\<open>mutex.c\<close>, \<^verbatim>\<open>cond.c\<close> and \<^verbatim>\<open>monitor.c\<close>. Mutexes and condition variables are records by address;
  their wait queues run through the \<^verbatim>\<open>wait_next\<close> field of the tasks. The interrupt flag is part of
  the state. \<open>yield\<close> is \<^verbatim>\<open>task_yield\<close>: everything that happens until the task runs again.
\<close>

section \<open>State and code\<close>

record mutex_t =
  locked :: u32
  owner :: u32
  m_waiters :: u32

record cond_t =
  c_waiters :: u32

record sync_sys = timer_sys +
  iflag :: bool
  mutexes :: "u32 \<Rightarrow> mutex_t"
  conds :: "u32 \<Rightarrow> cond_t"

definition cli :: "'a sync_sys_scheme \<Rightarrow> 'a sync_sys_scheme" where "cli s = s\<lparr>iflag := False\<rparr>"
definition sti :: "'a sync_sys_scheme \<Rightarrow> 'a sync_sys_scheme" where "sti s = s\<lparr>iflag := True\<rparr>"

definition set_mutex :: "u32 \<Rightarrow> (mutex_t \<Rightarrow> mutex_t) \<Rightarrow> 'a sync_sys_scheme \<Rightarrow> 'a sync_sys_scheme" where
  "set_mutex m f s = s\<lparr>mutexes := (mutexes s)(m := f (mutexes s m))\<rparr>"

definition set_cond :: "u32 \<Rightarrow> (cond_t \<Rightarrow> cond_t) \<Rightarrow> 'a sync_sys_scheme \<Rightarrow> 'a sync_sys_scheme" where
  "set_cond c f s = s\<lparr>conds := (conds s)(c := f (conds s c))\<rparr>"

text \<open>
  The code that both \<^verbatim>\<open>mutex_lock\<close> and \<^verbatim>\<open>cond_wait\<close> contain: block the current task and append it to
  the queue that starts at \<open>w\<close>. The result is the new start.
\<close>

definition last_waiter :: "(u32 \<Rightarrow> task_t) \<Rightarrow> u32 \<Rightarrow> u32 option" where
  "last_waiter t tmp = chain_end (\<lambda>p. wait_next (t p)) tmp"

definition block_on :: "u32 \<Rightarrow> u32 \<times> (u32 \<Rightarrow> task_t) \<Rightarrow> (u32 \<times> (u32 \<Rightarrow> task_t)) option" where
  "block_on current = (\<lambda>(w, t).
     let t = t(current := (t current)\<lparr>task_state := TASK_BLOCKED\<rparr>);
         t = t(current := (t current)\<lparr>wait_next := 0\<rparr>)
     in if w = 0 then Some (current, t)
        else case last_waiter t w of
               None \<Rightarrow> None
             | Some tmp \<Rightarrow> Some (w, t(tmp := (t tmp)\<lparr>wait_next := current\<rparr>)))"

text \<open>The code of \<^verbatim>\<open>mutex_unlock\<close>, \<^verbatim>\<open>cond_signal\<close> and \<^verbatim>\<open>cond_broadcast\<close> that wakes the first waiter.\<close>

definition wake_first :: "u32 \<times> (u32 \<Rightarrow> task_t) \<Rightarrow> (u32 \<times> (u32 \<times> (u32 \<Rightarrow> task_t))) option" where
  "wake_first = (\<lambda>(w, t).
     if w \<noteq> 0 then
       let waiter = w;
           w = wait_next (t waiter);
           t = t(waiter := (t waiter)\<lparr>task_state := TASK_READY\<rparr>)
       in Some (waiter, w, t)
     else None)"

definition mutex_init :: "u32 \<Rightarrow> 'a sync_sys_scheme \<Rightarrow> 'a sync_sys_scheme" where
  "mutex_init m s = set_mutex m (\<lambda>x. x\<lparr>locked := 0, owner := 0, m_waiters := 0\<rparr>) s"

text \<open>The body of the loop of \<^verbatim>\<open>mutex_lock\<close> up to the yield, and what follows the loop.\<close>

definition mutex_wait :: "u32 \<Rightarrow> u32 \<Rightarrow> 'a sync_sys_scheme \<Rightarrow> 'a sync_sys_scheme option" where
  "mutex_wait m current s =
     (case block_on current (m_waiters (mutexes s m), tcb s) of
        None \<Rightarrow> None
      | Some (w, t) \<Rightarrow> Some (set_mutex m (\<lambda>x. x\<lparr>m_waiters := w\<rparr>) (s\<lparr>tcb := t\<rparr>)))"

definition mutex_take :: "u32 \<Rightarrow> u32 \<Rightarrow> 'a sync_sys_scheme \<Rightarrow> 'a sync_sys_scheme" where
  "mutex_take m current s = sti (set_mutex m (\<lambda>x. x\<lparr>locked := 1, owner := current\<rparr>) s)"

partial_function (option) mutex_lock_loop ::
    "('a sync_sys_scheme \<Rightarrow> 'a sync_sys_scheme option) \<Rightarrow> u32 \<Rightarrow> u32 \<Rightarrow> 'a sync_sys_scheme \<Rightarrow> 'a sync_sys_scheme option" where
  "mutex_lock_loop yield m current s =
     (if locked (mutexes s m) \<noteq> 0 then
        case mutex_wait m current s of
          None \<Rightarrow> None
        | Some s \<Rightarrow> (case yield s of None \<Rightarrow> None | Some s \<Rightarrow> mutex_lock_loop yield m current (cli s))
      else Some (mutex_take m current s))"

definition mutex_lock :: "('a sync_sys_scheme \<Rightarrow> 'a sync_sys_scheme option) \<Rightarrow> u32 \<Rightarrow> 'a sync_sys_scheme \<Rightarrow> 'a sync_sys_scheme option" where
  "mutex_lock yield m s =
     (let s = cli s; current = task_get_current s in mutex_lock_loop yield m current s)"

definition mutex_unlock :: "u32 \<Rightarrow> 'a sync_sys_scheme \<Rightarrow> 'a sync_sys_scheme" where
  "mutex_unlock m s =
     (let s = cli s;
          s = set_mutex m (\<lambda>x. x\<lparr>locked := 0\<rparr>) s;
          s = set_mutex m (\<lambda>x. x\<lparr>owner := 0\<rparr>) s;
          s = (case wake_first (m_waiters (mutexes s m), tcb s) of
                 None \<Rightarrow> s
               | Some (waiter, w, t) \<Rightarrow> set_mutex m (\<lambda>x. x\<lparr>m_waiters := w\<rparr>) (s\<lparr>tcb := t\<rparr>))
      in sti s)"

definition cond_init :: "u32 \<Rightarrow> 'a sync_sys_scheme \<Rightarrow> 'a sync_sys_scheme" where
  "cond_init c s = set_cond c (\<lambda>x. x\<lparr>c_waiters := 0\<rparr>) s"

text \<open>\<^verbatim>\<open>cond_wait\<close> up to its yield.\<close>

definition cond_wait_enter :: "u32 \<Rightarrow> u32 \<Rightarrow> 'a sync_sys_scheme \<Rightarrow> 'a sync_sys_scheme option" where
  "cond_wait_enter c m s =
     (let s = cli s; current = task_get_current s
      in case block_on current (c_waiters (conds s c), tcb s) of
           None \<Rightarrow> None
         | Some (w, t) \<Rightarrow> Some (mutex_unlock m (set_cond c (\<lambda>x. x\<lparr>c_waiters := w\<rparr>) (s\<lparr>tcb := t\<rparr>))))"

definition cond_wait :: "('a sync_sys_scheme \<Rightarrow> 'a sync_sys_scheme option) \<Rightarrow> u32 \<Rightarrow> u32 \<Rightarrow> 'a sync_sys_scheme \<Rightarrow> 'a sync_sys_scheme option" where
  "cond_wait yield c m s =
     (case cond_wait_enter c m s of
        None \<Rightarrow> None
      | Some s \<Rightarrow> (case yield s of None \<Rightarrow> None | Some s \<Rightarrow> mutex_lock yield m s))"

definition cond_signal :: "u32 \<Rightarrow> 'a sync_sys_scheme \<Rightarrow> 'a sync_sys_scheme" where
  "cond_signal c s =
     (let s = cli s;
          s = (case wake_first (c_waiters (conds s c), tcb s) of
                 None \<Rightarrow> s
               | Some (waiter, w, t) \<Rightarrow> set_cond c (\<lambda>x. x\<lparr>c_waiters := w\<rparr>) (s\<lparr>tcb := t\<rparr>))
      in sti s)"

partial_function (option) wake_all :: "u32 \<times> (u32 \<Rightarrow> task_t) \<Rightarrow> (u32 \<times> (u32 \<Rightarrow> task_t)) option" where
  "wake_all q = (case wake_first q of None \<Rightarrow> Some q | Some (waiter, q) \<Rightarrow> wake_all q)"

definition cond_broadcast :: "u32 \<Rightarrow> 'a sync_sys_scheme \<Rightarrow> 'a sync_sys_scheme option" where
  "cond_broadcast c s =
     (let s = cli s
      in case wake_all (c_waiters (conds s c), tcb s) of
           None \<Rightarrow> None
         | Some (w, t) \<Rightarrow> Some (sti (set_cond c (\<lambda>x. x\<lparr>c_waiters := w\<rparr>) (s\<lparr>tcb := t\<rparr>))))"

section \<open>\<^verbatim>\<open>monitor.c\<close>\<close>

text \<open>A monitor is a mutex followed by eight condition variables of four bytes each.\<close>

definition MAX_MONITOR_CONDS :: nat where "MAX_MONITOR_CONDS = 8"

definition monitor_lock :: "u32 \<Rightarrow> u32" where "monitor_lock m = m"

definition monitor_cond :: "u32 \<Rightarrow> u32 \<Rightarrow> u32" where "monitor_cond m idx = m + 12 + 4 * idx"

definition cond_idx_ok :: "u32 \<Rightarrow> bool" where
  "cond_idx_ok idx \<longleftrightarrow> sint idx \<ge> 0 \<and> sint idx < int MAX_MONITOR_CONDS"

definition monitor_init :: "u32 \<Rightarrow> 'a sync_sys_scheme \<Rightarrow> 'a sync_sys_scheme" where
  "monitor_init m s = fold (\<lambda>i. cond_init (monitor_cond m (of_nat i))) [0..<MAX_MONITOR_CONDS] (mutex_init (monitor_lock m) s)"

definition monitor_enter :: "('a sync_sys_scheme \<Rightarrow> 'a sync_sys_scheme option) \<Rightarrow> u32 \<Rightarrow> 'a sync_sys_scheme \<Rightarrow> 'a sync_sys_scheme option" where
  "monitor_enter yield m s = mutex_lock yield (monitor_lock m) s"

definition monitor_exit :: "u32 \<Rightarrow> 'a sync_sys_scheme \<Rightarrow> 'a sync_sys_scheme" where
  "monitor_exit m s = mutex_unlock (monitor_lock m) s"

definition monitor_wait :: "('a sync_sys_scheme \<Rightarrow> 'a sync_sys_scheme option) \<Rightarrow> u32 \<Rightarrow> u32 \<Rightarrow> 'a sync_sys_scheme \<Rightarrow> 'a sync_sys_scheme option" where
  "monitor_wait yield m idx s =
     (if cond_idx_ok idx then cond_wait yield (monitor_cond m idx) (monitor_lock m) s else Some s)"

definition monitor_notify :: "u32 \<Rightarrow> u32 \<Rightarrow> 'a sync_sys_scheme \<Rightarrow> 'a sync_sys_scheme" where
  "monitor_notify m idx s = (if cond_idx_ok idx then cond_signal (monitor_cond m idx) s else s)"

definition monitor_notify_all :: "u32 \<Rightarrow> u32 \<Rightarrow> 'a sync_sys_scheme \<Rightarrow> 'a sync_sys_scheme option" where
  "monitor_notify_all m idx s = (if cond_idx_ok idx then cond_broadcast (monitor_cond m idx) s else Some s)"

section \<open>A wait queue\<close>

text \<open>The tasks \<open>xs\<close> wait in the queue that starts at \<open>w\<close>.\<close>

definition waiting :: "u32 \<times> (u32 \<Rightarrow> task_t) \<Rightarrow> u32 list \<Rightarrow> bool" where
  "waiting q xs \<longleftrightarrow> chain (\<lambda>p. wait_next (snd q p)) (fst q) xs \<and> distinct xs"

text \<open>Blocking and waking change the state of one task and the links of the queue, nothing else.\<close>

definition relinked :: "u32 list \<Rightarrow> u32 \<Rightarrow> task_state_t \<Rightarrow> (u32 \<Rightarrow> task_t) \<Rightarrow> (u32 \<Rightarrow> task_t) \<Rightarrow> bool" where
  "relinked xs p st t t' \<longleftrightarrow>
     (\<forall>q. t' q = (t q)\<lparr>task_state := if q = p then st else task_state (t q), wait_next := wait_next (t' q)\<rparr>) \<and>
     (\<forall>q. q \<notin> set xs \<longrightarrow> q \<noteq> p \<longrightarrow> t' q = t q)"

lemma relinked_fields:
  assumes "relinked xs p st t t'"
  shows "task_state (t' q) = (if q = p then st else task_state (t q))" "task_next (t' q) = task_next (t q)"
    "esp (t' q) = esp (t q)" "sleep_ticks (t' q) = sleep_ticks (t q)"
    "q \<notin> set xs \<Longrightarrow> q \<noteq> p \<Longrightarrow> wait_next (t' q) = wait_next (t q)"
proof -
  obtain w where "t' q = (t q)\<lparr>task_state := if q = p then st else task_state (t q), wait_next := w\<rparr>"
    using assms unfolding relinked_def by blast
  then show "task_state (t' q) = (if q = p then st else task_state (t q))" "task_next (t' q) = task_next (t q)"
    "esp (t' q) = esp (t q)" "sleep_ticks (t' q) = sleep_ticks (t q)"
    by simp_all
  show "q \<notin> set xs \<Longrightarrow> q \<noteq> p \<Longrightarrow> wait_next (t' q) = wait_next (t q)" using assms by (simp add: relinked_def)
qed

lemma block_on_ok:
  assumes "waiting (w, t) xs" "p \<notin> set xs" "p \<noteq> 0"
  shows "\<exists>q. block_on p (w, t) = Some q \<and> waiting q (xs @ [p]) \<and> relinked xs p TASK_BLOCKED t (snd q)"
proof -
  let ?t = "t(p := (t p)\<lparr>task_state := TASK_BLOCKED, wait_next := 0\<rparr>)"
  have c: "chain (\<lambda>q. wait_next (t q)) w xs" and d: "distinct xs" using assms(1) by (auto simp: waiting_def)
  show ?thesis
  proof (cases xs)
    case Nil
    then have "w = 0" using c by simp
    then show ?thesis using Nil assms(3)
      by (intro exI [of _ "(p, ?t)"]) (auto simp: block_on_def waiting_def relinked_def fun_upd_def)
  next
    case (Cons x ys)
    let ?l = "last xs"
    let ?t' = "?t(?l := (?t ?l)\<lparr>wait_next := p\<rparr>)"
    have ne: "xs \<noteq> []" and l: "?l \<in> set xs" using Cons by simp_all
    have w: "w \<noteq> 0" using chain_start [OF c ne] by blast
    have "chain (\<lambda>q. wait_next (?t q)) w xs"
      by (rule iffD1 [OF chain_cong c]) (use assms(2) in auto)
    then have e: "last_waiter ?t w = Some ?l" using chain_end_last ne by (simp add: last_waiter_def)
    have "(\<lambda>q. wait_next (?t' q)) = (\<lambda>q. wait_next (t q))(p := 0, ?l := p)" by (auto simp: fun_eq_iff)
    then have "waiting (w, ?t') (xs @ [p])"
      using chain_snoc [OF c ne d assms(2,3)] d assms(2) by (simp add: waiting_def)
    moreover have "relinked xs p TASK_BLOCKED t ?t'" using l assms(2) by (auto simp: relinked_def)
    moreover have "block_on p (w, t) = Some (w, ?t')" using w e by (simp add: block_on_def Let_def)
    ultimately show ?thesis by (intro exI [of _ "(w, ?t')"]) simp
  qed
qed

lemma wake_first_ok:
  assumes "waiting (w, t) (x # xs)"
  shows "\<exists>q. wake_first (w, t) = Some (x, q) \<and> waiting q xs \<and> relinked [] x TASK_READY t (snd q)"
proof -
  let ?t = "t(x := (t x)\<lparr>task_state := TASK_READY\<rparr>)"
  have "(\<lambda>p. wait_next (?t p)) = (\<lambda>p. wait_next (t p))" by (auto simp: fun_eq_iff)
  then show ?thesis using assms
    by (intro exI [of _ "(wait_next (t x), ?t)"]) (auto simp: wake_first_def waiting_def relinked_def Let_def)
qed

lemma wake_first_none: "waiting (w, t) [] \<Longrightarrow> wake_first (w, t) = None"
  by (simp add: waiting_def wake_first_def)

text \<open>
  \<^verbatim>\<open>wake_all\<close> is the loop of \<^verbatim>\<open>cond_broadcast\<close>: it makes every waiter ready and leaves the queue empty.
\<close>

lemma wake_all_ok:
  "waiting (w, t) xs \<Longrightarrow> \<exists>t'. wake_all (w, t) = Some (0, t') \<and>
     (\<forall>q. t' q = (if q \<in> set xs then (t q)\<lparr>task_state := TASK_READY\<rparr> else t q))"
proof (induction xs arbitrary: w t)
  case Nil
  then show ?case by (subst wake_all.simps) (auto simp: wake_first_none waiting_def)
next
  case (Cons x xs)
  let ?t = "t(x := (t x)\<lparr>task_state := TASK_READY\<rparr>)"
  have x: "w = x" "w \<noteq> 0" "x \<notin> set xs" using Cons.prems by (auto simp: waiting_def)
  then have "wake_first (w, t) = Some (x, wait_next (t x), ?t)" by (simp add: wake_first_def Let_def)
  moreover have "waiting (wait_next (t x), ?t) xs"
    using wake_first_ok [OF Cons.prems] calculation by simp
  ultimately show ?case using Cons.IH x(3) by (subst wake_all.simps) fastforce
qed

text \<open>The queue as a whole: the waiters leave it in the order in which they came.\<close>

interpretation wait_queue: fifo block_on wake_first waiting "\<lambda>p xs. p \<noteq> 0 \<and> p \<notin> set xs"
proof unfold_locales
  fix q xs p assume "waiting q xs" "p \<noteq> 0 \<and> p \<notin> set xs"
  then show "\<exists>q'. block_on p q = Some q' \<and> waiting q' (xs @ [p])" using block_on_ok by (cases q) blast
next
  fix q p xs assume "waiting q (p # xs)"
  then show "\<exists>q'. wake_first q = Some (p, q') \<and> waiting q' xs" using wake_first_ok by (cases q) blast
next
  fix q assume "waiting q []"
  then show "wake_first q = None" using wake_first_none by (cases q) simp
qed

end
