(* ===== verification/Sync_Machine.thy ===== *)
theory Sync_Machine
  imports Sync
begin

text \<open>
  Tasks that use mutexes and condition variables, interleaved by the timer interrupt. A step of the
  machine is a stretch of code that runs with interrupts disabled, or one tick. \<open>pc p\<close> says where
  task \<open>p\<close> is: in its own code, in \<^verbatim>\<open>mutex_lock\<close> of a mutex (before the check or after the yield), in
  \<^verbatim>\<open>cond_wait\<close> or \<^verbatim>\<open>sleep\<close> before their yield. The third part of a configuration records which task has
  returned from \<^verbatim>\<open>mutex_lock\<close> of which mutex without having given it back. One task is the idle task
  (\<^verbatim>\<open>kmain\<close> after boot), which never waits and never sleeps; it may take a mutex that is free. The
  code of an interrupt runs on the stack and in the name of the task it interrupts: the keyboard interrupt,
  which enters a monitor, is covered where it interrupts a task in its own code, unless that is the idle
  task and the monitor is taken. Ticks are allowed
  between any two steps, also where the code runs with interrupts disabled a little longer (from
  the return of a yield to the next check), which only adds behaviours.
\<close>

section \<open>The interleaving\<close>

datatype wait_obj = Mutex u32 | Cond u32

datatype pc = User | Wants u32 | Yielding u32 | Snoozing

definition wait_head :: "'a sync_sys_scheme \<Rightarrow> wait_obj \<Rightarrow> u32" where
  "wait_head s k = (case k of Mutex m \<Rightarrow> m_waiters (mutexes s m) | Cond c \<Rightarrow> c_waiters (conds s c))"

definition holder :: "'a sync_sys_scheme \<Rightarrow> u32 \<Rightarrow> u32 option" where
  "holder s m = (if locked (mutexes s m) = 0 then None else Some (owner (mutexes s m)))"

type_synonym sync_conf = "sync_sys \<times> (u32 \<Rightarrow> pc) \<times> (u32 \<times> u32) set"

inductive sync_step :: "u32 \<Rightarrow> sync_conf \<Rightarrow> sync_conf \<Rightarrow> bool" for idle where
  lock_free: "\<lbrakk>r = running_task s; pc r = User \<or> pc r = Wants m; locked (mutexes s m) = 0\<rbrakk>
    \<Longrightarrow> sync_step idle (s, pc, H) (mutex_take m r (cli s), pc(r := User), insert (r, m) H)"
| lock_wait: "\<lbrakk>r = running_task s; r \<noteq> idle; pc r = User \<or> pc r = Wants m; locked (mutexes s m) \<noteq> 0;
      mutex_wait m r (cli s) = Some s1; timer_interrupt e s1 = Some (x, s2)\<rbrakk>
    \<Longrightarrow> sync_step idle (s, pc, H) (s2, pc(r := Wants m), H)"
| unlock: "\<lbrakk>r = running_task s; pc r = User; (r, m) \<in> H\<rbrakk>
    \<Longrightarrow> sync_step idle (s, pc, H) (mutex_unlock m s, pc, H - {(r, m)})"
| wait: "\<lbrakk>r = running_task s; r \<noteq> idle; pc r = User; (r, m) \<in> H; cond_wait_enter c m s = Some s1\<rbrakk>
    \<Longrightarrow> sync_step idle (s, pc, H) (s1, pc(r := Yielding m), H - {(r, m)})"
| wait_yield: "\<lbrakk>r = running_task s; pc r = Yielding m; timer_interrupt e s = Some (x, s1)\<rbrakk>
    \<Longrightarrow> sync_step idle (s, pc, H) (s1, pc(r := Wants m), H)"
| signal: "\<lbrakk>pc (running_task s) = User\<rbrakk> \<Longrightarrow> sync_step idle (s, pc, H) (cond_signal c s, pc, H)"
| broadcast: "\<lbrakk>pc (running_task s) = User; cond_broadcast c s = Some s1\<rbrakk> \<Longrightarrow> sync_step idle (s, pc, H) (s1, pc, H)"
| snooze: "\<lbrakk>r = running_task s; r \<noteq> idle; pc r = User; sleep Some ms s = Some s1\<rbrakk>
    \<Longrightarrow> sync_step idle (s, pc, H) (s1, pc(r := Snoozing), H)"
| snooze_yield: "\<lbrakk>r = running_task s; pc r = Snoozing; timer_interrupt e s = Some (x, s1)\<rbrakk>
    \<Longrightarrow> sync_step idle (s, pc, H) (s1, pc(r := User), H)"
| tick: "\<lbrakk>timer_interrupt e s = Some (x, s1)\<rbrakk> \<Longrightarrow> sync_step idle (s, pc, H) (s1, pc, H)"

text \<open>Before anything has happened: all mutexes and condition variables as their init functions leave them.\<close>

definition sync_start :: "u32 \<Rightarrow> u32 list \<Rightarrow> sync_conf \<Rightarrow> bool" where
  "sync_start idle ts = (\<lambda>(s, pc, H). task_list s ts \<and> idle \<in> set ts \<and> running_task s = idle \<and>
     (\<forall>p. pc p = User) \<and> H = {} \<and>
     (\<forall>p \<in> set ts. task_state (tcb s p) = (if p = idle then TASK_RUNNING else TASK_READY)) \<and>
     (\<forall>m. locked (mutexes s m) = 0 \<and> m_waiters (mutexes s m) = 0) \<and> (\<forall>c. c_waiters (conds s c) = 0))"

section \<open>The control state\<close>

definition parked :: "wait_obj \<Rightarrow> pc \<Rightarrow> bool" where
  "parked k c \<longleftrightarrow> (case k of Mutex m \<Rightarrow> c = Wants m | Cond _ \<Rightarrow> (\<exists>m. c = Yielding m \<or> c = Wants m))"

definition active :: "task_state_t \<Rightarrow> bool" where
  "active st \<longleftrightarrow> st = TASK_READY \<or> st = TASK_RUNNING"

text \<open>
  The invariant, on the states of the tasks, the running one, the object \<open>W p\<close> each task waits for
  and the holders of the mutexes: tasks, queues and mutexes apart first. The last clause is the one
  against lost wake-ups.
\<close>

definition tasks_inv :: "u32 \<Rightarrow> u32 list \<Rightarrow> (u32 \<Rightarrow> task_state_t) \<Rightarrow> u32 \<Rightarrow> (u32 \<Rightarrow> pc) \<Rightarrow> bool" where
  "tasks_inv idle ts st r pc \<longleftrightarrow> r \<in> set ts \<and> idle \<in> set ts \<and> pc idle = User \<and>
     st idle \<noteq> TASK_SLEEPING \<and>
     (\<forall>p \<in> set ts. st p = TASK_RUNNING \<longrightarrow> p = r)"

definition queues_inv :: "u32 list \<Rightarrow> (u32 \<Rightarrow> wait_obj option) \<Rightarrow> (u32 \<Rightarrow> task_state_t) \<Rightarrow> (u32 \<Rightarrow> pc) \<Rightarrow> bool" where
  "queues_inv ts W st pc \<longleftrightarrow> (\<forall>p k. W p = Some k \<longrightarrow> p \<in> set ts \<and> parked k (pc p)) \<and>
     (\<forall>p \<in> set ts. st p = TASK_BLOCKED \<longleftrightarrow> W p \<noteq> None)"

definition awaited :: "u32 list \<Rightarrow> (u32 \<Rightarrow> task_state_t) \<Rightarrow> (u32 \<Rightarrow> pc) \<Rightarrow> u32 \<Rightarrow> bool" where
  "awaited ts st pc m \<longleftrightarrow> (\<exists>p \<in> set ts. pc p = Wants m \<and> active (st p))"

definition mutexes_inv :: "u32 list \<Rightarrow> (u32 \<Rightarrow> wait_obj option) \<Rightarrow> (u32 \<Rightarrow> task_state_t) \<Rightarrow> (u32 \<Rightarrow> u32 option) \<Rightarrow>
    (u32 \<Rightarrow> pc) \<Rightarrow> (u32 \<times> u32) set \<Rightarrow> bool" where
  "mutexes_inv ts W st own pc H \<longleftrightarrow> (\<forall>p m. (p, m) \<in> H \<longleftrightarrow> own m = Some p) \<and>
     (\<forall>p m. own m = None \<longrightarrow> W p = Some (Mutex m) \<longrightarrow> awaited ts st pc m)"

definition control0 :: "u32 \<Rightarrow> u32 list \<Rightarrow> (u32 \<Rightarrow> wait_obj option) \<Rightarrow> (u32 \<Rightarrow> task_state_t) \<Rightarrow> u32 \<Rightarrow>
    (u32 \<Rightarrow> u32 option) \<Rightarrow> (u32 \<Rightarrow> pc) \<Rightarrow> (u32 \<times> u32) set \<Rightarrow> bool" where
  "control0 idle ts W st r own pc H \<longleftrightarrow>
     tasks_inv idle ts st r pc \<and> queues_inv ts W st pc \<and> mutexes_inv ts W st own pc H"

definition in_code :: "pc \<Rightarrow> bool" where
  "in_code c \<longleftrightarrow> c = User \<or> (\<exists>m. c = Wants m)"

definition control :: "u32 \<Rightarrow> u32 list \<Rightarrow> (u32 \<Rightarrow> wait_obj option) \<Rightarrow> (u32 \<Rightarrow> task_state_t) \<Rightarrow> u32 \<Rightarrow>
    (u32 \<Rightarrow> u32 option) \<Rightarrow> (u32 \<Rightarrow> pc) \<Rightarrow> (u32 \<times> u32) set \<Rightarrow> bool" where
  "control idle ts W st r own pc H \<longleftrightarrow>
     control0 idle ts W st r own pc H \<and> (in_code (pc r) \<longrightarrow> st r = TASK_RUNNING)"

subsection \<open>Abstract steps\<close>

lemma control_parts:
  assumes "control idle ts W st r own pc H"
  shows "tasks_inv idle ts st r pc" "queues_inv ts W st pc" "mutexes_inv ts W st own pc H"
    "in_code (pc r) \<Longrightarrow> st r = TASK_RUNNING" "in_code (pc r) \<Longrightarrow> W r = None"
proof -
  show T: "tasks_inv idle ts st r pc" and Q: "queues_inv ts W st pc" and "mutexes_inv ts W st own pc H"
    and R: "in_code (pc r) \<Longrightarrow> st r = TASK_RUNNING"
    using assms by (simp_all add: control_def control0_def)
  have "r \<in> set ts" using T by (simp add: tasks_inv_def)
  then have "st r = TASK_BLOCKED \<longleftrightarrow> W r \<noteq> None" using Q by (simp add: queues_inv_def)
  then show "in_code (pc r) \<Longrightarrow> W r = None" using R by simp
qed

lemma parked_simps [simp]: "\<not> parked k User" "\<not> parked k Snoozing" "parked (Mutex m) c \<longleftrightarrow> c = Wants m"
  "parked (Cond m) (Wants m')" "parked (Cond m) (Yielding m')"
  by (cases k; simp add: parked_def)+

lemma control_take:
  assumes "control idle ts W st r own pc H" "in_code (pc r)" "own m = None" "pc r = User \<or> pc r = Wants m"
  shows "control idle ts W st r (own(m := Some r)) (pc(r := User)) (insert (r, m) H)"
proof -
  note C = control_parts [OF assms(1)]
  have "tasks_inv idle ts st r (pc(r := User))"
    using C(1) by (simp add: tasks_inv_def)
  moreover have "queues_inv ts W st (pc(r := User))"
    using C(2) C(5) [OF assms(2)] unfolding queues_inv_def by auto
  moreover have "awaited ts st (pc(r := User)) m'" if "awaited ts st pc m'" "m' \<noteq> m" for m'
    using that assms(4) unfolding awaited_def by (metis fun_upd_other pc.distinct(1) pc.inject(1))
  then have "mutexes_inv ts W st (own(m := Some r)) (pc(r := User)) (insert (r, m) H)"
    using C(3) assms(3) unfolding mutexes_inv_def by auto
  ultimately show ?thesis using C(4) assms(2) by (simp add: control_def control0_def)
qed

text \<open>One task more in a queue: it is running and is not the idle task.\<close>

lemma control_block:
  assumes "control idle ts W st r own pc H" "r \<noteq> idle" "in_code (pc r)" "parked k c"
    "\<And>m. pc r = Wants m \<Longrightarrow> own m \<noteq> None" "\<And>m. k = Mutex m \<Longrightarrow> own m \<noteq> None"
  shows "control0 idle ts (W(r := Some k)) (st(r := TASK_BLOCKED)) r own (pc(r := c)) H"
proof -
  note C = control_parts [OF assms(1)]
  have r: "r \<in> set ts" using C(1) by (simp add: tasks_inv_def)
  have "tasks_inv idle ts (st(r := TASK_BLOCKED)) r (pc(r := c))"
    using C(1) assms(2) by (auto simp: tasks_inv_def)
  moreover have "queues_inv ts (W(r := Some k)) (st(r := TASK_BLOCKED)) (pc(r := c))"
    using C(2) C(5) [OF assms(3)] r assms(4) unfolding queues_inv_def by auto
  moreover have "awaited ts (st(r := TASK_BLOCKED)) (pc(r := c)) m" if "awaited ts st pc m" "own m = None" for m
    using that assms(5) unfolding awaited_def by (metis fun_upd_other)
  then have "mutexes_inv ts (W(r := Some k)) (st(r := TASK_BLOCKED)) own (pc(r := c)) H"
    using C(3) assms(6) unfolding mutexes_inv_def by auto
  ultimately show ?thesis by (simp add: control0_def)
qed

lemma control_release:
  assumes "control0 idle ts W st r own pc H" "own m = Some q" "\<And>p. W p \<noteq> Some (Mutex m)"
  shows "control0 idle ts W st r (own(m := None)) pc (H - {(q, m)})"
  using assms by (auto simp: control0_def mutexes_inv_def)

lemma control_wake:
  assumes "control0 idle ts W st r own pc H" "W x = Some k"
    "\<And>p m. (p, m) \<in> H' \<longleftrightarrow> own' m = Some p" "\<And>m. own' m = None \<Longrightarrow> own m = None \<or> k = Mutex m"
  shows "control0 idle ts (W(x := None)) (st(x := TASK_READY)) r own' pc H'"
proof -
  have T: "tasks_inv idle ts st r pc" and U: "queues_inv ts W st pc" and M: "mutexes_inv ts W st own pc H"
    using assms(1) by (auto simp: control0_def)
  have x: "x \<in> set ts" "parked k (pc x)" using U assms(2) by (auto simp: queues_inv_def)
  have "tasks_inv idle ts (st(x := TASK_READY)) r pc" using T by (auto simp: tasks_inv_def)
  moreover have "queues_inv ts (W(x := None)) (st(x := TASK_READY)) pc" using U by (auto simp: queues_inv_def)
  moreover have "awaited ts (st(x := TASK_READY)) pc m" if "own' m = None" "W p = Some (Mutex m)" for p m
  proof (cases "k = Mutex m")
    case True
    then show ?thesis using x by (auto simp: awaited_def parked_def active_def)
  next
    case False
    then have "awaited ts st pc m" using M assms(4) [OF that(1)] that(2) by (auto simp: mutexes_inv_def)
    then show ?thesis by (auto simp: awaited_def active_def)
  qed
  then have "mutexes_inv ts (W(x := None)) (st(x := TASK_READY)) own' pc H'"
    using assms(3) by (auto simp: mutexes_inv_def split: if_splits)
  ultimately show ?thesis by (simp add: control0_def)
qed

text \<open>All tasks that wait for a condition variable wake up.\<close>

lemma control_wake_all:
  assumes "control idle ts W st r own pc H"
  shows "control idle ts (\<lambda>p. if W p = Some (Cond c) then None else W p)
    (\<lambda>p. if W p = Some (Cond c) then TASK_READY else st p) r own pc H"
proof -
  note C = control_parts [OF assms]
  let ?st = "\<lambda>p. if W p = Some (Cond c) then TASK_READY else st p"
  let ?W = "\<lambda>p. if W p = Some (Cond c) then None else W p"
  have "tasks_inv idle ts ?st r pc" using C(1) by (auto simp: tasks_inv_def)
  moreover have "queues_inv ts ?W ?st pc" using C(2) by (auto simp: queues_inv_def)
  moreover have "awaited ts ?st pc m" if "awaited ts st pc m" for m
    using that by (fastforce simp: awaited_def active_def)
  then have "mutexes_inv ts ?W ?st own pc H" using C(3) by (auto simp: mutexes_inv_def split: if_splits)
  moreover have "in_code (pc r) \<Longrightarrow> ?st r = TASK_RUNNING" using C(4,5) by simp
  ultimately show ?thesis by (simp add: control_def control0_def)
qed

text \<open>The running task falls asleep.\<close>

lemma control_snooze:
  assumes "control idle ts W st r own pc H" "r \<noteq> idle" "pc r = User"
  shows "control0 idle ts W (st(r := TASK_SLEEPING)) r own (pc(r := Snoozing)) H"
proof -
  note C = control_parts [OF assms(1)]
  have "tasks_inv idle ts (st(r := TASK_SLEEPING)) r (pc(r := Snoozing))"
    using C(1) assms(2) by (auto simp: tasks_inv_def)
  moreover have "queues_inv ts W (st(r := TASK_SLEEPING)) (pc(r := Snoozing))"
    using C(2) C(5) assms(3) by (auto simp: queues_inv_def in_code_def)
  moreover have "awaited ts (st(r := TASK_SLEEPING)) (pc(r := Snoozing)) m" if "awaited ts st pc m" for m
    using that assms(3) unfolding awaited_def by (metis fun_upd_other pc.distinct(1))
  then have "mutexes_inv ts W (st(r := TASK_SLEEPING)) own (pc(r := Snoozing)) H"
    using C(3) by (auto simp: mutexes_inv_def)
  ultimately show ?thesis by (simp add: control0_def)
qed

text \<open>
  The timer interrupt: sleeping tasks may become ready, the task that is left is no longer marked as
  running, and the next one is active; it is the same one only if no other is.
\<close>

definition switched :: "u32 list \<Rightarrow> (u32 \<Rightarrow> task_state_t) \<Rightarrow> u32 \<Rightarrow> (u32 \<Rightarrow> task_state_t) \<Rightarrow> u32 \<Rightarrow> bool" where
  "switched ts st r st' n \<longleftrightarrow> (\<exists>w. (\<forall>p \<in> set ts. w p = st p \<or> st p = TASK_SLEEPING \<and> w p = TASK_READY) \<and>
     (if n = r then \<forall>p \<in> set ts. p \<noteq> r \<longrightarrow> \<not> active (w p) else n \<in> set ts \<and> active (w n)) \<and>
     (\<forall>p \<in> set ts. st' p = (if p = n then TASK_RUNNING
        else if p = r \<and> w p = TASK_RUNNING then TASK_READY else w p)))"

lemma idle_active:
  assumes "tasks_inv idle ts st r pc" "queues_inv ts W st pc"
  shows "active (st idle)"
proof -
  have "st idle \<noteq> TASK_SLEEPING" using assms(1) by (simp add: tasks_inv_def)
  moreover have "st idle \<noteq> TASK_BLOCKED" using assms by (fastforce simp: tasks_inv_def queues_inv_def)
  ultimately show ?thesis by (cases "st idle") (auto simp: active_def)
qed

lemma control_switch:
  assumes "control0 idle ts W st r own pc H" "switched ts st r st' n"
    and "c = pc r \<or> pc r = Snoozing \<and> c = User \<or> (\<exists>m. pc r = Yielding m \<and> c = Wants m)"
  shows "control idle ts W st' n own (pc(r := c)) H"
proof -
  have T: "tasks_inv idle ts st r pc" and U: "queues_inv ts W st pc" and M: "mutexes_inv ts W st own pc H"
    using assms(1) by (auto simp: control0_def)
  obtain w where w: "\<forall>p \<in> set ts. w p = st p \<or> st p = TASK_SLEEPING \<and> w p = TASK_READY"
    and n: "if n = r then \<forall>p \<in> set ts. p \<noteq> r \<longrightarrow> \<not> active (w p) else n \<in> set ts \<and> active (w n)"
    and st': "\<forall>p \<in> set ts. st' p = (if p = n then TASK_RUNNING else if p = r \<and> w p = TASK_RUNNING then TASK_READY else w p)"
    using assms(2) unfolding switched_def by blast
  have n_in: "n \<in> set ts" "r \<in> set ts" using n T by (auto simp: tasks_inv_def split: if_splits)
  have c: "idle = r \<Longrightarrow> c = User" using assms(3) T by (auto simp: tasks_inv_def)
  have act: "active (w p) \<Longrightarrow> active (st' p)" if "p \<in> set ts" for p using st' that by (auto simp: active_def)
  have ai: "active (w idle)" "idle \<in> set ts" using idle_active [OF T U] w T by (auto simp: tasks_inv_def active_def)
  have nb: "n = r \<Longrightarrow> st r = TASK_BLOCKED \<Longrightarrow> False"
  proof -
    assume "n = r" "st r = TASK_BLOCKED"
    moreover from this have "\<not> active (st r)" by (simp add: active_def)
    ultimately show False using n ai idle_active [OF T U] by auto
  qed
  have "active (st' idle)" using act [OF ai(2,1)] .
  then have "st' idle \<noteq> TASK_SLEEPING" by (auto simp: active_def)
  moreover have "p = n" if "p \<in> set ts" "st' p = TASK_RUNNING" for p
  proof (rule ccontr)
    assume "p \<noteq> n"
    then have "w p = TASK_RUNNING" "p \<noteq> r" using st' that by (auto split: if_splits)
    then have "st p = TASK_RUNNING" using w that(1) by auto
    then show False using T that(1) \<open>p \<noteq> r\<close> by (simp add: tasks_inv_def)
  qed
  moreover have "(pc(r := c)) idle = User" using T c by (auto simp: tasks_inv_def)
  ultimately have "tasks_inv idle ts st' n (pc(r := c))" unfolding tasks_inv_def using ai(2) n_in(1) by blast
  moreover have "queues_inv ts W st' (pc(r := c))"
  proof -
    have "parked k ((pc(r := c)) p)" if "W p = Some k" for p k
    proof -
      have k: "parked k (pc p)" using U that by (auto simp: queues_inv_def)
      then show ?thesis using assms(3) by (cases "p = r"; cases k) auto
    qed
    moreover have "st' p = TASK_BLOCKED \<longleftrightarrow> st p = TASK_BLOCKED" if p: "p \<in> set ts" for p
    proof -
      have "st p = TASK_BLOCKED \<longleftrightarrow> w p = TASK_BLOCKED" using w p by auto
      moreover have "w n \<noteq> TASK_BLOCKED"
        using n nb w n_in by (cases "n = r") (auto simp: active_def)
      ultimately show ?thesis using st' p by (auto split: if_splits)
    qed
    ultimately show ?thesis using U by (auto simp: queues_inv_def)
  qed
  moreover have "mutexes_inv ts W st' own (pc(r := c)) H"
  proof -
    have "awaited ts st' (pc(r := c)) m" if a: "awaited ts st pc m" for m
    proof -
      obtain p where p: "p \<in> set ts" "pc p = Wants m" "active (st p)" using a unfolding awaited_def by blast
      then have "active (w p)" using w by (auto simp: active_def)
      then have "active (st' p)" using act p(1) by simp
      moreover have "(pc(r := c)) p = Wants m" using p(2) assms(3) by auto
      ultimately show ?thesis using p(1) unfolding awaited_def by blast
    qed
    then show ?thesis using M by (auto simp: mutexes_inv_def)
  qed
  ultimately show ?thesis using st' n_in by (simp add: control_def control0_def)
qed


section \<open>The operations on the concrete state\<close>

text \<open>The tasks that wait for \<open>k\<close> are the ones in its queue.\<close>

definition queued :: "'a sync_sys_scheme \<Rightarrow> (wait_obj \<Rightarrow> u32 list) \<Rightarrow> (u32 \<Rightarrow> wait_obj option) \<Rightarrow> bool" where
  "queued s Q W \<longleftrightarrow> (\<forall>k. waiting (wait_head s k, tcb s) (Q k)) \<and> (\<forall>p k. p \<in> set (Q k) \<longleftrightarrow> W p = Some k)"

lemma waiting_cong: "(\<And>p. p \<in> set xs \<Longrightarrow> wait_next (t p) = wait_next (t' p)) \<Longrightarrow> waiting (w, t) xs = waiting (w, t') xs"
  using chain_cong [of xs "\<lambda>p. wait_next (t p)" "\<lambda>p. wait_next (t' p)"] by (simp add: waiting_def)

lemma queued_same:
  assumes "queued s Q W" "wait_head s' = wait_head s" "\<And>p. wait_next (tcb s' p) = wait_next (tcb s p)"
  shows "queued s' Q W"
  using assms waiting_cong [of _ "tcb s'" "tcb s"] by (simp add: queued_def)

lemma waiting_relinked:
  assumes "waiting (w, t) xs" "relinked ys p st t t'" "set xs \<inter> set ys = {}" "p \<notin> set xs"
  shows "waiting (w, t') xs"
proof -
  have "wait_next (t q) = wait_next (t' q)" if "q \<in> set xs" for q
  proof -
    have "q \<notin> set ys" "q \<noteq> p" using assms(3,4) that by auto
    then show ?thesis using relinked_fields(5) [OF assms(2)] by simp
  qed
  with waiting_cong [of xs t t'] assms(1) show ?thesis by simp
qed

lemma queued_block:
  assumes q: "queued s Q W" and W: "W p = None" and p: "p \<noteq> 0"
  shows "\<exists>w t. block_on p (wait_head s k, tcb s) = Some (w, t) \<and> relinked (Q k) p TASK_BLOCKED (tcb s) t \<and>
    (\<forall>s'. wait_head s' = (wait_head s)(k := w) \<longrightarrow> tcb s' = t \<longrightarrow>
      queued s' (Q(k := Q k @ [p])) (W(p := Some k)))"
proof -
  have qk: "waiting (wait_head s k, tcb s) (Q k)" for k using q by (simp add: queued_def)
  have mem: "q \<in> set (Q k) \<longleftrightarrow> W q = Some k" for q k using q by (simp add: queued_def)
  then have "p \<notin> set (Q k)" for k using W by simp
  from block_on_ok [OF qk this p, of k] obtain w t where
    b: "block_on p (wait_head s k, tcb s) = Some (w, t)" "waiting (w, t) (Q k @ [p])"
      "relinked (Q k) p TASK_BLOCKED (tcb s) t" by auto
  have "queued s' (Q(k := Q k @ [p])) (W(p := Some k))"
    if s': "wait_head s' = (wait_head s)(k := w)" "tcb s' = t" for s'
  proof -
    have "waiting (wait_head s' k', tcb s') ((Q(k := Q k @ [p])) k')" for k'
    proof (cases "k' = k")
      case False
      have "waiting (wait_head s k', t) (Q k')"
        by (rule waiting_relinked [OF qk b(3)]) (use mem W False in auto)
      then show ?thesis using False s' by simp
    qed (use s' b(2) in simp)
    then show ?thesis using mem W by (auto simp: queued_def)
  qed
  then show ?thesis using b(1,3) by blast
qed

lemma queued_wake:
  assumes q: "queued s Q W" and k: "Q k = x # xs"
  shows "\<exists>w t. wake_first (wait_head s k, tcb s) = Some (x, w, t) \<and> relinked [] x TASK_READY (tcb s) t \<and>
    (\<forall>s'. wait_head s' = (wait_head s)(k := w) \<longrightarrow> tcb s' = t \<longrightarrow> queued s' (Q(k := xs)) (W(x := None)))"
proof -
  have qk: "waiting (wait_head s k, tcb s) (Q k)" for k using q by (simp add: queued_def)
  have mem: "q \<in> set (Q k) \<longleftrightarrow> W q = Some k" for q k using q by (simp add: queued_def)
  have d: "x \<notin> set xs" using qk [of k] k by (simp add: waiting_def)
  have x: "W x = Some k" using mem [of x k] k by simp
  from wake_first_ok [OF qk [of k, unfolded k]] obtain w t where
    b: "wake_first (wait_head s k, tcb s) = Some (x, w, t)" "waiting (w, t) xs" "relinked [] x TASK_READY (tcb s) t" by auto
  have "queued s' (Q(k := xs)) (W(x := None))"
    if s': "wait_head s' = (wait_head s)(k := w)" "tcb s' = t" for s'
  proof -
    have "waiting (wait_head s' k', tcb s') ((Q(k := xs)) k')" for k'
    proof (cases "k' = k")
      case False
      have "waiting (wait_head s k', t) (Q k')"
        by (rule waiting_relinked [OF qk b(3)]) (use mem x False in auto)
      then show ?thesis using False s' by simp
    qed (use s' b(2) in simp)
    moreover have "p \<in> set ((Q(k := xs)) k') \<longleftrightarrow> (W(x := None)) p = Some k'" for p k'
      using mem [of p k'] k d x by auto
    ultimately show ?thesis by (simp add: queued_def)
  qed
  then show ?thesis using b(1,3) by blast
qed

lemma queued_none: "queued s Q W \<Longrightarrow> Q k = [] \<Longrightarrow> wake_first (wait_head s k, tcb s) = None"
  using wake_first_none [of "wait_head s k" "tcb s"] by (simp add: queued_def) metis


definition states :: "'a sync_sys_scheme \<Rightarrow> u32 \<Rightarrow> task_state_t" where
  "states s = (\<lambda>p. task_state (tcb s p))"

lemma relinked_states: "relinked xs p st (tcb s) (tcb s') \<Longrightarrow> states s' = (states s)(p := st)"
  using relinked_fields(1) by (fastforce simp: states_def)

lemma relinked_list:
  "relinked xs p st (tcb s) (tcb s') \<Longrightarrow> ready_queue s' = ready_queue s \<Longrightarrow> task_list s ts \<Longrightarrow> task_list s' ts"
  using relinked_fields(2) by (simp add: task_list_def)

lemma wait_head_simps [simp]:
  "wait_head (set_mutex m (\<lambda>x. x\<lparr>m_waiters := w\<rparr>) s) = (wait_head s)(Mutex m := w)"
  "wait_head (set_cond c (\<lambda>x. x\<lparr>c_waiters := w\<rparr>) s) = (wait_head s)(Cond c := w)"
  "wait_head (s\<lparr>tcb := t\<rparr>) = wait_head s" "wait_head (cli s) = wait_head s" "wait_head (sti s) = wait_head s"
  by (auto simp: wait_head_def set_mutex_def set_cond_def cli_def sti_def fun_eq_iff split: wait_obj.splits)

lemma frame_simps [simp]:
  "tcb (set_mutex m f s) = tcb s" "tcb (set_cond c g s) = tcb s" "tcb (cli s) = tcb s" "tcb (sti s) = tcb s"
  "ready_queue (set_mutex m f s) = ready_queue s" "ready_queue (set_cond c g s) = ready_queue s"
  "ready_queue (cli s) = ready_queue s" "ready_queue (sti s) = ready_queue s"
  "running_task (set_mutex m f s) = running_task s" "running_task (set_cond c g s) = running_task s"
  "running_task (cli s) = running_task s" "running_task (sti s) = running_task s"
  by (simp_all add: set_mutex_def set_cond_def cli_def sti_def)

lemma holder_simps [simp]:
  "holder (set_mutex m (\<lambda>x. x\<lparr>m_waiters := w\<rparr>) s) = holder s" "holder (set_cond c g s) = holder s"
  "holder (s\<lparr>tcb := t\<rparr>) = holder s" "holder (cli s) = holder s" "holder (sti s) = holder s"
  "holder (set_mutex m (\<lambda>x. x\<lparr>locked := 1, owner := r\<rparr>) s) = (holder s)(m := Some r)"
  "holder (set_mutex m (\<lambda>x. x\<lparr>owner := q\<rparr>) (set_mutex m (\<lambda>x. x\<lparr>locked := 0\<rparr>) s)) = (holder s)(m := None)"
  by (auto simp: holder_def set_mutex_def set_cond_def cli_def sti_def fun_eq_iff)

lemma pick_next:
  assumes d: "distinct ts" and r: "r \<in> set ts"
  shows "if pick t (others r ts) r = r then \<forall>p \<in> set ts. p \<noteq> r \<longrightarrow> \<not> active (task_state (t p))
    else pick t (others r ts) r \<in> set ts \<and> active (task_state (t (pick t (others r ts) r)))"
proof -
  define n where "n = pick t (others r ts) r"
  have o: "set (others r ts) = set ts - {r}" by (rule others_set [OF d r])
  from pick_runnable [of t "others r ts" r]
  consider "n = r" "\<forall>p \<in> set ts - {r}. \<not> runnable (t p)" | "n \<in> set ts - {r}" "runnable (t n)"
    unfolding o n_def by blast
  then show ?thesis unfolding n_def [symmetric] by cases (auto simp: runnable_def active_def)
qed

lemma timer_ok:
  fixes s :: "'a sync_sys_scheme"
  assumes l: "task_list s ts" and r: "running_task s \<in> set ts"
  shows "\<exists>x s'. timer_interrupt e s = Some (x, s') \<and> task_list s' ts \<and> mutexes s' = mutexes s \<and> conds s' = conds s \<and>
    (\<forall>p. wait_next (tcb s' p) = wait_next (tcb s p)) \<and>
    switched ts (states s) (running_task s) (states s') (running_task s')"
proof -
  let ?t = "\<lambda>p. if p \<in> set ts then woken (tcb s p) else tcb s p"
  let ?s = "s\<lparr>tick := tick s + 1, tcb := ?t\<rparr>"
  let ?r = "running_task s"
  let ?n = "pick ?t (others ?r ts) ?r"
  have l1: "task_list (s\<lparr>tick := tick s + 1\<rparr>) ts" using l by (simp add: task_list_def)
  have t1: "tcb (s\<lparr>tick := tick s + 1\<rparr>) = tcb s" by simp
  have l2: "task_list ?s ts" using task_list_woken [OF l1] unfolding t1 .
  have u: "tasks_update_sleep_ticks (s\<lparr>tick := tick s + 1\<rparr>) = Some ?s" using update_sleep_spec [OF l1] unfolding t1 .
  have sc: "schedule e ?s = Some (if ?n = ?r then e else esp (?t ?n),
      ?s\<lparr>tcb := switch_to e ?r ?n ?t, running_task := ?n\<rparr>)"
    using schedule_others [OF l2, of e] r by simp
  let ?s' = "?s\<lparr>tcb := switch_to e ?r ?n ?t, running_task := ?n\<rparr>"
  have d: "distinct ts" using l by (simp add: task_list_def)
  have n: "if ?n = ?r then \<forall>p \<in> set ts. p \<noteq> ?r \<longrightarrow> \<not> active (task_state (?t p)) else ?n \<in> set ts \<and> active (task_state (?t ?n))"
    by (rule pick_next [OF d r])
  have "switched ts (states s) ?r (states ?s') ?n"
    unfolding switched_def
    by (intro exI [of _ "\<lambda>p. task_state (?t p)"] conjI n)
      (auto simp: states_def woken_def switch_to_state suspended_def)
  moreover have "task_list ?s' ts" using schedule_list(1) [OF l2 _ sc] r by simp
  moreover have "wait_next (switch_to e ?r ?n ?t p) = wait_next (tcb s p)" for p by (simp add: switch_to_def Let_def)
  ultimately show ?thesis
    using u sc by (intro exI [of _ "if ?n = ?r then e else esp (?t ?n)"] exI [of _ ?s']) (simp add: timer_interrupt_def)
qed


text \<open>The invariant of the whole machine, and the same without the clause on the running task.\<close>

definition sync_inv0 :: "u32 \<Rightarrow> u32 list \<Rightarrow> (wait_obj \<Rightarrow> u32 list) \<Rightarrow> (u32 \<Rightarrow> wait_obj option) \<Rightarrow> sync_conf \<Rightarrow> bool" where
  "sync_inv0 idle ts Q W = (\<lambda>(s, pc, H). task_list s ts \<and> queued s Q W \<and>
     control0 idle ts W (states s) (running_task s) (holder s) pc H)"

definition sync_inv :: "u32 \<Rightarrow> u32 list \<Rightarrow> (wait_obj \<Rightarrow> u32 list) \<Rightarrow> (u32 \<Rightarrow> wait_obj option) \<Rightarrow> sync_conf \<Rightarrow> bool" where
  "sync_inv idle ts Q W = (\<lambda>(s, pc, H). task_list s ts \<and> queued s Q W \<and>
     control idle ts W (states s) (running_task s) (holder s) pc H)"

lemma sync_inv_0: "sync_inv idle ts Q W (s, pc, H) \<longleftrightarrow>
    sync_inv0 idle ts Q W (s, pc, H) \<and> (in_code (pc (running_task s)) \<longrightarrow> states s (running_task s) = TASK_RUNNING)"
  by (auto simp: sync_inv_def sync_inv0_def control_def)

lemma running_nonzero: "task_list s ts \<Longrightarrow> running_task s \<in> set ts \<Longrightarrow> running_task s \<noteq> 0"
  using chain_nonzero by (auto simp: task_list_def)

lemma inv_running: "sync_inv0 idle ts Q W (s, pc, H) \<Longrightarrow> running_task s \<in> set ts \<and> running_task s \<noteq> 0"
  using running_nonzero [of s ts] by (simp add: sync_inv0_def control0_def tasks_inv_def)

lemma inv_switch:
  assumes "sync_inv0 idle ts Q W (s, pc, H)"
    and "c = pc (running_task s) \<or> pc (running_task s) = Snoozing \<and> c = User \<or>
      (\<exists>m. pc (running_task s) = Yielding m \<and> c = Wants m)"
  shows "\<exists>x s'. timer_interrupt e s = Some (x, s') \<and> sync_inv idle ts Q W (s', pc(running_task s := c), H)"
proof -
  have I: "task_list s ts" "queued s Q W" "control0 idle ts W (states s) (running_task s) (holder s) pc H"
    using assms(1) by (simp_all add: sync_inv0_def)
  obtain x s' where t: "timer_interrupt e s = Some (x, s')" "task_list s' ts" "mutexes s' = mutexes s" "conds s' = conds s"
    "\<forall>p. wait_next (tcb s' p) = wait_next (tcb s p)" "switched ts (states s) (running_task s) (states s') (running_task s')"
    using timer_ok [OF I(1), of e] inv_running [OF assms(1)] by blast
  have h: "holder s' = holder s" "wait_head s' = wait_head s" using t(3,4)
    by (auto simp: holder_def wait_head_def fun_eq_iff split: wait_obj.splits)
  have "queued s' Q W" by (rule queued_same [OF I(2) h(2)]) (use t(5) in simp)
  then show ?thesis using control_switch [OF I(3) t(6) assms(2)] t(1,2) h(1) by (auto simp: sync_inv_def)
qed

lemma inv_mutex_wait:
  assumes "sync_inv idle ts Q W (s, pc, H)" and r: "r = running_task s" "r \<noteq> idle" "pc r = User \<or> pc r = Wants m"
    and "locked (mutexes s m) \<noteq> 0"
  shows "\<exists>s1. mutex_wait m r (cli s) = Some s1 \<and> running_task s1 = r \<and>
    sync_inv0 idle ts (Q(Mutex m := Q (Mutex m) @ [r])) (W(r := Some (Mutex m))) (s1, pc(r := Wants m), H)"
proof -
  have I: "task_list s ts" "queued s Q W" "control idle ts W (states s) r (holder s) pc H"
    using assms(1) r(1) by (simp_all add: sync_inv_def)
  have c: "in_code (pc r)" using r(3) by (auto simp: in_code_def)
  have W: "W r = None" using control_parts(5) [OF I(3) c] .
  have r0: "r \<noteq> 0" using running_nonzero [OF I(1)] control_parts(1) [OF I(3)] r(1) by (simp add: tasks_inv_def)
  obtain w t where b: "block_on r (wait_head s (Mutex m), tcb s) = Some (w, t)"
      "relinked (Q (Mutex m)) r TASK_BLOCKED (tcb s) t"
    and Q: "\<And>s' :: sync_sys. wait_head s' = (wait_head s)(Mutex m := w) \<Longrightarrow> tcb s' = t \<Longrightarrow>
      queued s' (Q(Mutex m := Q (Mutex m) @ [r])) (W(r := Some (Mutex m)))"
    using queued_block [OF I(2) W r0] by blast
  let ?s = "set_mutex m (\<lambda>x. x\<lparr>m_waiters := w\<rparr>) ((cli s)\<lparr>tcb := t\<rparr>)"
  have e: "mutex_wait m r (cli s) = Some ?s"
    using b(1) by (simp add: mutex_wait_def wait_head_def cli_def)
  have "queued ?s (Q(Mutex m := Q (Mutex m) @ [r])) (W(r := Some (Mutex m)))" by (rule Q) simp_all
  moreover have "task_list ?s ts" by (rule relinked_list [OF _ _ I(1)]) (use b(2) in simp_all)
  moreover have "states ?s = (states s)(r := TASK_BLOCKED)" by (rule relinked_states) (use b(2) in simp)
  moreover have "holder s m \<noteq> None" using assms(5) by (simp add: holder_def)
  then have "control0 idle ts (W(r := Some (Mutex m))) ((states s)(r := TASK_BLOCKED)) r (holder s) (pc(r := Wants m)) H"
    by (intro control_block [OF I(3) r(2) c]) (use r(3) in auto)
  ultimately show ?thesis using e r(1) by (simp add: sync_inv0_def)
qed

lemma inv_unlock:
  assumes "sync_inv0 idle ts Q W (s, pc, H)" and "(q, m) \<in> H"
  shows "\<exists>Q' W'. sync_inv0 idle ts Q' W' (mutex_unlock m s, pc, H - {(q, m)}) \<and>
    running_task (mutex_unlock m s) = running_task s \<and> (\<forall>c. Q' (Cond c) = Q (Cond c)) \<and>
    (\<forall>p. W p = None \<longrightarrow> states (mutex_unlock m s) p = states s p)"
proof -
  have I: "task_list s ts" "queued s Q W" "control0 idle ts W (states s) (running_task s) (holder s) pc H"
    using assms(1) by (simp_all add: sync_inv0_def)
  have H: "(p, m') \<in> H \<longleftrightarrow> holder s m' = Some p" for p m'
    using I(3) by (simp add: control0_def mutexes_inv_def)
  then have q: "holder s m = Some q" using assms(2) by simp
  let ?s = "set_mutex m (\<lambda>x. x\<lparr>owner := 0\<rparr>) (set_mutex m (\<lambda>x. x\<lparr>locked := 0\<rparr>) (cli s))"
  have w: "m_waiters (mutexes ?s m) = wait_head s (Mutex m)" "tcb ?s = tcb s"
    by (simp_all add: set_mutex_def wait_head_def cli_def)
  have wh: "wait_head ?s = wait_head s" by (auto simp: wait_head_def set_mutex_def cli_def fun_eq_iff split: wait_obj.splits)
  show ?thesis
  proof (cases "Q (Mutex m)")
    case Nil
    then have "mutex_unlock m s = sti ?s" using queued_none [OF I(2) Nil] w by (simp add: mutex_unlock_def Let_def)
    moreover have "queued (sti ?s) Q W" by (rule queued_same [OF I(2)]) (simp_all add: wh)
    moreover have "task_list (sti ?s) ts" using I(1) by (simp add: task_list_def)
    moreover have "W p \<noteq> Some (Mutex m)" for p
      using I(2) Nil unfolding queued_def by (metis list.set_intros(1) list.distinct(1) list.set_cases)
    from control_release [OF I(3) q this]
    have "control0 idle ts W (states s) (running_task s) ((holder s)(m := None)) pc (H - {(q, m)})" .
    moreover have "states (sti ?s) = states s" by (simp add: states_def)
    ultimately show ?thesis by (intro exI [of _ Q] exI [of _ W]) (simp add: sync_inv0_def)
  next
    case (Cons x xs)
    obtain w' t where b: "wake_first (wait_head s (Mutex m), tcb s) = Some (x, w', t)"
        "relinked [] x TASK_READY (tcb s) t"
      and Q: "\<And>s' :: sync_sys. wait_head s' = (wait_head s)(Mutex m := w') \<Longrightarrow> tcb s' = t \<Longrightarrow>
        queued s' (Q(Mutex m := xs)) (W(x := None))"
      using queued_wake [OF I(2) Cons] by blast
    let ?s' = "sti (set_mutex m (\<lambda>x. x\<lparr>m_waiters := w'\<rparr>) (?s\<lparr>tcb := t\<rparr>))"
    have e: "mutex_unlock m s = ?s'" using b(1) w by (simp add: mutex_unlock_def Let_def)
    have W: "W x = Some (Mutex m)" using I(2) Cons unfolding queued_def by (metis list.set_intros(1))
    have "queued ?s' (Q(Mutex m := xs)) (W(x := None))" by (rule Q) (simp_all add: wh)
    moreover have "task_list ?s' ts" by (rule relinked_list [OF _ _ I(1)]) (use b(2) in simp_all)
    moreover have st: "states ?s' = (states s)(x := TASK_READY)" by (rule relinked_states) (use b(2) in simp)
    moreover have "control0 idle ts (W(x := None)) ((states s)(x := TASK_READY)) (running_task s)
        ((holder s)(m := None)) pc (H - {(q, m)})"
      by (rule control_wake [OF I(3) W]) (use H q in \<open>auto split: if_splits\<close>)
    ultimately show ?thesis unfolding e using W
      by (intro exI [of _ "Q(Mutex m := xs)"] exI [of _ "W(x := None)"]) (auto simp: sync_inv0_def)
  qed
qed


lemma inv_unlock_running:
  assumes i: "sync_inv idle ts Q W (s, pc, H)" and r: "r = running_task s" "pc r = User" "(r, m) \<in> H"
  shows "\<exists>Q' W'. sync_inv idle ts Q' W' (mutex_unlock m s, pc, H - {(r, m)}) \<and> (\<forall>c. Q' (Cond c) = Q (Cond c))"
proof -
  have i0: "sync_inv0 idle ts Q W (s, pc, H)" and ic: "in_code (pc (running_task s))"
    using i r by (simp_all add: sync_inv_0 in_code_def)
  then have "states s (running_task s) = TASK_RUNNING" "W (running_task s) = None"
    using i control_parts(4,5) by (auto simp: sync_inv_def)
  then show ?thesis using inv_unlock [OF i0 r(3)] by (auto simp: sync_inv_0)
qed

lemma inv_signal:
  assumes "sync_inv idle ts Q W (s, pc, H)"
  shows "\<exists>W'. sync_inv idle ts (Q(Cond c := tl (Q (Cond c)))) W' (cond_signal c s, pc, H)"
proof -
  have I: "task_list s ts" "queued s Q W" "control idle ts W (states s) (running_task s) (holder s) pc H"
    using assms by (simp_all add: sync_inv_def)
  have w: "c_waiters (conds (cli s) c) = wait_head s (Cond c)" "tcb (cli s) = tcb s"
    by (simp_all add: wait_head_def cli_def)
  show ?thesis
  proof (cases "Q (Cond c)")
    case Nil
    then have "cond_signal c s = sti (cli s)" using queued_none [OF I(2) Nil] w by (simp add: cond_signal_def Let_def)
    moreover have "queued (sti (cli s)) Q W" by (rule queued_same [OF I(2)]) simp_all
    moreover have "task_list (sti (cli s)) ts" "states (sti (cli s)) = states s"
      using I(1) by (simp_all add: task_list_def states_def)
    moreover have "Q(Cond c := tl (Q (Cond c))) = Q" using Nil by (simp add: fun_upd_idem)
    ultimately show ?thesis using I(3) by (intro exI [of _ W]) (simp add: sync_inv_def)
  next
    case (Cons x xs)
    obtain w' t where b: "wake_first (wait_head s (Cond c), tcb s) = Some (x, w', t)"
        "relinked [] x TASK_READY (tcb s) t"
      and Q: "\<And>s' :: sync_sys. wait_head s' = (wait_head s)(Cond c := w') \<Longrightarrow> tcb s' = t \<Longrightarrow>
        queued s' (Q(Cond c := xs)) (W(x := None))"
      using queued_wake [OF I(2) Cons] by blast
    let ?s' = "sti (set_cond c (\<lambda>x. x\<lparr>c_waiters := w'\<rparr>) ((cli s)\<lparr>tcb := t\<rparr>))"
    have e: "cond_signal c s = ?s'" using b(1) w by (simp add: cond_signal_def Let_def)
    have W: "W x = Some (Cond c)" using I(2) Cons unfolding queued_def by (metis list.set_intros(1))
    have "queued ?s' (Q(Cond c := xs)) (W(x := None))" by (rule Q) simp_all
    moreover have "task_list ?s' ts" by (rule relinked_list [OF _ _ I(1)]) (use b(2) in simp_all)
    moreover have "states ?s' = (states s)(x := TASK_READY)" by (rule relinked_states) (use b(2) in simp)
    moreover have "control0 idle ts (W(x := None)) ((states s)(x := TASK_READY)) (running_task s) (holder s) pc H"
    proof -
      have c0: "control0 idle ts W (states s) (running_task s) (holder s) pc H" using I(3) by (simp add: control_def)
      show ?thesis by (rule control_wake [OF c0 W]) (use control_parts(3) [OF I(3)] in \<open>auto simp: mutexes_inv_def\<close>)
    qed
    moreover have "in_code (pc (running_task s)) \<Longrightarrow> running_task s \<noteq> x"
      using control_parts(5) [OF I(3)] W by auto
    ultimately show ?thesis unfolding e using control_parts(4) [OF I(3)]
      by (intro exI [of _ "W(x := None)"]) (simp add: Cons sync_inv_def control_def)
  qed
qed

lemma inv_broadcast:
  assumes "sync_inv idle ts Q W (s, pc, H)"
  shows "\<exists>s'. cond_broadcast c s = Some s' \<and> sync_inv idle ts (Q(Cond c := []))
    (\<lambda>p. if W p = Some (Cond c) then None else W p) (s', pc, H) \<and>
    (\<forall>p. tcb s' p = (if p \<in> set (Q (Cond c)) then (tcb s p)\<lparr>task_state := TASK_READY\<rparr> else tcb s p))"
proof -
  have I: "task_list s ts" "queued s Q W" "control idle ts W (states s) (running_task s) (holder s) pc H"
    using assms by (simp_all add: sync_inv_def)
  have mem: "p \<in> set (Q k) \<longleftrightarrow> W p = Some k" for p k using I(2) by (simp add: queued_def)
  have "waiting (wait_head s (Cond c), tcb s) (Q (Cond c))" using I(2) by (simp add: queued_def)
  from wake_all_ok [OF this] obtain t where
    t: "wake_all (wait_head s (Cond c), tcb s) = Some (0, t)"
    "\<And>q. t q = (if q \<in> set (Q (Cond c)) then (tcb s q)\<lparr>task_state := TASK_READY\<rparr> else tcb s q)" by auto
  let ?s = "sti (set_cond c (\<lambda>x. x\<lparr>c_waiters := 0\<rparr>) ((cli s)\<lparr>tcb := t\<rparr>))"
  have e: "cond_broadcast c s = Some ?s" using t(1) by (simp add: cond_broadcast_def wait_head_def cli_def Let_def)
  have nx: "wait_next (t q) = wait_next (tcb s q)" "task_next (t q) = task_next (tcb s q)" for q by (simp_all add: t(2))
  have "waiting (wait_head ?s k, t) ((Q(Cond c := [])) k)" for k
  proof (cases "k = Cond c")
    case False
    have "waiting (wait_head s k, tcb s) (Q k)" using I(2) by (simp add: queued_def)
    then show ?thesis using False waiting_cong [of "Q k" "tcb s" t "wait_head s k"] nx(1) by simp
  qed (simp add: waiting_def)
  then have "queued ?s (Q(Cond c := [])) (\<lambda>p. if W p = Some (Cond c) then None else W p)"
    using mem by (auto simp: queued_def)
  moreover have "task_list ?s ts" using I(1) nx(2) by (simp add: task_list_def)
  moreover have "states ?s = (\<lambda>p. if W p = Some (Cond c) then TASK_READY else states s p)"
    by (auto simp: states_def t(2) mem fun_eq_iff)
  ultimately have "sync_inv idle ts (Q(Cond c := [])) (\<lambda>p. if W p = Some (Cond c) then None else W p) (?s, pc, H)"
    using control_wake_all [OF I(3), of c] by (simp add: sync_inv_def)
  then show ?thesis using e t(2) by (intro exI [of _ ?s]) simp
qed

lemma inv_cond_wait:
  assumes "sync_inv idle ts Q W (s, pc, H)" and r: "r = running_task s" "r \<noteq> idle" "pc r = User" "(r, m) \<in> H"
  shows "\<exists>s1 Q' W'. cond_wait_enter c m s = Some s1 \<and> sync_inv idle ts Q' W' (s1, pc(r := Yielding m), H - {(r, m)}) \<and>
    Q' (Cond c) = Q (Cond c) @ [r] \<and> (\<forall>c'. c' \<noteq> c \<longrightarrow> Q' (Cond c') = Q (Cond c'))"
proof -
  have I: "task_list s ts" "queued s Q W" "control idle ts W (states s) r (holder s) pc H"
    using assms(1) r(1) by (simp_all add: sync_inv_def)
  have ic: "in_code (pc r)" using r(3) by (auto simp: in_code_def)
  have W: "W r = None" using control_parts(5) [OF I(3) ic] .
  have r0: "r \<noteq> 0" using running_nonzero [OF I(1)] control_parts(1) [OF I(3)] r(1) by (simp add: tasks_inv_def)
  obtain w t where b: "block_on r (wait_head s (Cond c), tcb s) = Some (w, t)"
      "relinked (Q (Cond c)) r TASK_BLOCKED (tcb s) t"
    and Q: "\<And>s' :: sync_sys. wait_head s' = (wait_head s)(Cond c := w) \<Longrightarrow> tcb s' = t \<Longrightarrow>
      queued s' (Q(Cond c := Q (Cond c) @ [r])) (W(r := Some (Cond c)))"
    using queued_block [OF I(2) W r0] by blast
  let ?s = "set_cond c (\<lambda>x. x\<lparr>c_waiters := w\<rparr>) ((cli s)\<lparr>tcb := t\<rparr>)"
  have e: "cond_wait_enter c m s = Some (mutex_unlock m ?s)"
    using b(1) r(1) by (simp add: cond_wait_enter_def wait_head_def cli_def task_get_current_def Let_def)
  have "queued ?s (Q(Cond c := Q (Cond c) @ [r])) (W(r := Some (Cond c)))" by (rule Q) simp_all
  moreover have "task_list ?s ts" by (rule relinked_list [OF _ _ I(1)]) (use b(2) in simp_all)
  moreover have "states ?s = (states s)(r := TASK_BLOCKED)" by (rule relinked_states) (use b(2) in simp)
  moreover have "control0 idle ts (W(r := Some (Cond c))) ((states s)(r := TASK_BLOCKED)) r (holder s) (pc(r := Yielding m)) H"
    by (rule control_block [OF I(3) r(2) ic]) (use r(3) in auto)
  ultimately have "sync_inv0 idle ts (Q(Cond c := Q (Cond c) @ [r])) (W(r := Some (Cond c))) (?s, pc(r := Yielding m), H)"
    using r(1) by (simp add: sync_inv0_def)
  from inv_unlock [OF this r(4)] obtain Q' W' where
    "sync_inv0 idle ts Q' W' (mutex_unlock m ?s, pc(r := Yielding m), H - {(r, m)})"
    "running_task (mutex_unlock m ?s) = r" "\<forall>c'. Q' (Cond c') = (Q(Cond c := Q (Cond c) @ [r])) (Cond c')" using r(1) by auto
  then show ?thesis using e by (auto simp: sync_inv_0 in_code_def)
qed

lemma inv_snooze:
  assumes "sync_inv idle ts Q W (s, pc, H)" and r: "r = running_task s" "r \<noteq> idle" "pc r = User"
  shows "\<exists>s1. sleep Some ms s = Some s1 \<and> sync_inv idle ts Q W (s1, pc(r := Snoozing), H)"
proof -
  have I: "task_list s ts" "queued s Q W" "control idle ts W (states s) r (holder s) pc H"
    using assms(1) r(1) by (simp_all add: sync_inv_def)
  let ?s = "set_tcb r (\<lambda>t. t\<lparr>task_state := TASK_SLEEPING\<rparr>) (set_tcb r (\<lambda>t. t\<lparr>sleep_ticks := sleep_ticks_for ms\<rparr>) s)"
  have r0: "r \<noteq> 0" using running_nonzero [OF I(1)] control_parts(1) [OF I(3)] r(1) by (simp add: tasks_inv_def)
  have e: "sleep Some ms s = Some ?s" using r0 r(1) by (simp add: sleep_def task_get_current_def Let_def)
  have t: "wait_next (tcb ?s p) = wait_next (tcb s p)" "task_next (tcb ?s p) = task_next (tcb s p)" for p
    by (simp_all add: set_tcb_def)
  have h: "wait_head ?s = wait_head s" "holder ?s = holder s" "ready_queue ?s = ready_queue s" "running_task ?s = r"
    using r(1) by (auto simp: wait_head_def holder_def set_tcb_def fun_eq_iff split: wait_obj.splits)
  have "queued ?s Q W" by (rule queued_same [OF I(2) h(1) t(1)])
  moreover have "task_list ?s ts" using I(1) unfolding task_list_def t(2) h(3) .
  moreover have "states ?s = (states s)(r := TASK_SLEEPING)" by (auto simp: states_def set_tcb_def)
  ultimately show ?thesis using control_snooze [OF I(3) r(2,3)] e h
    by (auto simp: sync_inv_0 sync_inv0_def in_code_def)
qed

section \<open>Every step\<close>

inductive_cases sync_stepE: "sync_step idle (s, pc, H) conf"

lemma sync_step_inv:
  assumes "sync_step idle conf conf'" and "sync_inv idle ts Q W conf"
  shows "\<exists>Q' W'. sync_inv idle ts Q' W' conf'"
  using assms
proof (induction rule: sync_step.induct)
  case (lock_free r s pc m H)
  have h: "holder s m = None" using lock_free by (simp add: holder_def)
  have ic: "in_code (pc r)" using lock_free by (auto simp: in_code_def)
  have I: "task_list s ts" "queued s Q W" "control idle ts W (states s) r (holder s) pc H"
    using lock_free by (simp_all add: sync_inv_def)
  let ?s = "mutex_take m r (cli s)"
  have s': "tcb ?s = tcb s" "running_task ?s = running_task s" "ready_queue ?s = ready_queue s"
    "wait_head ?s = wait_head s" "holder ?s = (holder s)(m := Some r)"
    by (auto simp: mutex_take_def) (auto simp: wait_head_def set_mutex_def sti_def cli_def fun_eq_iff split: wait_obj.splits)
  have "queued ?s Q W" by (rule queued_same [OF I(2)]) (simp_all add: s')
  moreover have "task_list ?s ts" "states ?s = states s" using I(1) by (simp_all add: task_list_def states_def s')
  ultimately show ?case using control_take [OF I(3) ic h lock_free(2)]
    by (auto simp: sync_inv_def s' simp flip: lock_free(1))
next
  case (lock_wait r s pc m s1 e x s2 H)
  from inv_mutex_wait [OF lock_wait.prems lock_wait.hyps(1-4)] lock_wait.hyps(5)
  have r: "running_task s1 = r"
    and i: "sync_inv0 idle ts (Q(Mutex m := Q (Mutex m) @ [r])) (W(r := Some (Mutex m))) (s1, pc(r := Wants m), H)" by auto
  from inv_switch [OF i disjI1 [OF refl], of e] lock_wait.hyps(6) show ?case by (auto simp: r)
next
  case (unlock r s pc m H)
  then show ?case using inv_unlock_running by blast
next
  case (wait r s pc m H c s1)
  then show ?case using inv_cond_wait [of idle ts Q W s pc H r m c] by auto
next
  case (wait_yield r s pc m e x s1 H)
  then have i: "sync_inv0 idle ts Q W (s, pc, H)" by (simp add: sync_inv_0)
  from inv_switch [OF i, of "Wants m" e] wait_yield.hyps show ?case by auto
next
  case (signal pc s c H)
  then show ?case using inv_signal by blast
next
  case (broadcast pc s c s1 H)
  then show ?case using inv_broadcast [OF broadcast.prems, of c] by auto
next
  case (snooze r s pc ms s1 H)
  then show ?case using inv_snooze [of idle ts Q W s pc H r ms] by auto
next
  case (snooze_yield r s pc e x s1 H)
  then have i: "sync_inv0 idle ts Q W (s, pc, H)" by (simp add: sync_inv_0)
  from inv_switch [OF i, of User e] snooze_yield.hyps show ?case by auto
next
  case (tick e s x s1 pc H)
  then have i: "sync_inv0 idle ts Q W (s, pc, H)" by (simp add: sync_inv_0)
  from inv_switch [OF i disjI1 [OF refl], of e] tick.hyps show ?case by auto
qed

lemma sync_start_inv:
  assumes "sync_start idle ts conf"
  shows "sync_inv idle ts (\<lambda>_. []) (\<lambda>_. None) conf"
proof -
  obtain s pc H where c: "conf = (s, pc, H)" by (cases conf)
  with assms have i: "task_list s ts" "idle \<in> set ts" "running_task s = idle" "\<And>p. pc p = User" "H = {}"
    "\<And>p. p \<in> set ts \<Longrightarrow> task_state (tcb s p) = (if p = idle then TASK_RUNNING else TASK_READY)"
    "\<And>m. locked (mutexes s m) = 0" "\<And>m. m_waiters (mutexes s m) = 0" "\<And>c. c_waiters (conds s c) = 0"
    by (auto simp: sync_start_def)
  have "queued s (\<lambda>_. []) (\<lambda>_. None)"
    using i(8,9) by (auto simp: queued_def waiting_def wait_head_def split: wait_obj.splits)
  moreover have "tasks_inv idle ts (states s) idle pc" using i(2,4,6) by (auto simp: tasks_inv_def states_def split: if_splits)
  moreover have "queues_inv ts (\<lambda>_. None) (states s) pc" using i(6) by (auto simp: queues_inv_def states_def)
  moreover have "mutexes_inv ts (\<lambda>_. None) (states s) (holder s) pc H" using i(5,7) by (auto simp: mutexes_inv_def holder_def)
  moreover have "states s idle = TASK_RUNNING" using i(2,6) by (simp add: states_def)
  ultimately show ?thesis using i(1,3) c by (simp add: sync_inv_def control_def control0_def)
qed

lemma reachable_inv:
  assumes "sync_start idle ts conf" "(sync_step idle)\<^sup>*\<^sup>* conf conf'"
  shows "\<exists>Q W. sync_inv idle ts Q W conf'"
  using assms(2) by (induction) (use sync_start_inv [OF assms(1)] sync_step_inv in blast)+


section \<open>\<^verbatim>\<open>mutex_lock\<close> runs on the machine\<close>

text \<open>
  What may happen while task \<open>r\<close> has given up the processor: the timer interrupt, then any steps of
  the machine until \<open>r\<close> runs again where it left off.
\<close>

definition resumes :: "u32 \<Rightarrow> u32 \<Rightarrow> sync_conf \<Rightarrow> sync_conf \<Rightarrow> bool" where
  "resumes idle r = (\<lambda>(s, pc, H) (s', pc', H').
     \<exists>e x s1. timer_interrupt e s = Some (x, s1) \<and> (sync_step idle)\<^sup>*\<^sup>* (s1, pc, H) (s', pc', H') \<and>
       running_task s' = r \<and> pc' r = pc r)"

text \<open>
  \<open>yield\<close> follows the machine in the loop of \<^verbatim>\<open>mutex_lock\<close>: \<open>P\<close> is any property of the configurations at the
  check of the loop. Where the check finds the mutex taken and \<open>yield\<close> returns, the machine can have done what
  happened in between, and \<open>P\<close> holds again.
\<close>

definition yields :: "u32 \<Rightarrow> u32 \<Rightarrow> (sync_conf \<Rightarrow> bool) \<Rightarrow> (sync_sys \<Rightarrow> sync_sys option) \<Rightarrow> bool" where
  "yields idle m P yield \<longleftrightarrow> (\<forall>s pc H s1 s2. P (s, pc, H) \<longrightarrow> locked (mutexes s m) \<noteq> 0 \<longrightarrow>
     mutex_wait m (running_task s) (cli s) = Some s1 \<longrightarrow> yield s1 = Some s2 \<longrightarrow>
     (\<exists>pc' H'. resumes idle (running_task s) (s1, pc(running_task s := Wants m), H) (s2, pc', H') \<and> P (s2, pc', H')))"

lemma mutex_wait_running: "mutex_wait m r s = Some s1 \<Longrightarrow> running_task s1 = running_task s"
  by (auto simp: mutex_wait_def split: option.splits)

lemma mutex_lock_loop_runs:
  assumes "mutex_lock_loop yield m r s0 = Some s'"
  shows "\<lbrakk>yields idle m P yield; P (s, pc, H); r \<noteq> idle; s0 = cli s; running_task s = r; pc r = User \<or> pc r = Wants m\<rbrakk> \<Longrightarrow>
    \<exists>pc' H'. (sync_step idle)\<^sup>*\<^sup>* (s, pc, H) (s', pc', H') \<and> (r, m) \<in> H' \<and> pc' r = User \<and> running_task s' = r"
  using assms
proof (induction arbitrary: s pc H rule: mutex_lock_loop.raw_induct [rotated, consumes 1, case_names body])
  case (body loop yield m r s0 s')
  note r = \<open>running_task s = r\<close> and s0 = \<open>s0 = cli s\<close>
  have l: "locked (mutexes s0 m) = locked (mutexes s m)" by (simp add: s0 cli_def)
  show ?case
  proof (cases "locked (mutexes s m) = 0")
    case True
    then have s': "s' = mutex_take m r (cli s)" using body(2) l by (simp add: s0)
    have "sync_step idle (s, pc, H) (s', pc(r := User), insert (r, m) H)"
      unfolding s' by (rule sync_step.lock_free) (use r body.prems True in auto)
    then have "(sync_step idle)\<^sup>*\<^sup>* (s, pc, H) (s', pc(r := User), insert (r, m) H)" by (rule r_into_rtranclp)
    moreover have "running_task s' = r" using r by (simp add: s' mutex_take_def)
    moreover have "(pc(r := User)) r = User" "(r, m) \<in> insert (r, m) H" by simp_all
    ultimately show ?thesis by blast
  next
    case False
    then obtain s1 s2 where 1: "mutex_wait m r (cli s) = Some s1" "yield s1 = Some s2" "loop yield m r (cli s2) = Some s'"
      using body(2) l by (auto simp: s0 split: option.splits)
    obtain pc' H' where f: "resumes idle r (s1, pc(r := Wants m), H) (s2, pc', H')" "P (s2, pc', H')"
      using body.prems(1,2) False 1(1,2) r unfolding yields_def by blast
    then obtain e x s3 where 2: "timer_interrupt e s1 = Some (x, s3)"
      "(sync_step idle)\<^sup>*\<^sup>* (s3, pc(r := Wants m), H) (s2, pc', H')" "running_task s2 = r" "pc' r = Wants m"
      by (auto simp: resumes_def)
    have "sync_step idle (s, pc, H) (s3, pc(r := Wants m), H)"
      by (rule sync_step.lock_wait [OF _ _ _ False 1(1) 2(1)]) (use r body.prems in auto)
    moreover obtain pc'' H'' where "(sync_step idle)\<^sup>*\<^sup>* (s2, pc', H') (s', pc'', H'')"
      "(r, m) \<in> H''" "pc'' r = User" "running_task s' = r"
      using body.IH [OF 1(3) body.prems(1) f(2) body.prems(3) refl 2(3)] 2(4) by blast
    ultimately show ?thesis using 2(2) by (meson converse_rtranclp_into_rtranclp rtranclp_trans)
  qed
qed


section \<open>An example run\<close>

text \<open>
  The idle task 16 and three more. Task 32 takes the mutex at 100, 48 and 64 wait for it, 32 lets it
  go: then the mutex is free, 64 still waits and 48 has been woken.
\<close>

definition demo_sync :: sync_sys where
  "demo_sync = \<lparr>heap = boot_heap boot_state,
     tcb = (\<lambda>p. if p = 16 then demo_task 1 TASK_RUNNING 32 else if p = 32 then demo_task 2 TASK_READY 48
       else if p = 48 then demo_task 3 TASK_READY 64 else demo_task 4 TASK_READY 0),
     running_task = 16, ready_queue = 16, next_task_id = 5, tick = 0, ports = [], iflag = True,
     mutexes = (\<lambda>_. \<lparr>locked = 0, owner = 0, m_waiters = 0\<rparr>), conds = (\<lambda>_. \<lparr>c_waiters = 0\<rparr>)\<rparr>"

lemma demo_start: "sync_start 16 [16, 32, 48, 64] (demo_sync, \<lambda>_. User, {})"
  by (simp add: sync_start_def demo_sync_def demo_task_def task_list_def)

lemma timer_switch:
  fixes s :: "'a sync_sys_scheme"
  assumes l: "task_list s ts" and r: "running_task s \<in> set ts" and a: "\<And>p. p \<in> set ts \<Longrightarrow> task_state (tcb s p) \<noteq> TASK_SLEEPING"
    and n: "n = pick (tcb s) (others (running_task s) ts) (running_task s)"
  shows "\<exists>x. timer_interrupt e s = Some (x, s\<lparr>tick := tick s + 1, tcb := switch_to e (running_task s) n (tcb s), running_task := n\<rparr>)"
proof -
  have l1: "task_list (s\<lparr>tick := tick s + 1\<rparr>) ts" using l by (simp add: task_list_def)
  have t: "(\<lambda>p. if p \<in> set ts then woken (tcb s p) else tcb s p) = tcb s" using a by (auto simp: woken_def fun_eq_iff)
  have t1: "tcb (s\<lparr>tick := tick s + 1\<rparr>) = tcb s" by simp
  have "tasks_update_sleep_ticks (s\<lparr>tick := tick s + 1\<rparr>) = Some (s\<lparr>tick := tick s + 1\<rparr>)"
    using update_sleep_spec [OF l1] unfolding t1 t by simp
  then show ?thesis using schedule_others [OF l1, of e] r by (simp add: timer_interrupt_def n)
qed

text \<open>What the run needs to know of a state.\<close>

definition demo_at :: "sync_sys \<Rightarrow> u32 \<Rightarrow> task_state_t \<Rightarrow> task_state_t \<Rightarrow> task_state_t \<Rightarrow> task_state_t \<Rightarrow> u32 \<Rightarrow> u32 \<Rightarrow> u32 \<Rightarrow> bool" where
  "demo_at s r a b c d lk w nx \<longleftrightarrow> task_list s [16, 32, 48, 64] \<and> running_task s = r \<and>
     task_state (tcb s 16) = a \<and> task_state (tcb s 32) = b \<and> task_state (tcb s 48) = c \<and> task_state (tcb s 64) = d \<and>
     locked (mutexes s 100) = lk \<and> m_waiters (mutexes s 100) = w \<and> wait_next (tcb s 48) = nx"

definition demo_next :: "u32 \<Rightarrow> u32 \<Rightarrow> u32 \<Rightarrow> task_state_t \<Rightarrow> task_state_t" where
  "demo_next n r q st = (if q = n then TASK_RUNNING else if q = r \<and> st = TASK_RUNNING then TASK_READY else st)"

lemma demo_tick:
  assumes s: "demo_at s r a b c d lk w nx"
    and a: "TASK_SLEEPING \<notin> {a, b, c, d}" and r: "r \<in> {16, 32, 48, 64}"
    and n: "n = pick (tcb s) (others r [16, 32, 48, 64]) r"
  shows "\<exists>y s'. timer_interrupt 0 s = Some (y, s') \<and>
    demo_at s' n (demo_next n r 16 a) (demo_next n r 32 b) (demo_next n r 48 c) (demo_next n r 64 d) lk w nx"
proof -
  let ?s = "s\<lparr>tick := tick s + 1, tcb := switch_to 0 r n (tcb s), running_task := n\<rparr>"
  have l: "task_list s [16, 32, 48, 64]" and run: "running_task s = r" using s by (auto simp: demo_at_def)
  have t: "task_state (tcb s p) \<noteq> TASK_SLEEPING" if "p \<in> set [16, 32, 48, 64]" for p
    using that s a by (auto simp: demo_at_def)
  obtain y where y: "timer_interrupt 0 s = Some (y, ?s)"
    using timer_switch [OF l _ t, of n 0] r n unfolding run by auto
  have l': "task_list ?s [16, 32, 48, 64]" using l by (simp add: task_list_def)
  have x: "wait_next (switch_to 0 r n (tcb s) q) = wait_next (tcb s q)" for q by (simp add: switch_to_def Let_def)
  have st: "task_state (switch_to 0 r n (tcb s) q) = demo_next n r q (task_state (tcb s q))" for q
    by (simp add: switch_to_state suspended_def demo_next_def)
  have "demo_at ?s n (demo_next n r 16 a) (demo_next n r 32 b) (demo_next n r 48 c) (demo_next n r 64 d) lk w nx"
    using s l' by (simp add: demo_at_def st x)
  with y show ?thesis by blast
qed

lemma demo_wait:
  assumes s: "demo_at s r a b c d lk w nx"
    and r: "r = 48 \<and> w = 0 \<or> r = 64 \<and> w = 48 \<and> nx = 0"
  shows "\<exists>s'. mutex_wait 100 r (cli s) = Some s' \<and> demo_at s' r
    a b (if r = 48 then TASK_BLOCKED else c) (if r = 64 then TASK_BLOCKED else d)
    lk 48 (if r = 64 then 64 else 0)"
proof -
  have l: "task_list s [16, 32, 48, 64]" using s by (simp add: demo_at_def)
  from r show ?thesis
  proof
    assume r: "r = 48 \<and> w = 0"
    then have "mutex_wait 100 r (cli s) = Some (set_mutex 100 (\<lambda>x. x\<lparr>m_waiters := 48\<rparr>)
        ((cli s)\<lparr>tcb := (tcb s)(48 := (tcb s 48)\<lparr>task_state := TASK_BLOCKED, wait_next := 0\<rparr>)\<rparr>))"
      using s by (simp add: mutex_wait_def block_on_def demo_at_def cli_def)
    then show ?thesis using s l r by (auto simp: demo_at_def task_list_def cli_def set_mutex_def)
  next
    assume r: "r = 64 \<and> w = 48 \<and> nx = 0"
    have "chain_end (\<lambda>p. wait_next (((tcb s)(64 := (tcb s 64)\<lparr>task_state := TASK_BLOCKED, wait_next := 0\<rparr>)) p)) 48 = Some 48"
      using s r by (subst chain_end.simps) (simp add: demo_at_def)
    then have "mutex_wait 100 r (cli s) = Some (set_mutex 100 (\<lambda>x. x\<lparr>m_waiters := 48\<rparr>)
        ((cli s)\<lparr>tcb := (tcb s)(64 := (tcb s 64)\<lparr>task_state := TASK_BLOCKED, wait_next := 0\<rparr>,
           48 := (tcb s 48)\<lparr>wait_next := 64\<rparr>)\<rparr>))"
      using s r by (simp add: mutex_wait_def block_on_def last_waiter_def demo_at_def cli_def Let_def)
    then show ?thesis using s l r by (auto simp: demo_at_def task_list_def cli_def set_mutex_def)
  qed
qed

lemma demo_taken:
  obtains s3 s4 y5 s5 where "(sync_step 16)\<^sup>*\<^sup>* (demo_sync, \<lambda>_. User, {}) (s3, \<lambda>_. User, {(32, 100)})"
    "demo_at s3 48 TASK_READY TASK_READY TASK_RUNNING TASK_READY 1 0 0" "owner (mutexes s3 100) = 32"
    "mutex_wait 100 48 (cli s3) = Some s4" "timer_interrupt 0 s4 = Some (y5, s5)"
    "demo_at s5 64 TASK_READY TASK_READY TASK_BLOCKED TASK_RUNNING 1 48 0"
proof -
  let ?R = TASK_RUNNING and ?r = TASK_READY and ?B = TASK_BLOCKED
  have 0: "demo_at demo_sync 16 ?R ?r ?r ?r 0 0 0"
    by (simp add: demo_at_def demo_sync_def demo_task_def task_list_def)
  have p0: "pick (tcb demo_sync) (others 16 [16, 32, 48, 64]) 16 = 32"
    using 0 by (simp add: demo_at_def others_def pick_def runnable_def)
  obtain y1 s1 where 1: "timer_interrupt 0 demo_sync = Some (y1, s1)" "demo_at s1 32 ?r ?R ?r ?r 0 0 0"
    using demo_tick [OF 0 _ _ p0 [symmetric]] by (auto simp: demo_next_def)
  let ?s2 = "mutex_take 100 32 (cli s1)"
  have 2: "demo_at ?s2 32 ?r ?R ?r ?r 1 0 0"
    using 1(2) by (simp add: demo_at_def mutex_take_def set_mutex_def cli_def sti_def task_list_def)
  have l2: "task_list ?s2 [16, 32, 48, 64]" "running_task ?s2 = 32" using 2 by (simp_all add: demo_at_def)
  have p2: "pick (tcb ?s2) (others 32 [16, 32, 48, 64]) 32 = 48"
    using 2 by (simp add: demo_at_def others_def pick_def runnable_def)
  obtain y3 s3 where 3: "timer_interrupt 0 ?s2 = Some (y3, s3)" "demo_at s3 48 ?r ?r ?R ?r 1 0 0"
    using demo_tick [OF 2 _ _ p2 [symmetric]] by (auto simp: demo_next_def)
  have m3: "mutexes s3 = mutexes ?s2" using timer_ok [OF l2(1), of 0] l2(2) 3(1) by auto
  then have o: "owner (mutexes s3 100) = 32" by (simp add: mutex_take_def set_mutex_def sti_def)
  obtain s4 where 4: "mutex_wait 100 48 (cli s3) = Some s4" "demo_at s4 48 ?r ?r ?B ?r 1 48 0"
    using demo_wait [OF 3(2)] by auto
  have p4: "pick (tcb s4) (others 48 [16, 32, 48, 64]) 48 = 64"
    using 4(2) by (simp add: demo_at_def others_def pick_def runnable_def)
  obtain y5 s5 where 5: "timer_interrupt 0 s4 = Some (y5, s5)" "demo_at s5 64 ?r ?r ?B ?R 1 48 0"
    using demo_tick [OF 4(2) _ _ p4 [symmetric]] by (auto simp: demo_next_def)
  have run: "running_task s1 = 32" "locked (mutexes s1 100) = 0" using 1(2) by (simp_all add: demo_at_def)
  have u: "(\<lambda>_. User)(32 := User) = (\<lambda>_. User)" by auto
  let ?S = "sync_step 16"
  have a: "?S (demo_sync, \<lambda>_. User, {}) (s1, \<lambda>_. User, {})" by (rule sync_step.tick [OF 1(1)])
  have "?S (s1, \<lambda>_. User, {}) (?s2, (\<lambda>_. User)(32 := User), {(32, 100)})" by (rule sync_step.lock_free) (simp_all add: run)
  then have b: "?S (s1, \<lambda>_. User, {}) (?s2, \<lambda>_. User, {(32, 100)})" unfolding u .
  have c: "?S (?s2, \<lambda>_. User, {(32, 100)}) (s3, \<lambda>_. User, {(32, 100)})" by (rule sync_step.tick [OF 3(1)])
  note into = rtranclp.rtrancl_into_rtrancl [of ?S]
  have "?S\<^sup>*\<^sup>* (demo_sync, \<lambda>_. User, {}) (s3, \<lambda>_. User, {(32, 100)})"
    by (rule into [OF into [OF r_into_rtranclp [of ?S, OF a] b] c])
  then show thesis by (rule that [OF _ 3(2) o 4(1) 5])
qed

lemma demo_run:
  "\<exists>s pc s' pc'. (sync_step 16)\<^sup>*\<^sup>* (demo_sync, \<lambda>_. User, {}) (s, pc, {(32, 100)}) \<and> m_waiters (mutexes s 100) = 48 \<and>
     (sync_step 16)\<^sup>*\<^sup>* (demo_sync, \<lambda>_. User, {}) (s', pc', {}) \<and>
     locked (mutexes s' 100) = 0 \<and> m_waiters (mutexes s' 100) = 64"
proof -
  let ?R = TASK_RUNNING and ?r = TASK_READY and ?B = TASK_BLOCKED and ?S = "sync_step 16"
  obtain s3 s4 y5 s5 where 3: "?S\<^sup>*\<^sup>* (demo_sync, \<lambda>_. User, {}) (s3, \<lambda>_. User, {(32, 100)})" "demo_at s3 48 ?r ?r ?R ?r 1 0 0"
    and 4: "mutex_wait 100 48 (cli s3) = Some s4" and 5: "timer_interrupt 0 s4 = Some (y5, s5)" "demo_at s5 64 ?r ?r ?B ?R 1 48 0"
    by (rule demo_taken)
  obtain s6 where 6: "mutex_wait 100 64 (cli s5) = Some s6" "demo_at s6 64 ?r ?r ?B ?B 1 48 64"
    using demo_wait [OF 5(2)] by auto
  have p6: "pick (tcb s6) (others 64 [16, 32, 48, 64]) 64 = 16"
    using 6(2) by (simp add: demo_at_def others_def pick_def runnable_def)
  obtain y7 s7 where 7: "timer_interrupt 0 s6 = Some (y7, s7)" "demo_at s7 16 ?R ?r ?B ?B 1 48 64"
    using demo_tick [OF 6(2) _ _ p6 [symmetric]] by (auto simp: demo_next_def)
  have p7: "pick (tcb s7) (others 16 [16, 32, 48, 64]) 16 = 32"
    using 7(2) by (simp add: demo_at_def others_def pick_def runnable_def)
  obtain y8 s8 where 8: "timer_interrupt 0 s7 = Some (y8, s8)" "demo_at s8 32 ?r ?R ?B ?B 1 48 64"
    using demo_tick [OF 7(2) _ _ p7 [symmetric]] by (auto simp: demo_next_def)
  have 9: "locked (mutexes (mutex_unlock 100 s8) 100) = 0 \<and> m_waiters (mutexes (mutex_unlock 100 s8) 100) = 64"
    using 8(2) by (simp add: mutex_unlock_def wake_first_def demo_at_def set_mutex_def cli_def sti_def Let_def)
  have run: "running_task s3 = 48" "running_task s5 = 64" "running_task s8 = 32"
    "locked (mutexes s3 100) \<noteq> 0" "locked (mutexes s5 100) \<noteq> 0" "m_waiters (mutexes s8 100) = 48"
    using 3(2) 5(2) 8(2) by (simp_all add: demo_at_def)
  let ?p = "(\<lambda>_. User)(48 := Wants 100)" and ?q = "((\<lambda>_. User)(48 := Wants 100))(64 := Wants 100)"
  have d: "?S (s3, \<lambda>_. User, {(32, 100)}) (s5, ?p, {(32, 100)})"
    by (rule sync_step.lock_wait [OF _ _ _ _ 4 5(1)]) (simp_all add: run)
  have e: "?S (s5, ?p, {(32, 100)}) (s7, ?q, {(32, 100)})"
    by (rule sync_step.lock_wait [OF _ _ _ _ 6(1) 7(1)]) (simp_all add: run)
  have f: "?S (s7, ?q, {(32, 100)}) (s8, ?q, {(32, 100)})" by (rule sync_step.tick [OF 8(1)])
  have g: "?S (s8, ?q, {(32, 100)}) (mutex_unlock 100 s8, ?q, {(32, 100)} - {(32, 100)})"
    by (rule sync_step.unlock) (simp_all add: run)
  note into = rtranclp.rtrancl_into_rtrancl [of ?S]
  have h: "?S\<^sup>*\<^sup>* (demo_sync, \<lambda>_. User, {}) (s8, ?q, {(32, 100)})"
    by (rule into [OF into [OF into [OF 3(1) d] e] f])
  moreover have "?S\<^sup>*\<^sup>* (demo_sync, \<lambda>_. User, {}) (mutex_unlock 100 s8, ?q, {})"
    using into [OF h g] by simp
  ultimately show ?thesis using run(6) 9 by blast
qed

text \<open>Task 48 asks for the mutex while 32 holds it, and runs again when 32 has let it go.\<close>

lemma demo_handover:
  obtains s3 pc s4 s9 where "(sync_step 16)\<^sup>*\<^sup>* (demo_sync, \<lambda>_. User, {}) (s3, pc, {(32, 100)})"
    "running_task s3 = 48" "pc 48 = User" "locked (mutexes s3 100) \<noteq> 0" "owner (mutexes s3 100) = 32"
    "mutex_wait 100 48 (cli s3) = Some s4" "resumes 16 48 (s4, pc(48 := Wants 100), {(32, 100)}) (s9, pc(48 := Wants 100), {})"
    "locked (mutexes s9 100) = 0" "running_task s9 = 48"
proof -
  let ?R = TASK_RUNNING and ?r = TASK_READY and ?B = TASK_BLOCKED and ?S = "sync_step 16"
  obtain s3 s4 y5 s5 where 3: "?S\<^sup>*\<^sup>* (demo_sync, \<lambda>_. User, {}) (s3, \<lambda>_. User, {(32, 100)})" "demo_at s3 48 ?r ?r ?R ?r 1 0 0"
    "owner (mutexes s3 100) = 32"
    and 4: "mutex_wait 100 48 (cli s3) = Some s4" and 5: "timer_interrupt 0 s4 = Some (y5, s5)" "demo_at s5 64 ?r ?r ?B ?R 1 48 0"
    by (rule demo_taken)
  have p5: "pick (tcb s5) (others 64 [16, 32, 48, 64]) 64 = 16"
    using 5(2) by (simp add: demo_at_def others_def pick_def runnable_def)
  obtain y6 s6 where 6: "timer_interrupt 0 s5 = Some (y6, s6)" "demo_at s6 16 ?R ?r ?B ?r 1 48 0"
    using demo_tick [OF 5(2) _ _ p5 [symmetric]] by (auto simp: demo_next_def)
  have p6: "pick (tcb s6) (others 16 [16, 32, 48, 64]) 16 = 32"
    using 6(2) by (simp add: demo_at_def others_def pick_def runnable_def)
  obtain y7 s7 where 7: "timer_interrupt 0 s6 = Some (y7, s7)" "demo_at s7 32 ?r ?R ?B ?r 1 48 0"
    using demo_tick [OF 6(2) _ _ p6 [symmetric]] by (auto simp: demo_next_def)
  let ?s8 = "mutex_unlock 100 s7"
  have 8: "demo_at ?s8 32 ?r ?R ?r ?r 0 0 0"
    using 7(2) by (simp add: mutex_unlock_def wake_first_def demo_at_def set_mutex_def cli_def sti_def task_list_def Let_def)
  have p8: "pick (tcb ?s8) (others 32 [16, 32, 48, 64]) 32 = 48"
    using 8 by (simp add: demo_at_def others_def pick_def runnable_def)
  obtain y9 s9 where 9: "timer_interrupt 0 ?s8 = Some (y9, s9)" "demo_at s9 48 ?r ?r ?R ?r 0 0 0"
    using demo_tick [OF 8 _ _ p8 [symmetric]] by (auto simp: demo_next_def)
  have run: "running_task s3 = 48" "running_task s7 = 32" "locked (mutexes s3 100) \<noteq> 0" "running_task s9 = 48" "locked (mutexes s9 100) = 0"
    using 3(2) 7(2) 9(2) by (simp_all add: demo_at_def)
  let ?p = "(\<lambda>_. User)(48 := Wants 100)"
  have d: "?S (s5, ?p, {(32, 100)}) (s6, ?p, {(32, 100)})" by (rule sync_step.tick [OF 6(1)])
  have e: "?S (s6, ?p, {(32, 100)}) (s7, ?p, {(32, 100)})" by (rule sync_step.tick [OF 7(1)])
  have "?S (s7, ?p, {(32, 100)}) (?s8, ?p, {(32, 100)} - {(32, 100)})" by (rule sync_step.unlock) (simp_all add: run)
  then have f: "?S (s7, ?p, {(32, 100)}) (?s8, ?p, {})" by simp
  have g: "?S (?s8, ?p, {}) (s9, ?p, {})" by (rule sync_step.tick [OF 9(1)])
  note into = rtranclp.rtrancl_into_rtrancl [of ?S]
  have "?S\<^sup>*\<^sup>* (s5, ?p, {(32, 100)}) (s9, ?p, {})"
    by (rule into [OF into [OF into [OF r_into_rtranclp [of ?S, OF d] e] f] g])
  then have "resumes 16 48 (s4, ?p, {(32, 100)}) (s9, ?p, {})" using 5(1) run(4) by (auto simp: resumes_def)
  then show thesis using that [OF 3(1) run(1) _ run(3) 3(3) 4 _ run(5,4)] by simp
qed

section \<open>Properties\<close>

lemma reachable_parts:
  assumes "sync_start idle ts conf" "(sync_step idle)\<^sup>*\<^sup>* conf (s, pc, H)"
  obtains Q W where "queued s Q W" "tasks_inv idle ts (states s) (running_task s) pc" "queues_inv ts W (states s) pc"
    "mutexes_inv ts W (states s) (holder s) pc H"
  using reachable_inv [OF assms] by (auto simp: sync_inv_def control_def control0_def)

text \<open>
  C24: mutual exclusion. However the timer interrupts and the tasks interleave, at most one task is
  between a \<^verbatim>\<open>mutex_lock\<close> and the matching \<^verbatim>\<open>mutex_unlock\<close> of a mutex; the mutex is then locked
  and that task is its owner.
\<close>

theorem mutual_exclusion:
  assumes "sync_start idle ts conf" and "(sync_step idle)\<^sup>*\<^sup>* conf (s, pc, H)"
    and "(p, m) \<in> H" and "(q, m) \<in> H"
  shows "p = q \<and> locked (mutexes s m) \<noteq> 0 \<and> owner (mutexes s m) = p"
  using reachable_parts [OF assms(1,2)] assms(3,4)
  by (metis (no_types, lifting) holder_def mutexes_inv_def option.inject option.distinct(1))

theorem mutual_exclusion_witness:
  "\<exists>s pc. (sync_step 16)\<^sup>*\<^sup>* (demo_sync, \<lambda>_. User, {}) (s, pc, {(32, 100)}) \<and>
     locked (mutexes s 100) \<noteq> 0 \<and> owner (mutexes s 100) = 32 \<and> m_waiters (mutexes s 100) = 48"
proof -
  obtain s pc where r: "(sync_step 16)\<^sup>*\<^sup>* (demo_sync, \<lambda>_. User, {}) (s, pc, {(32, 100)})" "m_waiters (mutexes s 100) = 48"
    using demo_run by blast
  from mutual_exclusion [OF demo_start r(1), of 32 100 32] r show ?thesis by auto
qed

text \<open>
  C25: no wake-up is lost. When a mutex is free although tasks are waiting for it, one task that is
  inside \<^verbatim>\<open>mutex_lock\<close> of that mutex is runnable, so it will look at the mutex again.
\<close>

theorem no_lost_wakeup:
  assumes "sync_start idle ts conf" and "(sync_step idle)\<^sup>*\<^sup>* conf (s, pc, H)"
    and "locked (mutexes s m) = 0" and "m_waiters (mutexes s m) \<noteq> 0"
  shows "\<exists>p \<in> set ts. pc p = Wants m \<and> runnable (tcb s p)"
proof -
  obtain Q W where q: "queued s Q W" and i: "mutexes_inv ts W (states s) (holder s) pc H"
    using reachable_parts [OF assms(1,2)] by blast
  have w: "waiting (m_waiters (mutexes s m), tcb s) (Q (Mutex m))"
    using q unfolding queued_def wait_head_def by (metis wait_obj.simps(5))
  then obtain x xs where "Q (Mutex m) = x # xs" using assms(4) by (cases "Q (Mutex m)") (auto simp: waiting_def)
  then have "W x = Some (Mutex m)" using q unfolding queued_def by (metis list.set_intros(1))
  moreover have "holder s m = None" using assms(3) by (simp add: holder_def)
  ultimately have "awaited ts (states s) pc m" using i by (simp add: mutexes_inv_def)
  then show ?thesis by (auto simp: awaited_def active_def states_def runnable_def)
qed

theorem no_lost_wakeup_witness:
  "\<exists>s pc. (sync_step 16)\<^sup>*\<^sup>* (demo_sync, \<lambda>_. User, {}) (s, pc, {}) \<and> locked (mutexes s 100) = 0 \<and>
     m_waiters (mutexes s 100) = 64 \<and> (\<exists>p \<in> {16, 32, 48, 64}. pc p = Wants 100 \<and> runnable (tcb s p))"
proof -
  obtain s pc where r: "(sync_step 16)\<^sup>*\<^sup>* (demo_sync, \<lambda>_. User, {}) (s, pc, {})" "locked (mutexes s 100) = 0"
    "m_waiters (mutexes s 100) = 64"
    using demo_run by blast
  from no_lost_wakeup [OF demo_start r(1,2)] r show ?thesis by auto
qed

text \<open>
  C26: the wait queues and the states of the tasks agree, in every interleaving of the machine: tasks that use
  mutexes, condition variables and \<^verbatim>\<open>sleep\<close>, and ticks, with an idle task that never waits. Every queue is a list
  of distinct tasks, a task is blocked exactly if it is in a queue, in one queue only, and no task but the
  current one is marked as running.
\<close>

theorem blocked_in_one_queue:
  assumes "sync_start idle ts conf" and "(sync_step idle)\<^sup>*\<^sup>* conf (s, pc, H)"
  shows "\<exists>Q. (\<forall>k. waiting (wait_head s k, tcb s) (Q k) \<and> set (Q k) \<subseteq> set ts) \<and>
    (\<forall>p \<in> set ts. task_state (tcb s p) = TASK_BLOCKED \<longleftrightarrow> (\<exists>k. p \<in> set (Q k))) \<and>
    (\<forall>k k' p. p \<in> set (Q k) \<and> p \<in> set (Q k') \<longrightarrow> k = k') \<and>
    one_running s ts"
proof -
  obtain Q W where q: "queued s Q W" and t: "tasks_inv idle ts (states s) (running_task s) pc"
    and u: "queues_inv ts W (states s) pc"
    using reachable_parts [OF assms] by blast
  have mem: "p \<in> set (Q k) \<longleftrightarrow> W p = Some k" for p k using q by (simp add: queued_def)
  have "set (Q k) \<subseteq> set ts" for k using u by (auto simp: mem queues_inv_def)
  moreover have "waiting (wait_head s k, tcb s) (Q k)" for k using q by (simp add: queued_def)
  moreover have "task_state (tcb s p) = TASK_BLOCKED \<longleftrightarrow> (\<exists>k. p \<in> set (Q k))" if "p \<in> set ts" for p
    using u that unfolding mem queues_inv_def by (simp add: states_def)
  moreover have "k = k'" if "p \<in> set (Q k) \<and> p \<in> set (Q k')" for p k k'
    using that unfolding mem by (metis option.inject)
  moreover have "one_running s ts" using t by (simp add: one_running_def tasks_inv_def states_def)
  ultimately show ?thesis by (intro exI [of _ Q]) blast
qed

theorem blocked_in_one_queue_witness:
  "\<exists>s pc Q. (sync_step 16)\<^sup>*\<^sup>* (demo_sync, \<lambda>_. User, {}) (s, pc, {(32, 100)}) \<and>
     waiting (wait_head s (Mutex 100), tcb s) (Q (Mutex 100)) \<and> 48 \<in> set (Q (Mutex 100)) \<and>
     task_state (tcb s 48) = TASK_BLOCKED"
proof -
  obtain s pc where r: "(sync_step 16)\<^sup>*\<^sup>* (demo_sync, \<lambda>_. User, {}) (s, pc, {(32, 100)})" "m_waiters (mutexes s 100) = 48"
    using demo_run by blast
  obtain Q where Q: "\<forall>k. waiting (wait_head s k, tcb s) (Q k) \<and> set (Q k) \<subseteq> set [16, 32, 48, 64]"
    "\<forall>p \<in> set [16, 32, 48, 64]. task_state (tcb s p) = TASK_BLOCKED \<longleftrightarrow> (\<exists>k. p \<in> set (Q k))"
    using blocked_in_one_queue [OF demo_start r(1)] by blast
  have w: "waiting (wait_head s (Mutex 100), tcb s) (Q (Mutex 100))" using Q(1) by blast
  moreover have "48 \<in> set (Q (Mutex 100))" using w r(2)
    by (cases "Q (Mutex 100)") (auto simp: waiting_def wait_head_def)
  moreover from this have "task_state (tcb s 48) = TASK_BLOCKED" using Q(2) by auto
  ultimately show ?thesis using r(1) by blast
qed

text \<open>
  C27: a call of \<^verbatim>\<open>mutex_lock\<close> that returns is a run of the machine that ends with the caller inside, also where
  the mutex was held by another task when it was called: if what happens in \<^verbatim>\<open>task_yield\<close> between two
  checks of the loop is what the machine does, so is the whole call.
\<close>

theorem mutex_lock_runs:
  assumes "yields idle m P yield" and "P (s, pc, H)" and "running_task s \<noteq> idle" and "pc (running_task s) = User"
    and "mutex_lock yield m s = Some s'"
  shows "\<exists>pc' H'. (sync_step idle)\<^sup>*\<^sup>* (s, pc, H) (s', pc', H') \<and> (running_task s, m) \<in> H' \<and>
    running_task s' = running_task s"
  using mutex_lock_loop_runs [OF _ assms(1-3) refl refl, of s'] assms(4,5)
  by (auto simp: mutex_lock_def task_get_current_def Let_def)

text \<open>Task 48 asks for the mutex that 32 holds; it gets it when 32 has let it go.\<close>

theorem mutex_lock_runs_witness:
  "\<exists>s pc yield s' pc' H'. (sync_step 16)\<^sup>*\<^sup>* (demo_sync, \<lambda>_. User, {}) (s, pc, {(32, 100)}) \<and>
     running_task s = 48 \<and> locked (mutexes s 100) \<noteq> 0 \<and> owner (mutexes s 100) = 32 \<and>
     mutex_lock yield 100 s = Some s' \<and> (sync_step 16)\<^sup>*\<^sup>* (s, pc, {(32, 100)}) (s', pc', H') \<and> (48, 100) \<in> H'"
proof -
  obtain s3 pc s4 s9 where h: "(sync_step 16)\<^sup>*\<^sup>* (demo_sync, \<lambda>_. User, {}) (s3, pc, {(32, 100)})"
    "running_task s3 = 48" "pc 48 = User" "locked (mutexes s3 100) \<noteq> 0" "owner (mutexes s3 100) = 32"
    "mutex_wait 100 48 (cli s3) = Some s4" "resumes 16 48 (s4, pc(48 := Wants 100), {(32, 100)}) (s9, pc(48 := Wants 100), {})"
    "locked (mutexes s9 100) = 0" "running_task s9 = 48"
    by (rule demo_handover)
  let ?y = "\<lambda>s. if s = s4 then Some s9 else None"
  let ?P = "\<lambda>c. c = (s3, pc, {(32, 100)}) \<or> c = (s9, pc(48 := Wants 100), {})"
  have "mutex_lock_loop ?y 100 48 (cli s9) = Some (mutex_take 100 48 (cli s9))"
    using h(8) by (subst mutex_lock_loop.simps) (simp add: cli_def)
  then have "mutex_lock_loop ?y 100 48 (cli s3) = Some (mutex_take 100 48 (cli s9))"
    using h(4,6) by (subst mutex_lock_loop.simps) (simp add: cli_def)
  then have run: "mutex_lock ?y 100 s3 = Some (mutex_take 100 48 (cli s9))"
    using h(2) by (simp add: mutex_lock_def task_get_current_def cli_def Let_def)
  have "yields 16 100 ?P ?y" unfolding yields_def using h(2,6-8) by auto
  from mutex_lock_runs [OF this _ _ _ run, of pc "{(32, 100)}"] h(2,3) obtain pc' H' where
    "(sync_step 16)\<^sup>*\<^sup>* (s3, pc, {(32, 100)}) (mutex_take 100 48 (cli s9), pc', H')" "(48, 100) \<in> H'" by auto
  with h(1,2,4,5) run show ?thesis
    by (intro exI [of _ s3] exI [of _ pc] exI [of _ ?y] exI [of _ "mutex_take 100 48 (cli s9)"] exI [of _ pc'] exI [of _ H'])
       (intro conjI; assumption)
qed

text \<open>
  tasks that block in a queue, any number of them and interleaved with any wake-ups, leave it in
  the order in which they came, none lost and none twice.
\<close>

theorem waiters_in_order:
  assumes "waiting q xs" and "spec_run (\<lambda>p ys. p \<noteq> 0 \<and> p \<notin> set ys) ops xs = Some (out, ys)"
  shows "(\<exists>q'. fifo_run block_on wake_first ops q = Some (out, q') \<and> waiting q' ys) \<and> xs @ inputs ops = out @ ys"
  using wait_queue.run_refines [OF assms] spec_run_order [OF assms(2)] by blast

theorem waiters_in_order_witness:
  "\<exists>q'. fifo_run block_on wake_first [Enq 32, Enq 48, Deq, Enq 64, Deq] (0, tcb demo_sync) = Some ([32, 48], q') \<and>
     waiting q' [64] \<and> [32, 48, 64] = inputs [Enq 32, Enq 48, Deq, Enq 64, Deq]"
proof -
  have "waiting (0, tcb demo_sync) []" by (simp add: waiting_def)
  from waiters_in_order [OF this, of "[Enq 32, Enq 48, Deq, Enq 64, Deq]" "[32, 48]" "[64]"] show ?thesis by simp
qed

text \<open>
  \<^verbatim>\<open>cond_signal\<close> makes the task that has waited longest ready and touches no other task;
  \<^verbatim>\<open>cond_broadcast\<close> returns, makes every waiting task ready and leaves the queue empty.
\<close>

theorem cond_wakes:
  assumes "waiting (c_waiters (conds s c), tcb s) xs"
  shows "(let s' = cond_signal c s in waiting (c_waiters (conds s' c), tcb s') (tl xs) \<and>
      (\<forall>p. tcb s' p = (if xs \<noteq> [] \<and> p = hd xs then (tcb s p)\<lparr>task_state := TASK_READY\<rparr> else tcb s p))) \<and>
    (\<exists>s'. cond_broadcast c s = Some s' \<and> c_waiters (conds s' c) = 0 \<and>
      (\<forall>p. tcb s' p = (if p \<in> set xs then (tcb s p)\<lparr>task_state := TASK_READY\<rparr> else tcb s p)))"
proof (rule conjI)
  show "let s' = cond_signal c s in waiting (c_waiters (conds s' c), tcb s') (tl xs) \<and>
      (\<forall>p. tcb s' p = (if xs \<noteq> [] \<and> p = hd xs then (tcb s p)\<lparr>task_state := TASK_READY\<rparr> else tcb s p))"
  proof (cases xs)
    case Nil
    then show ?thesis using assms wake_first_none
      by (simp add: cond_signal_def cli_def sti_def Let_def)
  next
    case (Cons x ys)
    have w: "c_waiters (conds s c) \<noteq> 0" "c_waiters (conds s c) = x" using assms Cons by (auto simp: waiting_def)
    have "waiting (snd (the (wake_first (c_waiters (conds s c), tcb s)))) ys"
      using wake_first_ok [OF assms [unfolded Cons]] by auto
    then show ?thesis using w Cons by (simp add: cond_signal_def wake_first_def cli_def sti_def set_cond_def Let_def)
  qed
  obtain t where "wake_all (c_waiters (conds s c), tcb s) = Some (0, t)"
    "\<forall>q. t q = (if q \<in> set xs then (tcb s q)\<lparr>task_state := TASK_READY\<rparr> else tcb s q)"
    using wake_all_ok [OF assms] by blast
  then show "\<exists>s'. cond_broadcast c s = Some s' \<and> c_waiters (conds s' c) = 0 \<and>
      (\<forall>p. tcb s' p = (if p \<in> set xs then (tcb s p)\<lparr>task_state := TASK_READY\<rparr> else tcb s p))"
    by (simp add: cond_broadcast_def cli_def sti_def set_cond_def Let_def)
qed


theorem cond_wakes_witness:
  "let s = demo_sync\<lparr>conds := (\<lambda>_. \<lparr>c_waiters = 64\<rparr>)\<rparr> in
     task_state (tcb (cond_signal 7 s) 64) = TASK_READY \<and> waiting (c_waiters (conds (cond_signal 7 s) 7), tcb (cond_signal 7 s)) []"
proof -
  have "waiting (c_waiters (conds (demo_sync\<lparr>conds := (\<lambda>_. \<lparr>c_waiters = 64\<rparr>)\<rparr>) 7), tcb (demo_sync\<lparr>conds := (\<lambda>_. \<lparr>c_waiters = 64\<rparr>)\<rparr>)) [64]"
    by (simp add: waiting_def demo_sync_def demo_task_def)
  from cond_wakes [OF this] show ?thesis by (simp add: Let_def)
qed

end
