(* ===== verification/Cstdlib.thy ===== *)
theory Cstdlib
  imports Cstring
begin

text \<open>
  \<^verbatim>\<open>common/stdlib.c\<close>: \<^verbatim>\<open>abs\<close> and \<^verbatim>\<open>itoa\<close>. The code writes the digits least significant first and
  then swaps them in place; the lemmas show that what stands in the buffer afterwards is the
  terminated numeral \<open>itoa_text\<close>, that at most 33 characters and the terminator are written, and
  that reading the numeral back gives the number.

  A 32-bit C \<^verbatim>\<open>int\<close> is a \<^typ>\<open>u32\<close> read by \<^const>\<open>sint\<close>; the negation of the smallest
  one, which C leaves undefined, wraps as the x86 \<^verbatim>\<open>neg\<close> instruction does.
\<close>

section \<open>The routines\<close>

definition abs :: "u32 \<Rightarrow> u32" where
  "abs value = (if sint value < 0 then - value else value)"

definition digit_char :: "u32 \<Rightarrow> u8" where
  "digit_char digit = ucast (if digit < 10 then digit + 0x30 else digit - 10 + 0x61)"

partial_function (option) itoa_digits :: "u32 \<Rightarrow> u32 \<Rightarrow> u32 \<Rightarrow> mem \<Rightarrow> (u32 \<times> mem) option" where
  "itoa_digits v base ptr m =
     (if 0 < v then
        let digit = v mod base;
            m = m(ptr := digit_char digit)
        in itoa_digits (v div base) base (ptr + 1) m
      else Some (ptr, m))"

function itoa_reverse :: "u32 \<Rightarrow> u32 \<Rightarrow> mem \<Rightarrow> mem" where
  "itoa_reverse low ptr m =
     (if low < ptr then
        let tmp = m low;
            m = m(low := m ptr);
            m = m(ptr := tmp)
        in itoa_reverse (low + 1) (ptr - 1) m
      else m)"
  by pat_completeness auto
termination
proof (relation "measure (\<lambda>(low, ptr, m). unat ptr - unat low)")
  fix low ptr :: u32 and m x xa xb
  assume "low < ptr"
  then have "unat low < unat ptr" "ptr \<noteq> 0" "unat (low + 1) = Suc (unat low)"
    using unat_add_of_nat [of low 1] unat_less_32 [of ptr]
    by (auto simp: word_less_nat_alt)
  then show "((low + 1, ptr - 1, xb), low, ptr, m) \<in> measure (\<lambda>(low, ptr, m). unat ptr - unat low)"
    by (simp add: unat_minus_one)
qed simp

declare itoa_reverse.simps [simp del]

definition itoa :: "u32 \<Rightarrow> u32 \<Rightarrow> u32 \<Rightarrow> mem \<Rightarrow> mem option" where
  "itoa value str base m =
     (if sint base < 2 \<or> 36 < sint base then Some (m(str := 0))
      else
        let neg = sint value < 0 \<and> sint base = 10;
            (ptr, m) = if neg then (str + 1, m(str := 0x2D)) else (str, m);
            low = ptr;
            v = if neg then - value else value
        in case (if v = 0 then Some (ptr + 1, m(ptr := 0x30)) else itoa_digits v base ptr m) of
             None \<Rightarrow> None
           | Some (ptr, m) \<Rightarrow> Some (itoa_reverse low (ptr - 1) (m(ptr := 0))))"

section \<open>The numeral it writes\<close>

fun ldigits :: "nat \<Rightarrow> nat \<Rightarrow> nat list" where
  "ldigits b n = (if n = 0 \<or> b < 2 then [] else n mod b # ldigits b (n div b))"

declare ldigits.simps [simp del]

text \<open>The digits by their value, and the numeral with the most significant digit first.\<close>

definition numerals :: string where
  "numerals = ''0123456789abcdefghijklmnopqrstuvwxyz''"

definition numeral_text :: "nat \<Rightarrow> nat \<Rightarrow> u8 list" where
  "numeral_text b n = (if n = 0 then [of_char (CHR ''0'')] else rev (map (\<lambda>d. of_char (numerals ! d)) (ldigits b n)))"

definition itoa_text :: "u32 \<Rightarrow> u32 \<Rightarrow> u8 list" where
  "itoa_text value base =
     (if sint value < 0 \<and> base = 10 then 0x2D # numeral_text 10 (nat (- sint value))
      else numeral_text (unat base) (unat value))"

text \<open>Reading the numeral back.\<close>

definition char_digit :: "u8 \<Rightarrow> nat" where
  "char_digit c = (if c < 0x61 then unat c - 0x30 else unat c - 0x61 + 10)"

definition read_numeral :: "nat \<Rightarrow> u8 list \<Rightarrow> nat" where
  "read_numeral b cs = foldl (\<lambda>n c. n * b + char_digit c) 0 cs"

definition read_int :: "nat \<Rightarrow> u8 list \<Rightarrow> int" where
  "read_int b cs =
     (case cs of [] \<Rightarrow> 0 | c # cs' \<Rightarrow> if c = 0x2D then - int (read_numeral b cs') else int (read_numeral b cs))"

lemma digit_char_less_36:
  assumes "d < 36"
  shows "digit_char (of_nat d) \<noteq> 0" "char_digit (digit_char (of_nat d)) = d" "digit_char (of_nat d) \<noteq> 0x2D"
proof -
  have "\<forall>d \<in> set [0..<36]. digit_char (of_nat d) \<noteq> 0 \<and> char_digit (digit_char (of_nat d)) = d \<and> digit_char (of_nat d) \<noteq> 0x2D"
    by code_simp
  with assms show "digit_char (of_nat d) \<noteq> 0" "char_digit (digit_char (of_nat d)) = d" "digit_char (of_nat d) \<noteq> 0x2D"
    by auto
qed

lemma ldigits_less: "d \<in> set (ldigits b n) \<Longrightarrow> d < b"
  by (induction b n rule: ldigits.induct) (subst (asm) ldigits.simps, auto split: if_splits)

lemma digit_char_numerals: "d < 36 \<Longrightarrow> digit_char (of_nat d) = of_char (numerals ! d)"
proof -
  have "\<forall>d \<in> set [0..<36]. digit_char (of_nat d) = of_char (numerals ! d)" by code_simp
  then show "d < 36 \<Longrightarrow> ?thesis" by auto
qed

lemma numeral_text_chars:
  assumes "b \<le> 36"
  shows "numeral_text b n = (if n = 0 then [0x30] else rev (map (\<lambda>d. digit_char (of_nat d)) (ldigits b n)))"
proof -
  have "map (\<lambda>d. of_char (numerals ! d)) (ldigits b n) = map (\<lambda>d. digit_char (of_nat d) :: u8) (ldigits b n)"
    by (rule map_cong [OF refl], rule digit_char_numerals [symmetric], rule order_less_le_trans [OF ldigits_less assms])
  then show ?thesis by (simp add: numeral_text_def)
qed

lemma ldigits_length: "n < 2 ^ k \<Longrightarrow> length (ldigits b n) \<le> k"
proof (induction k arbitrary: n)
  case 0
  then show ?case by (simp add: ldigits.simps)
next
  case (Suc k)
  show ?case
  proof (cases "n = 0 \<or> b < 2")
    case True
    then show ?thesis by (subst ldigits.simps) simp
  next
    case False
    then have "n div b \<le> n div 2" by (intro div_le_mono2) auto
    with Suc.prems have "n div b < 2 ^ k" by simp
    from Suc.IH [OF this] False show ?thesis by (subst ldigits.simps) simp
  qed
qed

lemma read_ldigits:
  assumes "2 \<le> b" "b \<le> 36"
  shows "read_numeral b (rev (map (\<lambda>d. digit_char (of_nat d)) (ldigits b n))) = n"
  using assms
proof (induction b n rule: ldigits.induct)
  case (1 b n)
  show ?case
  proof (cases "n = 0")
    case True
    then show ?thesis by (simp add: ldigits.simps read_numeral_def)
  next
    case False
    with 1 have "read_numeral b (rev (map (\<lambda>d. digit_char (of_nat d)) (ldigits b (n div b)))) = n div b"
      by simp
    moreover have "char_digit (digit_char (of_nat (n mod b))) = n mod b"
      using 1 by (intro digit_char_less_36) (meson mod_less_divisor order_less_le_trans zero_less_numeral order.strict_trans2)
    ultimately show ?thesis using False 1
      by (subst ldigits.simps) (simp add: read_numeral_def)
  qed
qed

lemma itoa_digits_write:
  assumes "2 \<le> base" "base \<le> 36"
  shows "itoa_digits v base ptr m =
     (let ds = map (\<lambda>d. digit_char (of_nat d)) (ldigits (unat base) (unat v))
      in Some (ptr + of_nat (length ds), write_bytes ptr ds m))"
proof (induction "unat v" arbitrary: v ptr m rule: less_induct)
  case less
  show ?case
  proof (cases "v = 0")
    case True
    then show ?thesis by (subst itoa_digits.simps) (simp add: ldigits.simps)
  next
    case False
    have b: "2 \<le> unat base" using assms by (simp add: word_le_nat_alt)
    from False have v: "0 < unat v" by (simp add: unat_gt_0)
    with b have "unat (v div base) < unat v" by (simp add: unat_div)
    from less [OF this] have ih: "itoa_digits (v div base) base (ptr + 1) m' =
        (let ds = map (\<lambda>d. digit_char (of_nat d)) (ldigits (unat base) (unat v div unat base))
         in Some (ptr + 1 + of_nat (length ds), write_bytes (ptr + 1) ds m'))" for m'
      by (simp add: unat_div)
    have "of_nat (unat v mod unat base) = v mod base"
      by (simp add: unat_mod [symmetric])
    with False v b ih show ?thesis
      by (subst itoa_digits.simps, subst ldigits.simps) (simp add: Let_def word_gt_0 add.assoc)
  qed
qed

lemma itoa_reverse_at:
  "itoa_reverse low ptr m x = (if low \<le> x \<and> x \<le> ptr then m (low + ptr - x) else m x)"
proof (induction low ptr m rule: itoa_reverse.induct)
  case (1 low ptr m)
  show ?case
  proof (cases "low < ptr")
    case False
    then have "x = low \<and> x = ptr" if "low \<le> x" "x \<le> ptr"
      using that by (auto simp: word_le_nat_alt word_less_nat_alt word_unat_eq_iff)
    with False show ?thesis by (auto simp: itoa_reverse.simps)
  next
    case True
    let ?m = "m(low := m ptr, ptr := m low)"
    have ih: "itoa_reverse (low + 1) (ptr - 1) ?m x =
        (if low + 1 \<le> x \<and> x \<le> ptr - 1 then ?m (low + 1 + (ptr - 1) - x) else ?m x)"
      by (rule 1 [OF True refl refl refl])
    have in': "low + 1 \<le> x \<and> x \<le> ptr - 1 \<longleftrightarrow> low \<le> x \<and> x \<le> ptr \<and> x \<noteq> low \<and> x \<noteq> ptr"
    proof -
      have "unat (low + 1) = unat low + 1" "unat (ptr - 1) = unat ptr - 1" "unat low < unat ptr"
        using True unat_add_of_nat [of low 1] unat_less_32 [of ptr] unat_pred [of ptr]
        by (cases "ptr = 0"; simp add: word_less_nat_alt)+
      then show ?thesis by (auto simp: word_le_nat_alt word_unat_eq_iff)
    qed
    have "low + ptr - x \<noteq> low" if "x \<noteq> ptr" using that by auto
    moreover have "low + ptr - x \<noteq> ptr" if "x \<noteq> low" using that by auto
    ultimately show ?thesis using ih in' True
      by (subst itoa_reverse.simps) (auto simp: Let_def)
  qed
qed

lemma itoa_finish:
  fixes m :: mem
  assumes "unat lo + length ds < 2 ^ 32" "ds \<noteq> []" "0 \<notin> set ds"
  defines "m' \<equiv> itoa_reverse lo (lo + of_nat (length ds) - 1) ((write_bytes lo ds m)(lo + of_nat (length ds) := 0))"
  shows "cstr m' lo (rev ds)" "length ds < unat (x - lo) \<Longrightarrow> m' x = m x"
proof -
  let ?n = "length ds"
  have n: "0 < ?n" "?n < 2 ^ 32" using assms(1,2) by auto
  have "unat (lo + of_nat (?n - 1)) = unat lo + (?n - 1)"
    using assms(1) by (intro unat_add_of_nat) simp
  moreover have "lo + of_nat ?n - 1 = lo + of_nat (?n - 1)"
    using n(1) by (cases ?n) simp_all
  ultimately have hi: "lo + of_nat ?n - 1 = lo + of_nat (?n - 1)" "unat (lo + of_nat (?n - 1)) = unat lo + (?n - 1)"
    by auto
  have at: "m' y = (if lo \<le> y \<and> y \<le> lo + of_nat (?n - 1)
      then ((write_bytes lo ds m)(lo + of_nat ?n := 0)) (lo + (lo + of_nat (?n - 1)) - y)
      else ((write_bytes lo ds m)(lo + of_nat ?n := 0)) y)" for y
    unfolding m'_def hi(1) by (rule itoa_reverse_at)
  have un: "unat (of_nat i :: u32) = i" if "i \<le> ?n" for i
    using that n by (simp add: unat_of_nat take_bit_nat_eq_self)
  have in': "m' (lo + of_nat i) = rev ds ! i" if i: "i < ?n" for i
  proof -
    have "unat (lo + of_nat i) = unat lo + i" using assms(1) i by (intro unat_add_of_nat) simp
    then have "lo \<le> lo + of_nat i" "lo + of_nat i \<le> lo + of_nat (?n - 1)"
      using i hi(2) by (auto simp: word_le_nat_alt)
    moreover have e: "lo + (lo + of_nat (?n - 1)) - (lo + of_nat i) = lo + of_nat (?n - 1 - i)"
      using i by (simp add: of_nat_diff)
    moreover have "(of_nat (?n - 1 - i) :: u32) \<noteq> of_nat ?n"
    proof
      assume eq: "(of_nat (?n - 1 - i) :: u32) = of_nat ?n"
      have "?n - 1 - i = unat (of_nat (?n - 1 - i) :: u32)" by (rule un [symmetric]) simp
      also have "\<dots> = unat (of_nat ?n :: u32)" using eq by (rule arg_cong)
      also have "\<dots> = ?n" by (rule un) simp
      finally show False using n(1) by arith
    qed
    ultimately have "m' (lo + of_nat i) = write_bytes lo ds m (lo + of_nat (?n - 1 - i))"
      unfolding at e by simp
    also have "\<dots> = rev ds ! i"
      using i n un [of "?n - 1 - i"] by (subst write_bytes_at) (simp_all add: rev_nth del: of_nat_diff)
    finally show ?thesis .
  qed
  have out: "unat (lo + of_nat ?n) = unat lo + ?n" using assms(1) by (intro unat_add_of_nat) simp
  have "unat (lo + of_nat (?n - 1)) < unat (lo + of_nat ?n)"
    unfolding hi(2) out using n(1) by arith
  then have "\<not> lo + of_nat ?n \<le> lo + of_nat (?n - 1)"
    by (simp only: word_le_nat_alt not_le)
  then have "m' (lo + of_nat ?n) = 0" by (simp add: at)
  then show "cstr m' lo (rev ds)"
    using in' assms(3) by (auto simp: cstr_nth) (metis in_set_conv_nth length_rev set_rev)
  assume x: "?n < unat (x - lo)"
  have "\<not> (lo \<le> x \<and> x \<le> lo + of_nat (?n - 1))"
  proof
    assume a: "lo \<le> x \<and> x \<le> lo + of_nat (?n - 1)"
    then have "unat (x - lo) = unat x - unat lo" by (simp add: unat_sub word_le_nat_alt)
    with a x hi(2) n(1) show False by (simp only: word_le_nat_alt) arith
  qed
  moreover have "x \<noteq> lo + of_nat ?n" using x un [of ?n] by auto
  ultimately have "m' x = write_bytes lo ds m x" by (simp only: at if_not_P if_False fun_upd_other simp_thms)
  also have "\<dots> = m x" using x n by (simp add: write_bytes_at)
  finally show "m' x = m x" .
qed

lemma numeral_digits:
  fixes v base :: u32
  assumes "2 \<le> base" "base \<le> 36"
  obtains ds where "ds \<noteq> []" "0 \<notin> set ds" "length ds \<le> 32" "rev ds = numeral_text (unat base) (unat v)"
    and "\<And>ptr m. (if v = 0 then Some (ptr + 1, m(ptr := 0x30)) else itoa_digits v base ptr m) =
       Some (ptr + of_nat (length ds), write_bytes ptr ds m)"
proof (cases "v = 0")
  case True
  then show ?thesis by (intro that [of "[0x30]"]) (auto simp: numeral_text_def)
next
  case False
  let ?ds = "map (\<lambda>d. digit_char (of_nat d)) (ldigits (unat base) (unat v))"
  have b: "2 \<le> unat base" "unat base \<le> 36" using assms by (auto simp: word_le_nat_alt)
  from False have "0 < unat v" by (simp add: unat_gt_0)
  show ?thesis
  proof (rule that)
    show "?ds \<noteq> []" using \<open>0 < unat v\<close> b by (subst ldigits.simps) simp
    show "0 \<notin> set ?ds"
    proof
      assume "0 \<in> set ?ds"
      then obtain d where d: "d \<in> set (ldigits (unat base) (unat v))" "digit_char (of_nat d) = 0" by auto
      then have "d < 36" using ldigits_less b(2) by fastforce
      with d(2) show False using digit_char_less_36(1) by blast
    qed
    show "length ?ds \<le> 32" using ldigits_length [OF unat_less_32] by simp
    show "rev ?ds = numeral_text (unat base) (unat v)"
      using \<open>0 < unat v\<close> b(2) by (simp add: numeral_text_chars)
    show "(if v = 0 then Some (ptr + 1, m(ptr := 0x30)) else itoa_digits v base ptr m) =
       Some (ptr + of_nat (length ?ds), write_bytes ptr ?ds m)" for ptr m
      using False itoa_digits_write [OF assms] by (simp add: Let_def)
  qed
qed

lemma itoa_core:
  fixes m :: mem
  assumes "2 \<le> base" "base \<le> 36" "unat lo + 33 \<le> 2 ^ 32"
  obtains ptr m1 where
    "(if v = 0 then Some (lo + 1, m(lo := 0x30)) else itoa_digits v base lo m) = Some (ptr, m1)"
    and "cstr (itoa_reverse lo (ptr - 1) (m1(ptr := 0))) lo (numeral_text (unat base) (unat v))"
    and "\<And>x. length (numeral_text (unat base) (unat v)) < unat (x - lo) \<Longrightarrow>
           itoa_reverse lo (ptr - 1) (m1(ptr := 0)) x = m x"
proof -
  obtain ds where ds: "ds \<noteq> []" "0 \<notin> set ds" "length ds \<le> 32" "rev ds = numeral_text (unat base) (unat v)"
    and run: "\<And>ptr m. (if v = 0 then Some (ptr + 1, m(ptr := 0x30)) else itoa_digits v base ptr m) =
       Some (ptr + of_nat (length ds), write_bytes ptr ds m)"
    using numeral_digits [OF assms(1,2), of v] by metis
  have "unat lo + length ds < 2 ^ 32" using assms(3) ds(3) by simp
  note fin = itoa_finish [OF this ds(1,2), where m = m]
  have len: "length (numeral_text (unat base) (unat v)) = length ds"
    by (simp add: ds(4) [symmetric])
  show ?thesis
    using that [OF run] fin unfolding len ds(4) by blast
qed

lemma itoa_writes:
  fixes m :: mem
  assumes "2 \<le> sint base" "sint base \<le> 36" "unat str + 34 \<le> 2 ^ 32"
  obtains m' where "itoa value str base m = Some m'" "cstr m' str (itoa_text value base)"
    and "\<And>x. length (itoa_text value base) < unat (x - str) \<Longrightarrow> m' x = m x"
proof -
  have sb: "sint base = uint base" using assms(1) by (intro sint_small) simp
  then have b: "2 \<le> base" "base \<le> 36" using assms(1,2) by (auto simp: word_le_def)
  have ten: "sint base = 10 \<longleftrightarrow> base = 10" using sb by (auto simp: word_uint_eq_iff)
  show ?thesis
  proof (cases "sint value < 0 \<and> base = 10")
    case True
    have s1: "unat (str + 1) = unat str + 1" using assms(3) unat_add_of_nat [of str 1] by simp
    have core: "unat (str + 1) + 33 \<le> 2 ^ 32" using assms(3) s1 by simp
    obtain ptr m1 where run:
        "(if - value = 0 then Some (str + 1 + 1, (m(str := 0x2D))(str + 1 := 0x30))
          else itoa_digits (- value) base (str + 1) (m(str := 0x2D))) = Some (ptr, m1)"
      and fin: "cstr (itoa_reverse (str + 1) (ptr - 1) (m1(ptr := 0))) (str + 1) (numeral_text (unat base) (unat (- value)))"
        "\<And>x. length (numeral_text (unat base) (unat (- value))) < unat (x - (str + 1)) \<Longrightarrow>
           itoa_reverse (str + 1) (ptr - 1) (m1(ptr := 0)) x = (m(str := 0x2D)) x"
      by (rule itoa_core [OF b core, of "- value" "m(str := 0x2D)"]) blast
    have tx: "itoa_text value base = 0x2D # numeral_text (unat base) (unat (- value))"
      using True by (simp add: itoa_text_def unat_uminus_sint)
    have small: "length (numeral_text (unat base) (unat (- value))) \<le> 32"
      using ldigits_length [OF unat_less_32, of "unat base" "- value"] by (simp add: numeral_text_def)
    have "itoa value str base m = Some (itoa_reverse (str + 1) (ptr - 1) (m1(ptr := 0)))"
      using assms(1,2) run True ten by (simp add: itoa_def split: if_splits)
    moreover have "itoa_reverse (str + 1) (ptr - 1) (m1(ptr := 0)) str = 0x2D"
      using small unat_max_32 by (subst fin(2)) simp_all
    moreover have "itoa_reverse (str + 1) (ptr - 1) (m1(ptr := 0)) x = m x"
      if "length (itoa_text value base) < unat (x - str)" for x
    proof -
      from that have "x \<noteq> str" by auto
      with that unat_diff_Suc [of x str] show ?thesis by (subst fin(2)) (simp_all add: tx)
    qed
    ultimately show ?thesis using fin(1)
      by (intro that [of "itoa_reverse (str + 1) (ptr - 1) (m1(ptr := 0))"]) (simp_all add: tx)
  next
    case False
    have core: "unat str + 33 \<le> 2 ^ 32" using assms(3) by simp
    have tx: "itoa_text value base = numeral_text (unat base) (unat value)"
      using False by (auto simp: itoa_text_def)
    obtain ptr m1 where run:
        "(if value = 0 then Some (str + 1, m(str := 0x30)) else itoa_digits value base str m) = Some (ptr, m1)"
      and fin: "cstr (itoa_reverse str (ptr - 1) (m1(ptr := 0))) str (numeral_text (unat base) (unat value))"
        "\<And>x. length (numeral_text (unat base) (unat value)) < unat (x - str) \<Longrightarrow>
           itoa_reverse str (ptr - 1) (m1(ptr := 0)) x = m x"
      by (rule itoa_core [OF b core, of "value" m]) blast
    have "itoa value str base m = Some (itoa_reverse str (ptr - 1) (m1(ptr := 0)))"
    proof -
      have "(sint base < 2 \<or> 36 < sint base) = False" "(sint value < 0 \<and> sint base = 10) = False"
        using assms(1,2) False ten by auto
      then show ?thesis by (simp only: itoa_def Let_def if_False prod.case run option.case)
    qed
    then show ?thesis using fin
      by (intro that [of "itoa_reverse str (ptr - 1) (m1(ptr := 0))"]) (simp_all only: tx)
  qed
qed

lemma read_numeral_text: "2 \<le> b \<Longrightarrow> b \<le> 36 \<Longrightarrow> read_numeral b (numeral_text b n) = n"
  using read_ldigits [of b n] by (auto simp: numeral_text_chars read_numeral_def char_digit_def)

lemma numeral_text_no_minus: "b \<le> 36 \<Longrightarrow> 0x2D \<notin> set (numeral_text b n)"
  using digit_char_less_36(3) ldigits_less [of _ b n]
  by (auto simp: numeral_text_chars split: if_splits) (metis order_less_le_trans)

lemma read_itoa_text:
  assumes "2 \<le> sint base" "sint base \<le> 36"
  shows "read_int (unat base) (itoa_text value base) =
     (if base = 10 then sint value else uint value)"
proof -
  have "sint base = uint base" using assms(1) by (intro sint_small) simp
  then have "2 \<le> base" "base \<le> 36" using assms by (auto simp: word_le_def)
  then have b: "2 \<le> unat base" "unat base \<le> 36" by (auto simp: word_le_nat_alt)
  have pos: "read_int (unat base) (numeral_text (unat base) n) = int n" for n
  proof (cases "numeral_text (unat base) n")
    case Nil
    with read_numeral_text [OF b, of n] show ?thesis
      by (simp add: read_int_def) (simp add: read_numeral_def)
  next
    case (Cons c cs)
    with numeral_text_no_minus [OF b(2), of n] have "c \<noteq> 0x2D" by auto
    with Cons read_numeral_text [OF b, of n] show ?thesis
      by (simp add: read_int_def)
  qed
  show ?thesis
  proof (cases "sint value < 0 \<and> base = 10")
    case True
    then show ?thesis by (simp add: itoa_text_def read_int_def read_numeral_text)
  next
    case False
    then show ?thesis using pos sint_small [of "value"] by (auto simp: itoa_text_def)
  qed
qed

section \<open>Properties\<close>

text \<open>
  C7: for every supported base \<^verbatim>\<open>itoa\<close> returns and leaves the terminated numeral of the
  value in the buffer, in the digits \<open>0\<close> to \<open>9\<close> and \<open>a\<close> to \<open>z\<close>, a minus sign first for a negative value in base ten, and every byte
  after the terminator as it was. A buffer of 34 bytes is enough.
\<close>

theorem itoa_writes_numeral:
  fixes m :: mem
  assumes "2 \<le> sint base" and "sint base \<le> 36" and "unat str + 34 \<le> 2 ^ 32"
  shows "\<exists>m'. itoa value str base m = Some m' \<and> cstr m' str (itoa_text value base)
    \<and> (\<forall>x. length (itoa_text value base) < unat (x - str) \<longrightarrow> m' x = m x)"
  using itoa_writes [OF assms] by metis

theorem itoa_writes_numeral_witness:
  "(\<exists>m'. itoa (- 42) 64 10 (\<lambda>_. 0) = Some m' \<and> cstr m' 64 [0x2D, 0x34, 0x32]) \<and>
   (\<exists>m'. itoa 0xBEEF 64 16 (\<lambda>_. 0) = Some m' \<and> cstr m' 64 [0x62, 0x65, 0x65, 0x66])"
proof -
  have t: "itoa_text (- 42) 10 = [0x2D, 0x34, 0x32]" "itoa_text 0xBEEF 16 = [0x62, 0x65, 0x65, 0x66]"
    by (simp_all add: itoa_text_def numeral_text_def numerals_def ldigits.simps)
  show ?thesis
    using itoa_writes_numeral [of 10 64 "- 42" "\<lambda>_. 0"] itoa_writes_numeral [of 16 64 "0xBEEF" "\<lambda>_. 0"] by (auto simp: t)
qed

text \<open>
  the numeral \<^verbatim>\<open>itoa\<close> writes can be read back: in base ten it denotes the signed value, in
  any other base the value taken as an unsigned number.
\<close>

theorem itoa_roundtrip:
  fixes m :: mem
  assumes "2 \<le> sint base" and "sint base \<le> 36" and "unat str + 34 \<le> 2 ^ 32"
  shows "\<exists>m' cs. itoa value str base m = Some m' \<and> cstr m' str cs \<and>
    read_int (unat base) cs = (if base = 10 then sint value else uint value)"
proof -
  obtain m' where "itoa value str base m = Some m'" "cstr m' str (itoa_text value base)"
    by (rule itoa_writes [OF assms, of "value" m])
  with read_itoa_text [OF assms(1,2), of "value"] show ?thesis by blast
qed

theorem itoa_roundtrip_witness:
  "\<exists>m' cs. itoa (- 42) 64 10 (\<lambda>_. 0) = Some m' \<and> cstr m' 64 cs \<and> read_int 10 cs = - 42"
  using itoa_roundtrip [of 10 64 "- 42" "\<lambda>_. 0"] by simp

end
