(* ===== verification/Font.thy ===== *)
theory Font
  imports Prelude
begin

text \<open>
  \<^verbatim>\<open>kernel/font.c\<close>: the table of 8x8 glyphs, one byte per row, the leftmost pixel in the highest bit.
  Entries the initialiser leaves out are zero. An index outside of the 128 entries reads other
  memory; it is the value \<^term>\<open>None\<close>.
\<close>

definition font_table :: "(u8 \<times> u8 list) list" where
  "font_table = [
    (0x20, [0x00, 0x00, 0x00, 0x00, 0x00, 0x00, 0x00, 0x00]),
    (0x21, [0x18, 0x3C, 0x3C, 0x18, 0x18, 0x00, 0x18, 0x00]),
    (0x22, [0x66, 0x66, 0x66, 0x00, 0x00, 0x00, 0x00, 0x00]),
    (0x23, [0x66, 0x66, 0xFF, 0x66, 0xFF, 0x66, 0x66, 0x00]),
    (0x24, [0x18, 0x7E, 0x60, 0x3C, 0x06, 0x7E, 0x18, 0x00]),
    (0x25, [0xC6, 0xC6, 0x0C, 0x18, 0x30, 0x63, 0x63, 0x00]),
    (0x26, [0x38, 0x6C, 0x38, 0x76, 0xDC, 0xCC, 0x76, 0x00]),
    (0x27, [0x18, 0x18, 0x30, 0x00, 0x00, 0x00, 0x00, 0x00]),
    (0x28, [0x0C, 0x18, 0x30, 0x30, 0x30, 0x18, 0x0C, 0x00]),
    (0x29, [0x30, 0x18, 0x0C, 0x0C, 0x0C, 0x18, 0x30, 0x00]),
    (0x2A, [0x00, 0x66, 0x3C, 0xFF, 0x3C, 0x66, 0x00, 0x00]),
    (0x2B, [0x00, 0x18, 0x18, 0x7E, 0x18, 0x18, 0x00, 0x00]),
    (0x2C, [0x00, 0x00, 0x00, 0x00, 0x18, 0x18, 0x30, 0x00]),
    (0x2D, [0x00, 0x00, 0x00, 0x7E, 0x00, 0x00, 0x00, 0x00]),
    (0x2E, [0x00, 0x00, 0x00, 0x00, 0x00, 0x18, 0x18, 0x00]),
    (0x2F, [0x06, 0x0C, 0x18, 0x30, 0x60, 0xC0, 0x80, 0x00]),
    (0x3A, [0x00, 0x18, 0x18, 0x00, 0x00, 0x18, 0x18, 0x00]),
    (0x3B, [0x00, 0x18, 0x18, 0x00, 0x18, 0x18, 0x30, 0x00]),
    (0x3C, [0x0C, 0x18, 0x30, 0x60, 0x30, 0x18, 0x0C, 0x00]),
    (0x3D, [0x00, 0x00, 0x7E, 0x00, 0x7E, 0x00, 0x00, 0x00]),
    (0x3E, [0x30, 0x18, 0x0C, 0x06, 0x0C, 0x18, 0x30, 0x00]),
    (0x3F, [0x3C, 0x66, 0x06, 0x0C, 0x18, 0x00, 0x18, 0x00]),
    (0x30, [0x3C, 0x66, 0x6E, 0x76, 0x66, 0x66, 0x3C, 0x00]),
    (0x31, [0x18, 0x38, 0x18, 0x18, 0x18, 0x18, 0x7E, 0x00]),
    (0x32, [0x3C, 0x66, 0x06, 0x0C, 0x18, 0x30, 0x7E, 0x00]),
    (0x33, [0x3C, 0x66, 0x06, 0x1C, 0x06, 0x66, 0x3C, 0x00]),
    (0x34, [0x06, 0x0E, 0x1E, 0x36, 0x7E, 0x06, 0x06, 0x00]),
    (0x35, [0x7E, 0x60, 0x7C, 0x06, 0x06, 0x66, 0x3C, 0x00]),
    (0x36, [0x1C, 0x30, 0x60, 0x7C, 0x66, 0x66, 0x3C, 0x00]),
    (0x37, [0x7E, 0x06, 0x0C, 0x18, 0x30, 0x30, 0x30, 0x00]),
    (0x38, [0x3C, 0x66, 0x66, 0x3C, 0x66, 0x66, 0x3C, 0x00]),
    (0x39, [0x3C, 0x66, 0x66, 0x3E, 0x06, 0x0C, 0x38, 0x00]),
    (0x41, [0x18, 0x3C, 0x66, 0x66, 0x7E, 0x66, 0x66, 0x00]),
    (0x42, [0x7C, 0x66, 0x66, 0x7C, 0x66, 0x66, 0x7C, 0x00]),
    (0x43, [0x3C, 0x66, 0x60, 0x60, 0x60, 0x66, 0x3C, 0x00]),
    (0x44, [0x78, 0x6C, 0x66, 0x66, 0x66, 0x6C, 0x78, 0x00]),
    (0x45, [0x7E, 0x60, 0x60, 0x78, 0x60, 0x60, 0x7E, 0x00]),
    (0x46, [0x7E, 0x60, 0x60, 0x78, 0x60, 0x60, 0x60, 0x00]),
    (0x47, [0x3C, 0x66, 0x60, 0x6E, 0x66, 0x66, 0x3C, 0x00]),
    (0x48, [0x66, 0x66, 0x66, 0x7E, 0x66, 0x66, 0x66, 0x00]),
    (0x49, [0x3C, 0x18, 0x18, 0x18, 0x18, 0x18, 0x3C, 0x00]),
    (0x4A, [0x1E, 0x06, 0x06, 0x06, 0x06, 0x66, 0x3C, 0x00]),
    (0x4B, [0x66, 0x6C, 0x78, 0x70, 0x78, 0x6C, 0x66, 0x00]),
    (0x4C, [0x60, 0x60, 0x60, 0x60, 0x60, 0x60, 0x7E, 0x00]),
    (0x4D, [0x66, 0xFF, 0xFF, 0xDB, 0xDB, 0xC3, 0xC3, 0x00]),
    (0x4E, [0x66, 0x66, 0x76, 0x7E, 0x7E, 0x6E, 0x66, 0x00]),
    (0x4F, [0x3C, 0x66, 0x66, 0x66, 0x66, 0x66, 0x3C, 0x00]),
    (0x50, [0x7C, 0x66, 0x66, 0x7C, 0x60, 0x60, 0x60, 0x00]),
    (0x51, [0x3C, 0x66, 0x66, 0x66, 0x6E, 0x3C, 0x0E, 0x00]),
    (0x52, [0x7C, 0x66, 0x66, 0x7C, 0x78, 0x6C, 0x66, 0x00]),
    (0x53, [0x3C, 0x66, 0x30, 0x1C, 0x06, 0x66, 0x3C, 0x00]),
    (0x54, [0x7E, 0x18, 0x18, 0x18, 0x18, 0x18, 0x18, 0x00]),
    (0x55, [0x66, 0x66, 0x66, 0x66, 0x66, 0x66, 0x3C, 0x00]),
    (0x56, [0x66, 0x66, 0x66, 0x66, 0x66, 0x3C, 0x18, 0x00]),
    (0x57, [0xC3, 0xC3, 0xDB, 0xDB, 0xFF, 0xFF, 0x66, 0x00]),
    (0x58, [0x66, 0x66, 0x3C, 0x18, 0x3C, 0x66, 0x66, 0x00]),
    (0x59, [0x66, 0x66, 0x66, 0x3C, 0x18, 0x18, 0x18, 0x00]),
    (0x5A, [0x7E, 0x06, 0x0C, 0x18, 0x30, 0x60, 0x7E, 0x00]),
    (0x5B, [0x3C, 0x30, 0x30, 0x30, 0x30, 0x30, 0x3C, 0x00]),
    (0x5C, [0x80, 0x40, 0x20, 0x10, 0x08, 0x04, 0x02, 0x00]),
    (0x5D, [0x3C, 0x0C, 0x0C, 0x0C, 0x0C, 0x0C, 0x3C, 0x00]),
    (0x5E, [0x18, 0x3C, 0x66, 0x00, 0x00, 0x00, 0x00, 0x00]),
    (0x5F, [0x00, 0x00, 0x00, 0x00, 0x00, 0x00, 0x00, 0xFF]),
    (0x61, [0x00, 0x00, 0x3C, 0x06, 0x3E, 0x66, 0x3E, 0x00]),
    (0x62, [0x60, 0x60, 0x7C, 0x66, 0x66, 0x66, 0x7C, 0x00]),
    (0x63, [0x00, 0x00, 0x3C, 0x60, 0x60, 0x66, 0x3C, 0x00]),
    (0x64, [0x06, 0x06, 0x3E, 0x66, 0x66, 0x66, 0x3E, 0x00]),
    (0x65, [0x00, 0x00, 0x3C, 0x66, 0x7E, 0x60, 0x3C, 0x00]),
    (0x66, [0x1C, 0x30, 0x7C, 0x30, 0x30, 0x30, 0x30, 0x00]),
    (0x67, [0x00, 0x00, 0x3E, 0x66, 0x66, 0x3E, 0x06, 0x3C]),
    (0x68, [0x60, 0x60, 0x7C, 0x66, 0x66, 0x66, 0x66, 0x00]),
    (0x69, [0x18, 0x00, 0x38, 0x18, 0x18, 0x18, 0x3C, 0x00]),
    (0x6A, [0x0C, 0x00, 0x0C, 0x0C, 0x0C, 0x0C, 0x6C, 0x38]),
    (0x6B, [0x60, 0x60, 0x66, 0x6C, 0x78, 0x6C, 0x66, 0x00]),
    (0x6C, [0x1C, 0x08, 0x08, 0x08, 0x08, 0x08, 0x1C, 0x00]),
    (0x6D, [0x00, 0x00, 0x66, 0xFF, 0xDB, 0xDB, 0xC3, 0x00]),
    (0x6E, [0x00, 0x00, 0x7C, 0x66, 0x66, 0x66, 0x66, 0x00]),
    (0x6F, [0x00, 0x00, 0x3C, 0x66, 0x66, 0x66, 0x3C, 0x00]),
    (0x70, [0x00, 0x00, 0x7C, 0x66, 0x66, 0x7C, 0x60, 0x60]),
    (0x71, [0x00, 0x00, 0x3E, 0x66, 0x66, 0x3E, 0x06, 0x06]),
    (0x72, [0x00, 0x00, 0x36, 0x3C, 0x30, 0x30, 0x30, 0x00]),
    (0x73, [0x00, 0x00, 0x3C, 0x60, 0x3C, 0x06, 0x3C, 0x00]),
    (0x74, [0x10, 0x10, 0x7C, 0x10, 0x10, 0x10, 0x0E, 0x00]),
    (0x75, [0x00, 0x00, 0x66, 0x66, 0x66, 0x66, 0x3E, 0x00]),
    (0x76, [0x00, 0x00, 0x66, 0x66, 0x66, 0x3C, 0x18, 0x00]),
    (0x77, [0x00, 0x00, 0xC3, 0xDB, 0xDB, 0xFF, 0x66, 0x00]),
    (0x78, [0x00, 0x00, 0x66, 0x3C, 0x18, 0x3C, 0x66, 0x00]),
    (0x79, [0x00, 0x00, 0x66, 0x66, 0x66, 0x3E, 0x06, 0x3C]),
    (0x7A, [0x00, 0x00, 0x7E, 0x0C, 0x18, 0x30, 0x7E, 0x00]),
    (0x7B, [0x0E, 0x18, 0x18, 0x70, 0x18, 0x18, 0x0E, 0x00]),
    (0x7C, [0x18, 0x18, 0x18, 0x18, 0x18, 0x18, 0x18, 0x00]),
    (0x7D, [0x70, 0x18, 0x18, 0x0E, 0x18, 0x18, 0x70, 0x00]),
    (0x7E, [0x76, 0xDC, 0x00, 0x00, 0x00, 0x00, 0x00, 0x00])
  ]"

definition font8x8_basic :: "int \<Rightarrow> u8 list option" where
  "font8x8_basic i =
     (if 0 \<le> i \<and> i < 128
      then Some (case map_of font_table (word_of_int i) of None \<Rightarrow> replicate 8 0 | Some glyph \<Rightarrow> glyph)
      else None)"

lemma font_table_rows: "\<forall>(c, glyph) \<in> set font_table. length glyph = 8"
  by (simp add: font_table_def)

lemma glyph_length: "font8x8_basic i = Some glyph \<Longrightarrow> length glyph = 8"
  using font_table_rows by (auto simp: font8x8_basic_def split: if_splits option.splits dest: map_of_SomeD)

lemma sint_ascii: "c < 0x80 \<Longrightarrow> sint (c :: u8) = uint c"
proof -
  assume "c < 0x80"
  then have "uint c < 128" by (simp add: word_less_def)
  moreover from this have "\<not> bit (uint c) 7" by (simp add: bit_iff_odd uint_ge_0)
  ultimately show ?thesis by (simp add: sint_uint signed_take_bit_eq_if_positive bit_uint_iff take_bit_int_eq_self uint_ge_0)
qed

lemma font_total: "c < 0x80 \<Longrightarrow> \<exists>glyph. font8x8_basic (sint (c :: u8)) = Some glyph \<and> length glyph = 8"
proof -
  assume c: "c < 0x80"
  then have "uint c < 128" by (simp add: word_less_def)
  then obtain glyph where "font8x8_basic (sint c) = Some glyph"
    using sint_ascii [OF c] by (simp add: font8x8_basic_def uint_ge_0)
  then show ?thesis using glyph_length by blast
qed

text \<open>
  The printable characters that have no glyph: they are shown as blanks although the keyboard
  produces them.
\<close>

lemma font_missing:
  "map_of font_table c = None \<and> 0x20 \<le> c \<and> c \<le> 0x7E \<longleftrightarrow> c = 0x40 \<or> c = 0x60" for c :: u8
proof -
  have k: "map fst font_table = map of_nat ([32..<48] @ [58..<64] @ [48..<58] @ [65..<96] @ [97..<127])"
    by (simp add: font_table_def upt_rec)
  have "map_of font_table c = None \<longleftrightarrow> c \<notin> set (map fst font_table)" by (simp add: map_of_eq_None_iff)
  also have "\<dots> \<longleftrightarrow> unat c \<notin> {32..<64} \<union> {65..<96} \<union> {97..<127}"
  proof -
    have u: "unat (of_nat n :: u8) = n" if "n < 127" for n using that by (simp add: unat_of_nat take_bit_nat_eq_self)
    have i: "c \<in> of_nat ` N \<longleftrightarrow> unat c \<in> N" if "\<forall>n \<in> N. n < 127" for N
    proof -
      have "c = of_nat (unat c)" by simp
      then show ?thesis using u that by (metis (no_types, lifting) image_iff)
    qed
    have st: "set (map fst font_table) = of_nat ` ({32..<64} \<union> {65..<96} \<union> {97..<127})"
      unfolding k set_map set_append set_upt
      by (rule arg_cong [where f = "image of_nat"]) (auto simp only: atLeastLessThan_iff Un_iff)
    have "\<forall>n \<in> {32..<64} \<union> {65..<96} \<union> {97..<127}. n < (127 :: nat)" by (intro ballI) (elim UnE; simp)
    from i [OF this] show ?thesis unfolding st by (rule arg_cong [where f = Not])
  qed
  finally have f: "map_of font_table c = None \<longleftrightarrow> unat c \<notin> {32..<64} \<union> {65..<96} \<union> {97..<127}" .
  have u: "unat (0x20 :: u8) = 32" "unat (0x7E :: u8) = 126" "unat (0x40 :: u8) = 64" "unat (0x60 :: u8) = 96" by simp_all
  show ?thesis unfolding f word_le_nat_alt word_unat_eq_iff Un_iff atLeastLessThan_iff u by linarith
qed

end
