(* ===== verification/Terminal.thy ===== *)
theory Terminal
  imports Cstdlib Font
begin

text \<open>
  \<^verbatim>\<open>kernel/terminal.c\<close>: characters drawn into the framebuffer, and \<^verbatim>\<open>printf\<close>. The framebuffer is a
  part of the byte memory as the kernel addresses it; the description of the video mode is a record.
  \<^verbatim>\<open>int\<close> coordinates come from and go back to 32-bit words, so all address arithmetic is modulo
  \<open>2 ^ 32\<close>. A character whose glyph would be read outside of the font makes the result \<^term>\<open>None\<close>.
\<close>

section \<open>State\<close>

text \<open>\<^verbatim>\<open>include/vbe.h\<close>\<close>

record vbe_mode_info =
  v_attributes :: u16
  v_window_a :: u8
  v_window_b :: u8
  v_granularity :: u16
  v_window_size :: u16
  v_segment_a :: u16
  v_segment_b :: u16
  v_win_func_ptr :: u32
  v_pitch :: u16
  v_width :: u16
  v_height :: u16
  v_w_char :: u8
  v_y_char :: u8
  v_planes :: u8
  v_bpp :: u8
  v_banks :: u8
  v_memory_model :: u8
  v_bank_size :: u8
  v_image_pages :: u8
  v_reserved0 :: u8
  v_red_mask :: u8
  v_red_position :: u8
  v_green_mask :: u8
  v_green_position :: u8
  v_blue_mask :: u8
  v_blue_position :: u8
  v_reserved_mask :: u8
  v_reserved_position :: u8
  v_direct_color_attributes :: u8
  v_framebuffer :: u32
  v_off_screen_mem_off :: u32
  v_off_screen_mem_size :: u16
  v_reserved1 :: "u8 list"

record term_sys =
  terminal_vbe :: vbe_mode_info
  terminal_row :: u32
  terminal_column :: u32
  terminal_color :: u32
  vmem :: mem

section \<open>Pixels\<close>

definition bytes_pp :: "vbe_mode_info \<Rightarrow> u32" where
  "bytes_pp vbe = ucast (v_bpp vbe div 8)"

definition put_pixel :: "u32 \<Rightarrow> u32 \<Rightarrow> u32 \<Rightarrow> 'a term_sys_scheme \<Rightarrow> 'a term_sys_scheme" where
  "put_pixel x y color t =
     (let vbe = terminal_vbe t;
          pixel_ptr = v_framebuffer vbe + y * ucast (v_pitch vbe) + x * bytes_pp vbe
      in if v_bpp vbe = 32 then t\<lparr>vmem := store32 pixel_ptr color (vmem t)\<rparr>
         else if v_bpp vbe = 24 then
           let m = vmem t;
               m = m(pixel_ptr := ucast (color AND 0xFF));
               m = m(pixel_ptr + 1 := ucast (drop_bit 8 color AND 0xFF));
               m = m(pixel_ptr + 2 := ucast (drop_bit 16 color AND 0xFF))
           in t\<lparr>vmem := m\<rparr>
         else t)"

text \<open>One line of pixels set to zero, the body of the loops of \<^verbatim>\<open>terminal_clear\<close> and \<^verbatim>\<open>terminal_scroll\<close>.\<close>

definition clear_line :: "vbe_mode_info \<Rightarrow> u32 \<Rightarrow> mem \<Rightarrow> mem" where
  "clear_line vbe y m = memset (v_framebuffer vbe + y * ucast (v_pitch vbe)) 0 (ucast (v_width vbe) * bytes_pp vbe) m"

definition clear_lines :: "vbe_mode_info \<Rightarrow> nat \<Rightarrow> nat \<Rightarrow> mem \<Rightarrow> mem" where
  "clear_lines vbe y0 y1 m = fold (\<lambda>y. clear_line vbe (of_nat y)) [y0..<y1] m"

definition terminal_clear :: "'a term_sys_scheme \<Rightarrow> 'a term_sys_scheme" where
  "terminal_clear t = t\<lparr>vmem := clear_lines (terminal_vbe t) 0 (unat (v_height (terminal_vbe t))) (vmem t)\<rparr>"

definition terminal_initialize :: "vbe_mode_info \<Rightarrow> 'a term_sys_scheme \<Rightarrow> 'a term_sys_scheme" where
  "terminal_initialize vbe t =
     terminal_clear (t\<lparr>terminal_vbe := vbe, terminal_row := 0, terminal_column := 0, terminal_color := 0x00FFFFFF\<rparr>)"

definition terminal_set_color :: "u32 \<Rightarrow> 'a term_sys_scheme \<Rightarrow> 'a term_sys_scheme" where
  "terminal_set_color color t = t\<lparr>terminal_color := color\<rparr>"

definition terminal_scroll :: "'a term_sys_scheme \<Rightarrow> 'a term_sys_scheme" where
  "terminal_scroll t =
     (let row_height = 10;
          vbe = terminal_vbe t;
          fb = v_framebuffer vbe;
          pitch = ucast (v_pitch vbe);
          screen_height = ucast (v_height vbe);
          m = memcpy fb (fb + row_height * pitch) ((screen_height - row_height) * pitch) (vmem t);
          m = clear_lines vbe (unat (screen_height - row_height)) (unat screen_height) m
      in t\<lparr>vmem := m, terminal_row := terminal_row t - row_height\<rparr>)"

section \<open>Characters\<close>

definition new_line :: "'a term_sys_scheme \<Rightarrow> 'a term_sys_scheme" where
  "new_line t =
     (let t = t\<lparr>terminal_column := 0, terminal_row := terminal_row t + 10\<rparr>
      in if terminal_row t \<ge> ucast (v_height (terminal_vbe t)) - 10 then terminal_scroll t else t)"

definition draw_glyph :: "u8 list \<Rightarrow> 'a term_sys_scheme \<Rightarrow> 'a term_sys_scheme" where
  "draw_glyph glyph t =
     fold (\<lambda>i. fold (\<lambda>j t. if (glyph ! i) AND drop_bit j 0x80 \<noteq> 0
         then put_pixel (terminal_column t + of_nat j) (terminal_row t + of_nat i) (terminal_color t) t else t) [0..<8])
       [0..<8] t"

definition terminal_putchar :: "u8 \<Rightarrow> 'a term_sys_scheme \<Rightarrow> 'a term_sys_scheme option" where
  "terminal_putchar c t =
     (if c = 0x0A then Some (new_line t)
      else case font8x8_basic (sint c) of
        None \<Rightarrow> None
      | Some glyph \<Rightarrow>
          let t = draw_glyph glyph t;
              t = t\<lparr>terminal_column := terminal_column t + 8\<rparr>
          in Some (if terminal_column t \<ge> ucast (v_width (terminal_vbe t)) - 8 then new_line t else t))"

fun terminal_write_loop :: "nat \<Rightarrow> u32 \<Rightarrow> 'a term_sys_scheme \<Rightarrow> 'a term_sys_scheme option" where
  "terminal_write_loop 0 data t = Some t"
| "terminal_write_loop (Suc n) data t =
     (case terminal_putchar (vmem t data) t of None \<Rightarrow> None | Some t \<Rightarrow> terminal_write_loop n (data + 1) t)"

definition terminal_write :: "u32 \<Rightarrow> u32 \<Rightarrow> 'a term_sys_scheme \<Rightarrow> 'a term_sys_scheme option" where
  "terminal_write data sz t = terminal_write_loop (unat sz) data t"

partial_function (option) terminal_writestring :: "u32 \<Rightarrow> 'a term_sys_scheme \<Rightarrow> 'a term_sys_scheme option" where
  "terminal_writestring data t =
     (if vmem t data \<noteq> 0 then
        case terminal_putchar (vmem t data) t of None \<Rightarrow> None | Some t \<Rightarrow> terminal_writestring (data + 1) t
      else Some t)"


text \<open>\<^verbatim>\<open>terminal_writestring\<close> of a string literal, given by its characters.\<close>

primrec terminal_puts :: "u8 list \<Rightarrow> 'a term_sys_scheme \<Rightarrow> 'a term_sys_scheme option" where
  "terminal_puts [] t = Some t"
| "terminal_puts (c # cs) t = (case terminal_putchar c t of None \<Rightarrow> None | Some t \<Rightarrow> terminal_puts cs t)"

definition hex_chars :: "u8 list" where
  "hex_chars = [0x30, 0x31, 0x32, 0x33, 0x34, 0x35, 0x36, 0x37, 0x38, 0x39, 0x41, 0x42, 0x43, 0x44, 0x45, 0x46]"

text \<open>\<open>buffer\<close> is the address of the local array of the function.\<close>

definition terminal_writehex :: "u32 \<Rightarrow> u32 \<Rightarrow> 'a term_sys_scheme \<Rightarrow> 'a term_sys_scheme option" where
  "terminal_writehex buffer n t =
     (let m = vmem t;
          m = m(buffer := 0x30);
          m = m(buffer + 1 := 0x78);
          m = fold (\<lambda>i m. m(buffer + 9 - of_nat i := hex_chars ! unat (drop_bit (i * 4) n AND 0xF))) [0..<8] m;
          m = m(buffer + 10 := 0)
      in terminal_writestring buffer (t\<lparr>vmem := m\<rparr>))"

section \<open>\<^verbatim>\<open>printf\<close>\<close>

text \<open>
  The arguments are the 32-bit words behind the format; taking one more than there are has no
  defined value. \<open>printf_directive\<close> is the body of the loop behind a percent sign; \<open>buf\<close> is the
  address of the local arrays for the digits.
\<close>

definition printf_directive :: "u32 \<Rightarrow> u8 \<Rightarrow> u32 list \<Rightarrow> 'a term_sys_scheme \<Rightarrow> (u32 list \<times> 'a term_sys_scheme) option" where
  "printf_directive buf c args t =
     (if c = 0x73 then
        (case args of [] \<Rightarrow> None | s # args \<Rightarrow> map_option (Pair args) (terminal_writestring s t))
      else if c = 0x64 then
        (case args of [] \<Rightarrow> None | d # args \<Rightarrow>
           (case itoa d buf 10 (vmem t) of
              None \<Rightarrow> None
            | Some m \<Rightarrow> map_option (Pair args) (terminal_writestring buf (t\<lparr>vmem := m\<rparr>))))
      else if c = 0x78 then
        (case args of [] \<Rightarrow> None | x # args \<Rightarrow>
           (case itoa x buf 16 (vmem t) of
              None \<Rightarrow> None
            | Some m \<Rightarrow>
                (case terminal_puts [0x30, 0x78] (t\<lparr>vmem := m\<rparr>) of
                   None \<Rightarrow> None
                 | Some t \<Rightarrow> map_option (Pair args) (terminal_writestring buf t))))
      else if c = 0x63 then
        (case args of [] \<Rightarrow> None | a # args \<Rightarrow> map_option (Pair args) (terminal_putchar (ucast a) t))
      else if c = 0x25 then map_option (Pair args) (terminal_putchar 0x25 t)
      else Some (args, t))"

partial_function (option) printf_loop :: "u32 \<Rightarrow> u32 \<Rightarrow> u32 list \<Rightarrow> 'a term_sys_scheme \<Rightarrow> 'a term_sys_scheme option" where
  "printf_loop buf format args t =
     (if vmem t format \<noteq> 0 then
        if vmem t format = 0x25 then
          case printf_directive buf (vmem t (format + 1)) args t of
            None \<Rightarrow> None
          | Some (args, t) \<Rightarrow> printf_loop buf (format + 1 + 1) args t
        else case terminal_putchar (vmem t format) t of
            None \<Rightarrow> None
          | Some t \<Rightarrow> printf_loop buf (format + 1) args t
      else Some t)"

definition printf :: "u32 \<Rightarrow> u32 \<Rightarrow> u32 list \<Rightarrow> 'a term_sys_scheme \<Rightarrow> 'a term_sys_scheme option" where
  "printf buf format args t = printf_loop buf format args t"

section \<open>Operations that stay inside a region of memory\<close>

text \<open>
  \<open>within S f\<close>: \<open>f\<close> changes only bytes of \<open>S\<close>, and what it writes there depends on the bytes of \<open>S\<close> only.
\<close>

definition within :: "u32 set \<Rightarrow> (mem \<Rightarrow> mem) \<Rightarrow> bool" where
  "within S f \<longleftrightarrow> (\<forall>m. \<forall>a. a \<notin> S \<longrightarrow> f m a = m a) \<and>
     (\<forall>m m'. (\<forall>a \<in> S. m a = m' a) \<longrightarrow> (\<forall>a \<in> S. f m a = f m' a))"

lemma within_id: "within S (\<lambda>m. m)"
  by (simp add: within_def)

lemma within_comp: "within S f \<Longrightarrow> within S g \<Longrightarrow> within S (\<lambda>m. g (f m))"
  by (auto simp: within_def)

lemma within_fold: "(\<And>x. x \<in> set xs \<Longrightarrow> within S (g x)) \<Longrightarrow> within S (fold g xs)"
proof (induction xs)
  case Nil
  then show ?case by (simp add: within_def)
next
  case (Cons x xs)
  then have "within S (\<lambda>m. fold g xs (g x m))" by (intro within_comp [of S "g x" "fold g xs"]) simp_all
  then show ?case by (simp add: comp_def)
qed

lemma within_upd: "a \<in> S \<Longrightarrow> within S (\<lambda>m. m(a := v))"
  by (simp add: within_def)

lemma within_if: "(b \<Longrightarrow> within S f) \<Longrightarrow> (\<not> b \<Longrightarrow> within S g) \<Longrightarrow> within S (\<lambda>m. if b then f m else g m)"
  by (cases b) simp_all

lemma within_store32:
  assumes "a \<in> S" "a + 1 \<in> S" "a + 2 \<in> S" "a + 3 \<in> S"
  shows "within S (store32 a v)"
proof -
  have "within S (\<lambda>m. m(a := ucast v, a + 1 := ucast (drop_bit 8 v), a + 2 := ucast (drop_bit 16 v),
      a + 3 := ucast (drop_bit 24 v)))"
    by (intro within_comp [OF within_comp [OF within_comp [OF within_upd within_upd] within_upd] within_upd]) (use assms in auto)
  then show ?thesis by (simp add: store32_def [abs_def])
qed

lemma within_memset: "(\<And>a. a - p < n \<Longrightarrow> a \<in> S) \<Longrightarrow> within S (memset p v n)"
  by (auto simp: within_def memset_at)

lemma within_memcpy:
  assumes "n \<le> d - s \<or> d = s" and "\<And>a. a - d < n \<Longrightarrow> a \<in> S" and "\<And>a. a - s < n \<Longrightarrow> a \<in> S"
  shows "within S (memcpy d s n)"
proof -
  have at: "memcpy d s n m x = (if x - d < n then m (s + (x - d)) else m x)" for m x
    by (rule memcpy_at) (use assms(1) in blast)
  have "s + (x - d) \<in> S" if "x - d < n" for x by (rule assms(3)) (use that in simp)
  then show ?thesis using assms(2) by (auto simp: within_def at)
qed

section \<open>The framebuffer\<close>

definition vbe_ok :: "vbe_mode_info \<Rightarrow> bool" where
  "vbe_ok vbe \<longleftrightarrow> (v_bpp vbe = 24 \<or> v_bpp vbe = 32) \<and> unat (v_width vbe) * unat (v_bpp vbe div 8) \<le> unat (v_pitch vbe) \<and>
     10 < v_height vbe \<and> 8 < v_width vbe"

text \<open>The bytes from the start of the framebuffer on, as many as \<^verbatim>\<open>vmm_init\<close> maps.\<close>

definition framebuffer_area :: "vbe_mode_info \<Rightarrow> u32 set" where
  "framebuffer_area vbe = {a. unat (a - v_framebuffer vbe) < unat (v_height vbe) * unat (v_pitch vbe)}"

text \<open>The cursor leaves room for a glyph.\<close>

definition term_ok :: "'a term_sys_scheme \<Rightarrow> bool" where
  "term_ok t \<longleftrightarrow> vbe_ok (terminal_vbe t) \<and> unat (terminal_row t) < unat (v_height (terminal_vbe t)) - 10 \<and>
     unat (terminal_column t) < unat (v_width (terminal_vbe t)) - 8"

lemma unat_less_16: "unat (w :: u16) < 65536"
  using unsigned_less [of w] by simp

lemma area_size: "unat (v_height vbe) * unat (v_pitch vbe) < 2 ^ 32"
proof -
  have "unat (v_height vbe) * unat (v_pitch vbe) \<le> 65535 * 65535"
    using unat_less_16 [of "v_height vbe"] unat_less_16 [of "v_pitch vbe"] by (intro mult_le_mono) simp_all
  then show ?thesis by simp
qed

lemma area_offset:
  assumes "n < unat (v_height vbe) * unat (v_pitch vbe)"
  shows "v_framebuffer vbe + of_nat n \<in> framebuffer_area vbe"
  using assms area_size [of vbe] by (simp add: framebuffer_area_def unat_of_nat_32)

lemma bytes_pp_nat: "vbe_ok vbe \<Longrightarrow> unat (v_bpp vbe div 8) \<in> {3, 4}
    \<and> (unat (v_bpp vbe div 8) = 4 \<longleftrightarrow> v_bpp vbe = 32)"
  by (auto simp: vbe_ok_def)

text \<open>The address of a pixel as an offset.\<close>

lemma pixel_offset:
  assumes "vbe_ok vbe" "unat y < unat (v_height vbe)" "unat x < unat (v_width vbe)"
  defines "b \<equiv> unat (v_bpp vbe div 8)"
  defines "n \<equiv> unat y * unat (v_pitch vbe) + unat x * b"
  shows "v_framebuffer vbe + y * ucast (v_pitch vbe) + x * bytes_pp vbe = v_framebuffer vbe + of_nat n"
    and "n + b \<le> unat (v_height vbe) * unat (v_pitch vbe)"
proof -
  show "v_framebuffer vbe + y * ucast (v_pitch vbe) + x * bytes_pp vbe = v_framebuffer vbe + of_nat n"
    by (simp add: n_def b_def bytes_pp_def)
  have "unat x * b + b \<le> unat (v_width vbe) * b" using assms(3) mult_le_mono1 [of "Suc (unat x)" "unat (v_width vbe)" b] by simp
  also have "\<dots> \<le> unat (v_pitch vbe)" using assms(1) by (simp add: vbe_ok_def b_def)
  finally have "n + b \<le> Suc (unat y) * unat (v_pitch vbe)" by (simp add: n_def)
  also have "\<dots> \<le> unat (v_height vbe) * unat (v_pitch vbe)" using assms(2) by (intro mult_le_mono1) simp
  finally show "n + b \<le> unat (v_height vbe) * unat (v_pitch vbe)" .
qed

definition pixel_mem :: "vbe_mode_info \<Rightarrow> u32 \<Rightarrow> u32 \<Rightarrow> u32 \<Rightarrow> mem \<Rightarrow> mem" where
  "pixel_mem vbe x y color m =
     (let p = v_framebuffer vbe + y * ucast (v_pitch vbe) + x * bytes_pp vbe
      in if v_bpp vbe = 32 then store32 p color m
         else if v_bpp vbe = 24 then m(p := ucast (color AND 0xFF), p + 1 := ucast (drop_bit 8 color AND 0xFF),
           p + 2 := ucast (drop_bit 16 color AND 0xFF))
         else m)"

lemma put_pixel_mem: "put_pixel x y color t = t\<lparr>vmem := pixel_mem (terminal_vbe t) x y color (vmem t)\<rparr>"
  by (simp add: put_pixel_def pixel_mem_def Let_def)

lemma pixel_within:
  assumes "vbe_ok vbe" "unat y < unat (v_height vbe)" "unat x < unat (v_width vbe)"
  shows "within (framebuffer_area vbe) (pixel_mem vbe x y color)"
proof -
  let ?b = "unat (v_bpp vbe div 8)"
  let ?n = "unat y * unat (v_pitch vbe) + unat x * ?b"
  let ?p = "v_framebuffer vbe + y * ucast (v_pitch vbe) + x * bytes_pp vbe"
  note o = pixel_offset [OF assms]
  have b: "?b \<in> {3, 4}" "?b = 4 \<longleftrightarrow> v_bpp vbe = 32" using bytes_pp_nat [OF assms(1)] by auto
  have a: "?p + of_nat k \<in> framebuffer_area vbe" if "k < ?b" for k
    using area_offset [of "?n + k" vbe] o that by (simp add: add.assoc)
  have a3: "?p \<in> framebuffer_area vbe" "?p + 1 \<in> framebuffer_area vbe" "?p + 2 \<in> framebuffer_area vbe"
    using a [of 0] a [of 1] a [of 2] b(1) by auto
  show ?thesis
  proof (cases "v_bpp vbe = 32")
    case True
    then have "?p + 3 \<in> framebuffer_area vbe" using a [of 3] b by simp
    then show ?thesis using within_store32 [OF a3] True by (simp add: pixel_mem_def [abs_def])
  next
    case False
    then have "v_bpp vbe = 24" using assms(1) by (simp add: vbe_ok_def)
    moreover have "within (framebuffer_area vbe) (\<lambda>m. m(?p := u, ?p + 1 := v, ?p + 2 := w))" for u v w
      by (intro within_comp [OF within_comp [OF within_upd within_upd] within_upd] a3)
    ultimately show ?thesis by (simp add: pixel_mem_def [abs_def] Let_def)
  qed
qed


text \<open>A range of the framebuffer.\<close>

lemma area_range:
  assumes "n + unat len \<le> unat (v_height vbe) * unat (v_pitch vbe)" "a - (v_framebuffer vbe + of_nat n) < len"
  shows "a \<in> framebuffer_area vbe"
proof -
  let ?k = "unat (a - (v_framebuffer vbe + of_nat n))"
  have "?k < unat len" using assms(2) by (simp add: word_less_nat_alt)
  then have "v_framebuffer vbe + of_nat (n + ?k) \<in> framebuffer_area vbe" using assms(1) by (intro area_offset) simp
  moreover have "v_framebuffer vbe + of_nat (n + ?k) = a" by simp
  ultimately show ?thesis by simp
qed

lemma pitch_pos: "vbe_ok vbe \<Longrightarrow> 0 < unat (v_pitch vbe)"
proof -
  assume v: "vbe_ok vbe"
  have "0 < unat (v_width vbe)" using v by (simp add: vbe_ok_def word_less_nat_alt)
  moreover have "0 < unat (v_bpp vbe div 8)" using bytes_pp_nat [OF v] by auto
  ultimately have "0 < unat (v_width vbe) * unat (v_bpp vbe div 8)" by simp
  then show ?thesis using v unfolding vbe_ok_def by linarith
qed

lemma line_bytes: "vbe_ok vbe \<Longrightarrow> unat (ucast (v_width vbe) * bytes_pp vbe) \<le> unat (v_pitch vbe)"
proof -
  assume v: "vbe_ok vbe"
  have "ucast (v_width vbe) * bytes_pp vbe = of_nat (unat (v_width vbe) * unat (v_bpp vbe div 8))"
    by (simp add: bytes_pp_def)
  then have "unat (ucast (v_width vbe) * bytes_pp vbe) \<le> unat (v_width vbe) * unat (v_bpp vbe div 8)"
    by (simp only: unat_of_nat_le)
  then show ?thesis using v unfolding vbe_ok_def by linarith
qed

lemma line_end: "y < h \<Longrightarrow> k \<le> q \<Longrightarrow> y * q + k \<le> h * q" for y h k q :: nat
  using mult_le_mono1 [of "Suc y" h q] by simp

lemma clear_line_within:
  assumes v: "vbe_ok vbe" and y: "y < unat (v_height vbe)"
  shows "within (framebuffer_area vbe) (clear_line vbe (of_nat y))"
proof -
  let ?n = "y * unat (v_pitch vbe)" and ?len = "ucast (v_width vbe) * bytes_pp vbe"
  have "?n + unat ?len \<le> unat (v_height vbe) * unat (v_pitch vbe)" by (rule line_end [OF y line_bytes [OF v]])
  from area_range [OF this] have "within (framebuffer_area vbe) (memset (v_framebuffer vbe + of_nat ?n) 0 ?len)"
    by (rule within_memset)
  moreover have "v_framebuffer vbe + of_nat y * ucast (v_pitch vbe) = v_framebuffer vbe + of_nat ?n" by simp
  ultimately show ?thesis by (simp only: clear_line_def [abs_def])
qed

lemma clear_lines_within:
  "vbe_ok vbe \<Longrightarrow> y1 \<le> unat (v_height vbe) \<Longrightarrow> within (framebuffer_area vbe) (clear_lines vbe y0 y1)"
  unfolding clear_lines_def [abs_def] by (intro within_fold clear_line_within) simp_all

definition scroll_mem :: "vbe_mode_info \<Rightarrow> mem \<Rightarrow> mem" where
  "scroll_mem vbe m = clear_lines vbe (unat (ucast (v_height vbe) - 10 :: u32)) (unat (v_height vbe))
     (memcpy (v_framebuffer vbe) (v_framebuffer vbe + 10 * ucast (v_pitch vbe)) ((ucast (v_height vbe) - 10) * ucast (v_pitch vbe)) m)"

lemma unat_u32_u16 [simp]: "unat (ucast (h :: u16) :: u32) = unat h"
proof -
  have "unat h mod 2 ^ 32 = unat h" by (rule mod_less) (use unat_less_16 [of h] in simp)
  then show ?thesis by (simp add: unsigned_ucast_eq take_bit_eq_mod)
qed

lemma terminal_scroll_mem:
  "terminal_scroll t = t\<lparr>vmem := scroll_mem (terminal_vbe t) (vmem t), terminal_row := terminal_row t - 10\<rparr>"
  by (simp add: terminal_scroll_def scroll_mem_def Let_def)

lemma height_minus_10: "10 < h \<Longrightarrow> unat (ucast (h :: u16) - 10 :: u32) = unat h - 10"
proof -
  assume "10 < h"
  then have "(10 :: u32) \<le> ucast h" by (simp add: word_le_nat_alt word_less_nat_alt)
  from unat_sub [OF this] show ?thesis by simp
qed

lemma width_minus_8: "8 < w \<Longrightarrow> unat (ucast (w :: u16) - 8 :: u32) = unat w - 8"
proof -
  assume "8 < w"
  then have "(8 :: u32) \<le> ucast w" by (simp add: word_le_nat_alt word_less_nat_alt)
  from unat_sub [OF this] show ?thesis by simp
qed

lemma scroll_copy:
  assumes v: "vbe_ok vbe"
  defines "len \<equiv> (ucast (v_height vbe) - 10) * (ucast (v_pitch vbe) :: u32)"
  shows "unat len = (unat (v_height vbe) - 10) * unat (v_pitch vbe)"
    and "len \<le> v_framebuffer vbe - (v_framebuffer vbe + 10 * ucast (v_pitch vbe))"
proof -
  let ?P = "unat (v_pitch vbe)" and ?h = "unat (v_height vbe)"
  have h: "10 < v_height vbe" "10 < ?h" using v by (simp_all add: vbe_ok_def word_less_nat_alt)
  have hp: "(?h - 10) * ?P + 10 * ?P = ?h * ?P" using h(2) by (simp flip: add_mult_distrib)
  have "(ucast (v_height vbe) - 10 :: u32) = of_nat (unat (ucast (v_height vbe) - 10 :: u32))" by simp
  also have "\<dots> = of_nat (?h - 10)" by (simp only: height_minus_10 [OF h(1)])
  finally have len: "len = of_nat ((?h - 10) * ?P)" by (simp add: len_def)
  have "(?h - 10) * ?P < 2 ^ 32" using area_size [of vbe] hp by linarith
  then show l: "unat len = (?h - 10) * ?P" unfolding len by (rule unat_of_nat_32)
  have p: "0 < ?P" by (rule pitch_pos [OF v])
  have "unat (10 * ucast (v_pitch vbe) :: u32) = 10 * ?P"
  proof -
    have e: "(10 * ucast (v_pitch vbe) :: u32) = of_nat (10 * ?P)" by simp
    have "10 * ?P < 2 ^ 32" using unat_less_16 [of "v_pitch vbe"] by simp
    then show ?thesis unfolding e by (rule unat_of_nat_32)
  qed
  then have "unat (- (10 * ucast (v_pitch vbe)) :: u32) = 2 ^ 32 - 10 * ?P"
    using p unat_sub_if' [of 0 "10 * ucast (v_pitch vbe) :: u32"] by (simp add: word_le_nat_alt)
  then show "len \<le> v_framebuffer vbe - (v_framebuffer vbe + 10 * ucast (v_pitch vbe))"
    using l hp area_size [of vbe] by (simp add: word_le_nat_alt)
qed

lemma scroll_within:
  assumes v: "vbe_ok vbe"
  shows "within (framebuffer_area vbe) (scroll_mem vbe)"
proof -
  let ?P = "unat (v_pitch vbe)" and ?h = "unat (v_height vbe)" and ?fb = "v_framebuffer vbe"
  let ?len = "(ucast (v_height vbe) - 10) * (ucast (v_pitch vbe) :: u32)"
  have hp: "(?h - 10) * ?P + 10 * ?P = ?h * ?P" using v by (simp add: vbe_ok_def word_less_nat_alt flip: add_mult_distrib)
  note c = scroll_copy [OF v]
  have "within (framebuffer_area vbe) (memcpy ?fb (?fb + 10 * ucast (v_pitch vbe)) ?len)"
  proof (rule within_memcpy)
    show "?len \<le> ?fb - (?fb + 10 * ucast (v_pitch vbe)) \<or> ?fb = ?fb + 10 * ucast (v_pitch vbe)" using c(2) by blast
    show "a \<in> framebuffer_area vbe" if "a - ?fb < ?len" for a
      using area_range [of 0 ?len vbe a] that c(1) hp by simp
    show "a \<in> framebuffer_area vbe" if "a - (?fb + 10 * ucast (v_pitch vbe)) < ?len" for a
      using area_range [of "10 * ?P" ?len vbe a] that c(1) hp by simp
  qed
  moreover have "within (framebuffer_area vbe) (clear_lines vbe (unat (ucast (v_height vbe) - 10 :: u32)) ?h)"
    by (rule clear_lines_within [OF v]) simp
  ultimately show ?thesis unfolding scroll_mem_def [abs_def] by (rule within_comp)
qed


section \<open>Characters as effects\<close>

lemma fold_vmem:
  "(\<And>x m. x \<in> set xs \<Longrightarrow> g x (t\<lparr>vmem := m\<rparr>) = t\<lparr>vmem := h x m\<rparr>) \<Longrightarrow>
     fold g xs (t\<lparr>vmem := m\<rparr>) = t\<lparr>vmem := fold h xs m\<rparr>"
  by (induction xs arbitrary: m) simp_all

definition glyph_mem :: "vbe_mode_info \<Rightarrow> u32 \<Rightarrow> u32 \<Rightarrow> u32 \<Rightarrow> u8 list \<Rightarrow> mem \<Rightarrow> mem" where
  "glyph_mem vbe row col color glyph = fold (\<lambda>i. fold (\<lambda>j m. if (glyph ! i) AND drop_bit j 0x80 \<noteq> 0
     then pixel_mem vbe (col + of_nat j) (row + of_nat i) color m else m) [0..<8]) [0..<8]"

lemma draw_glyph_mem:
  "draw_glyph glyph t = t\<lparr>vmem := glyph_mem (terminal_vbe t) (terminal_row t) (terminal_column t) (terminal_color t) glyph (vmem t)\<rparr>"
proof -
  have "draw_glyph glyph (t\<lparr>vmem := vmem t\<rparr>) = t\<lparr>vmem := glyph_mem (terminal_vbe t) (terminal_row t) (terminal_column t) (terminal_color t) glyph (vmem t)\<rparr>"
    unfolding draw_glyph_def glyph_mem_def by (intro fold_vmem) (simp add: put_pixel_mem)
  then show ?thesis by simp
qed

lemma glyph_within:
  assumes v: "vbe_ok vbe" and r: "unat row + 8 \<le> unat (v_height vbe)" and c: "unat col + 8 \<le> unat (v_width vbe)"
  shows "within (framebuffer_area vbe) (glyph_mem vbe row col color glyph)"
  unfolding glyph_mem_def
proof (intro within_fold within_if within_id)
  fix i j assume ij: "i \<in> set [0..<8]" "j \<in> set [0..<8]"
  have "unat (row + of_nat i) = unat row + i"
    by (rule unat_add_of_nat) (use ij(1) r unat_less_16 [of "v_height vbe"] in simp)
  moreover have "unat (col + of_nat j) = unat col + j"
    by (rule unat_add_of_nat) (use ij(2) c unat_less_16 [of "v_width vbe"] in simp)
  ultimately show "within (framebuffer_area vbe) (pixel_mem vbe (col + of_nat j) (row + of_nat i) color)"
    using ij r c by (intro pixel_within [OF v]) simp_all
qed

text \<open>What a character does: to the framebuffer, and to the cursor.\<close>

definition line_effect :: "vbe_mode_info \<Rightarrow> u32 \<Rightarrow> (mem \<Rightarrow> mem) \<times> u32" where
  "line_effect vbe row = (if row + 10 \<ge> ucast (v_height vbe) - 10 then (scroll_mem vbe, row) else (\<lambda>m. m, row + 10))"

definition put_effect :: "vbe_mode_info \<Rightarrow> u32 \<Rightarrow> u32 \<Rightarrow> u32 \<Rightarrow> u8 \<Rightarrow> (mem \<Rightarrow> mem) \<times> u32 \<times> u32" where
  "put_effect vbe color row col c =
     (if c = 0x0A then (fst (line_effect vbe row), snd (line_effect vbe row), 0)
      else let g = glyph_mem vbe row col color (the (font8x8_basic (sint c)))
        in if col + 8 \<ge> ucast (v_width vbe) - 8 then (\<lambda>m. fst (line_effect vbe row) (g m), snd (line_effect vbe row), 0)
           else (g, row, col + 8))"

lemma new_line_effect:
  "new_line t = t\<lparr>vmem := fst (line_effect (terminal_vbe t) (terminal_row t)) (vmem t),
     terminal_row := snd (line_effect (terminal_vbe t) (terminal_row t)), terminal_column := 0\<rparr>"
  by (simp add: new_line_def line_effect_def terminal_scroll_mem Let_def)

definition apply_effect :: "(mem \<Rightarrow> mem) \<times> u32 \<times> u32 \<Rightarrow> 'a term_sys_scheme \<Rightarrow> 'a term_sys_scheme" where
  "apply_effect = (\<lambda>(f, row, col) t. t\<lparr>vmem := f (vmem t), terminal_row := row, terminal_column := col\<rparr>)"

lemma terminal_putchar_effect:
  assumes "c < 0x80"
  shows "terminal_putchar c t =
    Some (apply_effect (put_effect (terminal_vbe t) (terminal_color t) (terminal_row t) (terminal_column t) c) t)"
proof -
  obtain glyph where "font8x8_basic (sint c) = Some glyph" using font_total [OF assms] by blast
  then show ?thesis
    by (simp add: terminal_putchar_def put_effect_def apply_effect_def new_line_effect draw_glyph_mem Let_def)
qed

lemma line_effect_ok:
  assumes "vbe_ok vbe" "unat row < unat (v_height vbe) - 10"
  shows "within (framebuffer_area vbe) (fst (line_effect vbe row)) \<and> unat (snd (line_effect vbe row)) < unat (v_height vbe) - 10"
proof -
  have h: "10 < v_height vbe" using assms(1) by (simp add: vbe_ok_def)
  have u: "unat (row + 10) = unat row + 10"
    using unat_add_of_nat [of row 10] assms(2) unat_less_16 [of "v_height vbe"] by simp
  show ?thesis using assms scroll_within [OF assms(1)] u height_minus_10 [OF h]
    by (simp add: line_effect_def within_id word_le_nat_alt)
qed

lemma put_effect_ok:
  assumes v: "vbe_ok vbe" and r: "unat row < unat (v_height vbe) - 10" and c: "unat col < unat (v_width vbe) - 8"
    and e: "put_effect vbe color row col ch = (f, row', col')"
  shows "within (framebuffer_area vbe) f \<and> unat row' < unat (v_height vbe) - 10 \<and> unat col' < unat (v_width vbe) - 8"
proof -
  have w: "8 < v_width vbe" using v by (simp add: vbe_ok_def)
  then have w0: "0 < unat (v_width vbe) - 8" by (simp add: word_less_nat_alt)
  have u: "unat (col + 8) = unat col + 8"
    using unat_add_of_nat [of col 8] c unat_less_16 [of "v_width vbe"] by simp
  note l = line_effect_ok [OF v r]
  have g: "within (framebuffer_area vbe) (glyph_mem vbe row col color glyph)" for glyph
    by (rule glyph_within [OF v]) (use r c in simp_all)
  note lg = within_comp [OF g conjunct1 [OF l]]
  show ?thesis
  proof (cases "ch = 0x0A \<or> col + 8 \<ge> ucast (v_width vbe) - 8")
    case True
    then show ?thesis using e l lg w0 r by (auto simp: put_effect_def Let_def split: if_splits)
  next
    case False
    then have "unat (col + 8) < unat (v_width vbe) - 8" using width_minus_8 [OF w] by (simp add: word_le_nat_alt)
    then show ?thesis using False e g r by (auto simp: put_effect_def Let_def)
  qed
qed

section \<open>The same picture\<close>

definition same_screen :: "'a term_sys_scheme \<Rightarrow> 'a term_sys_scheme \<Rightarrow> bool" where
  "same_screen t t' \<longleftrightarrow> terminal_vbe t' = terminal_vbe t \<and> terminal_row t' = terminal_row t \<and>
     terminal_column t' = terminal_column t \<and> terminal_color t' = terminal_color t \<and>
     (\<forall>a \<in> framebuffer_area (terminal_vbe t). vmem t' a = vmem t a)"

lemma putchar_ok:
  assumes "term_ok t" "c < 0x80"
  shows "\<exists>t'. terminal_putchar c t = Some t' \<and> term_ok t' \<and> terminal_vbe t' = terminal_vbe t \<and>
    (\<forall>a. a \<notin> framebuffer_area (terminal_vbe t) \<longrightarrow> vmem t' a = vmem t a)"
proof -
  obtain f row col where e: "put_effect (terminal_vbe t) (terminal_color t) (terminal_row t) (terminal_column t) c = (f, row, col)"
    by (cases "put_effect (terminal_vbe t) (terminal_color t) (terminal_row t) (terminal_column t) c") auto
  have "vbe_ok (terminal_vbe t)" using assms(1) by (simp add: term_ok_def)
  from put_effect_ok [OF this _ _ e] assms(1) show ?thesis
    unfolding terminal_putchar_effect [OF assms(2)] e by (auto simp: term_ok_def apply_effect_def within_def)
qed

lemma putchar_same:
  assumes "term_ok t" "c < 0x80" "same_screen t u"
  shows "\<exists>t' u'. terminal_putchar c t = Some t' \<and> terminal_putchar c u = Some u' \<and> same_screen t' u' \<and> term_ok t'"
proof -
  obtain f row col where e: "put_effect (terminal_vbe t) (terminal_color t) (terminal_row t) (terminal_column t) c = (f, row, col)"
    by (cases "put_effect (terminal_vbe t) (terminal_color t) (terminal_row t) (terminal_column t) c") auto
  have v: "vbe_ok (terminal_vbe t)" using assms(1) by (simp add: term_ok_def)
  have f: "within (framebuffer_area (terminal_vbe t)) f" using put_effect_ok [OF v _ _ e] assms(1) by (simp add: term_ok_def)
  have u: "terminal_vbe u = terminal_vbe t" "terminal_color u = terminal_color t" "terminal_row u = terminal_row t"
    "terminal_column u = terminal_column t" using assms(3) by (auto simp: same_screen_def)
  have "same_screen (apply_effect (f, row, col) t) (apply_effect (f, row, col) u)"
    using assms(3) f u by (simp add: same_screen_def apply_effect_def within_def)
  moreover have "term_ok (apply_effect (f, row, col) t)"
    using put_effect_ok [OF v _ _ e] assms(1) by (simp add: term_ok_def apply_effect_def)
  ultimately show ?thesis unfolding terminal_putchar_effect [OF assms(2)] u e by blast
qed

end
