(* ===== verification/Terminal_Output.thy ===== *)
theory Terminal_Output
  imports Terminal
begin

text \<open>
  What the terminal shows: the text \<^verbatim>\<open>printf\<close> prints for a format and its arguments, the effect of
  scrolling, and that printing never writes outside of the framebuffer.
\<close>

section \<open>What \<^verbatim>\<open>printf\<close> prints\<close>

text \<open>
  The text for a format and its arguments; \<open>strs a\<close> is the string at address \<open>a\<close>. A percent sign at
  the end of the format and a missing argument have none.
\<close>

fun formatted :: "(u32 \<Rightarrow> u8 list) \<Rightarrow> u8 list \<Rightarrow> u32 list \<Rightarrow> u8 list option" where
  "formatted strs [] args = Some []"
| "formatted strs [f] args = (if f = 0x25 then None else Some [f])"
| "formatted strs (f # c # fs) args =
     (if f \<noteq> 0x25 then map_option ((#) f) (formatted strs (c # fs) args)
      else if c \<in> {0x73, 0x64, 0x78, 0x63} then
        (case args of [] \<Rightarrow> None
         | a # args \<Rightarrow> map_option ((@) (if c = 0x73 then strs a else if c = 0x64 then itoa_text a 10
             else if c = 0x78 then [0x30, 0x78] @ itoa_text a 16 else [ucast a])) (formatted strs fs args))
      else map_option ((@) (if c = 0x25 then [0x25] else [])) (formatted strs fs args))"

text \<open>The arguments that are printed as strings.\<close>

fun string_args :: "u8 list \<Rightarrow> u32 list \<Rightarrow> u32 list" where
  "string_args [] args = []"
| "string_args [f] args = []"
| "string_args (f # c # fs) args =
     (if f \<noteq> 0x25 then string_args (c # fs) args
      else if c \<in> {0x73, 0x64, 0x78, 0x63} then
        (case args of [] \<Rightarrow> [] | a # args \<Rightarrow> (if c = 0x73 then [a] else []) @ string_args fs args)
      else string_args fs args)"

lemma terminal_puts_append:
  "terminal_puts (xs @ ys) t = (case terminal_puts xs t of None \<Rightarrow> None | Some t \<Rightarrow> terminal_puts ys t)"
  by (induction xs arbitrary: t) (auto split: option.splits)

lemma same_area: "same_screen t u \<Longrightarrow> framebuffer_area (terminal_vbe u) = framebuffer_area (terminal_vbe t)"
  by (simp add: same_screen_def)

text \<open>
  One state in which the code runs and one in which only characters are put: \<open>follows t u m S\<close> says
  that they show the same and that outside of \<open>S\<close> and the framebuffer the memory is still \<open>m\<close>.
\<close>

definition follows :: "vbe_mode_info \<Rightarrow> u32 set \<Rightarrow> mem \<Rightarrow> 'a term_sys_scheme \<Rightarrow> 'a term_sys_scheme \<Rightarrow> bool" where
  "follows vbe S m t u \<longleftrightarrow> terminal_vbe t = vbe \<and> term_ok t \<and> same_screen t u \<and>
     (\<forall>a. a \<notin> framebuffer_area vbe \<longrightarrow> a \<notin> S \<longrightarrow> vmem t a = m a)"

lemma follows_putchar:
  assumes "follows vbe S m t u" "c < 0x80"
  shows "\<exists>t' u'. terminal_putchar c t = Some t' \<and> terminal_putchar c u = Some u' \<and> follows vbe S m t' u' \<and>
    (\<forall>a. a \<notin> framebuffer_area vbe \<longrightarrow> vmem t' a = vmem t a)"
proof -
  have f: "terminal_vbe t = vbe" "term_ok t" "same_screen t u" using assms(1) by (simp_all add: follows_def)
  from putchar_same [OF f(2) assms(2) f(3)] obtain t' u' where
    1: "terminal_putchar c t = Some t'" "terminal_putchar c u = Some u'" "same_screen t' u'" "term_ok t'" by blast
  from putchar_ok [OF f(2) assms(2)] 1(1) f(1)
  have 2: "terminal_vbe t' = vbe" "\<forall>a. a \<notin> framebuffer_area vbe \<longrightarrow> vmem t' a = vmem t a" by auto
  have "follows vbe S m t' u'" using assms(1) 1 2 by (simp add: follows_def)
  with 1 2 show ?thesis by blast
qed

lemma follows_puts:
  "follows vbe S m t u \<Longrightarrow> \<forall>c \<in> set xs. c < 0x80 \<Longrightarrow>
    \<exists>t' u'. terminal_puts xs t = Some t' \<and> terminal_puts xs u = Some u' \<and> follows vbe S m t' u' \<and>
      (\<forall>a. a \<notin> framebuffer_area vbe \<longrightarrow> vmem t' a = vmem t a)"
proof (induction xs arbitrary: t u)
  case (Cons c xs)
  then obtain t1 u1 where 1: "terminal_putchar c t = Some t1" "terminal_putchar c u = Some u1" "follows vbe S m t1 u1"
    "\<forall>a. a \<notin> framebuffer_area vbe \<longrightarrow> vmem t1 a = vmem t a"
    using follows_putchar [of vbe S m t u c] by auto
  from Cons.IH [OF 1(3)] Cons.prems(2) obtain t' u' where
    "terminal_puts xs t1 = Some t'" "terminal_puts xs u1 = Some u'" "follows vbe S m t' u'"
    "\<forall>a. a \<notin> framebuffer_area vbe \<longrightarrow> vmem t' a = vmem t1 a" by auto
  with 1 show ?case by simp
qed simp

lemma follows_writestring:
  "follows vbe S m t u \<Longrightarrow> cstr (vmem t) s xs \<Longrightarrow> \<forall>c \<in> set xs. c < 0x80 \<Longrightarrow>
    \<forall>i \<le> length xs. s + of_nat i \<notin> framebuffer_area vbe \<Longrightarrow>
    \<exists>t' u'. terminal_writestring s t = Some t' \<and> terminal_puts xs u = Some u' \<and> follows vbe S m t' u' \<and>
      (\<forall>a. a \<notin> framebuffer_area vbe \<longrightarrow> vmem t' a = vmem t a)"
proof (induction xs arbitrary: s t u)
  case Nil
  then show ?case by (subst terminal_writestring.simps) simp
next
  case (Cons c xs)
  have c: "vmem t s = c" "c \<noteq> 0" "cstr (vmem t) (s + 1) xs" "c < 0x80" using Cons.prems by auto
  obtain t1 u1 where 1: "terminal_putchar c t = Some t1" "terminal_putchar c u = Some u1" "follows vbe S m t1 u1"
    "\<forall>a. a \<notin> framebuffer_area vbe \<longrightarrow> vmem t1 a = vmem t a"
    using follows_putchar [OF Cons.prems(1) c(4)] by blast
  have out: "s + 1 + of_nat i \<notin> framebuffer_area vbe" if "i \<le> length xs" for i
    using Cons.prems(4) [rule_format, of "Suc i"] that by (simp add: add.assoc)
  have "cstr (vmem t1) (s + 1) xs"
    by (rule iffD1 [OF cstr_cong c(3)]) (use 1(4) out in auto)
  from Cons.IH [OF 1(3) this] out Cons.prems(3) obtain t' u' where
    "terminal_writestring (s + 1) t1 = Some t'" "terminal_puts xs u1 = Some u'" "follows vbe S m t' u'"
    "\<forall>a. a \<notin> framebuffer_area vbe \<longrightarrow> vmem t' a = vmem t1 a" by auto
  with 1 c show ?case by (subst terminal_writestring.simps) simp
qed


definition digits_area :: "u32 \<Rightarrow> u32 set" where
  "digits_area buf = {a. unat (a - buf) < 34}"

lemma itoa_text_length: "b \<in> {10, 16} \<Longrightarrow> length (itoa_text v b) \<le> 33"
proof -
  assume b: "b \<in> {10, 16}"
  have n: "length (numeral_text k n) \<le> 32" if "n < 2 ^ 32" for k n
    using ldigits_length [OF that, of k] by (simp add: numeral_text_def)
  have "nat (- sint v) < 2 ^ 32" using sint_less_31(2) [of v] by simp
  then show ?thesis using n [of "nat (- sint v)" 10] n [of "unat v" "unat b"] unat_less_32 [of v]
    by (simp add: itoa_text_def)
qed

lemma follows_itoa:
  assumes f: "follows vbe S m t u" and S: "digits_area buf \<subseteq> S" and d: "digits_area buf \<inter> framebuffer_area vbe = {}"
    and buf: "unat buf + 34 \<le> 2 ^ 32" and b: "b \<in> {10, 16}"
  shows "\<exists>m'. itoa v buf b (vmem t) = Some m' \<and> cstr m' buf (itoa_text v b) \<and> follows vbe S m (t\<lparr>vmem := m'\<rparr>) u \<and>
    (\<forall>i \<le> length (itoa_text v b). buf + of_nat i \<notin> framebuffer_area vbe)"
proof -
  have sb: "2 \<le> sint b" "sint b \<le> 36" using b by auto
  obtain m' where m': "itoa v buf b (vmem t) = Some m'" "cstr m' buf (itoa_text v b)"
    "\<And>x. length (itoa_text v b) < unat (x - buf) \<Longrightarrow> m' x = vmem t x"
    using itoa_writes [OF sb buf] by metis
  have l: "length (itoa_text v b) \<le> 33" by (rule itoa_text_length [OF b])
  have out: "m' x = vmem t x" if "x \<notin> digits_area buf" for x
    using m'(3) l that by (simp add: digits_area_def)
  have "m' x = vmem t x" if "x \<in> framebuffer_area vbe" for x by (rule out) (use d that in blast)
  then have "same_screen (t\<lparr>vmem := m'\<rparr>) u" using f by (simp add: follows_def same_screen_def)
  moreover have "term_ok (t\<lparr>vmem := m'\<rparr>)" using f by (auto simp: follows_def term_ok_def)
  moreover have "m' x = vmem t x" if "x \<notin> S" for x by (rule out) (use S that in blast)
  ultimately have "follows vbe S m (t\<lparr>vmem := m'\<rparr>) u" using f by (simp add: follows_def)
  moreover have "buf + of_nat i \<notin> framebuffer_area vbe" if "i \<le> length (itoa_text v b)" for i
  proof -
    have "buf + of_nat i \<in> digits_area buf" using that l by (simp add: digits_area_def unat_of_nat_32)
    then show ?thesis using d by auto
  qed
  ultimately show ?thesis using m' by blast
qed

text \<open>A string in memory that neither the terminal nor the digits overwrite.\<close>

definition text_at :: "vbe_mode_info \<Rightarrow> u32 \<Rightarrow> mem \<Rightarrow> u32 \<Rightarrow> u8 list \<Rightarrow> bool" where
  "text_at vbe buf m a xs \<longleftrightarrow> cstr m a xs \<and>
     (\<forall>i \<le> length xs. a + of_nat i \<notin> framebuffer_area vbe \<and> a + of_nat i \<notin> digits_area buf)"

lemma text_at_Cons: "text_at vbe buf m a (x # xs) \<Longrightarrow> m a = x \<and> x \<noteq> 0 \<and> text_at vbe buf m (a + 1) xs"
proof -
  assume t: "text_at vbe buf m a (x # xs)"
  have "a + 1 + of_nat i \<notin> framebuffer_area vbe \<and> a + 1 + of_nat i \<notin> digits_area buf" if "i \<le> length xs" for i
    using t that unfolding text_at_def by (auto dest: spec [of _ "Suc i"] simp: add.assoc)
  then show ?thesis using t by (simp add: text_at_def)
qed

lemma text_at_now:
  assumes "follows vbe (digits_area buf) m t u" "text_at vbe buf m a xs"
  shows "cstr (vmem t) a xs" "\<forall>i \<le> length xs. a + of_nat i \<notin> framebuffer_area vbe" "vmem t a = m a"
proof -
  have e: "vmem t (a + of_nat i) = m (a + of_nat i)" if "i \<le> length xs" for i
    using assms that by (simp add: follows_def text_at_def)
  have "cstr m a xs" using assms(2) by (simp add: text_at_def)
  then show "cstr (vmem t) a xs" using cstr_cong [of xs m a "vmem t"] e by simp
  show "\<forall>i \<le> length xs. a + of_nat i \<notin> framebuffer_area vbe" using assms(2) by (simp add: text_at_def)
  show "vmem t a = m a" using e [of 0] by simp
qed


text \<open>What one directive prints.\<close>

definition directive_text :: "(u32 \<Rightarrow> u8 list) \<Rightarrow> u8 \<Rightarrow> u32 \<Rightarrow> u8 list" where
  "directive_text strs c a = (if c = 0x73 then strs a else if c = 0x64 then itoa_text a 10
     else if c = 0x78 then [0x30, 0x78] @ itoa_text a 16 else [ucast a])"

lemma follows_directive:
  assumes f: "follows vbe (digits_area buf) m t u" and d: "digits_area buf \<inter> framebuffer_area vbe = {}"
    and buf: "unat buf + 34 \<le> 2 ^ 32" and c: "c \<in> {0x73, 0x64, 0x78, 0x63}"
    and s: "c = 0x73 \<Longrightarrow> text_at vbe buf m a (strs a)" and ascii: "\<forall>x \<in> set (directive_text strs c a). x < 0x80"
  shows "\<exists>t' u'. printf_directive buf c (a # args) t = Some (args, t') \<and>
    terminal_puts (directive_text strs c a) u = Some u' \<and> follows vbe (digits_area buf) m t' u'"
proof -
  consider "c = 0x73" | b :: u32 where "c = 0x64 \<and> b = 10" | b :: u32 where "c = 0x78 \<and> b = 16" | "c = 0x63" using c by auto
  then show ?thesis
  proof cases
    case 1
    then have "text_at vbe buf m a (strs a)" by (rule s)
    note x = text_at_now [OF f this]
    from follows_writestring [OF f x(1) _ x(2)] ascii 1 show ?thesis
      by (auto simp: printf_directive_def directive_text_def)
  next
    case (2 b)
    from follows_itoa [OF f order_refl d buf, of b a] 2 obtain m' where m': "itoa a buf 10 (vmem t) = Some m'"
      "cstr m' buf (itoa_text a 10)" "follows vbe (digits_area buf) m (t\<lparr>vmem := m'\<rparr>) u"
      "\<forall>i \<le> length (itoa_text a 10). buf + of_nat i \<notin> framebuffer_area vbe" by auto
    have "cstr (vmem (t\<lparr>vmem := m'\<rparr>)) buf (itoa_text a 10)" using m'(2) by simp
    from follows_writestring [OF m'(3) this _ m'(4)] ascii 2 m'(1) show ?thesis
      by (auto simp: printf_directive_def directive_text_def)
  next
    case (3 b)
    from follows_itoa [OF f order_refl d buf, of b a] 3 obtain m' where m': "itoa a buf 16 (vmem t) = Some m'"
      "cstr m' buf (itoa_text a 16)" "follows vbe (digits_area buf) m (t\<lparr>vmem := m'\<rparr>) u"
      "\<forall>i \<le> length (itoa_text a 16). buf + of_nat i \<notin> framebuffer_area vbe" by auto
    from follows_puts [OF m'(3), of "[0x30, 0x78]"] obtain t1 u1 where
      1: "terminal_puts [0x30, 0x78] (t\<lparr>vmem := m'\<rparr>) = Some t1" "terminal_puts [0x30, 0x78] u = Some u1"
      "follows vbe (digits_area buf) m t1 u1" "\<forall>x. x \<notin> framebuffer_area vbe \<longrightarrow> vmem t1 x = m' x" by auto
    have "cstr (vmem t1) buf (itoa_text a 16)"
      by (rule iffD1 [OF cstr_cong m'(2)]) (use 1(4) m'(4) in auto)
    moreover have "terminal_puts (0x30 # 0x78 # itoa_text a 16) u = terminal_puts (itoa_text a 16) u1"
      using terminal_puts_append [of "[0x30, 0x78]" "itoa_text a 16" u] 1(2) by (simp del: terminal_puts.simps)
    ultimately show ?thesis using follows_writestring [OF 1(3) _ _ m'(4)] ascii 3 m'(1) 1(1)
      by (auto simp: printf_directive_def directive_text_def simp del: terminal_puts.simps)
  next
    case 4
    then have "ucast a < (0x80 :: u8)" using ascii by (simp add: directive_text_def)
    from follows_putchar [OF f this] 4 show ?thesis by (auto simp: printf_directive_def directive_text_def)
  qed
qed

lemma printf_loop_text:
  assumes d: "digits_area buf \<inter> framebuffer_area vbe = {}" and buf: "unat buf + 34 \<le> 2 ^ 32"
  shows "follows vbe (digits_area buf) m t u \<Longrightarrow> text_at vbe buf m fmt fs \<Longrightarrow> formatted strs fs args = Some out \<Longrightarrow>
    \<forall>a \<in> set (string_args fs args). text_at vbe buf m a (strs a) \<Longrightarrow> \<forall>c \<in> set out. c < 0x80 \<Longrightarrow>
    \<exists>t' u'. printf_loop buf fmt args t = Some t' \<and> terminal_puts out u = Some u' \<and> follows vbe (digits_area buf) m t' u'"
proof (induction strs fs args arbitrary: fmt t u out rule: formatted.induct)
  case (1 strs args)
  have "vmem t fmt = 0" using text_at_now(1) [OF 1(1,2)] by simp
  then show ?case using 1 by (subst printf_loop.simps) auto
next
  case (2 strs f args)
  then have f: "f \<noteq> 0x25" "out = [f]" "f < 0x80" by (auto split: if_splits)
  have n: "vmem t fmt = f" "f \<noteq> 0" using text_at_now(1) [OF 2(1,2)] by simp_all
  obtain t1 u1 where 1: "terminal_putchar f t = Some t1" "terminal_putchar f u = Some u1" "follows vbe (digits_area buf) m t1 u1"
    using follows_putchar [OF 2(1) f(3)] by blast
  have "text_at vbe buf m (fmt + 1) []" using text_at_Cons [OF 2(2)] by simp
  then have "vmem t1 (fmt + 1) = 0" using text_at_now(1) [OF 1(3)] by fastforce
  then have "printf_loop buf (fmt + 1) args t1 = Some t1" by (subst printf_loop.simps) simp
  then show ?case using f n 1 by (subst printf_loop.simps) simp
next
  case (3 strs f c fs args)
  note F = 3(4) and T = 3(5)
  have n: "vmem t fmt = f" "f \<noteq> 0" "vmem t (fmt + 1) = c" using text_at_now(1) [OF F T] by simp_all
  have T1: "text_at vbe buf m (fmt + 1) (c # fs)" using text_at_Cons [OF T] by simp
  have T2: "text_at vbe buf m (fmt + 1 + 1) fs" using text_at_Cons [OF T1] by simp
  show ?case
  proof (cases "f = 0x25")
    case False
    then obtain out' where o: "formatted strs (c # fs) args = Some out'" "out = f # out'" using "3.prems"(3) by auto
    obtain t1 u1 where 1: "terminal_putchar f t = Some t1" "terminal_putchar f u = Some u1" "follows vbe (digits_area buf) m t1 u1"
      using follows_putchar [OF F, of f] "3.prems"(5) o(2) by auto
    have "\<exists>t' u'. printf_loop buf (fmt + 1) args t1 = Some t' \<and> terminal_puts out' u1 = Some u' \<and> follows vbe (digits_area buf) m t' u'"
      by (rule "3.IH"(1) [OF False 1(3) T1 o(1)]) (use "3.prems"(4,5) False o(2) in simp_all)
    then show ?thesis using n False 1 o(2) by (subst printf_loop.simps) auto
  next
    case True
    show ?thesis
    proof (cases "c \<in> {0x73, 0x64, 0x78, 0x63}")
      case c: True
      then obtain a args' out' where a: "args = a # args'" "formatted strs fs args' = Some out'"
        "out = directive_text strs c a @ out'"
        using "3.prems"(3) True by (auto simp: directive_text_def split: list.splits if_splits)
      have st: "\<forall>x \<in> set (string_args fs args'). text_at vbe buf m x (strs x)" "c = 0x73 \<Longrightarrow> text_at vbe buf m a (strs a)"
        using "3.prems"(4) True c a(1) by auto
      have asc: "\<forall>x \<in> set (directive_text strs c a). x < 0x80" "\<forall>x \<in> set out'. x < 0x80"
        using "3.prems"(5) a(3) by auto
      obtain t1 u1 where 1: "printf_directive buf c (a # args') t = Some (args', t1)"
        "terminal_puts (directive_text strs c a) u = Some u1" "follows vbe (digits_area buf) m t1 u1"
        using follows_directive [OF F d buf c st(2) asc(1)] by blast
      have "\<exists>t' u'. printf_loop buf (fmt + 1 + 1) args' t1 = Some t' \<and> terminal_puts out' u1 = Some u' \<and> follows vbe (digits_area buf) m t' u'"
        by (rule "3.IH"(2) [OF _ c a(1) 1(3) T2 a(2) st(1) asc(2)]) (use True in simp)
      then show ?thesis using n True 1 a(1,3) by (subst printf_loop.simps) (auto simp: terminal_puts_append)
    next
      case c: False
      obtain out' where o: "formatted strs fs args = Some out'" "out = (if c = 0x25 then [0x25] else []) @ out'"
        using "3.prems"(3) True c by auto
      have p: "printf_directive buf c args t = (if c = 0x25 then map_option (Pair args) (terminal_putchar 0x25 t) else Some (args, t))"
        using c by (simp add: printf_directive_def)
      obtain t1 u1 where 1: "printf_directive buf c args t = Some (args, t1)"
        "terminal_puts (if c = 0x25 then [0x25] else []) u = Some u1" "follows vbe (digits_area buf) m t1 u1"
        using follows_putchar [OF F, of "0x25"] F unfolding p by (cases "c = 0x25") auto
      have "\<exists>t' u'. printf_loop buf (fmt + 1 + 1) args t1 = Some t' \<and> terminal_puts out' u1 = Some u' \<and> follows vbe (digits_area buf) m t' u'"
        by (rule "3.IH"(3) [OF _ c 1(3) T2 o(1)]) (use "3.prems"(4,5) True c o(2) in auto)
      then show ?thesis using n True 1 o(2) by (subst printf_loop.simps) (auto simp: terminal_puts_append simp del: terminal_puts.simps)
    qed
  qed
qed


section \<open>Scrolling\<close>

text \<open>The byte at an offset in a line of the framebuffer.\<close>

definition fb_byte :: "vbe_mode_info \<Rightarrow> mem \<Rightarrow> nat \<Rightarrow> nat \<Rightarrow> u8" where
  "fb_byte vbe m y off = m (v_framebuffer vbe + of_nat (y * unat (v_pitch vbe) + off))"

definition line_width :: "vbe_mode_info \<Rightarrow> nat" where
  "line_width vbe = unat (v_width vbe) * unat (v_bpp vbe div 8)"

lemma line_width_pitch: "vbe_ok vbe \<Longrightarrow> line_width vbe \<le> unat (v_pitch vbe)"
  by (simp add: vbe_ok_def line_width_def)

lemma line_len: "vbe_ok vbe \<Longrightarrow> unat (ucast (v_width vbe) * bytes_pp vbe) = line_width vbe"
proof -
  assume v: "vbe_ok vbe"
  have e: "ucast (v_width vbe) * bytes_pp vbe = of_nat (line_width vbe)" by (simp add: bytes_pp_def line_width_def)
  show ?thesis unfolding e
    by (rule unat_of_nat_32) (use line_width_pitch [OF v] unat_less_16 [of "v_pitch vbe"] in simp)
qed

lemma clear_line_at:
  assumes v: "vbe_ok vbe" and y: "y < unat (v_height vbe)" "z < unat (v_height vbe)" and off: "off < unat (v_pitch vbe)"
  shows "fb_byte vbe (clear_line vbe (of_nat z) m) y off = (if y = z \<and> off < line_width vbe then 0 else fb_byte vbe m y off)"
proof -
  let ?P = "unat (v_pitch vbe)"
  have h: "y * ?P + off < unat (v_height vbe) * ?P" "z * ?P < unat (v_height vbe) * ?P"
    using line_end [OF y(1), of off ?P] line_end [OF y(1), of "Suc off" ?P] y(2) off by auto
  have u: "unat (of_nat (y * ?P + off) :: u32) = y * ?P + off" "unat (of_nat (z * ?P) :: u32) = z * ?P"
    by (rule unat_of_nat_32, use h area_size [of vbe] in linarith)+
  have e: "v_framebuffer vbe + of_nat z * ucast (v_pitch vbe) = v_framebuffer vbe + of_nat (z * ?P)" by simp
  have d: "v_framebuffer vbe + of_nat (y * ?P + off) - (v_framebuffer vbe + of_nat (z * ?P)) = of_nat (y * ?P + off) - of_nat (z * ?P)"
    by simp
  have lt: "of_nat (y * ?P + off) - of_nat (z * ?P) < (ucast (v_width vbe) * bytes_pp vbe) \<longleftrightarrow> y = z \<and> off < line_width vbe"
  proof (cases "z * ?P \<le> y * ?P + off")
    case True
    have "(of_nat (y * ?P + off) - of_nat (z * ?P) :: u32) = of_nat (y * ?P + off - z * ?P)" using True by (simp only: of_nat_diff)
    moreover have "unat (of_nat (y * ?P + off - z * ?P) :: u32) = y * ?P + off - z * ?P"
      by (rule unat_of_nat_32) (use h area_size [of vbe] in linarith)
    ultimately have "of_nat (y * ?P + off) - of_nat (z * ?P) < (ucast (v_width vbe) * bytes_pp vbe) \<longleftrightarrow> y * ?P + off - z * ?P < line_width vbe"
      by (simp only: word_less_nat_alt line_len [OF v])
    also have "\<dots> \<longleftrightarrow> y = z \<and> off < line_width vbe"
    proof (cases "y = z")
      case False
      have "z \<le> y"
      proof (rule ccontr)
        assume "\<not> z \<le> y"
        then have "Suc y * ?P \<le> z * ?P" by (intro mult_le_mono1) simp
        then show False using True off by simp
      qed
      then have "Suc z * ?P \<le> y * ?P" using False by (intro mult_le_mono1) simp
      then show ?thesis using False line_width_pitch [OF v] by simp
    qed simp
    finally show ?thesis .
  next
    case False
    have "unat (of_nat (y * ?P + off) - of_nat (z * ?P) :: u32) = 2 ^ 32 + (y * ?P + off) - z * ?P"
      using unat_sub_if' [of "of_nat (y * ?P + off) :: u32" "of_nat (z * ?P)"] False unfolding u by (simp del: of_nat_add of_nat_mult)
    moreover have "line_width vbe + z * ?P \<le> unat (v_height vbe) * ?P"
      using line_end [OF y(2) line_width_pitch [OF v]] by simp
    ultimately have "\<not> of_nat (y * ?P + off) - of_nat (z * ?P) < (ucast (v_width vbe) * bytes_pp vbe)"
      using area_size [of vbe] by (simp only: word_less_nat_alt line_len [OF v])
    moreover have "y \<noteq> z" using False by auto
    ultimately show ?thesis by simp
  qed
  show ?thesis unfolding fb_byte_def clear_line_def memset_at e d lt by simp
qed

lemma clear_lines_at:
  assumes "vbe_ok vbe" "y < unat (v_height vbe)" "off < unat (v_pitch vbe)"
  shows "y1 \<le> unat (v_height vbe) \<Longrightarrow> fb_byte vbe (clear_lines vbe y0 y1 m) y off =
    (if y0 \<le> y \<and> y < y1 \<and> off < line_width vbe then 0 else fb_byte vbe m y off)"
proof (induction y1)
  case (Suc k)
  have "clear_lines vbe y0 (Suc k) m = (if y0 \<le> k then clear_line vbe (of_nat k) (clear_lines vbe y0 k m) else m)"
    by (simp add: clear_lines_def)
  then show ?case using Suc clear_line_at [OF assms(1,2) _ assms(3), of k] by (auto simp: less_Suc_eq)
qed (simp add: clear_lines_def)


lemma terminal_scroll_at:
  assumes v: "vbe_ok vbe" and y: "y < unat (v_height vbe)" and off: "off < unat (v_pitch vbe)"
  shows "fb_byte vbe (scroll_mem vbe m) y off =
    (if y < unat (v_height vbe) - 10 then fb_byte vbe m (y + 10) off
     else if off < line_width vbe then 0 else fb_byte vbe m y off)"
proof -
  let ?P = "unat (v_pitch vbe)" and ?h = "unat (v_height vbe)" and ?fb = "v_framebuffer vbe"
  let ?len = "(ucast (v_height vbe) - 10) * (ucast (v_pitch vbe) :: u32)"
  let ?m = "memcpy ?fb (?fb + 10 * ucast (v_pitch vbe)) ?len m"
  have h10: "10 < v_height vbe" using v by (simp add: vbe_ok_def)
  then have h: "10 < ?h" by (simp add: word_less_nat_alt)
  note c = scroll_copy [OF v]
  have N: "y * ?P + off < ?h * ?P" using line_end [OF y, of "Suc off" ?P] off by simp
  have u: "unat (of_nat (y * ?P + off) :: u32) = y * ?P + off"
    by (rule unat_of_nat_32) (use N area_size [of vbe] in linarith)
  have cp: "fb_byte vbe ?m y off = (if y < ?h - 10 then fb_byte vbe m (y + 10) off else fb_byte vbe m y off)"
  proof -
    have "?fb + of_nat (y * ?P + off) - ?fb < ?len \<longleftrightarrow> y * ?P + off < (?h - 10) * ?P"
      by (simp only: add_diff_cancel_left' word_less_nat_alt u c(1))
    also have "\<dots> \<longleftrightarrow> y < ?h - 10"
    proof
      assume "y < ?h - 10"
      then show "y * ?P + off < (?h - 10) * ?P" using line_end [of y "?h - 10" "Suc off" ?P] off by simp
    next
      assume a: "y * ?P + off < (?h - 10) * ?P"
      show "y < ?h - 10"
      proof (rule ccontr)
        assume "\<not> y < ?h - 10"
        then have "(?h - 10) * ?P \<le> y * ?P" by (intro mult_le_mono1) simp
        then show False using a by linarith
      qed
    qed
    finally have lt: "?fb + of_nat (y * ?P + off) - ?fb < ?len \<longleftrightarrow> y < ?h - 10" .
    have at: "?m x = (if x - ?fb < ?len then m (?fb + 10 * ucast (v_pitch vbe) + (x - ?fb)) else m x)" for x
      by (rule memcpy_at) (use c(2) in blast)
    have e: "?fb + 10 * ucast (v_pitch vbe) + (?fb + of_nat (y * ?P + off) - ?fb) = ?fb + of_nat ((y + 10) * ?P + off)"
      by (simp add: algebra_simps)
    show ?thesis unfolding fb_byte_def at lt e ..
  qed
  show ?thesis unfolding scroll_mem_def clear_lines_at [OF v y off order_refl] height_minus_10 [OF h10] cp
    using y by auto
qed

section \<open>Properties\<close>

text \<open>A small screen, and a memory with the format \<^verbatim>\<open>A%d\<close> at 4096.\<close>

definition demo_vbe :: vbe_mode_info where
  "demo_vbe =
     \<lparr>v_attributes = 0, v_window_a = 0, v_window_b = 0, v_granularity = 0, v_window_size = 0, 
      v_segment_a = 0, v_segment_b = 0, v_win_func_ptr = 0, v_pitch = 96, v_width = 24, v_height = 30, 
      v_w_char = 0, v_y_char = 0, v_planes = 0, v_bpp = 32, v_banks = 0, v_memory_model = 0, 
      v_bank_size = 0, v_image_pages = 0, v_reserved0 = 0, v_red_mask = 0, v_red_position = 0, 
      v_green_mask = 0, v_green_position = 0, v_blue_mask = 0, v_blue_position = 0, v_reserved_mask = 0, 
      v_reserved_position = 0, v_direct_color_attributes = 0, v_framebuffer = 0x10000, 
      v_off_screen_mem_off = 0, v_off_screen_mem_size = 0, v_reserved1 = []\<rparr>"

definition demo_term :: term_sys where
  "demo_term = \<lparr>terminal_vbe = demo_vbe, terminal_row = 0, terminal_column = 0, terminal_color = 0x00FFFFFF,
     vmem = (\<lambda>_. 0)(4096 := 0x41, 4097 := 0x25, 4098 := 0x64)\<rparr>"

lemma demo_vbe_ok: "vbe_ok demo_vbe"
  by (simp add: vbe_ok_def demo_vbe_def)


text \<open>
  C28: from \<^verbatim>\<open>terminal_initialize\<close> on, whatever ASCII characters are printed, the cursor stays where a
  whole glyph fits, and no byte outside of the framebuffer, the area \<^verbatim>\<open>vmm_init\<close> maps for it, is written.
\<close>

theorem terminal_in_bounds:
  assumes "vbe_ok vbe" and "\<forall>c \<in> set cs. c < 0x80"
  shows "\<exists>t'. terminal_puts cs (terminal_initialize vbe t) = Some t' \<and> term_ok t' \<and> terminal_vbe t' = vbe \<and>
    (\<forall>a. a \<notin> framebuffer_area vbe \<longrightarrow> vmem t' a = vmem t a)"
proof -
  let ?t = "terminal_initialize vbe t"
  have w: "0 < unat (v_width vbe) - 8" "0 < unat (v_height vbe) - 10" using assms(1) by (simp_all add: vbe_ok_def word_less_nat_alt)
  have i: "terminal_vbe ?t = vbe" "terminal_row ?t = 0" "terminal_column ?t = 0"
    by (simp_all add: terminal_initialize_def terminal_clear_def)
  have "within (framebuffer_area vbe) (clear_lines vbe 0 (unat (v_height vbe)))" by (rule clear_lines_within [OF assms(1) order_refl])
  then have m: "vmem ?t a = vmem t a" if "a \<notin> framebuffer_area vbe" for a
    using that by (simp add: terminal_initialize_def terminal_clear_def within_def)
  have "follows vbe {} (vmem t) ?t ?t" using i w m assms(1) by (simp add: follows_def term_ok_def same_screen_def)
  from follows_puts [OF this assms(2)] show ?thesis by (auto simp: follows_def)
qed

theorem terminal_in_bounds_witness:
  "\<exists>t'. terminal_puts (replicate 200 0x41 @ [0x0A]) (terminal_initialize demo_vbe demo_term) = Some t' \<and> term_ok t' \<and>
     vmem t' 4096 = 0x41"
proof -
  have "\<forall>c \<in> set (replicate 200 0x41 @ [0x0A]). c < (0x80 :: u8)" by auto
  from terminal_in_bounds [OF demo_vbe_ok this, of demo_term] show ?thesis
    by (auto simp: framebuffer_area_def demo_vbe_def demo_term_def)
qed

text \<open>
  C29: \<^verbatim>\<open>printf\<close> returns and prints the formatted text: the screen and the cursor are the same as if the
  characters of the text had been put one by one. The format and the string arguments must lie
  outside of the framebuffer and of the local array for the digits, whose 34 bytes must not
  overlap the framebuffer.
\<close>

theorem printf_output:
  assumes "term_ok t" and "unat buf + 34 \<le> 2 ^ 32" and "digits_area buf \<inter> framebuffer_area (terminal_vbe t) = {}"
    and "text_at (terminal_vbe t) buf (vmem t) fmt fs" and "formatted strs fs args = Some out"
    and "\<forall>a \<in> set (string_args fs args). text_at (terminal_vbe t) buf (vmem t) a (strs a)"
    and "\<forall>c \<in> set out. c < 0x80"
  shows "\<exists>t' t''. printf buf fmt args t = Some t' \<and> terminal_puts out t = Some t'' \<and> same_screen t' t'' \<and> term_ok t'"
proof -
  have "follows (terminal_vbe t) (digits_area buf) (vmem t) t t" using assms(1) by (simp add: follows_def same_screen_def)
  from printf_loop_text [OF assms(3,2) this assms(4,5,6,7)] show ?thesis by (auto simp: printf_def follows_def)
qed

theorem printf_output_witness:
  "\<exists>t' t''. printf 8192 4096 [7] demo_term = Some t' \<and> terminal_puts [0x41, 0x37] demo_term = Some t'' \<and> same_screen t' t''"
proof -
  have v: "terminal_vbe demo_term = demo_vbe" by (simp add: demo_term_def)
  have ok: "term_ok demo_term" using demo_vbe_ok by (simp add: term_ok_def demo_term_def) (simp add: demo_vbe_def)
  have d: "digits_area 8192 \<inter> framebuffer_area demo_vbe = {}"
  proof -
    have "a \<notin> framebuffer_area demo_vbe" if a: "a \<in> digits_area 8192" for a
    proof -
      have area: "framebuffer_area demo_vbe = {a. unat (a - 0x10000) < 2880}" by (simp add: framebuffer_area_def demo_vbe_def)
      obtain k where k: "k \<in> set [0..<34]" "a = 8192 + of_nat k"
      proof
        show "unat (a - 8192) \<in> set [0..<34]" using a by (simp add: digits_area_def)
        show "a = 8192 + of_nat (unat (a - 8192))" by simp
      qed
      have "\<forall>k \<in> set [0..<34]. \<not> unat (8192 + of_nat k - 0x10000 :: u32) < 2880" by (simp add: upt_rec)
      then have "\<not> unat (8192 + of_nat k - 0x10000 :: u32) < 2880" using k(1) by (rule bspec)
      then show ?thesis unfolding area k(2) mem_Collect_eq .
    qed
    then show ?thesis by blast
  qed
  have "text_at demo_vbe 8192 (vmem demo_term) 4096 [0x41, 0x25, 0x64]"
    by (auto simp: text_at_def demo_term_def framebuffer_area_def digits_area_def demo_vbe_def le_Suc_eq)
  moreover have "formatted (\<lambda>_. []) [0x41, 0x25, 0x64] [7] = Some [0x41, 0x37]"
    by (simp add: itoa_text_def numeral_text_def numerals_def ldigits.simps)
  ultimately show ?thesis
    using printf_output [of demo_term 8192 4096 "[0x41, 0x25, 0x64]" "\<lambda>_. []" "[7]" "[0x41, 0x37]"] ok d v
    by (simp del: terminal_puts.simps) blast
qed

text \<open>
  \<^verbatim>\<open>terminal_scroll\<close> moves every line of the framebuffer up by ten and blanks the last ten.
\<close>

theorem terminal_scrolls:
  assumes "vbe_ok (terminal_vbe t)" and "y < unat (v_height (terminal_vbe t))" and "off < line_width (terminal_vbe t)"
  shows "fb_byte (terminal_vbe t) (vmem (terminal_scroll t)) y off =
    (if y < unat (v_height (terminal_vbe t)) - 10 then fb_byte (terminal_vbe t) (vmem t) (y + 10) off else 0)"
proof -
  have "off < unat (v_pitch (terminal_vbe t))" using assms(3) line_width_pitch [OF assms(1)] by simp
  from terminal_scroll_at [OF assms(1,2) this] assms(3) show ?thesis by (simp add: terminal_scroll_mem)
qed


theorem terminal_scrolls_witness:
  "fb_byte demo_vbe (vmem (terminal_scroll (demo_term\<lparr>vmem := (\<lambda>_. 1)\<rparr>))) 5 17 = 1 \<and>
   fb_byte demo_vbe (vmem (terminal_scroll (demo_term\<lparr>vmem := (\<lambda>_. 1)\<rparr>))) 29 17 = 0"
  using terminal_scrolls [of "demo_term\<lparr>vmem := (\<lambda>_. 1)\<rparr>" 5 17] terminal_scrolls [of "demo_term\<lparr>vmem := (\<lambda>_. 1)\<rparr>" 29 17] demo_vbe_ok
  by (simp add: demo_term_def) (simp add: demo_vbe_def line_width_def fb_byte_def)

end
