(* ===== verification/Ring.thy ===== *)
theory Ring
  imports Fifo
begin

text \<open>
  Ring buffers: the \<open>length xs\<close> entries from \<open>hd\<close> on, modulo the size, are \<open>xs\<close>; the next one goes to
  \<open>tl\<close>. The counters are C \<^verbatim>\<open>int\<close>s that stay in range. Used for the keyboard buffer and the buffer of
  the producer and the consumer.
\<close>

definition ring :: "nat \<Rightarrow> 'b list \<Rightarrow> int \<Rightarrow> int \<Rightarrow> int \<Rightarrow> 'b list \<Rightarrow> bool" where
  "ring n buf h t cnt xs \<longleftrightarrow> length buf = n \<and> length xs \<le> n \<and> 0 \<le> h \<and> h < int n \<and>
     t = (h + int (length xs)) mod int n \<and> cnt = int (length xs) \<and>
     (\<forall>i < length xs. buf ! ((nat h + i) mod n) = xs ! i)"

lemma ring_empty: "length buf = n \<Longrightarrow> 0 \<le> h \<Longrightarrow> h < int n \<Longrightarrow> ring n buf h h 0 []"
  by (simp add: ring_def)

lemma ring_tail:
  assumes "ring n buf h t cnt xs"
  shows "0 \<le> t" "t < int n" "nat t = (nat h + length xs) mod n"
proof -
  have n: "0 < n" and t: "t = (h + int (length xs)) mod int n" and h: "0 \<le> h" using assms by (auto simp: ring_def)
  show "0 \<le> t" "t < int n" using n t by simp_all
  have "t = int ((nat h + length xs) mod n)" using t h by (simp add: zmod_int)
  then show "nat t = (nat h + length xs) mod n" by simp
qed

lemma ring_put:
  assumes r: "ring n buf h t cnt xs" and room: "cnt < int n"
  shows "ring n (buf[nat t := x]) h ((t + 1) mod int n) (cnt + 1) (xs @ [x])"
proof -
  note tl = ring_tail [OF r]
  have l: "length xs < n" "length buf = n" "0 \<le> h" using r room by (auto simp: ring_def)
  have "(t + 1) mod int n = (h + int (length xs) + 1) mod int n" using r by (simp add: ring_def mod_simps)
  moreover have "buf[nat t := x] ! ((nat h + i) mod n) = (xs @ [x]) ! i" if "i < Suc (length xs)" for i
  proof (cases "i = length xs")
    case True
    then show ?thesis using tl l by simp
  next
    case False
    then have i: "i < length xs" using that by simp
    have "(nat h + i) mod n \<noteq> (nat h + length xs) mod n"
    proof
      assume "(nat h + i) mod n = (nat h + length xs) mod n"
      then have "n dvd (nat h + length xs) - (nat h + i)" using i by (intro mod_eq_dvd_iff_nat [THEN iffD1]) simp_all
      then have "n dvd length xs - i" by simp
      then show False using i l by (auto dest: dvd_imp_le)
    qed
    then have "buf[nat t := x] ! ((nat h + i) mod n) = buf ! ((nat h + i) mod n)" using tl(3) by simp
    then show ?thesis using r i by (simp add: ring_def nth_append)
  qed
  ultimately show ?thesis using r l by (simp add: ring_def algebra_simps)
qed

lemma ring_get:
  assumes r: "ring n buf h t cnt (x # xs)"
  shows "buf ! nat h = x" "ring n buf ((h + 1) mod int n) t (cnt - 1) xs"
proof -
  have h: "0 \<le> h" "h < int n" and n: "0 < n" using r by (auto simp: ring_def)
  have v: "buf ! ((nat h + i) mod n) = (x # xs) ! i" if "i < Suc (length xs)" for i using r that by (simp add: ring_def)
  have "nat h < n" using h by linarith
  with v [of 0] show "buf ! nat h = x" by simp
  have h1: "nat ((h + 1) mod int n) = (nat h + 1) mod n"
  proof -
    have "(h + 1) mod int n = int ((nat h + 1) mod n)" using h by (simp add: zmod_int add.commute)
    then show ?thesis by simp
  qed
  have "buf ! ((nat ((h + 1) mod int n) + i) mod n) = xs ! i" if "i < length xs" for i
  proof -
    have "(nat ((h + 1) mod int n) + i) mod n = (nat h + Suc i) mod n" unfolding h1 by (simp add: mod_simps)
    then show ?thesis using v [of "Suc i"] that by simp
  qed
  moreover have "t = ((h + 1) mod int n + int (length xs)) mod int n" using r by (simp add: ring_def mod_simps algebra_simps)
  ultimately show "ring n buf ((h + 1) mod int n) t (cnt - 1) xs" using r n by (simp add: ring_def)
qed

end
