(* ===== verification/Keyboard.thy ===== *)
theory Keyboard
  imports Sync_Machine Terminal_Output Ring
begin

text \<open>
  \<^verbatim>\<open>drivers/keyboard.c\<close>: the interrupt routine that decodes scancodes, puts characters into a ring
  buffer and echoes them, and \<^verbatim>\<open>getchar\<close>, which takes them out. The buffer is protected by a monitor at
  address \<open>mon\<close>; \<open>yield\<close> is \<^verbatim>\<open>task_yield\<close> as in \<^theory_text>\<open>Sync\<close>.
\<close>

section \<open>State and code\<close>

definition KBD_BUFFER_SIZE :: nat where "KBD_BUFFER_SIZE = 256"

record kbd_sys = sync_sys +
  screen :: term_sys
  kbd_buffer :: "u8 list"
  kbd_head :: int
  kbd_tail :: int
  kbd_count :: int
  left_shift_pressed :: bool
  right_shift_pressed :: bool
  caps_lock :: bool

definition kbd_us :: "u8 list" where
  "kbd_us = [
     0x00, 0x1B, 0x31, 0x32, 0x33, 0x34, 0x35, 0x36, 0x37, 0x38, 0x39, 0x30, 0x2D, 0x3D,
     0x08, 0x09, 0x71, 0x77, 0x65, 0x72, 0x74, 0x79, 0x75, 0x69, 0x6F, 0x70, 0x5B, 0x5D,
     0x0A, 0x00, 0x61, 0x73, 0x64, 0x66, 0x67, 0x68, 0x6A, 0x6B, 0x6C, 0x3B, 0x27, 0x60,
     0x00, 0x5C, 0x7A, 0x78, 0x63, 0x76, 0x62, 0x6E, 0x6D, 0x2C, 0x2E, 0x2F, 0x00, 0x2A,
     0x00, 0x20, 0x00, 0x00, 0x00, 0x00, 0x00, 0x00, 0x00, 0x00, 0x00, 0x00, 0x00, 0x00,
     0x00, 0x00, 0x00, 0x00, 0x2D, 0x00, 0x00, 0x00, 0x2B] @ replicate 49 0"

definition kbd_us_shift :: "u8 list" where
  "kbd_us_shift = [
     0x00, 0x1B, 0x21, 0x40, 0x23, 0x24, 0x25, 0x5E, 0x26, 0x2A, 0x28, 0x29, 0x5F, 0x2B,
     0x08, 0x09, 0x51, 0x57, 0x45, 0x52, 0x54, 0x59, 0x55, 0x49, 0x4F, 0x50, 0x7B, 0x7D,
     0x0A, 0x00, 0x41, 0x53, 0x44, 0x46, 0x47, 0x48, 0x4A, 0x4B, 0x4C, 0x3A, 0x22, 0x7E,
     0x00, 0x7C, 0x5A, 0x58, 0x43, 0x56, 0x42, 0x4E, 0x4D, 0x3C, 0x3E, 0x3F, 0x00, 0x2A,
     0x00, 0x20, 0x00, 0x00, 0x00, 0x00, 0x00, 0x00, 0x00, 0x00, 0x00, 0x00, 0x00, 0x00,
     0x00, 0x00, 0x00, 0x00, 0x2D, 0x00, 0x00, 0x00, 0x2B] @ replicate 49 0"

text \<open>The character of a key press: the combination of the shift keys and caps lock.\<close>

definition key_char :: "bool \<Rightarrow> bool \<Rightarrow> u8 \<Rightarrow> u8" where
  "key_char shift caps scancode =
     (let c = (if shift then kbd_us_shift ! unat scancode else kbd_us ! unat scancode)
      in if caps \<and> sint c \<ge> 0x61 \<and> sint c \<le> 0x7A then
           (if \<not> shift then kbd_us_shift ! unat scancode else c)
         else if caps \<and> sint c \<ge> 0x41 \<and> sint c \<le> 0x5A then
           (if shift then kbd_us ! unat scancode else c)
         else c)"

text \<open>What happens to the buffer between \<^verbatim>\<open>monitor_enter\<close> and \<^verbatim>\<open>monitor_exit\<close>.\<close>

definition kbd_put :: "u32 \<Rightarrow> u8 \<Rightarrow> 'a kbd_sys_scheme \<Rightarrow> 'a kbd_sys_scheme" where
  "kbd_put mon c s =
     (if kbd_count s < int KBD_BUFFER_SIZE then
        let s = s\<lparr>kbd_buffer := (kbd_buffer s)[nat (kbd_tail s) := c]\<rparr>;
            s = s\<lparr>kbd_tail := (kbd_tail s + 1) mod int KBD_BUFFER_SIZE\<rparr>;
            s = s\<lparr>kbd_count := kbd_count s + 1\<rparr>
        in monitor_notify mon 0 s
      else s)"

definition echo :: "u8 \<Rightarrow> 'a kbd_sys_scheme \<Rightarrow> 'a kbd_sys_scheme option" where
  "echo c s = map_option (\<lambda>t. s\<lparr>screen := t\<rparr>) (terminal_putchar c (screen s))"

text \<open>The body of \<^verbatim>\<open>keyboard_callback\<close>. \<open>scancode\<close> is what the keyboard controller answers. The routine returns the stack pointer it was given.\<close>

definition keyboard_interrupt ::
    "('a kbd_sys_scheme \<Rightarrow> 'a kbd_sys_scheme option) \<Rightarrow> u32 \<Rightarrow> u8 \<Rightarrow> u32 \<Rightarrow> 'a kbd_sys_scheme \<Rightarrow> (u32 \<times> 'a kbd_sys_scheme) option" where
  "keyboard_interrupt yield mon scancode regs s =
     (if scancode AND 0x80 \<noteq> 0 then
        let released_scancode = scancode AND 0x7F;
            s = (if released_scancode = 0x2A then s\<lparr>left_shift_pressed := False\<rparr> else s);
            s = (if released_scancode = 0x36 then s\<lparr>right_shift_pressed := False\<rparr> else s)
        in Some (regs, s)
      else if scancode = 0x2A then Some (regs, s\<lparr>left_shift_pressed := True\<rparr>)
      else if scancode = 0x36 then Some (regs, s\<lparr>right_shift_pressed := True\<rparr>)
      else if scancode = 0x3A then Some (regs, s\<lparr>caps_lock := \<not> caps_lock s\<rparr>)
      else
        let shift = (left_shift_pressed s \<or> right_shift_pressed s);
            c = key_char shift (caps_lock s) scancode
        in if sint c > 0 then
             case monitor_enter yield mon s of
               None \<Rightarrow> None
             | Some s \<Rightarrow> map_option (Pair regs) (echo c (monitor_exit mon (kbd_put mon c s)))
           else Some (regs, s))"

partial_function (option) getchar_wait ::
    "('a kbd_sys_scheme \<Rightarrow> 'a kbd_sys_scheme option) \<Rightarrow> u32 \<Rightarrow> 'a kbd_sys_scheme \<Rightarrow> 'a kbd_sys_scheme option" where
  "getchar_wait yield mon s =
     (if kbd_count s = 0 then
        case monitor_wait yield mon 0 s of None \<Rightarrow> None | Some s \<Rightarrow> getchar_wait yield mon s
      else Some s)"

definition kbd_take :: "'a kbd_sys_scheme \<Rightarrow> u8 \<times> 'a kbd_sys_scheme" where
  "kbd_take s =
     (let c = kbd_buffer s ! nat (kbd_head s);
          s = s\<lparr>kbd_head := (kbd_head s + 1) mod int KBD_BUFFER_SIZE\<rparr>;
          s = s\<lparr>kbd_count := kbd_count s - 1\<rparr>
      in (c, s))"

definition getchar ::
    "('a kbd_sys_scheme \<Rightarrow> 'a kbd_sys_scheme option) \<Rightarrow> u32 \<Rightarrow> 'a kbd_sys_scheme \<Rightarrow> (u8 \<times> 'a kbd_sys_scheme) option" where
  "getchar yield mon s =
     (case monitor_enter yield mon s of
        None \<Rightarrow> None
      | Some s \<Rightarrow>
          (case getchar_wait yield mon s of
             None \<Rightarrow> None
           | Some s \<Rightarrow> let (c, s) = kbd_take s in Some (c, monitor_exit mon s)))"

definition keyboard_init :: "u32 \<Rightarrow> 'a kbd_sys_scheme \<Rightarrow> 'a kbd_sys_scheme" where
  "keyboard_init mon s = set_handler 33 keyboard_callback (monitor_init mon s)"

section \<open>The keys\<close>

definition letter :: "u8 \<Rightarrow> bool" where
  "letter c \<longleftrightarrow> 0x61 \<le> c \<and> c \<le> 0x7A"

text \<open>What a key means: letters are upper case under shift or caps lock but not both, other keys only know shift.\<close>

definition key_meaning :: "bool \<Rightarrow> bool \<Rightarrow> u8 \<Rightarrow> u8" where
  "key_meaning shift caps scancode =
     (let b = kbd_us ! unat scancode
      in if letter b then (if shift \<noteq> caps then b - 0x20 else b)
         else if shift then kbd_us_shift ! unat scancode else b)"

definition upper :: "u8 \<Rightarrow> bool" where
  "upper c \<longleftrightarrow> 0x41 \<le> c \<and> c \<le> 0x5A"

definition key_pair_ok :: "u8 \<times> u8 \<Rightarrow> bool" where
  "key_pair_ok = (\<lambda>(b, u). b < 0x80 \<and> u < 0x80 \<and> \<not> upper b \<and> \<not> letter u \<and>
     (if letter b then u = b - 0x20 \<and> upper u else \<not> upper u))"

lemma key_tables: "length kbd_us = 128" "length kbd_us_shift = 128" "list_all key_pair_ok (zip kbd_us kbd_us_shift)"
  by code_simp+

lemma key_pair:
  fixes scancode :: u8
  assumes "scancode < 0x80"
  shows "key_pair_ok (kbd_us ! unat scancode, kbd_us_shift ! unat scancode)"
proof -
  have n: "unat scancode < 128" using assms by (simp add: word_less_nat_alt)
  then have "zip kbd_us kbd_us_shift ! unat scancode = (kbd_us ! unat scancode, kbd_us_shift ! unat scancode)"
    using key_tables(1,2) by simp
  then show ?thesis using key_tables n by (metis (no_types, lifting) length_zip list_all_length min.idem)
qed

lemma sint_range:
  fixes c :: u8
  assumes "c < 0x80"
  shows "(sint c \<ge> 0x61 \<and> sint c \<le> 0x7A) = letter c" "(sint c \<ge> 0x41 \<and> sint c \<le> 0x5A) = upper c" "(sint c > 0) = (c \<noteq> 0)"
proof -
  have s: "sint c = uint c" by (rule sint_ascii [OF assms])
  show "(sint c \<ge> 0x61 \<and> sint c \<le> 0x7A) = letter c" "(sint c \<ge> 0x41 \<and> sint c \<le> 0x5A) = upper c"
    unfolding s by (simp_all add: letter_def upper_def word_le_def)
  show "(sint c > 0) = (c \<noteq> 0)" unfolding s using uint_pos [of c] by auto
qed

lemma key_char_meaning:
  assumes "scancode < 0x80"
  shows "key_char shift caps scancode = key_meaning shift caps scancode" "key_char shift caps scancode < 0x80"
proof -
  define b u where "b = kbd_us ! unat scancode" and "u = kbd_us_shift ! unat scancode"
  have k: "key_pair_ok (b, u)" unfolding b_def u_def by (rule key_pair [OF assms])
  then have a: "b < 0x80" "u < 0x80" by (auto simp: key_pair_ok_def)
  have e: "key_char shift caps scancode = (let c = (if shift then u else b)
      in if caps \<and> letter c then (if \<not> shift then u else c) else if caps \<and> upper c then (if shift then b else c) else c)"
    by (cases shift) (simp_all add: key_char_def sint_range a Let_def flip: b_def u_def)
  show "key_char shift caps scancode = key_meaning shift caps scancode"
    unfolding e key_meaning_def b_def [symmetric] u_def [symmetric] using k
    by (cases shift; cases caps; cases "letter b") (simp_all add: key_pair_ok_def)
  show "key_char shift caps scancode < 0x80" unfolding e using a by (cases shift) (simp_all add: Let_def)
qed

section \<open>The buffer is a queue\<close>

definition kbd_holds :: "'a kbd_sys_scheme \<Rightarrow> u8 list \<Rightarrow> bool" where
  "kbd_holds s xs \<longleftrightarrow> ring KBD_BUFFER_SIZE (kbd_buffer s) (kbd_head s) (kbd_tail s) (kbd_count s) xs"

text \<open>Putting and taking as operations that may refuse.\<close>

definition kbd_enq :: "u32 \<Rightarrow> u8 \<Rightarrow> 'a kbd_sys_scheme \<Rightarrow> 'a kbd_sys_scheme option" where
  "kbd_enq mon c s = (if kbd_count s < int KBD_BUFFER_SIZE then Some (kbd_put mon c s) else None)"

definition kbd_deq :: "'a kbd_sys_scheme \<Rightarrow> (u8 \<times> 'a kbd_sys_scheme) option" where
  "kbd_deq s = (if kbd_count s = 0 then None else Some (kbd_take s))"

lemma notify_kbd [simp]:
  "kbd_buffer (monitor_notify m i s) = kbd_buffer s" "kbd_head (monitor_notify m i s) = kbd_head s"
  "kbd_tail (monitor_notify m i s) = kbd_tail s" "kbd_count (monitor_notify m i s) = kbd_count s"
  "screen (monitor_notify m i s) = screen s" "mutexes (monitor_notify m i s) = mutexes s"
  "left_shift_pressed (monitor_notify m i s) = left_shift_pressed s"
  "right_shift_pressed (monitor_notify m i s) = right_shift_pressed s" "caps_lock (monitor_notify m i s) = caps_lock s"
  by (auto simp: monitor_notify_def cond_signal_def set_cond_def cli_def sti_def Let_def split: option.splits)

interpretation kbd_queue: bounded_fifo "kbd_enq mon" kbd_deq kbd_holds "\<lambda>c xs. length xs < KBD_BUFFER_SIZE"
proof unfold_locales
  fix s :: "'a kbd_sys_scheme" and xs c
  assume s: "kbd_holds s xs" and room: "length xs < KBD_BUFFER_SIZE"
  then have "kbd_count s < int KBD_BUFFER_SIZE" by (simp add: kbd_holds_def ring_def)
  with ring_put [OF s [unfolded kbd_holds_def] this, of c]
  show "\<exists>s'. kbd_enq mon c s = Some s' \<and> kbd_holds s' (xs @ [c])"
    by (simp add: kbd_enq_def kbd_put_def kbd_holds_def Let_def)
next
  fix s :: "'a kbd_sys_scheme" and xs c
  assume "kbd_holds s (c # xs)"
  then have r: "ring KBD_BUFFER_SIZE (kbd_buffer s) (kbd_head s) (kbd_tail s) (kbd_count s) (c # xs)" by (simp add: kbd_holds_def)
  then have "kbd_count s \<noteq> 0" by (simp add: ring_def)
  then show "\<exists>s'. kbd_deq s = Some (c, s') \<and> kbd_holds s' xs"
    using ring_get [OF r] by (simp add: kbd_deq_def kbd_take_def kbd_holds_def Let_def)
next
  fix s :: "'a kbd_sys_scheme"
  assume "kbd_holds s []"
  then show "kbd_deq s = None" by (simp add: kbd_holds_def ring_def kbd_deq_def)
next
  fix s :: "'a kbd_sys_scheme" and xs c
  assume "kbd_holds s xs" "\<not> length xs < KBD_BUFFER_SIZE"
  then show "kbd_enq mon c s = None" by (simp add: kbd_holds_def ring_def kbd_enq_def)
qed


section \<open>The whole keyboard\<close>

datatype key_event = Key u8 | Read

text \<open>The code, for key interrupts and calls of \<^verbatim>\<open>getchar\<close> in any order.\<close>

fun kbd_run :: "('a kbd_sys_scheme \<Rightarrow> 'a kbd_sys_scheme option) \<Rightarrow> u32 \<Rightarrow> key_event list \<Rightarrow> 'a kbd_sys_scheme \<Rightarrow>
    (u8 list \<times> 'a kbd_sys_scheme) option" where
  "kbd_run yield mon [] s = Some ([], s)"
| "kbd_run yield mon (Key scancode # es) s =
     (case keyboard_interrupt yield mon scancode 0 s of None \<Rightarrow> None | Some (regs, s) \<Rightarrow> kbd_run yield mon es s)"
| "kbd_run yield mon (Read # es) s =
     (case getchar yield mon s of
        None \<Rightarrow> None
      | Some (c, s) \<Rightarrow> map_option (\<lambda>(out, s). (c # out, s)) (kbd_run yield mon es s))"

text \<open>
  The keyboard as a typist sees it: the state of shift and caps lock, and at most 256 characters
  that have been typed and not yet been read; what is typed then is lost.
\<close>

type_synonym mods = "bool \<times> bool \<times> bool"

definition key_step :: "u8 \<Rightarrow> mods \<Rightarrow> mods \<times> u8 option" where
  "key_step scancode = (\<lambda>(l, r, caps).
     if 0x80 \<le> scancode then ((l \<and> scancode \<noteq> 0xAA, r \<and> scancode \<noteq> 0xB6, caps), None)
     else if scancode = 0x2A then ((True, r, caps), None)
     else if scancode = 0x36 then ((l, True, caps), None)
     else if scancode = 0x3A then ((l, r, \<not> caps), None)
     else ((l, r, caps), if key_meaning (l \<or> r) caps scancode = 0 then None else Some (key_meaning (l \<or> r) caps scancode)))"

fun keys_spec :: "key_event list \<Rightarrow> mods \<Rightarrow> u8 list \<Rightarrow> (u8 list \<times> u8 list) option" where
  "keys_spec [] m xs = Some ([], xs)"
| "keys_spec (Key scancode # es) m xs =
     (case key_step scancode m of (m', c) \<Rightarrow>
        keys_spec es m' (case c of None \<Rightarrow> xs | Some c \<Rightarrow> if length xs < KBD_BUFFER_SIZE then xs @ [c] else xs))"
| "keys_spec (Read # es) m xs =
     (case xs of [] \<Rightarrow> None | c # xs \<Rightarrow> map_option (\<lambda>(out, ys). (c # out, ys)) (keys_spec es m xs))"

definition kbd_mods :: "'a kbd_sys_scheme \<Rightarrow> mods" where
  "kbd_mods s = (left_shift_pressed s, right_shift_pressed s, caps_lock s)"

definition kbd_ready :: "u32 \<Rightarrow> 'a kbd_sys_scheme \<Rightarrow> u8 list \<Rightarrow> bool" where
  "kbd_ready mon s xs \<longleftrightarrow> kbd_holds s xs \<and> locked (mutexes s mon) = 0 \<and> term_ok (screen s)"

lemma enter_free: "locked (mutexes s mon) = 0 \<Longrightarrow> monitor_enter yield mon s = Some (mutex_take mon (running_task s) (cli s))"
  by (simp add: monitor_enter_def monitor_lock_def mutex_lock_def mutex_lock_loop.simps task_get_current_def cli_def)

lemma take_kbd [simp]:
  "kbd_buffer (mutex_take mon r (cli s)) = kbd_buffer s" "kbd_head (mutex_take mon r (cli s)) = kbd_head s"
  "kbd_tail (mutex_take mon r (cli s)) = kbd_tail s" "kbd_count (mutex_take mon r (cli s)) = kbd_count s"
  "screen (mutex_take mon r (cli s)) = screen s" "left_shift_pressed (mutex_take mon r (cli s)) = left_shift_pressed s"
  "right_shift_pressed (mutex_take mon r (cli s)) = right_shift_pressed s" "caps_lock (mutex_take mon r (cli s)) = caps_lock s"
  by (simp_all add: mutex_take_def cli_def sti_def set_mutex_def)

lemma exit_kbd [simp]:
  "kbd_buffer (monitor_exit mon s) = kbd_buffer s" "kbd_head (monitor_exit mon s) = kbd_head s"
  "kbd_tail (monitor_exit mon s) = kbd_tail s" "kbd_count (monitor_exit mon s) = kbd_count s"
  "screen (monitor_exit mon s) = screen s" "left_shift_pressed (monitor_exit mon s) = left_shift_pressed s"
  "right_shift_pressed (monitor_exit mon s) = right_shift_pressed s" "caps_lock (monitor_exit mon s) = caps_lock s"
  "locked (mutexes (monitor_exit mon s) mon) = 0"
  by (simp_all add: monitor_exit_def monitor_lock_def mutex_unlock_def cli_def sti_def set_mutex_def Let_def split: option.split)

lemma put_kbd [simp]:
  "screen (kbd_put mon c s) = screen s" "left_shift_pressed (kbd_put mon c s) = left_shift_pressed s"
  "right_shift_pressed (kbd_put mon c s) = right_shift_pressed s" "caps_lock (kbd_put mon c s) = caps_lock s"
  by (simp_all add: kbd_put_def Let_def)

lemma kbd_holds_take: "kbd_holds (mutex_take mon r (cli s)) xs \<longleftrightarrow> kbd_holds s xs"
  by (simp add: kbd_holds_def)

lemma kbd_holds_exit: "kbd_holds (monitor_exit mon s) xs \<longleftrightarrow> kbd_holds s xs"
  by (simp add: kbd_holds_def)

lemma kbd_holds_put:
  assumes "kbd_holds s xs"
  shows "kbd_holds (kbd_put mon c s) (if length xs < KBD_BUFFER_SIZE then xs @ [c] else xs)"
proof (cases "length xs < KBD_BUFFER_SIZE")
  case True
  then have "kbd_count s < int KBD_BUFFER_SIZE" using assms by (simp add: kbd_holds_def ring_def)
  then show ?thesis using kbd_queue.enq_ok [OF assms True, of mon c] True by (simp add: kbd_enq_def)
next
  case False
  then have "\<not> kbd_count s < int KBD_BUFFER_SIZE" using assms by (simp add: kbd_holds_def ring_def)
  then show ?thesis using False assms by (simp add: kbd_put_def)
qed

lemma release_bits:
  fixes scancode :: u8
  shows "(scancode AND 0x80 \<noteq> 0) = (0x80 \<le> scancode)"
    "0x80 \<le> scancode \<Longrightarrow> (scancode AND 0x7F = 0x2A) = (scancode = 0xAA)"
    "0x80 \<le> scancode \<Longrightarrow> (scancode AND 0x7F = 0x36) = (scancode = 0xB6)"
proof -
  have all: "\<forall>n \<in> set [0..<256]. (of_nat n AND 0x80 \<noteq> (0 :: u8)) = (0x80 \<le> (of_nat n :: u8)) \<and>
      (0x80 \<le> (of_nat n :: u8) \<longrightarrow> (of_nat n AND 0x7F = (0x2A :: u8)) = (of_nat n = (0xAA :: u8)) \<and>
        (of_nat n AND 0x7F = (0x36 :: u8)) = (of_nat n = (0xB6 :: u8)))"
    by code_simp
  have "unat scancode \<in> set [0..<256]" using unat_less_8 [of scancode] by simp
  note a = bspec [OF all this]
  have e: "of_nat (unat scancode) = scancode" by simp
  from a show "(scancode AND 0x80 \<noteq> 0) = (0x80 \<le> scancode)"
    "0x80 \<le> scancode \<Longrightarrow> (scancode AND 0x7F = 0x2A) = (scancode = 0xAA)"
    "0x80 \<le> scancode \<Longrightarrow> (scancode AND 0x7F = 0x36) = (scancode = 0xB6)" unfolding e by simp_all
qed

lemma callback_ok:
  assumes r: "kbd_ready mon s xs" and k: "key_step scancode (kbd_mods s) = (m', c)"
  shows "\<exists>s'. keyboard_interrupt yield mon scancode regs s = Some (regs, s') \<and> kbd_mods s' = m' \<and>
    kbd_ready mon s' (case c of None \<Rightarrow> xs | Some c \<Rightarrow> if length xs < KBD_BUFFER_SIZE then xs @ [c] else xs)"
proof -
  note b = release_bits [of scancode]
  have special: ?thesis if "0x80 \<le> scancode \<or> scancode \<in> {0x2A, 0x36, 0x3A}"
    using that k r b
    by (auto simp: keyboard_interrupt_def key_step_def kbd_mods_def kbd_ready_def kbd_holds_def Let_def)
  have press: ?thesis if p: "\<not> 0x80 \<le> scancode" "scancode \<notin> {0x2A, 0x36, 0x3A}"
  proof -
    let ?sh = "left_shift_pressed s \<or> right_shift_pressed s"
    let ?c = "key_char ?sh (caps_lock s) scancode"
    have lt: "scancode < 0x80" using p(1) by simp
    note kc = key_char_meaning [OF lt, of ?sh "caps_lock s"]
    have m': "m' = kbd_mods s" "c = (if ?c = 0 then None else Some ?c)"
      using k p by (auto simp: key_step_def kbd_mods_def kc(1))
    have cb: "keyboard_interrupt yield mon scancode regs s = (if ?c \<noteq> 0 then
        case monitor_enter yield mon s of None \<Rightarrow> None
        | Some s \<Rightarrow> map_option (Pair regs) (echo ?c (monitor_exit mon (kbd_put mon ?c s))) else Some (regs, s))"
      using p b(1) sint_range(3) [OF kc(2)] by (simp add: keyboard_interrupt_def Let_def)
    show ?thesis
    proof (cases "?c = 0")
      case True
      then show ?thesis using cb m' r by simp
    next
      case False
      let ?s1 = "monitor_exit mon (kbd_put mon ?c (mutex_take mon (running_task s) (cli s)))"
      have sc: "screen ?s1 = screen s" by simp
      obtain t where t: "terminal_putchar ?c (screen s) = Some t" "term_ok t"
        using putchar_ok [OF _ kc(2)] r by (auto simp: kbd_ready_def)
      have "keyboard_interrupt yield mon scancode regs s = Some (regs, ?s1\<lparr>screen := t\<rparr>)"
        unfolding cb using False enter_free [of s mon yield] r t(1) by (simp add: kbd_ready_def echo_def)
      moreover have "kbd_holds ?s1 (if length xs < KBD_BUFFER_SIZE then xs @ [?c] else xs)"
        unfolding kbd_holds_exit by (rule kbd_holds_put) (use r in \<open>simp add: kbd_ready_def kbd_holds_take\<close>)
      then have "kbd_ready mon (?s1\<lparr>screen := t\<rparr>) (if length xs < KBD_BUFFER_SIZE then xs @ [?c] else xs)"
        using t(2) by (simp add: kbd_ready_def kbd_holds_def)
      moreover have "kbd_mods (?s1\<lparr>screen := t\<rparr>) = kbd_mods s" by (simp add: kbd_mods_def)
      ultimately show ?thesis using m' False by simp
    qed
  qed
  show ?thesis using special press by blast
qed

lemma getchar_ok:
  assumes r: "kbd_ready mon s (c # xs)"
  shows "\<exists>s'. getchar yield mon s = Some (c, s') \<and> kbd_mods s' = kbd_mods s \<and> kbd_ready mon s' xs"
proof -
  let ?s = "mutex_take mon (running_task s) (cli s)"
  have h: "kbd_holds ?s (c # xs)" using r by (simp add: kbd_ready_def kbd_holds_take)
  then have n: "kbd_count ?s \<noteq> 0" by (simp add: kbd_holds_def ring_def)
  then have w: "getchar_wait yield mon ?s = Some ?s" by (subst getchar_wait.simps) simp
  obtain s1 where s1: "kbd_take ?s = (c, s1)" "kbd_holds s1 xs"
    using kbd_queue.deq_ok [OF h] n by (auto simp: kbd_deq_def)
  have f: "screen s1 = screen ?s" "kbd_mods s1 = kbd_mods ?s" using s1(1) by (auto simp: kbd_take_def kbd_mods_def Let_def)
  have "getchar yield mon s = Some (c, monitor_exit mon s1)"
    using enter_free [of s mon yield] r w s1(1) by (simp add: getchar_def kbd_ready_def)
  moreover have "kbd_ready mon (monitor_exit mon s1) xs"
    using s1(2) f(1) r by (simp add: kbd_ready_def kbd_holds_exit)
  moreover have "kbd_mods (monitor_exit mon s1) = kbd_mods s" using f(2) by (simp add: kbd_mods_def)
  ultimately show ?thesis by blast
qed

lemma kbd_run_spec:
  "kbd_ready mon s xs \<Longrightarrow> keys_spec es (kbd_mods s) xs = Some (out, ys) \<Longrightarrow>
     \<exists>s'. kbd_run yield mon es s = Some (out, s') \<and> kbd_ready mon s' ys"
proof (induction es arbitrary: s xs out)
  case (Cons e es)
  show ?case
  proof (cases e)
    case (Key scancode)
    obtain m' c where k: "key_step scancode (kbd_mods s) = (m', c)" by fastforce
    obtain s1 where "keyboard_interrupt yield mon scancode 0 s = Some (0, s1)" "kbd_mods s1 = m'"
      "kbd_ready mon s1 (case c of None \<Rightarrow> xs | Some c \<Rightarrow> if length xs < KBD_BUFFER_SIZE then xs @ [c] else xs)"
      using callback_ok [OF Cons.prems(1) k] by blast
    then show ?thesis using Cons.IH [of s1] Cons.prems(2) Key k by simp
  next
    case Read
    then obtain c xs' out' where x: "xs = c # xs'" "keys_spec es (kbd_mods s) xs' = Some (out', ys)" "out = c # out'"
      using Cons.prems(2) by (auto split: list.splits)
    obtain s1 where s1: "getchar yield mon s = Some (c, s1)" "kbd_mods s1 = kbd_mods s" "kbd_ready mon s1 xs'"
      using getchar_ok Cons.prems(1) x(1) by blast
    from Cons.IH [OF s1(3), of out'] x s1 Read show ?thesis by auto
  qed
qed (auto intro: exI [of _ s])


section \<open>Properties\<close>

definition demo_kbd :: kbd_sys where
  "demo_kbd = sync_sys.extend demo_sync \<lparr>screen = demo_term, kbd_buffer = replicate 256 0, kbd_head = 255, kbd_tail = 255,
     kbd_count = 0, left_shift_pressed = False, right_shift_pressed = False, caps_lock = False\<rparr>"

lemma demo_kbd_fields:
  "screen demo_kbd = demo_term" "kbd_mods demo_kbd = (False, False, False)" "mutexes demo_kbd = mutexes demo_sync"
  "running_task demo_kbd = 16" "tcb demo_kbd = tcb demo_sync"
  by (simp_all add: demo_kbd_def sync_sys.defs demo_sync_def kbd_mods_def)

lemma demo_kbd_ready: "kbd_ready 500 demo_kbd []"
proof -
  have "term_ok demo_term" using demo_vbe_ok by (simp add: term_ok_def demo_term_def) (simp add: demo_vbe_def)
  moreover have "kbd_holds demo_kbd []"
    by (simp add: kbd_holds_def ring_def demo_kbd_def sync_sys.defs KBD_BUFFER_SIZE_def)
  moreover have "locked (mutexes demo_kbd 500) = 0" unfolding demo_kbd_fields by (simp add: demo_sync_def)
  ultimately show ?thesis unfolding kbd_ready_def demo_kbd_fields by simp
qed

text \<open>
  C30: keys pressed and calls of \<^verbatim>\<open>getchar\<close> in any order, with the monitor free: the calls return the
  characters that were typed, in that order and decoded with the shift keys and caps lock as they were
  then. Up to 256 characters wait to be read; what is typed beyond that is dropped and nothing else.
\<close>

theorem keyboard_refines:
  assumes "kbd_ready mon s xs" and "keys_spec es (kbd_mods s) xs = Some (out, ys)"
  shows "\<exists>s'. kbd_run yield mon es s = Some (out, s') \<and> kbd_ready mon s' ys"
  by (rule kbd_run_spec [OF assms])

text \<open>Shift down, A, shift up, B, read, read: the characters are \<^verbatim>\<open>A\<close> and \<^verbatim>\<open>b\<close>.\<close>

theorem keyboard_refines_witness:
  "\<exists>s'. kbd_run (\<lambda>_. None) 500 [Key 0x2A, Key 0x1E, Key 0xAA, Key 0x30, Read, Read] demo_kbd = Some ([0x41, 0x62], s')"
proof -
  have "key_step 0x2A (False, False, False) = ((True, False, False), None)"
    "key_step 0x1E (True, False, False) = ((True, False, False), Some 0x41)"
    "key_step 0xAA (True, False, False) = ((False, False, False), None)"
    "key_step 0x30 (False, False, False) = ((False, False, False), Some 0x62)" by code_simp+
  then have "keys_spec [Key 0x2A, Key 0x1E, Key 0xAA, Key 0x30, Read, Read] (kbd_mods demo_kbd) [] = Some ([0x41, 0x62], [])"
    unfolding demo_kbd_fields by (simp add: KBD_BUFFER_SIZE_def)
  from keyboard_refines [OF demo_kbd_ready this] show ?thesis by blast
qed

text \<open>
  The character of a key. Letters are upper case exactly if one of shift and caps lock is on; for
  the other keys shift selects the second table and caps lock has no effect. The result is ASCII.
\<close>

theorem key_decoding:
  assumes "scancode < 0x80"
  shows "key_char shift caps scancode < 0x80 \<and> key_char shift caps scancode =
    (let b = kbd_us ! unat scancode in
     if letter b then (if shift \<noteq> caps then b - 0x20 else b) else if shift then kbd_us_shift ! unat scancode else b)"
  using key_char_meaning [OF assms, of shift caps] by (simp add: key_meaning_def)

theorem key_decoding_witness:
  "key_char True True 0x1E = 0x61 \<and> key_char False True 0x1E = 0x41 \<and> key_char False True 0x02 = 0x31"
proof -
  have "kbd_us ! unat (0x1E :: u8) = 0x61" "kbd_us ! unat (0x02 :: u8) = 0x31" by code_simp+
  with key_decoding [of "0x1E" True True] key_decoding [of "0x1E" False True] key_decoding [of "0x02" False True]
  show ?thesis by (simp add: letter_def Let_def)
qed

text \<open>
  C31: the interrupt routine takes the monitor like a task does. When the interrupted task is inside
  the monitor, a key press makes it wait for itself: it is marked as blocked and put into the queue of
  the mutex it owns, and the routine goes on only if \<^verbatim>\<open>task_yield\<close> returns.
\<close>

theorem keyboard_self_deadlock:
  fixes s :: "'a kbd_sys_scheme"
  assumes "locked (mutexes s mon) \<noteq> 0" and "owner (mutexes s mon) = running_task s" and "running_task s \<noteq> 0"
    and "waiting (m_waiters (mutexes s mon), tcb s) ws" and "running_task s \<notin> set ws"
    and "scancode < 0x80" and "scancode \<notin> {0x2A, 0x36, 0x3A}"
    and "c = key_char (left_shift_pressed s \<or> right_shift_pressed s) (caps_lock s) scancode" and "c \<noteq> 0"
  shows "\<exists>s1. task_state (tcb s1 (running_task s)) = TASK_BLOCKED \<and>
    waiting (m_waiters (mutexes s1 mon), tcb s1) (ws @ [running_task s]) \<and>
    locked (mutexes s1 mon) \<noteq> 0 \<and> owner (mutexes s1 mon) = running_task s \<and>
    keyboard_interrupt yield mon scancode regs s =
      (case (case yield s1 of None \<Rightarrow> None | Some s2 \<Rightarrow> mutex_lock_loop yield mon (running_task s) (cli s2)) of
         None \<Rightarrow> None
       | Some s3 \<Rightarrow> map_option (Pair regs) (echo c (monitor_exit mon (kbd_put mon c s3))))"
proof -
  let ?r = "running_task s"
  obtain w t where b: "block_on ?r (m_waiters (mutexes s mon), tcb s) = Some (w, t)" "waiting (w, t) (ws @ [?r])"
    "relinked ws ?r TASK_BLOCKED (tcb s) t"
    using block_on_ok [OF assms(4,5,3)] by auto
  let ?s = "set_mutex mon (\<lambda>x. x\<lparr>m_waiters := w\<rparr>) ((cli s)\<lparr>tcb := t\<rparr>)"
  have w: "mutex_wait mon ?r (cli s) = Some ?s" using b(1) by (simp add: mutex_wait_def cli_def)
  have l: "locked (mutexes (cli s) mon) \<noteq> 0" using assms(1) by (simp add: cli_def)
  have rc: "running_task (cli s) = ?r" by (simp add: cli_def)
  have e: "monitor_enter yield mon s = (case yield ?s of None \<Rightarrow> None | Some s2 \<Rightarrow> mutex_lock_loop yield mon ?r (cli s2))"
    unfolding monitor_enter_def monitor_lock_def mutex_lock_def task_get_current_def Let_def rc
    by (subst mutex_lock_loop.simps) (simp add: l w)
  have hi: "\<not> 0x80 \<le> scancode" using assms(6) by simp
  have "sint c > 0" using sint_range(3) [OF key_char_meaning(2) [OF assms(6)]] assms(8,9) by simp
  then have k: "keyboard_interrupt yield mon scancode regs s = (case monitor_enter yield mon s of None \<Rightarrow> None
      | Some s \<Rightarrow> map_option (Pair regs) (echo c (monitor_exit mon (kbd_put mon c s))))"
    using assms(7) hi release_bits(1) [of scancode] unfolding assms(8) by (simp add: keyboard_interrupt_def Let_def)
  have f: "task_state (tcb ?s ?r) = TASK_BLOCKED" "m_waiters (mutexes ?s mon) = w" "tcb ?s = t"
    "locked (mutexes ?s mon) \<noteq> 0" "owner (mutexes ?s mon) = ?r"
    using relinked_fields(1) [OF b(3), of ?r] assms(1,2) by (simp_all add: set_mutex_def cli_def)
  show ?thesis unfolding k e using f b(2) by (intro exI [of _ ?s]) simp
qed

theorem keyboard_self_deadlock_witness:
  "\<exists>s :: kbd_sys. keyboard_interrupt (\<lambda>_. None) 500 0x1E 0 (set_mutex 500 (\<lambda>x. x\<lparr>locked := 1, owner := 16\<rparr>) demo_kbd) = None \<and>
     task_state (tcb s 16) = TASK_BLOCKED \<and> locked (mutexes s 500) \<noteq> 0 \<and> owner (mutexes s 500) = 16"
proof -
  let ?s = "set_mutex 500 (\<lambda>x. x\<lparr>locked := 1, owner := 16\<rparr>) demo_kbd"
  have f: "running_task ?s = 16" "locked (mutexes ?s 500) \<noteq> 0" "owner (mutexes ?s 500) = 16" "m_waiters (mutexes ?s 500) = 0"
    using demo_kbd_fields by (simp_all add: set_mutex_def demo_sync_def)
  have m: "\<not> left_shift_pressed ?s" "\<not> right_shift_pressed ?s" "\<not> caps_lock ?s"
    using demo_kbd_fields(2) by (simp_all add: set_mutex_def kbd_mods_def)
  have "key_char False False 0x1E \<noteq> 0" by code_simp
  then have k: "key_char (left_shift_pressed ?s \<or> right_shift_pressed ?s) (caps_lock ?s) 0x1E \<noteq> 0" using m by simp
  have "waiting (m_waiters (mutexes ?s 500), tcb ?s) []" by (simp add: f(4) waiting_def)
  note keyboard_self_deadlock [OF f(2) _ _ this _ _ _ refl, of "0x1E" "\<lambda>_. None" 0]
  from this [unfolded f(1,3), simplified, OF k]
  obtain s1 :: kbd_sys where "task_state (tcb s1 16) = TASK_BLOCKED" "locked (mutexes s1 500) \<noteq> 0" "owner (mutexes s1 500) = 16"
    "keyboard_interrupt (\<lambda>_. None) 500 0x1E 0 ?s = None" by blast
  then show ?thesis by blast
qed

end
