(* ===== verification/Heap_Client.thy ===== *)
theory Heap_Client
  imports Kheap
begin

text \<open>
  What a user of the heap needs: ranges of bytes, operations that change one range only, and a heap
  whose last hole is large enough for a number of requests.
\<close>

section \<open>Ranges of bytes\<close>

definition bytes_from :: "u32 \<Rightarrow> nat \<Rightarrow> u32 set" where
  "bytes_from p n = {a. unat (a - p) < n}"

definition only :: "u32 set \<Rightarrow> mem \<Rightarrow> mem \<Rightarrow> bool" where
  "only S m m' \<longleftrightarrow> (\<forall>a. a \<notin> S \<longrightarrow> m' a = m a)"

lemma only_refl [simp]: "only S m m"
  by (simp add: only_def)

lemma only_trans: "only S m m1 \<Longrightarrow> only S m1 m2 \<Longrightarrow> only S m m2"
  by (simp add: only_def)

lemma only_mono: "only S m m' \<Longrightarrow> S \<subseteq> T \<Longrightarrow> only T m m'"
  by (auto simp: only_def)

lemma bytes_fromI: "i < n \<Longrightarrow> n \<le> 2 ^ 32 \<Longrightarrow> p + of_nat i \<in> bytes_from p n"
  by (simp add: bytes_from_def unat_of_nat_32)

lemma bytes_from_mono: "n \<le> k \<Longrightarrow> bytes_from p n \<subseteq> bytes_from p k"
  by (auto simp: bytes_from_def)

lemma bytes_from_sub:
  assumes "i + k \<le> n"
  shows "bytes_from (p + of_nat i) k \<subseteq> bytes_from p n"
proof
  fix a assume a: "a \<in> bytes_from (p + of_nat i) k"
  let ?j = "unat (a - (p + of_nat i))"
  have "a - p = of_nat (i + ?j)" by simp
  then have "unat (a - p) \<le> i + ?j" by (simp only: unat_of_nat_le)
  then show "a \<in> bytes_from p n" using a assms by (simp add: bytes_from_def)
qed

lemma bytes_from_ex: "a \<in> bytes_from p n \<Longrightarrow> \<exists>i < n. a = p + of_nat i"
  by (intro exI [of _ "unat (a - p)"]) (simp add: bytes_from_def)

lemma sep_disjoint: "sep p n q k \<Longrightarrow> bytes_from p n \<inter> bytes_from q k = {}"
  by (auto dest!: bytes_from_ex simp: sep_def)

lemma only_store32: "only (bytes_from a 4) m (store32 a v m)"
proof -
  have "a \<in> bytes_from a 4" "a + 1 \<in> bytes_from a 4" "a + 2 \<in> bytes_from a 4" "a + 3 \<in> bytes_from a 4"
    by (simp_all add: bytes_from_def)
  then show ?thesis by (auto simp: only_def store32_def)
qed

lemma only_load32:
  assumes "only S m m'" "bytes_from a 4 \<inter> S = {}"
  shows "load32 m' a = load32 m a"
proof (rule load32_cong)
  fix i :: nat assume "i < 4"
  then have "a + of_nat i \<notin> S" using assms(2) bytes_fromI [of i 4 a] by auto
  then show "m' (a + of_nat i) = m (a + of_nat i)" using assms(1) by (simp add: only_def)
qed

text \<open>A run of bytes in memory.\<close>

definition loaded :: "mem \<Rightarrow> u32 \<Rightarrow> u8 list \<Rightarrow> bool" where
  "loaded m a xs \<longleftrightarrow> (\<forall>i < length xs. m (a + of_nat i) = xs ! i)"

lemma loaded_append: "loaded m a (xs @ ys) \<longleftrightarrow> loaded m a xs \<and> loaded m (a + of_nat (length xs)) ys"
proof -
  have "m (a + of_nat i) = (xs @ ys) ! i" if "loaded m a xs" "loaded m (a + of_nat (length xs)) ys" "i < length (xs @ ys)" for i
  proof (cases "i < length xs")
    case False
    then obtain j where j: "i = length xs + j" using le_Suc_ex [of "length xs" i] by auto
    then have "m (a + of_nat (length xs) + of_nat j) = ys ! j" using that by (simp add: loaded_def)
    then show ?thesis by (simp add: j add.assoc nth_append)
  qed (use that in \<open>simp add: loaded_def nth_append\<close>)
  moreover have "loaded m a xs" if "loaded m a (xs @ ys)" using that by (auto simp: loaded_def nth_append)
  moreover have "loaded m (a + of_nat (length xs)) ys" if "loaded m a (xs @ ys)"
    unfolding loaded_def
  proof (intro allI impI)
    fix i assume "i < length ys"
    then have "m (a + of_nat (length xs + i)) = (xs @ ys) ! (length xs + i)"
      using that unfolding loaded_def by (simp del: of_nat_add)
    then show "m (a + of_nat (length xs) + of_nat i) = ys ! i" by (simp add: add.assoc)
  qed
  ultimately show ?thesis unfolding loaded_def [of m a "xs @ ys"] by blast
qed

lemma loaded_concat:
  "loaded m a (concat xss) \<Longrightarrow> i < length xss \<Longrightarrow> loaded m (a + of_nat (sum_list (map length (take i xss)))) (xss ! i)"
proof (induction xss arbitrary: a i)
  case (Cons xs xss)
  show ?case
  proof (cases i)
    case (Suc k)
    then have "loaded m (a + of_nat (length xs) + of_nat (sum_list (map length (take k xss)))) (xss ! k)"
      by (intro Cons.IH) (use Cons.prems in \<open>simp_all add: loaded_append\<close>)
    then show ?thesis by (simp add: Suc add.assoc)
  qed (use Cons.prems in \<open>simp add: loaded_append\<close>)
qed simp

lemma loaded_only:
  assumes "loaded m a xs" "only S m m'" "bytes_from a (length xs) \<inter> S = {}" "length xs \<le> 2 ^ 32"
  shows "loaded m' a xs"
  unfolding loaded_def
proof (intro allI impI)
  fix i assume i: "i < length xs"
  then have "a + of_nat i \<notin> S" using assms(3) bytes_fromI [OF i assms(4), of a] by blast
  then show "m' (a + of_nat i) = xs ! i" using assms(1,2) i by (simp add: loaded_def only_def)
qed

section \<open>Writing into a block\<close>

text \<open>Writing into a block, or below the heap, leaves the blocks alone.\<close>

lemma heap_ok_frame:
  assumes ok: "heap_ok s bs" and o: "only S (hmem s) m'" and d: "\<forall>b \<in> set (heads KHEAP_START bs). bytes_from b 20 \<inter> S = {}"
  shows "heap_ok (s\<lparr>hmem := m'\<rparr>) bs" "live (s\<lparr>hmem := m'\<rparr>) = live s"
proof -
  have "get_header (hmem s) b = get_header m' b" if b: "b \<in> set (heads KHEAP_START bs)" for b
  proof (rule get_header_cong)
    fix k :: nat assume "k < 20"
    then have "b + of_nat k \<in> bytes_from b 20" by (intro bytes_fromI) simp_all
    then have "b + of_nat k \<notin> S" using d b by blast
    then show "hmem s (b + of_nat k) = m' (b + of_nat k)" using o by (simp add: only_def)
  qed
  then have "heap_at m' KHEAP_START bs"
    using heap_okD(2) [OF ok] seg_cong unfolding heap_at_def by metis
  then show ok': "heap_ok (s\<lparr>hmem := m'\<rparr>) bs" using ok by (simp add: heap_ok_def)
  show "live (s\<lparr>hmem := m'\<rparr>) = live s" unfolding live_used [OF ok] live_used [OF ok'] ..
qed

lemma heads_above:
  assumes "heap_ok s bs" "b \<in> set (heads KHEAP_START bs)"
  shows "bytes_from b 20 \<inter> {x. x < KHEAP_START} = {}"
proof -
  have bd: "unat KHEAP_START + span bs < 2 ^ 32" using heap_ok_bounds(1) [OF assms(1)] by simp
  have "\<not> b + of_nat k < KHEAP_START" if "k < 20" for k
  proof -
    have "unat (b + of_nat k) = unat b + k" using heads_range [OF assms(2)] bd that by (intro unat_add_of_nat) simp
    then show ?thesis using heads_range [OF assms(2)] bd by (simp add: word_less_nat_alt)
  qed
  then show ?thesis by (auto dest!: bytes_from_ex)
qed

lemma heap_ok_low:
  assumes "heap_ok s bs" "only {x. x < KHEAP_START} (hmem s) m'"
  shows "heap_ok (s\<lparr>hmem := m'\<rparr>) bs" "live (s\<lparr>hmem := m'\<rparr>) = live s"
  using heap_ok_frame [OF assms] heads_above [OF assms(1)] by simp_all

lemma heap_ok_write:
  assumes ok: "heap_ok s bs" and u: "(p, z) \<in> live s" and o: "only (bytes_from p (unat z) \<union> {x. x < KHEAP_START}) (hmem s) m'"
  shows "heap_ok (s\<lparr>hmem := m'\<rparr>) bs" "live (s\<lparr>hmem := m'\<rparr>) = live s"
proof -
  have us: "(p, z) \<in> used KHEAP_START bs" using u live_used [OF ok] by simp
  have bd: "unat KHEAP_START + span bs < 2 ^ 32" using heap_ok_bounds(1) [OF ok] by simp
  have "\<forall>b \<in> set (heads KHEAP_START bs). bytes_from b 20 \<inter> (bytes_from p (unat z) \<union> {x. x < KHEAP_START}) = {}"
    using sep_disjoint [OF used_sep_heads [OF us bd]] heads_above [OF ok] by blast
  with heap_ok_frame [OF ok o] show "heap_ok (s\<lparr>hmem := m'\<rparr>) bs" "live (s\<lparr>hmem := m'\<rparr>) = live s" by simp_all
qed

lemma live_bytes:
  assumes "heap_inv s" "(q, w) \<in> live s" "a \<in> bytes_from q (unat w)"
  shows "KHEAP_START \<le> a" "a < heap_end s"
proof -
  obtain i where i: "i < unat w" "a = q + of_nat i" using bytes_from_ex [OF assms(3)] by blast
  have "unat a = unat q + i" unfolding i(2)
    using live_range(2) [OF assms(1,2)] i(1) unat_less_32 [of "heap_end s"] by (intro unat_add_of_nat) simp
  then show "KHEAP_START \<le> a" "a < heap_end s"
    using live_range(1,2) [OF assms(1,2)] i(1) by (simp_all add: word_le_nat_alt word_less_nat_alt)
qed

section \<open>A heap with room\<close>

text \<open>The heap ends in a hole of at least \<open>k\<close> bytes.\<close>

definition heap_room :: "heap_state \<Rightarrow> nat \<Rightarrow> bool" where
  "heap_room s k \<longleftrightarrow> (\<exists>ws b. heap_ok s (ws @ [(b, True)]) \<and> k \<le> unat b)"

lemma take_block_room:
  "unat sz + 20 < unat b \<Longrightarrow>
    \<exists>ws' b' p. take_block a (ws @ [(b, True)]) sz False = Some (ws' @ [(b', True)], p) \<and> unat b \<le> unat b' + unat sz + 20"
proof (induction ws arbitrary: a)
  case Nil
  have "unat (b - sz - 20) = unat b - unat sz - 20"
  proof -
    have "sz \<le> b" "(20 :: u32) \<le> b - sz" using Nil by (simp_all add: word_le_nat_alt unat_sub)
    then show ?thesis by (simp add: unat_sub)
  qed
  note u = this
  show ?case
    by (rule exI [of _ "[(sz, False)]"], rule exI [of _ "b - sz - 20"], rule exI [of _ "a + 20"])
       (use Nil u in \<open>simp add: padding_def cut_block_def\<close>)
next
  case (Cons w ws)
  obtain x h where w: "w = (x, h)" by (cases w)
  show ?case
  proof (cases "h \<and> unat sz \<le> unat x")
    case True
    show ?thesis
      by (rule exI [of _ "cut_block x sz @ ws"], rule exI [of _ b], rule exI [of _ "a + 20"])
         (use True in \<open>simp add: w padding_def\<close>)
  next
    case False
    obtain ws' b' p where t: "take_block (a + 20 + x) (ws @ [(b, True)]) sz False = Some (ws' @ [(b', True)], p)"
      "unat b \<le> unat b' + unat sz + 20" using Cons.IH [OF Cons.prems] by blast
    show ?thesis
      by (rule exI [of _ "(x, h) # ws'"], rule exI [of _ b'], rule exI [of _ p])
         (use False t in \<open>auto simp: w padding_def\<close>)
  qed
qed

lemma heap_room_inv: "heap_room s k \<Longrightarrow> heap_inv s"
  by (auto simp: heap_room_def heap_inv_def)

text \<open>The room for requests depends only on the blocks in use and the end of the heap.\<close>

lemma heap_room_live: "heap_room s k \<Longrightarrow> heap_inv s' \<Longrightarrow> live s' = live s \<Longrightarrow> heap_end s' = heap_end s \<Longrightarrow> heap_room s' k"
  unfolding heap_room_def heap_inv_def by (metis heap_ok_determined)

lemma heap_room_write:
  assumes "heap_room s k" "(p, z) \<in> live s" "only (bytes_from p (unat z) \<union> {x. x < KHEAP_START}) (hmem s) m'"
  shows "heap_room (s\<lparr>hmem := m'\<rparr>) k" "live (s\<lparr>hmem := m'\<rparr>) = live s"
  using assms heap_ok_write unfolding heap_room_def by blast+

text \<open>A request then succeeds without growing the heap, and leaves what is outside of the heap alone.\<close>

lemma kmalloc_room_all:
  assumes room: "heap_room s (unat sz + 21 + k)" and sz: "0 < unat sz"
  obtains p z s' where "kmalloc sz s = Some (p, s')" "heap_room s' (k + 1)" "sz \<le> z" "live s' = insert (p, z) (live s)"
    "\<forall>w. (p, w) \<notin> live s" "kept (live s) s s'" "\<forall>x. x < KHEAP_START \<longrightarrow> hmem s' x = hmem s x"
    "heap_end s' = heap_end s" "vm s' = vm s" "\<forall>x. heap_end s \<le> x \<longrightarrow> hmem s' x = hmem s x"
proof -
  obtain ws b where ok: "heap_ok s (ws @ [(b, True)])" and b: "unat sz + 21 + k \<le> unat b"
    using room by (auto simp: heap_room_def)
  have sb: "unat sz + 20 < unat b" using b by simp
  obtain ws' b' p where t: "take_block KHEAP_START (ws @ [(b, True)]) sz False = Some (ws' @ [(b', True)], p)"
    and b': "unat b \<le> unat b' + unat sz + 20" using take_block_room [OF sb] by blast
  note bd = heap_ok_bounds [OF ok]
  have "unat KHEAP_START + unat b + 4096 \<le> 2 ^ 32" using bd(1) by simp
  then have sz2: "unat sz + 8192 \<le> 2 ^ 32" using sb by (simp add: KHEAP_START_def)
  obtain s' where s': "kmalloc_internal sz False s = Some (p, s')" "granted s sz p s'" "heap_ok s' (ws' @ [(b', True)])"
    "vm s' = vm s" using kmalloc_found [OF ok sz sz2 t] by metis
  obtain m' where m': "kmalloc_walk (hmem s) (heap_start s) sz False = Some (Some p, m')"
    "\<forall>x. (\<forall>b \<in> set (heads KHEAP_START (ws' @ [(b', True)])). sep b 20 x 1) \<longrightarrow> m' x = hmem s x"
    using kmalloc_walk_ok(2) [OF ok sz sz2 t] by blast
  have "kmalloc_internal sz False s = Some (p, s\<lparr>hmem := m'\<rparr>)"
    using m'(1) by (subst kmalloc_internal.simps) simp
  then have e: "s' = s\<lparr>hmem := m'\<rparr>" using s'(1) by simp
  have bd': "unat KHEAP_START + span (ws' @ [(b', True)]) \<le> 2 ^ 32" using heap_ok_bounds(1) [OF s'(3)] by simp
  have "hmem s' x = hmem s x" if x: "x < KHEAP_START" for x
  proof -
    have "sep h 20 x 1" if "h \<in> set (heads KHEAP_START (ws' @ [(b', True)]))" for h
      using heads_range [OF that bd'] bd' x by (intro sep_ordered) (simp_all add: word_less_nat_alt)
    then show ?thesis using m'(2) e by simp
  qed
  moreover have "hmem s' x = hmem s x" if x: "heap_end s \<le> x" for x
  proof -
    have he: "unat (heap_end s) = unat KHEAP_START + span (ws' @ [(b', True)])" using heap_okD(5) [OF s'(3)] e by simp
    have "sep h 20 x 1" if "h \<in> set (heads KHEAP_START (ws' @ [(b', True)]))" for h
      using heads_range [OF that bd'] bd' x he unat_less_32 [of x] by (intro sep_ordered) (simp_all add: word_le_nat_alt)
    then show ?thesis using m'(2) e by simp
  qed
  moreover have "heap_room s' (k + 1)" unfolding heap_room_def
    by (intro exI [of _ ws'] exI [of _ b']) (use s'(3) b b' in simp)
  moreover have "heap_end s' = heap_end s" using e by simp
  moreover obtain z where "sz \<le> z" "live s' = insert (p, z) (live s)" "\<forall>w. (p, w) \<notin> live s" "kept (live s) s s'"
    using s'(2) by (auto simp: granted_def)
  ultimately show thesis using s'(1,4) that unfolding kmalloc_def by blast
qed

lemma kmalloc_room:
  assumes "heap_room s (unat sz + 21 + k)" "0 < unat sz"
  obtains p z s' where "kmalloc sz s = Some (p, s')" "heap_room s' (k + 1)" "sz \<le> z" "live s' = insert (p, z) (live s)"
    "\<forall>w. (p, w) \<notin> live s" "kept (live s) s s'" "\<forall>x. x < KHEAP_START \<longrightarrow> hmem s' x = hmem s x"
    "heap_end s' = heap_end s" "vm s' = vm s"
  by (rule kmalloc_room_all [OF assms]) (rule that)

lemma kheap_free_outside:
  assumes inv: "heap_inv s" and lv: "(p, z) \<in> live s" and z: "0 < unat z" and x: "x < KHEAP_START \<or> heap_end s \<le> x"
  shows "hmem (snd (kheap_free p s)) x = hmem s x"
proof -
  obtain bs where ok: "heap_ok s bs" using inv by (auto simp: heap_inv_def)
  note h = heap_okD [OF ok] and b = heap_ok_bounds [OF ok]
  have u: "(p, z) \<in> used KHEAP_START bs" using lv live_used [OF ok] by simp
  then obtain xs ys where bs: "bs = xs @ (z, False) # ys" and p: "p = KHEAP_START + of_nat (span xs) + 20"
    using used_split by blast
  have bd: "unat KHEAP_START + span (xs @ (z, False) # ys) < 2 ^ 32" using b(1) by (simp add: bs)
  have lt: "p < heap_end s" using live_range(2) [OF inv lv] z by (simp add: word_less_nat_alt)
  obtain m where m: "kfree (heap_end s) p (hmem s) = (Freed, m)"
    "\<forall>x. (\<forall>b \<in> set (heads KHEAP_START bs). sep b 20 x 1) \<longrightarrow> m x = hmem s x"
    using kfree_refines [OF h(2) [unfolded bs] lt [unfolded p] bd] unfolding p bs by metis
  have bd': "unat KHEAP_START + span bs \<le> 2 ^ 32" using bd by (simp add: bs)
  have "sep h 20 x 1" if "h \<in> set (heads KHEAP_START bs)" for h
    using heads_range [OF that bd'] bd' x h(5) unat_less_32 [of x]
    by (intro sep_ordered) (auto simp: word_less_nat_alt word_le_nat_alt)
  then show ?thesis using m by (simp add: kheap_free_def)
qed

end
