(* ===== verification/Interrupts.thy ===== *)
theory Interrupts
  imports Keyboard Heap_Client
begin

text \<open>
  The C side of interrupts: \<^verbatim>\<open>isr_handler\<close> and \<^verbatim>\<open>irq_handler\<close> of \<^verbatim>\<open>sys/isr.c\<close>, which call the registered
  handlers, report exceptions and acknowledge interrupts, and \<^verbatim>\<open>page_fault_handler\<close> of \<^verbatim>\<open>mm/vmm.c\<close>.
  What the processor and the devices supply when an interrupt comes is an argument.
\<close>

section \<open>Code\<close>

record machine_input =
  scancode_in :: u8
  cr2 :: u32
  hex_buffer :: u32
  kbd_monitor :: u32

text \<open>A handler returns a stack pointer, or the machine is halted for good.\<close>

datatype 's outcome = Returns u32 's | Halts 's

definition ascii :: "string \<Rightarrow> u8 list" where
  "ascii s = map of_char s"

definition exception_messages :: "string list" where
  "exception_messages = [
     ''Division By Zero'', ''Debug'', ''Non Maskable Interrupt'', ''Breakpoint'',
     ''Into Detected Overflow'', ''Out of Bounds'', ''Invalid Opcode'', ''No Coprocessor'',
     ''Double Fault'', ''Coprocessor Segment Overrun'', ''Bad TSS'', ''Segment Not Present'',
     ''Stack Fault'', ''General Protection Fault'', ''Page Fault'', ''Unknown Interrupt'',
     ''Faulty Coprocessor'', ''Alignment Check'', ''Machine Check'', ''Reserved'',
     ''Reserved'', ''Reserved'', ''Reserved'', ''Reserved'',
     ''Reserved'', ''Reserved'', ''Reserved'', ''Reserved'',
     ''Reserved'', ''Reserved'', ''Reserved'', ''Reserved'']"

text \<open>One call of \<^verbatim>\<open>terminal_writestring\<close> after the other.\<close>

primrec print_all :: "u8 list list \<Rightarrow> 'a term_sys_scheme \<Rightarrow> 'a term_sys_scheme option" where
  "print_all [] t = Some t"
| "print_all (s # ss) t = (case terminal_puts s t of None \<Rightarrow> None | Some t \<Rightarrow> print_all ss t)"

definition page_fault_report :: "u32 \<Rightarrow> u32 \<Rightarrow> u32 \<Rightarrow> 'a term_sys_scheme \<Rightarrow> 'a term_sys_scheme option" where
  "page_fault_report buffer faulting_address err_code t =
     (let present = \<not> (err_code AND 0x1 \<noteq> 0);
          rw = err_code AND 0x2 \<noteq> 0;
          us = err_code AND 0x4 \<noteq> 0;
          reserved = err_code AND 0x8 \<noteq> 0
      in case print_all ([ascii (CHR 0x0A # ''PAGE FAULT! ('')]
             @ (if present then [ascii ''present ''] else [])
             @ (if rw then [ascii ''read-only ''] else [])
             @ (if us then [ascii ''user-mode ''] else [])
             @ (if reserved then [ascii ''reserved ''] else [])
             @ [ascii '') at '']) t of
           None \<Rightarrow> None
         | Some t \<Rightarrow>
             (case terminal_writehex buffer faulting_address t of
                None \<Rightarrow> None
              | Some t \<Rightarrow> terminal_puts (ascii (CHR 0x0A # ''Kernel Halted!'' @ [CHR 0x0A])) t))"

definition int_no :: "u32 \<Rightarrow> 'a task_sys_scheme \<Rightarrow> u32" where "int_no r s = load32 (hmem (heap s)) (r + 36)"
definition err_code :: "u32 \<Rightarrow> 'a task_sys_scheme \<Rightarrow> u32" where "err_code r s = load32 (hmem (heap s)) (r + 40)"

text \<open>The call of a registered handler; \<open>r\<close> is the address of the saved registers.\<close>

definition run_handler :: "('a kbd_sys_scheme \<Rightarrow> 'a kbd_sys_scheme option) \<Rightarrow> machine_input \<Rightarrow> isr_t \<Rightarrow> u32 \<Rightarrow>
    'a kbd_sys_scheme \<Rightarrow> 'a kbd_sys_scheme outcome option" where
  "run_handler yield E h r s =
     (case h of
        page_fault_handler \<Rightarrow>
          map_option (\<lambda>t. Halts (s\<lparr>screen := t\<rparr>)) (page_fault_report (hex_buffer E) (cr2 E) (err_code r s) (screen s))
      | timer_callback \<Rightarrow> map_option (\<lambda>(p, s). Returns p s) (timer_interrupt r s)
      | keyboard_callback \<Rightarrow> map_option (\<lambda>(p, s). Returns p s) (keyboard_interrupt yield (kbd_monitor E) (scancode_in E) r s))"

text \<open>The table has 256 entries; an index behind it has no value.\<close>

definition isr_handler :: "('a kbd_sys_scheme \<Rightarrow> 'a kbd_sys_scheme option) \<Rightarrow> machine_input \<Rightarrow> u32 \<Rightarrow>
    'a kbd_sys_scheme \<Rightarrow> 'a kbd_sys_scheme outcome option" where
  "isr_handler yield E r s =
     (if int_no r s \<ge> 256 then None
      else case interrupt_handlers (vm (heap s)) (ucast (int_no r s)) of
        Some handler \<Rightarrow> run_handler yield E handler r s
      | None \<Rightarrow>
          if int_no r s < 32 then
            map_option (\<lambda>t. Halts (s\<lparr>screen := t\<rparr>))
              (print_all [ascii (CHR 0x0A # ''EXCEPTION: ''), ascii (exception_messages ! unat (int_no r s)),
                 ascii (CHR 0x0A # ''Kernel Halted!'' @ [CHR 0x0A])] (screen s))
          else Some (Returns r s))"


section \<open>Hexadecimal numbers\<close>

definition hex_text :: "u32 \<Rightarrow> u8 list" where
  "hex_text n = [0x30, 0x78] @ map (\<lambda>i. hex_chars ! unat (drop_bit (i * 4) n AND 0xF)) (rev [0..<8])"

definition hex_mem :: "u32 \<Rightarrow> u32 \<Rightarrow> mem \<Rightarrow> mem" where
  "hex_mem buffer n m =
     (fold (\<lambda>i m. m(buffer + 9 - of_nat i := hex_chars ! unat (drop_bit (i * 4) n AND 0xF))) [0..<8]
       (m(buffer := 0x30, buffer + 1 := 0x78)))(buffer + 10 := 0)"

lemma hex_digits:
  "k \<le> 8 \<Longrightarrow> fold (\<lambda>i m. m(b - of_nat i := f i)) [0..<k] m x = (if unat (b - x :: u32) < k then f (unat (b - x)) else m x)"
proof (induction k)
  case (Suc k)
  have "x = b - of_nat k \<longleftrightarrow> b - x = of_nat k" by (auto simp: algebra_simps)
  also have "\<dots> \<longleftrightarrow> unat (b - x) = k"
    using Suc.prems by (auto simp: word_unat_eq_iff unat_of_nat_32)
  finally show ?case using Suc by (auto simp: less_Suc_eq)
qed simp

lemma hex_chars_ascii: "i < 16 \<Longrightarrow> hex_chars ! i \<noteq> 0 \<and> hex_chars ! i < 0x80"
proof -
  have "list_all (\<lambda>c. c \<noteq> 0 \<and> c < 0x80) hex_chars" "length hex_chars = 16" by code_simp+
  then show "i < 16 \<Longrightarrow> ?thesis" by (simp add: list_all_length)
qed

lemma nibble: "unat (w AND 0xF :: u32) < 16"
proof -
  have "w AND 0xF = take_bit 4 w" by (simp add: take_bit_eq_mask mask_eq_exp_minus_1)
  then show ?thesis by (simp add: take_bit_eq_mod unat_mod)
qed

lemma hex_mem_cstr: "cstr (hex_mem buffer n m) buffer (hex_text n)"
proof -
  let ?d = "\<lambda>i. hex_chars ! unat (drop_bit (i * 4) n AND 0xF)"
  have at: "hex_mem buffer n m (buffer + of_nat j) = (if j = 10 then 0 else if 2 \<le> j \<and> j < 10 then ?d (9 - j) else if j = 0 then 0x30 else 0x78)"
    if j: "j \<le> 10" for j
  proof -
    have u: "unat (of_nat j :: u32) = j" by (rule unat_of_nat_32) (use j in simp)
    have e: "(of_nat j :: u32) = of_nat k \<longleftrightarrow> j = k" if k: "k \<le> 10" for k
    proof -
      have "unat (of_nat k :: u32) = k" by (rule unat_of_nat_32) (use k in simp)
      with u show ?thesis by metis
    qed
    have "buffer + 9 - (buffer + of_nat j) = (9 - of_nat j :: u32)" by simp
    moreover have "unat (9 - of_nat j :: u32) = (if j \<le> 9 then 9 - j else 2 ^ 32 - 1)"
      using unat_sub_if' [of "9 :: u32" "of_nat j"] u j by (auto simp: le_Suc_eq)
    ultimately show ?thesis
      unfolding hex_mem_def using e [of 10] e [of 0] e [of 1] j
      by (auto simp: hex_digits algebra_simps)
  qed
  have nth: "hex_text n ! j = (if 2 \<le> j then ?d (9 - j) else if j = 0 then 0x30 else 0x78)" if "j < 10" for j
  proof (cases "2 \<le> j")
    case True
    then obtain k where k: "j = Suc (Suc k)" by (metis add_2_eq_Suc le_Suc_ex)
    then show ?thesis using that by (simp add: hex_text_def rev_nth del: upt_Suc)
  next
    case False
    then have "j = 0 \<or> j = 1" by auto
    then show ?thesis by (auto simp: hex_text_def)
  qed
  have l: "length (hex_text n) = 10" by (simp add: hex_text_def)
  have "?d k \<noteq> 0" for k using hex_chars_ascii [OF nibble] by blast
  then show ?thesis unfolding cstr_nth l using at [of 10] at nth by simp
qed

lemma hex_mem_only: "unat (x - buffer) > 10 \<Longrightarrow> hex_mem buffer n m x = m x"
proof -
  assume x: "unat (x - buffer) > 10"
  have "x \<noteq> buffer" "x \<noteq> buffer + 1" "x \<noteq> buffer + 10" using x by auto
  moreover have "\<not> unat (buffer + 9 - x) < 8"
  proof
    assume a: "unat (buffer + 9 - x) < 8"
    have "x - buffer = 9 - (buffer + 9 - x)" by simp
    then have "unat (x - buffer) = 9 - unat (buffer + 9 - x)"
      using a unat_sub_if' [of "9 :: u32" "buffer + 9 - x"] by simp
    then show False using x by simp
  qed
  ultimately show ?thesis by (simp add: hex_mem_def hex_digits)
qed

lemma hex_text_ascii: "\<forall>c \<in> set (hex_text n). c < 0x80"
  using hex_chars_ascii [OF nibble] by (auto simp: hex_text_def)

lemma terminal_writehex_mem: "terminal_writehex buffer n t = terminal_writestring buffer (t\<lparr>vmem := hex_mem buffer n (vmem t)\<rparr>)"
  by (simp add: terminal_writehex_def hex_mem_def Let_def)

lemma follows_hex:
  assumes f: "follows vbe (digits_area b) m t u" and d: "digits_area b \<inter> framebuffer_area vbe = {}"
  shows "\<exists>t' u'. terminal_writehex b n t = Some t' \<and> terminal_puts (hex_text n) u = Some u' \<and> follows vbe (digits_area b) m t' u'"
proof -
  let ?m = "hex_mem b n (vmem t)"
  let ?t = "t\<lparr>vmem := ?m\<rparr>"
  have out: "?m x = vmem t x" if "x \<notin> digits_area b" for x
    by (rule hex_mem_only) (use that in \<open>simp add: digits_area_def\<close>)
  have "?m x = vmem t x" if "x \<in> framebuffer_area vbe" for x by (rule out) (use d that in blast)
  then have "same_screen ?t u" using f by (simp add: follows_def same_screen_def)
  moreover have "term_ok ?t" using f by (auto simp: follows_def term_ok_def)
  ultimately have ft: "follows vbe (digits_area b) m ?t u" using f out by (simp add: follows_def)
  have c: "cstr (vmem ?t) b (hex_text n)" by (simp add: hex_mem_cstr)
  have "b + of_nat i \<notin> framebuffer_area vbe" if "i \<le> length (hex_text n)" for i
  proof -
    have "b + of_nat i \<in> digits_area b" using that by (simp add: digits_area_def unat_of_nat_32 hex_text_def)
    then show ?thesis using d by blast
  qed
  then show ?thesis using follows_writestring [OF ft c hex_text_ascii] unfolding terminal_writehex_mem by blast
qed

lemma print_all_puts: "print_all ss t = terminal_puts (concat ss) t"
  by (induction ss arbitrary: t) (simp_all add: terminal_puts_append split: option.splits)

section \<open>What is reported\<close>

definition fault_flags :: "u32 \<Rightarrow> u8 list" where
  "fault_flags err = (if \<not> bit err 0 then ascii ''present '' else []) @ (if bit err 1 then ascii ''read-only '' else [])
     @ (if bit err 2 then ascii ''user-mode '' else []) @ (if bit err 3 then ascii ''reserved '' else [])"

text \<open>The report of an exception, with a page fault handler or without one.\<close>

definition report_text :: "isr_t option \<Rightarrow> u32 \<Rightarrow> u32 \<Rightarrow> u32 \<Rightarrow> u8 list" where
  "report_text h n err address =
     (if h = None then ascii (CHR 0x0A # ''EXCEPTION: '') @ ascii (exception_messages ! unat n)
      else ascii (CHR 0x0A # ''PAGE FAULT! ('') @ fault_flags err @ ascii '') at '' @ hex_text address)
     @ ascii (CHR 0x0A # ''Kernel Halted!'' @ [CHR 0x0A])"

lemma flag_bits: "(w AND 1 \<noteq> 0) = bit w 0" "(w AND 2 \<noteq> 0) = bit w 1" "(w AND 4 \<noteq> 0) = bit w 2" "(w AND 8 \<noteq> 0) = bit w 3"
  for w :: u32
proof -
  have b: "(w AND 2 ^ k \<noteq> 0) = bit w k" for k
    by (simp add: bit_iff_and_push_bit_not_eq_0 push_bit_of_1)
  show "(w AND 1 \<noteq> 0) = bit w 0" "(w AND 2 \<noteq> 0) = bit w 1" "(w AND 4 \<noteq> 0) = bit w 2" "(w AND 8 \<noteq> 0) = bit w 3"
    using b [of 0] b [of 1] b [of 2] b [of 3] by simp_all
qed

lemma ascii_small: "\<forall>c \<in> set (ascii (CHR 0x0A # ''PAGE FAULT! ('')). c < 0x80" "\<forall>c \<in> set (fault_flags err). c < 0x80"
  "\<forall>c \<in> set (ascii '') at ''). c < 0x80" "\<forall>c \<in> set (ascii (CHR 0x0A # ''Kernel Halted!'' @ [CHR 0x0A])). c < 0x80"
  "\<forall>c \<in> set (ascii (CHR 0x0A # ''EXCEPTION: '')). c < 0x80"
  by (auto simp: ascii_def fault_flags_def)

lemma messages_small: "n < 32 \<Longrightarrow> \<forall>c \<in> set (ascii (exception_messages ! n)). c < 0x80"
proof -
  have "list_all (\<lambda>s. \<forall>c \<in> set (ascii s). c < 0x80) exception_messages" by (simp add: exception_messages_def ascii_def)
  moreover have "length exception_messages = 32" by (simp add: exception_messages_def)
  ultimately show "n < 32 \<Longrightarrow> ?thesis" by (simp add: list_all_length)
qed

section \<open>Properties\<close>

lemma page_fault_report_ok:
  assumes ok: "term_ok t" and d: "digits_area b \<inter> framebuffer_area (terminal_vbe t) = {}"
  obtains t' u where "page_fault_report b cr e t = Some t'"
    "terminal_puts (ascii (CHR 0x0A # ''PAGE FAULT! ('') @ fault_flags e @ ascii '') at '' @ hex_text cr @
      ascii (CHR 0x0A # ''Kernel Halted!'' @ [CHR 0x0A])) t = Some u"
    "follows (terminal_vbe t) (digits_area b) (vmem t) t' u"
proof -
  let ?xs = "ascii (CHR 0x0A # ''PAGE FAULT! ('') @ fault_flags e @ ascii '') at ''"
  let ?fin = "ascii (CHR 0x0A # ''Kernel Halted!'' @ [CHR 0x0A])"
  let ?f = "follows (terminal_vbe t) (digits_area b) (vmem t)"
  have f: "?f t t" using ok by (simp add: follows_def same_screen_def)
  have "\<forall>c \<in> set ?xs. c < 0x80" using ascii_small(1,3) ascii_small(2) [of e] by auto
  from follows_puts [OF f this] obtain t1 u1 where 1: "terminal_puts ?xs t = Some t1" "terminal_puts ?xs t = Some u1" "?f t1 u1" by blast
  from follows_hex [OF 1(3) d, of cr] obtain t2 u2 where 2: "terminal_writehex b cr t1 = Some t2"
    "terminal_puts (hex_text cr) u1 = Some u2" "?f t2 u2" by blast
  from follows_puts [OF 2(3) ascii_small(4)] obtain t3 u3 where 3: "terminal_puts ?fin t2 = Some t3" "terminal_puts ?fin u2 = Some u3"
    "?f t3 u3" by blast
  have flags: "concat ([ascii (CHR 0x0A # ''PAGE FAULT! ('')] @ (if \<not> e AND 0x1 \<noteq> 0 then [ascii ''present ''] else [])
     @ (if e AND 0x2 \<noteq> 0 then [ascii ''read-only ''] else []) @ (if e AND 0x4 \<noteq> 0 then [ascii ''user-mode ''] else [])
     @ (if e AND 0x8 \<noteq> 0 then [ascii ''reserved ''] else []) @ [ascii '') at '']) = ?xs"
    unfolding flag_bits fault_flags_def by simp
  have "page_fault_report b cr e t = Some t3"
    unfolding page_fault_report_def Let_def print_all_puts flags using 1(1) 2(1) 3(1) by simp
  moreover have "terminal_puts (?xs @ hex_text cr @ ?fin) t = Some u3"
    unfolding terminal_puts_append [of ?xs] terminal_puts_append [of "hex_text cr"] using 1(2) 2(2) 3(2) by simp
  ultimately show thesis using 3(3) that by (simp only: append_assoc)
qed

text \<open>
  C35: an exception that has no handler, or the page fault handler, halts the machine after a report on
  the screen: the name of the exception, or the flags of the error code and the faulting address in
  hexadecimal. Nothing else is written, except the buffer for the digits, and no task is touched. The
  word \<^verbatim>\<open>present\<close> is printed when the page was not present.
\<close>

theorem exceptions_reported:
  fixes s :: "'a kbd_sys_scheme"
  assumes "int_no r s < 32" and "h = interrupt_handlers (vm (heap s)) (ucast (int_no r s))" and "h = None \<or> h = Some page_fault_handler"
    and "term_ok (screen s)" and "digits_area (hex_buffer E) \<inter> framebuffer_area (terminal_vbe (screen s)) = {}"
  shows "\<exists>t u. isr_handler yield E r s = Some (Halts (s\<lparr>screen := t\<rparr>)) \<and>
    terminal_puts (report_text h (int_no r s) (err_code r s) (cr2 E)) (screen s) = Some u \<and> same_screen t u \<and>
    (\<forall>a. a \<notin> framebuffer_area (terminal_vbe (screen s)) \<longrightarrow> a \<notin> digits_area (hex_buffer E) \<longrightarrow> vmem t a = vmem (screen s) a)"
proof -
  let ?t = "screen s" and ?b = "hex_buffer E"
  let ?vbe = "terminal_vbe ?t"
  have f: "follows ?vbe (digits_area ?b) (vmem ?t) ?t ?t" using assms(4) by (simp add: follows_def same_screen_def)
  have n: "\<not> int_no r s \<ge> 256" "unat (int_no r s) < 32" using assms(1) by (simp_all add: word_less_nat_alt word_le_nat_alt)
  note puts = terminal_puts_append print_all_puts
  show ?thesis
  proof (cases "h = None")
    case True
    let ?xs = "ascii (CHR 0x0A # ''EXCEPTION: '') @ ascii (exception_messages ! unat (int_no r s)) @ ascii (CHR 0x0A # ''Kernel Halted!'' @ [CHR 0x0A])"
    have "\<forall>c \<in> set ?xs. c < 0x80" using ascii_small(4,5) messages_small [OF n(2)] by auto
    from follows_puts [OF f this] obtain t' u' where "terminal_puts ?xs ?t = Some t'" "follows ?vbe (digits_area ?b) (vmem ?t) t' u'"
      "terminal_puts ?xs ?t = Some u'" by blast
    moreover have "isr_handler yield E r s = map_option (\<lambda>t. Halts (s\<lparr>screen := t\<rparr>)) (terminal_puts ?xs ?t)"
      using n(1) assms(1,2) True by (simp add: isr_handler_def print_all_puts)
    moreover have "report_text h (int_no r s) (err_code r s) (cr2 E) = ?xs" using True by (simp add: report_text_def)
    ultimately show ?thesis by (auto simp: follows_def)
  next
    case False
    then have h: "h = Some page_fault_handler" using assms(3) by auto
    obtain t' u where 1: "page_fault_report ?b (cr2 E) (err_code r s) ?t = Some t'"
      "terminal_puts (report_text h (int_no r s) (err_code r s) (cr2 E)) ?t = Some u" "follows ?vbe (digits_area ?b) (vmem ?t) t' u"
      by (rule page_fault_report_ok [OF assms(4,5), of "cr2 E" "err_code r s"]) (simp add: h report_text_def)
    have "interrupt_handlers (vm (heap s)) (ucast (int_no r s)) = Some page_fault_handler" using h assms(2) by simp
    then have "isr_handler yield E r s = Some (Halts (s\<lparr>screen := t'\<rparr>))"
      using n(1) 1(1) by (simp add: isr_handler_def run_handler_def)
    then show ?thesis using 1(2,3) by (auto simp: follows_def)
  qed
qed

theorem exceptions_reported_witness:
  "\<exists>t. isr_handler (\<lambda>_. None) \<lparr>scancode_in = 0, cr2 = 0, hex_buffer = 0x8000, kbd_monitor = 500\<rparr> 0x1000 demo_kbd =
     Some (Halts (demo_kbd\<lparr>screen := t\<rparr>))"
proof -
  let ?E = "\<lparr>scancode_in = 0, cr2 = 0, hex_buffer = 0x8000, kbd_monitor = 500\<rparr>"
  have h: "heap demo_kbd = boot_heap boot_state" by (simp add: demo_kbd_def sync_sys.defs demo_sync_def)
  have n: "int_no 0x1000 demo_kbd < 32" by (simp add: int_no_def h boot_heap_def load32_def)
  have i: "None = interrupt_handlers (vm (heap demo_kbd)) (ucast (int_no 0x1000 demo_kbd))"
    by (simp add: h boot_heap_def boot_state_def)
  have t: "term_ok (screen demo_kbd)" using demo_kbd_ready by (simp add: kbd_ready_def)
  have d: "digits_area (hex_buffer ?E) \<inter> framebuffer_area (terminal_vbe (screen demo_kbd)) = {}"
  proof -
    have "sep 0x8000 34 0x10000 2880" by (rule sep_ordered) simp_all
    moreover have "digits_area (hex_buffer ?E) = bytes_from 0x8000 34" "framebuffer_area (terminal_vbe (screen demo_kbd)) = bytes_from 0x10000 2880"
      by (simp_all add: digits_area_def bytes_from_def framebuffer_area_def demo_kbd_fields demo_term_def demo_vbe_def)
    ultimately show ?thesis using sep_disjoint by metis
  qed
  from exceptions_reported [OF n i _ t d, of "\<lambda>_. None"] show ?thesis by blast
qed



end
