(* ===== verification/Vfs.thy ===== *)
theory Vfs
  imports Heap_Client
begin

text \<open>
  \<^verbatim>\<open>vfs.c\<close> and \<^verbatim>\<open>vfs.h\<close>: nodes as structures in memory, and the operations that call the function a
  node points to. A function pointer is an address; \<open>call a\<close> is the function at address \<open>a\<close>, a
  jump to an address without one has no value.
\<close>

section \<open>Nodes\<close>

definition VFS_FILE :: u32 where "VFS_FILE = 0x01"
definition VFS_DIRECTORY :: u32 where "VFS_DIRECTORY = 0x02"
definition VFS_CHARDEVICE :: u32 where "VFS_CHARDEVICE = 0x03"
definition VFS_BLOCKDEVICE :: u32 where "VFS_BLOCKDEVICE = 0x04"
definition VFS_PIPE :: u32 where "VFS_PIPE = 0x05"
definition VFS_SYMLINK :: u32 where "VFS_SYMLINK = 0x06"
definition VFS_MOUNTPOINT :: u32 where "VFS_MOUNTPOINT = 0x08"

text \<open>The addresses of the fields of a node at address \<open>p\<close>: 128 bytes of name, then 14 words.\<close>

definition n_name :: "u32 \<Rightarrow> u32" where "n_name p = p"
definition n_mask :: "u32 \<Rightarrow> u32" where "n_mask p = p + 128"
definition n_uid :: "u32 \<Rightarrow> u32" where "n_uid p = p + 132"
definition n_gid :: "u32 \<Rightarrow> u32" where "n_gid p = p + 136"
definition n_flags :: "u32 \<Rightarrow> u32" where "n_flags p = p + 140"
definition n_inode :: "u32 \<Rightarrow> u32" where "n_inode p = p + 144"
definition n_length :: "u32 \<Rightarrow> u32" where "n_length p = p + 148"
definition n_impl :: "u32 \<Rightarrow> u32" where "n_impl p = p + 152"
definition n_read :: "u32 \<Rightarrow> u32" where "n_read p = p + 156"
definition n_write :: "u32 \<Rightarrow> u32" where "n_write p = p + 160"
definition n_open :: "u32 \<Rightarrow> u32" where "n_open p = p + 164"
definition n_close :: "u32 \<Rightarrow> u32" where "n_close p = p + 168"
definition n_readdir :: "u32 \<Rightarrow> u32" where "n_readdir p = p + 172"
definition n_finddir :: "u32 \<Rightarrow> u32" where "n_finddir p = p + 176"
definition n_ptr :: "u32 \<Rightarrow> u32" where "n_ptr p = p + 180"

lemmas node_fields = n_name_def n_mask_def n_uid_def n_gid_def n_flags_def n_inode_def n_length_def n_impl_def
  n_read_def n_write_def n_open_def n_close_def n_readdir_def n_finddir_def n_ptr_def

definition sizeof_node :: u32 where "sizeof_node = 184"

text \<open>A directory entry: 128 bytes of name and the inode.\<close>

definition d_name :: "u32 \<Rightarrow> u32" where "d_name p = p"
definition d_inode :: "u32 \<Rightarrow> u32" where "d_inode p = p + 128"

section \<open>Operations\<close>

type_synonym read_type_t = "u32 \<Rightarrow> u32 \<Rightarrow> u32 \<Rightarrow> u32 \<Rightarrow> mem \<Rightarrow> (u32 \<times> mem) option"
type_synonym open_type_t = "u32 \<Rightarrow> mem \<Rightarrow> mem option"
type_synonym readdir_type_t = "u32 \<Rightarrow> u32 \<Rightarrow> mem \<Rightarrow> (u32 \<times> mem) option"
type_synonym finddir_type_t = "u32 \<Rightarrow> u32 \<Rightarrow> mem \<Rightarrow> u32 option"

definition vfs_read :: "(u32 \<Rightarrow> read_type_t) \<Rightarrow> read_type_t" where
  "vfs_read call node offset sz buffer m =
     (if load32 m (n_read node) \<noteq> 0 then call (load32 m (n_read node)) node offset sz buffer m else Some (0, m))"

definition vfs_write :: "(u32 \<Rightarrow> read_type_t) \<Rightarrow> read_type_t" where
  "vfs_write call node offset sz buffer m =
     (if load32 m (n_write node) \<noteq> 0 then call (load32 m (n_write node)) node offset sz buffer m else Some (0, m))"

definition vfs_open :: "(u32 \<Rightarrow> open_type_t) \<Rightarrow> u32 \<Rightarrow> u8 \<Rightarrow> u8 \<Rightarrow> mem \<Rightarrow> mem option" where
  "vfs_open call node read write m =
     (if load32 m (n_open node) \<noteq> 0 then call (load32 m (n_open node)) node m else Some m)"

definition vfs_close :: "(u32 \<Rightarrow> open_type_t) \<Rightarrow> u32 \<Rightarrow> mem \<Rightarrow> mem option" where
  "vfs_close call node m =
     (if load32 m (n_close node) \<noteq> 0 then call (load32 m (n_close node)) node m else Some m)"

definition vfs_readdir :: "(u32 \<Rightarrow> readdir_type_t) \<Rightarrow> readdir_type_t" where
  "vfs_readdir call node index m =
     (if load32 m (n_flags node) AND 0x07 = VFS_DIRECTORY \<and> load32 m (n_readdir node) \<noteq> 0
      then call (load32 m (n_readdir node)) node index m else Some (0, m))"

definition vfs_finddir :: "(u32 \<Rightarrow> finddir_type_t) \<Rightarrow> finddir_type_t" where
  "vfs_finddir call node name m =
     (if load32 m (n_flags node) AND 0x07 = VFS_DIRECTORY \<and> load32 m (n_finddir node) \<noteq> 0
      then call (load32 m (n_finddir node)) node name m else Some 0)"

section \<open>Assignments to fields\<close>

text \<open>A sequence of 32-bit assignments, in the order they are made.\<close>

primrec assign :: "(u32 \<times> u32) list \<Rightarrow> mem \<Rightarrow> mem" where
  "assign [] m = m"
| "assign (x # xs) m = assign xs (store32 (fst x) (snd x) m)"

lemma only_assign: "list_all (\<lambda>x. bytes_from (fst x) 4 \<subseteq> S) xs \<Longrightarrow> only S m (assign xs m)"
proof (induction xs arbitrary: m)
  case (Cons x xs)
  then have "only S m (store32 (fst x) (snd x) m)" by (intro only_mono [OF only_store32]) simp
  with Cons show ?case by (auto intro: only_trans)
qed simp

lemma sep_offset:
  assumes "i + n \<le> j \<or> j + k \<le> i" "i + n \<le> 2 ^ 32" "j + k \<le> 2 ^ 32"
  shows "sep (p + of_nat i) n (p + of_nat j) k"
proof (rule sepI, rule notI)
  fix x y assume xy: "x < n" "y < k" and "p + of_nat i + of_nat x = p + of_nat j + of_nat y"
  then have "(of_nat (i + x) :: u32) = of_nat (j + y)" by (simp add: add.assoc)
  moreover have "unat (of_nat (i + x) :: u32) = i + x" "unat (of_nat (j + y) :: u32) = j + y"
    using assms(2,3) xy by (intro unat_of_nat_32; simp)+
  ultimately have "i + x = j + y" by metis
  with assms(1) xy show False by auto
qed

lemma sep_fields:
  assumes "(numeral i :: nat) + 4 \<le> numeral j \<or> (numeral j :: nat) + 4 \<le> numeral i"
    and "(numeral i :: nat) \<le> 184" and "(numeral j :: nat) \<le> 184"
  shows "sep (p + numeral i) 4 (p + numeral j) 4"
proof -
  have "sep (p + of_nat a) 4 (p + of_nat b) 4" if "a + 4 \<le> b \<or> b + 4 \<le> a" "a \<le> 184" "b \<le> 184" for a b :: nat
    by (rule sep_offset) (use that in simp_all)
  from this [of "numeral i" "numeral j", OF assms] show ?thesis by (simp only: of_nat_numeral)
qed

lemma fields_after:
  "(numeral i :: nat) + 4 \<le> n \<Longrightarrow> bytes_from (p + numeral i) 4 \<subseteq> bytes_from p n"
  using bytes_from_sub [of "numeral i" 4 n p] by simp

section \<open>The contract of a file system\<close>

text \<open>
  What the kernel relies on when it reads a file by name: the node it finds, that reading gives the
  bytes of the file, and that the file system survives writes outside of its memory.
\<close>

locale file_tree =
  fixes ok :: "mem \<Rightarrow> bool"
    and area :: "u32 set"
    and root :: u32
    and look_up :: finddir_type_t
    and rd :: read_type_t
    and contents :: "u8 list \<Rightarrow> u8 list option"
    and node_of :: "u8 list \<Rightarrow> u32"
  assumes frame: "ok m \<Longrightarrow> only S m m' \<Longrightarrow> S \<inter> area = {} \<Longrightarrow> ok m'"
    and contents_short: "ok m \<Longrightarrow> contents name = Some c \<Longrightarrow> length c < 2 ^ 32"
    and found: "ok m \<Longrightarrow> cstr m a name \<Longrightarrow> contents name = Some c \<Longrightarrow>
      look_up root a m = Some (node_of name) \<and> node_of name \<noteq> 0 \<and> load32 m (n_length (node_of name)) = of_nat (length c)"
    and read_part: "ok m \<Longrightarrow> contents name = Some c \<Longrightarrow> unat offset + unat sz < 2 ^ 32 \<Longrightarrow>
      bytes_from buffer (unat sz) \<inter> area = {} \<Longrightarrow>
      \<exists>m'. rd (node_of name) offset sz buffer m = Some (of_nat (min (unat sz) (length c - unat offset)), m') \<and>
        loaded m' buffer (take (unat sz) (drop (unat offset) c)) \<and> only (bytes_from buffer (unat sz)) m m'"
begin

text \<open>Reading a whole file into a buffer.\<close>

lemma read_whole:
  assumes "ok m" "contents name = Some c" "bytes_from buffer (length c) \<inter> area = {}"
  shows "\<exists>m'. rd (node_of name) 0 (of_nat (length c)) buffer m = Some (of_nat (length c), m') \<and>
    loaded m' buffer c \<and> only (bytes_from buffer (length c)) m m' \<and> ok m'"
proof -
  have u: "unat (of_nat (length c) :: u32) = length c" by (rule unat_of_nat_32 [OF contents_short [OF assms(1,2)]])
  obtain m' where m': "rd (node_of name) 0 (of_nat (length c)) buffer m = Some (of_nat (length c), m')"
    "loaded m' buffer c" "only (bytes_from buffer (length c)) m m'"
    using read_part [OF assms(1,2), of 0 "of_nat (length c)" buffer] assms(3) contents_short [OF assms(1,2)] by (auto simp: u)
  with frame [OF assms(1) m'(3) assms(3)] show ?thesis by blast
qed

text \<open>Reading a file in two parts is reading it at once.\<close>

lemma read_twice:
  assumes ok: "ok m" and c: "contents name = Some c" and n: "n \<le> length c" and out: "bytes_from buffer (length c) \<inter> area = {}"
  shows "\<exists>m1 m2. rd (node_of name) 0 (of_nat n) buffer m = Some (of_nat n, m1) \<and>
    rd (node_of name) (of_nat n) (of_nat (length c - n)) (buffer + of_nat n) m1 = Some (of_nat (length c - n), m2) \<and> loaded m2 buffer c"
proof -
  note l = contents_short [OF ok c]
  have u: "unat (of_nat n :: u32) = n" "unat (of_nat (length c - n) :: u32) = length c - n"
    using n l by (intro unat_of_nat_32; simp)+
  have s: "bytes_from buffer n \<subseteq> bytes_from buffer (length c)" "bytes_from (buffer + of_nat n) (length c - n) \<subseteq> bytes_from buffer (length c)"
    by (rule bytes_from_mono [OF n], rule bytes_from_sub) (use n in simp)
  obtain m1 where m1: "rd (node_of name) 0 (of_nat n) buffer m = Some (of_nat n, m1)" "loaded m1 buffer (take n c)" "only (bytes_from buffer n) m m1"
    using read_part [OF ok c, of 0 "of_nat n" buffer] n l s(1) out by (auto simp: u min_absorb1)
  have ok1: "ok m1" by (rule frame [OF ok m1(3)]) (use s(1) out in blast)
  obtain m2 where m2: "rd (node_of name) (of_nat n) (of_nat (length c - n)) (buffer + of_nat n) m1 = Some (of_nat (length c - n), m2)"
    "loaded m2 (buffer + of_nat n) (drop n c)" "only (bytes_from (buffer + of_nat n) (length c - n)) m1 m2"
  proof -
    have "n + (length c - n) < 2 ^ 32" "bytes_from (buffer + of_nat n) (length c - n) \<inter> area = {}"
      using n l s(2) out by auto
    from read_part [OF ok1 c, of "of_nat n" "of_nat (length c - n)" "buffer + of_nat n", unfolded u, OF this] that
    show thesis by (auto simp del: of_nat_diff)
  qed
  have "bytes_from buffer n \<inter> bytes_from (buffer + of_nat n) (length c - n) = {}"
    using sep_disjoint [OF sep_offset [of 0 n n "length c - n" buffer]] n l by simp
  then have "loaded m2 buffer (take n c)"
    by (intro loaded_only [OF m1(2) m2(3)]) (use n l in \<open>simp_all add: min_absorb1\<close>)
  then have "loaded m2 buffer (take n c @ drop n c)" using m2(2) n by (subst loaded_append) (simp add: min_absorb1)
  then show ?thesis using m1(1) m2(1) by auto
qed

end

end
