(* ===== verification/Initrd.thy ===== *)
theory Initrd
  imports Vfs Cstring
begin

text \<open>
  \<^verbatim>\<open>initrd.c\<close>: the file system of the initial ramdisk, an image that the boot loader puts into memory
  and \<^verbatim>\<open>tools/mkinitrd.py\<close> builds. The addresses the linker chooses (of the functions stored in
  nodes, of the string literals and of the directory entry) are arguments.
\<close>

section \<open>State and code\<close>

record initrd_link =
  initrd_read_at :: u32
  initrd_readdir_at :: u32
  initrd_finddir_at :: u32
  dirent :: u32
  lit_dev :: u32
  lit_initrd :: u32

record initrd_t =
  initrd_header :: u32
  file_headers :: u32
  initrd_root :: u32
  initrd_dev :: u32
  root_nodes :: u32
  nroot_nodes :: u32

text \<open>The header of the image and those of the files: magic, 64 bytes of name, offset, length.\<close>

definition h_nfiles :: "u32 \<Rightarrow> u32" where "h_nfiles p = p"
definition file_header :: "initrd_t \<Rightarrow> u32 \<Rightarrow> u32" where "file_header I i = file_headers I + 76 * i"
definition f_name :: "u32 \<Rightarrow> u32" where "f_name p = p + 4"
definition f_offset :: "u32 \<Rightarrow> u32" where "f_offset p = p + 68"
definition f_length :: "u32 \<Rightarrow> u32" where "f_length p = p + 72"
definition root_node :: "initrd_t \<Rightarrow> u32 \<Rightarrow> u32" where "root_node I i = root_nodes I + sizeof_node * i"

definition initrd_read :: "initrd_t \<Rightarrow> read_type_t" where
  "initrd_read I node offset sz buffer m =
     (let h = file_header I (load32 m (n_inode node))
      in if offset > load32 m (f_length h) then Some (0, m)
         else
           let sz = (if offset + sz > load32 m (f_length h) then load32 m (f_length h) - offset else sz)
           in Some (sz, memcpy buffer (load32 m (f_offset h) + offset) sz m))"

definition initrd_readdir :: "initrd_link \<Rightarrow> initrd_t \<Rightarrow> readdir_type_t" where
  "initrd_readdir L I node index m =
     (if node = initrd_root I \<and> index = 0 then
        map_option (\<lambda>m. (dirent L, store32 (d_inode (dirent L)) 0 m)) (strcpy (d_name (dirent L)) (lit_dev L) m)
      else if node = initrd_root I \<and> index - 1 < nroot_nodes I then
        map_option (\<lambda>m. (dirent L, store32 (d_inode (dirent L)) (load32 m (n_inode (root_node I (index - 1)))) m))
          (strcpy (d_name (dirent L)) (n_name (root_node I (index - 1))) m)
      else Some (0, m))"

partial_function (option) finddir_loop :: "initrd_t \<Rightarrow> u32 \<Rightarrow> u32 \<Rightarrow> mem \<Rightarrow> u32 option" where
  "finddir_loop I i name m =
     (if sint i < sint (nroot_nodes I) then
        case strcmp m name (n_name (root_node I i)) of
          None \<Rightarrow> None
        | Some r \<Rightarrow> if r = 0 then Some (root_node I i) else finddir_loop I (i + 1) name m
      else Some 0)"

definition initrd_finddir :: "initrd_link \<Rightarrow> initrd_t \<Rightarrow> finddir_type_t" where
  "initrd_finddir L I node name m =
     (if node = initrd_root I then
        case strcmp m name (lit_dev L) of
          None \<Rightarrow> None
        | Some r \<Rightarrow> if r = 0 then Some (initrd_dev I) else finddir_loop I 0 name m
      else finddir_loop I 0 name m)"

text \<open>The fields of the two directory nodes; chained assignments run from right to left.\<close>

definition init_dir :: "initrd_link \<Rightarrow> u32 \<Rightarrow> u32 \<Rightarrow> mem \<Rightarrow> mem option" where
  "init_dir L name p m =
     map_option (assign [
         (n_length p, 0), (n_inode p, 0), (n_gid p, 0), (n_uid p, 0), (n_mask p, 0),
         (n_flags p, VFS_DIRECTORY),
         (n_read p, 0), (n_write p, 0), (n_open p, 0), (n_close p, 0),
         (n_readdir p, initrd_readdir_at L), (n_finddir p, initrd_finddir_at L),
         (n_ptr p, 0), (n_impl p, 0)])
       (strcpy (n_name p) name m)"

text \<open>The body of the loop over the files.\<close>

definition init_file :: "initrd_link \<Rightarrow> initrd_t \<Rightarrow> u32 \<Rightarrow> u32 \<Rightarrow> mem \<Rightarrow> mem option" where
  "init_file L I location i m =
     (let h = file_header I i; p = root_node I i;
          m = store32 (f_offset h) (load32 m (f_offset h) + location) m
      in map_option (\<lambda>m. assign [
             (n_gid p, 0), (n_uid p, 0), (n_mask p, 0),
             (n_length p, load32 (assign [(n_gid p, 0), (n_uid p, 0), (n_mask p, 0)] m) (f_length h)),
             (n_inode p, i), (n_flags p, VFS_FILE),
             (n_read p, initrd_read_at L), (n_write p, 0), (n_readdir p, 0), (n_finddir p, 0),
             (n_open p, 0), (n_close p, 0), (n_impl p, 0)] m)
           (strcpy (n_name p) (f_name h) m))"

partial_function (option) init_files :: "initrd_link \<Rightarrow> initrd_t \<Rightarrow> u32 \<Rightarrow> u32 \<Rightarrow> mem \<Rightarrow> mem option" where
  "init_files L I location i m =
     (if i < load32 m (h_nfiles (initrd_header I)) then
        case init_file L I location i m of
          None \<Rightarrow> None
        | Some m \<Rightarrow> init_files L I location (i + 1) m
      else Some m)"

definition initialise_initrd :: "initrd_link \<Rightarrow> u32 \<Rightarrow> heap_state \<Rightarrow> (u32 \<times> initrd_t \<times> heap_state) option" where
  "initialise_initrd L location s =
     (case kmalloc sizeof_node s of None \<Rightarrow> None | Some (root, s) \<Rightarrow>
       (case init_dir L (lit_initrd L) root (hmem s) of None \<Rightarrow> None | Some m \<Rightarrow>
         (case kmalloc sizeof_node (s\<lparr>hmem := m\<rparr>) of None \<Rightarrow> None | Some (dev, s) \<Rightarrow>
           (case init_dir L (lit_dev L) dev (hmem s) of None \<Rightarrow> None | Some m \<Rightarrow>
             (case kmalloc (sizeof_node * load32 m (h_nfiles location)) (s\<lparr>hmem := m\<rparr>) of None \<Rightarrow> None | Some (nodes, s) \<Rightarrow>
               (let I = \<lparr>initrd_header = location, file_headers = location + 4, initrd_root = root, initrd_dev = dev,
                         root_nodes = nodes, nroot_nodes = load32 (hmem s) (h_nfiles location)\<rparr>
                in map_option (\<lambda>m. (root, I, s\<lparr>hmem := m\<rparr>)) (init_files L I location 0 (hmem s))))))))"

text \<open>The functions the kernel puts into nodes, by address.\<close>

definition kernel_read :: "initrd_link \<Rightarrow> initrd_t \<Rightarrow> u32 \<Rightarrow> read_type_t" where
  "kernel_read L I a = (if a = initrd_read_at L then initrd_read I else (\<lambda>_ _ _ _ _. None))"

definition kernel_readdir :: "initrd_link \<Rightarrow> initrd_t \<Rightarrow> u32 \<Rightarrow> readdir_type_t" where
  "kernel_readdir L I a = (if a = initrd_readdir_at L then initrd_readdir L I else (\<lambda>_ _ _. None))"

definition kernel_finddir :: "initrd_link \<Rightarrow> initrd_t \<Rightarrow> u32 \<Rightarrow> finddir_type_t" where
  "kernel_finddir L I a = (if a = initrd_finddir_at L then initrd_finddir L I else (\<lambda>_ _ _. None))"

section \<open>\<^verbatim>\<open>tools/mkinitrd.py\<close>\<close>

definition le32 :: "nat \<Rightarrow> u8 list" where
  "le32 n = [of_nat n, of_nat (n div 256), of_nat (n div 65536), of_nat (n div 16777216)]"

text \<open>The part of a path behind the last slash, cut to 63 characters.\<close>

definition mk_name :: "u8 list \<Rightarrow> u8 list" where
  "mk_name filename = take 63 (rev (takeWhile (\<lambda>c. c \<noteq> 0x2F) (rev filename)))"

definition mk_header :: "u8 list \<Rightarrow> nat \<Rightarrow> nat \<Rightarrow> u8 list" where
  "mk_header name offset len = le32 0xBF @ name @ replicate (64 - length name) 0 @ le32 offset @ le32 len"

primrec mk_headers :: "nat \<Rightarrow> (u8 list \<times> u8 list) list \<Rightarrow> u8 list list" where
  "mk_headers offset [] = []"
| "mk_headers offset (f # fs) =
     mk_header (mk_name (fst f)) offset (length (snd f)) # mk_headers (offset + length (snd f)) fs"

definition mkinitrd :: "(u8 list \<times> u8 list) list \<Rightarrow> u8 list" where
  "mkinitrd files =
     (let header_size = 4 + length files * 76
      in le32 (length files) @ concat (mk_headers header_size files) @ concat (map snd files))"

section \<open>The image in memory\<close>

lemma loaded_le32:
  assumes "loaded m a (le32 n)" "n < 2 ^ 32"
  shows "load32 m a = of_nat n"
proof -
  have b: "m (a + of_nat i) = le32 n ! i" if "i < 4" for i using assms(1) that by (simp add: loaded_def le32_def)
  have u: "ucast (drop_bit k (of_nat n :: u32)) = (of_nat (n div 2 ^ k) :: u8)" for k
  proof -
    have "unat (drop_bit k (of_nat n :: u32)) = n div 2 ^ k"
      unfolding unat_drop_bit_eq unat_of_nat_32 [OF assms(2)] by (rule drop_bit_eq_div)
    then show ?thesis by (simp add: word_unat_eq_iff unsigned_ucast_eq unat_of_nat take_bit_eq_mod)
  qed
  have "m a = ucast (of_nat n :: u32)" "m (a + 1) = ucast (drop_bit 8 (of_nat n :: u32))"
    "m (a + 2) = ucast (drop_bit 16 (of_nat n :: u32))" "m (a + 3) = ucast (drop_bit 24 (of_nat n :: u32))"
    using b [of 0] b [of 1] b [of 2] b [of 3] u [of 8] u [of 16] u [of 24] u [of 0] by (simp_all add: le32_def)
  then show ?thesis unfolding load32_def by (simp only: bytes_of_word)
qed

lemma loaded_cstr:
  assumes "loaded m a (xs @ 0 # ys)" "0 \<notin> set xs"
  shows "cstr m a xs"
proof -
  have l: "loaded m a xs" "loaded m (a + of_nat (length xs)) (0 # ys)" using assms(1) by (simp_all add: loaded_append)
  have "m (a + of_nat (length xs)) = 0" using l(2) by (auto simp: loaded_def dest: spec [of _ 0])
  moreover have "xs ! i \<noteq> 0" if "i < length xs" for i using nth_mem [OF that] assms(2) by auto
  ultimately show ?thesis using l(1) by (simp add: cstr_nth loaded_def)
qed

definition file_offset :: "(u8 list \<times> u8 list) list \<Rightarrow> nat \<Rightarrow> nat" where
  "file_offset files i = 4 + length files * 76 + sum_list (map length (take i (map snd files)))"

lemma length_le32 [simp]: "length (le32 n) = 4"
  by (simp add: le32_def)

lemma length_mk_name: "length (mk_name f) \<le> 63"
  by (simp add: mk_name_def)

lemma length_mk_header: "length name \<le> 64 \<Longrightarrow> length (mk_header name off len) = 76"
  by (simp add: mk_header_def)

lemma mk_headers_nth: "i < length fs \<Longrightarrow> mk_headers off fs ! i =
    mk_header (mk_name (fst (fs ! i))) (off + sum_list (map length (take i (map snd fs)))) (length (snd (fs ! i)))"
proof (induction fs arbitrary: off i)
  case (Cons f fs)
  then show ?case by (cases i) (simp_all add: add.assoc)
qed simp

lemma length_mk_headers [simp]: "length (mk_headers off fs) = length fs"
  by (induction fs arbitrary: off) auto

lemma mk_headers_sum: "i \<le> length fs \<Longrightarrow> sum_list (map length (take i (mk_headers off fs))) = 76 * i"
proof (induction fs arbitrary: off i)
  case (Cons f fs)
  have "length (mk_header (mk_name (fst f)) off (length (snd f))) = 76"
    by (rule length_mk_header) (use length_mk_name [of "fst f"] in simp)
  with Cons show ?case by (cases i) simp_all
qed simp

lemma length_mkinitrd: "length (mkinitrd files) = file_offset files (length files)"
  using mk_headers_sum [of "length files" files] by (simp add: mkinitrd_def file_offset_def length_concat Let_def)

lemma file_offset_end: "i < length files \<Longrightarrow> file_offset files i + length (snd (files ! i)) \<le> length (mkinitrd files)"
proof -
  assume i: "i < length files"
  have "sum_list (map length (take i (map snd files))) + length (snd (files ! i)) =
      sum_list (map length (take (Suc i) (map snd files)))" using i by (simp add: take_Suc_conv_app_nth)
  also have "\<dots> \<le> sum_list (map length (map snd files))"
  proof -
    have "sum_list (map length (map snd files)) = sum_list (map length (take (Suc i) (map snd files))) +
        sum_list (map length (drop (Suc i) (map snd files)))"
      by (metis append_take_drop_id map_append sum_list_append)
    then show ?thesis by simp
  qed
  finally show ?thesis by (simp add: length_mkinitrd file_offset_def)
qed

text \<open>What the kernel finds in an image that is in memory.\<close>

lemma image_facts:
  assumes l: "loaded m loc (mkinitrd files)" and sz: "length (mkinitrd files) < 2 ^ 32"
  shows "load32 m loc = of_nat (length files)"
    and "i < length files \<Longrightarrow> 0 \<notin> set (fst (files ! i)) \<Longrightarrow> cstr m (loc + 4 + 76 * of_nat i + 4) (mk_name (fst (files ! i)))"
    and "i < length files \<Longrightarrow> load32 m (loc + 4 + 76 * of_nat i + 68) = of_nat (file_offset files i)"
    and "i < length files \<Longrightarrow> load32 m (loc + 4 + 76 * of_nat i + 72) = of_nat (length (snd (files ! i)))"
    and "i < length files \<Longrightarrow> loaded m (loc + of_nat (file_offset files i)) (snd (files ! i))"
proof -
  have n: "length files < 2 ^ 32" using sz by (simp add: length_mkinitrd file_offset_def)
  let ?hs = "mk_headers (4 + length files * 76) files"
  have p: "loaded m loc (le32 (length files))" "loaded m (loc + 4) (concat ?hs)"
    "loaded m (loc + 4 + of_nat (76 * length files)) (concat (map snd files))"
    using l mk_headers_sum [of "length files" files "4 + length files * 76"]
    by (simp_all add: mkinitrd_def loaded_append Let_def length_concat)
  show "load32 m loc = of_nat (length files)" by (rule loaded_le32 [OF p(1) n])
  assume i: "i < length files"
  let ?h = "loc + 4 + 76 * of_nat i"
  let ?name = "mk_name (fst (files ! i))"
  have ol: "file_offset files i < 2 ^ 32" "length (snd (files ! i)) < 2 ^ 32" using file_offset_end [OF i] sz by simp_all
  have nl: "length ?name \<le> 63" by (rule length_mk_name)
  then have z: "replicate (64 - length ?name) 0 = (0 :: u8) # replicate (63 - length ?name) 0"
    by (simp add: Suc_diff_le flip: replicate_Suc)
  have "loaded m (loc + 4 + of_nat (76 * i)) (?hs ! i)"
    using loaded_concat [OF p(2), of i] i mk_headers_sum [of i files "4 + length files * 76"] by simp
  then have "loaded m ?h (mk_header ?name (file_offset files i) (length (snd (files ! i))))"
    using mk_headers_nth [OF i] by (simp add: file_offset_def)
  then have h: "loaded m (?h + 4) (?name @ 0 # replicate (63 - length ?name) 0)"
    "loaded m (?h + of_nat 68) (le32 (file_offset files i))" "loaded m (?h + of_nat 72) (le32 (length (snd (files ! i))))"
  proof -
    assume "loaded m ?h (mk_header ?name (file_offset files i) (length (snd (files ! i))))"
    then have a: "loaded m (?h + 4) ((?name @ replicate (64 - length ?name) 0) @ le32 (file_offset files i) @ le32 (length (snd (files ! i))))"
      by (simp add: mk_header_def loaded_append)
    have "length (?name @ replicate (64 - length ?name) 0) = 64" using nl by simp
    note b = a [unfolded loaded_append [of m "?h + 4" "?name @ replicate (64 - length ?name) 0"] this]
    show "loaded m (?h + 4) (?name @ 0 # replicate (63 - length ?name) 0)" using b z by simp
    show "loaded m (?h + of_nat 68) (le32 (file_offset files i))" "loaded m (?h + of_nat 72) (le32 (length (snd (files ! i))))"
      using b by (simp_all add: loaded_append add.assoc)
  qed
  show "load32 m (?h + 68) = of_nat (file_offset files i)" using loaded_le32 [OF h(2) ol(1)] by simp
  show "load32 m (?h + 72) = of_nat (length (snd (files ! i)))" using loaded_le32 [OF h(3) ol(2)] by simp
  have "loaded m (loc + 4 + of_nat (76 * length files) + of_nat (sum_list (map length (take i (map snd files))))) (map snd files ! i)"
    by (rule loaded_concat [OF p(3)]) (use i in simp)
  then show "loaded m (loc + of_nat (file_offset files i)) (snd (files ! i))"
    using i by (simp add: file_offset_def add.assoc mult.commute)
  show "cstr m (?h + 4) ?name" if "0 \<notin> set (fst (files ! i))"
  proof (rule loaded_cstr [OF h(1)])
    have "set ?name \<subseteq> set (fst (files ! i))"
      by (auto simp: mk_name_def dest!: in_set_takeD set_takeWhileD)
    then show "0 \<notin> set ?name" using that by blast
  qed
qed

section \<open>Nodes\<close>

definition dir_node :: "initrd_link \<Rightarrow> mem \<Rightarrow> u32 \<Rightarrow> u8 list \<Rightarrow> bool" where
  "dir_node L m p name \<longleftrightarrow> cstr m (n_name p) name \<and> load32 m (n_flags p) = VFS_DIRECTORY \<and> load32 m (n_inode p) = 0 \<and>
     load32 m (n_length p) = 0 \<and> load32 m (n_read p) = 0 \<and> load32 m (n_write p) = 0 \<and> load32 m (n_open p) = 0 \<and>
     load32 m (n_close p) = 0 \<and> load32 m (n_readdir p) = initrd_readdir_at L \<and> load32 m (n_finddir p) = initrd_finddir_at L"

definition file_node :: "initrd_link \<Rightarrow> mem \<Rightarrow> u32 \<Rightarrow> u8 list \<Rightarrow> u32 \<Rightarrow> u32 \<Rightarrow> bool" where
  "file_node L m p name i len \<longleftrightarrow> cstr m (n_name p) name \<and> load32 m (n_flags p) = VFS_FILE \<and> load32 m (n_inode p) = i \<and>
     load32 m (n_length p) = len \<and> load32 m (n_read p) = initrd_read_at L \<and> load32 m (n_write p) = 0 \<and> load32 m (n_open p) = 0 \<and>
     load32 m (n_close p) = 0 \<and> load32 m (n_readdir p) = 0 \<and> load32 m (n_finddir p) = 0"

lemma cstr_only:
  assumes "cstr m a xs" "only S m m'" "bytes_from a (Suc (length xs)) \<inter> S = {}" "Suc (length xs) \<le> 2 ^ 32"
  shows "cstr m' a xs"
proof (rule iffD1 [OF cstr_cong assms(1)])
  fix i assume "i \<le> length xs"
  then have "a + of_nat i \<notin> S" using assms(3) bytes_fromI [of i "Suc (length xs)" a] assms(4) by auto
  then show "m (a + of_nat i) = m' (a + of_nat i)" using assms(2) by (simp add: only_def)
qed

lemma strcpy_only:
  assumes "cstr m src xs" "length xs < unat (dest - src)" "length xs \<le> 127"
  obtains m' where "strcpy dest src m = Some m'" "cstr m' dest xs" "only (bytes_from dest 128) m m'"
proof -
  obtain m' where m': "strcpy dest src m = Some m'" "cstr m' dest xs" "\<And>x. length xs < unat (x - dest) \<Longrightarrow> m' x = m x"
    using strcpy_cstr [OF assms(1), of dest] assms(2,3) by auto
  have "only (bytes_from dest 128) m m'" using m'(3) assms(3) by (auto simp: only_def bytes_from_def)
  with m'(1,2) show thesis by (rule that)
qed

lemma name_apart: "bytes_from p 128 \<inter> bytes_from (p + 128) 56 = {}"
  using sep_disjoint [OF sep_offset [of 0 128 128 56 p]] by simp

lemma fields_in: "128 \<le> (numeral i :: nat) \<Longrightarrow> (numeral i :: nat) \<le> 180 \<Longrightarrow> bytes_from (p + numeral i) 4 \<subseteq> bytes_from (p + 128) 56"
proof -
  have "bytes_from (p + 128 + of_nat (j - 128)) 4 \<subseteq> bytes_from (p + 128) 56" if "128 \<le> j" "j \<le> 180" for j :: nat
    by (rule bytes_from_sub) (use that in simp)
  moreover have "p + 128 + of_nat (j - 128) = p + of_nat j" if "128 \<le> j" for j :: nat
    using that by (simp add: of_nat_diff)
  ultimately have "bytes_from (p + of_nat j) 4 \<subseteq> bytes_from (p + 128) 56" if "128 \<le> j" "j \<le> 180" for j :: nat using that by metis
  from this [of "numeral i"] show "128 \<le> (numeral i :: nat) \<Longrightarrow> (numeral i :: nat) \<le> 180 \<Longrightarrow> ?thesis" by (simp only: of_nat_numeral)
qed

lemma node_parts: "bytes_from p 128 \<subseteq> bytes_from p 184" "bytes_from (p + 128) 56 \<subseteq> bytes_from p 184"
  using bytes_from_sub [of 0 128 184 p] bytes_from_sub [of 128 56 184 p] by simp_all

lemma init_dir_ok:
  assumes "cstr m lit name" "length name < unat (p - lit)" "length name \<le> 127"
  obtains m' where "init_dir L lit p m = Some m'" "dir_node L m' p name" "only (bytes_from p 184) m m'"
proof -
  obtain m1 where m1: "strcpy (n_name p) lit m = Some m1" "cstr m1 p name" "only (bytes_from p 128) m m1"
    using strcpy_only [OF assms] by (auto simp: n_name_def)
  let ?xs = "[(n_length p, 0), (n_inode p, 0), (n_gid p, 0), (n_uid p, 0), (n_mask p, 0), (n_flags p, VFS_DIRECTORY),
         (n_read p, 0), (n_write p, 0), (n_open p, 0), (n_close p, 0), (n_readdir p, initrd_readdir_at L),
         (n_finddir p, initrd_finddir_at L), (n_ptr p, 0), (n_impl p, 0)]"
  let ?m = "assign ?xs m1"
  have o: "only (bytes_from (p + 128) 56) m1 ?m"
    by (rule only_assign) (simp add: node_fields fields_in)
  have "cstr ?m p name"
    by (rule cstr_only [OF m1(2) o]) (use assms(3) bytes_from_mono [of "Suc (length name)" 128 p] name_apart [of p] in auto)
  then have "dir_node L ?m p name"
    unfolding dir_node_def by (simp add: node_fields mem_simps sep_fields)
  moreover have "only (bytes_from p 184) m ?m"
    using only_mono [OF m1(3) node_parts(1)] only_mono [OF o node_parts(2)] by (rule only_trans)
  moreover have "init_dir L lit p m = Some ?m" unfolding init_dir_def m1(1) by simp
  ultimately show thesis using that by blast
qed

lemma init_file_ok:
  assumes c: "cstr m (f_name (file_header I i)) name" "length name \<le> 63"
    and d: "length name < unat (root_node I i - f_name (file_header I i))"
    and ap: "bytes_from (file_header I i) 76 \<inter> bytes_from (root_node I i) 184 = {}"
  defines "h \<equiv> file_header I i" and "p \<equiv> root_node I i"
  obtains m' where "init_file L I loc i m = Some m'" "file_node L m' p name i (load32 m (f_length h))"
    "only (bytes_from (f_offset h) 4 \<union> bytes_from p 184) m m'" "load32 m' (f_offset h) = load32 m (f_offset h) + loc"
proof -
  have hs: "bytes_from (h + 4) 64 \<subseteq> bytes_from h 76" "bytes_from (h + 68) 4 \<subseteq> bytes_from h 76" "bytes_from (h + 72) 4 \<subseteq> bytes_from h 76"
    using bytes_from_sub [of 4 64 76 h] bytes_from_sub [of 68 4 76 h] bytes_from_sub [of 72 4 76 h] by simp_all
  have hsep: "bytes_from (h + 4) 64 \<inter> bytes_from (h + 68) 4 = {}"
    using sep_disjoint [OF sep_offset [of 4 64 68 4 h]] by simp
  have hsep2: "bytes_from (h + 72) 4 \<inter> bytes_from (h + 68) 4 = {}"
    using sep_disjoint [OF sep_offset [of 72 4 68 4 h]] by simp
  have ap': "bytes_from h 76 \<inter> bytes_from p 184 = {}" using ap by (simp add: h_def p_def)
  let ?before = "store32 (f_offset h) (load32 m (f_offset h) + loc) m"
  have o0: "only (bytes_from (h + 68) 4) m ?before" unfolding f_offset_def by (rule only_store32)
  have "cstr ?before (h + 4) name"
    by (rule cstr_only [OF _ o0]) (use c hsep bytes_from_mono [of "Suc (length name)" 64 "h + 4"] in \<open>auto simp: f_name_def h_def\<close>)
  moreover have "length name < unat (p - (h + 4))" using d by (simp add: f_name_def h_def p_def)
  ultimately obtain m1 where m1: "strcpy p (h + 4) ?before = Some m1" "cstr m1 p name" "only (bytes_from p 128) ?before m1"
    by (rule strcpy_only) (use c(2) in simp)
  let ?len = "load32 (assign [(n_gid p, 0), (n_uid p, 0), (n_mask p, 0)] m1) (f_length h)"
  let ?xs = "[(n_gid p, 0), (n_uid p, 0), (n_mask p, 0), (n_length p, ?len), (n_inode p, i), (n_flags p, VFS_FILE),
             (n_read p, initrd_read_at L), (n_write p, 0), (n_readdir p, 0), (n_finddir p, 0), (n_open p, 0), (n_close p, 0), (n_impl p, 0)]"
  let ?m = "assign ?xs m1"
  have o: "only (bytes_from (p + 128) 56) m1 ?m"
    by (rule only_assign) (simp add: node_fields fields_in)
  have o': "only (bytes_from (p + 128) 56) m1 (assign [(n_gid p, 0), (n_uid p, 0), (n_mask p, 0)] m1)"
    by (rule only_assign) (simp add: node_fields fields_in)
  note o1 = only_mono [OF m1(3) node_parts(1)]
  have o2: "only (bytes_from p 184) ?before (assign [(n_gid p, 0), (n_uid p, 0), (n_mask p, 0)] m1)"
    using o1 only_mono [OF o' node_parts(2)] by (rule only_trans)
  have "?len = load32 ?before (f_length h)"
    by (rule only_load32 [OF o2]) (use hs(3) ap' in \<open>auto simp: f_length_def\<close>)
  also have "\<dots> = load32 m (f_length h)" by (rule only_load32 [OF o0]) (use hsep2 in \<open>simp add: f_length_def\<close>)
  finally have len: "?len = load32 m (f_length h)" .
  have "cstr ?m p name"
    by (rule cstr_only [OF m1(2) o]) (use c(2) bytes_from_mono [of "Suc (length name)" 128 p] name_apart [of p] in auto)
  then have "file_node L ?m p name i ?len"
    unfolding file_node_def by (simp add: node_fields mem_simps sep_fields)
  then have "file_node L ?m p name i (load32 m (f_length h))" unfolding len .
  moreover have om: "only (bytes_from p 184) ?before ?m" using o1 only_mono [OF o node_parts(2)] by (rule only_trans)
  then have "only (bytes_from (f_offset h) 4 \<union> bytes_from p 184) m ?m"
    using o0 by (auto simp: only_def f_offset_def)
  moreover have "load32 ?m (f_offset h) = load32 m (f_offset h) + loc"
  proof -
    have "load32 ?m (f_offset h) = load32 ?before (f_offset h)"
      by (rule only_load32 [OF om]) (use hs(2) ap' in \<open>auto simp: f_offset_def\<close>)
    then show ?thesis by (simp add: load32_store32_same)
  qed
  moreover have "init_file L I loc i m = Some ?m"
    using m1(1) unfolding init_file_def Let_def n_name_def f_name_def p_def [symmetric] h_def [symmetric] by simp
  ultimately show thesis using that by blast
qed

end
