(* ===== verification/Initrd_Mount.thy ===== *)
theory Initrd_Mount
  imports Initrd
begin

text \<open>
  What \<^verbatim>\<open>initialise_initrd\<close> builds: the loop over the files, the two directories, and the well-formed
  file system that they leave in memory.
\<close>

lemma fields_of: "128 \<le> (numeral i :: nat) \<Longrightarrow> (numeral i :: nat) \<le> 180 \<Longrightarrow> bytes_from (p + numeral i) 4 \<subseteq> bytes_from p 184"
  by (rule order_trans [OF fields_in node_parts(2)])

lemma node_load:
  assumes "only S m m'" "bytes_from p 184 \<inter> S = {}" "128 \<le> (numeral i :: nat)" "(numeral i :: nat) \<le> 180"
  shows "load32 m' (p + numeral i) = load32 m (p + numeral i)"
  by (rule only_load32 [OF assms(1)]) (use fields_of [OF assms(3,4), of p] assms(2) in blast)

lemma node_name_kept:
  assumes "cstr m p name" "length name \<le> 127" "only S m m'" "bytes_from p 184 \<inter> S = {}"
  shows "cstr m' p name"
  by (rule cstr_only [OF assms(1,3)]) (use assms(2,4) bytes_from_mono [of "Suc (length name)" 184 p] in auto)

lemma dir_node_only:
  assumes "dir_node L m p name" "length name \<le> 127" "only S m m'" "bytes_from p 184 \<inter> S = {}"
  shows "dir_node L m' p name"
  using assms(1) node_name_kept [OF _ assms(2-4)] unfolding dir_node_def node_fields by (simp add: node_load [OF assms(3,4)])

lemma file_node_only:
  assumes "file_node L m p name i len" "length name \<le> 127" "only S m m'" "bytes_from p 184 \<inter> S = {}"
  shows "file_node L m' p name i len"
  using assms(1) node_name_kept [OF _ assms(2-4)] unfolding file_node_def node_fields by (simp add: node_load [OF assms(3,4)])

section \<open>Building the file system\<close>

text \<open>
  The image at \<open>location\<close> with its \<open>n\<close> headers, and the nodes, as the loop over the files needs them:
  no two of these structures overlap.
\<close>

definition layout :: "initrd_t \<Rightarrow> nat \<Rightarrow> bool" where
  "layout I n \<longleftrightarrow> n < 2 ^ 31 \<and>
     (\<forall>i < n. \<forall>j < n. i \<noteq> j \<longrightarrow> bytes_from (file_header I (of_nat i)) 76 \<inter> bytes_from (file_header I (of_nat j)) 76 = {} \<and>
        bytes_from (root_node I (of_nat i)) 184 \<inter> bytes_from (root_node I (of_nat j)) 184 = {}) \<and>
     (\<forall>i < n. bytes_from (root_node I (of_nat i)) 184 \<subseteq> bytes_from (root_nodes I) (184 * n) \<and>
        bytes_from (file_header I (of_nat i)) 76 \<inter> bytes_from (root_nodes I) (184 * n) = {} \<and>
        bytes_from (initrd_header I) 4 \<inter> bytes_from (file_header I (of_nat i)) 76 = {} \<and>
        63 < unat (root_node I (of_nat i) - f_name (file_header I (of_nat i)))) \<and>
     bytes_from (initrd_header I) 4 \<inter> bytes_from (root_nodes I) (184 * n) = {}"

definition loop_area :: "initrd_t \<Rightarrow> nat \<Rightarrow> nat \<Rightarrow> u32 set" where
  "loop_area I n i = (\<Union>j < i. bytes_from (f_offset (file_header I (of_nat j))) 4) \<union> bytes_from (root_nodes I) (184 * n)"

lemma header_parts: "bytes_from (f_name h) 64 \<subseteq> bytes_from h 76" "bytes_from (f_offset h) 4 \<subseteq> bytes_from h 76"
  "bytes_from (f_length h) 4 \<subseteq> bytes_from h 76"
  "bytes_from (f_name h) 64 \<inter> bytes_from (f_offset h) 4 = {}" "bytes_from (f_length h) 4 \<inter> bytes_from (f_offset h) 4 = {}"
  using bytes_from_sub [of 4 64 76 h] bytes_from_sub [of 68 4 76 h] bytes_from_sub [of 72 4 76 h]
    sep_disjoint [OF sep_offset [of 4 64 68 4 h]] sep_disjoint [OF sep_offset [of 72 4 68 4 h]]
  by (simp_all add: f_name_def f_offset_def f_length_def)

lemma loop_area_header:
  assumes "layout I n" "i \<le> n" "k < n"
  shows "i \<le> k \<Longrightarrow> bytes_from (file_header I (of_nat k)) 76 \<inter> loop_area I n i = {}"
    and "bytes_from (f_name (file_header I (of_nat k))) 64 \<inter> loop_area I n i = {}"
    and "bytes_from (f_length (file_header I (of_nat k))) 4 \<inter> loop_area I n i = {}"
    and "bytes_from (initrd_header I) 4 \<inter> loop_area I n i = {}"
proof -
  let ?h = "\<lambda>j. file_header I (of_nat j)"
  have ne: "bytes_from (?h k) 76 \<inter> bytes_from (?h j) 76 = {}" if "j < n" "j \<noteq> k" for j
    using assms(1,3) that unfolding layout_def by blast
  have no: "bytes_from (?h k) 76 \<inter> bytes_from (root_nodes I) (184 * n) = {}" using assms(1,3) unfolding layout_def by blast
  have nh: "bytes_from (initrd_header I) 4 \<inter> bytes_from (root_nodes I) (184 * n) = {}"
    "\<And>j. j < n \<Longrightarrow> bytes_from (initrd_header I) 4 \<inter> bytes_from (?h j) 76 = {}" using assms(1) unfolding layout_def by blast+
  show "bytes_from (?h k) 76 \<inter> loop_area I n i = {}" if "i \<le> k"
  proof -
    have "bytes_from (?h k) 76 \<inter> bytes_from (f_offset (?h j)) 4 = {}" if "j < i" for j
      using ne [of j] header_parts(2) [of "?h j"] that assms(2) \<open>i \<le> k\<close> by auto
    with no show ?thesis unfolding loop_area_def by blast
  qed
  have "bytes_from (f_name (?h k)) 64 \<inter> bytes_from (f_offset (?h j)) 4 = {} \<and>
      bytes_from (f_length (?h k)) 4 \<inter> bytes_from (f_offset (?h j)) 4 = {}" if "j < n" for j
    using ne [of j] header_parts [of "?h j"] header_parts [of "?h k"] that by (cases "j = k") blast+
  with no header_parts(1,3) [of "?h k"] assms(2)
  show "bytes_from (f_name (?h k)) 64 \<inter> loop_area I n i = {}" "bytes_from (f_length (?h k)) 4 \<inter> loop_area I n i = {}"
    unfolding loop_area_def by (blast dest: less_le_trans)+
  have "bytes_from (initrd_header I) 4 \<inter> bytes_from (f_offset (?h j)) 4 = {}" if "j < n" for j
    using nh(2) [OF that] header_parts(2) [of "?h j"] by blast
  with nh(1) assms(2) show "bytes_from (initrd_header I) 4 \<inter> loop_area I n i = {}"
    unfolding loop_area_def by (blast dest: less_le_trans)
qed

lemma init_files_ok:
  fixes name :: "nat \<Rightarrow> u8 list" and I :: initrd_t
  defines "h \<equiv> \<lambda>j. file_header I (of_nat j)" and "p \<equiv> \<lambda>j. root_node I (of_nat j)"
  assumes lay: "layout I n" and n: "load32 m0 (h_nfiles (initrd_header I)) = of_nat n"
    and name: "\<And>j. j < n \<Longrightarrow> cstr m0 (f_name (h j)) (name j) \<and> length (name j) \<le> 63"
  shows "i \<le> n \<Longrightarrow> only (loop_area I n i) m0 m \<Longrightarrow>
    (\<forall>j < i. file_node L m (p j) (name j) (of_nat j) (load32 m0 (f_length (h j))) \<and>
       load32 m (f_offset (h j)) = load32 m0 (f_offset (h j)) + loc) \<Longrightarrow>
    \<exists>m'. init_files L I loc (of_nat i) m = Some m' \<and> only (loop_area I n n) m0 m' \<and>
      (\<forall>j < n. file_node L m' (p j) (name j) (of_nat j) (load32 m0 (f_length (h j))) \<and>
         load32 m' (f_offset (h j)) = load32 m0 (f_offset (h j)) + loc)"
proof (induction "n - i" arbitrary: i m)
  case 0
  then have i: "i = n" by simp
  have "load32 m (initrd_header I) = load32 m0 (initrd_header I)"
  proof (cases "n = 0")
    case True
    then have "loop_area I n i = {}" using i by (simp add: loop_area_def bytes_from_def)
    with 0(3) show ?thesis by (intro only_load32) auto
  next
    case False
    with loop_area_header(4) [OF lay 0(2), of 0] show ?thesis by (intro only_load32 [OF 0(3)]) simp
  qed
  then have "\<not> of_nat i < load32 m (h_nfiles (initrd_header I))" using n i by (simp add: h_nfiles_def)
  then show ?case using 0 i by (subst init_files.simps) simp
next
  case (Suc k)
  then have i: "i < n" by simp
  have n31: "n < 2 ^ 31" using lay by (simp add: layout_def)
  note la = loop_area_header [OF lay Suc(3) i]
  have "load32 m (initrd_header I) = of_nat n" using only_load32 [OF Suc(4) la(4)] n by (simp add: h_nfiles_def)
  then have lt: "of_nat i < load32 m (h_nfiles (initrd_header I))"
    using i n31 by (simp add: h_nfiles_def word_less_nat_alt unat_of_nat_32)
  have nm: "cstr m (f_name (h i)) (name i)" "length (name i) \<le> 63"
  proof -
    have "bytes_from (f_name (h i)) (Suc (length (name i))) \<inter> loop_area I n i = {}"
      using la(2) name [OF i] bytes_from_mono [of "Suc (length (name i))" 64 "f_name (h i)"] by (auto simp: h_def)
    then show "cstr m (f_name (h i)) (name i)" using name [OF i] by (intro cstr_only [OF _ Suc(4)]) auto
  qed (use name [OF i] in simp)
  have l: "bytes_from (p i) 184 \<subseteq> bytes_from (root_nodes I) (184 * n)" "bytes_from (h i) 76 \<inter> bytes_from (root_nodes I) (184 * n) = {}"
    "63 < unat (p i - f_name (h i))" using lay i unfolding layout_def h_def p_def by blast+
  obtain m1 where m1: "init_file L I loc (of_nat i) m = Some m1" "file_node L m1 (p i) (name i) (of_nat i) (load32 m (f_length (h i)))"
    "only (bytes_from (f_offset (h i)) 4 \<union> bytes_from (p i) 184) m m1" "load32 m1 (f_offset (h i)) = load32 m (f_offset (h i)) + loc"
    by (rule init_file_ok [of m I "of_nat i" "name i" L loc, folded h_def p_def]) (use nm l in \<open>auto simp: h_def p_def\<close>)
  have len: "load32 m (f_length (h i)) = load32 m0 (f_length (h i))" using only_load32 [OF Suc(4) la(3)] by (simp add: h_def)
  have off: "load32 m (f_offset (h i)) = load32 m0 (f_offset (h i))"
    by (rule only_load32 [OF Suc(4)]) (use la(1) header_parts(2) [of "h i"] in \<open>auto simp: h_def\<close>)
  have "loop_area I n i \<subseteq> loop_area I n (Suc i)" "bytes_from (f_offset (h i)) 4 \<union> bytes_from (p i) 184 \<subseteq> loop_area I n (Suc i)"
    using l(1) by (auto simp: loop_area_def h_def lessThan_Suc)
  then have o1: "only (loop_area I n (Suc i)) m0 m1" using only_mono Suc(4) m1(3) only_trans by metis
  have old: "file_node L m1 (p j) (name j) (of_nat j) (load32 m0 (f_length (h j))) \<and>
       load32 m1 (f_offset (h j)) = load32 m0 (f_offset (h j)) + loc" if "j < Suc i" for j
  proof (cases "j = i")
    case True
    then show ?thesis using m1(2,4) len off by simp
  next
    case False
    then have j: "j < i" "j < n" "j \<noteq> i" using that i by auto
    have d: "bytes_from (p j) 184 \<inter> bytes_from (p i) 184 = {}" "bytes_from (p j) 184 \<subseteq> bytes_from (root_nodes I) (184 * n)"
      "bytes_from (h j) 76 \<inter> bytes_from (h i) 76 = {}" "bytes_from (h j) 76 \<inter> bytes_from (root_nodes I) (184 * n) = {}"
      using lay j(2,3) i unfolding layout_def h_def p_def by blast+
    have "file_node L m1 (p j) (name j) (of_nat j) (load32 m0 (f_length (h j)))"
      by (rule file_node_only [OF _ _ m1(3)])
         (use Suc(5) j name [OF j(2)] d l header_parts(2) [of "h i"] in auto)
    moreover have "load32 m1 (f_offset (h j)) = load32 m (f_offset (h j))"
      by (rule only_load32 [OF m1(3)]) (use d l header_parts(2) [of "h i"] header_parts(2) [of "h j"] in blast)
    ultimately show ?thesis using Suc(5) j(1) by simp
  qed
  have k: "k = n - Suc i" using Suc(2) by simp
  obtain m' where "init_files L I loc (of_nat (Suc i)) m1 = Some m'" "only (loop_area I n n) m0 m'"
    "\<forall>j < n. file_node L m' (p j) (name j) (of_nat j) (load32 m0 (f_length (h j))) \<and>
         load32 m' (f_offset (h j)) = load32 m0 (f_offset (h j)) + loc"
    using Suc(1) [OF k _ o1] old i by auto
  moreover have "(of_nat i :: u32) + 1 = of_nat (Suc i)" by simp
  ultimately show ?case using lt m1(1) by (subst init_files.simps) (simp only: if_True option.case simp_thms, metis)
qed

abbreviation low_kept :: "mem \<Rightarrow> mem \<Rightarrow> bool" where
  "low_kept m m' \<equiv> \<forall>x. x < KHEAP_START \<longrightarrow> m' x = m x"

abbreviation high_kept :: "heap_state \<Rightarrow> mem \<Rightarrow> bool" where
  "high_kept s m' \<equiv> \<forall>x. heap_end s \<le> x \<longrightarrow> m' x = hmem s x"

lemma low_range:
  assumes "low_kept m m'" "unat a + n \<le> unat KHEAP_START" "i < n"
  shows "m' (a + of_nat i) = m (a + of_nat i)"
proof -
  have "unat (a + of_nat i) = unat a + i"
    using assms(2,3) unat_less_32 [of KHEAP_START] by (intro unat_add_of_nat) simp
  then have "a + of_nat i < KHEAP_START" using assms(2,3) by (simp add: word_less_nat_alt)
  with assms(1) show ?thesis by simp
qed

lemma low_cstr: "low_kept m m' \<Longrightarrow> unat a + Suc (length xs) \<le> unat KHEAP_START \<Longrightarrow> cstr m a xs \<Longrightarrow> cstr m' a xs"
  using cstr_cong [of xs m a m'] low_range [of m m' a "Suc (length xs)"] by simp

lemma low_loaded: "low_kept m m' \<Longrightarrow> unat a + length xs \<le> unat KHEAP_START \<Longrightarrow> loaded m a xs \<Longrightarrow> loaded m' a xs"
  using low_range [of m m' a "length xs"] by (simp add: loaded_def)

lemma kept_only: "kept L s s' \<Longrightarrow> (q, w) \<in> L \<Longrightarrow> n \<le> unat w \<Longrightarrow> only (- bytes_from q n) (hmem s) (hmem s')"
  unfolding only_def kept_def by (auto dest!: bytes_from_ex)

lemma kept_iff: "kept L s s' \<longleftrightarrow> (\<forall>q w i. (q, w) \<in> L \<longrightarrow> i < unat w \<longrightarrow> hmem s' (q + of_nat i) = hmem s (q + of_nat i))"
  by (auto simp: kept_def)

lemma kept_trans: "kept L s s1 \<Longrightarrow> kept L' s1 s2 \<Longrightarrow> L \<subseteq> L' \<Longrightarrow> kept L s s2"
  unfolding kept_iff by (metis subsetD)

lemma live_write_kept:
  assumes inv: "heap_inv s" and b: "(p, z) \<in> live s" and o: "only (bytes_from p (unat z)) (hmem s) m'"
    and L: "L \<subseteq> live s" "\<forall>w. (p, w) \<notin> L"
  shows "kept L s (s\<lparr>hmem := m'\<rparr>)" "low_kept (hmem s) m'" "high_kept s m'"
proof -
  have "m' (q + of_nat i) = hmem s (q + of_nat i)" if q: "(q, w) \<in> L" "i < unat w" for q w i
  proof -
    have "p \<noteq> q" using L(2) q(1) by auto
    then have "bytes_from q (unat w) \<inter> bytes_from p (unat z) = {}"
      using live_apart [OF inv b, of q w] L(1) q(1) by (auto dest: sep_disjoint)
    moreover have "q + of_nat i \<in> bytes_from q (unat w)"
      using q(2) unat_less_32 [of w] by (intro bytes_fromI) simp_all
    ultimately show ?thesis using o by (auto simp: only_def)
  qed
  then show "kept L s (s\<lparr>hmem := m'\<rparr>)" by (auto simp: kept_def)
  have "KHEAP_START \<le> x \<and> x < heap_end s" if "x \<in> bytes_from p (unat z)" for x using live_bytes [OF inv b that] by simp
  with o show "low_kept (hmem s) m'" "high_kept s m'" by (auto simp: only_def linorder_not_le [symmetric])
qed

lemma heap_room_mono: "heap_room s k \<Longrightarrow> j \<le> k \<Longrightarrow> heap_room s j"
  unfolding heap_room_def by (meson order_trans)

lemma new_dir:
  assumes room: "heap_room s (205 + k)" and c: "cstr (hmem s) lit name" "unat lit + Suc (length name) \<le> unat KHEAP_START"
    and len: "length name \<le> 127"
  obtains p z s1 m s' where "kmalloc sizeof_node s = Some (p, s1)" "init_dir L lit p (hmem s1) = Some m" "s' = s1\<lparr>hmem := m\<rparr>"
    "heap_room s' (k + 1)" "dir_node L m p name" "live s' = insert (p, z) (live s)" "184 \<le> unat z" "\<forall>w. (p, w) \<notin> live s"
    "kept (live s) s s'" "low_kept (hmem s) m" "heap_end s' = heap_end s" "high_kept s m" "vm s' = vm s"
proof -
  have r: "heap_room s (unat sizeof_node + 21 + k)" using room by (simp add: sizeof_node_def)
  obtain p z s1 where 1: "kmalloc sizeof_node s = Some (p, s1)" "heap_room s1 (k + 1)" "sizeof_node \<le> z" "live s1 = insert (p, z) (live s)"
    "\<forall>w. (p, w) \<notin> live s" "kept (live s) s s1" "low_kept (hmem s) (hmem s1)" "heap_end s1 = heap_end s"
    "vm s1 = vm s" "high_kept s (hmem s1)"
    by (rule kmalloc_room_all [OF r]) (simp add: sizeof_node_def, blast)
  have z: "184 \<le> unat z" using 1(3) by (simp add: sizeof_node_def word_le_nat_alt)
  have inv: "heap_inv s1" by (rule heap_room_inv [OF 1(2)])
  have pz: "(p, z) \<in> live s1" using 1(4) by simp
  have "unat (p - lit) = unat p - unat lit"
    using live_range(1) [OF inv pz] c(2) by (intro unat_sub) (simp add: word_le_nat_alt)
  then have far: "length name < unat (p - lit)" using live_range(1) [OF inv pz] c(2) by simp
  obtain m where m: "init_dir L lit p (hmem s1) = Some m" "dir_node L m p name" "only (bytes_from p 184) (hmem s1) m"
    using init_dir_ok [OF low_cstr [OF 1(7) c(2,1)] far len] by blast
  have o: "only (bytes_from p (unat z)) (hmem s1) m" by (rule only_mono [OF m(3) bytes_from_mono [OF z]])
  note w = live_write_kept [OF inv pz o, of "live s"]
  show thesis
  proof (rule that [OF 1(1) m(1) refl _ m(2) _ z 1(5)])
    show "heap_room (s1\<lparr>hmem := m\<rparr>) (k + 1)" "live (s1\<lparr>hmem := m\<rparr>) = insert (p, z) (live s)"
      using heap_room_write [OF 1(2) pz only_mono [OF o Un_upper1]] 1(4) by simp_all
    show "kept (live s) s (s1\<lparr>hmem := m\<rparr>)" by (rule kept_trans [OF 1(6) w(1) order_refl]) (use 1(4,5) in auto)
    show "low_kept (hmem s) m" using w(2) 1(4,5,7) by auto
    show "heap_end (s1\<lparr>hmem := m\<rparr>) = heap_end s" using 1(8) by simp
    show "high_kept s m" using w(3) 1(4,5,8,10) by auto
    show "vm (s1\<lparr>hmem := m\<rparr>) = vm s" using 1(9) by simp
  qed
qed

section \<open>The file system in memory\<close>

definition str_dev :: "u8 list" where "str_dev = [0x64, 0x65, 0x76]"
definition str_initrd :: "u8 list" where "str_initrd = [0x69, 0x6E, 0x69, 0x74, 0x72, 0x64]"

lemma str_lengths: "length str_dev = 3" "length str_initrd = 6"
  by (simp_all add: str_dev_def str_initrd_def)

text \<open>What the boot loader and the linker provide: the image, and the literals, below the heap.\<close>

definition initrd_loaded :: "initrd_link \<Rightarrow> u32 \<Rightarrow> (u8 list \<times> u8 list) list \<Rightarrow> mem \<Rightarrow> bool" where
  "initrd_loaded L location files m \<longleftrightarrow>
     files \<noteq> [] \<and> loaded m location (mkinitrd files) \<and> unat location + length (mkinitrd files) \<le> unat KHEAP_START \<and>
     (\<forall>f \<in> set files. 0 \<notin> set (fst f)) \<and>
     cstr m (lit_dev L) str_dev \<and> unat (lit_dev L) + 4 \<le> unat KHEAP_START \<and>
     cstr m (lit_initrd L) str_initrd \<and> unat (lit_initrd L) + 7 \<le> unat KHEAP_START \<and>
     sep (lit_dev L) 4 location (length (mkinitrd files)) \<and>
     initrd_read_at L \<noteq> 0 \<and> initrd_readdir_at L \<noteq> 0 \<and> initrd_finddir_at L \<noteq> 0"

definition initrd_area :: "initrd_link \<Rightarrow> initrd_t \<Rightarrow> (u8 list \<times> u8 list) list \<Rightarrow> u32 set" where
  "initrd_area L I files = bytes_from (initrd_root I) 184 \<union> bytes_from (initrd_dev I) 184 \<union>
     bytes_from (root_nodes I) (184 * length files) \<union> bytes_from (initrd_header I) (length (mkinitrd files)) \<union>
     bytes_from (lit_dev L) 4"

definition file_ok :: "initrd_link \<Rightarrow> initrd_t \<Rightarrow> (u8 list \<times> u8 list) list \<Rightarrow> mem \<Rightarrow> nat \<Rightarrow> bool" where
  "file_ok L I files m i \<longleftrightarrow>
     file_node L m (root_node I (of_nat i)) (mk_name (fst (files ! i))) (of_nat i) (of_nat (length (snd (files ! i)))) \<and>
     load32 m (f_offset (file_header I (of_nat i))) = initrd_header I + of_nat (file_offset files i) \<and>
     load32 m (f_length (file_header I (of_nat i))) = of_nat (length (snd (files ! i))) \<and>
     loaded m (initrd_header I + of_nat (file_offset files i)) (snd (files ! i))"

definition initrd_ok :: "initrd_link \<Rightarrow> initrd_t \<Rightarrow> (u8 list \<times> u8 list) list \<Rightarrow> mem \<Rightarrow> bool" where
  "initrd_ok L I files m \<longleftrightarrow>
     length files < 2 ^ 31 \<and> length (mkinitrd files) < 2 ^ 32 \<and> nroot_nodes I = of_nat (length files) \<and>
     file_headers I = initrd_header I + 4 \<and> initrd_root I \<noteq> initrd_dev I \<and> initrd_dev I \<noteq> 0 \<and>
     (\<forall>i < length files. root_node I (of_nat i) \<noteq> 0) \<and>
     initrd_read_at L \<noteq> 0 \<and> initrd_readdir_at L \<noteq> 0 \<and> initrd_finddir_at L \<noteq> 0 \<and>
     cstr m (lit_dev L) str_dev \<and> dir_node L m (initrd_root I) str_initrd \<and> dir_node L m (initrd_dev I) str_dev \<and>
     (\<forall>i < length files. file_ok L I files m i)"

lemma header_in:
  assumes "file_headers I = initrd_header I + 4" "i < length files"
  shows "bytes_from (file_header I (of_nat i)) 76 \<subseteq> bytes_from (initrd_header I) (4 + 76 * length files)"
proof -
  have "bytes_from (initrd_header I + of_nat (4 + 76 * i)) 76 \<subseteq> bytes_from (initrd_header I) (4 + 76 * length files)"
    by (rule bytes_from_sub) (use assms(2) in simp)
  then show ?thesis using assms(1) by (simp add: file_header_def add.assoc)
qed

lemma node_in: "i < n \<Longrightarrow> bytes_from (root_node I (of_nat i)) 184 \<subseteq> bytes_from (root_nodes I) (184 * n)"
  using bytes_from_sub [of "184 * i" 184 "184 * n" "root_nodes I"] by (simp add: root_node_def sizeof_node_def)

lemma image_size: "4 + 76 * length files \<le> length (mkinitrd files)"
  by (simp add: length_mkinitrd file_offset_def)

lemma initrd_ok_only:
  assumes ok: "initrd_ok L I files m" and o: "only S m m'" and d: "S \<inter> initrd_area L I files = {}"
  shows "initrd_ok L I files m'"
proof -
  have f: "file_headers I = initrd_header I + 4" "length (mkinitrd files) < 2 ^ 32" using ok by (simp_all add: initrd_ok_def)
  have "file_ok L I files m' i" if i: "i < length files" for i
  proof -
    let ?h = "file_header I (of_nat i)"
    have ki: "file_ok L I files m i" using ok i by (simp add: initrd_ok_def)
    have hi: "bytes_from ?h 76 \<inter> S = {}"
      using header_in [OF f(1) i] bytes_from_mono [OF image_size [of files], of "initrd_header I"] d unfolding initrd_area_def by blast
    have ni: "bytes_from (root_node I (of_nat i)) 184 \<inter> S = {}" using node_in [OF i, of I] d unfolding initrd_area_def by blast
    have ci: "bytes_from (initrd_header I + of_nat (file_offset files i)) (length (snd (files ! i))) \<inter> S = {}"
      using bytes_from_sub [OF file_offset_end [OF i], of "initrd_header I"] d unfolding initrd_area_def by blast
    have nl: "length (mk_name (fst (files ! i))) \<le> 127" using length_mk_name [of "fst (files ! i)"] by simp
    have cl: "length (snd (files ! i)) \<le> 2 ^ 32" using file_offset_end [OF i] f(2) by simp
    have "file_node L m' (root_node I (of_nat i)) (mk_name (fst (files ! i))) (of_nat i) (of_nat (length (snd (files ! i))))"
      by (rule file_node_only [OF _ nl o ni]) (use ki in \<open>simp add: file_ok_def\<close>)
    moreover have "load32 m' (f_offset ?h) = load32 m (f_offset ?h)" "load32 m' (f_length ?h) = load32 m (f_length ?h)"
      using header_parts [of ?h] hi by (auto intro!: only_load32 [OF o])
    moreover have "loaded m' (initrd_header I + of_nat (file_offset files i)) (snd (files ! i))"
      by (rule loaded_only [OF _ o ci cl]) (use ki in \<open>simp add: file_ok_def\<close>)
    ultimately show ?thesis using ki by (simp add: file_ok_def)
  qed
  moreover have "dir_node L m' (initrd_root I) str_initrd" "dir_node L m' (initrd_dev I) str_dev"
    by (rule dir_node_only [OF _ _ o], use ok d in \<open>auto simp: initrd_ok_def initrd_area_def str_lengths\<close>)+
  moreover have "cstr m' (lit_dev L) str_dev"
    by (rule cstr_only [OF _ o]) (use ok d in \<open>auto simp: initrd_ok_def initrd_area_def str_lengths simp flip: numeral_eq_Suc\<close>)
  ultimately show ?thesis using ok by (simp add: initrd_ok_def)
qed

lemma initrd_layout:
  assumes n: "n < 2 ^ 31" and fh: "file_headers I = initrd_header I + 4"
    and img: "unat (initrd_header I) + (4 + 76 * n) \<le> unat KHEAP_START"
    and nd: "unat KHEAP_START \<le> unat (root_nodes I)" "unat (root_nodes I) + 184 * n \<le> 2 ^ 32"
  shows "layout I n"
proof -
  have h: "file_header I (of_nat i) = initrd_header I + of_nat (4 + 76 * i)" for i
    using fh by (simp add: file_header_def add.assoc)
  have p: "root_node I (of_nat i) = root_nodes I + of_nat (184 * i)" for i by (simp add: root_node_def sizeof_node_def)
  have K: "unat KHEAP_START < 2 ^ 32" by (rule unat_less_32)
  have apart: "76 * i + 76 \<le> 76 * j \<or> 76 * j + 76 \<le> 76 * i" "184 * i + 184 \<le> 184 * j \<or> 184 * j + 184 \<le> 184 * i"
    if "i \<noteq> j" for i j :: nat using that by linarith+
  have 1: "bytes_from (file_header I (of_nat i)) 76 \<inter> bytes_from (file_header I (of_nat j)) 76 = {}"
    if "i < n" "j < n" "i \<noteq> j" for i j
    unfolding h by (intro sep_disjoint sep_offset) (use that apart(1) [of i j] img K in auto)
  have 2: "bytes_from (root_node I (of_nat i)) 184 \<inter> bytes_from (root_node I (of_nat j)) 184 = {}"
    if "i < n" "j < n" "i \<noteq> j" for i j
    unfolding p by (intro sep_disjoint sep_offset) (use that apart(2) [of i j] nd in auto)
  have out: "bytes_from (initrd_header I) (4 + 76 * n) \<inter> bytes_from (root_nodes I) (184 * n) = {}"
    by (intro sep_disjoint sep_ordered) (use img nd K in simp_all)
  have hs: "bytes_from (file_header I (of_nat i)) 76 \<subseteq> bytes_from (initrd_header I) (4 + 76 * n)" if "i < n" for i
    unfolding h by (rule bytes_from_sub) (use that in simp)
  have 4: "bytes_from (initrd_header I) 4 \<inter> bytes_from (file_header I (of_nat i)) 76 = {}" if "i < n" for i
    using sep_disjoint [OF sep_offset [of 0 4 "4 + 76 * i" 76 "initrd_header I"]] that img K by (simp add: h)
  have 5: "63 < unat (root_node I (of_nat i) - f_name (file_header I (of_nat i)))" if i: "i < n" for i
  proof -
    have "f_name (file_header I (of_nat i)) = initrd_header I + of_nat (8 + 76 * i)" by (simp add: f_name_def h)
    moreover have "unat (initrd_header I + of_nat (8 + 76 * i)) = unat (initrd_header I) + (8 + 76 * i)"
      by (rule unat_add_of_nat) (use i img K in simp)
    moreover have u: "unat (root_node I (of_nat i)) = unat (root_nodes I) + 184 * i"
      unfolding p by (rule unat_add_of_nat) (use i nd in simp)
    ultimately have f: "unat (f_name (file_header I (of_nat i))) + 64 \<le> unat KHEAP_START" using img i by simp
    then have "unat (root_node I (of_nat i) - f_name (file_header I (of_nat i))) =
        unat (root_node I (of_nat i)) - unat (f_name (file_header I (of_nat i)))"
      using u nd by (intro unat_sub) (simp add: word_le_nat_alt)
    then show ?thesis using f u nd by simp
  qed
  have 6: "bytes_from (initrd_header I) 4 \<subseteq> bytes_from (initrd_header I) (4 + 76 * n)" by (rule bytes_from_mono) simp
  have 7: "bytes_from (file_header I (of_nat i)) 76 \<inter> bytes_from (root_nodes I) (184 * n) = {}" if "i < n" for i
    using hs [OF that] out by blast
  have 8: "bytes_from (initrd_header I) 4 \<inter> bytes_from (root_nodes I) (184 * n) = {}" using 6 out by blast
  show ?thesis unfolding layout_def by (intro conjI allI impI n 1 2 4 5 7 8 node_in)
qed

lemma file_header_parts_only:
  assumes "file_headers I = initrd_header I + 4" "i < length files"
  shows "bytes_from (f_offset (file_header I (of_nat i))) 4 \<subseteq> bytes_from (initrd_header I) (4 + 76 * length files)"
  using header_in [OF assms] header_parts(2) by blast

lemma contents_apart:
  assumes "i < length files" "length (mkinitrd files) < 2 ^ 32"
  shows "bytes_from (a + of_nat (file_offset files i)) (length (snd (files ! i))) \<inter> bytes_from a (4 + 76 * length files) = {}"
proof -
  have "4 + 76 * length files \<le> file_offset files i" by (simp add: file_offset_def)
  then show ?thesis
    using sep_disjoint [OF sep_offset [of "file_offset files i" "length (snd (files ! i))" 0 "4 + 76 * length files" a]]
      file_offset_end [OF assms(1)] image_size [of files] assms(2) by simp
qed

lemma live_above:
  assumes inv: "heap_inv s" and q: "(q, w) \<in> live s" and n: "n \<le> unat w"
  shows "bytes_from q n \<subseteq> {x. KHEAP_START \<le> x}"
proof
  fix x assume "x \<in> bytes_from q n"
  then obtain i where i: "i < n" "x = q + of_nat i" using bytes_from_ex by blast
  have "unat x = unat q + i" unfolding i(2)
    using live_range(2) [OF inv q] i(1) n unat_less_32 [of "heap_end s"] by (intro unat_add_of_nat) simp
  then show "x \<in> {x. KHEAP_START \<le> x}" using live_range(1) [OF inv q] by (simp add: word_le_nat_alt)
qed

lemma initialise_more:
  assumes ld: "initrd_loaded L location files (hmem s)" and room: "heap_room s (184 * length files + 431 + k)"
  obtains I s' z1 z2 z3 where "initialise_initrd L location s = Some (initrd_root I, I, s')" "initrd_header I = location"
    "initrd_ok L I files (hmem s')" "live s' = live s \<union> {(initrd_root I, z1), (initrd_dev I, z2), (root_nodes I, z3)}"
    "kept (live s) s s'" "184 \<le> unat z1" "184 \<le> unat z2" "184 * length files \<le> unat z3" "heap_room s' (k + 1)"
    "heap_end s' = heap_end s" "\<forall>x. x < KHEAP_START \<longrightarrow> x \<notin> bytes_from location (length (mkinitrd files)) \<longrightarrow> hmem s' x = hmem s x"
    "high_kept s (hmem s')" "vm s' = vm s"
proof -
  let ?n = "length files" and ?img = "length (mkinitrd files)"
  note L = ld [unfolded initrd_loaded_def]
  have n0: "0 < ?n" using L by simp
  have img: "unat location + ?img \<le> unat KHEAP_START" "?img < 2 ^ 32" using L unat_less_32 [of KHEAP_START] by simp_all
  have hsz: "4 + 76 * ?n \<le> ?img" by (rule image_size)
  have n31: "?n < 2 ^ 31" using hsz img(2) by simp
  have n184: "184 * ?n + 431 < 2 ^ 32"
  proof -
    obtain b :: u32 where "184 * ?n + 431 + k \<le> unat b" using room by (auto simp: heap_room_def)
    then show ?thesis using unat_less_32 [of b] by simp
  qed
  have r1: "heap_room s (205 + (184 * ?n + 226 + k))" by (rule heap_room_mono [OF room]) simp
  obtain root z1 s1 m1 sa where 1: "kmalloc sizeof_node s = Some (root, s1)" "init_dir L (lit_initrd L) root (hmem s1) = Some m1"
    "sa = s1\<lparr>hmem := m1\<rparr>" "heap_room sa (184 * ?n + 226 + k + 1)" "dir_node L m1 root str_initrd" "live sa = insert (root, z1) (live s)"
    "184 \<le> unat z1" "\<forall>w. (root, w) \<notin> live s" "kept (live s) s sa" "low_kept (hmem s) m1"
    "heap_end sa = heap_end s" "high_kept s m1" "vm sa = vm s"
    by (rule new_dir [OF r1, of "lit_initrd L" str_initrd L]) (use L in \<open>simp_all add: str_lengths\<close>)
  have r2: "heap_room sa (205 + (184 * ?n + 20 + k))" by (rule heap_room_mono [OF 1(4)]) simp
  have sa: "hmem sa = m1" "low_kept (hmem s) (hmem sa)" using 1(3,10) by simp_all
  have dv: "cstr (hmem sa) (lit_dev L) str_dev" using low_cstr [OF sa(2), of "lit_dev L" str_dev] L by (simp add: str_lengths)
  obtain dev z2 s2 m2 sb where 2: "kmalloc sizeof_node sa = Some (dev, s2)" "init_dir L (lit_dev L) dev (hmem s2) = Some m2"
    "sb = s2\<lparr>hmem := m2\<rparr>" "heap_room sb (184 * ?n + 20 + k + 1)" "dir_node L m2 dev str_dev" "live sb = insert (dev, z2) (live sa)"
    "184 \<le> unat z2" "\<forall>w. (dev, w) \<notin> live sa" "kept (live sa) sa sb" "low_kept (hmem sa) m2"
    "heap_end sb = heap_end sa" "high_kept sa m2" "vm sb = vm sa"
    by (rule new_dir [OF r2 dv, of L]) (use L in \<open>simp_all add: str_lengths\<close>)
  have sb: "hmem sb = m2" "low_kept (hmem s) (hmem sb)" using 2(3,10) sa(2) by simp_all
  have nf: "load32 m (h_nfiles location) = of_nat ?n" if "low_kept (hmem s) m" for m
    using image_facts(1) [OF low_loaded [OF that img(1)] img(2)] L by (simp add: h_nfiles_def)
  have szn: "sizeof_node * load32 m2 (h_nfiles location) = of_nat (184 * ?n)" using nf [of m2] sb by (simp add: sizeof_node_def)
  have u184: "unat (of_nat (184 * ?n) :: u32) = 184 * ?n" by (rule unat_of_nat_32) (use n184 in simp)
  have r3: "heap_room sb (unat (of_nat (184 * ?n) :: u32) + 21 + k)" unfolding u184 by (rule heap_room_mono [OF 2(4)]) simp
  have pos: "0 < unat (of_nat (184 * ?n) :: u32)" unfolding u184 using n0 by simp
  obtain nodes z3 s3 where 3: "kmalloc (of_nat (184 * ?n)) sb = Some (nodes, s3)" "heap_room s3 (k + 1)" "of_nat (184 * ?n) \<le> z3"
    "live s3 = insert (nodes, z3) (live sb)" "\<forall>w. (nodes, w) \<notin> live sb" "kept (live sb) sb s3" "low_kept (hmem sb) (hmem s3)"
    "heap_end s3 = heap_end sb" "vm s3 = vm sb" "high_kept sb (hmem s3)"
    by (rule kmalloc_room_all [OF r3 pos])
  have z3: "184 * ?n \<le> unat z3" using 3(3) u184 by (simp add: word_le_nat_alt)
  have low3: "low_kept (hmem s) (hmem s3)" using 3(7) sb(2) by simp
  have inv3: "heap_inv s3" by (rule heap_room_inv [OF 3(2)])
  have mem3: "(root, z1) \<in> live s3" "(dev, z2) \<in> live s3" "(nodes, z3) \<in> live s3" "root \<noteq> dev" "nodes \<noteq> root" "nodes \<noteq> dev"
    using 1(6) 2(6,8) 3(4,5) by auto
  have rng: "unat KHEAP_START + 20 \<le> unat nodes" "unat nodes + 184 * ?n < 2 ^ 32"
    using live_range [OF inv3 mem3(3)] unat_less_32 [of "heap_end s3"] z3 by linarith+
  define I where "I = \<lparr>initrd_header = location, file_headers = location + 4, initrd_root = root, initrd_dev = dev,
                         root_nodes = nodes, nroot_nodes = load32 (hmem s3) (h_nfiles location)\<rparr>"
  have I: "initrd_header I = location" "file_headers I = location + 4" "initrd_root I = root" "initrd_dev I = dev" "root_nodes I = nodes"
    "nroot_nodes I = of_nat ?n" using nf [OF low3] by (simp_all add: I_def)
  have lay: "layout I ?n" by (rule initrd_layout) (use n31 I img(1) hsz rng in simp_all)
  have ldd: "loaded (hmem s3) location (mkinitrd files)" by (rule low_loaded [OF low3 img(1)]) (use L in simp)
  note im = image_facts [OF ldd img(2)]
  have h: "file_header I (of_nat i) = location + 4 + 76 * of_nat i" for i by (simp add: file_header_def I)
  have nm: "cstr (hmem s3) (f_name (file_header I (of_nat j))) (mk_name (fst (files ! j))) \<and> length (mk_name (fst (files ! j))) \<le> 63"
    if "j < ?n" for j using im(2) [OF that] L that length_mk_name by (simp add: h f_name_def)
  obtain m' where m': "init_files L I location 0 (hmem s3) = Some m'" "only (loop_area I ?n ?n) (hmem s3) m'"
    "\<forall>j < ?n. file_node L m' (root_node I (of_nat j)) (mk_name (fst (files ! j))) (of_nat j) (load32 (hmem s3) (f_length (file_header I (of_nat j)))) \<and>
       load32 m' (f_offset (file_header I (of_nat j))) = load32 (hmem s3) (f_offset (file_header I (of_nat j))) + location"
    using init_files_ok [OF lay _ nm, of 0 "hmem s3" L location] nf [OF low3] I by auto
  let ?s = "s3\<lparr>hmem := m'\<rparr>"
  have hdr: "loop_area I ?n ?n \<subseteq> bytes_from location (4 + 76 * ?n) \<union> bytes_from nodes (184 * ?n)"
    using file_header_parts_only [of I _ files] I unfolding loop_area_def by (auto simp del: UN_simps)
  have Kd: "bytes_from q (unat w) \<inter> bytes_from location (4 + 76 * ?n) = {}" if "(q, w) \<in> live s3" for q w
    by (intro sep_disjoint sep_ordered) (use live_range [OF inv3 that] img hsz unat_less_32 [of "heap_end s3"] unat_less_32 [of KHEAP_START] in linarith)+
  have keep: "bytes_from q (unat w) \<inter> loop_area I ?n ?n = {}" if "(q, w) \<in> live s3" "q \<noteq> nodes" for q w
    using Kd [OF that(1)] sep_disjoint [OF live_apart [OF inv3 that(1) mem3(3) that(2)]] bytes_from_mono [OF z3, of nodes] hdr by blast
  have same: "m' (q + of_nat i) = hmem s3 (q + of_nat i)" if "(q, w) \<in> live s3" "q \<noteq> nodes" "i < unat w" for q w i
    using keep [OF that(1,2)] bytes_fromI [OF that(3), of q] unat_less_32 [of w] m'(2) by (auto simp: only_def)
  have kp: "kept (live sb) s3 ?s" unfolding kept_iff
  proof (intro allI impI)
    fix q w i assume q: "(q, w) \<in> live sb" "i < unat w"
    then have "q \<noteq> nodes" using 3(5) by auto
    then show "hmem ?s (q + of_nat i) = hmem s3 (q + of_nat i)" using same [of q w i] q 3(4) by simp
  qed
  have k0: "kept (live s) s ?s"
    using kept_trans [OF kept_trans [OF kept_trans [OF 1(9) 2(9)] 3(6)] kp] 1(6) 2(6) by auto
  have o_dev: "only (- bytes_from dev 184) m2 m'"
    using kept_only [OF kept_trans [OF 3(6) kp order_refl], of dev z2 184] 2(6,7) sb(1) by simp
  have o_root: "only (- bytes_from root 184) m1 m'"
    using kept_only [OF kept_trans [OF 2(9) kept_trans [OF 3(6) kp order_refl]], of root z1 184] 1(6,7) 2(6) sa(1) by auto
  have dn: "dir_node L m' root str_initrd" "dir_node L m' dev str_dev"
    by (rule dir_node_only [OF 1(5) _ o_root], simp_all add: str_lengths)
       (rule dir_node_only [OF 2(5) _ o_dev], simp_all add: str_lengths)
  have o3: "only (bytes_from nodes (unat z3) \<union> {x. x < KHEAP_START}) (hmem s3) m'"
  proof (rule only_mono [OF m'(2)])
    have "x < KHEAP_START" if x: "x \<in> bytes_from location (4 + 76 * ?n)" for x
    proof -
      obtain i where i: "i < 4 + 76 * ?n" "x = location + of_nat i" using bytes_from_ex [OF x] by blast
      then have "unat x = unat location + i"
        using img hsz unat_less_32 [of KHEAP_START] by (simp only: i(2), intro unat_add_of_nat) simp
      then show ?thesis using i(1) img hsz by (simp add: word_less_nat_alt)
    qed
    then show "loop_area I ?n ?n \<subseteq> bytes_from nodes (unat z3) \<union> {x. x < KHEAP_START}"
      using hdr bytes_from_mono [OF z3, of nodes] by blast
  qed
  have hp: "heap_room ?s (k + 1)" "live ?s = live s3" using heap_room_write [OF 3(2) mem3(3) o3] by simp_all
  have lv: "live ?s = live s \<union> {(root, z1), (dev, z2), (nodes, z3)}" unfolding hp(2) 3(4) 2(6) 1(6) by blast
  have fo: "file_ok L I files m' i" if i: "i < ?n" for i
  proof -
    have "bytes_from (location + of_nat (file_offset files i)) (length (snd (files ! i))) \<inter> loop_area I ?n ?n = {}"
    proof -
      have "bytes_from (location + of_nat (file_offset files i)) (length (snd (files ! i))) \<inter> bytes_from nodes (184 * ?n) = {}"
        using sep_disjoint [OF sep_ordered [of location ?img nodes "184 * ?n"]] bytes_from_sub [OF file_offset_end [OF i], of location]
          img rng unat_less_32 [of KHEAP_START] by (auto simp: disjoint_iff subset_iff)
      then show ?thesis using contents_apart [OF i img(2), of location] hdr by blast
    qed
    then have "loaded m' (location + of_nat (file_offset files i)) (snd (files ! i))"
      by (rule loaded_only [OF im(5) [OF i] m'(2)]) (use file_offset_end [OF i] img(2) in simp)
    moreover have "load32 m' (f_length (file_header I (of_nat i))) = load32 (hmem s3) (f_length (file_header I (of_nat i)))"
      by (rule only_load32 [OF m'(2) loop_area_header(3) [OF lay order_refl i]])
    ultimately show ?thesis
      using m'(3) [rule_format, OF i] im(3) [OF i] im(4) [OF i] by (simp add: file_ok_def I h f_length_def f_offset_def add.commute)
  qed
  have dev_lit: "cstr m' (lit_dev L) str_dev"
  proof (rule cstr_only [OF low_cstr [OF low3] m'(2)])
    have l4: "bytes_from (lit_dev L) (Suc (length str_dev)) = bytes_from (lit_dev L) 4" by (simp add: str_lengths)
    have "bytes_from (lit_dev L) 4 \<inter> bytes_from nodes (184 * ?n) = {}"
      by (intro sep_disjoint sep_ordered) (use L rng in simp_all)
    moreover have "bytes_from (lit_dev L) 4 \<inter> bytes_from location (4 + 76 * ?n) = {}"
      using sep_disjoint [of "lit_dev L" 4 location ?img] L bytes_from_mono [OF hsz, of location] by blast
    ultimately show "bytes_from (lit_dev L) (Suc (length str_dev)) \<inter> loop_area I ?n ?n = {}" unfolding l4 using hdr by blast
  qed (use L in \<open>simp_all add: str_lengths\<close>)
  have nz: "root_node I (of_nat i) \<noteq> 0" if "i < ?n" for i
  proof -
    have "unat (nodes + of_nat (184 * i)) = unat nodes + 184 * i" using rng that by (intro unat_add_of_nat) simp
    then show ?thesis using rng by (auto simp: root_node_def sizeof_node_def I)
  qed
  have "dev \<noteq> 0" using live_range(3) [OF inv3 mem3(2)] .
  then have ok: "initrd_ok L I files m'"
    using fo dev_lit nz dn mem3(4) L n31 img(2) by (simp add: initrd_ok_def I)
  have "initialise_initrd L location s = Some (initrd_root I, I, ?s)"
    using 1(1-3) 2(1-3) 3(1) m'(1) szn sb(1) unfolding initialise_initrd_def by (simp add: I_def Let_def)
  moreover have "hmem ?s x = hmem s x" if x: "x < KHEAP_START" "x \<notin> bytes_from location ?img" for x
  proof -
    have "x \<notin> bytes_from nodes (unat z3)" using live_above [OF inv3 mem3(3) order_refl] x(1) by fastforce
    then have "x \<notin> bytes_from nodes (184 * ?n)" using bytes_from_mono [OF z3, of nodes] by blast
    moreover have "x \<notin> bytes_from location (4 + 76 * ?n)" using bytes_from_mono [OF hsz, of location] x(2) by blast
    ultimately have "x \<notin> loop_area I ?n ?n" using hdr by blast
    then show ?thesis using m'(2) low3 x(1) by (simp add: only_def)
  qed
  moreover have "high_kept s (hmem ?s)"
  proof (intro allI impI)
    fix x assume x: "heap_end s \<le> x"
    have "x \<notin> bytes_from nodes (unat z3)" using live_bytes(2) [OF inv3 mem3(3), of x] x 1(11) 2(11) 3(8) by auto
    moreover have "KHEAP_START \<le> heap_end s3" using live_range [OF inv3 mem3(3)] by (simp add: word_le_nat_alt)
    then have "\<not> x < KHEAP_START" using x 1(11) 2(11) 3(8) by auto
    ultimately have "m' x = hmem s3 x" using o3 by (simp add: only_def)
    then show "hmem ?s x = hmem s x" using x 1(3,11,12) 2(3,11,12) 3(10) by auto
  qed
  moreover have "vm ?s = vm s" using 1(13) 2(13) 3(9) by simp
  ultimately show thesis
    by (intro that [of I ?s z1 z2 z3]) (use I ok hp(1) lv k0 1(7,11) 2(7,11) 3(8) z3 in auto)
qed

lemma initialise_ok:
  assumes ld: "initrd_loaded L location files (hmem s)" and room: "heap_room s (184 * length files + 431)"
  obtains I s' where "initialise_initrd L location s = Some (initrd_root I, I, s')" "initrd_header I = location"
    "initrd_ok L I files (hmem s')" "heap_inv s'" "\<exists>z1 z2 z3. live s' = live s \<union> {(initrd_root I, z1), (initrd_dev I, z2), (root_nodes I, z3)}"
    "kept (live s) s s'"
    "initrd_area L I files \<subseteq> {x. KHEAP_START \<le> x} \<union> bytes_from location (length (mkinitrd files)) \<union> bytes_from (lit_dev L) 4"
proof -
  have r: "heap_room s (184 * length files + 431 + 0)" using room by simp
  obtain I s' z1 z2 z3 where i: "initialise_initrd L location s = Some (initrd_root I, I, s')" "initrd_header I = location"
    "initrd_ok L I files (hmem s')" "live s' = live s \<union> {(initrd_root I, z1), (initrd_dev I, z2), (root_nodes I, z3)}"
    "kept (live s) s s'" "184 \<le> unat z1" "184 \<le> unat z2" "184 * length files \<le> unat z3" "heap_room s' (0 + 1)"
    by (rule initialise_more [OF ld r])
  have inv: "heap_inv s'" by (rule heap_room_inv [OF i(9)])
  have "(initrd_root I, z1) \<in> live s'" "(initrd_dev I, z2) \<in> live s'" "(root_nodes I, z3) \<in> live s'" using i(4) by simp_all
  note above = this [THEN live_above [OF inv]]
  have "initrd_area L I files \<subseteq> {x. KHEAP_START \<le> x} \<union> bytes_from location (length (mkinitrd files)) \<union> bytes_from (lit_dev L) 4"
    using above(1) [OF i(6)] above(2) [OF i(7)] above(3) [OF i(8)] i(2) unfolding initrd_area_def by blast
  then show thesis by (intro that [OF i(1-3) inv _ i(5)]) (use i(4) in auto)
qed

end
