(* ===== verification/Initrd_Ops.thy ===== *)
theory Initrd_Ops
  imports Initrd_Mount
begin

text \<open>
  Looking up, listing and reading files of the ramdisk through the virtual file system, and the
  properties of the whole: what \<^verbatim>\<open>mkinitrd.py\<close> packs is what the kernel reads.
\<close>

section \<open>Finding, listing and reading\<close>

lemma apart_far: "bytes_from d (Suc n) \<inter> bytes_from s n = {} \<Longrightarrow> d - s < x \<Longrightarrow> unat x \<le> n \<Longrightarrow> False"
proof -
  assume a: "bytes_from d (Suc n) \<inter> bytes_from s n = {}" "d - s < x" "unat x \<le> n"
  then have "d \<in> bytes_from s n" "d \<in> bytes_from d (Suc n)" by (simp_all add: bytes_from_def word_less_nat_alt)
  with a(1) show False by blast
qed

definition find_file :: "(u8 list \<times> u8 list) list \<Rightarrow> u8 list \<Rightarrow> nat \<Rightarrow> nat option" where
  "find_file files name i = find (\<lambda>j. mk_name (fst (files ! j)) = name) [i..<length files]"

lemma sint_of_nat_small:
  assumes "j < 2 ^ 31"
  shows "sint (of_nat j :: u32) = int j"
proof -
  have "unat (of_nat j :: u32) = j" by (rule unat_of_nat_32) (use assms in simp)
  then have u: "uint (of_nat j :: u32) = int j" unfolding uint_nat by simp
  have "sint (of_nat j :: u32) = signed_take_bit 31 (uint (of_nat j :: u32))" unfolding sint_uint by simp
  also have "\<dots> = int j" unfolding u by (rule signed_take_bit_int_eq_self) (use assms in simp_all)
  finally show ?thesis .
qed

lemma finddir_loop_ok:
  assumes ok: "initrd_ok L I files m" and c: "cstr m a name"
  shows "i \<le> length files \<Longrightarrow> finddir_loop I (of_nat i) a m =
    Some (case find_file files name i of None \<Rightarrow> 0 | Some j \<Rightarrow> root_node I (of_nat j))"
proof (induction "length files - i" arbitrary: i)
  case 0
  then have i: "i = length files" by simp
  then show ?case using ok by (subst finddir_loop.simps) (simp add: initrd_ok_def find_file_def)
next
  case (Suc k)
  then have i: "i < length files" by simp
  have n: "length files < 2 ^ 31" "nroot_nodes I = of_nat (length files)" using ok by (simp_all add: initrd_ok_def)
  have s: "sint (of_nat j :: u32) = int j" if "j < 2 ^ 31" for j :: nat
    by (rule sint_of_nat_small [OF that])
  have lt: "sint (of_nat i :: u32) < sint (nroot_nodes I)" using s [of i] s [of "length files"] n i by simp
  have "cstr m (n_name (root_node I (of_nat i))) (mk_name (fst (files ! i)))"
    using ok i by (simp add: initrd_ok_def file_ok_def file_node_def)
  from strcmp_cstr [OF c this] obtain r where r: "strcmp m a (n_name (root_node I (of_nat i))) = Some r"
    "r = 0 \<longleftrightarrow> name = mk_name (fst (files ! i))" by blast
  have f: "find_file files name i = (if mk_name (fst (files ! i)) = name then Some i else find_file files name (Suc i))"
    using i by (simp add: find_file_def upt_conv_Cons)
  have k: "k = length files - Suc i" using Suc(2) by simp
  have ih: "finddir_loop I (of_nat i + 1) a m =
      Some (case find_file files name (Suc i) of None \<Rightarrow> 0 | Some j \<Rightarrow> root_node I (of_nat j))"
    using Suc(1) [OF k] i by (simp add: add.commute)
  show ?case by (subst finddir_loop.simps) (use lt r f ih in auto)
qed

lemma finddir_ok:
  assumes ok: "initrd_ok L I files m" and c: "cstr m a name"
  shows "vfs_finddir (kernel_finddir L I) (initrd_root I) a m =
    Some (if name = str_dev then initrd_dev I else case find_file files name 0 of None \<Rightarrow> 0 | Some j \<Rightarrow> root_node I (of_nat j))"
proof -
  have d: "cstr m (lit_dev L) str_dev" "load32 m (n_flags (initrd_root I)) = VFS_DIRECTORY"
    "load32 m (n_finddir (initrd_root I)) = initrd_finddir_at L" "initrd_finddir_at L \<noteq> 0"
    using ok by (simp_all add: initrd_ok_def dir_node_def)
  from strcmp_cstr [OF c d(1)] obtain r where "strcmp m a (lit_dev L) = Some r" "r = 0 \<longleftrightarrow> name = str_dev" by blast
  then show ?thesis using d finddir_loop_ok [OF ok c, of 0]
    by (simp add: vfs_finddir_def kernel_finddir_def initrd_finddir_def VFS_DIRECTORY_def)
qed

lemma initrd_read_ok:
  assumes ok: "initrd_ok L I files m" and i: "i < length files"
  defines "c \<equiv> snd (files ! i)"
  assumes no_wrap: "unat offset + unat sz < 2 ^ 32" and buf: "bytes_from buffer (unat sz) \<inter> initrd_area L I files = {}"
  defines "k \<equiv> min (unat sz) (length c - unat offset)"
  obtains m' where "vfs_read (kernel_read L I) (root_node I (of_nat i)) offset sz buffer m = Some (of_nat k, m')"
    "\<forall>j < k. m' (buffer + of_nat j) = c ! (unat offset + j)" "only (bytes_from buffer k) m m'"
proof -
  let ?p = "root_node I (of_nat i)" and ?h = "file_header I (of_nat i)" and ?a = "initrd_header I + of_nat (file_offset files i)"
  have f: "load32 m (n_read ?p) = initrd_read_at L" "initrd_read_at L \<noteq> 0" "load32 m (n_inode ?p) = of_nat i"
    "load32 m (f_offset ?h) = ?a" "load32 m (f_length ?h) = of_nat (length c)" "loaded m ?a c" "length (mkinitrd files) < 2 ^ 32"
    using ok i by (simp_all add: initrd_ok_def file_ok_def file_node_def c_def)
  have cl: "length c < 2 ^ 32" using file_offset_end [OF i] f(7) by (simp add: c_def)
  have ul: "unat (of_nat (length c) :: u32) = length c" by (rule unat_of_nat_32 [OF cl])
  have v: "vfs_read (kernel_read L I) ?p offset sz buffer m = initrd_read I ?p offset sz buffer m"
    using f(1,2) by (simp add: vfs_read_def kernel_read_def)
  show thesis
  proof (cases "length c < unat offset")
    case True
    then have "initrd_read I ?p offset sz buffer m = Some (0, m)"
      using f(3,5) ul by (simp add: initrd_read_def Let_def word_less_nat_alt)
    moreover have "k = 0" using True by (simp add: k_def)
    ultimately show thesis using v by (intro that [of m]) simp_all
  next
    case False
    have us: "unat (offset + sz) = unat offset + unat sz" using no_wrap by (simp add: unat_word_ariths)
    have ud: "unat (of_nat (length c) - offset :: u32) = length c - unat offset"
      using False ul by (simp add: unat_sub word_le_nat_alt)
    have "(if offset + sz > of_nat (length c) then of_nat (length c) - offset else sz) = of_nat k"
      unfolding word_unat_eq_iff word_less_nat_alt us ul k_def
      using False ud unat_less_32 [of sz] cl by (auto simp: unat_of_nat_32 min_def ul)
    then have rd: "initrd_read I ?p offset sz buffer m = Some (of_nat k, memcpy buffer (?a + offset) (of_nat k) m)"
      using False f(3,4,5) ul by (simp add: initrd_read_def Let_def word_less_nat_alt split: if_splits)
    have uk: "unat (of_nat k :: u32) = k" using unat_less_32 [of sz] by (intro unat_of_nat_32) (simp add: k_def)
    have src: "bytes_from (?a + offset) k \<subseteq> initrd_area L I files"
    proof -
      have "initrd_header I + of_nat (file_offset files i + unat offset) = ?a + offset" by (simp add: add.assoc)
      moreover have "bytes_from (initrd_header I + of_nat (file_offset files i + unat offset)) k \<subseteq> bytes_from (initrd_header I) (length (mkinitrd files))"
        by (rule bytes_from_sub) (use file_offset_end [OF i] False in \<open>simp add: k_def c_def\<close>)
      ultimately have "bytes_from (?a + offset) k \<subseteq> bytes_from (initrd_header I) (length (mkinitrd files))" by (simp only:)
      then show ?thesis unfolding initrd_area_def by blast
    qed
    have far: "of_nat k \<le> buffer - (?a + offset)"
    proof (rule ccontr)
      assume "\<not> ?thesis"
      then have lt: "buffer - (?a + offset) < of_nat k" by simp
      then have b: "buffer \<in> bytes_from (?a + offset) k" using uk by (simp add: bytes_from_def word_less_nat_alt)
      then have "0 < k" by (auto simp: bytes_from_def)
      then have "buffer \<in> bytes_from buffer (unat sz)" by (simp add: bytes_from_def k_def)
      with b src buf show False by blast
    qed
    let ?m = "memcpy buffer (?a + offset) (of_nat k) m"
    have at: "?m x = (if x - buffer < of_nat k then m (?a + offset + (x - buffer)) else m x)" for x
      by (rule memcpy_at) (use far in simp)
    have "?m (buffer + of_nat j) = c ! (unat offset + j)" if j: "j < k" for j
    proof -
      have kk: "k < 2 ^ 32" using unat_less_32 [of sz] by (simp add: k_def)
      have "(of_nat j :: u32) < of_nat k" using j kk uk by (simp add: word_less_nat_alt unat_of_nat_32)
      then have "?m (buffer + of_nat j) = m (?a + of_nat (unat offset + j))" by (subst at) (simp add: add.assoc)
      also have "\<dots> = c ! (unat offset + j)" 
      proof -
        have "k \<le> length c - unat offset" by (simp add: k_def)
        then have "unat offset + j < length c" using j by linarith
        with f(6) show ?thesis unfolding loaded_def by blast
      qed
      finally show ?thesis .
    qed
    moreover have "only (bytes_from buffer k) m ?m" using uk by (simp add: only_def at bytes_from_def word_less_nat_alt)
    ultimately show thesis using v rd by (intro that [of ?m]) simp_all
  qed
qed

lemma readdir_copy:
  assumes c: "cstr m src xs" "length xs \<le> 63" and ap: "bytes_from src (Suc (length xs)) \<inter> bytes_from d 132 = {}"
  obtains m1 m' where "strcpy (d_name d) src m = Some m1" "m' = store32 (d_inode d) v m1" "cstr m' (d_name d) xs" "load32 m' (d_inode d) = v"
    "only (bytes_from d 132) m m'" "only (bytes_from d 132) m m1"
proof -
  have "length xs < unat (d - src)"
  proof (rule ccontr)
    assume "\<not> ?thesis"
    then have "d \<in> bytes_from src (Suc (length xs))" "d \<in> bytes_from d 132" by (simp_all add: bytes_from_def)
    with ap show False by blast
  qed
  then obtain m1 where m1: "strcpy d src m = Some m1" "cstr m1 d xs" "only (bytes_from d 128) m m1"
    by (rule strcpy_only [OF c(1)]) (use c(2) in simp_all)
  let ?m = "store32 (d + 128) v m1"
  have "bytes_from d 128 \<inter> bytes_from (d + 128) 4 = {}" using sep_disjoint [OF sep_offset [of 0 128 128 4 d]] by simp
  then have "bytes_from d (Suc (length xs)) \<inter> bytes_from (d + 128) 4 = {}"
    using bytes_from_mono [of "Suc (length xs)" 128 d] c(2) by auto
  then have "cstr ?m d xs" using c(2) by (intro cstr_only [OF m1(2) only_store32]) simp_all
  moreover have o1: "only (bytes_from d 132) m m1" by (rule only_mono [OF m1(3) bytes_from_mono]) simp
  moreover have "only (bytes_from d 132) m1 ?m"
    by (rule only_mono [OF only_store32]) (use bytes_from_sub [of 128 4 132 d] in simp)
  then have "only (bytes_from d 132) m ?m" using o1 by (rule only_trans [rotated])
  ultimately show thesis using m1(1) by (intro that [of m1 ?m]) (simp_all add: d_name_def d_inode_def load32_store32_same)
qed

text \<open>The name and inode at an index of the directory.\<close>

definition entry_at :: "(u8 list \<times> u8 list) list \<Rightarrow> nat \<Rightarrow> (u8 list \<times> nat) option" where
  "entry_at files i = (if i = 0 then Some (str_dev, 0)
     else if i \<le> length files then Some (mk_name (fst (files ! (i - 1))), i - 1) else None)"

lemma readdir_ok:
  assumes ok: "initrd_ok L I files m" and d: "bytes_from (dirent L) 132 \<inter> initrd_area L I files = {}" and di: "dirent L \<noteq> 0"
  shows "case entry_at files (unat index) of
      None \<Rightarrow> vfs_readdir (kernel_readdir L I) (initrd_root I) index m = Some (0, m)
    | Some (name, inode) \<Rightarrow> \<exists>m'. vfs_readdir (kernel_readdir L I) (initrd_root I) index m = Some (dirent L, m') \<and>
        cstr m' (d_name (dirent L)) name \<and> load32 m' (d_inode (dirent L)) = of_nat inode \<and> only (bytes_from (dirent L) 132) m m'"
proof -
  have f: "cstr m (lit_dev L) str_dev" "load32 m (n_flags (initrd_root I)) = VFS_DIRECTORY"
    "load32 m (n_readdir (initrd_root I)) = initrd_readdir_at L" "initrd_readdir_at L \<noteq> 0" "nroot_nodes I = of_nat (length files)"
    "length files < 2 ^ 31"
    using ok by (simp_all add: initrd_ok_def dir_node_def)
  have v: "vfs_readdir (kernel_readdir L I) (initrd_root I) index m = initrd_readdir L I (initrd_root I) index m"
    using f by (simp add: vfs_readdir_def kernel_readdir_def VFS_DIRECTORY_def)
  have un: "unat (nroot_nodes I) = length files" using f(5,6) by (simp add: unat_of_nat_32)
  show ?thesis
  proof (cases "index = 0")
    case True
    have a: "bytes_from (lit_dev L) (Suc (length str_dev)) \<inter> bytes_from (dirent L) 132 = {}"
      using d by (auto simp: initrd_area_def str_lengths simp flip: numeral_eq_Suc)
    show ?thesis
      by (rule readdir_copy [OF f(1) _ a, of 0]) (use True v in \<open>auto simp: entry_at_def initrd_readdir_def str_lengths\<close>)
  next
    case False
    then have u: "unat index \<noteq> 0" "unat (index - 1) = unat index - 1"
      using unat_minus_one [of index] unsigned_eq_0_iff [of index] by blast+
    show ?thesis
    proof (cases "unat index \<le> length files")
      case True
      define i where "i = unat index - 1"
      have i: "i < length files" "index - 1 = of_nat i" using True u by (simp_all add: i_def flip: u(2))
      have lt: "index - 1 < nroot_nodes I" using i(1) u(2) un by (simp add: word_less_nat_alt i_def)
      let ?p = "root_node I (of_nat i)" and ?nm = "mk_name (fst (files ! i))"
      have nd: "cstr m ?p ?nm" "load32 m (n_inode ?p) = of_nat i"
        using ok i(1) by (simp_all add: initrd_ok_def file_ok_def file_node_def n_name_def)
      have nl: "length ?nm \<le> 63" by (rule length_mk_name)
      have pd: "bytes_from ?p 184 \<inter> bytes_from (dirent L) 132 = {}"
        using node_in [OF i(1), of I] d unfolding initrd_area_def by blast
      then have a: "bytes_from ?p (Suc (length ?nm)) \<inter> bytes_from (dirent L) 132 = {}"
        using bytes_from_mono [of "Suc (length ?nm)" 184 ?p] nl by auto
      have inode: "load32 m1 (n_inode ?p) = of_nat i" if "only (bytes_from (dirent L) 132) m m1" for m1
        using only_load32 [OF that, of "n_inode ?p"] fields_of [where p = ?p and i = "num.Bit0 (num.Bit0 (num.Bit0 (num.Bit0 (num.Bit1 (num.Bit0 (num.Bit0 num.One))))))"] pd nd(2) by (auto simp: n_inode_def)
      have e: "entry_at files (unat index) = Some (?nm, i)" using True u(1) by (simp add: entry_at_def i_def)
      show ?thesis
        by (rule readdir_copy [OF nd(1) nl a, of "of_nat i"])
           (use False v lt inode in \<open>auto simp: e initrd_readdir_def i(2) n_name_def\<close>)
    next
      case False
      then have "\<not> index - 1 < nroot_nodes I" using u un by (simp add: word_less_nat_alt)
      then show ?thesis using \<open>index \<noteq> 0\<close> u(1) False v by (simp add: entry_at_def initrd_readdir_def)
    qed
  qed
qed

section \<open>The ramdisk is a file system\<close>

definition ramdisk_contents :: "(u8 list \<times> u8 list) list \<Rightarrow> u8 list \<Rightarrow> u8 list option" where
  "ramdisk_contents files name = (if name = str_dev then None else map_option (\<lambda>i. snd (files ! i)) (find_file files name 0))"

definition ramdisk_node :: "initrd_t \<Rightarrow> (u8 list \<times> u8 list) list \<Rightarrow> u8 list \<Rightarrow> u32" where
  "ramdisk_node I files name = (case find_file files name 0 of None \<Rightarrow> 0 | Some i \<Rightarrow> root_node I (of_nat i))"

lemma find_file_less: "find_file files name k = Some i \<Longrightarrow> i < length files"
  by (auto simp: find_file_def find_Some_iff)

interpretation ramdisk: file_tree "initrd_ok L I files" "initrd_area L I files" "initrd_root I"
  "vfs_finddir (kernel_finddir L I)" "vfs_read (kernel_read L I)" "ramdisk_contents files" "ramdisk_node I files" for L I files
proof unfold_locales
  fix m m' :: mem and S and name c :: "u8 list" and a offset sz buffer :: u32
  show "initrd_ok L I files m'" if "initrd_ok L I files m" "only S m m'" "S \<inter> initrd_area L I files = {}"
    using that by (rule initrd_ok_only)
  assume ok: "initrd_ok L I files m" and "ramdisk_contents files name = Some c"
  then obtain i where i: "find_file files name 0 = Some i" "name \<noteq> str_dev" "c = snd (files ! i)" "i < length files"
    by (auto simp: ramdisk_contents_def find_file_less split: if_splits)
  show "length c < 2 ^ 32" using file_offset_end [OF i(4)] ok i(3) by (simp add: initrd_ok_def)
  show "vfs_finddir (kernel_finddir L I) (initrd_root I) a m = Some (ramdisk_node I files name) \<and> ramdisk_node I files name \<noteq> 0 \<and>
      load32 m (n_length (ramdisk_node I files name)) = of_nat (length c)" if "cstr m a name"
    using finddir_ok [OF ok that] ok i by (simp add: ramdisk_node_def initrd_ok_def file_ok_def file_node_def)
  show "\<exists>m'. vfs_read (kernel_read L I) (ramdisk_node I files name) offset sz buffer m =
        Some (of_nat (min (unat sz) (length c - unat offset)), m') \<and>
        loaded m' buffer (take (unat sz) (drop (unat offset) c)) \<and> only (bytes_from buffer (unat sz)) m m'"
    if "unat offset + unat sz < 2 ^ 32" "bytes_from buffer (unat sz) \<inter> initrd_area L I files = {}"
  proof (rule initrd_read_ok [OF ok i(4) that])
    let ?k = "min (unat sz) (length (snd (files ! i)) - unat offset)"
    fix m' assume r: "vfs_read (kernel_read L I) (root_node I (of_nat i)) offset sz buffer m = Some (of_nat ?k, m')"
      "\<forall>j < ?k. m' (buffer + of_nat j) = snd (files ! i) ! (unat offset + j)" "only (bytes_from buffer ?k) m m'"
    have "only (bytes_from buffer (unat sz)) m m'" by (rule only_mono [OF r(3) bytes_from_mono]) simp
    moreover have "loaded m' buffer (take (unat sz) (drop (unat offset) c))" unfolding loaded_def
    proof (intro allI impI)
      fix j assume "j < length (take (unat sz) (drop (unat offset) c))"
      then have j: "j < unat sz" "j < length c - unat offset" by simp_all
      then have "unat offset \<le> length c" by linarith
      then show "m' (buffer + of_nat j) = take (unat sz) (drop (unat offset) c) ! j" using j r(2) i(3) by simp
    qed
    ultimately show ?thesis using r(1) i by (intro exI [of _ m']) (simp add: ramdisk_node_def)
  qed
qed

section \<open>A machine with an image\<close>

lemma loaded_write_bytes: "length xs < 2 ^ 32 \<Longrightarrow> loaded (write_bytes p xs m) p xs"
  by (simp add: loaded_def write_bytes_at unat_of_nat_32)

lemma only_write_bytes: "length xs < 2 ^ 32 \<Longrightarrow> only (bytes_from p (length xs)) m (write_bytes p xs m)"
  by (simp add: only_def write_bytes_at bytes_from_def)

definition demo_link :: initrd_link where
  "demo_link = \<lparr>initrd_read_at = 0xC0010000, initrd_readdir_at = 0xC0010100, initrd_finddir_at = 0xC0010200,
     dirent = 0xC0020000, lit_dev = 0xC0030000, lit_initrd = 0xC0030010\<rparr>"

text \<open>The file \<^verbatim>\<open>a/hi\<close> with the three bytes \<^verbatim>\<open>yes\<close>.\<close>

definition demo_files :: "(u8 list \<times> u8 list) list" where
  "demo_files = [([0x61, 0x2F, 0x68, 0x69], [0x79, 0x65, 0x73])]"

definition demo_mem :: mem where
  "demo_mem = write_bytes 0xC0030000 (str_dev @ [0]) (write_bytes 0xC0030010 (str_initrd @ [0])
     (write_bytes 0xC0040000 (mkinitrd demo_files) (\<lambda>_. 0)))"

lemma demo_sizes: "length (mkinitrd demo_files) = 83" "mk_name (fst (demo_files ! 0)) = [0x68, 0x69]" "length demo_files = 1"
  by (simp_all add: length_mkinitrd file_offset_def demo_files_def mk_name_def)

lemma loaded_kept:
  assumes "loaded m a xs" "sep a (length xs) p (length ys)" "length xs < 2 ^ 32" "length ys < 2 ^ 32"
  shows "loaded (write_bytes p ys m) a xs"
  by (rule loaded_only [OF assms(1) only_write_bytes [OF assms(4)] sep_disjoint [OF assms(2)]]) (use assms(3) in simp)

lemma demo_mem_loaded: "initrd_loaded demo_link 0xC0040000 demo_files demo_mem"
proof -
  note sz = str_lengths demo_sizes(1)
  have img: "loaded demo_mem 0xC0040000 (mkinitrd demo_files)"
    unfolding demo_mem_def by (rule loaded_kept [OF loaded_kept [OF loaded_write_bytes]]) (simp_all add: sz sep_ordered)
  have l1: "loaded demo_mem 0xC0030000 (str_dev @ 0 # [])"
    unfolding demo_mem_def by (rule loaded_write_bytes) (simp add: sz)
  have l2: "loaded demo_mem 0xC0030010 (str_initrd @ 0 # [])"
    unfolding demo_mem_def by (rule loaded_kept [OF loaded_write_bytes]) (simp_all add: sz sep_ordered)
  have "cstr demo_mem 0xC0030000 str_dev" by (rule loaded_cstr [OF l1]) (simp add: str_dev_def)
  moreover have "cstr demo_mem 0xC0030010 str_initrd" by (rule loaded_cstr [OF l2]) (simp add: str_initrd_def)
  moreover have "\<forall>f \<in> set demo_files. 0 \<notin> set (fst f)" by (simp add: demo_files_def)
  moreover have "demo_files \<noteq> []" by (simp add: demo_files_def)
  ultimately show ?thesis using img sz by (simp add: initrd_loaded_def demo_link_def KHEAP_START_def sep_ordered)
qed

lemma demo_machine:
  obtains s where "initrd_loaded demo_link 0xC0040000 demo_files (hmem s)" "heap_room s (184 * length demo_files + 431)"
proof -
  obtain v s where s: "heap_ok s [(KHEAP_INITIAL_SIZE - 20, True)]" by (rule boot_heap_ok)
  let ?m = "\<lambda>x. if x < KHEAP_START then demo_mem x else hmem s x"
  let ?s = "s\<lparr>hmem := ?m\<rparr>"
  have "only {x. x < KHEAP_START} (hmem s) ?m" by (simp add: only_def)
  then have "heap_ok ?s ([] @ [(KHEAP_INITIAL_SIZE - 20, True)])" using heap_ok_low(1) [OF s] by simp
  moreover have "615 \<le> unat (KHEAP_INITIAL_SIZE - 20)" by (simp add: KHEAP_INITIAL_SIZE_def)
  ultimately have "heap_room ?s (184 * length demo_files + 431)"
    unfolding heap_room_def demo_sizes by (intro exI [of _ "[]"] exI [of _ "KHEAP_INITIAL_SIZE - 20"]) simp
  moreover have lo: "low_kept demo_mem ?m" by simp
  have "initrd_loaded demo_link 0xC0040000 demo_files ?m"
    using demo_mem_loaded low_loaded [OF lo, of "0xC0040000" "mkinitrd demo_files"] low_cstr [OF lo, of "lit_dev demo_link" str_dev]
      low_cstr [OF lo, of "lit_initrd demo_link" str_initrd]
    unfolding initrd_loaded_def by (simp only: str_lengths) simp
  ultimately show thesis by (intro that [of ?s]) simp_all
qed

section \<open>Properties\<close>

text \<open>
  C32: with an image below the heap and room for the nodes, \<^verbatim>\<open>initialise_initrd\<close> returns the root
  directory of a well-formed file system: every node has its name, kind, length and operations, every
  header points to the contents of its file. It allocates three blocks and leaves the contents of all
  others alone; and the file system stays well formed whatever is written outside of its memory.
\<close>

theorem initrd_mounted:
  assumes "initrd_loaded L location files (hmem s)" and "heap_room s (184 * length files + 431)"
  shows "\<exists>I s'. initialise_initrd L location s = Some (initrd_root I, I, s') \<and> initrd_ok L I files (hmem s') \<and> heap_inv s' \<and>
    (\<exists>z1 z2 z3. live s' = live s \<union> {(initrd_root I, z1), (initrd_dev I, z2), (root_nodes I, z3)}) \<and> kept (live s) s s' \<and>
    (\<forall>m. only (- initrd_area L I files) (hmem s') m \<longrightarrow> initrd_ok L I files m)"
proof -
  obtain I s' where i: "initialise_initrd L location s = Some (initrd_root I, I, s')" "initrd_ok L I files (hmem s')" "heap_inv s'"
    "\<exists>z1 z2 z3. live s' = live s \<union> {(initrd_root I, z1), (initrd_dev I, z2), (root_nodes I, z3)}" "kept (live s) s s'"
    by (rule initialise_ok [OF assms])
  moreover have "initrd_ok L I files m" if "only (- initrd_area L I files) (hmem s') m" for m
    by (rule initrd_ok_only [OF i(2) that]) simp
  ultimately show ?thesis by blast
qed

theorem initrd_mounted_witness:
  "\<exists>s I s'. initialise_initrd demo_link 0xC0040000 s = Some (initrd_root I, I, s') \<and> initrd_ok demo_link I demo_files (hmem s')"
proof -
  obtain s where "initrd_loaded demo_link 0xC0040000 demo_files (hmem s)" "heap_room s (184 * length demo_files + 431)"
    by (rule demo_machine)
  from initrd_mounted [OF this] show ?thesis by blast
qed

text \<open>
  C33: what \<^verbatim>\<open>mkinitrd.py\<close> packs is what the kernel reads. In any later memory that still has the
  file system, looking up a name in the root directory gives the first file packed under that name
  (\<^verbatim>\<open>dev\<close> is hidden by the directory of this name, an unknown name gives NULL), and reading from the
  node at an offset puts the bytes of the file from there on into the buffer, as many as asked for or
  as there are, and returns how many.
\<close>

theorem initrd_roundtrip:
  assumes "initrd_loaded L location files (hmem s)" and "heap_room s (184 * length files + 431)"
  shows "\<exists>I s'. initialise_initrd L location s = Some (initrd_root I, I, s') \<and>
    (\<forall>m a name. only (- initrd_area L I files) (hmem s') m \<longrightarrow> cstr m a name \<longrightarrow>
       (if name = str_dev then vfs_finddir (kernel_finddir L I) (initrd_root I) a m = Some (initrd_dev I)
        else case find_file files name 0 of
          None \<Rightarrow> vfs_finddir (kernel_finddir L I) (initrd_root I) a m = Some 0
        | Some i \<Rightarrow> \<exists>node. vfs_finddir (kernel_finddir L I) (initrd_root I) a m = Some node \<and> node \<noteq> 0 \<and>
            load32 m (n_length node) = of_nat (length (snd (files ! i))) \<and>
            (\<forall>offset sz buffer. unat offset + unat sz < 2 ^ 32 \<longrightarrow>
               bytes_from buffer (unat sz) \<inter> initrd_area L I files = {} \<longrightarrow>
               (\<exists>m'. let k = min (unat sz) (length (snd (files ! i)) - unat offset)
                 in vfs_read (kernel_read L I) node offset sz buffer m = Some (of_nat k, m') \<and>
                    (\<forall>j < k. m' (buffer + of_nat j) = snd (files ! i) ! (unat offset + j)) \<and>
                    only (bytes_from buffer k) m m'))))"
proof -
  obtain I s' where i: "initialise_initrd L location s = Some (initrd_root I, I, s')" "initrd_ok L I files (hmem s')"
    by (rule initialise_ok [OF assms])
  have read: "\<exists>m'. let k = min (unat sz) (length (snd (files ! i)) - unat offset)
      in vfs_read (kernel_read L I) (root_node I (of_nat i)) offset sz buffer m = Some (of_nat k, m') \<and>
         (\<forall>j < k. m' (buffer + of_nat j) = snd (files ! i) ! (unat offset + j)) \<and> only (bytes_from buffer k) m m'"
    if "initrd_ok L I files m" "i < length files" "unat offset + unat sz < 2 ^ 32"
      "bytes_from buffer (unat sz) \<inter> initrd_area L I files = {}" for m i and offset sz buffer
    by (rule initrd_read_ok [OF that]) (auto simp: Let_def)
  show ?thesis
  proof (intro exI [of _ I] exI [of _ s'] conjI i(1) allI impI)
    fix m a name assume o: "only (- initrd_area L I files) (hmem s') m" and c: "cstr m a name"
    have ok: "initrd_ok L I files m" by (rule initrd_ok_only [OF i(2) o]) simp
    have "j < length files \<and> root_node I (of_nat j) \<noteq> 0 \<and>
        load32 m (n_length (root_node I (of_nat j))) = of_nat (length (snd (files ! j)))" if "find_file files name 0 = Some j" for j
    proof -
      have "j < length files" using that by (auto simp: find_file_def find_Some_iff)
      then show ?thesis using ok by (simp add: initrd_ok_def file_ok_def file_node_def)
    qed
    then show "if name = str_dev then vfs_finddir (kernel_finddir L I) (initrd_root I) a m = Some (initrd_dev I)
        else case find_file files name 0 of
          None \<Rightarrow> vfs_finddir (kernel_finddir L I) (initrd_root I) a m = Some 0
        | Some i \<Rightarrow> \<exists>node. vfs_finddir (kernel_finddir L I) (initrd_root I) a m = Some node \<and> node \<noteq> 0 \<and>
            load32 m (n_length node) = of_nat (length (snd (files ! i))) \<and>
            (\<forall>offset sz buffer. unat offset + unat sz < 2 ^ 32 \<longrightarrow>
               bytes_from buffer (unat sz) \<inter> initrd_area L I files = {} \<longrightarrow>
               (\<exists>m'. let k = min (unat sz) (length (snd (files ! i)) - unat offset)
                 in vfs_read (kernel_read L I) node offset sz buffer m = Some (of_nat k, m') \<and>
                    (\<forall>j < k. m' (buffer + of_nat j) = snd (files ! i) ! (unat offset + j)) \<and>
                    only (bytes_from buffer k) m m'))"
      using finddir_ok [OF ok c] read [OF ok] by (simp split: option.splits)
  qed
qed

theorem initrd_roundtrip_witness:
  "\<exists>s I s' m node m'. initialise_initrd demo_link 0xC0040000 s = Some (initrd_root I, I, s') \<and>
     cstr m 0xC0060000 [0x68, 0x69] \<and> vfs_finddir (kernel_finddir demo_link I) (initrd_root I) 0xC0060000 m = Some node \<and>
     vfs_read (kernel_read demo_link I) node 1 10 0xC0050000 m = Some (2, m') \<and> m' 0xC0050000 = 0x65 \<and> m' 0xC0050001 = 0x73"
proof -
  obtain s where s: "initrd_loaded demo_link 0xC0040000 demo_files (hmem s)" "heap_room s (184 * length demo_files + 431)"
    by (rule demo_machine)
  obtain I0 s0 where i0: "initialise_initrd demo_link 0xC0040000 s = Some (initrd_root I0, I0, s0)"
    "initrd_area demo_link I0 demo_files \<subseteq> {x. KHEAP_START \<le> x} \<union> bytes_from 0xC0040000 (length (mkinitrd demo_files)) \<union>
       bytes_from (lit_dev demo_link) 4" by (rule initialise_ok [OF s])
  have out: "x \<notin> initrd_area demo_link I0 demo_files" if "0xC0050000 \<le> x" "x < 0xC0060010" for x
    using i0(2) that unfolding demo_sizes by (auto simp: KHEAP_START_def bytes_from_def demo_link_def word_le_nat_alt word_less_nat_alt unat_sub)
  let ?m = "write_bytes 0xC0060000 [0x68, 0x69, 0] (hmem s0)"
  have o: "only (- initrd_area demo_link I0 demo_files) (hmem s0) ?m"
    unfolding only_def using out by (auto simp: word_le_nat_alt word_less_nat_alt)
  have c: "cstr ?m 0xC0060000 [0x68, 0x69]"
    by (rule loaded_cstr [of _ _ _ "[]"])
       (use loaded_write_bytes [of "[0x68, 0x69, 0]" "0xC0060000" "hmem s0"] in \<open>simp_all del: write_bytes.simps\<close>)
  have f: "find_file demo_files [0x68, 0x69] 0 = Some 0" by code_simp
  have b: "bytes_from 0xC0050000 (unat (10 :: u32)) \<inter> initrd_area demo_link I0 demo_files = {}"
  proof -
    have "0xC0050000 + of_nat i \<notin> initrd_area demo_link I0 demo_files" if "i < 10" for i :: nat
      by (rule out) (use unat_add_of_nat [of "0xC0050000" i] that in \<open>simp_all add: word_le_nat_alt word_less_nat_alt\<close>)
    then show ?thesis by (auto dest!: bytes_from_ex)
  qed
  have k: "min (unat (10 :: u32)) (length (snd (demo_files ! 0)) - unat (1 :: u32)) = 2" "[0x68, 0x69] \<noteq> str_dev"
    by (simp_all add: demo_files_def str_dev_def)
  from initrd_roundtrip [OF s] obtain I s' where "initialise_initrd demo_link 0xC0040000 s = Some (initrd_root I, I, s')" and
    all: "\<forall>m a name. only (- initrd_area demo_link I demo_files) (hmem s') m \<longrightarrow> cstr m a name \<longrightarrow> name \<noteq> str_dev \<longrightarrow>
       (\<forall>i. find_file demo_files name 0 = Some i \<longrightarrow> (\<exists>node. vfs_finddir (kernel_finddir demo_link I) (initrd_root I) a m = Some node \<and>
            (\<forall>offset sz buffer. unat offset + unat sz < 2 ^ 32 \<longrightarrow>
               bytes_from buffer (unat sz) \<inter> initrd_area demo_link I demo_files = {} \<longrightarrow>
               (\<exists>m'. let k = min (unat sz) (length (snd (demo_files ! i)) - unat offset)
                 in vfs_read (kernel_read demo_link I) node offset sz buffer m = Some (of_nat k, m') \<and>
                    (\<forall>j < k. m' (buffer + of_nat j) = snd (demo_files ! i) ! (unat offset + j))))))"
    by (fastforce simp: Let_def)
  moreover from this i0(1) have "I = I0" "s' = s0" by simp_all
  ultimately obtain node where n: "vfs_finddir (kernel_finddir demo_link I0) (initrd_root I0) 0xC0060000 ?m = Some node"
    "\<forall>offset sz buffer. unat offset + unat sz < 2 ^ 32 \<longrightarrow>
               bytes_from buffer (unat sz) \<inter> initrd_area demo_link I0 demo_files = {} \<longrightarrow>
               (\<exists>m'. let k = min (unat sz) (length (snd (demo_files ! 0)) - unat offset)
                 in vfs_read (kernel_read demo_link I0) node offset sz buffer ?m = Some (of_nat k, m') \<and>
                    (\<forall>j < k. m' (buffer + of_nat j) = snd (demo_files ! 0) ! (unat offset + j)))"
    using o c f k(2) by blast
  obtain m' where m': "vfs_read (kernel_read demo_link I0) node 1 10 0xC0050000 ?m = Some (2, m')"
    "\<forall>j < 2. m' (0xC0050000 + of_nat j) = snd (demo_files ! 0) ! (unat (1 :: u32) + j)"
    using n(2) [rule_format, of 1 10 "0xC0050000"] b k(1) by (auto simp: Let_def)
  then have "m' 0xC0050000 = 0x65" "m' 0xC0050001 = 0x73"
    using m'(2) [rule_format, of 0] m'(2) [rule_format, of 1] by (simp_all add: demo_files_def)
  with i0(1) c n(1) m'(1) show ?thesis by blast
qed

text \<open>
  Reading the root directory gives \<^verbatim>\<open>dev\<close> at index 0 and then the files in the order they were
  packed, each with its inode; from the index behind the last file on it gives NULL. Nothing but the
  entry it returns is written.
\<close>

theorem initrd_listing:
  assumes "initrd_ok L I files m" and "bytes_from (dirent L) 132 \<inter> initrd_area L I files = {}" and "dirent L \<noteq> 0"
  shows "case entry_at files (unat index) of
      None \<Rightarrow> vfs_readdir (kernel_readdir L I) (initrd_root I) index m = Some (0, m)
    | Some (name, inode) \<Rightarrow> \<exists>m'. vfs_readdir (kernel_readdir L I) (initrd_root I) index m = Some (dirent L, m') \<and>
        cstr m' (d_name (dirent L)) name \<and> load32 m' (d_inode (dirent L)) = of_nat inode \<and> only (bytes_from (dirent L) 132) m m'"
  by (rule readdir_ok [OF assms])

theorem initrd_listing_witness:
  "\<exists>I m m'. vfs_readdir (kernel_readdir demo_link I) (initrd_root I) 1 m = Some (0xC0020000, m') \<and> cstr m' 0xC0020000 [0x68, 0x69] \<and>
     vfs_readdir (kernel_readdir demo_link I) (initrd_root I) 2 m = Some (0, m)"
proof -
  obtain s where s: "initrd_loaded demo_link 0xC0040000 demo_files (hmem s)" "heap_room s (184 * length demo_files + 431)"
    by (rule demo_machine)
  obtain I and s' :: heap_state where i: "initrd_ok demo_link I demo_files (hmem s')"
    "initrd_area demo_link I demo_files \<subseteq> {x. KHEAP_START \<le> x} \<union> bytes_from 0xC0040000 (length (mkinitrd demo_files)) \<union>
       bytes_from (lit_dev demo_link) 4" by (rule initialise_ok [OF s])
  have d: "bytes_from (dirent demo_link) 132 \<inter> initrd_area demo_link I demo_files = {}"
  proof -
    have "bytes_from (dirent demo_link) 132 \<inter> bytes_from 0xC0040000 83 = {}" "bytes_from (dirent demo_link) 132 \<inter> bytes_from (lit_dev demo_link) 4 = {}"
      by (intro sep_disjoint sep_ordered; simp add: demo_link_def)+
    moreover have "x < KHEAP_START" if "x \<in> bytes_from (dirent demo_link) 132" for x
      using bytes_from_ex [OF that] by (auto simp: demo_link_def KHEAP_START_def word_less_nat_alt unat_add_of_nat)
    ultimately show ?thesis using i(2) unfolding demo_sizes by fastforce
  qed
  have dn: "dirent demo_link \<noteq> 0" "dirent demo_link = 0xC0020000" by (simp_all add: demo_link_def)
  have e: "entry_at demo_files (unat (1 :: u32)) = Some ([0x68, 0x69], 0)" "entry_at demo_files (unat (2 :: u32)) = None"
    using demo_sizes by (simp_all add: entry_at_def)
  from initrd_listing [OF i(1) d dn(1), of 1] initrd_listing [OF i(1) d dn(1), of 2]
  show ?thesis unfolding e using dn(2) by (auto simp: d_name_def)
qed

lemma bytes_around:
  assumes "unat d \<le> n" and "2 ^ 32 \<le> unat d + k" and "a \<notin> bytes_from p n"
  shows "a \<in> bytes_from (p + d) k"
proof -
  have le: "d \<le> a - p" using assms(1,3) by (simp add: bytes_from_def word_le_nat_alt)
  then have "unat (a - p - d) = unat (a - p) - unat d" by (rule unat_sub)
  moreover have "a - (p + d) = a - p - d" by simp
  ultimately have "unat (a - (p + d)) = unat (a - p) - unat d" by (simp only:)
  then show ?thesis using assms(2) le unat_less_32 [of "a - p"] by (simp add: bytes_from_def word_le_nat_alt)
qed

text \<open>
  C34: the check against the end of the file adds in 32 bits. From an offset inside of a file or at its end, a size with which
  the sum wraps around is never cut down: the copy is asked for all of it, more than the file has left, and its source
  runs through every address outside of the file. (The model's memory has a byte at every address, so that its copy
  goes through; on the machine it page-faults at the first address that is not mapped.)
\<close>

theorem initrd_read_wraps:
  assumes "initrd_ok L I files m" and "i < length files" and "unat offset \<le> length (snd (files ! i))"
    and "2 ^ 32 \<le> unat offset + unat sz"
  shows "let start = initrd_header I + of_nat (file_offset files i); n = length (snd (files ! i)) in
    vfs_read (kernel_read L I) (root_node I (of_nat i)) offset sz buffer m = Some (sz, memcpy buffer (start + offset) sz m) \<and>
    n - unat offset < unat sz \<and> (\<forall>a. a \<notin> bytes_from start n \<longrightarrow> a \<in> bytes_from (start + offset) (unat sz))"
proof -
  let ?n = "length (snd (files ! i))"
  have f: "load32 m (n_read (root_node I (of_nat i))) = initrd_read_at L" "initrd_read_at L \<noteq> 0"
    "load32 m (n_inode (root_node I (of_nat i))) = of_nat i"
    "load32 m (f_offset (file_header I (of_nat i))) = initrd_header I + of_nat (file_offset files i)"
    "load32 m (f_length (file_header I (of_nat i))) = of_nat ?n" "length (mkinitrd files) < 2 ^ 32"
    using assms(1,2) by (simp_all add: initrd_ok_def file_ok_def file_node_def)
  have cl: "?n < 2 ^ 32" using file_offset_end [OF assms(2)] f(6) by simp
  have u: "unat (of_nat ?n :: u32) = ?n" by (rule unat_of_nat_32 [OF cl])
  have "unat (offset + sz) = unat offset + unat sz - 2 ^ 32"
    using assms(4) unat_less_32 [of offset] unat_less_32 [of sz] by (simp add: unat_word_ariths mod_nat_eqI)
  then have "\<not> offset > of_nat ?n" "\<not> offset + sz > of_nat ?n"
    using assms(3) unat_less_32 [of sz] by (simp_all add: word_less_nat_alt u)
  then have "vfs_read (kernel_read L I) (root_node I (of_nat i)) offset sz buffer m =
      Some (sz, memcpy buffer (initrd_header I + of_nat (file_offset files i) + offset) sz m)"
    using f by (simp add: vfs_read_def kernel_read_def initrd_read_def Let_def)
  moreover have "?n - unat offset < unat sz" using cl assms(3,4) by simp
  ultimately show ?thesis using bytes_around [OF assms(3,4)] by (simp add: Let_def)
qed

text \<open>All of the address space but the byte at the start of the file.\<close>

theorem initrd_read_wraps_witness:
  "\<exists>I m m'. initrd_header I = 0xC0040000 \<and>
     vfs_read (kernel_read demo_link I) (root_node I 0) 1 0xFFFFFFFF 0xC0050000 m = Some (0xFFFFFFFF, m') \<and>
     0xF0000000 \<in> bytes_from (initrd_header I + 81) (unat (0xFFFFFFFF :: u32))"
proof -
  obtain s where s: "initrd_loaded demo_link 0xC0040000 demo_files (hmem s)" "heap_room s (184 * length demo_files + 431)"
    by (rule demo_machine)
  obtain I and s' :: heap_state where i: "initrd_header I = 0xC0040000" "initrd_ok demo_link I demo_files (hmem s')"
    by (rule initialise_ok [OF s])
  have n: "0 < length demo_files" "unat (1 :: u32) \<le> length (snd (demo_files ! 0))" "2 ^ 32 \<le> unat (1 :: u32) + unat (0xFFFFFFFF :: u32)"
    by (simp_all add: demo_files_def)
  have o: "file_offset demo_files 0 = 80" "length (snd (demo_files ! 0)) = 3" by (simp_all add: file_offset_def demo_files_def)
  have "0xF0000000 \<notin> bytes_from (0xC0040000 + of_nat 80) 3" by (simp add: bytes_from_def)
  with initrd_read_wraps [OF i(2) n, of "0xC0050000"] show ?thesis
    by (intro exI [of _ I] exI [of _ "hmem s'"] exI [of _ "memcpy 0xC0050000 (0xC0040000 + of_nat 80 + 1) 0xFFFFFFFF (hmem s')"])
       (simp add: Let_def o i(1))
qed

end
