(* ===== verification/Shell.thy ===== *)
theory Shell
  imports Interrupts Initrd_Ops
begin

text \<open>
  The shell of \<^verbatim>\<open>main.c\<close>: line editing, \<^verbatim>\<open>ls\<close>, \<^verbatim>\<open>cat\<close> and the prompt, over the keyboard, the
  terminal, the file system and the heap. The addresses of the local arrays and of the literals
  that are compared with are arguments; a literal format is given by its characters.
\<close>

section \<open>Code\<close>

record shell_env =
  cmd_buffer :: u32
  print_buf :: u32
  lit_ls :: u32
  lit_cat :: u32
  fs_root :: u32
  fs_link :: initrd_link
  fs_state :: initrd_t

text \<open>
  The heap and the screen of the machine. There is one memory, the one of the heap: the terminal
  works on it.
\<close>

record console =
  con_heap :: heap_state
  con_term :: term_sys

definition view :: "console \<Rightarrow> term_sys" where
  "view c = (con_term c)\<lparr>vmem := hmem (con_heap c)\<rparr>"

definition show_screen :: "term_sys \<Rightarrow> console \<Rightarrow> console" where
  "show_screen t c = c\<lparr>con_term := t, con_heap := (con_heap c)\<lparr>hmem := vmem t\<rparr>\<rparr>"

definition con_mem :: "console \<Rightarrow> mem" where
  "con_mem c = hmem (con_heap c)"

definition set_mem :: "mem \<Rightarrow> console \<Rightarrow> console" where
  "set_mem m c = c\<lparr>con_heap := (con_heap c)\<lparr>hmem := m\<rparr>\<rparr>"

text \<open>\<^verbatim>\<open>printf\<close> with a literal format.\<close>

fun printf_lit :: "u32 \<Rightarrow> u8 list \<Rightarrow> u32 list \<Rightarrow> 'a term_sys_scheme \<Rightarrow> 'a term_sys_scheme option" where
  "printf_lit buf [] args t = Some t"
| "printf_lit buf [f] args t = (if f = 0x25 then None else terminal_putchar f t)"
| "printf_lit buf (f # c # fs) args t =
     (if f = 0x25 then
        case printf_directive buf c args t of None \<Rightarrow> None | Some (args, t) \<Rightarrow> printf_lit buf fs args t
      else
        case terminal_putchar f t of None \<Rightarrow> None | Some t \<Rightarrow> printf_lit buf (c # fs) args t)"

definition con_printf :: "shell_env \<Rightarrow> string \<Rightarrow> u32 list \<Rightarrow> console \<Rightarrow> console option" where
  "con_printf E fmt args c = map_option (\<lambda>t. show_screen t c) (printf_lit (print_buf E) (ascii fmt) args (view c))"

definition nl :: string where "nl = [CHR 0x0A]"

partial_function (option) shell_ls :: "shell_env \<Rightarrow> u32 \<Rightarrow> console \<Rightarrow> console option" where
  "shell_ls E i c =
     (case vfs_readdir (kernel_readdir (fs_link E) (fs_state E)) (fs_root E) i (con_mem c) of
        None \<Rightarrow> None
      | Some (node, m) \<Rightarrow>
          if node \<noteq> 0 then
            case con_printf E ''%s  '' [d_name node] (set_mem m c) of
              None \<Rightarrow> None
            | Some c \<Rightarrow>
                (case vfs_finddir (kernel_finddir (fs_link E) (fs_state E)) (fs_root E) (d_name node) (con_mem c) of
                   None \<Rightarrow> None
                 | Some fsnode \<Rightarrow>
                     (case (if load32 (con_mem c) (n_flags fsnode) AND 0x7 = VFS_DIRECTORY then con_printf E (''(dir)'' @ nl) [] c
                            else con_printf E (''(file, size %d)'' @ nl) [load32 (con_mem c) (n_length fsnode)] c) of
                        None \<Rightarrow> None
                      | Some c \<Rightarrow> shell_ls E (i + 1) c))
          else Some (set_mem m c))"

definition shell_cat :: "shell_env \<Rightarrow> console \<Rightarrow> console option" where
  "shell_cat E c =
     (let filename = cmd_buffer E + 4
      in case vfs_finddir (kernel_finddir (fs_link E) (fs_state E)) (fs_root E) filename (con_mem c) of
        None \<Rightarrow> None
      | Some fsnode \<Rightarrow>
          if fsnode \<noteq> 0 then
            case kmalloc (load32 (con_mem c) (n_length fsnode) + 1) (con_heap c) of
              None \<Rightarrow> None
            | Some (buf, h) \<Rightarrow>
                (case vfs_read (kernel_read (fs_link E) (fs_state E)) fsnode 0 (load32 (hmem h) (n_length fsnode)) buf (hmem h) of
                   None \<Rightarrow> None
                 | Some (sz, m) \<Rightarrow>
                     (case con_printf E (''%s'' @ nl) [buf] (c\<lparr>con_heap := h\<lparr>hmem := m(buf + sz := 0)\<rparr>\<rparr>) of
                        None \<Rightarrow> None
                      | Some c \<Rightarrow> Some (c\<lparr>con_heap := snd (kheap_free buf (con_heap c))\<rparr>)))
          else con_printf E (''File not found: %s'' @ nl) [filename] c)"

text \<open>What happens when the return key is pressed.\<close>

definition shell_line :: "shell_env \<Rightarrow> int \<Rightarrow> console \<Rightarrow> console option" where
  "shell_line E cmd_idx c =
     (let c = set_mem ((con_mem c)(cmd_buffer E + of_int cmd_idx := 0)) c
      in case (case strcmp (con_mem c) (cmd_buffer E) (lit_ls E) of
                 None \<Rightarrow> None
               | Some r \<Rightarrow>
                   if r = 0 then shell_ls E 0 c
                   else if strncmp (con_mem c) (cmd_buffer E) (lit_cat E) 4 = 0 then shell_cat E c
                   else if cmd_idx > 0 then con_printf E (''Unknown command: %s'' @ nl) [cmd_buffer E] c
                   else Some c) of
           None \<Rightarrow> None
         | Some c \<Rightarrow> con_printf E ''> '' [] c)"

text \<open>What the task does before its loop.\<close>

definition greeting :: string where
  "greeting = ''Shell started. Type 'ls', 'cat <file>', or just type characters!'' @ nl @ ''> ''"

definition shell_start :: "shell_env \<Rightarrow> console \<Rightarrow> (int \<times> console) option" where
  "shell_start E c = map_option (Pair 0) (con_printf E greeting [] c)"

text \<open>The body of the loop behind \<^verbatim>\<open>getchar\<close>.\<close>

definition shell_key :: "shell_env \<Rightarrow> u8 \<Rightarrow> int \<times> console \<Rightarrow> (int \<times> console) option" where
  "shell_key E ch = (\<lambda>(cmd_idx, c).
     if ch = 0x0A then map_option (Pair 0) (shell_line E cmd_idx c)
     else if ch = 0x08 then Some (if cmd_idx > 0 then cmd_idx - 1 else cmd_idx, c)
     else if cmd_idx < 127 then Some (cmd_idx + 1, set_mem ((con_mem c)(cmd_buffer E + of_int cmd_idx := ch)) c)
     else Some (cmd_idx, c))"

text \<open>
  The whole task: the first \<open>n\<close> turns of its endless loop. The echo of the keyboard works on the
  framebuffer of the screen, the rest of the memory is the one of the heap.
\<close>

definition console_of :: "'a kbd_sys_scheme \<Rightarrow> console" where
  "console_of s = \<lparr>con_heap = (heap s)\<lparr>hmem := (\<lambda>a.
       if unat (a - v_framebuffer (terminal_vbe (screen s))) <
          unat (v_height (terminal_vbe (screen s))) * unat (v_pitch (terminal_vbe (screen s)))
       then vmem (screen s) a else hmem (heap s) a)\<rparr>, con_term = screen s\<rparr>"

primrec shell_task :: "('a kbd_sys_scheme \<Rightarrow> 'a kbd_sys_scheme option) \<Rightarrow> u32 \<Rightarrow> shell_env \<Rightarrow> nat \<Rightarrow>
    int \<times> 'a kbd_sys_scheme \<Rightarrow> (int \<times> 'a kbd_sys_scheme) option" where
  "shell_task yield mon E 0 x = Some x"
| "shell_task yield mon E (Suc n) x =
     (case getchar yield mon (snd x) of
        None \<Rightarrow> None
      | Some (ch, s) \<Rightarrow>
          (case shell_key E ch (fst x, console_of s) of
             None \<Rightarrow> None
           | Some (cmd_idx, c) \<Rightarrow> shell_task yield mon E n (cmd_idx, s\<lparr>heap := con_heap c, screen := con_term c\<rparr>)))"

section \<open>Editing a line\<close>

text \<open>What the keys typed so far leave in the line; backspace removes a character, and the line takes 127.\<close>

primrec edit :: "u8 list \<Rightarrow> u8 list \<Rightarrow> u8 list" where
  "edit xs [] = xs"
| "edit xs (c # cs) = edit (if c = 0x08 then butlast xs else if length xs < 127 then xs @ [c] else xs) cs"

primrec shell_keys :: "shell_env \<Rightarrow> u8 list \<Rightarrow> int \<times> console \<Rightarrow> (int \<times> console) option" where
  "shell_keys E [] x = Some x"
| "shell_keys E (ch # chs) x = (case shell_key E ch x of None \<Rightarrow> None | Some x \<Rightarrow> shell_keys E chs x)"

definition line_is :: "shell_env \<Rightarrow> u8 list \<Rightarrow> int \<times> console \<Rightarrow> bool" where
  "line_is E xs x \<longleftrightarrow> fst x = int (length xs) \<and> length xs \<le> 127 \<and> loaded (con_mem (snd x)) (cmd_buffer E) xs"

lemma con_mem_set [simp]: "con_mem (set_mem m c) = m" "con_term (set_mem m c) = con_term c" "set_mem m (set_mem m' c) = set_mem m c"
  by (simp_all add: con_mem_def set_mem_def)

lemma of_nat_apart: "j < n \<Longrightarrow> n < 2 ^ 32 \<Longrightarrow> of_nat j \<noteq> (of_nat n :: u32)"
  using unat_of_nat_32 [of j] unat_of_nat_32 [of n] by (metis less_irrefl order.strict_trans)

lemma line_key:
  assumes l: "line_is E xs (i, c)" and ch: "ch \<noteq> 0x0A"
  shows "\<exists>m'. shell_key E ch (i, c) = Some (int (length (edit xs [ch])), set_mem m' c) \<and>
    line_is E (edit xs [ch]) (int (length (edit xs [ch])), set_mem m' c) \<and>
    only (bytes_from (cmd_buffer E) 127) (con_mem c) m'"
proof -
  have i: "i = int (length xs)" "length xs \<le> 127" "loaded (con_mem c) (cmd_buffer E) xs" using l by (simp_all add: line_is_def)
  have self: "set_mem (con_mem c) c = c" by (simp add: set_mem_def con_mem_def)
  consider "ch = 0x08" | "ch \<noteq> 0x08" "length xs < 127" | "ch \<noteq> 0x08" "length xs = 127" using i(2) by linarith
  then show ?thesis
  proof cases
    case 1
    have "loaded (con_mem c) (cmd_buffer E) (butlast xs)" using i(3) by (simp add: loaded_def nth_butlast)
    then show ?thesis using 1 i self
      by (intro exI [of _ "con_mem c"], cases xs rule: rev_cases) (auto simp: shell_key_def line_is_def)
  next
    case 2
    let ?m = "(con_mem c)(cmd_buffer E + of_nat (length xs) := ch)"
    have s: "of_nat j \<noteq> (of_nat (length xs) :: u32)" if "j < length xs" for j
      by (rule of_nat_apart [OF that]) (use 2 in simp)
    have "loaded ?m (cmd_buffer E) (xs @ [ch])" using i(3) s by (auto simp: loaded_def nth_append less_Suc_eq)
    moreover have "only (bytes_from (cmd_buffer E) 127) (con_mem c) ?m"
      using bytes_fromI [OF 2(2), of "cmd_buffer E"] by (auto simp: only_def)
    ultimately show ?thesis using 2 i ch by (intro exI [of _ ?m]) (simp add: shell_key_def line_is_def)
  next
    case 3
    then show ?thesis using i ch self by (intro exI [of _ "con_mem c"]) (simp add: shell_key_def line_is_def)
  qed
qed

lemma line_keys:
  "line_is E xs (i, c) \<Longrightarrow> 0x0A \<notin> set chs \<Longrightarrow>
    \<exists>m'. shell_keys E chs (i, c) = Some (int (length (edit xs chs)), set_mem m' c) \<and>
      line_is E (edit xs chs) (int (length (edit xs chs)), set_mem m' c) \<and>
      only (bytes_from (cmd_buffer E) 127) (con_mem c) m'"
proof (induction chs arbitrary: xs i c)
  case Nil
  then show ?case by (intro exI [of _ "con_mem c"]) (simp add: line_is_def set_mem_def con_mem_def)
next
  case (Cons ch chs)
  define ys where "ys = edit xs [ch]"
  have e: "edit xs (ch # chs) = edit ys chs" by (simp add: ys_def)
  obtain m1 where 1: "shell_key E ch (i, c) = Some (int (length ys), set_mem m1 c)"
    "line_is E ys (int (length ys), set_mem m1 c)" "only (bytes_from (cmd_buffer E) 127) (con_mem c) m1"
    using line_key [OF Cons.prems(1), of ch] Cons.prems(2) by (auto simp: ys_def)
  have "0x0A \<notin> set chs" using Cons.prems(2) by simp
  from Cons.IH [OF 1(2) this] obtain m' where
    "shell_keys E chs (int (length ys), set_mem m1 c) = Some (int (length (edit ys chs)), set_mem m' c)"
    "line_is E (edit ys chs) (int (length (edit ys chs)), set_mem m' c)" "only (bytes_from (cmd_buffer E) 127) m1 m'" by auto
  with 1 show ?case unfolding e by (auto intro: only_trans)
qed

section \<open>Printing\<close>

lemma printf_lit_text:
  assumes d: "digits_area buf \<inter> framebuffer_area vbe = {}" and buf: "unat buf + 34 \<le> 2 ^ 32"
  shows "follows vbe (digits_area buf) m t u \<Longrightarrow> formatted strs fs args = Some out \<Longrightarrow>
    \<forall>a \<in> set (string_args fs args). text_at vbe buf m a (strs a) \<Longrightarrow> \<forall>c \<in> set out. c < 0x80 \<Longrightarrow>
    \<exists>t' u'. printf_lit buf fs args t = Some t' \<and> terminal_puts out u = Some u' \<and> follows vbe (digits_area buf) m t' u'"
proof (induction strs fs args arbitrary: t u out rule: formatted.induct)
  case (1 strs args)
  then show ?case by auto
next
  case (2 strs f args)
  then have "f \<noteq> 0x25" "out = [f]" "f < 0x80" by (auto split: if_splits)
  then show ?case using follows_putchar [OF 2(1)] by fastforce
next
  case (3 strs f c fs args)
  note F = 3(4)
  show ?case
  proof (cases "f = 0x25")
    case False
    then obtain out' where o: "formatted strs (c # fs) args = Some out'" "out = f # out'" using "3.prems"(2) by auto
    obtain t1 u1 where 1: "terminal_putchar f t = Some t1" "terminal_putchar f u = Some u1" "follows vbe (digits_area buf) m t1 u1"
      using follows_putchar [OF F, of f] "3.prems"(4) o(2) by auto
    have "\<exists>t' u'. printf_lit buf (c # fs) args t1 = Some t' \<and> terminal_puts out' u1 = Some u' \<and> follows vbe (digits_area buf) m t' u'"
      by (rule "3.IH"(1) [OF False 1(3) o(1)]) (use "3.prems"(3,4) False o(2) in simp_all)
    then show ?thesis using False 1 o(2) by auto
  next
    case True
    show ?thesis
    proof (cases "c \<in> {0x73, 0x64, 0x78, 0x63}")
      case c: True
      then obtain a args' out' where a: "args = a # args'" "formatted strs fs args' = Some out'"
        "out = directive_text strs c a @ out'"
        using "3.prems"(2) True by (auto simp: directive_text_def split: list.splits if_splits)
      have st: "\<forall>x \<in> set (string_args fs args'). text_at vbe buf m x (strs x)" "c = 0x73 \<Longrightarrow> text_at vbe buf m a (strs a)"
        using "3.prems"(3) True c a(1) by auto
      have asc: "\<forall>x \<in> set (directive_text strs c a). x < 0x80" "\<forall>x \<in> set out'. x < 0x80"
        using "3.prems"(4) a(3) by auto
      obtain t1 u1 where 1: "printf_directive buf c (a # args') t = Some (args', t1)"
        "terminal_puts (directive_text strs c a) u = Some u1" "follows vbe (digits_area buf) m t1 u1"
        using follows_directive [OF F d buf c st(2) asc(1)] by blast
      have "\<exists>t' u'. printf_lit buf fs args' t1 = Some t' \<and> terminal_puts out' u1 = Some u' \<and> follows vbe (digits_area buf) m t' u'"
        by (rule "3.IH"(2) [OF _ c a(1) 1(3) a(2) st(1) asc(2)]) (use True in simp)
      then show ?thesis using True 1 a(1,3) by (auto simp: terminal_puts_append)
    next
      case c: False
      obtain out' where o: "formatted strs fs args = Some out'" "out = (if c = 0x25 then [0x25] else []) @ out'"
        using "3.prems"(2) True c by auto
      have p: "printf_directive buf c args t = (if c = 0x25 then map_option (Pair args) (terminal_putchar 0x25 t) else Some (args, t))"
        using c by (simp add: printf_directive_def)
      obtain t1 u1 where 1: "printf_directive buf c args t = Some (args, t1)"
        "terminal_puts (if c = 0x25 then [0x25] else []) u = Some u1" "follows vbe (digits_area buf) m t1 u1"
        using follows_putchar [OF F, of "0x25"] F unfolding p by (cases "c = 0x25") auto
      have "\<exists>t' u'. printf_lit buf fs args t1 = Some t' \<and> terminal_puts out' u1 = Some u' \<and> follows vbe (digits_area buf) m t' u'"
        by (rule "3.IH"(3) [OF _ c 1(3) o(1)]) (use "3.prems"(3,4) True c o(2) in auto)
      then show ?thesis using True 1 o(2) by (auto simp: terminal_puts_append simp del: terminal_puts.simps)
    qed
  qed
qed

text \<open>
  The screen of the machine shows what putting characters on \<open>u\<close> shows. The memory a print may write
  is the framebuffer and the local array for digits.
\<close>

definition screen_is :: "console \<Rightarrow> term_sys \<Rightarrow> bool" where
  "screen_is c u \<longleftrightarrow> term_ok (con_term c) \<and> same_screen (view c) u"

definition print_area :: "shell_env \<Rightarrow> console \<Rightarrow> u32 set" where
  "print_area E c = framebuffer_area (terminal_vbe (con_term c)) \<union> digits_area (print_buf E)"

lemma term_ok_view: "term_ok (view c) = term_ok (con_term c)" "terminal_vbe (view c) = terminal_vbe (con_term c)"
  "vmem (view c) = con_mem c"
  by (simp_all add: view_def term_ok_def con_mem_def)

lemma con_printf_ok:
  assumes s: "screen_is c u" and d: "digits_area (print_buf E) \<inter> framebuffer_area (terminal_vbe (con_term c)) = {}"
    and buf: "unat (print_buf E) + 34 \<le> 2 ^ 32" and out: "formatted strs (ascii fmt) args = Some out" "\<forall>x \<in> set out. x < 0x80"
    and strs: "\<And>a. a \<in> set (string_args (ascii fmt) args) \<Longrightarrow>
      cstr (con_mem c) a (strs a) \<and> bytes_from a (Suc (length (strs a))) \<inter> print_area E c = {} \<and> Suc (length (strs a)) \<le> 2 ^ 32"
  obtains c' u' where "con_printf E fmt args c = Some c'" "terminal_puts out u = Some u'" "screen_is c' u'"
    "terminal_vbe (con_term c') = terminal_vbe (con_term c)" "con_heap c' = (con_heap c)\<lparr>hmem := con_mem c'\<rparr>"
    "only (print_area E c) (con_mem c) (con_mem c')"
proof -
  let ?vbe = "terminal_vbe (con_term c)" and ?b = "print_buf E"
  have f: "follows ?vbe (digits_area ?b) (con_mem c) (view c) u"
    using s by (simp add: screen_is_def follows_def term_ok_view)
  have "text_at ?vbe ?b (con_mem c) a (strs a)" if "a \<in> set (string_args (ascii fmt) args)" for a
  proof -
    have "a + of_nat i \<notin> print_area E c" if i: "i \<le> length (strs a)" for i
      using strs [OF \<open>a \<in> set (string_args (ascii fmt) args)\<close>] bytes_fromI [of i "Suc (length (strs a))" a] i by auto
    then show ?thesis using strs [OF that] by (auto simp: text_at_def print_area_def)
  qed
  then obtain t' u' where t: "printf_lit ?b (ascii fmt) args (view c) = Some t'" "terminal_puts out u = Some u'"
    "follows ?vbe (digits_area ?b) (con_mem c) t' u'"
    using printf_lit_text [OF d buf f out(1) _ out(2)] by blast
  let ?c = "show_screen t' c"
  have v: "view ?c = t'" "con_term ?c = t'" "con_mem ?c = vmem t'" by (simp_all add: show_screen_def view_def con_mem_def)
  show thesis
  proof (rule that [of ?c u'])
    show "con_printf E fmt args c = Some ?c" using t(1) by (simp add: con_printf_def)
    show "terminal_puts out u = Some u'" by (rule t(2))
    show "screen_is ?c u'" using t(3) unfolding screen_is_def v by (simp add: follows_def)
    show "terminal_vbe (con_term ?c) = ?vbe" using t(3) unfolding v by (simp add: follows_def)
    show "con_heap ?c = (con_heap c)\<lparr>hmem := con_mem ?c\<rparr>" by (simp add: show_screen_def con_mem_def)
    show "only (print_area E c) (con_mem c) (con_mem ?c)"
      using t(3) unfolding v by (auto simp: follows_def only_def print_area_def)
  qed
qed

end
