(* ===== verification/Shell_Files.thy ===== *)
theory Shell_Files
  imports Shell
begin

text \<open>
  A shell that is set up: where its arrays, the file system and the framebuffer lie. What printing,
  allocating, freeing and writing keep of it, and the command \<^verbatim>\<open>cat\<close> for a name that is found.
\<close>

section \<open>A shell that is set up\<close>

definition str_ls :: "u8 list" where "str_ls = [0x6C, 0x73]"
definition str_cat :: "u8 list" where "str_cat = [0x63, 0x61, 0x74, 0x20]"

text \<open>What the shell only reads: the file system and the two literals.\<close>

definition static :: "shell_env \<Rightarrow> (u8 list \<times> u8 list) list \<Rightarrow> u32 set" where
  "static E files = initrd_area (fs_link E) (fs_state E) files \<union> bytes_from (lit_ls E) 3 \<union> bytes_from (lit_cat E) 5"

text \<open>
  The local arrays lie in the block of the stack; the file system in low memory or in other blocks; the
  framebuffer behind the heap.
\<close>

definition shell_ok :: "shell_env \<Rightarrow> (u8 list \<times> u8 list) list \<Rightarrow> u32 \<times> u32 \<Rightarrow> console \<Rightarrow> bool" where
  "shell_ok E files stk c \<longleftrightarrow>
     initrd_ok (fs_link E) (fs_state E) files (con_mem c) \<and> fs_root E = initrd_root (fs_state E) \<and>
     cstr (con_mem c) (lit_ls E) str_ls \<and> cstr (con_mem c) (lit_cat E) str_cat \<and>
     stk \<in> live (con_heap c) \<and> digits_area (print_buf E) \<subseteq> bytes_from (fst stk) (unat (snd stk)) \<and>
     bytes_from (cmd_buffer E) 128 \<subseteq> bytes_from (fst stk) (unat (snd stk)) \<and>
     digits_area (print_buf E) \<inter> bytes_from (cmd_buffer E) 128 = {} \<and> unat (print_buf E) + 34 \<le> 2 ^ 32 \<and>
     (\<forall>a \<in> static E files. a < KHEAP_START \<or> (\<exists>q w. (q, w) \<in> live (con_heap c) \<and> q \<noteq> fst stk \<and> a \<in> bytes_from q (unat w))) \<and>
     framebuffer_area (terminal_vbe (con_term c)) \<inter> {x. x < heap_end (con_heap c)} = {} \<and>
     bytes_from (dirent (fs_link E)) 132 \<subseteq> {x. x < KHEAP_START} \<and>
     bytes_from (dirent (fs_link E)) 132 \<inter> static E files = {} \<and> dirent (fs_link E) \<noteq> 0"

lemma live_disjoint: "heap_inv s \<Longrightarrow> (q, w) \<in> live s \<Longrightarrow> (r, v) \<in> live s \<Longrightarrow> q \<noteq> r \<Longrightarrow>
    bytes_from q (unat w) \<inter> bytes_from r (unat v) = {}"
  by (rule sep_disjoint [OF live_apart])

lemma heap_end_above: "heap_inv s \<Longrightarrow> KHEAP_START \<le> heap_end s"
  using heap_ok_bounds(3) by (auto simp: heap_inv_def)

lemma fb_above:
  assumes "shell_ok E files stk c" "a \<in> framebuffer_area (terminal_vbe (con_term c))"
  shows "heap_end (con_heap c) \<le> a"
proof -
  have "framebuffer_area (terminal_vbe (con_term c)) \<inter> {x. x < heap_end (con_heap c)} = {}" using assms(1) by (simp add: shell_ok_def)
  with assms(2) show ?thesis by (meson disjoint_iff linorder_not_le mem_Collect_eq)
qed

lemma shell_apart:
  assumes ok: "shell_ok E files stk c" and inv: "heap_inv (con_heap c)"
  shows "digits_area (print_buf E) \<inter> framebuffer_area (terminal_vbe (con_term c)) = {}"
    and "print_area E c \<inter> static E files = {}"
    and "bytes_from (cmd_buffer E) 128 \<inter> static E files = {}"
    and "bytes_from (cmd_buffer E) 128 \<inter> print_area E c = {}"
    and "(q, w) \<in> live (con_heap c) \<Longrightarrow> q \<noteq> fst stk \<Longrightarrow> bytes_from q (unat w) \<inter> print_area E c = {}"
proof -
  let ?fb = "framebuffer_area (terminal_vbe (con_term c))" and ?s = "con_heap c"
  obtain p z where stk: "stk = (p, z)" by (cases stk)
  note o = ok [unfolded shell_ok_def stk fst_conv snd_conv]
  have pz: "(p, z) \<in> live ?s" using o by blast
  have fb: "a \<notin> bytes_from q (unat w)" if "a \<in> ?fb" "(q, w) \<in> live ?s" for a q w
    using live_bytes(2) [OF inv that(2)] o that(1) by blast
  have st: "a \<notin> ?fb \<and> a \<notin> bytes_from p (unat z)" if a: "a \<in> static E files" for a
  proof -
    consider "a < KHEAP_START" | q w where "(q, w) \<in> live ?s" "q \<noteq> p" "a \<in> bytes_from q (unat w)" using o a by blast
    then show ?thesis
    proof cases
      case 1
      have "a < heap_end ?s" using 1 heap_end_above [OF inv] by simp
      then have "a \<notin> ?fb" using o by blast
      moreover have "a \<notin> bytes_from p (unat z)" using live_bytes(1) [OF inv pz, of a] 1 by (meson leD)
      ultimately show ?thesis ..
    next
      case 2
      then show ?thesis using fb live_disjoint [OF inv 2(1) pz 2(2)] by blast
    qed
  qed
  show "digits_area (print_buf E) \<inter> ?fb = {}" using o fb pz by blast
  show "print_area E c \<inter> static E files = {}" using st o unfolding print_area_def by blast
  show "bytes_from (cmd_buffer E) 128 \<inter> static E files = {}" using st o by blast
  show "bytes_from (cmd_buffer E) 128 \<inter> print_area E c = {}" using fb pz o unfolding print_area_def by blast
  show "bytes_from q (unat w) \<inter> print_area E c = {}" if "(q, w) \<in> live ?s" "q \<noteq> fst stk"
    using fb [OF _ that(1)] live_disjoint [OF inv that(1) pz] that(2) o unfolding print_area_def stk by auto
qed

lemma static_kept:
  assumes ok: "shell_ok E files stk c" and lo: "low_kept (con_mem c) m'"
    and k: "\<And>q w a. (q, w) \<in> live (con_heap c) \<Longrightarrow> q \<noteq> fst stk \<Longrightarrow> a \<in> bytes_from q (unat w) \<Longrightarrow> m' a = con_mem c a"
  shows "\<forall>a \<in> static E files. m' a = con_mem c a"
proof
  fix a assume "a \<in> static E files"
  then have "a < KHEAP_START \<or> (\<exists>q w. (q, w) \<in> live (con_heap c) \<and> q \<noteq> fst stk \<and> a \<in> bytes_from q (unat w))"
    using ok by (simp add: shell_ok_def)
  then show "m' a = con_mem c a" using lo k by blast
qed

lemma shell_frame:
  assumes ok: "shell_ok E files stk c" and lv: "live (con_heap c) \<subseteq> live (con_heap c')" and e: "heap_end (con_heap c') = heap_end (con_heap c)"
    and t: "terminal_vbe (con_term c') = terminal_vbe (con_term c)" and st: "\<forall>a \<in> static E files. con_mem c' a = con_mem c a"
  shows "shell_ok E files stk c'"
proof -
  note o = ok [unfolded shell_ok_def]
  have on: "only (- static E files) (con_mem c) (con_mem c')" using st by (simp add: only_def)
  have l: "Suc (length str_ls) = 3" "Suc (length str_cat) = 5" by (simp_all add: str_ls_def str_cat_def)
  have "initrd_ok (fs_link E) (fs_state E) files (con_mem c')"
    by (rule initrd_ok_only [OF _ on]) (use o in \<open>auto simp: static_def\<close>)
  moreover have "cstr (con_mem c') (lit_ls E) str_ls"
  proof (rule cstr_only [OF _ on])
    show "cstr (con_mem c) (lit_ls E) str_ls" using o by blast
    show "bytes_from (lit_ls E) (Suc (length str_ls)) \<inter> - static E files = {}" unfolding l static_def by blast
    show "Suc (length str_ls) \<le> 2 ^ 32" unfolding l by simp
  qed
  moreover have "cstr (con_mem c') (lit_cat E) str_cat"
  proof (rule cstr_only [OF _ on])
    show "cstr (con_mem c) (lit_cat E) str_cat" using o by blast
    show "bytes_from (lit_cat E) (Suc (length str_cat)) \<inter> - static E files = {}" unfolding l static_def by blast
    show "Suc (length str_cat) \<le> 2 ^ 32" unfolding l by simp
  qed
  moreover have "\<forall>a \<in> static E files. a < KHEAP_START \<or> (\<exists>q w. (q, w) \<in> live (con_heap c') \<and> q \<noteq> fst stk \<and> a \<in> bytes_from q (unat w))"
    using o lv by blast
  moreover have "stk \<in> live (con_heap c')" using o lv by blast
  ultimately show ?thesis unfolding shell_ok_def e t using o by blast
qed

lemma screen_frame:
  assumes "screen_is c u" "con_term c' = con_term c" "\<forall>a \<in> framebuffer_area (terminal_vbe (con_term c)). con_mem c' a = con_mem c a"
  shows "screen_is c' u"
  using assms by (auto simp: screen_is_def same_screen_def view_def con_mem_def)

text \<open>Printing keeps the heap.\<close>

lemma print_heap:
  assumes ok: "shell_ok E files stk c" and h: "heap_ok (con_heap c) bs" and on: "only (print_area E c) (con_mem c) m'"
  shows "heap_ok ((con_heap c)\<lparr>hmem := m'\<rparr>) bs" "live ((con_heap c)\<lparr>hmem := m'\<rparr>) = live (con_heap c)"
proof -
  note o = ok [unfolded shell_ok_def]
  have inv: "heap_inv (con_heap c)" using h by (auto simp: heap_inv_def)
  obtain p z where stk: "stk = (p, z)" by (cases stk)
  have us: "(p, z) \<in> used KHEAP_START bs" using o live_used [OF h] stk by simp
  have bd: "unat KHEAP_START + span bs < 2 ^ 32" using heap_ok_bounds(1) [OF h] by simp
  have "bytes_from b 20 \<inter> print_area E c = {}" if b: "b \<in> set (heads KHEAP_START bs)" for b
  proof -
    have "a < heap_end (con_heap c)" if a: "a \<in> bytes_from b 20" for a
    proof -
      obtain i where i: "i < 20" "a = b + of_nat i" using bytes_from_ex [OF a] by blast
      have "unat a = unat b + i" unfolding i(2) using heads_range [OF b] bd i(1) by (intro unat_add_of_nat) simp
      then show ?thesis using heads_range [OF b] bd i(1) heap_okD(5) [OF h] by (simp add: word_less_nat_alt)
    qed
    moreover have "bytes_from b 20 \<inter> bytes_from p (unat z) = {}" using sep_disjoint [OF used_sep_heads [OF us bd b]] .
    ultimately show ?thesis using o unfolding print_area_def stk by auto
  qed
  with heap_ok_frame [OF h, of "print_area E c" m'] on
  show "heap_ok ((con_heap c)\<lparr>hmem := m'\<rparr>) bs" "live ((con_heap c)\<lparr>hmem := m'\<rparr>) = live (con_heap c)"
    by (simp_all add: con_mem_def)
qed

lemma con_print_ok:
  assumes ok: "shell_ok E files stk c" and h: "heap_ok (con_heap c) bs" and s: "screen_is c u"
    and out: "formatted strs (ascii fmt) args = Some out" "\<forall>x \<in> set out. x < 0x80"
    and strs: "\<And>a. a \<in> set (string_args (ascii fmt) args) \<Longrightarrow>
      cstr (con_mem c) a (strs a) \<and> bytes_from a (Suc (length (strs a))) \<inter> print_area E c = {} \<and> Suc (length (strs a)) \<le> 2 ^ 32"
  obtains c' u' where "con_printf E fmt args c = Some c'" "terminal_puts out u = Some u'" "screen_is c' u'" "shell_ok E files stk c'"
    "heap_ok (con_heap c') bs" "live (con_heap c') = live (con_heap c)" "heap_end (con_heap c') = heap_end (con_heap c)"
    "only (print_area E c) (con_mem c) (con_mem c')" "terminal_vbe (con_term c') = terminal_vbe (con_term c)"
proof -
  have inv: "heap_inv (con_heap c)" using h by (auto simp: heap_inv_def)
  have pb: "unat (print_buf E) + 34 \<le> 2 ^ 32" using ok by (simp add: shell_ok_def)
  obtain c' u' where c': "con_printf E fmt args c = Some c'" "terminal_puts out u = Some u'" "screen_is c' u'"
    "terminal_vbe (con_term c') = terminal_vbe (con_term c)" "con_heap c' = (con_heap c)\<lparr>hmem := con_mem c'\<rparr>"
    "only (print_area E c) (con_mem c) (con_mem c')"
    by (rule con_printf_ok [OF s shell_apart(1) [OF ok inv] pb out strs])
  note ph = print_heap [OF ok h c'(6), folded c'(5)]
  have e: "heap_end (con_heap c') = heap_end (con_heap c)" by (subst c'(5)) simp
  have "\<forall>a \<in> static E files. con_mem c' a = con_mem c a"
    using c'(6) shell_apart(2) [OF ok inv] by (auto simp: only_def)
  then have "shell_ok E files stk c'" using ph(2) e c'(4) by (intro shell_frame [OF ok]) simp_all
  then show thesis using that c' ph e by blast
qed

section \<open>Showing a file\<close>

lemma static_where:
  assumes ok: "shell_ok E files stk c" and a: "a \<in> static E files"
  obtains "a < KHEAP_START" | q w where "(q, w) \<in> live (con_heap c)" "q \<noteq> fst stk" "a \<in> bytes_from q (unat w)"
proof -
  have "\<forall>a \<in> static E files. a < KHEAP_START \<or> (\<exists>q w. (q, w) \<in> live (con_heap c) \<and> q \<noteq> fst stk \<and> a \<in> bytes_from q (unat w))"
    using ok by (simp add: shell_ok_def)
  with a that show thesis by blast
qed

lemma static_stack:
  assumes ok: "shell_ok E files stk c" and inv: "heap_inv (con_heap c)"
  shows "static E files \<inter> bytes_from (fst stk) (unat (snd stk)) = {}"
proof -
  obtain p z where stk: "stk = (p, z)" by (cases stk)
  have pz: "(p, z) \<in> live (con_heap c)" using ok by (simp add: shell_ok_def stk)
  have "a \<notin> bytes_from p (unat z)" if a: "a \<in> static E files" for a
  proof (rule static_where [OF ok a])
    show ?thesis if "a < KHEAP_START" using live_bytes(1) [OF inv pz, of a] that by (meson leD)
    show ?thesis if "(q, w) \<in> live (con_heap c)" "q \<noteq> fst stk" "a \<in> bytes_from q (unat w)" for q w
      using live_disjoint [OF inv that(1) pz] that(2,3) stk by auto
  qed
  then show ?thesis by (auto simp: stk)
qed

lemma static_new:
  assumes ok: "shell_ok E files stk c" and inv: "heap_inv s" and s: "live (con_heap c) \<subseteq> live s"
    and p: "(p, z) \<in> live s" "\<forall>w. (p, w) \<notin> live (con_heap c)"
  shows "static E files \<inter> bytes_from p (unat z) = {}"
proof -
  have "a \<notin> bytes_from p (unat z)" if a: "a \<in> static E files" for a
  proof (rule static_where [OF ok a])
    show ?thesis if "a < KHEAP_START" using live_bytes(1) [OF inv p(1), of a] that by (meson leD)
    show ?thesis if q: "(q, w) \<in> live (con_heap c)" "a \<in> bytes_from q (unat w)" for q w
    proof -
      have "q \<noteq> p" "(q, w) \<in> live s" using q p(2) s by auto
      then show ?thesis using live_disjoint [OF inv _ p(1)] q(2) by blast
    qed
  qed
  then show ?thesis by auto
qed

text \<open>Writing into a block that is not part of the file system.\<close>

lemma block_write:
  assumes ok: "shell_ok E files stk c" and h: "heap_ok (con_heap c) bs" and s: "screen_is c u"
    and p: "(p, z) \<in> live (con_heap c)" "static E files \<inter> bytes_from p (unat z) = {}"
    and o: "only (bytes_from p (unat z)) (con_mem c) m"
  shows "shell_ok E files stk (set_mem m c)" "heap_ok (con_heap (set_mem m c)) bs" "screen_is (set_mem m c) u"
    "live (con_heap (set_mem m c)) = live (con_heap c)" "\<forall>a \<in> static E files. m a = con_mem c a"
proof -
  have inv: "heap_inv (con_heap c)" using h by (auto simp: heap_inv_def)
  have hs: "con_heap (set_mem m c) = (con_heap c)\<lparr>hmem := m\<rparr>" by (simp add: set_mem_def)
  have "only (bytes_from p (unat z) \<union> {x. x < KHEAP_START}) (hmem (con_heap c)) m"
    using only_mono [OF o] by (simp add: con_mem_def)
  note w = heap_ok_write [OF h p(1) this, folded hs]
  show st: "\<forall>a \<in> static E files. m a = con_mem c a" using o p(2) by (auto simp: only_def)
  show "heap_ok (con_heap (set_mem m c)) bs" "live (con_heap (set_mem m c)) = live (con_heap c)" by (fact w)+
  then show "shell_ok E files stk (set_mem m c)" using st by (intro shell_frame [OF ok]) (simp_all add: hs)
  have "a \<notin> bytes_from p (unat z)" if "a \<in> framebuffer_area (terminal_vbe (con_term c))" for a
    using live_bytes(2) [OF inv p(1)] ok that unfolding shell_ok_def by blast
  then show "screen_is (set_mem m c) u" using o by (intro screen_frame [OF s]) (simp_all add: only_def)
qed

text \<open>The blocks other than the one of the stack.\<close>

definition other_blocks :: "u32 \<times> u32 \<Rightarrow> console \<Rightarrow> (u32 \<times> u32) set" where
  "other_blocks stk c = {x \<in> live (con_heap c). fst x \<noteq> fst stk}"

lemma print_kept:
  assumes ok: "shell_ok E files stk c" and inv: "heap_inv (con_heap c)" and o: "only (print_area E c) (con_mem c) (con_mem c')"
  shows "kept (other_blocks stk c) (con_heap c) (con_heap c')"
  unfolding kept_iff
proof (intro allI impI)
  fix q w and i :: nat assume q: "(q, w) \<in> other_blocks stk c" and i: "i < unat w"
  have "q + of_nat i \<in> bytes_from q (unat w)" using i unat_less_32 [of w] by (intro bytes_fromI) simp_all
  then have "q + of_nat i \<notin> print_area E c" using shell_apart(5) [OF ok inv] q by (auto simp: other_blocks_def)
  then show "hmem (con_heap c') (q + of_nat i) = hmem (con_heap c) (q + of_nat i)" using o by (simp add: only_def con_mem_def)
qed

text \<open>A request for memory, and giving the memory back.\<close>

lemma shell_kmalloc:
  assumes ok: "shell_ok E files stk c" and s: "screen_is c u" and room: "heap_room (con_heap c) (unat sz + 21 + k)" and sz: "0 < unat sz"
  obtains p z h where "kmalloc sz (con_heap c) = Some (p, h)" "heap_room h (k + 1)" "sz \<le> z" "live h = insert (p, z) (live (con_heap c))"
    "\<forall>w. (p, w) \<notin> live (con_heap c)" "kept (live (con_heap c)) (con_heap c) h" "heap_end h = heap_end (con_heap c)"
    "shell_ok E files stk (c\<lparr>con_heap := h\<rparr>)" "screen_is (c\<lparr>con_heap := h\<rparr>) u" "\<forall>a \<in> static E files. hmem h a = con_mem c a"
proof -
  obtain p z h where k: "kmalloc sz (con_heap c) = Some (p, h)" "heap_room h (k + 1)" "sz \<le> z" "live h = insert (p, z) (live (con_heap c))"
    "\<forall>w. (p, w) \<notin> live (con_heap c)" "kept (live (con_heap c)) (con_heap c) h" "low_kept (hmem (con_heap c)) (hmem h)"
    "heap_end h = heap_end (con_heap c)" "\<forall>x. heap_end (con_heap c) \<le> x \<longrightarrow> hmem h x = hmem (con_heap c) x"
    by (rule kmalloc_room_all [OF room sz])
  let ?c = "c\<lparr>con_heap := h\<rparr>"
  have m: "con_mem ?c = hmem h" by (simp add: con_mem_def)
  have "hmem h a = con_mem c a" if "(q, w) \<in> live (con_heap c)" "a \<in> bytes_from q (unat w)" for q w a
    using kept_only [OF k(6) that(1) order_refl] that(2) by (simp add: only_def con_mem_def)
  then have st: "\<forall>a \<in> static E files. hmem h a = con_mem c a"
    using k(7) by (intro static_kept [OF ok]) (simp_all add: con_mem_def)
  have "heap_end (con_heap c) \<le> a" if "a \<in> framebuffer_area (terminal_vbe (con_term c))" for a
    by (rule fb_above [OF ok that])
  then have "screen_is ?c u" using k(9) by (intro screen_frame [OF s]) (simp_all add: con_mem_def)
  moreover have "shell_ok E files stk ?c" using k(4,8) st by (intro shell_frame [OF ok]) (auto simp: m)
  ultimately show thesis using k st by (intro that)
qed

lemma shell_kfree:
  assumes ok: "shell_ok E files stk c" and inv: "heap_inv (con_heap c1)" and s: "screen_is c1 u" and z: "0 < unat z"
    and lv: "live (con_heap c1) = insert (p, z) (live (con_heap c))" "\<forall>w. (p, w) \<notin> live (con_heap c)"
    and e: "heap_end (con_heap c1) = heap_end (con_heap c)" "terminal_vbe (con_term c1) = terminal_vbe (con_term c)"
    and st: "\<forall>a \<in> static E files. con_mem c1 a = con_mem c a" "kept (other_blocks stk c) (con_heap c) (con_heap c1)"
  defines "c2 \<equiv> c1\<lparr>con_heap := snd (kheap_free p (con_heap c1))\<rparr>"
  shows "shell_ok E files stk c2" "screen_is c2 u" "heap_inv (con_heap c2)" "live (con_heap c2) = live (con_heap c)"
    "heap_end (con_heap c2) = heap_end (con_heap c)" "kept (other_blocks stk c) (con_heap c) (con_heap c2)"
    "terminal_vbe (con_term c2) = terminal_vbe (con_term c)"
proof -
  have pz: "(p, z) \<in> live (con_heap c1)" using lv(1) by simp
  obtain h where h: "kheap_free p (con_heap c1) = (Freed, h)" "heap_inv h" "live h = live (con_heap c1) - {(p, z)}"
    "kept (live h) (con_heap c1) h" "heap_end h = heap_end (con_heap c1)"
    by (rule kheap_free_ok [OF inv pz z])
  have c2: "con_heap c2 = h" "con_term c2 = con_term c1" "con_mem c2 = hmem h" by (simp_all add: c2_def h(1) con_mem_def)
  have l: "live h = live (con_heap c)" using h(3) lv by auto
  note out = kheap_free_outside [OF inv pz z, unfolded h(1) snd_conv]
  have k: "hmem h a = con_mem c1 a" if "(q, w) \<in> live (con_heap c)" "a \<in> bytes_from q (unat w)" for q w a
    using kept_only [OF h(4) _ order_refl] that by (auto simp: only_def con_mem_def l)
  have "hmem h a = con_mem c a" if a: "a \<in> static E files" for a
  proof -
    have "a < KHEAP_START \<or> (\<exists>q w. (q, w) \<in> live (con_heap c) \<and> a \<in> bytes_from q (unat w))"
      by (rule static_where [OF ok a]) blast+
    then have "hmem h a = con_mem c1 a" using k out by (auto simp: con_mem_def)
    then show ?thesis using st a by simp
  qed
  then show "shell_ok E files stk c2" using l h(5) e by (intro shell_frame [OF ok]) (simp_all add: c2)
  show "heap_inv (con_heap c2)" "live (con_heap c2) = live (con_heap c)" "heap_end (con_heap c2) = heap_end (con_heap c)"
    "terminal_vbe (con_term c2) = terminal_vbe (con_term c)"
    using h(2,5) l e by (simp_all add: c2)
  have "heap_end (con_heap c1) \<le> a" if "a \<in> framebuffer_area (terminal_vbe (con_term c1))" for a
    using fb_above [OF ok] that unfolding e by simp
  then show "screen_is c2 u" using out by (intro screen_frame [OF s]) (simp_all add: c2 con_mem_def)
  have "kept (live (con_heap c)) (con_heap c1) h" using h(4) l by simp
  then show "kept (other_blocks stk c) (con_heap c) (con_heap c2)"
    unfolding c2 by (intro kept_trans [OF st(2)]) (auto simp: other_blocks_def)
qed

lemma node_length:
  assumes "initrd_ok L I files m" "ramdisk_contents files name = Some c"
  shows "load32 m (n_length (ramdisk_node I files name)) = of_nat (length c)"
proof -
  obtain i where i: "find_file files name 0 = Some i" "c = snd (files ! i)" "i < length files"
    using assms(2) by (auto simp: ramdisk_contents_def find_file_less split: if_splits)
  then show ?thesis using assms(1) by (simp add: ramdisk_node_def initrd_ok_def file_ok_def file_node_def)
qed

text \<open>What \<^verbatim>\<open>cat\<close> shows of a name: the directory \<^verbatim>\<open>dev\<close> is a node without contents.\<close>

definition shell_contents :: "(u8 list \<times> u8 list) list \<Rightarrow> u8 list \<Rightarrow> u8 list option" where
  "shell_contents files name = (if name = str_dev then Some [] else ramdisk_contents files name)"

definition shell_node :: "initrd_t \<Rightarrow> (u8 list \<times> u8 list) list \<Rightarrow> u8 list \<Rightarrow> u32" where
  "shell_node I files name = (if name = str_dev then initrd_dev I else ramdisk_node I files name)"

lemma shell_found:
  assumes ok: "initrd_ok L I files m" and c: "shell_contents files name = Some content"
  shows "cstr m a name \<Longrightarrow> vfs_finddir (kernel_finddir L I) (initrd_root I) a m = Some (shell_node I files name)"
    and "shell_node I files name \<noteq> 0" and "load32 m (n_length (shell_node I files name)) = of_nat (length content)"
    and "bytes_from buffer (length content) \<inter> initrd_area L I files = {} \<Longrightarrow>
      \<exists>m'. vfs_read (kernel_read L I) (shell_node I files name) 0 (of_nat (length content)) buffer m = Some (of_nat (length content), m') \<and>
        loaded m' buffer content \<and> only (bytes_from buffer (length content)) m m'"
proof -
  have d: "initrd_dev I \<noteq> 0" "load32 m (n_length (initrd_dev I)) = 0" "load32 m (n_read (initrd_dev I)) = 0"
    using ok by (simp_all add: initrd_ok_def dir_node_def)
  have r: "ramdisk_contents files name = Some content" if "name \<noteq> str_dev" using c that by (simp add: shell_contents_def)
  have e: "content = []" if "name = str_dev" using c that by (simp add: shell_contents_def)
  show "vfs_finddir (kernel_finddir L I) (initrd_root I) a m = Some (shell_node I files name)" if "cstr m a name"
    using finddir_ok [OF ok that] ramdisk.found [OF ok that r] by (simp add: shell_node_def)
  show "shell_node I files name \<noteq> 0"
  proof (cases "name = str_dev")
    case False
    then obtain i where "find_file files name 0 = Some i" "i < length files"
      using r find_file_less by (auto simp: ramdisk_contents_def)
    then show ?thesis using ok False by (simp add: shell_node_def ramdisk_node_def initrd_ok_def)
  qed (simp add: shell_node_def d(1))
  show "load32 m (n_length (shell_node I files name)) = of_nat (length content)"
    using d(2) e node_length [OF ok r] by (simp add: shell_node_def)
  show "\<exists>m'. vfs_read (kernel_read L I) (shell_node I files name) 0 (of_nat (length content)) buffer m = Some (of_nat (length content), m') \<and>
      loaded m' buffer content \<and> only (bytes_from buffer (length content)) m m'"
    if "bytes_from buffer (length content) \<inter> initrd_area L I files = {}"
    using ramdisk.read_whole [OF ok r that] d(3) e
    by (cases "name = str_dev") (auto simp: shell_node_def vfs_read_def loaded_def)
qed

lemma cat_found:
  assumes ok: "shell_ok E files stk c" and s: "screen_is c u" and room: "heap_room (con_heap c) (length content + 22)"
    and name: "cstr (con_mem c) (cmd_buffer E + 4) name" and content: "shell_contents files name = Some content"
    and chars: "\<forall>x \<in> set content. 0 < x \<and> x < 0x80"
  obtains c' u' where "shell_cat E c = Some c'" "terminal_puts (content @ [0x0A]) u = Some u'" "screen_is c' u'"
    "shell_ok E files stk c'" "heap_inv (con_heap c')" "live (con_heap c') = live (con_heap c)"
    "heap_end (con_heap c') = heap_end (con_heap c)" "kept (other_blocks stk c) (con_heap c) (con_heap c')"
    "terminal_vbe (con_term c') = terminal_vbe (con_term c)"
proof -
  let ?L = "fs_link E" and ?I = "fs_state E" and ?n = "shell_node (fs_state E) files name"
  have io: "initrd_ok ?L ?I files (con_mem c)" "fs_root E = initrd_root ?I" using ok by (simp_all add: shell_ok_def)
  have f: "vfs_finddir (kernel_finddir ?L ?I) (fs_root E) (cmd_buffer E + 4) (con_mem c) = Some ?n" "?n \<noteq> 0"
    "load32 (con_mem c) (n_length ?n) = of_nat (length content)"
    using shell_found(1) [OF io(1) content name] shell_found(2,3) [OF io(1) content] io(2) by simp_all
  have l: "length content + 22 < 2 ^ 32" using room unat_less_32 order_le_less_trans unfolding heap_room_def by blast
  define sz where "sz = (of_nat (length content) + 1 :: u32)"
  have usz: "unat sz = length content + 1" 
    using unat_of_nat_32 [of "Suc (length content)"] l by (simp add: sz_def add.commute)
  have e22: "unat sz + 21 + 0 = length content + 22" using usz by simp
  have r: "heap_room (con_heap c) (unat sz + 21 + 0)" "0 < unat sz" unfolding e22 using room usz by simp_all
  obtain p z h where k: "kmalloc sz (con_heap c) = Some (p, h)" "heap_room h (0 + 1)" "sz \<le> z" "live h = insert (p, z) (live (con_heap c))"
    "\<forall>w. (p, w) \<notin> live (con_heap c)" "kept (live (con_heap c)) (con_heap c) h" "heap_end h = heap_end (con_heap c)"
    "shell_ok E files stk (c\<lparr>con_heap := h\<rparr>)" "screen_is (c\<lparr>con_heap := h\<rparr>) u" "\<forall>a \<in> static E files. hmem h a = con_mem c a"
    by (rule shell_kmalloc [OF ok s r])
  let ?c1 = "c\<lparr>con_heap := h\<rparr>"
  have m1: "con_mem ?c1 = hmem h" "con_heap ?c1 = h" by (simp_all add: con_mem_def)
  have uz: "Suc (length content) \<le> unat z" using k(3) usz by (simp add: word_le_nat_alt)
  obtain bs where hb: "heap_ok h bs" using k(2) by (auto simp: heap_room_def)
  have inv: "heap_inv h" using hb by (auto simp: heap_inv_def)
  have pz: "(p, z) \<in> live h" using k(4) by simp
  have new: "static E files \<inter> bytes_from p (unat z) = {}"
    by (rule static_new [OF ok inv _ pz k(5)]) (use k(4) in auto)
  have io1: "initrd_ok ?L ?I files (hmem h)" using k(8) by (simp add: shell_ok_def m1)
  have "bytes_from p (length content) \<inter> initrd_area ?L ?I files = {}"
    using new bytes_from_mono [of "length content" "unat z" p] uz unfolding static_def by auto
  from shell_found(4) [OF io1 content this] obtain m where
    m: "vfs_read (kernel_read ?L ?I) ?n 0 (of_nat (length content)) p (hmem h) = Some (of_nat (length content), m)"
    "loaded m p content" "only (bytes_from p (length content)) (hmem h) m" by blast
  let ?m = "m(p + of_nat (length content) := 0)"
  have o: "only (bytes_from p (unat z)) (hmem h) ?m"
  proof -
    have "only (bytes_from p (unat z)) (hmem h) m" by (rule only_mono [OF m(3) bytes_from_mono]) (use uz in simp)
    moreover have "p + of_nat (length content) \<in> bytes_from p (unat z)"
      using uz unat_less_32 [of z] by (intro bytes_fromI) simp_all
    ultimately show ?thesis by (auto simp: only_def)
  qed
  have str: "cstr ?m p content"
  proof (rule loaded_cstr [of _ _ _ "[]"])
    have "p + of_nat i \<noteq> p + of_nat (length content)" if "i < length content" for i
      using of_nat_apart [OF that] l by simp
    then have "loaded ?m p (content @ [0])" using m(2) by (auto simp: loaded_def nth_append less_Suc_eq)
    then show "loaded ?m p (content @ 0 # [])" by simp
    show "0 \<notin> set content" using chars by auto
  qed
  let ?c2 = "set_mem ?m ?c1"
  have b: "shell_ok E files stk ?c2" "heap_ok (con_heap ?c2) bs" "screen_is ?c2 u" "live (con_heap ?c2) = live h"
    "\<forall>a \<in> static E files. ?m a = hmem h a"
    using block_write [OF k(8) _ k(9), of bs p z ?m] hb pz new o by (simp_all add: m1)
  have e2: "con_mem ?c2 = ?m" "con_term ?c2 = con_term c" "heap_end (con_heap ?c2) = heap_end (con_heap c)"
    using k(7) by (simp_all add: set_mem_def con_mem_def)
  have inv2: "heap_inv (con_heap ?c2)" using b(2) by (auto simp: heap_inv_def)
  have pst: "p \<noteq> fst stk" using k(5) ok unfolding shell_ok_def by (metis prod.collapse)
  have buf: "bytes_from p (Suc (length content)) \<inter> print_area E ?c2 = {}"
    using shell_apart(5) [OF b(1) inv2, of p z] pz b(4) pst bytes_from_mono [OF uz, of p] by auto
  have fm: "formatted (\<lambda>_. content) (ascii (''%s'' @ nl)) [p] = Some (content @ [0x0A])"
    "string_args (ascii (''%s'' @ nl)) [p] = [p]"
    by (simp_all add: ascii_def nl_def)
  obtain c3 u' where c3: "con_printf E (''%s'' @ nl) [p] ?c2 = Some c3" "terminal_puts (content @ [0x0A]) u = Some u'" "screen_is c3 u'"
    "shell_ok E files stk c3" "heap_ok (con_heap c3) bs" "live (con_heap c3) = live (con_heap ?c2)"
    "heap_end (con_heap c3) = heap_end (con_heap ?c2)" "only (print_area E ?c2) (con_mem ?c2) (con_mem c3)"
    "terminal_vbe (con_term c3) = terminal_vbe (con_term ?c2)"
  proof (rule con_print_ok [OF b(1,2,3) fm(1)])
    show "\<forall>x \<in> set (content @ [0x0A]). x < 0x80" using chars by auto
    show "cstr (con_mem ?c2) a content \<and> bytes_from a (Suc (length content)) \<inter> print_area E ?c2 = {} \<and> Suc (length content) \<le> 2 ^ 32"
      if "a \<in> set (string_args (ascii (''%s'' @ nl)) [p])" for a
      using that str buf l unfolding fm(2) e2(1) by simp
  qed (rule that)
  have hs2: "con_heap ?c2 = h\<lparr>hmem := ?m\<rparr>" by (simp add: set_mem_def)
  have "kept (live (con_heap c)) h (con_heap ?c2)"
    unfolding hs2 by (rule live_write_kept(1) [OF inv pz o _ k(5)]) (use k(4) in auto)
  then have "kept (live (con_heap c)) (con_heap c) (con_heap ?c2)" by (rule kept_trans [OF k(6)]) simp
  moreover have sub: "other_blocks stk c \<subseteq> other_blocks stk ?c2" "other_blocks stk c \<subseteq> live (con_heap c)" using k(4) b(4) by (auto simp: other_blocks_def)
  ultimately have "kept (other_blocks stk c) (con_heap c) (con_heap ?c2)" by (auto simp: kept_def)
  from kept_trans [OF this print_kept [OF b(1) inv2 c3(8)] sub(1)]
  have kp: "kept (other_blocks stk c) (con_heap c) (con_heap c3)" .
  have st3: "\<forall>a \<in> static E files. con_mem c3 a = con_mem c a"
    using c3(8) shell_apart(2) [OF b(1) inv2] b(5) k(10) e2(1) by (auto simp: only_def)
  have inv3: "heap_inv (con_heap c3)" using c3(5) by (auto simp: heap_inv_def)
  have lv3: "live (con_heap c3) = insert (p, z) (live (con_heap c))" using c3(6) b(4) k(4) by simp
  have vb3: "terminal_vbe (con_term c3) = terminal_vbe (con_term c)" using c3(9) e2(2) by simp
  have he3: "heap_end (con_heap c3) = heap_end (con_heap c)" using c3(7) e2(3) by simp
  have z0: "0 < unat z" using uz by simp
  note fin = shell_kfree [OF ok inv3 c3(3) z0 lv3 k(5) he3 vb3 st3 kp]
  have "load32 (hmem h) (n_length ?n) = of_nat (length content)" by (rule shell_found(3) [OF io1 content])
  then have "shell_cat E c = Some (c3\<lparr>con_heap := snd (kheap_free p (con_heap c3))\<rparr>)"
    using f(2,3) k(1) m(1) c3(1) unfolding shell_cat_def Let_def f(1) option.case
    by (simp add: sz_def set_mem_def)
  from that [OF this c3(2) fin(2,1,3,4,5,6,7)] show thesis .
qed

end
