(* ===== verification/Shell_Commands.thy ===== *)
theory Shell_Commands
  imports Shell_Files
begin

text \<open>
  The commands: what each prints and keeps, \<^verbatim>\<open>ls\<close> by induction over the directory, and the answer to a
  whole line, \<open>shell_reply\<close>.
\<close>

section \<open>A step of the shell\<close>

text \<open>What every command leaves: a shell that is set up, the same blocks with their contents.\<close>

definition went :: "shell_env \<Rightarrow> (u8 list \<times> u8 list) list \<Rightarrow> u32 \<times> u32 \<Rightarrow> console \<Rightarrow> console \<Rightarrow> bool" where
  "went E files stk c c' \<longleftrightarrow> shell_ok E files stk c' \<and> heap_inv (con_heap c') \<and> live (con_heap c') = live (con_heap c) \<and>
     heap_end (con_heap c') = heap_end (con_heap c) \<and> kept (other_blocks stk c) (con_heap c) (con_heap c') \<and>
     terminal_vbe (con_term c') = terminal_vbe (con_term c)"

lemma went_refl: "shell_ok E files stk c \<Longrightarrow> heap_inv (con_heap c) \<Longrightarrow> went E files stk c c"
  by (simp add: went_def kept_def)

lemma went_trans: "went E files stk c c1 \<Longrightarrow> went E files stk c1 c2 \<Longrightarrow> went E files stk c c2"
  by (auto simp: went_def other_blocks_def intro: kept_trans)

text \<open>The command has printed \<open>out\<close>.\<close>

definition says :: "shell_env \<Rightarrow> (u8 list \<times> u8 list) list \<Rightarrow> u32 \<times> u32 \<Rightarrow> u8 list \<Rightarrow> console \<Rightarrow> term_sys \<Rightarrow> console option \<Rightarrow> bool" where
  "says E files stk out c u r \<longleftrightarrow> (\<exists>c' u'. r = Some c' \<and> terminal_puts out u = Some u' \<and> screen_is c' u' \<and> went E files stk c c')"

lemma saysI: "terminal_puts out u = Some u' \<Longrightarrow> screen_is c' u' \<Longrightarrow> went E files stk c c' \<Longrightarrow> says E files stk out c u (Some c')"
  by (auto simp: says_def)

lemma says_then:
  assumes s: "says E files stk out c u r"
    and n: "\<And>c' u'. screen_is c' u' \<Longrightarrow> went E files stk c c' \<Longrightarrow> r = Some c' \<Longrightarrow> says E files stk out' c' u' (f c')"
  shows "says E files stk (out @ out') c u (case r of None \<Rightarrow> None | Some x \<Rightarrow> f x)"
proof -
  obtain c' u' where 1: "r = Some c'" "terminal_puts out u = Some u'" "screen_is c' u'" "went E files stk c c'"
    using s by (auto simp: says_def)
  obtain c2 u2 where 2: "f c' = Some c2" "terminal_puts out' u' = Some u2" "screen_is c2 u2" "went E files stk c' c2"
    using n [OF 1(3,4,1)] by (auto simp: says_def)
  show ?thesis using 1 2 went_trans [OF 1(4) 2(4)] by (auto simp: says_def terminal_puts_append)
qed

lemma print_says:
  assumes ok: "shell_ok E files stk c" and inv: "heap_inv (con_heap c)" and s: "screen_is c u"
    and out: "formatted strs (ascii fmt) args = Some out" "\<forall>x \<in> set out. x < 0x80"
    and strs: "\<And>a. a \<in> set (string_args (ascii fmt) args) \<Longrightarrow>
      cstr (con_mem c) a (strs a) \<and> bytes_from a (Suc (length (strs a))) \<inter> print_area E c = {} \<and> Suc (length (strs a)) \<le> 2 ^ 32"
  shows "says E files stk out c u (con_printf E fmt args c)"
    and "con_printf E fmt args c = Some c' \<Longrightarrow> only (print_area E c) (con_mem c) (con_mem c')"
proof -
  obtain bs where bs: "heap_ok (con_heap c) bs" using inv by (auto simp: heap_inv_def)
  obtain c1 u' where 1: "con_printf E fmt args c = Some c1" "terminal_puts out u = Some u'" "screen_is c1 u'" "shell_ok E files stk c1"
    "heap_ok (con_heap c1) bs" "live (con_heap c1) = live (con_heap c)" "heap_end (con_heap c1) = heap_end (con_heap c)"
    "only (print_area E c) (con_mem c) (con_mem c1)" "terminal_vbe (con_term c1) = terminal_vbe (con_term c)"
    by (rule con_print_ok [OF ok bs s out strs])
  have "went E files stk c c1" unfolding went_def using 1 print_kept [OF ok inv 1(8)] by (auto simp: heap_inv_def)
  then show "says E files stk out c u (con_printf E fmt args c)" using 1 by (auto simp: says_def)
  show "only (print_area E c) (con_mem c) (con_mem c')" if "con_printf E fmt args c = Some c'" using that 1(1,8) by simp
qed

text \<open>Writing the line, and writing static memory below the heap.\<close>

lemma line_write:
  assumes ok: "shell_ok E files stk c" and inv: "heap_inv (con_heap c)" and s: "screen_is c u"
    and o: "only (bytes_from (cmd_buffer E) 128) (con_mem c) m"
  shows "went E files stk c (set_mem m c)" "screen_is (set_mem m c) u"
    "heap_room (con_heap c) k \<Longrightarrow> heap_room (con_heap (set_mem m c)) k"
proof -
  obtain p z where stk: "stk = (p, z)" by (cases stk)
  have pz: "(p, z) \<in> live (con_heap c)" "bytes_from (cmd_buffer E) 128 \<subseteq> bytes_from p (unat z)"
    using ok by (simp_all add: shell_ok_def stk)
  obtain bs where bs: "heap_ok (con_heap c) bs" using inv by (auto simp: heap_inv_def)
  have o': "only (bytes_from p (unat z)) (con_mem c) m" by (rule only_mono [OF o pz(2)])
  have st: "static E files \<inter> bytes_from p (unat z) = {}" using static_stack [OF ok inv] by (simp add: stk)
  note b = block_write [OF ok bs s pz(1) st o']
  have hs: "con_heap (set_mem m c) = (con_heap c)\<lparr>hmem := m\<rparr>" by (simp add: set_mem_def)
  have "kept (other_blocks stk c) (con_heap c) (con_heap (set_mem m c))"
    unfolding hs by (rule live_write_kept(1) [OF inv pz(1)]) (use o' in \<open>auto simp: other_blocks_def stk con_mem_def\<close>)
  then show "went E files stk c (set_mem m c)" unfolding went_def using b by (auto simp: heap_inv_def hs)
  show "screen_is (set_mem m c) u" by (rule b(3))
  show "heap_room (con_heap (set_mem m c)) k" if "heap_room (con_heap c) k"
    unfolding hs by (rule heap_room_write(1) [OF that pz(1)]) (use only_mono [OF o'] in \<open>auto simp: con_mem_def\<close>)
qed

lemma low_write:
  assumes ok: "shell_ok E files stk c" and inv: "heap_inv (con_heap c)" and s: "screen_is c u"
    and S: "S \<subseteq> {x. x < KHEAP_START}" "S \<inter> static E files = {}" and o: "only S (con_mem c) m"
  shows "went E files stk c (set_mem m c)" "screen_is (set_mem m c) u"
proof -
  obtain bs where bs: "heap_ok (con_heap c) bs" using inv by (auto simp: heap_inv_def)
  have hs: "con_heap (set_mem m c) = (con_heap c)\<lparr>hmem := m\<rparr>" by (simp add: set_mem_def)
  have lo: "only {x. x < KHEAP_START} (hmem (con_heap c)) m" using only_mono [OF o S(1)] by (simp add: con_mem_def)
  note w = heap_ok_low [OF bs lo, folded hs]
  have "\<forall>a \<in> static E files. m a = con_mem c a" using o S(2) by (auto simp: only_def)
  then have sh: "shell_ok E files stk (set_mem m c)" using w by (intro shell_frame [OF ok]) (simp_all add: hs)
  have "kept (live (con_heap c)) (con_heap c) (con_heap (set_mem m c))"
    unfolding kept_iff
  proof (intro allI impI)
    fix q w and i :: nat assume q: "(q, w) \<in> live (con_heap c)" and i: "i < unat w"
    have "q + of_nat i \<in> bytes_from q (unat w)" using i unat_less_32 [of w] by (intro bytes_fromI) simp_all
    from live_bytes(1) [OF inv q this] lo show "hmem (con_heap (set_mem m c)) (q + of_nat i) = hmem (con_heap c) (q + of_nat i)"
      by (simp add: hs only_def not_less)
  qed
  then have "kept (other_blocks stk c) (con_heap c) (con_heap (set_mem m c))" by (auto simp: kept_def other_blocks_def)
  then show "went E files stk c (set_mem m c)" unfolding went_def using sh w by (auto simp: heap_inv_def hs)
  have "\<not> a < KHEAP_START" if "a \<in> framebuffer_area (terminal_vbe (con_term c))" for a
    using fb_above [OF ok that] heap_end_above [OF inv] by simp
  then show "screen_is (set_mem m c) u" using lo by (intro screen_frame [OF s]) (auto simp: only_def con_mem_def hs)
qed

section \<open>Listing the directory\<close>

text \<open>What \<^verbatim>\<open>ls\<close> prints for a name and for an index.\<close>

definition ls_kind :: "(u8 list \<times> u8 list) list \<Rightarrow> u8 list \<Rightarrow> u8 list" where
  "ls_kind files name = (if name = str_dev then ascii (''(dir)'' @ nl)
     else ascii ''(file, size '' @ itoa_text (of_nat (case shell_contents files name of None \<Rightarrow> 0 | Some c \<Rightarrow> length c)) 10 @ ascii ('')'' @ nl))"

definition ls_line :: "(u8 list \<times> u8 list) list \<Rightarrow> nat \<Rightarrow> u8 list" where
  "ls_line files i = (case entry_at files i of None \<Rightarrow> [] | Some (name, inode) \<Rightarrow> name @ [0x20, 0x20] @ ls_kind files name)"

definition listing :: "(u8 list \<times> u8 list) list \<Rightarrow> u8 list" where
  "listing files = concat (map (ls_line files) [0..<Suc (length files)])"

definition ascii_names :: "(u8 list \<times> u8 list) list \<Rightarrow> bool" where
  "ascii_names files \<longleftrightarrow> (\<forall>f \<in> set files. \<forall>x \<in> set (fst f). x < 0x80)"

lemma itoa_text_ascii: "b = 10 \<or> b = 16 \<Longrightarrow> \<forall>x \<in> set (itoa_text v b). x < 0x80"
proof -
  have d: "digit_char (of_nat d) < 0x80" if "d < 16" for d
  proof -
    have "\<forall>d \<in> set [0..<16]. digit_char (of_nat d) < 0x80" by code_simp
    then show ?thesis using that by simp
  qed
  have "x < 0x80" if x: "x \<in> set (numeral_text b n)" "b \<le> 16" for x b n
  proof -
    have "digit_char (of_nat d) < 0x80" if "d \<in> set (ldigits b n)" for d
      using d ldigits_less [OF that] x(2) by simp
    then show ?thesis using x by (auto simp: numeral_text_chars split: if_splits)
  qed
  then show "b = 10 \<or> b = 16 \<Longrightarrow> ?thesis" by (auto simp: itoa_text_def)
qed

lemma entry_contents:
  assumes "entry_at files i = Some (name, j)"
  obtains c where "shell_contents files name = Some c"
proof (cases "name = str_dev")
  case True
  then show thesis by (intro that [of "[]"]) (simp add: shell_contents_def)
next
  case False
  then have i: "i - 1 < length files" "name = mk_name (fst (files ! (i - 1)))"
    using assms by (auto simp: entry_at_def split: if_splits)
  then have "find_file files name 0 \<noteq> None" by (auto simp: find_file_def find_None_iff intro: exI [of _ "i - 1"])
  then show thesis using False that by (auto simp: shell_contents_def ramdisk_contents_def)
qed

lemma entry_name:
  assumes "entry_at files i = Some (name, j)" "ascii_names files"
  shows "length name \<le> 63" "\<forall>x \<in> set name. x < 0x80"
proof -
  show "length name \<le> 63" using assms(1) length_mk_name by (auto simp: entry_at_def str_lengths split: if_splits)
  have "set (mk_name f) \<subseteq> set f" for f by (auto simp: mk_name_def dest!: in_set_takeD set_takeWhileD)
  then have "x < 0x80" if "k < length files" "x \<in> set (mk_name (fst (files ! k)))" for k x
    using assms(2) that unfolding ascii_names_def by (meson nth_mem subsetD)
  moreover have "\<forall>x \<in> set str_dev. x < 0x80" by (simp add: str_dev_def)
  moreover have "name = str_dev \<or> (\<exists>k < length files. name = mk_name (fst (files ! k)))"
    using assms(1) by (auto simp: entry_at_def split: if_splits intro!: exI [of _ "i - 1"])
  ultimately show "\<forall>x \<in> set name. x < 0x80" by blast
qed

lemma shell_node_flags:
  assumes ok: "initrd_ok L I files m" and c: "shell_contents files name = Some c"
  shows "load32 m (n_flags (shell_node I files name)) AND 0x7 = VFS_DIRECTORY \<longleftrightarrow> name = str_dev"
proof (cases "name = str_dev")
  case True
  then show ?thesis using ok by (simp add: shell_node_def initrd_ok_def dir_node_def VFS_DIRECTORY_def)
next
  case False
  then obtain i where "find_file files name 0 = Some i" "i < length files"
    using c find_file_less by (auto simp: shell_contents_def ramdisk_contents_def)
  then show ?thesis using ok False
    by (simp add: shell_node_def ramdisk_node_def initrd_ok_def file_ok_def file_node_def VFS_DIRECTORY_def VFS_FILE_def)
qed

lemma print_above:
  assumes ok: "shell_ok E files stk c" and inv: "heap_inv (con_heap c)"
  shows "{a. a < KHEAP_START} \<inter> print_area E c = {}"
proof -
  obtain p z where stk: "stk = (p, z)" by (cases stk)
  have pz: "(p, z) \<in> live (con_heap c)" "digits_area (print_buf E) \<subseteq> bytes_from p (unat z)" using ok by (simp_all add: shell_ok_def stk)
  have "KHEAP_START \<le> a" if "a \<in> print_area E c" for a
    using that live_bytes(1) [OF inv pz(1), of a] pz(2) fb_above [OF ok, of a] heap_end_above [OF inv]
    unfolding print_area_def by (meson Un_iff order_trans subsetD)
  then show ?thesis by (meson disjoint_iff leD mem_Collect_eq)
qed

lemma says_after: "went E files stk c c1 \<Longrightarrow> says E files stk out c1 u r \<Longrightarrow> says E files stk out c u r"
  unfolding says_def using went_trans by blast

text \<open>One turn of the loop.\<close>

lemma ls_kind_says:
  assumes ok: "shell_ok E files stk c" and inv: "heap_inv (con_heap c)" and s: "screen_is c u"
    and n: "shell_contents files name = Some content"
  defines "node \<equiv> shell_node (fs_state E) files name"
  shows "says E files stk (ls_kind files name) c u
    (if load32 (con_mem c) (n_flags node) AND 0x7 = VFS_DIRECTORY then con_printf E (''(dir)'' @ nl) [] c
     else con_printf E (''(file, size %d)'' @ nl) [load32 (con_mem c) (n_length node)] c)"
proof -
  have io: "initrd_ok (fs_link E) (fs_state E) files (con_mem c)" using ok by (simp add: shell_ok_def)
  note f = shell_node_flags [OF io n, folded node_def] shell_found(3) [OF io n, folded node_def]
  show ?thesis
  proof (cases "name = str_dev")
    case True
    have "says E files stk (ascii (''(dir)'' @ nl)) c u (con_printf E (''(dir)'' @ nl) [] c)"
      by (rule print_says(1) [OF ok inv s, of "\<lambda>_. []"]) (simp_all add: ascii_def nl_def)
    then show ?thesis using True f(1) by (simp add: ls_kind_def)
  next
    case False
    let ?v = "of_nat (length content) :: u32"
    have "says E files stk (ascii ''(file, size '' @ itoa_text ?v 10 @ ascii ('')'' @ nl)) c u (con_printf E (''(file, size %d)'' @ nl) [?v] c)"
      by (rule print_says(1) [OF ok inv s, of "\<lambda>_. []"]) (use itoa_text_ascii [of 10 ?v] in \<open>auto simp: ascii_def nl_def\<close>)
    then show ?thesis using False f n by (simp add: ls_kind_def)
  qed
qed

lemma ls_turn:
  assumes ok: "shell_ok E files stk c" and inv: "heap_inv (con_heap c)" and s: "screen_is c u" and nm: "ascii_names files"
    and i: "i \<le> length files"
    and nx: "\<And>c' u'. shell_ok E files stk c' \<Longrightarrow> heap_inv (con_heap c') \<Longrightarrow> screen_is c' u' \<Longrightarrow>
      says E files stk out c' u' (shell_ls E (of_nat i + 1) c')"
  shows "says E files stk (ls_line files i @ out) c u (shell_ls E (of_nat i) c)"
proof -
  let ?L = "fs_link E" and ?I = "fs_state E"
  let ?d = "dirent (fs_link E)"
  have o: "initrd_ok ?L ?I files (con_mem c)" "fs_root E = initrd_root ?I" "?d \<noteq> 0" "bytes_from ?d 132 \<subseteq> {x. x < KHEAP_START}"
    "bytes_from ?d 132 \<inter> static E files = {}" using ok by (simp_all add: shell_ok_def)
  have da: "bytes_from ?d 132 \<inter> initrd_area ?L ?I files = {}" using o(5) by (auto simp: static_def)
  have ui: "unat (of_nat i :: u32) = i" using i o(1) by (intro unat_of_nat_32) (simp add: initrd_ok_def)
  obtain name j where e: "entry_at files i = Some (name, j)" using i by (cases "entry_at files i") (auto simp: entry_at_def split: if_splits)
  note nl63 = entry_name [OF e nm]
  obtain content where n: "shell_contents files name = Some content" by (rule entry_contents [OF e])
  obtain m where m: "vfs_readdir (kernel_readdir ?L ?I) (fs_root E) (of_nat i) (con_mem c) = Some (?d, m)"
    "cstr m (d_name ?d) name" "only (bytes_from ?d 132) (con_mem c) m"
    using readdir_ok [OF o(1) da o(3), of "of_nat i", unfolded ui e] o(2) by auto
  let ?c = "set_mem m c"
  note w = low_write [OF ok inv s o(4,5) m(3)]
  have ok1: "shell_ok E files stk ?c" "heap_inv (con_heap ?c)" using w(1) by (simp_all add: went_def)
  have dn: "bytes_from (d_name ?d) (Suc (length name)) \<inter> print_area E c1 = {}"
    if "shell_ok E files stk c1" "heap_inv (con_heap c1)" for c1
    using print_above [OF that] o(4) bytes_from_mono [of "Suc (length name)" 132 ?d] nl63(1) by (auto simp: d_name_def)
  have fm: "formatted (\<lambda>_. name) (ascii ''%s  '') [d_name ?d] = Some (name @ [0x20, 0x20])"
    "string_args (ascii ''%s  '') [d_name ?d] = [d_name ?d]" by (simp_all add: ascii_def)
  have asc: "\<forall>x \<in> set (name @ [0x20, 0x20]). x < 0x80" using nl63(2) by auto
  have arg: "cstr (con_mem ?c) a name \<and> bytes_from a (Suc (length name)) \<inter> print_area E ?c = {} \<and> Suc (length name) \<le> 2 ^ 32"
    if "a \<in> set (string_args (ascii ''%s  '') [d_name ?d])" for a
    using that m(2) dn [OF ok1] nl63(1) unfolding fm(2) by simp
  have pr: "says E files stk (name @ [0x20, 0x20]) ?c u (con_printf E ''%s  '' [d_name ?d] ?c)"
    by (rule print_says(1) [OF ok1 w(2) fm(1) asc]) (rule arg)
  have po: "only (print_area E ?c) (con_mem ?c) (con_mem c1)" if "con_printf E ''%s  '' [d_name ?d] ?c = Some c1" for c1
    by (rule print_says(2) [OF ok1 w(2) fm(1) asc _ that]) (rule arg)
  let ?rest = "\<lambda>c1. case vfs_finddir (kernel_finddir ?L ?I) (fs_root E) (d_name ?d) (con_mem c1) of
       None \<Rightarrow> None
     | Some fsnode \<Rightarrow>
         (case (if load32 (con_mem c1) (n_flags fsnode) AND 0x7 = VFS_DIRECTORY then con_printf E (''(dir)'' @ nl) [] c1
                else con_printf E (''(file, size %d)'' @ nl) [load32 (con_mem c1) (n_length fsnode)] c1) of
            None \<Rightarrow> None
          | Some c2 \<Rightarrow> shell_ls E (of_nat i + 1) c2)"
  have rest: "says E files stk (ls_kind files name @ out) c1 u1 (?rest c1)"
    if c1: "screen_is c1 u1" "went E files stk ?c c1" "con_printf E ''%s  '' [d_name ?d] ?c = Some c1" for c1 u1
  proof -
    have ok2: "shell_ok E files stk c1" "heap_inv (con_heap c1)" using c1(2) by (simp_all add: went_def)
    have "cstr (con_mem c1) (d_name ?d) name"
      by (rule cstr_only [OF _ po [OF c1(3)] dn [OF ok1]]) (use m(2) nl63(1) in simp_all)
    moreover have "initrd_ok ?L ?I files (con_mem c1)" using ok2(1) by (simp add: shell_ok_def)
    ultimately have fd: "vfs_finddir (kernel_finddir ?L ?I) (fs_root E) (d_name ?d) (con_mem c1) = Some (shell_node ?I files name)"
      using shell_found(1) [OF _ n] o(2) by metis
    show ?thesis unfolding fd option.case
      by (rule says_then [OF ls_kind_says [OF ok2 c1(1) n]]) (use nx in \<open>simp add: went_def\<close>)
  qed
  have "says E files stk ((name @ [0x20, 0x20]) @ ls_kind files name @ out) ?c u
      (case con_printf E ''%s  '' [d_name ?d] ?c of None \<Rightarrow> None | Some c1 \<Rightarrow> ?rest c1)"
    by (rule says_then [OF pr]) (rule rest)
  moreover have "shell_ls E (of_nat i) c = (case con_printf E ''%s  '' [d_name ?d] ?c of None \<Rightarrow> None | Some c1 \<Rightarrow> ?rest c1)"
    by (subst shell_ls.simps) (unfold m(1), use o(3) in simp)
  moreover have "ls_line files i @ out = (name @ [0x20, 0x20]) @ ls_kind files name @ out" by (simp add: ls_line_def e)
  ultimately show ?thesis using says_after [OF w(1)] by simp
qed

lemma ls_from:
  assumes nm: "ascii_names files"
  shows "shell_ok E files stk c \<Longrightarrow> heap_inv (con_heap c) \<Longrightarrow> screen_is c u \<Longrightarrow> i \<le> Suc (length files) \<Longrightarrow>
    says E files stk (concat (map (ls_line files) [i..<Suc (length files)])) c u (shell_ls E (of_nat i) c)"
proof (induction "Suc (length files) - i" arbitrary: i c u)
  case 0
  let ?L = "fs_link E" and ?I = "fs_state E"
  have i: "i = Suc (length files)" using 0 by simp
  note ok = \<open>shell_ok E files stk c\<close>
  have o: "initrd_ok ?L ?I files (con_mem c)" "fs_root E = initrd_root ?I" "dirent ?L \<noteq> 0"
    "bytes_from (dirent ?L) 132 \<inter> static E files = {}" using ok by (simp_all add: shell_ok_def)
  have da: "bytes_from (dirent ?L) 132 \<inter> initrd_area ?L ?I files = {}" using o(4) by (auto simp: static_def)
  have ui: "unat (of_nat i :: u32) = i" using i o(1) by (intro unat_of_nat_32) (simp add: initrd_ok_def)
  have "entry_at files i = None" by (simp add: entry_at_def i)
  then have "vfs_readdir (kernel_readdir ?L ?I) (fs_root E) (of_nat i) (con_mem c) = Some (0, con_mem c)"
    using readdir_ok [OF o(1) da o(3), of "of_nat i"] o(2) by (simp add: ui)
  then have "shell_ls E (of_nat i) c = Some c"
    by (subst shell_ls.simps) (simp add: set_mem_def con_mem_def)
  then show ?case using 0 went_refl [OF ok] by (auto simp: i says_def)
next
  case (Suc k)
  have i: "i \<le> length files" using Suc.hyps(2) by simp
  have "says E files stk (ls_line files i @ concat (map (ls_line files) [Suc i..<Suc (length files)])) c u (shell_ls E (of_nat i) c)"
  proof (rule ls_turn [OF Suc.prems(1-3) nm i])
    fix c' u' assume c': "shell_ok E files stk c'" "heap_inv (con_heap c')" "screen_is c' u'"
    have "says E files stk (concat (map (ls_line files) [Suc i..<Suc (length files)])) c' u' (shell_ls E (of_nat (Suc i)) c')"
      by (rule Suc.hyps(1) [OF _ c']) (use Suc.hyps(2) i in simp_all)
    then show "says E files stk (concat (map (ls_line files) [Suc i..<Suc (length files)])) c' u' (shell_ls E (of_nat i + 1) c')"
      by (simp add: add.commute)
  qed
  moreover have "[i..<Suc (length files)] = i # [Suc i..<Suc (length files)]" using i by (simp add: upt_conv_Cons del: upt_Suc)
  ultimately show ?case by (simp del: upt_Suc)
qed

section \<open>Answering a line\<close>

definition shell_reply :: "(u8 list \<times> u8 list) list \<Rightarrow> u8 list \<Rightarrow> u8 list" where
  "shell_reply files line =
     (if line = str_ls then listing files
      else if take 4 line = str_cat then
        (case shell_contents files (drop 4 line) of
           Some content \<Rightarrow> content @ [0x0A]
         | None \<Rightarrow> ascii ''File not found: '' @ drop 4 line @ [0x0A])
      else if line = [] then []
      else ascii ''Unknown command: '' @ line @ [0x0A])"

text \<open>
  A name under which \<^verbatim>\<open>cat\<close> finds text, of at most \<open>k\<close> bytes that all have a glyph, or nothing. A byte
  from 0x80 on would index the font with a negative number, and a zero byte would end the output.
\<close>

definition text_file :: "(u8 list \<times> u8 list) list \<Rightarrow> nat \<Rightarrow> u8 list \<Rightarrow> bool" where
  "text_file files k name =
     (case shell_contents files name of
        None \<Rightarrow> True
      | Some content \<Rightarrow> length content \<le> k \<and> list_all (\<lambda>x. 0 < x \<and> x < 0x80) content)"

definition prints_text :: "(u8 list \<times> u8 list) list \<Rightarrow> nat \<Rightarrow> u8 list \<Rightarrow> bool" where
  "prints_text files k line = (take 4 line = str_cat \<longrightarrow> text_file files k (drop 4 line))"

lemma reply_print:
  assumes ok: "shell_ok E files stk c" and inv: "heap_inv (con_heap c)" and s: "screen_is c u"
    and fm: "formatted (\<lambda>_. xs) (ascii fmt) [a] = Some out" "string_args (ascii fmt) [a] = [a]" "\<forall>x \<in> set out. x < 0x80"
    and a: "cstr (con_mem c) a xs" "bytes_from a (Suc (length xs)) \<subseteq> bytes_from (cmd_buffer E) 128" "length xs \<le> 127"
  shows "says E files stk out c u (con_printf E fmt [a] c)"
proof (rule print_says(1) [OF ok inv s fm(1,3)])
  show "cstr (con_mem c) b xs \<and> bytes_from b (Suc (length xs)) \<inter> print_area E c = {} \<and> Suc (length xs) \<le> 2 ^ 32"
    if "b \<in> set (string_args (ascii fmt) [a])" for b
    using that a shell_apart(4) [OF ok inv] unfolding fm(2) by auto
qed

lemma cat_says:
  assumes ok: "shell_ok E files stk c" and s: "screen_is c u" and room: "heap_room (con_heap c) (k + 22)"
    and txt_ok: "text_file files k name"
    and name: "cstr (con_mem c) (cmd_buffer E + 4) name" "length name \<le> 123" "\<forall>x \<in> set name. x < 0x80"
  shows "says E files stk (case shell_contents files name of Some content \<Rightarrow> content @ [0x0A]
    | None \<Rightarrow> ascii ''File not found: '' @ name @ [0x0A]) c u (shell_cat E c)"
proof (cases "shell_contents files name")
  case (Some content)
  have "length content \<le> k" "\<forall>x \<in> set content. 0 < x \<and> x < 0x80"
    using txt_ok by (simp_all add: text_file_def Some list_all_iff)
  then have r: "heap_room (con_heap c) (length content + 22)" and ch: "\<forall>x \<in> set content. 0 < x \<and> x < 0x80"
    using heap_room_mono [OF room] by auto
  obtain c' u' where "shell_cat E c = Some c'" "terminal_puts (content @ [0x0A]) u = Some u'" "screen_is c' u'"
    "shell_ok E files stk c'" "heap_inv (con_heap c')" "live (con_heap c') = live (con_heap c)"
    "heap_end (con_heap c') = heap_end (con_heap c)" "kept (other_blocks stk c) (con_heap c) (con_heap c')"
    "terminal_vbe (con_term c') = terminal_vbe (con_term c)" by (rule cat_found [OF ok s r name(1) Some ch])
  then show ?thesis by (simp add: Some says_def went_def)
next
  case None
  have inv: "heap_inv (con_heap c)" by (rule heap_room_inv [OF room])
  have io: "initrd_ok (fs_link E) (fs_state E) files (con_mem c)" "fs_root E = initrd_root (fs_state E)"
    using ok by (simp_all add: shell_ok_def)
  have "name \<noteq> str_dev" "find_file files name 0 = None"
    using None by (auto simp: shell_contents_def ramdisk_contents_def split: if_splits)
  then have "vfs_finddir (kernel_finddir (fs_link E) (fs_state E)) (fs_root E) (cmd_buffer E + 4) (con_mem c) = Some 0"
    using finddir_ok [OF io(1) name(1)] io(2) by simp
  then have e: "shell_cat E c = con_printf E (''File not found: %s'' @ nl) [cmd_buffer E + 4] c" by (simp add: shell_cat_def)
  have sub: "bytes_from (cmd_buffer E + 4) (Suc (length name)) \<subseteq> bytes_from (cmd_buffer E) 128"
    using bytes_from_sub [of 4 "Suc (length name)" 128 "cmd_buffer E"] name(2) by simp
  have "says E files stk (ascii ''File not found: '' @ name @ [0x0A]) c u (shell_cat E c)"
    unfolding e by (rule reply_print [OF ok inv s _ _ _ name(1) sub]) (use name in \<open>auto simp: ascii_def nl_def\<close>)
  then show ?thesis by (simp add: None)
qed

lemma prompt_says:
  assumes ok: "shell_ok E files stk c" and inv: "heap_inv (con_heap c)" and s: "screen_is c u"
  shows "says E files stk (ascii ''> '') c u (con_printf E ''> '' [] c)"
  by (rule print_says(1) [OF ok inv s, of "\<lambda>_. []"]) (simp_all add: ascii_def)

text \<open>A line of keys the buffer can hold.\<close>

lemma command_says:
  assumes ok: "shell_ok E files stk c" and s: "screen_is c u" and room: "heap_room (con_heap c) (k + 22)"
    and files: "ascii_names files" "prints_text files k line"
    and line: "loaded (con_mem c) (cmd_buffer E) (line @ 0 # [])" "length line \<le> 127" "\<forall>x \<in> set line. 0 < x \<and> x < 0x80"
  shows "says E files stk (shell_reply files line) c u
    (case strcmp (con_mem c) (cmd_buffer E) (lit_ls E) of None \<Rightarrow> None
     | Some r \<Rightarrow> if r = 0 then shell_ls E 0 c
         else if strncmp (con_mem c) (cmd_buffer E) (lit_cat E) 4 = 0 then shell_cat E c
         else if int (length line) > 0 then con_printf E (''Unknown command: %s'' @ nl) [cmd_buffer E] c else Some c)"
proof -
  have inv: "heap_inv (con_heap c)" by (rule heap_room_inv [OF room])
  have z: "0 \<notin> set line" using line(3) by auto
  have cs: "cstr (con_mem c) (cmd_buffer E) line" by (rule loaded_cstr [OF line(1) z])
  have l: "cstr (con_mem c) (lit_ls E) str_ls" "cstr (con_mem c) (lit_cat E) str_cat" using ok by (simp_all add: shell_ok_def)
  obtain r where r: "strcmp (con_mem c) (cmd_buffer E) (lit_ls E) = Some r" "r = 0 \<longleftrightarrow> line = str_ls"
    using strcmp_cstr [OF cs l(1)] by blast
  have n: "strncmp (con_mem c) (cmd_buffer E) (lit_cat E) 4 = 0 \<longleftrightarrow> take 4 line = str_cat"
    using strncmp_loop_cstr [OF cs l(2), of 4] by (simp add: strncmp_def str_cat_def)
  consider "line = str_ls" | "line \<noteq> str_ls" "take 4 line = str_cat" | "line = []" "line \<noteq> str_ls" "take 4 line \<noteq> str_cat"
    | "line \<noteq> []" "line \<noteq> str_ls" "take 4 line \<noteq> str_cat" by blast
  then show ?thesis
  proof cases
    case 1
    have "says E files stk (listing files) c u (shell_ls E 0 c)"
      using ls_from [OF _ ok inv s, of 0] files(1) by (simp add: listing_def del: upt_Suc)
    then show ?thesis using 1 r by (simp add: shell_reply_def)
  next
    case 2
    have l4: "4 \<le> length line" using 2(2) by (auto simp: str_cat_def dest!: arg_cong [of _ _ length])
    have sp: "line @ 0 # [] = take 4 line @ drop 4 line @ 0 # []" by simp
    have "loaded (con_mem c) (cmd_buffer E + of_nat 4) (drop 4 line @ 0 # [])"
      using line(1) l4 unfolding sp loaded_append [of _ _ "take 4 line"] by (simp add: min_absorb2)
    then have nm: "cstr (con_mem c) (cmd_buffer E + 4) (drop 4 line)"
      using z by (intro loaded_cstr [of _ _ _ "[]"]) (auto dest: in_set_dropD)
    have tf: "text_file files k (drop 4 line)" using files(2) 2(2) by (simp add: prints_text_def)
    have "says E files stk (case shell_contents files (drop 4 line) of Some content \<Rightarrow> content @ [0x0A]
        | None \<Rightarrow> ascii ''File not found: '' @ drop 4 line @ [0x0A]) c u (shell_cat E c)"
      by (rule cat_says [OF ok s room tf nm]) (use line(2,3) in \<open>auto dest: in_set_dropD\<close>)
    then show ?thesis using 2 r n by (simp add: shell_reply_def)
  next
    case 3
    then show ?thesis using r n s went_refl [OF ok inv] by (simp add: shell_reply_def says_def)
  next
    case 4
    have sub: "bytes_from (cmd_buffer E) (Suc (length line)) \<subseteq> bytes_from (cmd_buffer E) 128"
      by (rule bytes_from_mono) (use line(2) in simp)
    have "says E files stk (ascii ''Unknown command: '' @ line @ [0x0A]) c u (con_printf E (''Unknown command: %s'' @ nl) [cmd_buffer E] c)"
      by (rule reply_print [OF ok inv s _ _ _ cs sub line(2)]) (use line(3) in \<open>auto simp: ascii_def nl_def\<close>)
    then show ?thesis using 4 r n by (simp add: shell_reply_def)
  qed
qed

lemma line_says:
  assumes ok: "shell_ok E files stk c" and s: "screen_is c u" and room: "heap_room (con_heap c) (k + 22)"
    and files: "ascii_names files" "prints_text files k line"
    and line: "line_is E line (i, c)" "\<forall>x \<in> set line. 0 < x \<and> x < 0x80"
  shows "says E files stk (shell_reply files line @ ascii ''> '') c u (shell_line E i c)"
proof -
  have inv: "heap_inv (con_heap c)" by (rule heap_room_inv [OF room])
  have li: "i = int (length line)" "length line \<le> 127" "loaded (con_mem c) (cmd_buffer E) line" using line(1) by (simp_all add: line_is_def)
  let ?m = "(con_mem c)(cmd_buffer E + of_int i := 0)"
  let ?c = "set_mem ?m c"
  have a: "of_int i = (of_nat (length line) :: u32)" by (simp add: li(1))
  have o: "only (bytes_from (cmd_buffer E) 128) (con_mem c) ?m"
    using bytes_fromI [of "length line" 128 "cmd_buffer E"] li(2) by (auto simp: only_def a)
  note w = line_write [OF ok inv s o]
  have "cmd_buffer E + of_nat j \<noteq> cmd_buffer E + of_nat (length line)" if "j < length line" for j
    using of_nat_apart [OF that] li(2) by simp
  then have ld: "loaded (con_mem ?c) (cmd_buffer E) (line @ 0 # [])"
    using li(3) by (auto simp: loaded_def nth_append less_Suc_eq a)
  have ok1: "shell_ok E files stk ?c" using w(1) by (simp add: went_def)
  note cmd = command_says [OF ok1 w(2) w(3) [OF room] files ld li(2) line(2)]
  show ?thesis unfolding shell_line_def Let_def
    by (rule says_after [OF w(1)], rule says_then [OF cmd [folded li(1)]]) (simp add: prompt_says went_def)
qed

end
