(* ===== verification/Shell_Session.thy ===== *)
theory Shell_Session
  imports Shell_Commands
begin

text \<open>
  From the image of the ramdisk to a shell that is set up, and the properties of the shell: line
  editing, and the answer to every line.
\<close>

section \<open>From the boot image to the shell\<close>

lemma low_bytes:
  assumes "unat a + n \<le> unat KHEAP_START"
  shows "bytes_from a n \<subseteq> {x. x < KHEAP_START}"
proof
  fix x assume "x \<in> bytes_from a n"
  then obtain i where i: "i < n" "x = a + of_nat i" using bytes_from_ex by blast
  have "unat x = unat a + i" unfolding i(2)
    using assms i(1) unat_less_32 [of KHEAP_START] by (intro unat_add_of_nat) simp
  then show "x \<in> {x. x < KHEAP_START}" using assms i(1) by (simp add: word_less_nat_alt)
qed

text \<open>What the linker provides for the shell: the two literals and the static directory entry.\<close>

definition shell_linked :: "initrd_link \<Rightarrow> u32 \<Rightarrow> (u8 list \<times> u8 list) list \<Rightarrow> u32 \<Rightarrow> u32 \<Rightarrow> mem \<Rightarrow> bool" where
  "shell_linked L location files ls cat m \<longleftrightarrow>
     cstr m ls str_ls \<and> unat ls + 3 \<le> unat KHEAP_START \<and> cstr m cat str_cat \<and> unat cat + 5 \<le> unat KHEAP_START \<and>
     dirent L \<noteq> 0 \<and> unat (dirent L) + 132 \<le> unat KHEAP_START \<and>
     bytes_from ls 3 \<inter> bytes_from location (length (mkinitrd files)) = {} \<and>
     bytes_from cat 5 \<inter> bytes_from location (length (mkinitrd files)) = {} \<and>
     bytes_from (dirent L) 132 \<inter> (bytes_from location (length (mkinitrd files)) \<union> bytes_from (lit_dev L) 4 \<union>
       bytes_from ls 3 \<union> bytes_from cat 5) = {}"

text \<open>The environment of a shell whose arrays are at the start of a block \<open>p\<close>.\<close>

definition shell_at :: "initrd_link \<Rightarrow> initrd_t \<Rightarrow> u32 \<Rightarrow> u32 \<Rightarrow> u32 \<Rightarrow> shell_env" where
  "shell_at L I ls cat p = \<lparr>cmd_buffer = p, print_buf = p + 128, lit_ls = ls, lit_cat = cat, fs_root = initrd_root I,
     fs_link = L, fs_state = I\<rparr>"

lemma literal_kept:
  assumes c: "cstr m a xs" "unat a + n \<le> unat KHEAP_START" "Suc (length xs) = n"
    and d: "bytes_from a n \<inter> S = {}" and k: "\<forall>x. x < KHEAP_START \<longrightarrow> x \<notin> S \<longrightarrow> m' x = m x"
  shows "cstr m' a xs"
proof -
  have "only (- bytes_from a n) m m'" using low_bytes [OF c(2)] d k by (auto simp: only_def)
  then show ?thesis using c(2,3) unat_less_32 [of KHEAP_START] by (intro cstr_only [OF c(1)]) (auto simp: c(3))
qed

text \<open>The file system survives what leaves its blocks and low memory alone.\<close>

lemma initrd_ok_kept:
  assumes ok: "initrd_ok L I files (hmem s)" and ld: "initrd_loaded L (initrd_header I) files m0" and k: "kept (live s) s s'"
    and nodes: "(initrd_root I, z1) \<in> live s" "(initrd_dev I, z2) \<in> live s" "(root_nodes I, z3) \<in> live s"
    and sz: "184 \<le> unat z1" "184 \<le> unat z2" "184 * length files \<le> unat z3"
    and low: "\<forall>x. x < KHEAP_START \<longrightarrow> x \<notin> D \<longrightarrow> hmem s' x = hmem s x"
    and d: "D \<inter> (bytes_from (initrd_header I) (length (mkinitrd files)) \<union> bytes_from (lit_dev L) 4) = {}"
  shows "initrd_ok L I files (hmem s')"
proof (rule initrd_ok_only [OF ok])
  have imgl: "bytes_from (initrd_header I) (length (mkinitrd files)) \<subseteq> {x. x < KHEAP_START}" "bytes_from (lit_dev L) 4 \<subseteq> {x. x < KHEAP_START}"
    by (rule low_bytes, use ld in \<open>simp add: initrd_loaded_def\<close>)+
  have b: "hmem s' a = hmem s a" if "(q, w) \<in> live s" "n \<le> unat w" "a \<in> bytes_from q n" for a q w n
    using kept_only [OF k that(1) order_refl] bytes_from_mono [OF that(2), of q] that(3) by (auto simp: only_def)
  have "hmem s' a = hmem s a" if a: "a \<in> initrd_area L I files" for a
    using a b [OF nodes(1) sz(1)] b [OF nodes(2) sz(2)] b [OF nodes(3) sz(3)] imgl low d unfolding initrd_area_def by blast
  then show "only (- initrd_area L I files) (hmem s) (hmem s')" by (simp add: only_def)
qed simp

text \<open>
  A shell whose arrays lie in a block of the heap, its stack: what the start-up has to leave behind so
  that it can answer.
\<close>

lemma shell_ok_stack:
  assumes inv: "heap_inv s" and ok: "initrd_ok L I files (hmem s)" and hd: "initrd_header I = location"
    and ld: "initrd_loaded L location files m0" and li: "shell_linked L location files ls cat m0"
    and cs: "cstr (hmem s) ls str_ls" "cstr (hmem s) cat str_cat"
    and nodes: "(initrd_root I, z1) \<in> live s" "(initrd_dev I, z2) \<in> live s" "(root_nodes I, z3) \<in> live s"
    and sz: "184 \<le> unat z1" "184 \<le> unat z2" "184 * length files \<le> unat z3"
    and stk: "(p, z) \<in> live s" "p \<notin> {initrd_root I, initrd_dev I, root_nodes I}"
    and E: "fs_link E = L" "fs_state E = I" "fs_root E = initrd_root I" "lit_ls E = ls" "lit_cat E = cat"
    and arrays: "digits_area (print_buf E) \<subseteq> bytes_from p (unat z)" "bytes_from (cmd_buffer E) 128 \<subseteq> bytes_from p (unat z)"
      "digits_area (print_buf E) \<inter> bytes_from (cmd_buffer E) 128 = {}" "unat (print_buf E) + 34 \<le> 2 ^ 32"
    and fb: "framebuffer_area (terminal_vbe t) \<inter> {x. x < heap_end s} = {}"
  shows "shell_ok E files (p, z) \<lparr>con_heap = s, con_term = t\<rparr>"
proof -
  let ?img = "bytes_from location (length (mkinitrd files))"
  note L = li [unfolded shell_linked_def]
  have imgl: "?img \<subseteq> {x. x < KHEAP_START}" "bytes_from (lit_dev L) 4 \<subseteq> {x. x < KHEAP_START}"
    by (rule low_bytes, use ld in \<open>simp add: initrd_loaded_def\<close>)+
  have lits: "bytes_from ls 3 \<subseteq> {x. x < KHEAP_START}" "bytes_from cat 5 \<subseteq> {x. x < KHEAP_START}"
    "bytes_from (dirent L) 132 \<subseteq> {x. x < KHEAP_START}" by (rule low_bytes, use L in simp)+
  have st: "static E files = (bytes_from (initrd_root I) 184 \<union> bytes_from (initrd_dev I) 184 \<union> bytes_from (root_nodes I) (184 * length files)) \<union>
      (?img \<union> bytes_from (lit_dev L) 4 \<union> bytes_from ls 3 \<union> bytes_from cat 5)"
    unfolding static_def initrd_area_def E hd by blast
  have blocks: "\<exists>q w. (q, w) \<in> live s \<and> q \<noteq> p \<and> a \<in> bytes_from q (unat w)"
    if "(q, w) \<in> live s" "n \<le> unat w" "q \<noteq> p" "a \<in> bytes_from q n" for a q w n
    using that bytes_from_mono [OF that(2), of q] by blast
  have static: "\<forall>a \<in> static E files. a < KHEAP_START \<or> (\<exists>q w. (q, w) \<in> live s \<and> q \<noteq> p \<and> a \<in> bytes_from q (unat w))"
    using blocks [OF nodes(1) sz(1)] blocks [OF nodes(2) sz(2)] blocks [OF nodes(3) sz(3)] stk(2) imgl lits unfolding st by blast
  have dl: "bytes_from (dirent L) 132 \<inter> static E files = {}"
  proof -
    have "bytes_from q n \<inter> {x. x < KHEAP_START} = {}" if "(q, w) \<in> live s" "n \<le> unat w" for q w n
      using live_above [OF inv that] by fastforce
    note b = this [OF nodes(1) sz(1)] this [OF nodes(2) sz(2)] this [OF nodes(3) sz(3)]
    show ?thesis using b lits(3) L unfolding st by blast
  qed
  show ?thesis
    unfolding shell_ok_def con_mem_def E fst_conv snd_conv console.simps
    using ok cs stk(1) arrays static fb lits(3) dl L by simp
qed

lemma shell_set_up:
  assumes ld: "initrd_loaded L location files (hmem s)" and li: "shell_linked L location files ls cat (hmem s)"
    and room: "heap_room s (184 * length files + 452 + unat sz + k)" and sz: "162 \<le> unat sz"
    and fb: "framebuffer_area (terminal_vbe t) \<inter> {x. x < heap_end s} = {}"
  obtains I s1 p s2 z where "initialise_initrd L location s = Some (initrd_root I, I, s1)" "kmalloc sz s1 = Some (p, s2)"
    "shell_ok (shell_at L I ls cat p) files (p, z) \<lparr>con_heap = s2, con_term = t\<rparr>" "heap_room s2 k"
    "live s2 = insert (p, z) (live s1)" "kept (live s1) s1 s2" "initrd_ok L I files (hmem s1)"
proof -
  let ?img = "bytes_from location (length (mkinitrd files))"
  have r: "heap_room s (184 * length files + 431 + (unat sz + 21 + k))" by (rule heap_room_mono [OF room]) simp
  obtain I s1 z1 z2 z3 where 1: "initialise_initrd L location s = Some (initrd_root I, I, s1)" "initrd_header I = location"
    "initrd_ok L I files (hmem s1)" "live s1 = live s \<union> {(initrd_root I, z1), (initrd_dev I, z2), (root_nodes I, z3)}"
    "kept (live s) s s1" "184 \<le> unat z1" "184 \<le> unat z2" "184 * length files \<le> unat z3" "heap_room s1 (unat sz + 21 + k + 1)"
    "heap_end s1 = heap_end s" "\<forall>x. x < KHEAP_START \<longrightarrow> x \<notin> ?img \<longrightarrow> hmem s1 x = hmem s x"
    by (rule initialise_more [OF ld r])
  have r1: "heap_room s1 (unat sz + 21 + k)" by (rule heap_room_mono [OF 1(9)]) simp
  obtain p z s2 where 2: "kmalloc sz s1 = Some (p, s2)" "heap_room s2 (k + 1)" "sz \<le> z" "live s2 = insert (p, z) (live s1)"
    "\<forall>w. (p, w) \<notin> live s1" "kept (live s1) s1 s2" "low_kept (hmem s1) (hmem s2)" "heap_end s2 = heap_end s1"
    by (rule kmalloc_room [OF r1]) (use sz in simp)
  let ?E = "shell_at L I ls cat p"
  have inv: "heap_inv s2" by (rule heap_room_inv [OF 2(2)])
  have z: "162 \<le> unat z" using 2(3) sz by (simp add: word_le_nat_alt)
  have pz: "(p, z) \<in> live s2" using 2(4) by simp
  note L = li [unfolded shell_linked_def]
  have n1: "(initrd_root I, z1) \<in> live s1" "(initrd_dev I, z2) \<in> live s1" "(root_nodes I, z3) \<in> live s1" using 1(4) by simp_all
  then have n2: "(initrd_root I, z1) \<in> live s2" "(initrd_dev I, z2) \<in> live s2" "(root_nodes I, z3) \<in> live s2"
    "p \<notin> {initrd_root I, initrd_dev I, root_nodes I}" using 2(4,5) by auto
  have io: "initrd_ok L I files (hmem s2)"
    by (rule initrd_ok_kept [OF 1(3) _ 2(6) n1 1(6,7,8), of _ "{}"]) (use ld 1(2) 2(7) in simp_all)
  have low: "\<forall>x. x < KHEAP_START \<longrightarrow> x \<notin> ?img \<longrightarrow> hmem s2 x = hmem s x" using 1(11) 2(7) by simp
  have cs: "cstr (hmem s2) ls str_ls" "cstr (hmem s2) cat str_cat"
    by (rule literal_kept [OF _ _ _ _ low, of _ _ 3], use L in \<open>simp_all add: str_ls_def\<close>)
       (rule literal_kept [OF _ _ _ _ low, of _ _ 5], use L in \<open>simp_all add: str_cat_def\<close>)
  have d34: "digits_area (p + 128) = bytes_from (p + 128) 34" by (simp add: digits_area_def bytes_from_def)
  have up: "unat p + unat z < 2 ^ 32" using live_range(2) [OF inv pz] unat_less_32 [of "heap_end s2"] by linarith
  have E: "fs_link ?E = L" "fs_state ?E = I" "fs_root ?E = initrd_root I" "lit_ls ?E = ls" "lit_cat ?E = cat" by (simp_all add: shell_at_def)
  have arrays: "digits_area (print_buf ?E) \<subseteq> bytes_from p (unat z)" "bytes_from (cmd_buffer ?E) 128 \<subseteq> bytes_from p (unat z)"
    "digits_area (print_buf ?E) \<inter> bytes_from (cmd_buffer ?E) 128 = {}" "unat (print_buf ?E) + 34 \<le> 2 ^ 32"
    using bytes_from_mono [of 128 "unat z" p] bytes_from_sub [of 128 34 "unat z" p] z
      sep_disjoint [OF sep_offset [of 128 34 0 128 p]] up unat_add_of_nat [of p 128] by (simp_all add: shell_at_def d34)
  have fb2: "framebuffer_area (terminal_vbe t) \<inter> {x. x < heap_end s2} = {}" using fb 1(10) 2(8) by simp
  have "shell_ok ?E files (p, z) \<lparr>con_heap = s2, con_term = t\<rparr>"
    by (rule shell_ok_stack [OF inv io 1(2) ld li cs n2(1-3) 1(6,7,8) pz n2(4) E arrays fb2])
  with 1(1) 2(1) show thesis by (rule that) (use 1(3) 2(4,6) heap_room_mono [OF 2(2), of k] in simp_all)
qed

lemma edit_set: "set (edit xs cs) \<subseteq> set xs \<union> set cs"
proof (induction cs arbitrary: xs)
  case (Cons c cs)
  let ?ys = "if c = 0x08 then butlast xs else if length xs < 127 then xs @ [c] else xs"
  have "set ?ys \<subseteq> insert c (set xs)" by (auto dest: in_set_butlastD)
  then show ?case using Cons.IH [of ?ys] by auto
qed simp

lemma shell_keys_append: "shell_keys E (xs @ ys) x = (case shell_keys E xs x of None \<Rightarrow> None | Some x \<Rightarrow> shell_keys E ys x)"
  by (induction xs arbitrary: x) (auto split: option.splits)

section \<open>Properties\<close>

text \<open>
  A line of input. The keys that were typed, with backspace removing the last character and keys
  behind the 127th ignored, are in the buffer in order, the index is their number, and only the first
  127 bytes of the buffer have been written: the terminator that the return key adds always fits.
\<close>

theorem shell_edits_line:
  assumes "0x0A \<notin> set keys"
  shows "\<exists>m. shell_keys E keys (0, c) = Some (int (length (edit [] keys)), set_mem m c) \<and> length (edit [] keys) \<le> 127 \<and>
    loaded m (cmd_buffer E) (edit [] keys) \<and> only (bytes_from (cmd_buffer E) 127) (con_mem c) m"
proof -
  have "line_is E [] (0, c)" by (simp add: line_is_def loaded_def)
  from line_keys [OF this assms] show ?thesis by (auto simp: line_is_def)
qed

section \<open>A session\<close>

lemma greeting_ok: "formatted (\<lambda>_. []) (ascii greeting) [] = Some (ascii greeting)" "\<forall>x \<in> set (ascii greeting). x < 0x80"
  "string_args (ascii greeting) [] = []"
  by code_simp+

lemma greeting_says:
  assumes ok: "shell_ok E files stk c" and inv: "heap_inv (con_heap c)" and s: "screen_is c u"
  shows "says E files stk (ascii greeting) c u (con_printf E greeting [] c)"
  by (rule print_says(1) [OF ok inv s greeting_ok(1,2)]) (simp add: greeting_ok(3))

text \<open>The answer to one line.\<close>

lemma shell_answer:
  assumes "shell_ok E files stk c" and "screen_is c u" and "heap_room (con_heap c) (k + 22)"
    and "ascii_names files" and "prints_text files k (edit [] keys)" and "\<forall>x \<in> set keys. 0 < x \<and> x < 0x80 \<and> x \<noteq> 0x0A"
  obtains c' u' where "shell_keys E (keys @ [0x0A]) (0, c) = Some (0, c')"
    "terminal_puts (shell_reply files (edit [] keys) @ ascii ''> '') u = Some u'" "screen_is c' u'" "went E files stk c c'"
proof -
  have inv: "heap_inv (con_heap c)" by (rule heap_room_inv [OF assms(3)])
  have "line_is E [] (0, c)" by (simp add: line_is_def loaded_def)
  moreover have "0x0A \<notin> set keys" using assms(6) by auto
  ultimately obtain m where m: "shell_keys E keys (0, c) = Some (int (length (edit [] keys)), set_mem m c)"
    "line_is E (edit [] keys) (int (length (edit [] keys)), set_mem m c)" "only (bytes_from (cmd_buffer E) 127) (con_mem c) m"
    using line_keys by blast
  have "only (bytes_from (cmd_buffer E) 128) (con_mem c) m" by (rule only_mono [OF m(3) bytes_from_mono]) simp
  note w = line_write [OF assms(1) inv assms(2) this]
  have ok: "shell_ok E files stk (set_mem m c)" using w(1) by (simp add: went_def)
  have ch: "\<forall>x \<in> set (edit [] keys). 0 < x \<and> x < 0x80" using edit_set [of "[]" keys] assms(6) by auto
  from line_says [OF ok w(2) w(3) [OF assms(3)] assms(4,5) m(2) ch] obtain c' u' where
    1: "shell_line E (int (length (edit [] keys))) (set_mem m c) = Some c'"
    "terminal_puts (shell_reply files (edit [] keys) @ ascii ''> '') u = Some u'" "screen_is c' u'" "went E files stk (set_mem m c) c'"
    by (auto simp: says_def)
  have "shell_keys E (keys @ [0x0A]) (0, c) = Some (0, c')" by (simp add: shell_keys_append m(1) shell_key_def 1(1))
  then show thesis using that [OF _ 1(2,3)] went_trans [OF w(1) 1(4)] by blast
qed

lemma went_room: "heap_room (con_heap c) k \<Longrightarrow> went E files stk c c' \<Longrightarrow> heap_room (con_heap c') k"
  using heap_room_live by (auto simp: went_def)

text \<open>Many lines, one after the other.\<close>

definition typed :: "u8 list list \<Rightarrow> u8 list" where
  "typed lines = concat (map (\<lambda>keys. keys @ [0x0A]) lines)"

definition answers :: "(u8 list \<times> u8 list) list \<Rightarrow> u8 list list \<Rightarrow> u8 list" where
  "answers files lines = concat (map (\<lambda>keys. shell_reply files (edit [] keys) @ ascii ''> '') lines)"

lemma shell_lines:
  assumes "shell_ok E files stk c" "screen_is c u" "heap_room (con_heap c) (k + 22)"
    and "ascii_names files" "\<forall>keys \<in> set lines. prints_text files k (edit [] keys)" "\<forall>keys \<in> set lines. \<forall>x \<in> set keys. 0 < x \<and> x < 0x80 \<and> x \<noteq> 0x0A"
  shows "\<exists>c' u'. shell_keys E (typed lines) (0, c) = Some (0, c') \<and> terminal_puts (answers files lines) u = Some u' \<and>
    screen_is c' u' \<and> went E files stk c c'"
  using assms
proof (induction lines arbitrary: c u)
  case Nil
  then show ?case using went_refl heap_room_inv by (auto simp: typed_def answers_def)
next
  case (Cons keys lines)
  have "\<forall>x \<in> set keys. 0 < x \<and> x < 0x80 \<and> x \<noteq> 0x0A" "prints_text files k (edit [] keys)" using Cons.prems(5,6) by simp_all
  then obtain c1 u1 where 1: "shell_keys E (keys @ [0x0A]) (0, c) = Some (0, c1)"
    "terminal_puts (shell_reply files (edit [] keys) @ ascii ''> '') u = Some u1" "screen_is c1 u1" "went E files stk c c1"
    using shell_answer [OF Cons.prems(1-4)] by blast
  have "shell_ok E files stk c1" using 1(4) by (simp add: went_def)
  from Cons.IH [OF this 1(3) went_room [OF Cons.prems(3) 1(4)] Cons.prems(4)] Cons.prems(5,6) obtain c' u' where
    2: "shell_keys E (typed lines) (0, c1) = Some (0, c')" "terminal_puts (answers files lines) u1 = Some u'" "screen_is c' u'" "went E files stk c1 c'"
    by auto
  have t: "typed (keys # lines) = (keys @ [0x0A]) @ typed lines"
    "answers files (keys # lines) = (shell_reply files (edit [] keys) @ ascii ''> '') @ answers files lines"
    by (simp_all add: typed_def answers_def)
  have "shell_keys E (typed (keys # lines)) (0, c) = Some (0, c')" using 1(1) 2(1) by (simp add: t shell_keys_append [of _ "keys @ [0x0A]"] del: append_assoc)
  moreover have "terminal_puts (answers files (keys # lines)) u = Some u'" using 1(2) 2(2) by (simp add: t terminal_puts_append [of "_ @ _" "answers files lines"] del: append_assoc)
  ultimately show ?case using 2(3) went_trans [OF 1(4) 2(4)] by blast
qed

text \<open>
  C37: a session with the shell. From its start the shell prints its greeting, and then, for any
  sequence of lines, the answer \<^verbatim>\<open>shell_reply\<close> to each edited line and the prompt, in order: the directory for
  \<^verbatim>\<open>ls\<close>, the contents of a file of the ramdisk for \<^verbatim>\<open>cat\<close> and its name, the messages for a missing
  file and an unknown command, nothing for the empty line. However many lines there are, every
  buffer for a file is freed, the heap keeps its room, and no block but the stack of the shell changes.
  The names of the files are ASCII, and so are the typed lines; a file that is shown with \<^verbatim>\<open>cat\<close> holds bytes from 1 to 0x7F and
  fits into the room of the heap. Other files, with whatever bytes, may be on the ramdisk and are listed.
\<close>

theorem shell_answers:
  assumes "shell_ok E files stk c" and "screen_is c u" and "heap_room (con_heap c) (k + 22)"
    and "ascii_names files" and "\<forall>keys \<in> set lines. prints_text files k (edit [] keys)"
    and "\<forall>keys \<in> set lines. \<forall>x \<in> set keys. 0 < x \<and> x < 0x80 \<and> x \<noteq> 0x0A"
  shows "\<exists>c0 c' u'. shell_start E c = Some (0, c0) \<and> shell_keys E (typed lines) (0, c0) = Some (0, c') \<and>
    terminal_puts (ascii greeting @ answers files lines) u = Some u' \<and> screen_is c' u' \<and>
    shell_ok E files stk c' \<and> heap_room (con_heap c') (k + 22) \<and> live (con_heap c') = live (con_heap c) \<and>
    kept (other_blocks stk c) (con_heap c) (con_heap c')"
proof -
  obtain c0 u0 where g: "con_printf E greeting [] c = Some c0" "terminal_puts (ascii greeting) u = Some u0" "screen_is c0 u0" "went E files stk c c0"
    using greeting_says [OF assms(1) heap_room_inv [OF assms(3)] assms(2)] by (auto simp: says_def)
  have "shell_ok E files stk c0" using g(4) by (simp add: went_def)
  from shell_lines [OF this g(3) went_room [OF assms(3) g(4)] assms(4-6)] obtain c' u' where
    1: "shell_keys E (typed lines) (0, c0) = Some (0, c')" "terminal_puts (answers files lines) u0 = Some u'" "screen_is c' u'" "went E files stk c0 c'"
    by blast
  note w = went_trans [OF g(4) 1(4)]
  have "terminal_puts (ascii greeting @ answers files lines) u = Some u'" by (simp add: terminal_puts_append g(2) 1(2))
  then show ?thesis using g(1) 1(1,3) w went_room [OF assms(3) w] by (auto simp: shell_start_def went_def)
qed

section \<open>A machine with a shell\<close>

lemma initrd_loaded_only:
  assumes "initrd_loaded L location files m" and o: "only S m m'"
    and d: "bytes_from location (length (mkinitrd files)) \<inter> S = {}" "bytes_from (lit_dev L) 4 \<inter> S = {}" "bytes_from (lit_initrd L) 7 \<inter> S = {}"
  shows "initrd_loaded L location files m'"
proof -
  note L = assms(1) [unfolded initrd_loaded_def]
  have l: "Suc (length str_dev) = 4" "Suc (length str_initrd) = 7" by (simp_all add: str_lengths)
  have "loaded m' location (mkinitrd files)"
    by (rule loaded_only [OF _ o d(1)]) (use L unat_less_32 [of KHEAP_START] in simp_all)
  moreover have "cstr m' (lit_dev L) str_dev" by (rule cstr_only [OF _ o]) (use L d(2) in \<open>simp_all add: l\<close>)
  moreover have "cstr m' (lit_initrd L) str_initrd" by (rule cstr_only [OF _ o]) (use L d(3) in \<open>simp_all add: l\<close>)
  ultimately show ?thesis using L unfolding initrd_loaded_def by blast
qed

definition demo_shell_mem :: mem where
  "demo_shell_mem = write_bytes 0xC0030020 (str_ls @ 0 # str_cat @ [0]) demo_mem"

definition demo_screen :: term_sys where
  "demo_screen = demo_term\<lparr>terminal_vbe := demo_vbe\<lparr>v_framebuffer := 0xE0000000\<rparr>\<rparr>"

lemma demo_shell_linked:
  assumes lo: "low_kept demo_shell_mem m"
  shows "initrd_loaded demo_link 0xC0040000 demo_files m" "shell_linked demo_link 0xC0040000 demo_files 0xC0030020 0xC0030023 m"
proof -
  have sl: "length (str_ls @ 0 # str_cat @ [0]) = 8" by (simp add: str_ls_def str_cat_def)
  have S: "bytes_from 0xC0030020 8 = {a. unat (a - 0xC0030020) < 8}" by (simp add: bytes_from_def)
  have "only (bytes_from 0xC0030020 8) demo_mem demo_shell_mem"
    unfolding demo_shell_mem_def using only_write_bytes [of "str_ls @ 0 # str_cat @ [0]"] sl by simp
  then have i: "initrd_loaded demo_link 0xC0040000 demo_files demo_shell_mem"
    by (rule initrd_loaded_only [OF demo_mem_loaded]) (intro sep_disjoint sep_ordered; simp add: demo_sizes demo_link_def)+
  then show "initrd_loaded demo_link 0xC0040000 demo_files m"
    using low_loaded [OF lo, of "0xC0040000" "mkinitrd demo_files"] low_cstr [OF lo, of "lit_dev demo_link" str_dev]
      low_cstr [OF lo, of "lit_initrd demo_link" str_initrd]
    unfolding initrd_loaded_def by (simp only: str_lengths) simp
  have ld: "loaded demo_shell_mem 0xC0030020 (str_ls @ 0 # str_cat @ [0])"
    unfolding demo_shell_mem_def by (rule loaded_write_bytes) (unfold sl, simp)
  have "cstr demo_shell_mem 0xC0030020 str_ls" by (rule loaded_cstr [OF ld]) (simp add: str_ls_def)
  moreover have "loaded demo_shell_mem 0xC0030023 (str_cat @ 0 # [])"
    using ld loaded_append [of demo_shell_mem "0xC0030020" "str_ls @ [0]" "str_cat @ [0]"] by (simp add: str_ls_def)
  then have "cstr demo_shell_mem 0xC0030023 str_cat" by (rule loaded_cstr) (simp add: str_cat_def)
  ultimately have "cstr m 0xC0030020 str_ls" "cstr m 0xC0030023 str_cat"
    using low_cstr [OF lo, of "0xC0030020" str_ls] low_cstr [OF lo, of "0xC0030023" str_cat]
    by (simp_all add: str_ls_def str_cat_def KHEAP_START_def)
  moreover have "bytes_from (dirent demo_link) 132 \<inter> (bytes_from 0xC0040000 (length (mkinitrd demo_files)) \<union> bytes_from (lit_dev demo_link) 4 \<union>
       bytes_from 0xC0030020 3 \<union> bytes_from 0xC0030023 5) = {}"
    unfolding Int_Un_distrib Un_empty
    by (intro conjI sep_disjoint sep_ordered; simp add: demo_sizes demo_link_def)
  moreover have "bytes_from 0xC0030020 3 \<inter> bytes_from 0xC0040000 (length (mkinitrd demo_files)) = {}"
    "bytes_from 0xC0030023 5 \<inter> bytes_from 0xC0040000 (length (mkinitrd demo_files)) = {}"
    by (intro sep_disjoint sep_ordered; simp add: demo_sizes)+
  ultimately show "shell_linked demo_link 0xC0040000 demo_files 0xC0030020 0xC0030023 m"
    unfolding shell_linked_def by (simp add: demo_link_def KHEAP_START_def)
qed

lemma demo_shell:
  obtains E stk c where "shell_ok E demo_files stk c" "screen_is c (view c)" "heap_room (con_heap c) (3 + 22)"
proof -
  obtain v s where s: "heap_ok s [(KHEAP_INITIAL_SIZE - 20, True)]" by (rule boot_heap_ok)
  let ?m = "\<lambda>x. if x < KHEAP_START then demo_shell_mem x else hmem s x"
  let ?s = "s\<lparr>hmem := ?m\<rparr>"
  have "only {x. x < KHEAP_START} (hmem s) ?m" by (simp add: only_def)
  then have ok: "heap_ok ?s ([] @ [(KHEAP_INITIAL_SIZE - 20, True)])" using heap_ok_low(1) [OF s] by simp
  have e: "184 * length demo_files + 452 + unat (4096 :: u32) + 25 \<le> unat (KHEAP_INITIAL_SIZE - 20)"
    by (simp add: KHEAP_INITIAL_SIZE_def demo_sizes)
  have room: "heap_room ?s (184 * length demo_files + 452 + unat (4096 :: u32) + 25)"
    unfolding heap_room_def by (rule exI [of _ "[]"], rule exI [of _ "KHEAP_INITIAL_SIZE - 20"], rule conjI [OF ok e])
  have lo: "low_kept demo_shell_mem (hmem ?s)" by simp
  note l = demo_shell_linked [OF lo]
  have he: "heap_end ?s = KHEAP_START + KHEAP_INITIAL_SIZE"
    using heap_ok_bounds(2) [OF s] by (simp add: KHEAP_INITIAL_SIZE_def)
  have fb: "framebuffer_area (terminal_vbe demo_screen) \<inter> {x. x < heap_end ?s} = {}"
  proof -
    have "\<not> a < heap_end ?s" if a: "a \<in> framebuffer_area (terminal_vbe demo_screen)" for a
    proof -
      have "a \<in> bytes_from 0xE0000000 2880"
        using a by (simp add: framebuffer_area_def demo_screen_def demo_vbe_def bytes_from_def)
      then obtain i where i: "i < 2880" "a = 0xE0000000 + of_nat i" using bytes_from_ex by blast
      have "unat a = unat (0xE0000000 :: u32) + i" unfolding i(2) by (rule unat_add_of_nat) (use i(1) in simp)
      then show ?thesis unfolding he by (simp add: word_less_nat_alt KHEAP_START_def KHEAP_INITIAL_SIZE_def)
    qed
    then show ?thesis by blast
  qed
  obtain I p s2 z where "shell_ok (shell_at demo_link I 0xC0030020 0xC0030023 p) demo_files (p, z) \<lparr>con_heap = s2, con_term = demo_screen\<rparr>"
    "heap_room s2 25" by (rule shell_set_up [OF l room _ fb]) (simp, blast)
  moreover have "term_ok demo_screen"
    by (simp add: term_ok_def vbe_ok_def demo_screen_def demo_term_def demo_vbe_def)
  ultimately show thesis
    by (intro that [of "shell_at demo_link I 0xC0030020 0xC0030023 p" "(p, z)" "\<lparr>con_heap = s2, con_term = demo_screen\<rparr>"])
       (simp_all add: screen_is_def same_screen_def view_def)
qed

theorem shell_edits_line_witness:
  "edit [] [0x61, 0x08, 0x62, 0x63] = [0x62, 0x63] \<and>
   (\<exists>E c m. shell_keys E [0x61, 0x08, 0x62, 0x63] (0, c) = Some (2, set_mem m c) \<and> loaded m (cmd_buffer E) [0x62, 0x63])"
  using shell_edits_line [of "[0x61, 0x08, 0x62, 0x63]" undefined undefined] by (auto simp del: shell_keys.simps)

text \<open>The greeting, and then the line \<^verbatim>\<open>cat hx\<close>, a backspace, \<^verbatim>\<open>i\<close> and return, which shows the file \<^verbatim>\<open>yes\<close>.\<close>

theorem shell_answers_witness:
  "\<exists>E c c0 c' u'. shell_start E c = Some (0, c0) \<and>
     shell_keys E [0x63, 0x61, 0x74, 0x20, 0x68, 0x78, 0x08, 0x69, 0x0A] (0, c0) = Some (0, c') \<and>
     terminal_puts (ascii greeting @ [0x79, 0x65, 0x73, 0x0A, 0x3E, 0x20]) (view c) = Some u' \<and> screen_is c' u'"
proof -
  obtain E stk c where c: "shell_ok E demo_files stk c" "screen_is c (view c)" "heap_room (con_heap c) (3 + 22)"
    by (rule demo_shell)
  let ?keys = "[0x63, 0x61, 0x74, 0x20, 0x68, 0x78, 0x08, 0x69] :: u8 list"
  have r: "answers demo_files [?keys] = [0x79, 0x65, 0x73, 0x0A, 0x3E, 0x20]" by code_simp
  have t: "typed [?keys] = [0x63, 0x61, 0x74, 0x20, 0x68, 0x78, 0x08, 0x69, 0x0A]" by (simp add: typed_def)
  have "ascii_names demo_files" by (simp add: ascii_names_def demo_files_def)
  moreover have "\<forall>keys \<in> set [?keys]. prints_text demo_files 3 (edit [] keys)" by code_simp
  moreover have "\<forall>keys \<in> set [?keys]. \<forall>x \<in> set keys. 0 < x \<and> x < 0x80 \<and> x \<noteq> 0x0A" by simp
  ultimately show ?thesis using shell_answers [OF c, of "[?keys]"] unfolding r t by blast
qed

end
