(* ===== verification/Bounded_Buffer.thy ===== *)
theory Bounded_Buffer
  imports Shell_Session
begin

text \<open>
  The producer and the consumer of \<^verbatim>\<open>main.c\<close>, two tasks that share a buffer of five entries under a
  monitor. Both have the shape of the same loop: sleep, enter the monitor, wait while the buffer
  does not allow the turn, three assignments, print, notify, leave. The machine interleaves them with
  the timer interrupt and all other tasks; \<open>place\<close> is where a task is in its loop. The places between
  entering and leaving are the ones that hold the monitor.
\<close>

section \<open>Code\<close>

definition BUFFER_SIZE :: nat where "BUFFER_SIZE = 5"
definition COND_NOT_EMPTY :: u32 where "COND_NOT_EMPTY = 0"
definition COND_NOT_FULL :: u32 where "COND_NOT_FULL = 1"

text \<open>The shared variables, the local variables of the two tasks, and the screen.\<close>

record buffer_vars =
  buffer :: "u32 list"
  count :: int
  head :: int
  tail :: int
  produce_item :: u32
  consume_item :: u32
  console_screen :: term_sys

datatype role = Producer | Consumer

definition sleep_ms :: "role \<Rightarrow> u32" where
  "sleep_ms R = (case R of Producer \<Rightarrow> 300 | Consumer \<Rightarrow> 800)"

definition must_wait :: "role \<Rightarrow> buffer_vars \<Rightarrow> bool" where
  "must_wait R b = (case R of Producer \<Rightarrow> count b = int BUFFER_SIZE | Consumer \<Rightarrow> count b = 0)"

definition complaint :: "role \<Rightarrow> string" where
  "complaint R = (case R of Producer \<Rightarrow> ''[P: buffer full, waiting...]'' | Consumer \<Rightarrow> ''[C: buffer empty, waiting...]'')"

definition waits_on :: "role \<Rightarrow> u32" where
  "waits_on R = (case R of Producer \<Rightarrow> COND_NOT_FULL | Consumer \<Rightarrow> COND_NOT_EMPTY)"

definition notifies :: "role \<Rightarrow> u32" where
  "notifies R = (case R of Producer \<Rightarrow> COND_NOT_EMPTY | Consumer \<Rightarrow> COND_NOT_FULL)"

text \<open>The three assignments, in their order.\<close>

definition turn :: "role \<Rightarrow> (buffer_vars \<Rightarrow> buffer_vars) list" where
  "turn R = (case R of
     Producer \<Rightarrow>
       [\<lambda>b. b\<lparr>buffer := (buffer b)[nat (tail b) := produce_item b], produce_item := produce_item b + 1\<rparr>,
        \<lambda>b. b\<lparr>tail := (tail b + 1) mod int BUFFER_SIZE\<rparr>,
        \<lambda>b. b\<lparr>count := count b + 1\<rparr>]
   | Consumer \<Rightarrow>
       [\<lambda>b. b\<lparr>consume_item := buffer b ! nat (head b)\<rparr>,
        \<lambda>b. b\<lparr>head := (head b + 1) mod int BUFFER_SIZE\<rparr>,
        \<lambda>b. b\<lparr>count := count b - 1\<rparr>])"

definition report :: "role \<Rightarrow> buffer_vars \<Rightarrow> string \<times> u32 list" where
  "report R b = (case R of
     Producer \<Rightarrow> (''[P: produced, count %d]'', [of_int (count b)])
   | Consumer \<Rightarrow> (''[C: consumed %d, count %d]'', [consume_item b, of_int (count b)]))"

definition vars_print :: "u32 \<Rightarrow> string \<times> u32 list \<Rightarrow> buffer_vars \<Rightarrow> buffer_vars option" where
  "vars_print digits x b = map_option (\<lambda>t. b\<lparr>console_screen := t\<rparr>) (printf_lit digits (ascii (fst x)) (snd x) (console_screen b))"

section \<open>The interleaving\<close>

datatype place = Asleep | Entering | Testing | Refused | Waits | Waiting | Turn nat | Notifying | Leaving

record buffer_env =
  idle_task :: u32
  buffer_monitor :: u32
  task_of :: "role \<Rightarrow> u32"
  digits_of :: "role \<Rightarrow> u32"

definition lock_of :: "buffer_env \<Rightarrow> u32" where "lock_of E = monitor_lock (buffer_monitor E)"
definition cond_of :: "buffer_env \<Rightarrow> role \<Rightarrow> u32" where "cond_of E R = monitor_cond (buffer_monitor E) (waits_on R)"

text \<open>What has been put and what has been taken so far: the first assignment of a turn puts or takes.\<close>

definition logged :: "role \<Rightarrow> nat \<Rightarrow> buffer_vars \<Rightarrow> u32 list \<times> u32 list \<Rightarrow> u32 list \<times> u32 list" where
  "logged R i b io = (if i = 0 then (case R of Producer \<Rightarrow> (fst io @ [produce_item b], snd io)
     | Consumer \<Rightarrow> (fst io, snd io @ [buffer b ! nat (head b)])) else io)"

type_synonym buffer_conf = "sync_conf \<times> (role \<Rightarrow> place) \<times> buffer_vars \<times> (u32 list \<times> u32 list)"

text \<open>The other tasks do what tasks do, but leave the monitor and its condition variables alone.\<close>

definition apart :: "buffer_env \<Rightarrow> sync_conf \<Rightarrow> sync_conf \<Rightarrow> bool" where
  "apart E = (\<lambda>(s, pc, H) (s', pc', H').
     running_task s \<notin> range (task_of E) \<and> (\<forall>q. (q, lock_of E) \<in> H' \<longleftrightarrow> (q, lock_of E) \<in> H) \<and>
     (\<forall>R. c_waiters (conds s' (cond_of E R)) = c_waiters (conds s (cond_of E R)) \<and>
       wait_next (tcb s' (task_of E R)) = wait_next (tcb s (task_of E R))))"

inductive buffer_step :: "buffer_env \<Rightarrow> buffer_conf \<Rightarrow> buffer_conf \<Rightarrow> bool" for E where
  sleeps: "\<lbrakk>r = running_task s; r = task_of E R; r \<noteq> idle_task E; pc r = User; at R = Asleep; sleep Some (sleep_ms R) s = Some s1\<rbrakk>
    \<Longrightarrow> buffer_step E ((s, pc, H), at, b, io) ((s1, pc(r := Snoozing), H), at(R := Entering), b, io)"
| enters: "\<lbrakk>r = running_task s; r = task_of E R; r \<noteq> idle_task E; at R = Entering \<and> pc r = User \<or> (at R = Entering \<or> at R = Waiting) \<and> pc r = Wants l;
      l = lock_of E; locked (mutexes s l) = 0\<rbrakk>
    \<Longrightarrow> buffer_step E ((s, pc, H), at, b, io) ((mutex_take l r (cli s), pc(r := User), insert (r, l) H), at(R := Testing), b, io)"
| blocks: "\<lbrakk>r = running_task s; r = task_of E R; r \<noteq> idle_task E; at R = Entering \<and> pc r = User \<or> (at R = Entering \<or> at R = Waiting) \<and> pc r = Wants l;
      l = lock_of E; locked (mutexes s l) \<noteq> 0; mutex_wait l r (cli s) = Some s1; timer_interrupt e s1 = Some (x, s2)\<rbrakk>
    \<Longrightarrow> buffer_step E ((s, pc, H), at, b, io) ((s2, pc(r := Wants l), H), at, b, io)"
| refuses: "\<lbrakk>running_task s = task_of E R; pc (running_task s) = User; at R = Testing; must_wait R b\<rbrakk>
    \<Longrightarrow> buffer_step E ((s, pc, H), at, b, io) ((s, pc, H), at(R := Refused), b, io)"
| complains: "\<lbrakk>running_task s = task_of E R; pc (running_task s) = User; at R = Refused; vars_print (digits_of E R) (complaint R, []) b = Some b1\<rbrakk>
    \<Longrightarrow> buffer_step E ((s, pc, H), at, b, io) ((s, pc, H), at(R := Waits), b1, io)"
| waits: "\<lbrakk>r = running_task s; r = task_of E R; r \<noteq> idle_task E; pc r = User; at R = Waits;
      cond_idx_ok (waits_on R); cond_wait_enter (cond_of E R) (lock_of E) s = Some s1\<rbrakk>
    \<Longrightarrow> buffer_step E ((s, pc, H), at, b, io) ((s1, pc(r := Yielding (lock_of E)), H - {(r, lock_of E)}), at(R := Waiting), b, io)"
| passes: "\<lbrakk>running_task s = task_of E R; pc (running_task s) = User; at R = Testing; \<not> must_wait R b\<rbrakk>
    \<Longrightarrow> buffer_step E ((s, pc, H), at, b, io) ((s, pc, H), at(R := Turn 0), b, io)"
| assigns: "\<lbrakk>running_task s = task_of E R; pc (running_task s) = User; at R = Turn i; i < length (turn R)\<rbrakk>
    \<Longrightarrow> buffer_step E ((s, pc, H), at, b, io) ((s, pc, H), at(R := Turn (Suc i)), (turn R ! i) b, logged R i b io)"
| prints: "\<lbrakk>running_task s = task_of E R; pc (running_task s) = User; at R = Turn (length (turn R)); vars_print (digits_of E R) (report R b) b = Some b1\<rbrakk>
    \<Longrightarrow> buffer_step E ((s, pc, H), at, b, io) ((s, pc, H), at(R := Notifying), b1, io)"
| signals: "\<lbrakk>running_task s = task_of E R; pc (running_task s) = User; at R = Notifying\<rbrakk>
    \<Longrightarrow> buffer_step E ((s, pc, H), at, b, io) ((monitor_notify (buffer_monitor E) (notifies R) s, pc, H), at(R := Leaving), b, io)"
| leaves: "\<lbrakk>r = running_task s; r = task_of E R; pc r = User; at R = Leaving\<rbrakk>
    \<Longrightarrow> buffer_step E ((s, pc, H), at, b, io) ((monitor_exit (buffer_monitor E) s, pc, H - {(r, lock_of E)}), at(R := Asleep), b, io)"
| switches: "\<lbrakk>timer_interrupt e s = Some (x, s1); r = running_task s;
      pc' = pc \<or> pc r = Snoozing \<and> pc' = pc(r := User) \<or> (\<exists>m. pc r = Yielding m \<and> pc' = pc(r := Wants m))\<rbrakk>
    \<Longrightarrow> buffer_step E ((s, pc, H), at, b, io) ((s1, pc', H), at, b, io)"
| others: "\<lbrakk>sync_step (idle_task E) S S'; apart E S S'\<rbrakk> \<Longrightarrow> buffer_step E (S, at, b, io) (S', at, b, io)"

definition buffer_start :: "buffer_env \<Rightarrow> u32 list \<Rightarrow> buffer_conf \<Rightarrow> bool" where
  "buffer_start E ts = (\<lambda>(S, at, b, io). sync_start (idle_task E) ts S \<and> range (task_of E) \<subseteq> set ts \<and>
     task_of E Producer \<noteq> task_of E Consumer \<and> idle_task E \<notin> range (task_of E) \<and> (\<forall>R. at R = Asleep) \<and>
     length (buffer b) = BUFFER_SIZE \<and> count b = 0 \<and> head b = 0 \<and> tail b = 0 \<and> produce_item b = 100 \<and> io = ([], []))"

section \<open>Steps of the tasks machine\<close>

lemma cond_idx [simp]: "cond_idx_ok (waits_on R)" "cond_idx_ok (notifies R)"
  by (cases R; simp add: waits_on_def notifies_def COND_NOT_EMPTY_def COND_NOT_FULL_def cond_idx_ok_def MAX_MONITOR_CONDS_def)+

definition other :: "role \<Rightarrow> role" where
  "other R = (case R of Producer \<Rightarrow> Consumer | Consumer \<Rightarrow> Producer)"

lemma other_simps [simp]: "other Producer = Consumer" "other Consumer = Producer" "notifies R = waits_on (other R)"
  by (cases R; simp add: other_def notifies_def waits_on_def)+

lemma monitor_simps: "monitor_exit (buffer_monitor E) s = mutex_unlock (lock_of E) s"
    "monitor_notify (buffer_monitor E) (notifies R) s = cond_signal (cond_of E (other R)) s"
  by (simp_all add: monitor_exit_def monitor_notify_def lock_of_def cond_of_def del: other_simps(3)) 
     (simp add: cond_of_def)

definition inside :: "place \<Rightarrow> bool" where
  "inside a \<longleftrightarrow> a \<noteq> Asleep \<and> a \<noteq> Entering \<and> a \<noteq> Waiting"

lemma inside_simps [simp]: "\<not> inside Asleep" "\<not> inside Entering" "\<not> inside Waiting" "inside Testing" "inside Refused"
  "inside Waits" "inside (Turn i)" "inside Notifying" "inside Leaving"
  by (simp_all add: inside_def)

section \<open>The variables\<close>

text \<open>
  The invariant of the variables: the buffer is a ring that holds what has been put and not taken. In
  the middle of a turn the position and the count still have to be moved.
\<close>

definition moved :: "role \<Rightarrow> place \<Rightarrow> int" where
  "moved R a = (if a = Turn 1 then 1 else 0)"

definition counted :: "place \<Rightarrow> int" where
  "counted a = (if a = Turn 1 \<or> a = Turn 2 then 1 else 0)"

definition data_inv :: "(role \<Rightarrow> place) \<Rightarrow> buffer_vars \<Rightarrow> u32 list \<times> u32 list \<Rightarrow> u32 list \<Rightarrow> bool" where
  "data_inv at b io xs \<longleftrightarrow> fst io = snd io @ xs \<and>
     ring BUFFER_SIZE (buffer b)
       (if at Consumer = Turn 1 then (head b + 1) mod int BUFFER_SIZE else head b)
       (if at Producer = Turn 1 then (tail b + 1) mod int BUFFER_SIZE else tail b)
       (count b + counted (at Producer) - counted (at Consumer)) xs \<and>
     fst io = map (\<lambda>k. of_nat (100 + k)) [0..<length (fst io)] \<and> produce_item b = of_nat (100 + length (fst io))"

definition places_inv :: "(role \<Rightarrow> place) \<Rightarrow> buffer_vars \<Rightarrow> bool" where
  "places_inv at b \<longleftrightarrow> (\<forall>R. (at R = Refused \<or> at R = Waits \<longrightarrow> must_wait R b) \<and> (at R = Turn 0 \<longrightarrow> \<not> must_wait R b)) \<and>
     \<not> (inside (at Producer) \<and> inside (at Consumer))"

definition in_turn :: "place \<Rightarrow> bool" where "in_turn a \<longleftrightarrow> a = Turn 1 \<or> a = Turn 2"

lemma data_at:
  "\<lbrakk>data_inv at b io xs; \<not> in_turn (at R); \<not> in_turn p; buffer b' = buffer b; count b' = count b; head b' = head b; tail b' = tail b;
    produce_item b' = produce_item b\<rbrakk> \<Longrightarrow> data_inv (at(R := p)) b' io xs"
  by (cases R) (auto simp: data_inv_def in_turn_def counted_def)

lemma others_out: "places_inv at b \<Longrightarrow> inside (at R) \<Longrightarrow> \<not> inside (at (other R))"
  by (cases R) (auto simp: places_inv_def)

lemma not_in_turn: "\<not> inside a \<Longrightarrow> \<not> in_turn a" "\<not> inside a \<Longrightarrow> counted a = 0"
  by (auto simp: in_turn_def counted_def)

lemma turn_length [simp]: "length (turn R) = 3"
  by (cases R) (simp_all add: turn_def)

lemma turn_step:
  assumes d: "data_inv at b io xs" and p: "places_inv at b" and at: "at R = Turn i" "i < 3"
  shows "\<exists>ys. data_inv (at(R := Turn (Suc i))) ((turn R ! i) b) (logged R i b io) ys"
proof -
  have o: "\<not> inside (at (other R))" using others_out [OF p, of R] at(1) by simp
  note n = not_in_turn [OF o]
  consider "i = 0" | "i = 1" | "i = 2" using at(2) by linarith
  then show ?thesis
  proof cases
    case 1
    have w: "\<not> must_wait R b" using p at(1) 1 by (auto simp: places_inv_def)
    show ?thesis
    proof (cases R)
      case Producer
      have r: "ring BUFFER_SIZE (buffer b) (head b) (tail b) (count b) xs"
        using d at(1) n 1 by (auto simp: data_inv_def counted_def in_turn_def Producer)
      have "length xs \<le> BUFFER_SIZE" "count b = int (length xs)" using r by (auto simp: ring_def)
      then have "count b < int BUFFER_SIZE" using w by (auto simp: must_wait_def Producer)
      from ring_put [OF r this, of "produce_item b"] d n 1
      show ?thesis by (intro exI [of _ "xs @ [produce_item b]"]) (auto simp: data_inv_def counted_def in_turn_def Producer turn_def logged_def)
    next
      case Consumer
      have r: "ring BUFFER_SIZE (buffer b) (head b) (tail b) (count b) xs"
        using d at(1) n 1 by (auto simp: data_inv_def counted_def in_turn_def Consumer)
      then have "xs \<noteq> []" using w by (auto simp: must_wait_def Consumer ring_def)
      then obtain y ys where xs: "xs = y # ys" by (cases xs) auto
      note g = ring_get [OF r [unfolded xs]]
      show ?thesis using d n 1 g
        by (intro exI [of _ ys]) (auto simp: data_inv_def counted_def in_turn_def Consumer turn_def logged_def xs)
    qed
  next
    case 2
    then show ?thesis using d at(1) n
      by (intro exI [of _ xs], cases R) (auto simp: data_inv_def counted_def in_turn_def turn_def logged_def)
  next
    case 3
    then show ?thesis using d at(1) n
      by (intro exI [of _ xs], cases R) (auto simp: data_inv_def counted_def in_turn_def turn_def logged_def numeral_2_eq_2 numeral_3_eq_3)
  qed
qed

section \<open>The invariant of the machine\<close>

definition holds_monitor :: "buffer_env \<Rightarrow> (u32 \<times> u32) set \<Rightarrow> (role \<Rightarrow> place) \<Rightarrow> bool" where
  "holds_monitor E H at \<longleftrightarrow> (\<forall>q. (q, lock_of E) \<in> H \<longleftrightarrow> (\<exists>R. q = task_of E R \<and> inside (at R)))"

text \<open>A task waits for the other one only while it has to, or the other one is about to wake it.\<close>

definition will_notify :: "place \<Rightarrow> bool" where "will_notify a \<longleftrightarrow> a = Turn 3 \<or> a = Notifying"

definition conds_inv :: "buffer_env \<Rightarrow> (wait_obj \<Rightarrow> u32 list) \<Rightarrow> (role \<Rightarrow> place) \<Rightarrow> buffer_vars \<Rightarrow> bool" where
  "conds_inv E Q at b \<longleftrightarrow> (\<forall>R. set (Q (Cond (cond_of E R))) \<subseteq> {task_of E R} \<and>
     (Q (Cond (cond_of E R)) \<noteq> [] \<longrightarrow> at R = Waiting \<and> (must_wait R b \<or> will_notify (at (other R)))))"

definition buffer_inv :: "buffer_env \<Rightarrow> u32 list \<Rightarrow> buffer_conf \<Rightarrow> bool" where
  "buffer_inv E ts = (\<lambda>((s, pc, H), at, b, io). inj (task_of E) \<and> (\<exists>Q W. sync_inv (idle_task E) ts Q W (s, pc, H) \<and> conds_inv E Q at b) \<and>
     holds_monitor E H at \<and> (\<exists>xs. data_inv at b io xs) \<and> places_inv at b)"

lemma other_role [simp]: "other R \<noteq> R" "R \<noteq> other R" "other (other R) = R"
  by (cases R; simp)+

lemma not_role: "R' \<noteq> R \<Longrightarrow> R' = other R"
  by (cases R; cases R'; simp)

lemma cond_apart [simp]: "cond_of E (other R) \<noteq> cond_of E R" "cond_of E R \<noteq> cond_of E (other R)"
  by (cases R; simp add: cond_of_def monitor_cond_def waits_on_def COND_NOT_EMPTY_def COND_NOT_FULL_def)+

lemma exclusion:
  assumes "sync_inv idle ts Q W (s, pc, H)" "holds_monitor E H at" "inj (task_of E)"
  shows "\<not> (inside (at Producer) \<and> inside (at Consumer))"
proof
  assume "inside (at Producer) \<and> inside (at Consumer)"
  then have "(task_of E Producer, lock_of E) \<in> H" "(task_of E Consumer, lock_of E) \<in> H" using assms(2) by (auto simp: holds_monitor_def)
  moreover have "(p, m) \<in> H \<longleftrightarrow> holder s m = Some p" for p m
    using assms(1) by (simp add: sync_inv_def control_def control0_def mutexes_inv_def)
  ultimately have "task_of E Producer = task_of E Consumer" by simp
  then show False using assms(3) by (auto dest: injD)
qed

text \<open>A running task waits for nothing.\<close>

lemma run_free:
  assumes "sync_inv idle ts Q W (s, pc, H)" "conds_inv E Q at b" "running_task s = task_of E R" "in_code (pc (running_task s))"
  shows "Q (Cond (cond_of E R)) = []"
proof -
  have "control idle ts W (states s) (running_task s) (holder s) pc H" using assms(1) by (simp add: sync_inv_def)
  then have "W (task_of E R) = None" using control_parts(5) assms(3,4) by metis
  moreover have "queued s Q W" using assms(1) by (simp add: sync_inv_def)
  ultimately have "task_of E R \<notin> set (Q (Cond (cond_of E R)))" by (simp add: queued_def)
  then show ?thesis using assms(2) unfolding conds_inv_def by (metis insert_iff list.set_intros(1) neq_Nil_conv singletonD subsetD empty_iff)
qed

lemma cond_queue_same:
  assumes "sync_inv idle ts Q W (s, pc, H)" "sync_inv idle ts Q' W' (s', pc', H')" "wait_head s' (Cond c) = wait_head s (Cond c)"
    and "\<And>q. q \<in> set (Q (Cond c)) \<Longrightarrow> wait_next (tcb s' q) = wait_next (tcb s q)"
  shows "Q' (Cond c) = Q (Cond c)"
proof -
  have "waiting (wait_head s (Cond c), tcb s) (Q (Cond c))" "waiting (wait_head s' (Cond c), tcb s') (Q' (Cond c))"
    using assms(1,2) by (simp_all add: sync_inv_def queued_def)
  then have "waiting (wait_head s' (Cond c), tcb s') (Q (Cond c))" "waiting (wait_head s' (Cond c), tcb s') (Q' (Cond c))"
    using waiting_cong [of "Q (Cond c)" "tcb s'" "tcb s"] assms(3,4) by simp_all
  then show ?thesis unfolding waiting_def using chain_unique by blast
qed

lemma conds_same: "conds_inv E Q at b \<Longrightarrow> (\<And>R. Q' (Cond (cond_of E R)) = Q (Cond (cond_of E R))) \<Longrightarrow> conds_inv E Q' at b"
  by (simp add: conds_inv_def)

lemma conds_two:
  assumes "set (Q (Cond (cond_of E R))) \<subseteq> {task_of E R}"
    and "Q (Cond (cond_of E R)) \<noteq> [] \<Longrightarrow> at R = Waiting \<and> (must_wait R b \<or> will_notify (at (other R)))"
    and "set (Q (Cond (cond_of E (other R)))) \<subseteq> {task_of E (other R)}"
    and "Q (Cond (cond_of E (other R))) \<noteq> [] \<Longrightarrow> at (other R) = Waiting \<and> (must_wait (other R) b \<or> will_notify (at R))"
  shows "conds_inv E Q at b"
  unfolding conds_inv_def
proof
  fix R'
  show "set (Q (Cond (cond_of E R'))) \<subseteq> {task_of E R'} \<and>
      (Q (Cond (cond_of E R')) \<noteq> [] \<longrightarrow> at R' = Waiting \<and> (must_wait R' b \<or> will_notify (at (other R'))))"
  proof (cases "R' = R")
    case False
    then have "R' = other R" by (rule not_role)
    then show ?thesis using assms(3,4) by simp
  qed (use assms(1,2) in simp)
qed

lemma conds_at:
  assumes "conds_inv E Q at b" "Q (Cond (cond_of E R)) = []" "will_notify (at R) \<Longrightarrow> will_notify p"
    "must_wait (other R) b \<Longrightarrow> must_wait (other R) b' \<or> will_notify p"
  shows "conds_inv E Q (at(R := p)) b'"
  by (rule conds_two [of _ _ R]) (use assms in \<open>auto simp: conds_inv_def\<close>)

lemma places_at:
  assumes "\<not> inside (at (other R))" "p = Refused \<or> p = Waits \<longrightarrow> must_wait R b" "p = Turn 0 \<longrightarrow> \<not> must_wait R b"
    and "\<not> (inside ((at(R := p)) Producer) \<and> inside ((at(R := p)) Consumer))"
  shows "places_inv (at(R := p)) b"
proof -
  have "((at(R := p)) R' = Refused \<or> (at(R := p)) R' = Waits \<longrightarrow> must_wait R' b) \<and> ((at(R := p)) R' = Turn 0 \<longrightarrow> \<not> must_wait R' b)" for R'
  proof (cases "R' = R")
    case False
    then have "R' = other R" by (rule not_role)
    then show ?thesis using assms(1) by (auto simp: inside_def)
  qed (use assms(2,3) in auto)
  then show ?thesis using assms(4) unfolding places_inv_def by blast
qed

text \<open>A step inside the monitor that leaves the tasks alone.\<close>

lemma inside_step:
  assumes i: "buffer_inv E ts ((s, pc, H), at, b, io)" and r: "running_task s = task_of E R" "pc (running_task s) = User"
    and p: "inside (at R)" "inside p" "will_notify (at R) \<Longrightarrow> will_notify p"
    and w: "must_wait (other R) b \<Longrightarrow> must_wait (other R) b' \<or> will_notify p"
    and d: "\<And>xs. data_inv at b io xs \<Longrightarrow> places_inv at b \<Longrightarrow> \<exists>ys. data_inv (at(R := p)) b' io' ys"
    and pl: "p = Refused \<or> p = Waits \<longrightarrow> must_wait R b'" "p = Turn 0 \<longrightarrow> \<not> must_wait R b'"
  shows "buffer_inv E ts ((s, pc, H), at(R := p), b', io')"
proof -
  obtain Q W xs where I: "inj (task_of E)" "sync_inv (idle_task E) ts Q W (s, pc, H)" "conds_inv E Q at b" "holds_monitor E H at"
    "data_inv at b io xs" "places_inv at b" using i by (auto simp: buffer_inv_def)
  have f: "Q (Cond (cond_of E R)) = []" by (rule run_free [OF I(2,3) r(1)]) (simp add: r(2) in_code_def)
  have h: "holds_monitor E H (at(R := p))" using I(4) p(1,2) by (auto simp: holds_monitor_def)
  have "\<not> inside (at (other R))" by (rule others_out [OF I(6) p(1)])
  then have "places_inv (at(R := p)) b'"
    using pl exclusion [OF I(2) h I(1)] by (intro places_at) simp_all
  then show ?thesis using I(1,2) conds_at [OF I(3) f p(3) w] h d [OF I(5,6)] by (auto simp: buffer_inv_def)
qed

text \<open>A step that only takes, waits for or gives back the monitor, or sleeps.\<close>

lemma outside_step:
  assumes i: "sync_inv (idle_task E) ts Q W (s, pc, H)" "holds_monitor E H at" "inj (task_of E)"
    and c: "conds_inv E Q at b" and d: "data_inv at0 b io xs" "places_inv at0 b" and a: "at = at0(R := p)"
    and p: "\<not> in_turn (at0 R)" "p \<noteq> Refused" "p \<noteq> Waits" "p \<noteq> Turn 0" "\<not> in_turn p"
  shows "buffer_inv E ts ((s, pc, H), at, b, io)"
proof -
  have "data_inv at b io xs" unfolding a by (rule data_at [OF d(1) p(1,5)]) simp_all
  moreover have "places_inv at b"
    using d(2) exclusion [OF i(1-3)] p unfolding places_inv_def a by (simp split: if_splits)
  ultimately show ?thesis using i c by (auto simp: buffer_inv_def)
qed

lemma outside_places: "\<not> inside a \<Longrightarrow> \<not> in_turn a \<and> \<not> will_notify a"
  by (auto simp: in_turn_def will_notify_def)

lemma holds_at: "holds_monitor E H at \<Longrightarrow> inside p = inside (at R) \<Longrightarrow> holds_monitor E H (at(R := p))"
  by (auto simp: holds_monitor_def)

lemma holds_in: "holds_monitor E H at \<Longrightarrow> inside (at R) \<Longrightarrow> (task_of E R, lock_of E) \<in> H"
  by (auto simp: holds_monitor_def)

lemma holds_insert: "holds_monitor E H at \<Longrightarrow> inside p \<Longrightarrow> holds_monitor E (insert (task_of E R, lock_of E) H) (at(R := p))"
  by (auto simp: holds_monitor_def)

lemma holds_remove:
  "holds_monitor E H at \<Longrightarrow> inj (task_of E) \<Longrightarrow> \<not> inside p \<Longrightarrow> holds_monitor E (H - {(task_of E R, lock_of E)}) (at(R := p))"
  by (auto simp: holds_monitor_def dest: injD)

lemma print_vars:
  assumes "vars_print dg x b = Some b'"
  shows "buffer b' = buffer b" "count b' = count b" "head b' = head b" "tail b' = tail b" "produce_item b' = produce_item b"
    "must_wait R b' = must_wait R b"
  using assms by (auto simp: vars_print_def must_wait_def split: role.splits)

lemma turn_count: "i < 3 \<Longrightarrow> i \<noteq> 2 \<Longrightarrow> must_wait R' ((turn R ! i) b) = must_wait R' b"
  by (cases R; cases R'; auto simp: less_Suc_eq numeral_3_eq_3 numeral_2_eq_2 turn_def must_wait_def)

lemma inside_case:
  assumes i: "buffer_inv E ts ((s, pc, H), at, b, io)" and r: "running_task s = task_of E R" "pc (running_task s) = User"
  shows "at R = Testing \<Longrightarrow> must_wait R b \<Longrightarrow> buffer_inv E ts ((s, pc, H), at(R := Refused), b, io)"
    and "at R = Testing \<Longrightarrow> \<not> must_wait R b \<Longrightarrow> buffer_inv E ts ((s, pc, H), at(R := Turn 0), b, io)"
    and "at R = Refused \<Longrightarrow> vars_print dg x b = Some b' \<Longrightarrow> buffer_inv E ts ((s, pc, H), at(R := Waits), b', io)"
    and "at R = Turn k \<Longrightarrow> k < 3 \<Longrightarrow> buffer_inv E ts ((s, pc, H), at(R := Turn (Suc k)), (turn R ! k) b, logged R k b io)"
    and "at R = Turn 3 \<Longrightarrow> vars_print dg x b = Some b' \<Longrightarrow> buffer_inv E ts ((s, pc, H), at(R := Notifying), b', io)"
proof -
  note st = inside_step [OF i r]
  have pl: "places_inv at b" using i by (auto simp: buffer_inv_def)
  have D: "\<exists>ys. data_inv (at(R := p)) b'' io ys"
    if "data_inv at b io xs" "\<not> in_turn (at R)" "\<not> in_turn p" "b'' = b \<or> vars_print dg x b = Some b''" for xs p b''
    using data_at [OF that(1-3), of b''] that(4) print_vars [of dg x b b''] by (intro exI [of _ xs]) auto
  note n = in_turn_def will_notify_def
  show "buffer_inv E ts ((s, pc, H), at(R := Refused), b, io)" if "at R = Testing" "must_wait R b"
    by (rule st) (use that D in \<open>auto simp: n\<close>)
  show "buffer_inv E ts ((s, pc, H), at(R := Turn 0), b, io)" if "at R = Testing" "\<not> must_wait R b"
    by (rule st) (use that D in \<open>auto simp: n\<close>)
  show "buffer_inv E ts ((s, pc, H), at(R := Waits), b', io)" if a: "at R = Refused" "vars_print dg x b = Some b'"
    by (rule st) (use a D print_vars(6) [OF a(2)] pl in \<open>auto simp: n places_inv_def\<close>)
  show "buffer_inv E ts ((s, pc, H), at(R := Notifying), b', io)" if a: "at R = Turn 3" "vars_print dg x b = Some b'"
    by (rule st) (use a D print_vars(6) [OF a(2)] in \<open>auto simp: n\<close>)
  show "buffer_inv E ts ((s, pc, H), at(R := Turn (Suc k)), (turn R ! k) b, logged R k b io)" if a: "at R = Turn k" "k < 3"
  proof (rule st)
    show "must_wait (other R) ((turn R ! k) b) \<or> will_notify (Turn (Suc k))" if "must_wait (other R) b"
      using that turn_count [OF a(2), of "other R" R b] by (cases "k = 2") (auto simp: n)
    show "\<exists>ys. data_inv (at(R := Turn (Suc k))) ((turn R ! k) b) (logged R k b io) ys" if "data_inv at b io xs" "places_inv at b" for xs
      by (rule turn_step [OF that a])
  qed (use a in \<open>auto simp: n\<close>)
qed

text \<open>Every step keeps the invariant.\<close>

lemma buffer_step_inv:
  assumes "buffer_step E c c'" "buffer_inv E ts c"
  shows "buffer_inv E ts c'"
  using assms
proof (induction rule: buffer_step.induct)
  case (sleeps r s R pc at s1 H b io)
  obtain Q W xs where I: "inj (task_of E)" "sync_inv (idle_task E) ts Q W (s, pc, H)" "conds_inv E Q at b" "holds_monitor E H at"
    "data_inv at b io xs" "places_inv at b" using sleeps by (auto simp: buffer_inv_def)
  have f: "Q (Cond (cond_of E R)) = []" by (rule run_free [OF I(2,3)]) (use sleeps in \<open>auto simp: in_code_def\<close>)
  have i: "sync_inv (idle_task E) ts Q W (s1, pc(r := Snoozing), H)"
    using inv_snooze [OF I(2) sleeps(1,3,4), of "sleep_ms R"] sleeps by auto
  have h: "holds_monitor E H (at(R := Entering))" by (rule holds_at [OF I(4)]) (simp add: sleeps)
  show ?case
    by (rule outside_step [OF i h I(1) conds_at [OF I(3) f] I(5,6) refl])
       (use sleeps in \<open>simp_all add: in_turn_def will_notify_def\<close>)
next
  case (enters r s R at pc l H b io)
  obtain Q W xs where I: "inj (task_of E)" "sync_inv (idle_task E) ts Q W (s, pc, H)" "conds_inv E Q at b" "holds_monitor E H at"
    "data_inv at b io xs" "places_inv at b" using enters by (auto simp: buffer_inv_def)
  have f: "Q (Cond (cond_of E R)) = []" by (rule run_free [OF I(2,3)]) (use enters in \<open>auto simp: in_code_def\<close>)
  have "sync_step (idle_task E) (s, pc, H) (mutex_take l r (cli s), pc(r := User), insert (r, l) H)"
    by (rule sync_step.lock_free) (use enters in auto)
  from sync_step_inv [OF this I(2)] obtain Q' W' where i: "sync_inv (idle_task E) ts Q' W' (mutex_take l r (cli s), pc(r := User), insert (r, l) H)"
    by blast
  have "Q' (Cond c) = Q (Cond c)" for c
    by (rule cond_queue_same [OF I(2) i]) (simp_all add: mutex_take_def wait_head_def set_mutex_def sti_def cli_def)
  then have c: "conds_inv E Q' at b" "Q' (Cond (cond_of E R)) = []" using conds_same [OF I(3)] f by simp_all
  have h: "holds_monitor E (insert (r, l) H) (at(R := Testing))" using holds_insert [OF I(4), of Testing R] enters by simp
  show ?case
    by (rule outside_step [OF i h I(1) conds_at [OF c] I(5,6) refl])
       (use enters in \<open>auto simp: in_turn_def will_notify_def\<close>)
next
  case (blocks r s R at pc l s1 e x s2 H b io)
  obtain Q W xs where I: "inj (task_of E)" "sync_inv (idle_task E) ts Q W (s, pc, H)" "conds_inv E Q at b" "holds_monitor E H at"
    "data_inv at b io xs" "places_inv at b" using blocks by (auto simp: buffer_inv_def)
  have u: "pc r = User \<or> pc r = Wants l" using blocks by auto
  from inv_mutex_wait [OF I(2) blocks(1,3) u blocks(6)] blocks(7)
  have r: "running_task s1 = r"
    and i0: "sync_inv0 (idle_task E) ts (Q(Mutex l := Q (Mutex l) @ [r])) (W(r := Some (Mutex l))) (s1, pc(r := Wants l), H)" by auto
  from inv_switch [OF i0 disjI1 [OF refl], of e] blocks(8)
  have i: "sync_inv (idle_task E) ts (Q(Mutex l := Q (Mutex l) @ [r])) (W(r := Some (Mutex l))) (s2, pc(r := Wants l), H)" by (auto simp: r)
  have c: "conds_inv E (Q(Mutex l := Q (Mutex l) @ [r])) at b" by (rule conds_same [OF I(3)]) simp
  then show ?case using i I by (auto simp: buffer_inv_def)
next
  case (refuses s R pc at b H io)
  then show ?case using inside_case(1) by blast
next
  case (complains s R pc at b b1 H io)
  then show ?case using inside_case(3) by blast
next
  case (waits r s R pc at s1 H b io)
  obtain Q W xs where I: "inj (task_of E)" "sync_inv (idle_task E) ts Q W (s, pc, H)" "conds_inv E Q at b" "holds_monitor E H at"
    "data_inv at b io xs" "places_inv at b" using waits by (auto simp: buffer_inv_def)
  have f: "Q (Cond (cond_of E R)) = []" by (rule run_free [OF I(2,3)]) (use waits in \<open>auto simp: in_code_def\<close>)
  have rl: "(r, lock_of E) \<in> H" using holds_in [OF I(4), of R] waits by simp
  obtain Q' W' where i: "sync_inv (idle_task E) ts Q' W' (s1, pc(r := Yielding (lock_of E)), H - {(r, lock_of E)})"
    and q: "Q' (Cond (cond_of E R)) = [r]" "\<And>c. c \<noteq> cond_of E R \<Longrightarrow> Q' (Cond c) = Q (Cond c)"
    using inv_cond_wait [OF I(2) waits(1,3,4) rl, of "cond_of E R"] waits(7) f by auto
  have h: "holds_monitor E (H - {(r, lock_of E)}) (at(R := Waiting))" using holds_remove [OF I(4,1), of Waiting R] waits(2) by simp
  have "must_wait R b" using I(6) waits(5) by (auto simp: places_inv_def)
  moreover have "Q' (Cond (cond_of E (other R))) = Q (Cond (cond_of E (other R)))" by (rule q(2)) simp
  moreover have "\<not> will_notify (at R)" using waits(5) by (simp add: will_notify_def)
  ultimately have c: "conds_inv E Q' (at(R := Waiting)) b"
    using I(3) q(1) waits(2) by (intro conds_two [of _ _ R]) (auto simp: conds_inv_def)
  show ?case
    by (rule outside_step [OF i h I(1) c I(5,6) refl]) (use waits(5) in \<open>simp_all add: in_turn_def\<close>)
next
  case (passes s R pc at b H io)
  then show ?case using inside_case(2) by blast
next
  case (assigns s R pc at i H b io)
  then show ?case using inside_case(4) by auto
next
  case (prints s R pc at b b1 H io)
  then show ?case using inside_case(5) by auto
next
  case (signals s R pc at H b io)
  obtain Q W xs where I: "inj (task_of E)" "sync_inv (idle_task E) ts Q W (s, pc, H)" "conds_inv E Q at b" "holds_monitor E H at"
    "data_inv at b io xs" "places_inv at b" using signals by (auto simp: buffer_inv_def)
  have f: "Q (Cond (cond_of E R)) = []" by (rule run_free [OF I(2,3)]) (use signals in \<open>auto simp: in_code_def\<close>)
  let ?k = "Cond (cond_of E (other R))"
  let ?Q = "Q(?k := tl (Q ?k))"
  obtain W' where i: "sync_inv (idle_task E) ts ?Q W' (monitor_notify (buffer_monitor E) (notifies R) s, pc, H)"
    using inv_signal [OF I(2), of "cond_of E (other R)"] unfolding monitor_simps by blast
  have "distinct (Q ?k)" using I(2) by (simp add: sync_inv_def queued_def waiting_def)
  moreover have "set (Q ?k) \<subseteq> {task_of E (other R)}" using I(3) by (simp add: conds_inv_def)
  ultimately have "tl (Q ?k) = []" by (cases "Q ?k"; cases "tl (Q ?k)") auto
  then have c: "conds_inv E ?Q (at(R := Leaving)) b" using f by (intro conds_two [of _ _ R]) simp_all
  have h: "holds_monitor E H (at(R := Leaving))" by (rule holds_at [OF I(4)]) (simp add: signals)
  show ?case
    by (rule outside_step [OF i h I(1) c I(5,6) refl]) (use signals in \<open>simp_all add: in_turn_def\<close>)
next
  case (leaves r s R pc at H b io)
  obtain Q W xs where I: "inj (task_of E)" "sync_inv (idle_task E) ts Q W (s, pc, H)" "conds_inv E Q at b" "holds_monitor E H at"
    "data_inv at b io xs" "places_inv at b" using leaves by (auto simp: buffer_inv_def)
  have f: "Q (Cond (cond_of E R)) = []" by (rule run_free [OF I(2,3)]) (use leaves in \<open>auto simp: in_code_def\<close>)
  have rl: "(r, lock_of E) \<in> H" using holds_in [OF I(4), of R] leaves by simp
  obtain Q' W' where i: "sync_inv (idle_task E) ts Q' W' (monitor_exit (buffer_monitor E) s, pc, H - {(r, lock_of E)})"
    and q: "\<And>c. Q' (Cond c) = Q (Cond c)"
    using inv_unlock_running [OF I(2) leaves(1,3) rl] unfolding monitor_simps by blast
  have h: "holds_monitor E (H - {(r, lock_of E)}) (at(R := Asleep))" using holds_remove [OF I(4,1), of Asleep R] leaves(2) by simp
  have c: "conds_inv E Q' at b" "Q' (Cond (cond_of E R)) = []" using conds_same [OF I(3)] f q by simp_all
  show ?case
    by (rule outside_step [OF i h I(1) conds_at [OF c] I(5,6) refl])
       (use leaves in \<open>simp_all add: in_turn_def will_notify_def\<close>)
next
  case (switches e s x s1 r pc' pc H at b io)
  obtain Q W xs where I: "inj (task_of E)" "sync_inv (idle_task E) ts Q W (s, pc, H)" "conds_inv E Q at b" "holds_monitor E H at"
    "data_inv at b io xs" "places_inv at b" using switches by (auto simp: buffer_inv_def)
  have i0: "sync_inv0 (idle_task E) ts Q W (s, pc, H)" using I(2) by (simp add: sync_inv_0)
  obtain c where c: "pc' = pc(running_task s := c)" "c = pc (running_task s) \<or> pc (running_task s) = Snoozing \<and> c = User \<or>
      (\<exists>m. pc (running_task s) = Yielding m \<and> c = Wants m)"
    using switches(2,3) by (metis fun_upd_triv)
  have "sync_inv (idle_task E) ts Q W (s1, pc', H)" using inv_switch [OF i0 c(2), of e] switches(1) c(1) by auto
  then show ?case using I by (auto simp: buffer_inv_def)
next
  case (others S S' at b io)
  obtain s pc H s' pc' H' where S: "S = (s, pc, H)" "S' = (s', pc', H')" by (metis prod_cases3)
  obtain Q W xs where I: "inj (task_of E)" "sync_inv (idle_task E) ts Q W (s, pc, H)" "conds_inv E Q at b" "holds_monitor E H at"
    "data_inv at b io xs" "places_inv at b" using others by (auto simp: buffer_inv_def S)
  obtain Q' W' where i: "sync_inv (idle_task E) ts Q' W' (s', pc', H')" using sync_step_inv [OF others(1)] I(2) S by blast
  have a: "\<And>q. (q, lock_of E) \<in> H' \<longleftrightarrow> (q, lock_of E) \<in> H" "\<And>R. c_waiters (conds s' (cond_of E R)) = c_waiters (conds s (cond_of E R))"
    "\<And>R. wait_next (tcb s' (task_of E R)) = wait_next (tcb s (task_of E R))" using others(2) by (simp_all add: apart_def S)
  have "Q' (Cond (cond_of E R)) = Q (Cond (cond_of E R))" for R
  proof (rule cond_queue_same [OF I(2) i])
    show "wait_head s' (Cond (cond_of E R)) = wait_head s (Cond (cond_of E R))" by (simp add: wait_head_def a)
    show "wait_next (tcb s' q) = wait_next (tcb s q)" if "q \<in> set (Q (Cond (cond_of E R)))" for q
      using that I(3) a(3) unfolding conds_inv_def by blast
  qed
  then have "conds_inv E Q' at b" by (rule conds_same [OF I(3)])
  moreover have "holds_monitor E H' at" using I(4) a(1) by (simp add: holds_monitor_def)
  ultimately show ?case using i I by (auto simp: buffer_inv_def S)
qed

lemma range_roles: "range f = {f Producer, f Consumer}"
proof -
  have "UNIV = {Producer, Consumer}" using role.exhaust by auto
  then show ?thesis by (metis image_empty image_insert)
qed

lemma inj_roles: "task_of E Producer \<noteq> task_of E Consumer \<Longrightarrow> inj (task_of E)"
  by (rule injI) (metis role.exhaust)

lemma buffer_start_inv:
  assumes "buffer_start E ts c"
  shows "buffer_inv E ts c"
proof -
  obtain s pc H at b io where c: "c = ((s, pc, H), at, b, io)" by (metis prod_cases3)
  note st = assms [unfolded buffer_start_def c prod.case]
  have s: "sync_start (idle_task E) ts (s, pc, H)" and at: "at R = Asleep" for R using st by simp_all
  have H: "H = {}" using s by (simp add: sync_start_def)
  have "conds_inv E (\<lambda>_. []) at b" by (simp add: conds_inv_def)
  moreover have "holds_monitor E H at" by (simp add: holds_monitor_def H at)
  moreover have "data_inv at b io []" using st by (simp add: data_inv_def at counted_def ring_def BUFFER_SIZE_def)
  moreover have "places_inv at b" by (simp add: places_inv_def at)
  moreover have "inj (task_of E)" using st by (intro inj_roles) simp
  ultimately show ?thesis using sync_start_inv [OF s] by (auto simp: buffer_inv_def c)
qed

lemma buffer_reachable:
  assumes "buffer_start E ts c" "(buffer_step E)\<^sup>*\<^sup>* c c'"
  shows "buffer_inv E ts c'"
  using assms(2) by (induction) (use buffer_start_inv [OF assms(1)] buffer_step_inv in blast)+

section \<open>A run\<close>

text \<open>
  The idle task 16, the producer 32 and the consumer 48. The producer goes to sleep for 30 ticks, in
  which the other two alternate; then it enters the monitor and puts the first item.
\<close>

definition demo_buffer_env :: buffer_env where
  "demo_buffer_env = \<lparr>idle_task = 16, buffer_monitor = 100, task_of = (\<lambda>R. case R of Producer \<Rightarrow> 32 | Consumer \<Rightarrow> 48), digits_of = (\<lambda>_. 0)\<rparr>"

definition demo_three :: sync_sys where
  "demo_three = demo_sync\<lparr>tcb := (\<lambda>p. if p = 16 then demo_task 1 TASK_RUNNING 32 else if p = 32 then demo_task 2 TASK_READY 48
     else demo_task 3 TASK_READY 0)\<rparr>"

definition demo_vars :: buffer_vars where
  "demo_vars = \<lparr>buffer = [0, 0, 0, 0, 0], count = 0, head = 0, tail = 0, produce_item = 100, consume_item = 0, console_screen = demo_term\<rparr>"

definition three_at :: "sync_sys \<Rightarrow> u32 \<Rightarrow> task_state_t \<Rightarrow> task_state_t \<Rightarrow> task_state_t \<Rightarrow> u32 \<Rightarrow> bool" where
  "three_at s r a b c k \<longleftrightarrow> task_list s [16, 32, 48] \<and> running_task s = r \<and> task_state (tcb s 16) = a \<and> task_state (tcb s 32) = b \<and>
     task_state (tcb s 48) = c \<and> sleep_ticks (tcb s 32) = k \<and> locked (mutexes s (lock_of demo_buffer_env)) = 0"

lemma timer_exact:
  fixes s :: "'a sync_sys_scheme"
  assumes l: "task_list s ts" and r: "running_task s \<in> set ts"
    and t: "t = (\<lambda>p. if p \<in> set ts then woken (tcb s p) else tcb s p)" and n: "n = pick t (Task.others (running_task s) ts) (running_task s)"
  shows "\<exists>x. timer_interrupt e s = Some (x, s\<lparr>tick := tick s + 1, tcb := switch_to e (running_task s) n t, running_task := n\<rparr>)"
proof -
  have l1: "task_list (s\<lparr>tick := tick s + 1\<rparr>) ts" using l by (simp add: task_list_def)
  have t1: "tcb (s\<lparr>tick := tick s + 1\<rparr>) = tcb s" by simp
  have l2: "task_list (s\<lparr>tick := tick s + 1, tcb := t\<rparr>) ts" using task_list_woken [OF l1] unfolding t1 t .
  have "tasks_update_sleep_ticks (s\<lparr>tick := tick s + 1\<rparr>) = Some (s\<lparr>tick := tick s + 1, tcb := t\<rparr>)"
    using update_sleep_spec [OF l1] unfolding t1 t .
  then show ?thesis using schedule_others [OF l2, of e] r by (simp add: timer_interrupt_def n)
qed

lemma three_tick:
  assumes s: "three_at s r a b c k" and st: "a \<noteq> TASK_SLEEPING" "c \<noteq> TASK_SLEEPING"
    and w: "w = (if b = TASK_SLEEPING \<and> 0 < k then (if k = 1 then TASK_READY else TASK_SLEEPING, k - 1) else (b, k))"
    and n: "r = 16 \<and> n = (if fst w = TASK_SLEEPING then 48 else 32) \<or> r = 32 \<and> n = 48 \<or> r = 48 \<and> n = 16"
    and run: "a = TASK_READY \<or> a = TASK_RUNNING" "c = TASK_READY \<or> c = TASK_RUNNING" "b \<noteq> TASK_BLOCKED"
  shows "\<exists>x s'. timer_interrupt 0 s = Some (x, s') \<and> three_at s' n (demo_next n r 16 a) (demo_next n r 32 (fst w)) (demo_next n r 48 c) (snd w)"
proof -
  let ?ts = "[16, 32, 48] :: u32 list"
  define t where "t = (\<lambda>p. if p \<in> set ?ts then woken (tcb s p) else tcb s p)"
  let ?s = "s\<lparr>tick := tick s + 1, tcb := switch_to 0 r n t, running_task := n\<rparr>"
  have l: "task_list s ?ts" and r: "running_task s = r" using s by (auto simp: three_at_def)
  have ts: "task_state (t 16) = a" "task_state (t 48) = c" "task_state (t 32) = fst w" "sleep_ticks (t 32) = snd w"
    using s st by (auto simp: three_at_def t_def woken_def w)
  have "fst w = TASK_SLEEPING \<or> fst w = TASK_READY \<or> fst w = TASK_RUNNING" using run(3) w by (cases b) auto
  then have p: "pick t (Task.others r ?ts) r = n"
    using n run ts by (auto simp: Task.others_def pick_Cons runnable_def)
  obtain x where x: "timer_interrupt 0 s = Some (x, ?s)"
    using timer_exact [OF l _ t_def p [symmetric, folded r], of 0] n unfolding r by auto
  have nx: "task_next (switch_to 0 r n t q) = task_next (tcb s q)" for q by (simp add: switch_to_def t_def Let_def)
  have st': "task_state (switch_to 0 r n t q) = demo_next n r q (task_state (t q))" for q
    by (simp add: switch_to_state suspended_def demo_next_def)
  have k: "sleep_ticks (switch_to 0 r n t q) = sleep_ticks (t q)" for q by (simp add: switch_to_def Let_def)
  have "task_list ?s ?ts" using l nx by (simp add: task_list_def)
  then have "three_at ?s n (demo_next n r 16 a) (demo_next n r 32 (fst w)) (demo_next n r 48 c) (snd w)"
    using s ts by (simp add: three_at_def st' k)
  with x show ?thesis by blast
qed

lemma nap:
  assumes "three_at s 48 TASK_READY TASK_SLEEPING TASK_RUNNING (of_nat (2 * j + 1))" "j < 16"
  shows "\<exists>s'. three_at s' 48 TASK_READY TASK_SLEEPING TASK_RUNNING 1 \<and>
    (buffer_step demo_buffer_env)\<^sup>*\<^sup>* ((s, pc, H), at, b, io) ((s', pc, H), at, b, io)"
  using assms
proof (induction j arbitrary: s)
  case (Suc j)
  let ?k = "of_nat (2 * Suc j + 1) :: u32"
  have u: "unat (of_nat i :: u32) = i" if "i < 40" for i by (rule unat_of_nat_32) (use that in simp)
  have k: "0 < ?k" "?k \<noteq> 1" "0 < ?k - 1" "?k - 1 \<noteq> 1" "?k - 1 - 1 = of_nat (2 * j + 1)"
    using u [of "2 * Suc j + 1"] u [of "2 * j + 2"] Suc.prems(2)
    by (auto simp: word_less_nat_alt word_unat_eq_iff)
  obtain x s1 where 1: "timer_interrupt 0 s = Some (x, s1)" "three_at s1 16 TASK_RUNNING TASK_SLEEPING TASK_READY (?k - 1)"
    using three_tick [OF Suc.prems(1) _ _ refl, of 16] k by (auto simp: demo_next_def)
  obtain y s2 where 2: "timer_interrupt 0 s1 = Some (y, s2)" "three_at s2 48 TASK_READY TASK_SLEEPING TASK_RUNNING (?k - 1 - 1)"
    using three_tick [OF 1(2) _ _ refl, of 48] k by (auto simp: demo_next_def)
  have "three_at s2 48 TASK_READY TASK_SLEEPING TASK_RUNNING (of_nat (2 * j + 1))" using 2(2) k(5) by (simp only:)
  then obtain s' where s': "three_at s' 48 TASK_READY TASK_SLEEPING TASK_RUNNING 1"
    "(buffer_step demo_buffer_env)\<^sup>*\<^sup>* ((s2, pc, H), at, b, io) ((s', pc, H), at, b, io)"
    using Suc.IH Suc.prems(2) by (metis Suc_lessD)
  have "buffer_step demo_buffer_env ((s, pc, H), at, b, io) ((s1, pc, H), at, b, io)"
    "buffer_step demo_buffer_env ((s1, pc, H), at, b, io) ((s2, pc, H), at, b, io)"
    by (rule buffer_step.switches [OF 1(1) refl], simp, rule buffer_step.switches [OF 2(1) refl], simp)
  with s' show ?case by (meson converse_rtranclp_into_rtranclp)
qed auto

lemma demo_buffer_start: "buffer_start demo_buffer_env [16, 32, 48] ((demo_three, \<lambda>_. User, {}), \<lambda>_. Asleep, demo_vars, ([], []))"
  unfolding buffer_start_def prod.case range_roles
  by (simp add: demo_buffer_env_def demo_vars_def sync_start_def demo_three_def demo_sync_def demo_task_def task_list_def BUFFER_SIZE_def)

lemma demo_buffer_run:
  obtains s where "(buffer_step demo_buffer_env)\<^sup>*\<^sup>* ((demo_three, \<lambda>_. User, {}), \<lambda>_. Asleep, demo_vars, ([], []))
    ((s, \<lambda>_. User, {(32, lock_of demo_buffer_env)}), (\<lambda>_. Asleep)(Producer := Turn 1),
     demo_vars\<lparr>buffer := [100, 0, 0, 0, 0], produce_item := 101\<rparr>, ([100], []))"
proof -
  let ?E = demo_buffer_env and ?R = TASK_RUNNING and ?r = TASK_READY and ?z = TASK_SLEEPING
  let ?p = "\<lambda>_ :: u32. User" and ?a = "\<lambda>_ :: role. Asleep" and ?io = "([], []) :: u32 list \<times> u32 list"
  have E: "task_of ?E Producer = 32" "idle_task ?E = 16" by (simp_all add: demo_buffer_env_def)
  have "three_at demo_three 16 ?R ?r ?r 2"
    by (simp add: three_at_def demo_three_def demo_sync_def demo_task_def task_list_def)
  from three_tick [OF this _ _ refl, of 32] obtain x s1 where 1: "timer_interrupt 0 demo_three = Some (x, s1)" "three_at s1 32 ?r ?R ?r 2"
    by (auto simp: demo_next_def)
  let ?s2 = "set_tcb 32 (\<lambda>t. t\<lparr>task_state := ?z\<rparr>) (set_tcb 32 (\<lambda>t. t\<lparr>sleep_ticks := 30\<rparr>) s1)"
  have 2: "sleep Some 300 s1 = Some ?s2" "three_at ?s2 32 ?r ?z ?r 30"
    using 1(2) by (simp_all add: sleep_def sleep_ticks_for_def task_get_current_def three_at_def task_list_def set_tcb_def Let_def)
  from three_tick [OF 2(2) _ _ refl, of 48] obtain y s3 where 3: "timer_interrupt 0 ?s2 = Some (y, s3)" "three_at s3 48 ?r ?z ?R 29"
    by (auto simp: demo_next_def)
  have "three_at s3 48 ?r ?z ?R (of_nat (2 * 14 + 1))" using 3(2) by simp
  from nap [OF this, of ?p "{}" "?a(Producer := Entering)" demo_vars ?io] obtain s4 where 4: "three_at s4 48 ?r ?z ?R 1"
    "(buffer_step ?E)\<^sup>*\<^sup>* ((s3, ?p, {}), ?a(Producer := Entering), demo_vars, ?io) ((s4, ?p, {}), ?a(Producer := Entering), demo_vars, ?io)" by auto
  from three_tick [OF 4(1) _ _ refl, of 16] obtain z s5 where 5: "timer_interrupt 0 s4 = Some (z, s5)" "three_at s5 16 ?R ?r ?r 0"
    by (auto simp: demo_next_def)
  from three_tick [OF 5(2) _ _ refl, of 32] obtain v s6 where 6: "timer_interrupt 0 s5 = Some (v, s6)" "three_at s6 32 ?r ?R ?r 0"
    by (auto simp: demo_next_def)
  let ?l = "lock_of ?E"
  let ?s7 = "mutex_take ?l 32 (cli s6)"
  have r: "running_task s1 = 32" "running_task ?s2 = 32" "running_task s6 = 32" "running_task ?s7 = 32" "locked (mutexes s6 ?l) = 0"
    using 1(2) 2(2) 6(2) by (simp_all add: three_at_def mutex_take_def)
  let ?S = "buffer_step ?E"
  note into = rtranclp.rtrancl_into_rtrancl [of ?S]
  have a: "?S ((demo_three, ?p, {}), ?a, demo_vars, ?io) ((s1, ?p, {}), ?a, demo_vars, ?io)"
    by (rule buffer_step.switches [OF 1(1) refl]) simp
  have b: "?S ((s1, ?p, {}), ?a, demo_vars, ?io) ((?s2, ?p(32 := Snoozing), {}), ?a(Producer := Entering), demo_vars, ?io)"
    by (rule buffer_step.sleeps) (simp_all add: r E sleep_ms_def 2(1))
  have c: "?S ((?s2, ?p(32 := Snoozing), {}), ?a(Producer := Entering), demo_vars, ?io) ((s3, ?p, {}), ?a(Producer := Entering), demo_vars, ?io)"
    by (rule buffer_step.switches [OF 3(1) refl]) (simp add: r fun_eq_iff)
  have d: "?S ((s4, ?p, {}), ?a(Producer := Entering), demo_vars, ?io) ((s5, ?p, {}), ?a(Producer := Entering), demo_vars, ?io)"
    by (rule buffer_step.switches [OF 5(1) refl]) simp
  have e: "?S ((s5, ?p, {}), ?a(Producer := Entering), demo_vars, ?io) ((s6, ?p, {}), ?a(Producer := Entering), demo_vars, ?io)"
    by (rule buffer_step.switches [OF 6(1) refl]) simp
  have f: "?S ((s6, ?p, {}), ?a(Producer := Entering), demo_vars, ?io)
      ((?s7, ?p(32 := User), insert (32, ?l) {}), (?a(Producer := Entering))(Producer := Testing), demo_vars, ?io)"
    by (rule buffer_step.enters) (simp_all add: r E)
  have g: "?S ((?s7, ?p, {(32, ?l)}), ?a(Producer := Testing), demo_vars, ?io)
      ((?s7, ?p, {(32, ?l)}), (?a(Producer := Testing))(Producer := Turn 0), demo_vars, ?io)"
    by (rule buffer_step.passes) (simp_all add: r E must_wait_def demo_vars_def BUFFER_SIZE_def)
  have h: "?S ((?s7, ?p, {(32, ?l)}), ?a(Producer := Turn 0), demo_vars, ?io)
      ((?s7, ?p, {(32, ?l)}), (?a(Producer := Turn 0))(Producer := Turn (Suc 0)), (turn Producer ! 0) demo_vars, logged Producer 0 demo_vars ?io)"
    by (rule buffer_step.assigns) (simp_all add: r E)
  have v: "(turn Producer ! 0) demo_vars = demo_vars\<lparr>buffer := [100, 0, 0, 0, 0], produce_item := 101\<rparr>"
    "logged Producer 0 demo_vars ?io = ([100], [])" by (simp_all add: turn_def logged_def demo_vars_def)
  have "?S\<^sup>*\<^sup>* ((demo_three, ?p, {}), ?a, demo_vars, ?io) ((s3, ?p, {}), ?a(Producer := Entering), demo_vars, ?io)"
    by (rule into [OF into [OF r_into_rtranclp [of ?S, OF a] b] c])
  from into [OF into [OF rtranclp_trans [OF this 4(2)] d] e]
  have s6: "?S\<^sup>*\<^sup>* ((demo_three, ?p, {}), ?a, demo_vars, ?io) ((s6, ?p, {}), ?a(Producer := Entering), demo_vars, ?io)" .
  have "?S\<^sup>*\<^sup>* ((demo_three, ?p, {}), ?a, demo_vars, ?io) ((?s7, ?p, {(32, ?l)}), ?a(Producer := Turn 1),
      demo_vars\<lparr>buffer := [100, 0, 0, 0, 0], produce_item := 101\<rparr>, ([100], []))"
    using into [OF into [OF into [OF s6 f]]] g h unfolding v by (simp add: fun_upd_idem)
  then show thesis by (rule that)
qed

section \<open>Properties\<close>

text \<open>
  C38: in every interleaving, preemption between any two assignments included, the consumer takes what
  the producer has put, every item once and in order: the items put are 100, 101 and so on, those taken
  are the first of them, and at most five are in the buffer. Whenever no task is between its first and
  last assignment, the count is the number of items in the buffer and both indices are in range.
\<close>

theorem bounded_buffer_order:
  assumes "buffer_start E ts c" and "(buffer_step E)\<^sup>*\<^sup>* c (S, at, b, (ins, outs))"
  shows "\<exists>xs. ins = outs @ xs \<and> length xs \<le> BUFFER_SIZE \<and> ins = map (\<lambda>k. of_nat (100 + k)) [0..<length ins] \<and>
    ((\<forall>R. \<not> in_turn (at R)) \<longrightarrow> count b = int (length xs) \<and> 0 \<le> head b \<and> head b < int BUFFER_SIZE \<and>
       0 \<le> tail b \<and> tail b < int BUFFER_SIZE)"
proof -
  obtain xs where d: "data_inv at b (ins, outs) xs" using buffer_reachable [OF assms] by (auto simp: buffer_inv_def split: prod.splits)
  then have "ins = outs @ xs" "ins = map (\<lambda>k. of_nat (100 + k)) [0..<length ins]" unfolding data_inv_def fst_conv snd_conv by blast+
  moreover have "length xs \<le> BUFFER_SIZE" using d by (simp add: data_inv_def ring_def)
  moreover have "count b = int (length xs) \<and> 0 \<le> head b \<and> head b < int BUFFER_SIZE \<and> 0 \<le> tail b \<and> tail b < int BUFFER_SIZE"
    if n: "\<forall>R. \<not> in_turn (at R)"
  proof -
    have r: "ring BUFFER_SIZE (buffer b) (head b) (tail b) (count b) xs"
      using d n [rule_format, of Producer] n [rule_format, of Consumer] by (auto simp: data_inv_def in_turn_def counted_def)
    then show ?thesis using ring_tail [OF r] by (simp add: ring_def)
  qed
  ultimately show ?thesis by blast
qed

theorem bounded_buffer_order_witness:
  "\<exists>S at b xs. (buffer_step demo_buffer_env)\<^sup>*\<^sup>* ((demo_three, \<lambda>_. User, {}), \<lambda>_. Asleep, demo_vars, ([], [])) (S, at, b, ([100], [])) \<and>
    [100] = ([] :: u32 list) @ xs \<and> length xs \<le> BUFFER_SIZE"
proof -
  obtain s where r: "(buffer_step demo_buffer_env)\<^sup>*\<^sup>* ((demo_three, \<lambda>_. User, {}), \<lambda>_. Asleep, demo_vars, ([], []))
    ((s, \<lambda>_. User, {(32, lock_of demo_buffer_env)}), (\<lambda>_. Asleep)(Producer := Turn 1),
     demo_vars\<lparr>buffer := [100, 0, 0, 0, 0], produce_item := 101\<rparr>, ([100], []))" by (rule demo_buffer_run)
  from bounded_buffer_order [OF demo_buffer_start r] r show ?thesis by blast
qed

text \<open>
  C39: the two never wait for each other. Whenever a task is in the queue of its condition variable, the
  buffer does not allow its turn, or the other task has changed that and is going to notify it before
  it leaves the monitor; the two queues are never both non-empty.
\<close>

theorem bounded_buffer_no_deadlock:
  assumes "buffer_start E ts c" and "(buffer_step E)\<^sup>*\<^sup>* c ((s, pc, H), at, b, io)"
  shows "(\<forall>R. c_waiters (conds s (cond_of E R)) \<noteq> 0 \<longrightarrow> must_wait R b \<or> at (other R) = Turn 3 \<or> at (other R) = Notifying) \<and>
    (\<exists>R. c_waiters (conds s (cond_of E R)) = 0)"
proof -
  obtain Q W where Q: "sync_inv (idle_task E) ts Q W (s, pc, H)" "conds_inv E Q at b"
    using buffer_reachable [OF assms] by (auto simp: buffer_inv_def)
  have w: "at R = Waiting \<and> (must_wait R b \<or> will_notify (at (other R)))" if "c_waiters (conds s (cond_of E R)) \<noteq> 0" for R
  proof -
    have "waiting (wait_head s (Cond (cond_of E R)), tcb s) (Q (Cond (cond_of E R)))" using Q(1) by (simp add: sync_inv_def queued_def)
    then have "Q (Cond (cond_of E R)) \<noteq> []" using that by (auto simp: waiting_def wait_head_def)
    then show ?thesis using Q(2) by (simp add: conds_inv_def)
  qed
  have "\<exists>R. c_waiters (conds s (cond_of E R)) = 0"
  proof (rule ccontr)
    assume "\<not> ?thesis"
    then have "count b = int BUFFER_SIZE" "count b = 0"
      using w [of Producer] w [of Consumer] by (auto simp: will_notify_def must_wait_def)
    then show False by (simp add: BUFFER_SIZE_def)
  qed
  then show ?thesis using w by (auto simp: will_notify_def)
qed

theorem bounded_buffer_no_deadlock_witness:
  "\<exists>s pc H at b io. (buffer_step demo_buffer_env)\<^sup>*\<^sup>* ((demo_three, \<lambda>_. User, {}), \<lambda>_. Asleep, demo_vars, ([], [])) ((s, pc, H), at, b, io) \<and>
    H \<noteq> {} \<and> (\<exists>R. c_waiters (conds s (cond_of demo_buffer_env R)) = 0)"
proof -
  obtain s where r: "(buffer_step demo_buffer_env)\<^sup>*\<^sup>* ((demo_three, \<lambda>_. User, {}), \<lambda>_. Asleep, demo_vars, ([], []))
    ((s, \<lambda>_. User, {(32, lock_of demo_buffer_env)}), (\<lambda>_. Asleep)(Producer := Turn 1),
     demo_vars\<lparr>buffer := [100, 0, 0, 0, 0], produce_item := 101\<rparr>, ([100], []))" by (rule demo_buffer_run)
  from bounded_buffer_no_deadlock [OF demo_buffer_start r] r show ?thesis by blast
qed

end
