(* ===== verification/Boot.thy ===== *)
theory Boot
  imports Bounded_Buffer
begin

text \<open>
  \<^verbatim>\<open>kmain\<close> of \<^verbatim>\<open>main.c\<close>: the order in which the parts of the kernel are set up, on one state that holds
  them all. What the linker, the processor and the boot loader provide is an argument.
\<close>

section \<open>Code\<close>

text \<open>The state of the whole kernel: tasks, heap, devices and screen, and the tables of the processor.\<close>

record kernel = kbd_sys +
  gdt :: "gdt_entry list"
  gp :: table_ptr
  idt :: "u8 \<Rightarrow> idt_entry"
  idtp :: table_ptr
  mounted :: u32
  initrd_vars :: initrd_t

record boot_link =
  gdt_addr :: u32
  idt_addr :: u32
  isr_stub :: "nat \<Rightarrow> u32"
  irq_stub :: "nat \<Rightarrow> u32"
  pic_masks :: "u16 \<Rightarrow> u8"
  boot_digits :: u32
  boot_initrd :: initrd_link
  keyboard_mon :: u32
  buffer_mon :: u32
  producer_addr :: u32
  consumer_addr :: u32
  shell_addr :: u32

text \<open>The description of the video mode at an address of the physical memory.\<close>

definition vbe_info :: "mem \<Rightarrow> u32 \<Rightarrow> vbe_mode_info" where
  "vbe_info m p =
     \<lparr>v_attributes = ucast (load32 m p), v_window_a = m (p + 2), v_window_b = m (p + 3), v_granularity = ucast (load32 m (p + 4)),
      v_window_size = ucast (load32 m (p + 6)), v_segment_a = ucast (load32 m (p + 8)), v_segment_b = ucast (load32 m (p + 10)),
      v_win_func_ptr = load32 m (p + 12), v_pitch = ucast (load32 m (p + 16)), v_width = ucast (load32 m (p + 18)),
      v_height = ucast (load32 m (p + 20)), v_w_char = m (p + 22), v_y_char = m (p + 23), v_planes = m (p + 24),
      v_bpp = m (p + 25), v_banks = m (p + 26), v_memory_model = m (p + 27), v_bank_size = m (p + 28),
      v_image_pages = m (p + 29), v_reserved0 = m (p + 30), v_red_mask = m (p + 31), v_red_position = m (p + 32),
      v_green_mask = m (p + 33), v_green_position = m (p + 34), v_blue_mask = m (p + 35), v_blue_position = m (p + 36),
      v_reserved_mask = m (p + 37), v_reserved_position = m (p + 38), v_direct_color_attributes = m (p + 39),
      v_framebuffer = load32 m (p + 40), v_off_screen_mem_off = load32 m (p + 44), v_off_screen_mem_size = ucast (load32 m (p + 48)),
      v_reserved1 = map (\<lambda>i. m (p + 50 + of_nat i)) [0..<206]\<rparr>"

definition on_vm :: "(vm_state \<Rightarrow> vm_state) \<Rightarrow> kernel \<Rightarrow> kernel" where
  "on_vm f k = k\<lparr>heap := (heap k)\<lparr>vm := f (vm (heap k))\<rparr>\<rparr>"

text \<open>The terminal works on the memory of the heap.\<close>

definition on_screen :: "(term_sys \<Rightarrow> term_sys option) \<Rightarrow> kernel \<Rightarrow> kernel option" where
  "on_screen f k = map_option (\<lambda>t. k\<lparr>screen := t, heap := (heap k)\<lparr>hmem := vmem t\<rparr>\<rparr>) (f ((screen k)\<lparr>vmem := hmem (heap k)\<rparr>))"

definition kprintf :: "boot_link \<Rightarrow> string \<Rightarrow> u32 list \<Rightarrow> kernel \<Rightarrow> kernel option" where
  "kprintf B fmt args = on_screen (printf_lit (boot_digits B) (ascii fmt) args)"

definition setup_tables :: "boot_link \<Rightarrow> kernel \<Rightarrow> kernel" where
  "setup_tables B k =
     (let (g, p) = gdt_init (gdt_addr B) (gdt k);
          (i, q) = idt_init (idt_addr B) (idt k);
          (i, l, handlers) = isr_install (isr_stub B) (irq_stub B) (pic_masks B) (i, ports k)
      in on_vm (\<lambda>v. v\<lparr>interrupt_handlers := handlers\<rparr>) (k\<lparr>gdt := g, gp := p, idt := i, idtp := q, ports := l\<rparr>))"

definition setup_memory :: "kernel \<Rightarrow> kernel option" where
  "setup_memory k =
     (let k = on_vm (\<lambda>v. v\<lparr>pmm := kmain_pmm (pmm v)\<rparr>) k
      in do {
        v \<leftarrow> vmm_init (vm (heap k));
        h \<leftarrow> kheap_init ((heap k)\<lparr>vm := v\<rparr>);
        Some (k\<lparr>heap := h\<rparr>)
      })"

text \<open>The block of the video mode lies within one page.\<close>

definition setup_screen :: "boot_link \<Rightarrow> kernel \<Rightarrow> kernel option" where
  "setup_screen B k = do {
     k \<leftarrow> timer_init 100 k;
     vbe \<leftarrow> translate (phys (vm (heap k))) (cr3 (vm (heap k))) 0xC0000500;
     k \<leftarrow> on_screen (\<lambda>t. Some (terminal_initialize (vbe_info (phys (vm (heap k))) vbe) t)) k;
     kprintf B (''Bab-OS Kernel Booting...'' @ nl) [] k
   }"

definition setup_files :: "boot_link \<Rightarrow> kernel \<Rightarrow> kernel option" where
  "setup_files B k = do {
     (root, I, h) \<leftarrow> initialise_initrd (boot_initrd B) 0xC0040000 (heap k);
     kprintf B (''VFS Initialized. Root at %x'' @ nl) [root] (k\<lparr>heap := h, mounted := root, initrd_vars := I\<rparr>)
   }"

definition setup_monitors :: "boot_link \<Rightarrow> kernel \<Rightarrow> kernel" where
  "setup_monitors B k = monitor_init (buffer_mon B) (keyboard_init (keyboard_mon B) k)"

text \<open>\<^verbatim>\<open>task_init\<close> and \<^verbatim>\<open>task_create\<close> with their messages.\<close>

definition boot_task_init :: "boot_link \<Rightarrow> kernel \<Rightarrow> kernel option" where
  "boot_task_init B k = do {
     k \<leftarrow> task_init k;
     kprintf B (''Multitasking initialized. Initial task ID: %d'' @ nl) [task_id (tcb k (running_task k))] k
   }"

definition boot_task_create :: "boot_link \<Rightarrow> u32 \<Rightarrow> kernel \<Rightarrow> kernel option" where
  "boot_task_create B entry_point k = do {
     (new_task, k) \<leftarrow> create_task entry_point k;
     kprintf B (''Created task %d at %x, esp %x'' @ nl) [task_id (tcb k new_task), entry_point, esp (tcb k new_task)] k
   }"

definition setup_tasks :: "boot_link \<Rightarrow> kernel \<Rightarrow> kernel option" where
  "setup_tasks B k = do {
     k \<leftarrow> boot_task_init B k;
     k \<leftarrow> boot_task_create B (producer_addr B) k;
     k \<leftarrow> boot_task_create B (consumer_addr B) k;
     boot_task_create B (shell_addr B) k
   }"

text \<open>All of \<^verbatim>\<open>kmain\<close> up to its endless loop of \<^verbatim>\<open>hlt\<close>, which goes on as the idle task.\<close>

definition kmain :: "boot_link \<Rightarrow> kernel \<Rightarrow> kernel option" where
  "kmain B k = do {
     k \<leftarrow> setup_memory (setup_tables B k);
     k \<leftarrow> setup_screen B k;
     k \<leftarrow> setup_files B k;
     k \<leftarrow> setup_tasks B (setup_monitors B k);
     k \<leftarrow> kprintf B (''System Ready. Multitasking active!'' @ nl) [] k;
     Some (sti k)
   }"

section \<open>Memory\<close>

text \<open>The boot loader has put the framebuffer behind the first megabyte of the heap.\<close>

definition boot_vbe :: "kernel \<Rightarrow> vbe_mode_info" where
  "boot_vbe k = vbe_info (phys (vm (heap k))) 0x500"

definition fb_behind :: "vbe_mode_info \<Rightarrow> bool" where
  "fb_behind vbe \<longleftrightarrow> framebuffer_area vbe \<inter> {x. x < KHEAP_START + KHEAP_INITIAL_SIZE} = {}"

lemma fb_behindD: "fb_behind vbe \<Longrightarrow> a \<in> framebuffer_area vbe \<Longrightarrow> KHEAP_START + KHEAP_INITIAL_SIZE \<le> a"
proof (rule ccontr)
  assume f: "fb_behind vbe" "a \<in> framebuffer_area vbe" and n: "\<not> KHEAP_START + KHEAP_INITIAL_SIZE \<le> a"
  then have "a \<in> framebuffer_area vbe \<inter> {x. x < KHEAP_START + KHEAP_INITIAL_SIZE}" by simp
  then show False using f(1) unfolding fb_behind_def by blast
qed

lemma fb_area_size:
  assumes "vbe = vbe_info (phys s) 0x500"
  shows "v_framebuffer vbe = fb_start s" "unat (v_height vbe) * unat (v_pitch vbe) = unat (fb_size s)"
proof -
  show "v_framebuffer vbe = fb_start s" by (simp add: assms vbe_info_def fb_start_def)
  have u: "unat (ucast h :: u32) = unat h" for h :: u16
    using unat_less_16 [of h] by (simp add: unsigned_ucast_eq take_bit_nat_eq_self)
  have "unat (ucast (v_height vbe) * ucast (v_pitch vbe) :: u32) = unat (v_height vbe) * unat (v_pitch vbe)"
    using area_size [of vbe] by (simp add: unat_word_ariths u)
  then show "unat (v_height vbe) * unat (v_pitch vbe) = unat (fb_size s)"
    by (simp add: assms vbe_info_def fb_size_def)
qed

lemma fb_page_high:
  assumes vbe: "vbe = vbe_info (phys s) 0x500" "fb_behind vbe" and i: "i < page_count (fb_size s)"
  shows "KHEAP_START + KHEAP_INITIAL_SIZE \<le> fb_start s + of_nat (4096 * i)"
proof -
  note f = fb_area_size [OF vbe(1)]
  have "4096 * i < unat (fb_size s)" using i by (simp add: page_count_def)
  then have "fb_start s + of_nat (4096 * i) \<in> framebuffer_area vbe"
    using area_offset [of "4096 * i" vbe] unfolding f by simp
  then show ?thesis using vbe(2) by (fastforce simp: fb_behind_def)
qed

lemma heap_limit: "unat (KHEAP_START + KHEAP_INITIAL_SIZE) = 0xD0100000"
  by (simp add: KHEAP_START_def KHEAP_INITIAL_SIZE_def)

definition boot_dirs :: "u32 set" where
  "boot_dirs = {0, 1, 768, 769} \<union> of_nat ` {832..<1024}"

lemma boot_dirs_card: "card boot_dirs \<le> 196"
proof -
  have "card (of_nat ` {832..<1024} :: u32 set) \<le> card {832..<1024 :: nat}" by (rule card_image_le) simp
  moreover have "card {0, 1, 768, 769 :: u32} \<le> 4" by (simp add: card_insert_if)
  ultimately show ?thesis unfolding boot_dirs_def using card_Un_le [of "{0, 1, 768, 769 :: u32}" "of_nat ` {832..<1024}"] by simp
qed

lemma needed_boot_dirs:
  assumes vbe: "vbe = vbe_info (phys s) 0x500" "fb_behind vbe"
  shows "needed_dirs s \<subseteq> boot_dirs"
proof -
  have "drop_bit 22 (fb_start s + of_nat (4096 * i)) \<in> boot_dirs" if "i < page_count (fb_size s)" for i
  proof -
    let ?a = "fb_start s + of_nat (4096 * i)"
    have "0xD0100000 \<le> unat ?a" using fb_page_high [OF vbe that] heap_limit by (simp add: word_le_nat_alt del: of_nat_mult)
    then have "unat ?a div 2 ^ 22 \<in> {832..<1024}" using unat_less_32 [of ?a] by auto
    moreover have "drop_bit 22 ?a = of_nat (unat ?a div 2 ^ 22)" unfolding unat_drop_22 [symmetric] by simp
    ultimately show ?thesis unfolding boot_dirs_def by blast
  qed
  then show ?thesis unfolding needed_dirs_def by (auto simp: boot_dirs_def)
qed

lemma vbe_page_outside:
  assumes vbe: "vbe = vbe_info (phys s) 0x500" "fb_behind vbe"
  shows "\<not> in_range (fb_start s) 0 (page_count (fb_size s)) 0xC0000500"
proof
  assume "in_range (fb_start s) 0 (page_count (fb_size s)) 0xC0000500"
  then obtain i where i: "i < page_count (fb_size s)" "page_base 0xC0000500 = page_base (fb_start s + of_nat (4096 * i))"
    by (auto simp: in_range_def)
  have "0xD0100000 \<le> unat (fb_start s + of_nat (4096 * i))"
    using fb_page_high [OF vbe i(1)] heap_limit by (simp add: word_le_nat_alt del: of_nat_mult)
  then have "0xD0100000 \<le> unat (page_base (fb_start s + of_nat (4096 * i)))" unfolding unat_page_base by simp
  then show False unfolding i(2) [symmetric] unat_page_base by simp
qed

lemma kheap_init_mem:
  assumes "kheap_init s = Some s'"
  shows "\<forall>x. x < KHEAP_START \<or> KHEAP_START + KHEAP_INITIAL_SIZE \<le> x \<longrightarrow> hmem s' x = hmem s x" "heap_end s' = KHEAP_START + KHEAP_INITIAL_SIZE"
proof -
  have w: "store32 (KHEAP_START + of_nat i) v m x = m x" if "x < KHEAP_START \<or> KHEAP_START + KHEAP_INITIAL_SIZE \<le> x" "i < 32" for x v m i
  proof -
    have "x \<notin> bytes_from (KHEAP_START + of_nat i) 4"
    proof
      assume "x \<in> bytes_from (KHEAP_START + of_nat i) 4"
      then obtain j where j: "j < 4" "x = KHEAP_START + of_nat (i + j)" using bytes_from_ex by (fastforce simp: add.assoc)
      have "unat x = unat KHEAP_START + (i + j)" unfolding j(2) using j(1) that(2) by (intro unat_add_of_nat) (simp add: KHEAP_START_def)
      then show False using that j(1) heap_limit by (auto simp: word_less_nat_alt word_le_nat_alt KHEAP_START_def)
    qed
    then show ?thesis using only_store32 [of "KHEAP_START + of_nat i" m v] by (simp add: only_def)
  qed
  have b: "KHEAP_START + 4 \<noteq> x" if "x < KHEAP_START \<or> KHEAP_START + KHEAP_INITIAL_SIZE \<le> x" for x
    using that by (auto simp: KHEAP_START_def KHEAP_INITIAL_SIZE_def)
  obtain v where v: "map_fresh_loop 0 KHEAP_INITIAL_SIZE KHEAP_START (vm s) = Some v"
    using assms by (auto simp: kheap_init_def split: option.splits)
  then have "hmem s' x = hmem s x" if "x < KHEAP_START \<or> KHEAP_START + KHEAP_INITIAL_SIZE \<le> x" for x
    using assms w [OF that, of 0] w [OF that, of 8] w [OF that, of 12] w [OF that, of 16] b [OF that]
    by (auto simp: kheap_init_def set_magic_def set_is_hole_def set_size_def set_next_def set_prev_def Let_def)
  then show "\<forall>x. x < KHEAP_START \<or> KHEAP_START + KHEAP_INITIAL_SIZE \<le> x \<longrightarrow> hmem s' x = hmem s x" by blast
  show "heap_end s' = KHEAP_START + KHEAP_INITIAL_SIZE" using v assms by (auto simp: kheap_init_def Let_def)
qed

lemma setup_memory_ok:
  assumes b: "boot_ok ((vm (heap k))\<lparr>pmm := kmain_pmm (pmm (vm (heap k)))\<rparr>)" and fb: "fb_behind (boot_vbe k)"
  obtains h where "setup_memory k = Some (k\<lparr>heap := h\<rparr>)" "heap_ok h [(KHEAP_INITIAL_SIZE - 20, True)]"
    "heap_end h = KHEAP_START + KHEAP_INITIAL_SIZE" "low_kept (hmem (heap k)) (hmem h)"
    "interrupt_handlers (vm h) = (interrupt_handlers (vm (heap k)))(14 := Some page_fault_handler)"
    "translate (phys (vm h)) (cr3 (vm h)) 0xC0000500 = Some 0x500" "\<forall>a. page_base a = 0 \<longrightarrow> phys (vm h) a = phys (vm (heap k)) a"
proof -
  let ?p = "kmain_pmm (pmm (vm (heap k)))"
  let ?v = "(vm (heap k))\<lparr>pmm := ?p\<rparr>"
  have vbe: "boot_vbe k = vbe_info (phys ?v) 0x500" by (simp add: boot_vbe_def)
  have c: "card boot_dirs + 500 < card (low_frames (pmm ?v))" using boot_dirs_card kmain_low_frames by simp
  obtain v dir where v: "vmm_init ?v = Some v" "vmm_ok v" "room v boot_dirs 500" "cr3 v = dir" "current_directory v = dir"
    "interrupt_handlers v = (interrupt_handlers ?v)(14 := Some page_fault_handler)"
    "translate (phys v) dir 0xC0000500 =
      (if in_range (fb_start ?v) 0 (page_count (fb_size ?v)) 0xC0000500 then Some 0xC0000500
       else if unat (0xC0000500 - 0xC0000000 :: u32) < 0x800000 then Some (0xC0000500 - 0xC0000000)
       else if unat (0xC0000500 :: u32) < 0x800000 then Some 0xC0000500 else None)"
    "0 \<notin> dir_pages (phys v) dir" "\<And>a. page_base a = 0 \<Longrightarrow> phys v a = phys ?v a"
    by (rule vmm_init_spec [OF b needed_boot_dirs [OF vbe fb] c]) (rule that)
  let ?s = "(heap k)\<lparr>vm := v\<rparr>"
  have d: "new_dirs KHEAP_START 256 \<subseteq> {832}" by (rule new_dirs_832 [of _ 0]) (simp_all add: KHEAP_START_def)
  have "832 \<in> boot_dirs" unfolding boot_dirs_def by (rule UnI2, rule image_eqI [of _ _ 832]) simp_all
  then have fr: "frames_for (vm ?s) {832} (256 + 100)" using frames_for_mono [OF room_frames [OF v(3)]] by simp
  obtain h where h: "kheap_init ?s = Some h" "heap_ok h [(KHEAP_INITIAL_SIZE - 20, True)]" "cr3 (vm h) = cr3 v" "vmm_ext v (vm h)"
    "\<forall>x. x < KHEAP_START \<longrightarrow> entry (phys (vm h)) (current_directory v) x = entry (phys v) (current_directory v) x"
    using kheap_init_ok [OF _ d fr] v(2) by auto
  have run: "setup_memory k = Some (k\<lparr>heap := h\<rparr>)" using v(1) h(1) by (simp add: setup_memory_def on_vm_def Let_def)
  have e: "(0xC0000500 :: u32) < KHEAP_START" by (simp add: KHEAP_START_def)
  have tr: "translate (phys (vm h)) (cr3 (vm h)) 0xC0000500 = Some 0x500"
    using v(7) vbe_page_outside [OF vbe fb] h(3) h(5) [rule_format, OF e] v(4,5) by (simp add: translate_def)
  have "0 \<notin> free_frames (pmm v)" using pmm.frame_aligned [OF vmm_okD(1) [OF v(2)], of 0] by auto
  then have "0 \<notin> dir_pages (phys (vm h)) dir" using v(5,8) vmm_extD(7) [OF h(4)] by auto
  then have low: "phys (vm h) a = phys (vm (heap k)) a" if "page_base a = 0" for a
    using v(5,9) vmm_extD(9) [OF h(4), of a] that by simp
  show thesis
    by (rule that [OF run h(2) _ _ _ tr]) (use kheap_init_mem [OF h(1)] v(6) vmm_extD(5) [OF h(4)] low in auto)
qed

section \<open>The screen\<close>

definition kernel_console :: "kernel \<Rightarrow> console" where
  "kernel_console k = \<lparr>con_heap = heap k, con_term = screen k\<rparr>"

lemma kernel_console_simps [simp]: "con_heap (kernel_console k) = heap k" "con_term (kernel_console k) = screen k"
  "con_mem (kernel_console k) = hmem (heap k)" "view (kernel_console k) = (screen k)\<lparr>vmem := hmem (heap k)\<rparr>"
  by (simp_all add: kernel_console_def con_mem_def view_def)

text \<open>Memory outside of the heap can be written without harm to the heap.\<close>

lemma heap_room_outside:
  assumes "heap_room s k" and o: "only {x. x < KHEAP_START \<or> heap_end s \<le> x} (hmem s) m'"
  shows "heap_room (s\<lparr>hmem := m'\<rparr>) k" "live (s\<lparr>hmem := m'\<rparr>) = live s"
proof -
  obtain ws b where ok: "heap_ok s (ws @ [(b, True)])" and b: "k \<le> unat b" using assms(1) by (auto simp: heap_room_def)
  let ?bs = "ws @ [(b, True)]"
  have bd: "unat KHEAP_START + span ?bs < 2 ^ 32" using heap_ok_bounds(1) [OF ok] by simp
  have "bytes_from h 20 \<inter> {x. x < KHEAP_START \<or> heap_end s \<le> x} = {}" if h: "h \<in> set (heads KHEAP_START ?bs)" for h
  proof -
    have "a < heap_end s" if a: "a \<in> bytes_from h 20" for a
    proof -
      obtain i where i: "i < 20" "a = h + of_nat i" using bytes_from_ex [OF a] by blast
      have "unat a = unat h + i" unfolding i(2) using heads_range [OF h] bd i(1) by (intro unat_add_of_nat) simp
      then show ?thesis using heads_range [OF h] bd i(1) heap_okD(5) [OF ok] by (simp add: word_less_nat_alt)
    qed
    then show ?thesis using heads_above [OF ok h] by fastforce
  qed
  then have "\<forall>h \<in> set (heads KHEAP_START ?bs). bytes_from h 20 \<inter> {x. x < KHEAP_START \<or> heap_end s \<le> x} = {}" by blast
  note f = heap_ok_frame [OF ok o this]
  show "heap_room (s\<lparr>hmem := m'\<rparr>) k" "live (s\<lparr>hmem := m'\<rparr>) = live s" using f b by (auto simp: heap_room_def)
qed

text \<open>A state in which the kernel can print: \<open>u\<close> is what the screen shows.\<close>

definition printing :: "boot_link \<Rightarrow> vbe_mode_info \<Rightarrow> nat \<Rightarrow> kernel \<Rightarrow> term_sys \<Rightarrow> bool" where
  "printing B vbe j k u \<longleftrightarrow> screen_is (kernel_console k) u \<and> terminal_vbe (screen k) = vbe \<and> fb_behind vbe \<and>
     heap_end (heap k) = KHEAP_START + KHEAP_INITIAL_SIZE \<and> heap_room (heap k) j \<and> unat (boot_digits B) + 34 \<le> unat KHEAP_START"

definition print_bytes :: "boot_link \<Rightarrow> vbe_mode_info \<Rightarrow> u32 set" where
  "print_bytes B vbe = framebuffer_area vbe \<union> bytes_from (boot_digits B) 34"

lemma print_bytes_outside:
  assumes "fb_behind vbe" "unat (boot_digits B) + 34 \<le> unat KHEAP_START"
  shows "print_bytes B vbe \<subseteq> {x. x < KHEAP_START \<or> KHEAP_START + KHEAP_INITIAL_SIZE \<le> x}"
    "bytes_from (boot_digits B) 34 \<inter> framebuffer_area vbe = {}"
proof -
  have f: "KHEAP_START + KHEAP_INITIAL_SIZE \<le> a" if "a \<in> framebuffer_area vbe" for a
    using assms(1) that by (fastforce simp: fb_behind_def)
  have d: "bytes_from (boot_digits B) 34 \<subseteq> {x. x < KHEAP_START}" by (rule low_bytes [OF assms(2)])
  have "KHEAP_START \<le> KHEAP_START + KHEAP_INITIAL_SIZE" by (simp add: KHEAP_START_def KHEAP_INITIAL_SIZE_def)
  then show "bytes_from (boot_digits B) 34 \<inter> framebuffer_area vbe = {}" using f d by fastforce
  show "print_bytes B vbe \<subseteq> {x. x < KHEAP_START \<or> KHEAP_START + KHEAP_INITIAL_SIZE \<le> x}"
    using f d unfolding print_bytes_def by blast
qed

lemma kprintf_ok:
  assumes p: "printing B vbe j k u" and out: "formatted (\<lambda>_. []) (ascii fmt) args = Some out" "\<forall>x \<in> set out. x < 0x80"
    and str: "string_args (ascii fmt) args = []"
  obtains t u' where "kprintf B fmt args k = Some (k\<lparr>screen := t, heap := (heap k)\<lparr>hmem := vmem t\<rparr>\<rparr>)" "terminal_puts out u = Some u'"
    "printing B vbe j (k\<lparr>screen := t, heap := (heap k)\<lparr>hmem := vmem t\<rparr>\<rparr>) u'" "only (print_bytes B vbe) (hmem (heap k)) (vmem t)"
    "live ((heap k)\<lparr>hmem := vmem t\<rparr>) = live (heap k)"
proof -
  define E :: shell_env where "E = undefined\<lparr>print_buf := boot_digits B\<rparr>"
  have E: "print_buf E = boot_digits B" by (simp add: E_def)
  note P = p [unfolded printing_def]
  have d34: "digits_area (boot_digits B) = bytes_from (boot_digits B) 34" by (simp add: digits_area_def bytes_from_def)
  have b: "fb_behind vbe" "unat (boot_digits B) + 34 \<le> unat KHEAP_START" using P by simp_all
  note pb = print_bytes_outside [OF b]
  obtain c' u' where c: "con_printf E fmt args (kernel_console k) = Some c'" "terminal_puts out u = Some u'" "screen_is c' u'"
    "terminal_vbe (con_term c') = vbe" "only (print_area E (kernel_console k)) (hmem (heap k)) (con_mem c')"
    by (rule con_printf_ok [where c = "kernel_console k" and E = E and u = u, OF _ _ _ out])
       (use P pb(2) str unat_less_32 [of KHEAP_START] in \<open>simp_all add: E d34\<close>)
  obtain t where t: "printf_lit (boot_digits B) (ascii fmt) args ((screen k)\<lparr>vmem := hmem (heap k)\<rparr>) = Some t" "c' = show_screen t (kernel_console k)"
    using c(1) by (auto simp: con_printf_def E)
  let ?k = "k\<lparr>screen := t, heap := (heap k)\<lparr>hmem := vmem t\<rparr>\<rparr>"
  have c': "c' = kernel_console ?k" unfolding t(2) by (simp add: show_screen_def kernel_console_def)
  have o: "only (print_bytes B vbe) (hmem (heap k)) (vmem t)"
    using c(5) P unfolding c' by (simp add: print_area_def print_bytes_def E d34)
  have "only {x. x < KHEAP_START \<or> heap_end (heap k) \<le> x} (hmem (heap k)) (vmem t)" using only_mono [OF o pb(1)] P by simp
  note r = heap_room_outside [OF _ this]
  have "printing B vbe j ?k u'" using P c(3,4) r(1) [of j] unfolding c' printing_def by simp
  moreover have "kprintf B fmt args k = Some ?k" using t(1) by (simp add: kprintf_def on_screen_def)
  ultimately show thesis using c(2) o r(2) [of j] P by (intro that) simp_all
qed

definition banner :: "u8 list" where "banner = ascii (''Bab-OS Kernel Booting...'' @ nl)"

lemma banner_ok: "formatted (\<lambda>_. []) (ascii (''Bab-OS Kernel Booting...'' @ nl)) [] = Some banner" "\<forall>x \<in> set banner. x < 0x80"
  "string_args (ascii (''Bab-OS Kernel Booting...'' @ nl)) [] = []"
  unfolding banner_def by code_simp+

lemma timer_init_100:
  obtains l where "timer_init 100 k = Some ((set_handler 32 timer_callback k)\<lparr>ports := l\<rparr>)"
  by (simp add: timer_init_def Let_def)

lemma heap_room_handlers:
  "heap_room (s\<lparr>vm := (vm s)\<lparr>interrupt_handlers := f\<rparr>\<rparr>) j = heap_room s j" "live (s\<lparr>vm := (vm s)\<lparr>interrupt_handlers := f\<rparr>\<rparr>) = live s"
proof -
  have "backed ((vm s)\<lparr>interrupt_handlers := f\<rparr>) P = backed (vm s) P" for P
    by (simp add: backed_def frame_of_def cong: inj_on_cong)
  then have "heap_ok (s\<lparr>vm := (vm s)\<lparr>interrupt_handlers := f\<rparr>\<rparr>) bs = heap_ok s bs" for bs
    by (simp add: heap_ok_def vmm_ok_def)
  then show "heap_room (s\<lparr>vm := (vm s)\<lparr>interrupt_handlers := f\<rparr>\<rparr>) j = heap_room s j" "live (s\<lparr>vm := (vm s)\<lparr>interrupt_handlers := f\<rparr>\<rparr>) = live s"
    by (simp_all add: heap_room_def live_def)
qed

lemma terminal_initialize_ok:
  assumes "vbe_ok vbe"
  shows "term_ok (terminal_initialize vbe t)" "terminal_vbe (terminal_initialize vbe t) = vbe"
    "only (framebuffer_area vbe) (vmem t) (vmem (terminal_initialize vbe t))"
proof -
  have w: "0 < unat (v_width vbe) - 8" "0 < unat (v_height vbe) - 10" using assms by (simp_all add: vbe_ok_def word_less_nat_alt)
  have i: "terminal_vbe (terminal_initialize vbe t) = vbe" "terminal_row (terminal_initialize vbe t) = 0"
    "terminal_column (terminal_initialize vbe t) = 0" by (simp_all add: terminal_initialize_def terminal_clear_def)
  then show "term_ok (terminal_initialize vbe t)" "terminal_vbe (terminal_initialize vbe t) = vbe"
    using w assms by (simp_all add: term_ok_def)
  have "within (framebuffer_area vbe) (clear_lines vbe 0 (unat (v_height vbe)))" by (rule clear_lines_within [OF assms order_refl])
  then show "only (framebuffer_area vbe) (vmem t) (vmem (terminal_initialize vbe t))"
    by (simp add: terminal_initialize_def terminal_clear_def within_def only_def)
qed

lemma setup_screen_ok:
  assumes tr: "translate (phys (vm (heap k))) (cr3 (vm (heap k))) 0xC0000500 = Some 0x500" and vbe: "vbe_ok (boot_vbe k)" "fb_behind (boot_vbe k)"
    and he: "heap_end (heap k) = KHEAP_START + KHEAP_INITIAL_SIZE" and room: "heap_room (heap k) j"
    and dg: "unat (boot_digits B) + 34 \<le> unat KHEAP_START"
  obtains l t u where "terminal_puts banner (terminal_initialize (boot_vbe k) ((screen k)\<lparr>vmem := hmem (heap k)\<rparr>)) = Some u"
    "setup_screen B k = Some ((set_handler 32 timer_callback k)\<lparr>ports := l, screen := t,
       heap := (heap (set_handler 32 timer_callback k))\<lparr>hmem := vmem t\<rparr>\<rparr>)"
    "printing B (boot_vbe k) j ((set_handler 32 timer_callback k)\<lparr>ports := l, screen := t,
       heap := (heap (set_handler 32 timer_callback k))\<lparr>hmem := vmem t\<rparr>\<rparr>) u"
    "only (print_bytes B (boot_vbe k)) (hmem (heap k)) (vmem t)"
proof -
  let ?v = "boot_vbe k" and ?s = "set_handler 32 timer_callback k"
  obtain l where l: "timer_init 100 k = Some (?s\<lparr>ports := l\<rparr>)" by (rule timer_init_100)
  define k1 where "k1 = ?s\<lparr>ports := l\<rparr>"
  have hp: "heap k1 = (heap k)\<lparr>vm := (vm (heap k))\<lparr>interrupt_handlers := register_interrupt_handler 32 timer_callback (interrupt_handlers (vm (heap k)))\<rparr>\<rparr>"
    and sc: "screen k1 = screen k" by (simp_all add: k1_def set_handler_def)
  let ?t = "terminal_initialize ?v ((screen k)\<lparr>vmem := hmem (heap k)\<rparr>)"
  define k2 where "k2 = k1\<lparr>screen := ?t, heap := (heap k1)\<lparr>hmem := vmem ?t\<rparr>\<rparr>"
  note ti = terminal_initialize_ok [OF vbe(1), of "(screen k)\<lparr>vmem := hmem (heap k)\<rparr>"]
  note pb = print_bytes_outside [OF vbe(2) dg]
  have o2: "only (print_bytes B ?v) (hmem (heap k)) (vmem ?t)" using only_mono [OF ti(3)] by (simp add: print_bytes_def)
  have "only {x. x < KHEAP_START \<or> heap_end (heap k1) \<le> x} (hmem (heap k1)) (vmem ?t)"
    using only_mono [OF o2 pb(1)] he by (simp add: hp)
  moreover have "heap_room (heap k1) j" using room heap_room_handlers(1) by (simp add: hp)
  ultimately have r2: "heap_room (heap k2) j" using heap_room_outside(1) by (simp add: k2_def)
  have "printing B ?v j k2 ?t"
    using ti(1,2) r2 he vbe(2) dg by (simp add: printing_def screen_is_def same_screen_def k2_def hp)
  then obtain t u where t: "kprintf B (''Bab-OS Kernel Booting...'' @ nl) [] k2 = Some (k2\<lparr>screen := t, heap := (heap k2)\<lparr>hmem := vmem t\<rparr>\<rparr>)"
    "terminal_puts banner ?t = Some u" "printing B ?v j (k2\<lparr>screen := t, heap := (heap k2)\<lparr>hmem := vmem t\<rparr>\<rparr>) u"
    "only (print_bytes B ?v) (hmem (heap k2)) (vmem t)" by (rule kprintf_ok [OF _ banner_ok])
  have "on_screen (\<lambda>t. Some (terminal_initialize (vbe_info (phys (vm (heap k1))) 0x500) t)) k1 = Some k2"
    by (simp add: on_screen_def k2_def hp sc boot_vbe_def)
  then have run: "setup_screen B k = Some (k2\<lparr>screen := t, heap := (heap k2)\<lparr>hmem := vmem t\<rparr>\<rparr>)"
    using l tr t(1) by (simp add: setup_screen_def k1_def set_handler_def)
  have e: "k2\<lparr>screen := t, heap := (heap k2)\<lparr>hmem := vmem t\<rparr>\<rparr> = ?s\<lparr>ports := l, screen := t, heap := (heap ?s)\<lparr>hmem := vmem t\<rparr>\<rparr>"
    by (simp add: k2_def k1_def)
  have "only (print_bytes B ?v) (hmem (heap k)) (vmem t)" by (rule only_trans [OF o2]) (use t(4) in \<open>simp add: k2_def\<close>)
  with t(2) run t(3) show thesis unfolding e by (rule that)
qed

end
