(* ===== verification/Boot_Tasks.thy ===== *)
theory Boot_Tasks
  imports Boot
begin

text \<open>
  The steps of \<^verbatim>\<open>kmain\<close> behind the screen: the ramdisk and the file system, the idle task, and the
  three tasks with the frames in their stacks from which they start.
\<close>

section \<open>Files\<close>

definition mounted_text :: "u32 \<Rightarrow> u8 list" where
  "mounted_text root = ascii ''VFS Initialized. Root at '' @ [0x30, 0x78] @ itoa_text root 16 @ [0x0A]"

lemma mounted_ok: "formatted (\<lambda>_. []) (ascii (''VFS Initialized. Root at %x'' @ nl)) [r] = Some (mounted_text r)"
  "\<forall>x \<in> set (mounted_text r). x < 0x80" "string_args (ascii (''VFS Initialized. Root at %x'' @ nl)) [r] = []"
  using itoa_text_ascii [of 16 r] by (simp_all add: ascii_def nl_def mounted_text_def)

lemma low_fb:
  assumes "fb_behind vbe" "S \<subseteq> {x. x < KHEAP_START}"
  shows "S \<inter> framebuffer_area vbe = {}"
proof -
  have "KHEAP_START \<le> KHEAP_START + KHEAP_INITIAL_SIZE" by (simp add: KHEAP_START_def KHEAP_INITIAL_SIZE_def)
  then show ?thesis using assms(2) fb_behindD [OF assms(1)] by fastforce
qed

lemma live_print_apart:
  assumes b: "fb_behind vbe" "unat (boot_digits B) + 34 \<le> unat KHEAP_START" and inv: "heap_inv s"
    and he: "heap_end s = KHEAP_START + KHEAP_INITIAL_SIZE" and q: "(q, w) \<in> live s" "n \<le> unat w"
  shows "bytes_from q n \<inter> print_bytes B vbe = {}"
  using live_bytes [OF inv q(1)] bytes_from_mono [OF q(2), of q] print_bytes_outside(1) [OF b] he by fastforce

lemma print_initrd_apart:
  assumes b: "fb_behind vbe" "unat (boot_digits B) + 34 \<le> unat KHEAP_START" and inv: "heap_inv s"
    and he: "heap_end s = KHEAP_START + KHEAP_INITIAL_SIZE"
    and nodes: "(initrd_root I, z1) \<in> live s" "(initrd_dev I, z2) \<in> live s" "(root_nodes I, z3) \<in> live s"
    and sz: "184 \<le> unat z1" "184 \<le> unat z2" "184 * length files \<le> unat z3" and ld: "initrd_loaded L (initrd_header I) files m"
    and ap: "bytes_from (boot_digits B) 34 \<inter> (bytes_from (initrd_header I) (length (mkinitrd files)) \<union> bytes_from (lit_dev L) 4) = {}"
  shows "print_bytes B vbe \<inter> initrd_area L I files = {}"
proof -
  have imgl: "bytes_from (initrd_header I) (length (mkinitrd files)) \<subseteq> {x. x < KHEAP_START}" "bytes_from (lit_dev L) 4 \<subseteq> {x. x < KHEAP_START}"
    by (rule low_bytes, use ld in \<open>simp add: initrd_loaded_def\<close>)+
  note bl = live_print_apart [OF b inv he nodes(1) sz(1)] live_print_apart [OF b inv he nodes(2) sz(2)] live_print_apart [OF b inv he nodes(3) sz(3)]
  show ?thesis using bl low_fb [OF b(1) imgl(1)] low_fb [OF b(1) imgl(2)] ap unfolding initrd_area_def print_bytes_def by blast
qed

lemma setup_files_ok:
  assumes p: "printing B vbe (184 * length files + 431 + j) k u" and ld: "initrd_loaded (boot_initrd B) 0xC0040000 files (hmem (heap k))"
    and ap: "bytes_from (boot_digits B) 34 \<inter> (bytes_from 0xC0040000 (length (mkinitrd files)) \<union> bytes_from (lit_dev (boot_initrd B)) 4) = {}"
  obtains I h t u' z1 z2 z3 where
    "setup_files B k = Some (k\<lparr>heap := h, mounted := initrd_root I, initrd_vars := I, screen := t\<rparr>)"
    "terminal_puts (mounted_text (initrd_root I)) u = Some u'"
    "printing B vbe j (k\<lparr>heap := h, mounted := initrd_root I, initrd_vars := I, screen := t\<rparr>) u'"
    "initrd_header I = 0xC0040000" "initrd_ok (boot_initrd B) I files (hmem h)"
    "live h = live (heap k) \<union> {(initrd_root I, z1), (initrd_dev I, z2), (root_nodes I, z3)}"
    "184 \<le> unat z1" "184 \<le> unat z2" "184 * length files \<le> unat z3" "vm h = vm (heap k)"
    "\<forall>x. x < KHEAP_START \<longrightarrow> x \<notin> bytes_from 0xC0040000 (length (mkinitrd files)) \<union> bytes_from (boot_digits B) 34 \<longrightarrow> hmem h x = hmem (heap k) x"
proof -
  let ?L = "boot_initrd B" and ?img = "bytes_from 0xC0040000 (length (mkinitrd files))"
  note P = p [unfolded printing_def]
  have r: "heap_room (heap k) (184 * length files + 431 + j)" using P by simp
  obtain I s1 z1 z2 z3 where 1: "initialise_initrd ?L 0xC0040000 (heap k) = Some (initrd_root I, I, s1)" "initrd_header I = 0xC0040000"
    "initrd_ok ?L I files (hmem s1)" "live s1 = live (heap k) \<union> {(initrd_root I, z1), (initrd_dev I, z2), (root_nodes I, z3)}"
    "184 \<le> unat z1" "184 \<le> unat z2" "184 * length files \<le> unat z3" "heap_room s1 (j + 1)" "heap_end s1 = heap_end (heap k)"
    "\<forall>x. x < KHEAP_START \<longrightarrow> x \<notin> ?img \<longrightarrow> hmem s1 x = hmem (heap k) x" "high_kept (heap k) (hmem s1)" "vm s1 = vm (heap k)"
    by (rule initialise_more [OF ld r]) (rule that)
  define k1 where "k1 = k\<lparr>heap := s1, mounted := initrd_root I, initrd_vars := I\<rparr>"
  have b: "fb_behind vbe" "unat (boot_digits B) + 34 \<le> unat KHEAP_START" using P by simp_all
  note pb = print_bytes_outside [OF b]
  have fb: "hmem s1 a = hmem (heap k) a" if "a \<in> framebuffer_area vbe" for a
    using 1(11) P fb_behindD [OF b(1) that] by simp
  have "screen_is (kernel_console k1) u"
    by (rule screen_frame [of "kernel_console k"]) (use P fb in \<open>simp_all add: k1_def\<close>)
  then have p1: "printing B vbe j k1 u" using P 1(9) heap_room_mono [OF 1(8), of j] by (simp add: printing_def k1_def)
  obtain t u' where t: "kprintf B (''VFS Initialized. Root at %x'' @ nl) [initrd_root I] k1 = Some (k1\<lparr>screen := t, heap := (heap k1)\<lparr>hmem := vmem t\<rparr>\<rparr>)"
    "terminal_puts (mounted_text (initrd_root I)) u = Some u'" "printing B vbe j (k1\<lparr>screen := t, heap := (heap k1)\<lparr>hmem := vmem t\<rparr>\<rparr>) u'"
    "only (print_bytes B vbe) (hmem (heap k1)) (vmem t)" "live ((heap k1)\<lparr>hmem := vmem t\<rparr>) = live (heap k1)"
    by (rule kprintf_ok [OF p1 mounted_ok])
  let ?h = "s1\<lparr>hmem := vmem t\<rparr>"
  have e: "k1\<lparr>screen := t, heap := (heap k1)\<lparr>hmem := vmem t\<rparr>\<rparr> = k\<lparr>heap := ?h, mounted := initrd_root I, initrd_vars := I, screen := t\<rparr>"
    by (simp add: k1_def)
  have inv: "heap_inv s1" by (rule heap_room_inv [OF 1(8)])
  have nodes: "(initrd_root I, z1) \<in> live s1" "(initrd_dev I, z2) \<in> live s1" "(root_nodes I, z3) \<in> live s1" using 1(4) by simp_all
  have he: "heap_end s1 = KHEAP_START + KHEAP_INITIAL_SIZE" using 1(9) P by simp
  note low = low_fb [OF b(1)]
  have "print_bytes B vbe \<inter> initrd_area ?L I files = {}"
    by (rule print_initrd_apart [OF b inv he nodes 1(5,6,7)]) (use ld ap 1(2) in simp_all)
  then have ok: "initrd_ok ?L I files (hmem ?h)" using initrd_ok_only [OF 1(3), of "print_bytes B vbe" "vmem t"] t(4) by (simp add: k1_def)
  have "hmem ?h x = hmem (heap k) x" if "x < KHEAP_START" "x \<notin> ?img \<union> bytes_from (boot_digits B) 34" for x
  proof -
    have "x \<notin> print_bytes B vbe" using low [of "{x}"] that by (simp add: print_bytes_def)
    then show ?thesis using t(4) 1(10) that by (simp add: only_def k1_def)
  qed
  moreover have "setup_files B k = Some (k\<lparr>heap := ?h, mounted := initrd_root I, initrd_vars := I, screen := t\<rparr>)"
    using 1(1) t(1) e by (simp add: setup_files_def k1_def)
  moreover have "live ?h = live s1" using t(5) by (simp add: k1_def)
  ultimately show thesis
    by (intro that [OF _ t(2) t(3) [unfolded e] 1(2) ok _ 1(5,6,7)]) (use 1(4,12) in simp_all)
qed

section \<open>Tasks\<close>

lemma heap_room_ready: "heap_room s (unat sz + 21) \<Longrightarrow> heap_ready s sz"
proof -
  assume "heap_room s (unat sz + 21)"
  then obtain ws b where ok: "heap_ok s (ws @ [(b, True)])" and b: "unat sz + 20 < unat b" by (auto simp: heap_room_def)
  obtain ws' b' p where "take_block KHEAP_START (ws @ [(b, True)]) sz False = Some (ws' @ [(b', True)], p)"
    using take_block_room [OF b] by blast
  then show "heap_ready s sz" using ok by (auto simp: heap_ready_def)
qed

text \<open>Allocating and using what was allocated.\<close>

definition heap_grows :: "heap_state \<Rightarrow> heap_state \<Rightarrow> bool" where
  "heap_grows s s' \<longleftrightarrow> kept (live s) s s' \<and> live s \<subseteq> live s' \<and> low_kept (hmem s) (hmem s') \<and> high_kept s (hmem s') \<and>
     heap_end s' = heap_end s \<and> vm s' = vm s"

lemma heap_grows_trans: "heap_grows s s1 \<Longrightarrow> heap_grows s1 s2 \<Longrightarrow> heap_grows s s2"
  unfolding heap_grows_def using kept_trans [of "live s" s s1 "live s1" s2] by auto

lemma heap_growsD: "heap_grows s s' \<Longrightarrow> kept (live s) s s'" "heap_grows s s' \<Longrightarrow> live s \<subseteq> live s'"
  by (simp_all add: heap_grows_def)

lemma task_create_frame:
  assumes "task_create e s = Some s'" "kmalloc 32 (heap s) = Some (p, h1)" "kmalloc 4096 h1 = Some (q, h2)"
  obtains m where "m = snd (fold push (initial_frame e) (q + 4096, hmem h2))" "heap s' = h2\<lparr>hmem := m\<rparr>"
    "s' = s\<lparr>heap := heap s', tcb := tcb s', next_task_id := next_task_id s'\<rparr>"
proof -
  obtain ptr m where f: "fold push (initial_frame e) (q + 4096, hmem h2) = (ptr, m)" by fastforce
  have "heap s' = h2\<lparr>hmem := m\<rparr>" "s' = s\<lparr>heap := heap s', tcb := tcb s', next_task_id := next_task_id s'\<rparr>"
    using assms f by (auto simp: task_create_def create_task_def set_tcb_def Let_def split: option.splits)
  with f show thesis by (intro that) simp_all
qed

lemma task_create_room:
  assumes ok: "tasks_ok s ts" and room: "heap_room (heap s) (4170 + j)"
  obtains s' p w where "task_create start s = Some s'" "tasks_ok s' (ts @ [p])" "p \<notin> set ts"
    "running_task s' = running_task s" "task_state (tcb s' p) = TASK_READY" "\<forall>x \<in> set ts. task_state (tcb s' x) = task_state (tcb s x)"
    "\<forall>x \<in> set ts. kstack (tcb s' x) = kstack (tcb s x) \<and> esp (tcb s' x) = esp (tcb s x)"
    "(kstack (tcb s' p), w) \<in> live (heap s')" "4096 \<le> w" "\<forall>v. (kstack (tcb s' p), v) \<notin> live (heap s)"
    "r_eip (get_registers (hmem (heap s')) (esp (tcb s' p))) = start" "heap_grows (heap s) (heap s')" "heap_room (heap s') j"
    "s' = s\<lparr>heap := heap s', tcb := tcb s', next_task_id := next_task_id s'\<rparr>" "esp (tcb s' p) = kstack (tcb s' p) + 4040"
    "create_task start s = Some (p, s')" "task_id (tcb s' p) = next_task_id s" "next_task_id s' = next_task_id s + 1"
proof -
  have r1: "heap_room (heap s) (unat (32 :: u32) + 21 + (4117 + j))" using room by simp
  obtain p1 y1 h1 where 1: "kmalloc 32 (heap s) = Some (p1, h1)" "heap_room h1 (4117 + j + 1)" "low_kept (hmem (heap s)) (hmem h1)"
    "heap_end h1 = heap_end (heap s)" "vm h1 = vm (heap s)" "high_kept (heap s) (hmem h1)"
    by (rule kmalloc_room_all [OF r1]) (simp, blast)
  have r2: "heap_room h1 (unat (4096 :: u32) + 21 + j)" using heap_room_mono [OF 1(2)] by simp
  obtain q w2 h2 where 2: "kmalloc 4096 h1 = Some (q, h2)" "heap_room h2 (j + 1)" "4096 \<le> w2" "(q, w2) \<in> live h2" "low_kept (hmem h1) (hmem h2)"
    "heap_end h2 = heap_end h1" "vm h2 = vm h1" "high_kept h1 (hmem h2)"
    by (rule kmalloc_room_all [OF r2]) (simp, blast)
  have ready: "heap_ready (heap s) 32" by (rule heap_room_ready) (use heap_room_mono [OF room] in simp)
  have ready2: "heap_ready h 4096" if "kmalloc 32 (heap s) = Some (p, h)" for p h
    using that 1(1) heap_room_ready [OF heap_room_mono [OF 1(2)], of 4096] by simp
  have ne: "ts \<noteq> []" using ok by (auto simp: tasks_ok_def)
  obtain s' p q' w where s': "task_create start s = Some s'" "tasks_ok s' (ts @ [p])" "p \<notin> set ts"
    "running_task s' = running_task s" "next_task_id s' = next_task_id s + 1"
    "tcb s' = (tcb s)
       (p := (tcb s p)\<lparr>task_id := next_task_id s, kstack := q', esp := q' + 4040,
           page_directory := current_directory (vm (heap s')), task_state := TASK_READY, sleep_ticks := 0, task_next := 0\<rparr>,
        last ts := (tcb s (last ts))\<lparr>task_next := p\<rparr>)"
    "(q', w) \<in> live (heap s')" "4096 \<le> w" "\<forall>v. (q', v) \<notin> live (heap s)"
    "get_registers (hmem (heap s')) (q' + 4040) = \<lparr>r_ds = 0x10, r_edi = 0, r_esi = 0, r_ebp = 0, r_esp = 0,
       r_ebx = 0, r_edx = 0, r_ecx = 0, r_eax = 0, r_int_no = 0, r_err_code = 0, r_eip = start, r_cs = 8,
       r_eflags = 0x202\<rparr>"
    "kept (live (heap s)) (heap s) (heap s')" "live (heap s) \<subseteq> live (heap s')" "create_task start s = Some (p, s')"
    by (rule task_create_ok [OF ok ready ready2]) (auto simp: kept_def)
  obtain m where m: "m = snd (fold push (initial_frame start) (q + 4096, hmem h2))" "heap s' = h2\<lparr>hmem := m\<rparr>"
    "s' = s\<lparr>heap := heap s', tcb := tcb s', next_task_id := next_task_id s'\<rparr>" by (rule task_create_frame [OF s'(1) 1(1) 2(1)])
  have inv: "heap_inv h2" by (rule heap_room_inv [OF 2(2)])
  have w2: "4096 \<le> unat w2" using 2(3) by (simp add: word_le_nat_alt)
  have "length (initial_frame start) = 14" by (simp add: initial_frame_def)
  then have pw: "\<forall>x. sep (q + 4040) 56 x 1 \<longrightarrow> m x = hmem h2 x"
    using push_words [of "initial_frame start" 4096 w2 h2 q] w2 inv 2(4) m(1) by auto
  have o: "only (bytes_from q (unat w2)) (hmem h2) m"
    unfolding only_def
  proof (intro allI impI)
    fix x assume x: "x \<notin> bytes_from q (unat w2)"
    have "x \<notin> bytes_from (q + 4040) 56" using x bytes_from_sub [of 4040 56 "unat w2" q] w2 by auto
    then have "sep (q + 4040) 56 x 1" using bytes_fromI [of _ 56 "q + 4040"] by (auto simp: sep_def)
    then show "m x = hmem h2 x" using pw by blast
  qed
  note lw = live_write_kept [OF inv 2(4) o, of "{}", simplified]
  have room': "heap_room (heap s') j"
    using heap_room_write(1) [OF 2(2,4) only_mono [OF o Un_upper1]] heap_room_mono [of _ "j + 1" j] unfolding m(2) by simp
  have low: "low_kept (hmem (heap s)) (hmem (heap s'))" and high: "high_kept (heap s) (hmem (heap s'))"
    using lw 1(3,4,6) 2(5,6,8) unfolding m(2) by simp_all
  have he: "heap_end (heap s') = heap_end (heap s)" "vm (heap s') = vm (heap s)" using 1(4,5) 2(6,7) unfolding m(2) by simp_all
  have lp: "last ts \<noteq> p" using s'(3) last_in_set [OF ne] by metis
  then have pt: "kstack (tcb s' p) = q'" "esp (tcb s' p) = q' + 4040" "task_state (tcb s' p) = TASK_READY"
    "task_id (tcb s' p) = next_task_id s" by (subst s'(6), simp)+
  have xt: "task_state (tcb s' x) = task_state (tcb s x)" "kstack (tcb s' x) = kstack (tcb s x)" "esp (tcb s' x) = esp (tcb s x)"
    if "x \<in> set ts" for x using that s'(3) by (subst s'(6), auto)+
  have g: "heap_grows (heap s) (heap s')" using s'(11,12) low high he by (simp add: heap_grows_def)
  show thesis
    by (rule that [OF s'(1-4) pt(3) _ _ _ s'(8) _ _ g room' m(3) _ s'(13)]) (use pt xt s'(5,7,9,10) in simp_all)
qed

lemma task_init_room:
  assumes room: "heap_room (heap s) (53 + j)"
  obtains s' p where "task_init s = Some s'" "tasks_ok s' [p]" "running_task s' = p" "task_state (tcb s' p) = TASK_RUNNING"
    "heap_grows (heap s) (heap s')" "heap_room (heap s') j"
    "s' = s\<lparr>heap := heap s', running_task := p, tcb := tcb s', next_task_id := next_task_id s', ready_queue := p\<rparr>"
    "task_id (tcb s' p) = next_task_id s" "next_task_id s' = next_task_id s + 1"
proof -
  have r: "heap_room (heap s) (unat (32 :: u32) + 21 + j)" using room by simp
  obtain p z h where al: "kmalloc 32 (heap s) = Some (p, h)" "heap_room h (j + 1)" "live h = insert (p, z) (live (heap s))"
    "kept (live (heap s)) (heap s) h" "low_kept (hmem (heap s)) (hmem h)" "heap_end h = heap_end (heap s)" "vm h = vm (heap s)"
    "high_kept (heap s) (hmem h)"
    by (rule kmalloc_room_all [OF r]) (simp, blast)
  have inv: "heap_inv h" by (rule heap_room_inv [OF al(2)])
  have "p \<noteq> 0" using live_range(3) [OF inv, of p z] al(3) by simp
  let ?s = "set_tcb p (\<lambda>t. t\<lparr>task_id := next_task_id s, esp := 0, kstack := 0,
    page_directory := current_directory (vm h), task_state := TASK_RUNNING, sleep_ticks := 0, task_next := 0\<rparr>)
    (s\<lparr>heap := h, running_task := p\<rparr>)\<lparr>next_task_id := next_task_id s + 1, ready_queue := p\<rparr>"
  have "task_init s = Some ?s" using al(1) by (simp add: task_init_def set_tcb_def Let_def)
  moreover have "heap_room h j" using heap_room_mono [OF al(2)] by simp
  moreover have "heap_grows (heap s) h" using al by (auto simp: heap_grows_def)
  ultimately show thesis
    by (intro that) (use \<open>p \<noteq> 0\<close> inv al(3) in \<open>auto simp: tasks_ok_def task_list_def set_tcb_def\<close>)
qed

text \<open>The saved registers of a task lie in its stack, which nobody else touches.\<close>

lemma registers_kept:
  assumes g: "kept (live s) s s'" and b: "(q, w) \<in> live s" "4096 \<le> w"
  shows "get_registers (hmem s') (q + 4040) = get_registers (hmem s) (q + 4040)"
proof -
  have w: "4096 \<le> unat w" using b(2) by (simp add: word_le_nat_alt)
  have "only (- bytes_from q (unat w)) (hmem s) (hmem s')"
    by (rule kept_only [OF g b(1) order_refl])
  then have "load32 (hmem s') (q + of_nat i) = load32 (hmem s) (q + of_nat i)" if "i + 4 \<le> 4096" for i
    by (rule only_load32) (use bytes_from_sub [of i 4 "unat w" q] that w in auto)
  note l = this [of 4040] this [of 4044] this [of 4048] this [of 4052] this [of 4056] this [of 4060] this [of 4064] this [of 4068]
    this [of 4072] this [of 4076] this [of 4080] this [of 4084] this [of 4088] this [of 4092]
  show ?thesis using l by (simp add: get_registers_def add.assoc)
qed

text \<open>Task \<open>p\<close> will start at \<open>entry\<close>.\<close>

definition starts_at :: "'a task_sys_scheme \<Rightarrow> u32 \<Rightarrow> u32 \<Rightarrow> bool" where
  "starts_at s p start \<longleftrightarrow> task_state (tcb s p) = TASK_READY \<and> esp (tcb s p) = kstack (tcb s p) + 4040 \<and>
     (\<exists>w. (kstack (tcb s p), w) \<in> live (heap s) \<and> 4096 \<le> w) \<and> r_eip (get_registers (hmem (heap s)) (esp (tcb s p))) = start"

lemma starts_at_kept:
  assumes "starts_at s p start" and g: "kept (live (heap s)) (heap s) (heap s')" "live (heap s) \<subseteq> live (heap s')" and "task_state (tcb s' p) = task_state (tcb s p)"
    "kstack (tcb s' p) = kstack (tcb s p)" "esp (tcb s' p) = esp (tcb s p)"
  shows "starts_at s' p start"
proof -
  obtain w where w: "(kstack (tcb s p), w) \<in> live (heap s)" "4096 \<le> w" using assms(1) by (auto simp: starts_at_def)
  note r = registers_kept [OF g(1) w]
  have "(kstack (tcb s p), w) \<in> live (heap s')" using g(2) w(1) by auto
  then show ?thesis using assms r w(2) by (auto simp: starts_at_def)
qed

section \<open>The tasks and their messages\<close>

lemma printing_frame:
  assumes p: "printing B vbe i k u" and g: "heap_room (heap k') j" "heap_end (heap k') = heap_end (heap k)" "screen k' = screen k"
    and hi: "high_kept (heap k) (hmem (heap k'))"
  shows "printing B vbe j k' u"
proof -
  note P = p [unfolded printing_def]
  have b: "fb_behind vbe" using P by simp
  have he: "heap_end (heap k) = KHEAP_START + KHEAP_INITIAL_SIZE" using P by simp
  have fb: "hmem (heap k') a = hmem (heap k) a" if "a \<in> framebuffer_area vbe" for a
    by (rule hi [rule_format]) (simp only: he fb_behindD [OF b that])
  have "screen_is (kernel_console k') u"
    by (rule screen_frame [of "kernel_console k"]) (use P g(3) fb in simp_all)
  then show ?thesis using P g unfolding printing_def by simp
qed

text \<open>The steps behind the file system: what was allocated before stays as it is.\<close>

definition heap_keeps :: "heap_state \<Rightarrow> heap_state \<Rightarrow> bool" where
  "heap_keeps s s' \<longleftrightarrow> kept (live s) s s' \<and> live s \<subseteq> live s'"

lemma heap_keeps_trans: "heap_keeps s s1 \<Longrightarrow> heap_keeps s1 s2 \<Longrightarrow> heap_keeps s s2"
  unfolding heap_keeps_def using kept_trans [of "live s" s s1 "live s1" s2] by auto

lemma kprintf_keeps:
  assumes p: "printing B vbe j k u" and o: "only (print_bytes B vbe) (hmem (heap k)) m" and l: "live ((heap k)\<lparr>hmem := m\<rparr>) = live (heap k)"
  shows "heap_keeps (heap k) ((heap k)\<lparr>hmem := m\<rparr>)"
proof -
  note P = p [unfolded printing_def]
  have inv: "heap_inv (heap k)" using P heap_room_inv by blast
  have "m (x + of_nat i) = hmem (heap k) (x + of_nat i)" if x: "(x, y) \<in> live (heap k)" "i < unat y" for x y i
  proof -
    have "x + of_nat i \<in> bytes_from x (unat y)" using x(2) unat_less_32 [of y] by (intro bytes_fromI) simp_all
    then have "x + of_nat i \<notin> print_bytes B vbe" using live_print_apart [OF _ _ inv _ x(1) order_refl] P by blast
    then show ?thesis using o by (simp add: only_def)
  qed
  then show ?thesis using l by (auto simp: heap_keeps_def kept_def)
qed

text \<open>What the rest of \<^verbatim>\<open>kmain\<close> does to the state, besides the tasks and the screen.\<close>

definition goes_on :: "boot_link \<Rightarrow> kernel \<Rightarrow> kernel \<Rightarrow> bool" where
  "goes_on B k k' \<longleftrightarrow> heap_keeps (heap k) (heap k') \<and> vm (heap k') = vm (heap k) \<and>
     (\<forall>x. x < KHEAP_START \<longrightarrow> x \<notin> bytes_from (boot_digits B) 34 \<longrightarrow> hmem (heap k') x = hmem (heap k) x) \<and>
     mounted k' = mounted k \<and> initrd_vars k' = initrd_vars k \<and> mutexes k' = mutexes k \<and> conds k' = conds k"

lemma goes_on_trans: "goes_on B k k1 \<Longrightarrow> goes_on B k1 k2 \<Longrightarrow> goes_on B k k2"
  unfolding goes_on_def using heap_keeps_trans [of "heap k" "heap k1" "heap k2"] by auto

lemma message_ok:
  assumes p: "printing B vbe j k u" and out: "formatted (\<lambda>_. []) (ascii fmt) args = Some out" "\<forall>x \<in> set out. x < 0x80"
    and str: "string_args (ascii fmt) args = []"
  obtains k' u' where "kprintf B fmt args k = Some k'" "terminal_puts out u = Some u'" "printing B vbe j k' u'" "goes_on B k k'"
    "k' = k\<lparr>screen := screen k', heap := heap k'\<rparr>" "live (heap k') = live (heap k)"
proof -
  obtain t u' where k: "kprintf B fmt args k = Some (k\<lparr>screen := t, heap := (heap k)\<lparr>hmem := vmem t\<rparr>\<rparr>)" "terminal_puts out u = Some u'"
    "printing B vbe j (k\<lparr>screen := t, heap := (heap k)\<lparr>hmem := vmem t\<rparr>\<rparr>) u'" "only (print_bytes B vbe) (hmem (heap k)) (vmem t)"
    "live ((heap k)\<lparr>hmem := vmem t\<rparr>) = live (heap k)" by (rule kprintf_ok [OF p out str])
  have b: "fb_behind vbe" using p by (simp add: printing_def)
  have "vmem t x = hmem (heap k) x" if "x < KHEAP_START" "x \<notin> bytes_from (boot_digits B) 34" for x
  proof -
    have "x \<notin> print_bytes B vbe" using low_fb [OF b, of "{x}"] that by (simp add: print_bytes_def)
    then show ?thesis using k(4) by (simp add: only_def)
  qed
  then have "goes_on B k (k\<lparr>screen := t, heap := (heap k)\<lparr>hmem := vmem t\<rparr>\<rparr>)"
    using kprintf_keeps [OF p k(4,5)] by (simp add: goes_on_def)
  then show thesis using that [OF k(1-3)] k(5) by simp
qed

lemma grows_goes_on: "heap_grows (heap k) (heap k') \<Longrightarrow> mounted k' = mounted k \<Longrightarrow> initrd_vars k' = initrd_vars k \<Longrightarrow>
    mutexes k' = mutexes k \<Longrightarrow> conds k' = conds k \<Longrightarrow> goes_on B k k'"
  by (simp add: goes_on_def heap_grows_def heap_keeps_def)

definition init_text :: "u32 \<Rightarrow> u8 list" where
  "init_text n = ascii ''Multitasking initialized. Initial task ID: '' @ itoa_text n 10 @ [0x0A]"

definition created_text :: "u32 \<Rightarrow> u32 \<Rightarrow> u32 \<Rightarrow> u8 list" where
  "created_text n start e = ascii ''Created task '' @ itoa_text n 10 @ ascii '' at '' @ [0x30, 0x78] @ itoa_text start 16 @
     ascii '', esp '' @ [0x30, 0x78] @ itoa_text e 16 @ [0x0A]"

lemma init_text_ok: "formatted (\<lambda>_. []) (ascii (''Multitasking initialized. Initial task ID: %d'' @ nl)) [n] = Some (init_text n)"
  "\<forall>x \<in> set (init_text n). x < 0x80" "string_args (ascii (''Multitasking initialized. Initial task ID: %d'' @ nl)) [n] = []"
  using itoa_text_ascii [of 10 n] by (simp_all add: ascii_def nl_def init_text_def)

lemma created_text_ok: "formatted (\<lambda>_. []) (ascii (''Created task %d at %x, esp %x'' @ nl)) [n, s, e] = Some (created_text n s e)"
  "\<forall>x \<in> set (created_text n s e). x < 0x80" "string_args (ascii (''Created task %d at %x, esp %x'' @ nl)) [n, s, e] = []"
  using itoa_text_ascii [of 10 n] itoa_text_ascii [of 16 s] itoa_text_ascii [of 16 e]
  by (simp_all add: ascii_def nl_def created_text_def ball_Un)

text \<open>A message changes no task.\<close>

lemma message_tasks:
  assumes p: "printing B vbe j k' u" and e: "k' = k\<lparr>screen := screen k', heap := heap k'\<rparr>" and g: "goes_on B k k'"
    and l: "live (heap k') = live (heap k)"
  shows "tasks_ok k ts \<Longrightarrow> tasks_ok k' ts" "starts_at k x s \<Longrightarrow> starts_at k' x s"
    "tcb k' = tcb k" "running_task k' = running_task k" "ready_queue k' = ready_queue k" "next_task_id k' = next_task_id k"
proof -
  show f: "tcb k' = tcb k" "running_task k' = running_task k" "ready_queue k' = ready_queue k" "next_task_id k' = next_task_id k"
    by (subst e, simp)+
  have "heap_inv (heap k')" using p heap_room_inv by (auto simp: printing_def)
  then show "tasks_ok k ts \<Longrightarrow> tasks_ok k' ts" using l f by (simp add: tasks_ok_def task_list_def)
  have "kept (live (heap k)) (heap k) (heap k')" using g by (simp add: goes_on_def heap_keeps_def)
  then show "starts_at k x s \<Longrightarrow> starts_at k' x s" using starts_at_kept [of k x s k'] l f by simp
qed

lemma boot_task_init_ok:
  assumes p: "printing B vbe (53 + j) k u"
  obtains k' u' a where "boot_task_init B k = Some k'" "terminal_puts (init_text (next_task_id k)) u = Some u'" "printing B vbe j k' u'"
    "tasks_ok k' [a]" "running_task k' = a" "task_state (tcb k' a) = TASK_RUNNING" "next_task_id k' = next_task_id k + 1" "goes_on B k k'"
proof -
  have room: "heap_room (heap k) (53 + j)" using p by (simp add: printing_def)
  obtain k1 a where 1: "task_init k = Some k1" "tasks_ok k1 [a]" "running_task k1 = a" "task_state (tcb k1 a) = TASK_RUNNING"
    "heap_grows (heap k) (heap k1)" "heap_room (heap k1) j"
    "k1 = k\<lparr>heap := heap k1, running_task := a, tcb := tcb k1, next_task_id := next_task_id k1, ready_queue := a\<rparr>"
    "task_id (tcb k1 a) = next_task_id k" "next_task_id k1 = next_task_id k + 1"
    by (rule task_init_room [OF room])
  have f: "screen k1 = screen k" "mounted k1 = mounted k" "initrd_vars k1 = initrd_vars k" "mutexes k1 = mutexes k" "conds k1 = conds k"
    by (subst 1(7), simp)+
  have p1: "printing B vbe j k1 u" by (rule printing_frame [OF p 1(6)]) (use 1(5) f in \<open>simp_all add: heap_grows_def\<close>)
  obtain k' u' where 2: "kprintf B (''Multitasking initialized. Initial task ID: %d'' @ nl) [next_task_id k] k1 = Some k'"
    "terminal_puts (init_text (next_task_id k)) u = Some u'" "printing B vbe j k' u'" "goes_on B k1 k'"
    "k' = k1\<lparr>screen := screen k', heap := heap k'\<rparr>" "live (heap k') = live (heap k1)" by (rule message_ok [OF p1 init_text_ok])
  note m = message_tasks [OF 2(3,5,4,6)]
  have "boot_task_init B k = Some k'" using 1(1,3,8) 2(1) by (simp add: boot_task_init_def)
  moreover have "goes_on B k k'" using goes_on_trans [OF grows_goes_on [OF 1(5) f(2-5)] 2(4)] .
  ultimately show thesis using 2(2,3) m(1) [OF 1(2)] 1(3,4,9) m(3-6) by (intro that) simp_all
qed

lemma boot_task_create_ok:
  assumes p: "printing B vbe (4170 + j) k u" and ok: "tasks_ok k ts"
  obtains k' u' x w where "boot_task_create B start k = Some k'"
    "terminal_puts (created_text (next_task_id k) start (esp (tcb k' x))) u = Some u'" "printing B vbe j k' u'"
    "tasks_ok k' (ts @ [x])" "running_task k' = running_task k" "next_task_id k' = next_task_id k + 1" "starts_at k' x start"
    "\<forall>y \<in> set ts. task_state (tcb k' y) = task_state (tcb k y) \<and> kstack (tcb k' y) = kstack (tcb k y) \<and> esp (tcb k' y) = esp (tcb k y)"
    "(kstack (tcb k' x), w) \<in> live (heap k')" "4096 \<le> w" "\<forall>v. (kstack (tcb k' x), v) \<notin> live (heap k)" "goes_on B k k'"
proof -
  have room: "heap_room (heap k) (4170 + j)" using p by (simp add: printing_def)
  obtain k1 x w where 1: "task_create start k = Some k1" "tasks_ok k1 (ts @ [x])" "x \<notin> set ts"
    "running_task k1 = running_task k" "task_state (tcb k1 x) = TASK_READY" "\<forall>y \<in> set ts. task_state (tcb k1 y) = task_state (tcb k y)"
    "\<forall>y \<in> set ts. kstack (tcb k1 y) = kstack (tcb k y) \<and> esp (tcb k1 y) = esp (tcb k y)"
    "(kstack (tcb k1 x), w) \<in> live (heap k1)" "4096 \<le> w" "\<forall>v. (kstack (tcb k1 x), v) \<notin> live (heap k)"
    "r_eip (get_registers (hmem (heap k1)) (esp (tcb k1 x))) = start" "heap_grows (heap k) (heap k1)" "heap_room (heap k1) j"
    "k1 = k\<lparr>heap := heap k1, tcb := tcb k1, next_task_id := next_task_id k1\<rparr>" "esp (tcb k1 x) = kstack (tcb k1 x) + 4040"
    "create_task start k = Some (x, k1)" "task_id (tcb k1 x) = next_task_id k" "next_task_id k1 = next_task_id k + 1"
    by (rule task_create_room [OF ok room])
  have f: "screen k1 = screen k" "mounted k1 = mounted k" "initrd_vars k1 = initrd_vars k" "mutexes k1 = mutexes k" "conds k1 = conds k"
    by (subst 1(14), simp)+
  have s1: "starts_at k1 x start" using 1 by (auto simp: starts_at_def)
  have p1: "printing B vbe j k1 u" by (rule printing_frame [OF p 1(13)]) (use 1(12) f in \<open>simp_all add: heap_grows_def\<close>)
  obtain k' u' where 2: "kprintf B (''Created task %d at %x, esp %x'' @ nl) [next_task_id k, start, esp (tcb k1 x)] k1 = Some k'"
    "terminal_puts (created_text (next_task_id k) start (esp (tcb k1 x))) u = Some u'" "printing B vbe j k' u'" "goes_on B k1 k'"
    "k' = k1\<lparr>screen := screen k', heap := heap k'\<rparr>" "live (heap k') = live (heap k1)" by (rule message_ok [OF p1 created_text_ok])
  note m = message_tasks [OF 2(3,5,4,6)]
  have "boot_task_create B start k = Some k'" using 1(16,17) 2(1) by (simp add: boot_task_create_def)
  moreover have "goes_on B k k'" using goes_on_trans [OF grows_goes_on [OF 1(12) f(2-5)] 2(4)] .
  ultimately show thesis using 2(2,3,6) m(1) [OF 1(2)] m(2) [OF s1] 1(4,6-10,18) m(3-6) by (intro that [of k' x u' w]) simp_all
qed

text \<open>The messages, with the stack pointers of the three new tasks.\<close>

definition tasks_text :: "boot_link \<Rightarrow> u32 \<Rightarrow> u32 \<Rightarrow> u32 \<Rightarrow> u32 \<Rightarrow> u8 list" where
  "tasks_text B n e1 e2 e3 = init_text n @ created_text (n + 1) (producer_addr B) e1 @ created_text (n + 2) (consumer_addr B) e2 @
     created_text (n + 3) (shell_addr B) e3"

lemma setup_tasks_ok:
  assumes p: "printing B vbe (12563 + j) k u"
  obtains k' u' a p c q w where "setup_tasks B k = Some k'"
    "terminal_puts (tasks_text B (next_task_id k) (esp (tcb k' p)) (esp (tcb k' c)) (esp (tcb k' q))) u = Some u'" "printing B vbe j k' u'"
    "tasks_ok k' [a, p, c, q]" "running_task k' = a" "task_state (tcb k' a) = TASK_RUNNING"
    "starts_at k' p (producer_addr B)" "starts_at k' c (consumer_addr B)" "starts_at k' q (shell_addr B)"
    "(kstack (tcb k' q), w) \<in> live (heap k')" "4096 \<le> w" "\<forall>v. (kstack (tcb k' q), v) \<notin> live (heap k)" "goes_on B k k'"
proof -
  have "printing B vbe (53 + (12510 + j)) k u" using p by simp
  then obtain k0 u0 a where 0: "boot_task_init B k = Some k0" "terminal_puts (init_text (next_task_id k)) u = Some u0"
    "printing B vbe (12510 + j) k0 u0" "tasks_ok k0 [a]" "running_task k0 = a" "task_state (tcb k0 a) = TASK_RUNNING"
    "next_task_id k0 = next_task_id k + 1" "goes_on B k k0" by (rule boot_task_init_ok)
  have "printing B vbe (4170 + (8340 + j)) k0 u0" using 0(3) by simp
  then obtain k1 u1 x1 w1 where 1: "boot_task_create B (producer_addr B) k0 = Some k1"
    "terminal_puts (created_text (next_task_id k0) (producer_addr B) (esp (tcb k1 x1))) u0 = Some u1" "printing B vbe (8340 + j) k1 u1"
    "tasks_ok k1 ([a] @ [x1])" "running_task k1 = running_task k0" "next_task_id k1 = next_task_id k0 + 1" "starts_at k1 x1 (producer_addr B)"
    "\<forall>y \<in> set [a]. task_state (tcb k1 y) = task_state (tcb k0 y) \<and> kstack (tcb k1 y) = kstack (tcb k0 y) \<and> esp (tcb k1 y) = esp (tcb k0 y)"
    "(kstack (tcb k1 x1), w1) \<in> live (heap k1)" "4096 \<le> w1" "\<forall>v. (kstack (tcb k1 x1), v) \<notin> live (heap k0)" "goes_on B k0 k1"
    by (rule boot_task_create_ok [OF _ 0(4)])
  have "printing B vbe (4170 + (4170 + j)) k1 u1" using 1(3) by simp
  then obtain k2 u2 x2 w2 where 2: "boot_task_create B (consumer_addr B) k1 = Some k2"
    "terminal_puts (created_text (next_task_id k1) (consumer_addr B) (esp (tcb k2 x2))) u1 = Some u2" "printing B vbe (4170 + j) k2 u2"
    "tasks_ok k2 (([a] @ [x1]) @ [x2])" "running_task k2 = running_task k1" "next_task_id k2 = next_task_id k1 + 1" "starts_at k2 x2 (consumer_addr B)"
    "\<forall>y \<in> set ([a] @ [x1]). task_state (tcb k2 y) = task_state (tcb k1 y) \<and> kstack (tcb k2 y) = kstack (tcb k1 y) \<and> esp (tcb k2 y) = esp (tcb k1 y)"
    "(kstack (tcb k2 x2), w2) \<in> live (heap k2)" "4096 \<le> w2" "\<forall>v. (kstack (tcb k2 x2), v) \<notin> live (heap k1)" "goes_on B k1 k2"
    by (rule boot_task_create_ok [OF _ 1(4)])
  obtain k3 u3 x3 w3 where 3: "boot_task_create B (shell_addr B) k2 = Some k3"
    "terminal_puts (created_text (next_task_id k2) (shell_addr B) (esp (tcb k3 x3))) u2 = Some u3" "printing B vbe j k3 u3"
    "tasks_ok k3 ((([a] @ [x1]) @ [x2]) @ [x3])" "running_task k3 = running_task k2" "next_task_id k3 = next_task_id k2 + 1" "starts_at k3 x3 (shell_addr B)"
    "\<forall>y \<in> set (([a] @ [x1]) @ [x2]). task_state (tcb k3 y) = task_state (tcb k2 y) \<and> kstack (tcb k3 y) = kstack (tcb k2 y) \<and> esp (tcb k3 y) = esp (tcb k2 y)"
    "(kstack (tcb k3 x3), w3) \<in> live (heap k3)" "4096 \<le> w3" "\<forall>v. (kstack (tcb k3 x3), v) \<notin> live (heap k2)" "goes_on B k2 k3"
    by (rule boot_task_create_ok [OF 2(3,4)])
  have kp: "kept (live (heap k)) (heap k) (heap k')" "live (heap k) \<subseteq> live (heap k')" if "goes_on B k k'" for k k'
    using that by (simp_all add: goes_on_def heap_keeps_def)
  have st: "starts_at k2 x1 (producer_addr B)" "starts_at k3 x1 (producer_addr B)" "starts_at k3 x2 (consumer_addr B)"
  proof -
    show s: "starts_at k2 x1 (producer_addr B)" by (rule starts_at_kept [OF 1(7) kp [OF 2(12)]]) (use 2(8) in simp_all)
    show "starts_at k3 x1 (producer_addr B)" by (rule starts_at_kept [OF s kp [OF 3(12)]]) (use 3(8) in simp_all)
    show "starts_at k3 x2 (consumer_addr B)" by (rule starts_at_kept [OF 2(7) kp [OF 3(12)]]) (use 3(8) in simp_all)
  qed
  note g2 = goes_on_trans [OF goes_on_trans [OF 0(8) 1(12)] 2(12)]
  have "terminal_puts (tasks_text B (next_task_id k) (esp (tcb k3 x1)) (esp (tcb k3 x2)) (esp (tcb k3 x3))) u = Some u3"
    using 0(2,7) 1(2,6) 2(2,6,8) 3(2,8) by (simp add: tasks_text_def terminal_puts_append add.assoc)
  moreover have "setup_tasks B k = Some k3" using 0(1) 1(1) 2(1) 3(1) by (simp add: setup_tasks_def)
  moreover have "running_task k3 = a" "task_state (tcb k3 a) = TASK_RUNNING" using 0(5,6) 1(5,8) 2(5,8) 3(5,8) by simp_all
  moreover have "\<forall>v. (kstack (tcb k3 x3), v) \<notin> live (heap k)" using 3(11) kp(2) [OF g2] by blast
  ultimately show thesis
    using 3(3,4,7,9,10) st goes_on_trans [OF g2 3(12)] by (intro that [of k3 x1 x2 x3 u3 a w3]) simp_all
qed

end
