(* ===== verification/Boot_Start.thy ===== *)
theory Boot_Start
  imports Boot_Tasks
begin

text \<open>
  \<^verbatim>\<open>kmain\<close> as a whole: what the boot loader has to provide, the states between its parts, and the
  state in which the tasks, the shell and the interrupts take over.
\<close>

section \<open>The whole start\<close>

definition unlocked :: "'a sync_sys_scheme \<Rightarrow> bool" where
  "unlocked s \<longleftrightarrow> (\<forall>m. locked (mutexes s m) = 0 \<and> m_waiters (mutexes s m) = 0) \<and> (\<forall>c. c_waiters (conds s c) = 0)"

lemma cond_inits_frame: "\<exists>C. fold (\<lambda>i. cond_init (f i)) xs t = t\<lparr>conds := C\<rparr> \<and> (unlocked t \<longrightarrow> unlocked (t\<lparr>conds := C\<rparr>))"
proof (induction xs arbitrary: t)
  case Nil
  show ?case by (rule exI [of _ "conds t"]) simp
next
  case (Cons x xs)
  obtain C where C: "fold (\<lambda>i. cond_init (f i)) xs (cond_init (f x) t) = (cond_init (f x) t)\<lparr>conds := C\<rparr>"
    "unlocked (cond_init (f x) t) \<longrightarrow> unlocked ((cond_init (f x) t)\<lparr>conds := C\<rparr>)" using Cons.IH by blast
  have "unlocked t \<longrightarrow> unlocked (cond_init (f x) t)" by (simp add: unlocked_def cond_init_def set_cond_def)
  moreover have "(cond_init (f x) t)\<lparr>conds := C\<rparr> = t\<lparr>conds := C\<rparr>" by (simp add: cond_init_def set_cond_def)
  ultimately show ?case using C by (intro exI [of _ C]) simp
qed

lemma monitor_init_frame:
  obtains M C where "monitor_init m s = s\<lparr>mutexes := M, conds := C\<rparr>" "unlocked s \<Longrightarrow> unlocked (s\<lparr>mutexes := M, conds := C\<rparr>)"
proof -
  let ?t = "mutex_init (monitor_lock m) s"
  obtain C where C: "monitor_init m s = ?t\<lparr>conds := C\<rparr>" "unlocked ?t \<longrightarrow> unlocked (?t\<lparr>conds := C\<rparr>)" 
    using cond_inits_frame [of "\<lambda>i. monitor_cond m (of_nat i)" "[0..<MAX_MONITOR_CONDS]" ?t] unfolding monitor_init_def by blast
  have "unlocked s \<longrightarrow> unlocked ?t" by (simp add: unlocked_def mutex_init_def set_mutex_def)
  moreover have e: "?t\<lparr>conds := C\<rparr> = s\<lparr>mutexes := mutexes ?t, conds := C\<rparr>" by (simp add: mutex_init_def set_mutex_def)
  ultimately show thesis using C unfolding e by (intro that [of C "mutexes ?t"]) simp_all
qed

lemma setup_monitors_frame:
  obtains M C where "setup_monitors B k = (set_handler 33 keyboard_callback k)\<lparr>mutexes := M, conds := C\<rparr>"
    "unlocked k \<Longrightarrow> unlocked ((set_handler 33 keyboard_callback k)\<lparr>mutexes := M, conds := C\<rparr>)"
proof -
  obtain M1 C1 where 1: "monitor_init (keyboard_mon B) k = k\<lparr>mutexes := M1, conds := C1\<rparr>" "unlocked k \<Longrightarrow> unlocked (k\<lparr>mutexes := M1, conds := C1\<rparr>)"
    by (rule monitor_init_frame) (rule that)
  let ?k = "set_handler 33 keyboard_callback (k\<lparr>mutexes := M1, conds := C1\<rparr>)"
  obtain M C where 2: "monitor_init (buffer_mon B) ?k = ?k\<lparr>mutexes := M, conds := C\<rparr>" "unlocked ?k \<Longrightarrow> unlocked (?k\<lparr>mutexes := M, conds := C\<rparr>)"
    by (rule monitor_init_frame) (rule that)
  have e: "?k\<lparr>mutexes := M, conds := C\<rparr> = (set_handler 33 keyboard_callback k)\<lparr>mutexes := M, conds := C\<rparr>" by (simp add: set_handler_def)
  have u: "unlocked ?k = unlocked (k\<lparr>mutexes := M1, conds := C1\<rparr>)" by (simp add: unlocked_def set_handler_def)
  show thesis
    by (rule that [of C M]) (use 1 2 in \<open>simp_all add: setup_monitors_def keyboard_init_def e u\<close>)
qed

lemma setup_tables_frame:
  obtains g p i q l where "setup_tables B k = k\<lparr>heap := (heap k)\<lparr>vm := (vm (heap k))\<lparr>interrupt_handlers := (\<lambda>_. None)\<rparr>\<rparr>,
    gdt := g, gp := p, idt := i, idtp := q, ports := l\<rparr>"
proof -
  obtain g p where 1: "gdt_init (gdt_addr B) (gdt k) = (g, p)" by fastforce
  obtain i q where 2: "idt_init (idt_addr B) (idt k) = (i, q)" by fastforce
  obtain i' l where 3: "isr_install (isr_stub B) (irq_stub B) (pic_masks B) (i, ports k) = (i', l, (\<lambda>_. None) :: u8 \<Rightarrow> isr_t option)"
    by (simp add: isr_install_def Let_def)
  show thesis by (rule that [where g = g and p = p and i = i' and q = q and l = l]) (simp add: setup_tables_def 1 2 3 on_vm_def)
qed

lemma vbe_info_cong:
  assumes "\<forall>a. page_base a = 0 \<longrightarrow> m' a = m a"
  shows "vbe_info m' 0x500 = vbe_info m 0x500"
proof -
  have e: "m' a = m a" if "unat a < 4096" for a
  proof -
    have "unat (page_base a) = 0" using that by (simp add: unat_page_base)
    then show ?thesis using assms by (simp add: word_unat_eq_iff)
  qed
  have "m' (0x532 + of_nat i) = m (0x532 + of_nat i)" if "i < 206" for i
  proof (rule e)
    have "unat (0x532 + of_nat i :: u32) = unat (0x532 :: u32) + i" by (rule unat_add_of_nat) (use that in simp)
    moreover have "unat (0x532 :: u32) = 0x532" by simp
    ultimately show "unat (0x532 + of_nat i :: u32) < 4096" using that by (simp only:)
  qed
  then show ?thesis by (simp add: vbe_info_def load32_def e)
qed

text \<open>
  What the boot loader, the linker and the zeroed static memory have to provide. Bytes \<open>j\<close> is the room that
  is left in the first megabyte of the heap behind the file system and the four tasks.
\<close>

definition boot_ready :: "boot_link \<Rightarrow> (u8 list \<times> u8 list) list \<Rightarrow> u32 \<Rightarrow> u32 \<Rightarrow> nat \<Rightarrow> kernel \<Rightarrow> bool" where
  "boot_ready B files ls cat j k \<longleftrightarrow>
     boot_ok ((vm (heap k))\<lparr>pmm := kmain_pmm (pmm (vm (heap k)))\<rparr>) \<and> vbe_ok (boot_vbe k) \<and> fb_behind (boot_vbe k) \<and>
     initrd_loaded (boot_initrd B) 0xC0040000 files (hmem (heap k)) \<and> shell_linked (boot_initrd B) 0xC0040000 files ls cat (hmem (heap k)) \<and>
     184 * length files + 12994 + j \<le> unat (KHEAP_INITIAL_SIZE - 20) \<and> unat (boot_digits B) + 34 \<le> unat KHEAP_START \<and>
     bytes_from (boot_digits B) 34 \<inter> (bytes_from 0xC0040000 (length (mkinitrd files)) \<union> bytes_from (lit_dev (boot_initrd B)) 4 \<union>
       bytes_from (lit_initrd (boot_initrd B)) 7 \<union> bytes_from ls 3 \<union> bytes_from cat 5) = {} \<and> unlocked k"

text \<open>The static variables of the producer and the consumer.\<close>

definition static_vars :: "term_sys \<Rightarrow> buffer_vars" where
  "static_vars t = \<lparr>buffer = replicate BUFFER_SIZE 0, count = 0, head = 0, tail = 0, produce_item = 100, consume_item = 0, console_screen = t\<rparr>"

text \<open>The local arrays of the shell, somewhere in its stack.\<close>

definition arrays_in :: "u32 \<Rightarrow> shell_env \<Rightarrow> bool" where
  "arrays_in stack E \<longleftrightarrow> digits_area (print_buf E) \<subseteq> bytes_from stack 4096 \<and> bytes_from (cmd_buffer E) 128 \<subseteq> bytes_from stack 4096 \<and>
     digits_area (print_buf E) \<inter> bytes_from (cmd_buffer E) 128 = {} \<and> unat (print_buf E) + 34 \<le> 2 ^ 32"

text \<open>
  All messages of the start, for the address of the root, the first task number and the stack pointers of the
  three tasks.
\<close>

definition boot_text :: "boot_link \<Rightarrow> u32 \<Rightarrow> u32 \<Rightarrow> u32 \<Rightarrow> u32 \<Rightarrow> u32 \<Rightarrow> u8 list" where
  "boot_text B root n e1 e2 e3 = banner @ mounted_text root @ tasks_text B n e1 e2 e3 @ ascii (''System Ready. Multitasking active!'' @ nl)"

lemma ready_ok: "formatted (\<lambda>_. []) (ascii (''System Ready. Multitasking active!'' @ nl)) [] = Some (ascii (''System Ready. Multitasking active!'' @ nl))"
  "\<forall>x \<in> set (ascii (''System Ready. Multitasking active!'' @ nl)). x < 0x80"
  "string_args (ascii (''System Ready. Multitasking active!'' @ nl)) [] = []"
  by code_simp+

lemma loaded_at_boot:
  assumes ld: "initrd_loaded L location files m" and d: "D \<inter> (bytes_from location (length (mkinitrd files)) \<union> bytes_from (lit_dev L) 4 \<union> bytes_from (lit_initrd L) 7) = {}"
    and low: "\<And>x. x < KHEAP_START \<Longrightarrow> x \<notin> D \<Longrightarrow> m' x = m x"
  shows "initrd_loaded L location files m'"
proof (rule initrd_loaded_only [OF ld])
  have b: "bytes_from location (length (mkinitrd files)) \<subseteq> {x. x < KHEAP_START}" "bytes_from (lit_dev L) 4 \<subseteq> {x. x < KHEAP_START}"
    "bytes_from (lit_initrd L) 7 \<subseteq> {x. x < KHEAP_START}"
    by (rule low_bytes, use ld in \<open>simp add: initrd_loaded_def\<close>)+
  let ?S = "- ({x. x < KHEAP_START} - D)"
  show "only ?S m m'" using low by (simp add: only_def)
  show "bytes_from location (length (mkinitrd files)) \<inter> ?S = {}" "bytes_from (lit_dev L) 4 \<inter> ?S = {}" "bytes_from (lit_initrd L) 7 \<inter> ?S = {}"
    using b d by blast+
qed

lemma boot_files:
  assumes b: "boot_ready B files ls cat j k"
  obtains k1 k2 k3 t u z1 z2 z3 where
    "setup_memory (setup_tables B k) = Some k1" "setup_screen B k1 = Some k2" "setup_files B k2 = Some k3"
    "terminal_puts (banner @ mounted_text (mounted k3)) (terminal_initialize (boot_vbe k) t) = Some u"
    "printing B (boot_vbe k) (12563 + j) k3 u" "mounted k3 = initrd_root (initrd_vars k3)" "initrd_header (initrd_vars k3) = 0xC0040000"
    "initrd_ok (boot_initrd B) (initrd_vars k3) files (hmem (heap k3))"
    "(initrd_root (initrd_vars k3), z1) \<in> live (heap k3)" "(initrd_dev (initrd_vars k3), z2) \<in> live (heap k3)"
    "(root_nodes (initrd_vars k3), z3) \<in> live (heap k3)" "184 \<le> unat z1" "184 \<le> unat z2" "184 * length files \<le> unat z3"
    "interrupt_handlers (vm (heap k3)) = (\<lambda>_. None)(14 := Some page_fault_handler, 32 := Some timer_callback)" "unlocked k3"
    "next_task_id k3 = next_task_id k"
    "\<forall>x. x < KHEAP_START \<longrightarrow> x \<notin> bytes_from 0xC0040000 (length (mkinitrd files)) \<union> bytes_from (boot_digits B) 34 \<longrightarrow>
       hmem (heap k3) x = hmem (heap k) x"
proof -
  let ?vbe = "boot_vbe k"
  note R = b [unfolded boot_ready_def]
  obtain g p i q l where 0: "setup_tables B k = k\<lparr>heap := (heap k)\<lparr>vm := (vm (heap k))\<lparr>interrupt_handlers := (\<lambda>_. None)\<rparr>\<rparr>,
    gdt := g, gp := p, idt := i, idtp := q, ports := l\<rparr>" by (rule setup_tables_frame)
  define k0 where "k0 = setup_tables B k"
  have hp0: "heap k0 = (heap k)\<lparr>vm := (vm (heap k))\<lparr>interrupt_handlers := (\<lambda>_. None)\<rparr>\<rparr>" and u0: "unlocked k0"
    and n0: "next_task_id k0 = next_task_id k" using R unfolding k0_def 0 by (simp_all add: unlocked_def)
  have v0: "boot_vbe k0 = ?vbe" by (simp add: boot_vbe_def hp0)
  have "boot_ok ((vm (heap k0))\<lparr>pmm := kmain_pmm (pmm (vm (heap k0)))\<rparr>)" using R by (simp add: hp0 boot_ok_def)
  moreover have "fb_behind (boot_vbe k0)" using R v0 by simp
  ultimately obtain h where 1: "setup_memory k0 = Some (k0\<lparr>heap := h\<rparr>)" "heap_ok h [(KHEAP_INITIAL_SIZE - 20, True)]"
    "heap_end h = KHEAP_START + KHEAP_INITIAL_SIZE" "low_kept (hmem (heap k0)) (hmem h)"
    "interrupt_handlers (vm h) = (interrupt_handlers (vm (heap k0)))(14 := Some page_fault_handler)"
    "translate (phys (vm h)) (cr3 (vm h)) 0xC0000500 = Some 0x500" "\<forall>a. page_base a = 0 \<longrightarrow> phys (vm h) a = phys (vm (heap k0)) a"
    by (rule setup_memory_ok)
  define k1 where "k1 = k0\<lparr>heap := h\<rparr>"
  have v1: "boot_vbe k1 = ?vbe" using vbe_info_cong [OF 1(7)] v0 by (simp add: boot_vbe_def k1_def)
  have room: "heap_room h (184 * length files + 431 + (12563 + j))"
    unfolding heap_room_def by (rule exI [of _ "[]"], rule exI [of _ "KHEAP_INITIAL_SIZE - 20"]) (use 1(2) R in simp)
  obtain l2 t2 u2 where 2: "terminal_puts banner (terminal_initialize ?vbe ((screen k1)\<lparr>vmem := hmem (heap k1)\<rparr>)) = Some u2"
    "setup_screen B k1 = Some ((set_handler 32 timer_callback k1)\<lparr>ports := l2, screen := t2,
       heap := (heap (set_handler 32 timer_callback k1))\<lparr>hmem := vmem t2\<rparr>\<rparr>)"
    "printing B ?vbe (184 * length files + 431 + (12563 + j)) ((set_handler 32 timer_callback k1)\<lparr>ports := l2, screen := t2,
       heap := (heap (set_handler 32 timer_callback k1))\<lparr>hmem := vmem t2\<rparr>\<rparr>) u2"
    "only (print_bytes B ?vbe) (hmem (heap k1)) (vmem t2)"
    by (rule setup_screen_ok [of k1 "184 * length files + 431 + (12563 + j)" B, unfolded v1])
       (use 1(3,6) room R in \<open>simp_all add: k1_def\<close>)
  define k2 where "k2 = (set_handler 32 timer_callback k1)\<lparr>ports := l2, screen := t2,
       heap := (heap (set_handler 32 timer_callback k1))\<lparr>hmem := vmem t2\<rparr>\<rparr>"
  note 2 = 2 [folded k2_def]
  have m2: "hmem (heap k2) = vmem t2" by (simp add: k2_def set_handler_def)
  have low2: "hmem (heap k2) x = hmem (heap k) x" if "x < KHEAP_START" "x \<notin> bytes_from (boot_digits B) 34" for x
  proof -
    have "fb_behind ?vbe" using R by simp
    then have "x \<notin> print_bytes B ?vbe" using low_fb [of ?vbe "{x}"] that by (simp add: print_bytes_def)
    then show ?thesis using 2(4) 1(4) that(1) by (simp add: only_def m2 k1_def hp0)
  qed
  have ld: "initrd_loaded (boot_initrd B) 0xC0040000 files (hmem (heap k2))"
    by (rule loaded_at_boot [OF _ _ low2]) (use R in auto)
  have ap: "bytes_from (boot_digits B) 34 \<inter> (bytes_from 0xC0040000 (length (mkinitrd files)) \<union> bytes_from (lit_dev (boot_initrd B)) 4) = {}"
    using R by blast
  obtain I h3 t3 u3 z1 z2 z3 where 3:
    "setup_files B k2 = Some (k2\<lparr>heap := h3, mounted := initrd_root I, initrd_vars := I, screen := t3\<rparr>)"
    "terminal_puts (mounted_text (initrd_root I)) u2 = Some u3"
    "printing B ?vbe (12563 + j) (k2\<lparr>heap := h3, mounted := initrd_root I, initrd_vars := I, screen := t3\<rparr>) u3"
    "initrd_header I = 0xC0040000" "initrd_ok (boot_initrd B) I files (hmem h3)"
    "live h3 = live (heap k2) \<union> {(initrd_root I, z1), (initrd_dev I, z2), (root_nodes I, z3)}"
    "184 \<le> unat z1" "184 \<le> unat z2" "184 * length files \<le> unat z3" "vm h3 = vm (heap k2)"
    "\<forall>x. x < KHEAP_START \<longrightarrow> x \<notin> bytes_from 0xC0040000 (length (mkinitrd files)) \<union> bytes_from (boot_digits B) 34 \<longrightarrow> hmem h3 x = hmem (heap k2) x"
    by (rule setup_files_ok [OF 2(3) ld ap])
  define k3 where "k3 = k2\<lparr>heap := h3, mounted := initrd_root I, initrd_vars := I, screen := t3\<rparr>"
  have f: "heap k3 = h3" "mounted k3 = initrd_root I" "initrd_vars k3 = I" "unlocked k3"
    "next_task_id k3 = next_task_id k" using u0 n0 by (simp_all add: k3_def k2_def k1_def set_handler_def unlocked_def)
  have "interrupt_handlers (vm (heap k3)) = (\<lambda>_. None)(14 := Some page_fault_handler, 32 := Some timer_callback)"
    using 1(5) 3(10) by (simp add: f k2_def k1_def hp0 set_handler_def register_interrupt_handler_def)
  moreover have "\<forall>x. x < KHEAP_START \<longrightarrow> x \<notin> bytes_from 0xC0040000 (length (mkinitrd files)) \<union> bytes_from (boot_digits B) 34 \<longrightarrow>
       hmem (heap k3) x = hmem (heap k) x" using 3(11) low2 by (simp add: f)
  moreover have "terminal_puts (banner @ mounted_text (mounted k3)) (terminal_initialize ?vbe ((screen k1)\<lparr>vmem := hmem (heap k1)\<rparr>)) = Some u3"
    using 2(1) 3(2) by (simp add: terminal_puts_append f)
  ultimately show thesis
    using 1(1) 2(2) 3 f by (intro that [of k1 k2 k3 "(screen k1)\<lparr>vmem := hmem (heap k1)\<rparr>" u3 z1 z2 z3]) (simp_all add: k0_def k1_def k3_def)
qed

text \<open>The steps behind the file system: what was allocated before stays as it is.\<close>

lemma boot_monitors_tasks:
  assumes p: "printing B vbe (12563 + j) k u" and ul: "unlocked k"
  obtains k' u' a p c q w where "setup_tasks B (setup_monitors B k) = Some k'"
    "terminal_puts (tasks_text B (next_task_id k) (esp (tcb k' p)) (esp (tcb k' c)) (esp (tcb k' q))) u = Some u'"
    "printing B vbe j k' u'" "heap_keeps (heap k) (heap k')"
    "\<forall>x. x < KHEAP_START \<longrightarrow> x \<notin> bytes_from (boot_digits B) 34 \<longrightarrow> hmem (heap k') x = hmem (heap k) x"
    "mounted k' = mounted k" "initrd_vars k' = initrd_vars k" "unlocked k'"
    "interrupt_handlers (vm (heap k')) = (interrupt_handlers (vm (heap k)))(33 := Some keyboard_callback)"
    "task_list k' [a, p, c, q]" "running_task k' = a" "task_state (tcb k' a) = TASK_RUNNING"
    "starts_at k' p (producer_addr B)" "starts_at k' c (consumer_addr B)" "starts_at k' q (shell_addr B)"
    "(kstack (tcb k' q), w) \<in> live (heap k')" "4096 \<le> w" "\<forall>v. (kstack (tcb k' q), v) \<notin> live (heap k)"
proof -
  obtain M C where M: "setup_monitors B k = (set_handler 33 keyboard_callback k)\<lparr>mutexes := M, conds := C\<rparr>"
    "unlocked ((set_handler 33 keyboard_callback k)\<lparr>mutexes := M, conds := C\<rparr>)"
    by (rule setup_monitors_frame [where B = B and k = k]) (use ul in blast)
  define k1 where "k1 = setup_monitors B k"
  have hp: "heap k1 = (heap k)\<lparr>vm := (vm (heap k))\<lparr>interrupt_handlers := (interrupt_handlers (vm (heap k)))(33 := Some keyboard_callback)\<rparr>\<rparr>"
    and f: "screen k1 = screen k" "mounted k1 = mounted k" "initrd_vars k1 = initrd_vars k" "next_task_id k1 = next_task_id k" and ul1: "unlocked k1"
    using M(2) unfolding k1_def M(1) by (simp_all add: set_handler_def register_interrupt_handler_def)
  have r: "heap_room (heap k1) (12563 + j)" "live (heap k1) = live (heap k)"
    using p heap_room_handlers unfolding hp by (simp_all add: printing_def)
  have p1: "printing B vbe (12563 + j) k1 u"
    by (rule printing_frame [OF p r(1)]) (use f in \<open>simp_all add: hp\<close>)
  obtain k' u' a pr c q w where t: "setup_tasks B k1 = Some k'"
    "terminal_puts (tasks_text B (next_task_id k1) (esp (tcb k' pr)) (esp (tcb k' c)) (esp (tcb k' q))) u = Some u'" "printing B vbe j k' u'"
    "tasks_ok k' [a, pr, c, q]" "running_task k' = a" "task_state (tcb k' a) = TASK_RUNNING"
    "starts_at k' pr (producer_addr B)" "starts_at k' c (consumer_addr B)" "starts_at k' q (shell_addr B)"
    "(kstack (tcb k' q), w) \<in> live (heap k')" "4096 \<le> w" "\<forall>v. (kstack (tcb k' q), v) \<notin> live (heap k1)" "goes_on B k1 k'"
    by (rule setup_tasks_ok [OF p1])
  note g = t(13) [unfolded goes_on_def]
  have f': "mounted k' = mounted k" "initrd_vars k' = initrd_vars k" "unlocked k'"
    using g ul1 f by (simp_all add: unlocked_def)
  have "heap_keeps (heap k) (heap k')" using g r(2) by (simp add: heap_keeps_def kept_def hp)
  then show thesis
    using t g f' r(2) f(4) by (intro that [of k' pr c q u' a w]) (simp_all add: k1_def [symmetric] hp tasks_ok_def)
qed

text \<open>The last message and the end of \<^verbatim>\<open>kmain\<close>.\<close>

lemma boot_last_message:
  assumes p: "printing B vbe j k u"
  obtains k0 k' u' where "kprintf B (''System Ready. Multitasking active!'' @ nl) [] k = Some k0" "k' = sti k0" "iflag k'"
    "terminal_puts (ascii (''System Ready. Multitasking active!'' @ nl)) u = Some u'" "printing B vbe j k' u'"
    "heap_keeps (heap k) (heap k')" "only (print_bytes B vbe) (hmem (heap k)) (hmem (heap k'))" "live (heap k') = live (heap k)"
    "vm (heap k') = vm (heap k)" "tcb k' = tcb k" "mounted k' = mounted k" "initrd_vars k' = initrd_vars k"
    "running_task k' = running_task k" "ready_queue k' = ready_queue k" "unlocked k' = unlocked k"
proof -
  obtain t' u' where k: "kprintf B (''System Ready. Multitasking active!'' @ nl) [] k = Some (k\<lparr>screen := t', heap := (heap k)\<lparr>hmem := vmem t'\<rparr>\<rparr>)"
    "terminal_puts (ascii (''System Ready. Multitasking active!'' @ nl)) u = Some u'"
    "printing B vbe j (k\<lparr>screen := t', heap := (heap k)\<lparr>hmem := vmem t'\<rparr>\<rparr>) u'"
    "only (print_bytes B vbe) (hmem (heap k)) (vmem t')" "live ((heap k)\<lparr>hmem := vmem t'\<rparr>) = live (heap k)"
    by (rule kprintf_ok [OF p ready_ok])
  note kp = kprintf_keeps [OF p k(4,5)]
  define k' where "k' = sti (k\<lparr>screen := t', heap := (heap k)\<lparr>hmem := vmem t'\<rparr>\<rparr>)"
  have p': "printing B vbe j k' u'" using k(3) by (simp add: printing_def kernel_console_def k'_def sti_def)
  show thesis
    by (rule that [OF k(1) k'_def _ k(2) p']) (use kp k(4,5) in \<open>simp_all add: k'_def sti_def unlocked_def\<close>)
qed

lemma boot_tasks_running:
  assumes b: "boot_ready B files ls cat j k"
  obtains k' t u a p c q w z1 z2 z3 where "kmain B k = Some k'" "iflag k'"
    "terminal_puts (boot_text B (mounted k') (next_task_id k) (esp (tcb k' p)) (esp (tcb k' c)) (esp (tcb k' q)))
       (terminal_initialize (boot_vbe k) t) = Some u" "printing B (boot_vbe k) j k' u"
    "mounted k' = initrd_root (initrd_vars k')" "initrd_header (initrd_vars k') = 0xC0040000"
    "initrd_ok (boot_initrd B) (initrd_vars k') files (hmem (heap k'))"
    "(initrd_root (initrd_vars k'), z1) \<in> live (heap k')" "(initrd_dev (initrd_vars k'), z2) \<in> live (heap k')"
    "(root_nodes (initrd_vars k'), z3) \<in> live (heap k')" "184 \<le> unat z1" "184 \<le> unat z2" "184 * length files \<le> unat z3"
    "interrupt_handlers (vm (heap k')) =
       (\<lambda>_. None)(14 := Some page_fault_handler, 32 := Some timer_callback, 33 := Some keyboard_callback)" "unlocked k'"
    "\<forall>x. x < KHEAP_START \<longrightarrow> x \<notin> bytes_from 0xC0040000 (length (mkinitrd files)) \<union> bytes_from (boot_digits B) 34 \<longrightarrow>
       hmem (heap k') x = hmem (heap k) x"
    "task_list k' [a, p, c, q]" "running_task k' = a" "task_state (tcb k' a) = TASK_RUNNING"
    "starts_at k' p (producer_addr B)" "starts_at k' c (consumer_addr B)" "starts_at k' q (shell_addr B)"
    "(kstack (tcb k' q), w) \<in> live (heap k')" "4096 \<le> w"
    "kstack (tcb k' q) \<notin> {initrd_root (initrd_vars k'), initrd_dev (initrd_vars k'), root_nodes (initrd_vars k')}"
proof -
  let ?vbe = "boot_vbe k" and ?img = "bytes_from 0xC0040000 (length (mkinitrd files))" and ?d = "bytes_from (boot_digits B) 34"
  note R = b [unfolded boot_ready_def]
  obtain k1 k2 k3 t u z1 z2 z3 where 1: "setup_memory (setup_tables B k) = Some k1" "setup_screen B k1 = Some k2" "setup_files B k2 = Some k3"
    and 2: "terminal_puts (banner @ mounted_text (mounted k3)) (terminal_initialize ?vbe t) = Some u" "printing B ?vbe (12563 + j) k3 u"
    and 3: "mounted k3 = initrd_root (initrd_vars k3)" "initrd_header (initrd_vars k3) = 0xC0040000"
      "initrd_ok (boot_initrd B) (initrd_vars k3) files (hmem (heap k3))"
      "(initrd_root (initrd_vars k3), z1) \<in> live (heap k3)" "(initrd_dev (initrd_vars k3), z2) \<in> live (heap k3)"
      "(root_nodes (initrd_vars k3), z3) \<in> live (heap k3)" and sz: "184 \<le> unat z1" "184 \<le> unat z2" "184 * length files \<le> unat z3"
    and 4: "interrupt_handlers (vm (heap k3)) = (\<lambda>_. None)(14 := Some page_fault_handler, 32 := Some timer_callback)" "unlocked k3"
      "next_task_id k3 = next_task_id k" "\<forall>x. x < KHEAP_START \<longrightarrow> x \<notin> ?img \<union> ?d \<longrightarrow> hmem (heap k3) x = hmem (heap k) x"
    by (rule boot_files [OF b]) (rule that)
  obtain k5 u5 a p c q w where tt: "terminal_puts (tasks_text B (next_task_id k3) (esp (tcb k5 p)) (esp (tcb k5 c)) (esp (tcb k5 q))) u = Some u5"
    and 5: "setup_tasks B (setup_monitors B k3) = Some k5" "printing B ?vbe j k5 u5" "heap_keeps (heap k3) (heap k5)"
    "\<forall>x. x < KHEAP_START \<longrightarrow> x \<notin> ?d \<longrightarrow> hmem (heap k5) x = hmem (heap k3) x" "mounted k5 = mounted k3" "initrd_vars k5 = initrd_vars k3" "unlocked k5"
    "interrupt_handlers (vm (heap k5)) = (interrupt_handlers (vm (heap k3)))(33 := Some keyboard_callback)"
    and tk: "task_list k5 [a, p, c, q]" "running_task k5 = a" "task_state (tcb k5 a) = TASK_RUNNING"
      "starts_at k5 p (producer_addr B)" "starts_at k5 c (consumer_addr B)" "starts_at k5 q (shell_addr B)"
      "(kstack (tcb k5 q), w) \<in> live (heap k5)" "4096 \<le> w" "\<forall>v. (kstack (tcb k5 q), v) \<notin> live (heap k3)"
    by (rule boot_monitors_tasks [OF 2(2) 4(2)]) (rule that)
  obtain k0 k6 u6 where 6: "kprintf B (''System Ready. Multitasking active!'' @ nl) [] k5 = Some k0" "k6 = sti k0" "iflag k6"
    "terminal_puts (ascii (''System Ready. Multitasking active!'' @ nl)) u5 = Some u6" "printing B ?vbe j k6 u6"
    "heap_keeps (heap k5) (heap k6)" "only (print_bytes B ?vbe) (hmem (heap k5)) (hmem (heap k6))" "live (heap k6) = live (heap k5)"
    "vm (heap k6) = vm (heap k5)" "tcb k6 = tcb k5" "mounted k6 = mounted k5" "initrd_vars k6 = initrd_vars k5"
    "running_task k6 = running_task k5" "ready_queue k6 = ready_queue k5" "unlocked k6 = unlocked k5"
    by (rule boot_last_message [OF 5(2)]) (rule that)
  note f6 = 6(8-15) 5(5-7)
  have run: "kmain B k = Some k6" using 1 5(1) 6(1,2) by (simp add: kmain_def)
  have st: "starts_at k6 x s" if "starts_at k5 x s" for x s
    by (rule starts_at_kept [OF that]) (use 6(6) in \<open>simp_all add: heap_keeps_def f6\<close>)
  have n5: "(initrd_root (initrd_vars k3), z1) \<in> live (heap k5)" "(initrd_dev (initrd_vars k3), z2) \<in> live (heap k5)"
    "(root_nodes (initrd_vars k3), z3) \<in> live (heap k5)" using 3(4-6) 5(3) by (auto simp: heap_keeps_def)
  have ld: "initrd_loaded (boot_initrd B) (initrd_header (initrd_vars k3)) files (hmem (heap k))" using R 3(2) by simp
  have io5: "initrd_ok (boot_initrd B) (initrd_vars k3) files (hmem (heap k5))"
    by (rule initrd_ok_kept [OF 3(3) ld _ 3(4-6) sz 5(4)]) (use 5(3) R 3(2) in \<open>auto simp: heap_keeps_def\<close>)
  have P5: "fb_behind ?vbe" "unat (boot_digits B) + 34 \<le> unat KHEAP_START" "heap_inv (heap k5)" "heap_end (heap k5) = KHEAP_START + KHEAP_INITIAL_SIZE"
    using 5(2) heap_room_inv by (auto simp: printing_def)
  have "print_bytes B ?vbe \<inter> initrd_area (boot_initrd B) (initrd_vars k3) files = {}"
    by (rule print_initrd_apart [OF P5 n5 sz ld]) (use R 3(2) in auto)
  then have io6: "initrd_ok (boot_initrd B) (initrd_vars k6) files (hmem (heap k6))"
    using initrd_ok_only [OF io5 6(7)] by (simp add: f6)
  have "hmem (heap k6) x = hmem (heap k) x" if "x < KHEAP_START" "x \<notin> ?img \<union> ?d" for x
  proof -
    have "x \<notin> print_bytes B ?vbe" using low_fb [OF P5(1), of "{x}"] that by (simp add: print_bytes_def)
    then show ?thesis using 6(7) 5(4) 4(4) that by (simp add: only_def)
  qed
  moreover have "terminal_puts (boot_text B (mounted k6) (next_task_id k) (esp (tcb k6 p)) (esp (tcb k6 c)) (esp (tcb k6 q)))
      (terminal_initialize ?vbe t) = Some u6"
  proof -
    have "boot_text B r n x y z = (banner @ mounted_text r) @ tasks_text B n x y z @ ascii (''System Ready. Multitasking active!'' @ nl)"
      for r n x y z by (simp add: boot_text_def)
    then show ?thesis using 2(1) tt 6(4) f6(3,4,9) 4(3) by (simp only: terminal_puts_append option.case)
  qed
  moreover have "kstack (tcb k6 q) \<notin> {initrd_root (initrd_vars k6), initrd_dev (initrd_vars k6), root_nodes (initrd_vars k6)}"
    using tk(9) 3(4-6) by (auto simp: f6)
  ultimately show thesis
    using run f6 3(1,2) io6 n5 sz 4(1,2) 5(8) 6(3,5) tk st [OF tk(4)] st [OF tk(5)] st [OF tk(6)]
    by (intro that [of k6 p c q t u6 z1 z2 z3 a w]) (simp_all add: task_list_def)
qed

text \<open>The environment of the shell after the start, wherever its local arrays are.\<close>

definition shell_entry :: "boot_link \<Rightarrow> kernel \<Rightarrow> u32 \<Rightarrow> u32 \<Rightarrow> u32 \<Rightarrow> u32 \<Rightarrow> shell_env" where
  "shell_entry B k ls cat cmd buf = \<lparr>cmd_buffer = cmd, print_buf = buf, lit_ls = ls, lit_cat = cat, fs_root = mounted k,
     fs_link = boot_initrd B, fs_state = initrd_vars k\<rparr>"

definition tasks_env :: "boot_link \<Rightarrow> u32 list \<Rightarrow> (role \<Rightarrow> u32) \<Rightarrow> buffer_env" where
  "tasks_env B ts digits = \<lparr>idle_task = ts ! 0, buffer_monitor = buffer_mon B,
     task_of = (\<lambda>R. case R of Producer \<Rightarrow> ts ! 1 | Consumer \<Rightarrow> ts ! 2), digits_of = digits\<rparr>"

lemma boot_buffer_start:
  assumes tl: "task_list k [a, p, c, q]" and r: "running_task k = a" "task_state (tcb k a) = TASK_RUNNING"
    and st: "starts_at k p s1" "starts_at k c s2" "starts_at k q s3" and u: "unlocked k"
  shows "buffer_start (tasks_env B [a, p, c, q] digits) [a, p, c, q]
    ((sync_sys.truncate k, \<lambda>_. User, {}), \<lambda>_. Asleep, static_vars (screen k), ([], []))"
proof -
  have d: "distinct [a, p, c, q]" using tl by (simp add: task_list_def)
  have "sync_start a [a, p, c, q] (sync_sys.truncate k, \<lambda>_. User, {})"
    using tl r st u d by (auto simp: sync_start_def sync_sys.truncate_def task_list_def starts_at_def unlocked_def)
  then show ?thesis using d by (simp add: buffer_start_def tasks_env_def range_roles static_vars_def)
qed

lemma boot_shell_ok:
  assumes b: "boot_ready B files ls cat j k" and p: "printing B (boot_vbe k) j k' u" and m: "mounted k' = initrd_root (initrd_vars k')"
    and h: "initrd_header (initrd_vars k') = 0xC0040000" and ok: "initrd_ok (boot_initrd B) (initrd_vars k') files (hmem (heap k'))"
    and nodes: "(initrd_root (initrd_vars k'), z1) \<in> live (heap k')" "(initrd_dev (initrd_vars k'), z2) \<in> live (heap k')"
      "(root_nodes (initrd_vars k'), z3) \<in> live (heap k')" and sz: "184 \<le> unat z1" "184 \<le> unat z2" "184 * length files \<le> unat z3"
    and low: "\<forall>x. x < KHEAP_START \<longrightarrow> x \<notin> bytes_from 0xC0040000 (length (mkinitrd files)) \<union> bytes_from (boot_digits B) 34 \<longrightarrow>
       hmem (heap k') x = hmem (heap k) x"
    and st: "(s, w) \<in> live (heap k')" "4096 \<le> w" "s \<notin> {initrd_root (initrd_vars k'), initrd_dev (initrd_vars k'), root_nodes (initrd_vars k')}"
    and ar: "arrays_in s (shell_entry B k' ls cat cmd buf)"
  shows "shell_ok (shell_entry B k' ls cat cmd buf) files (s, w) (kernel_console k')"
proof -
  let ?E = "shell_entry B k' ls cat cmd buf"
  note R = b [unfolded boot_ready_def]
  have ld: "initrd_loaded (boot_initrd B) 0xC0040000 files (hmem (heap k))" and li: "shell_linked (boot_initrd B) 0xC0040000 files ls cat (hmem (heap k))"
    using R by simp_all
  note L = li [unfolded shell_linked_def]
  have inv: "heap_inv (heap k')" and fb: "framebuffer_area (terminal_vbe (screen k')) \<inter> {x. x < heap_end (heap k')} = {}"
    using p heap_room_inv by (auto simp: printing_def fb_behind_def)
  have cs: "cstr (hmem (heap k')) ls str_ls" "cstr (hmem (heap k')) cat str_cat"
    by (rule literal_kept [OF _ _ _ _ low, of _ _ 3], use L R in \<open>auto simp: str_ls_def\<close>)
       (rule literal_kept [OF _ _ _ _ low, of _ _ 5], use L R in \<open>auto simp: str_cat_def\<close>)
  have E: "fs_link ?E = boot_initrd B" "fs_state ?E = initrd_vars k'" "fs_root ?E = initrd_root (initrd_vars k')" "lit_ls ?E = ls" "lit_cat ?E = cat"
    by (simp_all add: shell_entry_def m)
  have "bytes_from s 4096 \<subseteq> bytes_from s (unat w)" using st(2) by (intro bytes_from_mono) (simp add: word_le_nat_alt)
  then have arrays: "digits_area (print_buf ?E) \<subseteq> bytes_from s (unat w)" "bytes_from (cmd_buffer ?E) 128 \<subseteq> bytes_from s (unat w)"
    "digits_area (print_buf ?E) \<inter> bytes_from (cmd_buffer ?E) 128 = {}" "unat (print_buf ?E) + 34 \<le> 2 ^ 32"
    using ar by (auto simp: arrays_in_def)
  show ?thesis unfolding kernel_console_def
    by (rule shell_ok_stack [OF inv ok h ld li cs nodes sz st(1,3) E arrays fb])
qed

section \<open>A machine\<close>

definition demo_boot :: boot_link where
  "demo_boot = \<lparr>gdt_addr = 0xC0100000, idt_addr = 0xC0100100, isr_stub = (\<lambda>i. 0xC0001000 + 16 * of_nat i),
     irq_stub = (\<lambda>i. 0xC0002000 + 16 * of_nat i), pic_masks = (\<lambda>_. 0xFF), boot_digits = 0xC0038000, boot_initrd = demo_link,
     keyboard_mon = 0xC0101000, buffer_mon = 0xC0102000, producer_addr = 0xC0003000, consumer_addr = 0xC0003100, shell_addr = 0xC0003200\<rparr>"

definition demo_kernel :: kernel where
  "demo_kernel = (kbd_sys.extend demo_kbd
     \<lparr>gdt = replicate 3 \<lparr>g_limit_low = 0, g_base_low = 0, g_base_middle = 0, g_access = 0, g_granularity = 0, g_base_high = 0\<rparr>,
      gp = \<lparr>pt_limit = 0, pt_base = 0\<rparr>, idt = (\<lambda>_. \<lparr>i_base_low = 0, i_selector = 0, i_always0 = 0, i_flags = 0, i_base_high = 0\<rparr>),
      idtp = \<lparr>pt_limit = 0, pt_base = 0\<rparr>, mounted = 0, initrd_vars = \<lparr>initrd_header = 0, file_headers = 0, initrd_root = 0,
        initrd_dev = 0, root_nodes = 0, nroot_nodes = 0\<rparr>\<rparr>)
     \<lparr>heap := \<lparr>vm = boot_state, hmem = demo_shell_mem, heap_start = 0, heap_end = 0\<rparr>, running_task := 0, ready_queue := 0,
      next_task_id := 1, iflag := False\<rparr>"

lemma demo_kernel_simps: "heap demo_kernel = \<lparr>vm = boot_state, hmem = demo_shell_mem, heap_start = 0, heap_end = 0\<rparr>"
  "mutexes demo_kernel = mutexes demo_sync" "conds demo_kernel = conds demo_sync"
  by (simp_all add: demo_kernel_def kbd_sys.defs demo_kbd_def sync_sys.defs)

lemma demo_boot_vbe: "v_bpp (boot_vbe demo_kernel) = 32" "v_width (boot_vbe demo_kernel) = 1024" "v_height (boot_vbe demo_kernel) = 768"
  "v_pitch (boot_vbe demo_kernel) = 4096" "v_framebuffer (boot_vbe demo_kernel) = 0xFD000000"
  by (simp_all add: boot_vbe_def demo_kernel_simps boot_state_def vbe_info_def load32_def mem_of_words_def boot_word_def page_base_def Let_def)

lemma demo_boot_ready: "boot_ready demo_boot demo_files 0xC0030020 0xC0030023 1000 demo_kernel"
proof -
  have lo: "low_kept demo_shell_mem demo_shell_mem" by simp
  note l = demo_shell_linked [OF lo]
  have b: "boot_ok ((vm (heap demo_kernel))\<lparr>pmm := kmain_pmm (pmm (vm (heap demo_kernel)))\<rparr>)"
    using boot_state_pmm_ok by (simp add: demo_kernel_simps)
  have vbe: "vbe_ok (boot_vbe demo_kernel)" by (simp add: vbe_ok_def demo_boot_vbe)
  have fb: "fb_behind (boot_vbe demo_kernel)"
  proof -
    have "\<not> a < KHEAP_START + KHEAP_INITIAL_SIZE" if a: "a \<in> framebuffer_area (boot_vbe demo_kernel)" for a
    proof -
      have "a \<in> bytes_from 0xFD000000 0x300000" using a by (simp add: framebuffer_area_def demo_boot_vbe bytes_from_def)
      then obtain i where i: "i < 0x300000" "a = 0xFD000000 + of_nat i" using bytes_from_ex by blast
      have "unat a = unat (0xFD000000 :: u32) + i" unfolding i(2) by (rule unat_add_of_nat) (use i(1) in simp)
      then show ?thesis using heap_limit by (simp add: word_less_nat_alt)
    qed
    then show ?thesis by (auto simp: fb_behind_def)
  qed
  have d: "bytes_from 0xC0038000 34 \<inter> (bytes_from 0xC0040000 (length (mkinitrd demo_files)) \<union> bytes_from (lit_dev demo_link) 4 \<union>
       bytes_from (lit_initrd demo_link) 7 \<union> bytes_from 0xC0030020 3 \<union> bytes_from 0xC0030023 5) = {}"
    unfolding Int_Un_distrib Un_empty
    by (intro conjI sep_disjoint sep_ordered; simp add: demo_sizes demo_link_def)
  have "unlocked demo_kernel" by (simp add: unlocked_def demo_kernel_simps demo_sync_def)
  moreover have "184 * length demo_files + 12994 + 1000 \<le> unat (KHEAP_INITIAL_SIZE - 20)" by (simp add: KHEAP_INITIAL_SIZE_def demo_sizes)
  ultimately show ?thesis
    using b vbe fb l d by (simp add: boot_ready_def demo_boot_def demo_kernel_simps) (simp add: KHEAP_START_def)
qed

section \<open>Properties\<close>

text \<open>
  C40: the start of the kernel as a whole. On a machine as the boot loader leaves it, \<^verbatim>\<open>kmain\<close> returns
  to its idle loop with interrupts enabled, the three handlers registered and, on the cleared screen, its
  messages in order with the numbers and stack pointers of the tasks: that the kernel boots, the root of the file system,
  the idle task, the three new tasks and that the system is ready. The producer, the consumer and the shell are ready to start at their entry
  points, behind the idle task that runs; the locks are free, so that the bounded buffer starts as
  its properties assume, and the shell, whose local arrays are somewhere in its stack, has the
  mounted ramdisk and the heap that its properties assume.
\<close>

theorem kmain_boots:
  assumes "boot_ready B files ls cat j k"
  shows "\<exists>k' t u a p c q w. kmain B k = Some k' \<and> iflag k' \<and>
    interrupt_handlers (vm (heap k')) =
      (\<lambda>_. None)(14 := Some page_fault_handler, 32 := Some timer_callback, 33 := Some keyboard_callback) \<and>
    terminal_puts (boot_text B (mounted k') (next_task_id k) (esp (tcb k' p)) (esp (tcb k' c)) (esp (tcb k' q)))
      (terminal_initialize (boot_vbe k) t) = Some u \<and> screen_is (kernel_console k') u \<and>
    starts_at k' p (producer_addr B) \<and> starts_at k' c (consumer_addr B) \<and> starts_at k' q (shell_addr B) \<and>
    buffer_start (tasks_env B [a, p, c, q] digits) [a, p, c, q]
      ((sync_sys.truncate k', \<lambda>_. User, {}), \<lambda>_. Asleep, static_vars (screen k'), ([], [])) \<and>
    (\<forall>cmd buf. arrays_in (kstack (tcb k' q)) (shell_entry B k' ls cat cmd buf) \<longrightarrow>
      shell_ok (shell_entry B k' ls cat cmd buf) files (kstack (tcb k' q), w) (kernel_console k')) \<and>
    heap_room (heap k') j"
proof -
  obtain k' t u a p c q w z1 z2 z3 where 1: "kmain B k = Some k'" "iflag k'"
    "terminal_puts (boot_text B (mounted k') (next_task_id k) (esp (tcb k' p)) (esp (tcb k' c)) (esp (tcb k' q)))
      (terminal_initialize (boot_vbe k) t) = Some u" "printing B (boot_vbe k) j k' u"
    and fs: "mounted k' = initrd_root (initrd_vars k')" "initrd_header (initrd_vars k') = 0xC0040000"
      "initrd_ok (boot_initrd B) (initrd_vars k') files (hmem (heap k'))"
      "(initrd_root (initrd_vars k'), z1) \<in> live (heap k')" "(initrd_dev (initrd_vars k'), z2) \<in> live (heap k')"
      "(root_nodes (initrd_vars k'), z3) \<in> live (heap k')" "184 \<le> unat z1" "184 \<le> unat z2" "184 * length files \<le> unat z3"
    and 2: "interrupt_handlers (vm (heap k')) =
         (\<lambda>_. None)(14 := Some page_fault_handler, 32 := Some timer_callback, 33 := Some keyboard_callback)" "unlocked k'"
      "\<forall>x. x < KHEAP_START \<longrightarrow> x \<notin> bytes_from 0xC0040000 (length (mkinitrd files)) \<union> bytes_from (boot_digits B) 34 \<longrightarrow>
         hmem (heap k') x = hmem (heap k) x"
    and ts: "task_list k' [a, p, c, q]" "running_task k' = a" "task_state (tcb k' a) = TASK_RUNNING"
      "starts_at k' p (producer_addr B)" "starts_at k' c (consumer_addr B)" "starts_at k' q (shell_addr B)"
    and st: "(kstack (tcb k' q), w) \<in> live (heap k')" "4096 \<le> w"
      "kstack (tcb k' q) \<notin> {initrd_root (initrd_vars k'), initrd_dev (initrd_vars k'), root_nodes (initrd_vars k')}"
    by (rule boot_tasks_running [OF assms]) (rule that)
  note sh = boot_shell_ok [OF assms 1(4) fs 2(3) st]
  note bs = boot_buffer_start [OF ts 2(2), of B digits]
  have "screen_is (kernel_console k') u" "heap_room (heap k') j" using 1(4) by (simp_all add: printing_def)
  with 1 2(1) ts sh bs show ?thesis by blast
qed

text \<open>The kernel starts on a machine with the ramdisk of one file.\<close>

theorem kmain_boots_witness:
  "\<exists>k' p. kmain demo_boot demo_kernel = Some k' \<and> iflag k' \<and> starts_at k' p 0xC0003000 \<and> heap_room (heap k') 1000"
proof -
  from kmain_boots [OF demo_boot_ready, of "\<lambda>_. 0xD0080000"] show ?thesis by (auto simp: demo_boot_def)
qed

end
