(* ===== verification/Sleeping.thy ===== *)
theory Sleeping
  imports Sync_Machine
begin

text \<open>
  \<^verbatim>\<open>sleep\<close> in the interleaving of \<open>Sync_Machine\<close>: only ticks count a sleeping task down, whatever the other tasks do. A
  tick is any call of the timer interrupt's routine, by the timer or by a task that yields, the
  call with which the task itself goes to sleep included.
\<close>

section \<open>A step and a sleeping task\<close>

text \<open>What a task that sleeps for \<open>n\<close> more ticks looks like.\<close>

definition asleep :: "'a sync_sys_scheme \<Rightarrow> u32 \<Rightarrow> nat \<Rightarrow> bool" where
  "asleep s p n \<longleftrightarrow> task_state (tcb s p) = TASK_SLEEPING \<and> unat (sleep_ticks (tcb s p)) = n"

lemma block_on_other: "block_on r (w, t) = Some (w', t') \<Longrightarrow> q \<noteq> r \<Longrightarrow>
    task_state (t' q) = task_state (t q) \<and> sleep_ticks (t' q) = sleep_ticks (t q)"
  by (auto simp: block_on_def Let_def split: if_splits option.splits)

lemma wake_first_other: "wake_first (w, t) = Some (x, w', t') \<Longrightarrow> q \<noteq> w \<Longrightarrow> t' q = t q"
  by (auto simp: wake_first_def Let_def split: if_splits)

lemma unlock_other:
  assumes "m_waiters (mutexes s m) \<noteq> p"
  shows "tcb (mutex_unlock m s) p = tcb s p"
proof -
  let ?s = "set_mutex m (\<lambda>x. x\<lparr>owner := 0\<rparr>) (set_mutex m (\<lambda>x. x\<lparr>locked := 0\<rparr>) (cli s))"
  have w: "m_waiters (mutexes ?s m) = m_waiters (mutexes s m)" "tcb ?s = tcb s" by (simp_all add: set_mutex_def cli_def)
  show ?thesis
    using wake_first_other [of "m_waiters (mutexes s m)" "tcb s"] assms
    by (auto simp: mutex_unlock_def Let_def w split: option.splits)
qed

lemma signal_other: "c_waiters (conds s c) \<noteq> p \<Longrightarrow> tcb (cond_signal c s) p = tcb s p"
  using wake_first_other [of "c_waiters (conds s c)" "tcb s"]
  by (auto simp: cond_signal_def Let_def cli_def split: option.splits)

lemma no_tick [simp]: "tick (cli s) = tick s" "tick (sti s) = tick s" "tick (set_mutex m f s) = tick s" "tick (set_cond c g s) = tick s"
  "tick (mutex_unlock m s) = tick s" "tick (cond_signal c s) = tick s" "tick (mutex_take m r s) = tick s"
  "running_task (mutex_unlock m s) = running_task s" "running_task (cond_signal c s) = running_task s"
  "running_task (mutex_take m r s) = running_task s" "tcb (mutex_take m r s) = tcb s"
  by (auto simp: cli_def sti_def set_mutex_def set_cond_def mutex_unlock_def cond_signal_def mutex_take_def Let_def split: option.splits)

lemma inv_not_waiting:
  assumes i: "sync_inv idle ts Q W (s, pc, H)" and p: "p \<in> set ts" "task_state (tcb s p) = TASK_SLEEPING"
  shows "W p = None" "wait_head s k \<noteq> p" "p \<notin> set (Q k)" "p \<noteq> idle" "in_code (pc (running_task s)) \<Longrightarrow> running_task s \<noteq> p"
proof -
  have q: "queued s Q W" and l: "task_list s ts" and u: "queues_inv ts W (states s) pc" and t: "tasks_inv idle ts (states s) (running_task s) pc"
    and run: "in_code (pc (running_task s)) \<Longrightarrow> states s (running_task s) = TASK_RUNNING"
    using i control_parts(1,2,4) [of idle ts W "states s" "running_task s" "holder s" pc H] unfolding sync_inv_def by auto
  show w: "W p = None" using u p by (auto simp: queues_inv_def states_def)
  then show n: "p \<notin> set (Q k)" using q by (simp add: queued_def)
  have "waiting (wait_head s k, tcb s) (Q k)" using q by (simp add: queued_def)
  moreover have "p \<noteq> 0" using p(1) l chain_nonzero by (auto simp: task_list_def)
  ultimately show "wait_head s k \<noteq> p" using n by (cases "Q k") (auto simp: waiting_def)
  show "p \<noteq> idle" using t p(2) by (auto simp: tasks_inv_def states_def)
  show "in_code (pc (running_task s)) \<Longrightarrow> running_task s \<noteq> p" using run p(2) by (auto simp: states_def)
qed

text \<open>The timer interrupt counts the task down and never chooses it before it is awake.\<close>

lemma timer_asleep:
  assumes i: "sync_inv0 idle ts Q W (s, pc, H)" and t: "timer_interrupt e s = Some (x, s')"
    and p: "p \<in> set ts" "asleep s p (Suc n)"
  shows "tick s' = tick s + 1 \<and> (if n = 0 then runnable (tcb s' p) else asleep s' p n \<and> running_task s' \<noteq> p)"
proof -
  have I: "task_list s ts" "control0 idle ts W (states s) (running_task s) (holder s) pc H"
    using i by (simp_all add: sync_inv0_def)
  have P: "task_state (tcb s p) = TASK_SLEEPING" "unat (sleep_ticks (tcb s p)) = Suc n" using p(2) by (simp_all add: asleep_def)
  have T: "tasks_inv idle ts (states s) (running_task s) pc" and U: "queues_inv ts W (states s) pc"
    using I(2) by (auto simp: control0_def)
  let ?t = "\<lambda>p. if p \<in> set ts then woken (tcb s p) else tcb s p"
  let ?s = "s\<lparr>tick := tick s + 1, tcb := ?t\<rparr>"
  let ?r = "running_task s"
  let ?n = "pick ?t (others ?r ts) ?r"
  have r: "?r \<in> set ts" using T by (simp add: tasks_inv_def)
  have d: "distinct ts" using I(1) by (simp add: task_list_def)
  have l1: "task_list (s\<lparr>tick := tick s + 1\<rparr>) ts" using I(1) by (simp add: task_list_def)
  have t1: "tcb (s\<lparr>tick := tick s + 1\<rparr>) = tcb s" by simp
  have l2: "task_list ?s ts" using task_list_woken [OF l1] unfolding t1 .
  have u: "tasks_update_sleep_ticks (s\<lparr>tick := tick s + 1\<rparr>) = Some ?s" using update_sleep_spec [OF l1] unfolding t1 .
  have "schedule e ?s = Some (if ?n = ?r then e else esp (?t ?n), ?s\<lparr>tcb := switch_to e ?r ?n ?t, running_task := ?n\<rparr>)"
    using schedule_others [OF l2, of e] r by simp
  then have s': "s' = ?s\<lparr>tcb := switch_to e ?r ?n ?t, running_task := ?n\<rparr>" using t u by (simp add: timer_interrupt_def)
  have n: "if ?n = ?r then \<forall>p \<in> set ts. p \<noteq> ?r \<longrightarrow> \<not> active (task_state (?t p)) else ?n \<in> set ts \<and> active (task_state (?t ?n))"
    by (rule pick_next [OF d r])
  note w = woken_sleep [OF P]
  have st: "task_state (tcb s' p) = (if p = ?n then TASK_RUNNING else task_state (woken (tcb s p)))"
    using p(1) w(2) by (cases "p = ?r") (auto simp: s' switch_to_state suspended_def)
  have k: "sleep_ticks (tcb s' p) = sleep_ticks (woken (tcb s p))" using p(1) by (cases "p = ?n"; cases "p = ?r") (auto simp: s' switch_to_def suspended_def Let_def)
  have "p \<noteq> ?n" if "n \<noteq> 0"
  proof
    assume e: "p = ?n"
    have "task_state (?t p) = TASK_SLEEPING" using w(2) that p(1) by simp
    then have na: "\<not> active (task_state (?t p))" by (simp add: active_def)
    have ai: "active (task_state (tcb s idle))" "idle \<in> set ts" using idle_active [OF T U] T by (auto simp: states_def tasks_inv_def)
    then have "active (task_state (?t idle))" "idle \<noteq> p" using P(1) by (auto simp: woken_def active_def)
    then show False using n e na ai(2) by (cases "?n = ?r") auto
  qed
  then show ?thesis using w st k by (auto simp: s' asleep_def runnable_def)
qed

section \<open>All steps\<close>

lemma step_asleep:
  assumes "sync_step idle conf conf'" and "sync_inv idle ts Q W conf" and "p \<in> set ts" and "asleep (fst conf) p (Suc n)"
  shows "tick (fst conf') = tick (fst conf) \<and> asleep (fst conf') p (Suc n) \<and> running_task (fst conf') = running_task (fst conf) \<or>
    tick (fst conf') = tick (fst conf) + 1 \<and>
      (if n = 0 then runnable (tcb (fst conf') p) else asleep (fst conf') p n \<and> running_task (fst conf') \<noteq> p)"
  using assms
proof (induction rule: sync_step.induct)
  case (lock_free r s pc m H)
  then show ?case by (simp add: asleep_def)
next
  case (lock_wait r s pc m s1 e x s2 H)
  have P: "task_state (tcb s p) = TASK_SLEEPING" using lock_wait.prems by (simp add: asleep_def)
  have "in_code (pc r)" using lock_wait by (auto simp: in_code_def)
  then have "r \<noteq> p" using inv_not_waiting(5) [OF lock_wait.prems(1,2) P] lock_wait.hyps(1) by simp
  then have "asleep s1 p (Suc n)" and k: "tick s1 = tick s"
    using lock_wait.hyps(5) lock_wait.prems(3) block_on_other [of r "m_waiters (mutexes s m)" "tcb s" _ _ p]
    by (auto simp: mutex_wait_def asleep_def cli_def split: option.splits)
  moreover from inv_mutex_wait [OF lock_wait.prems(1) lock_wait.hyps(1-4)] lock_wait.hyps(5)
  have "sync_inv0 idle ts (Q(Mutex m := Q (Mutex m) @ [r])) (W(r := Some (Mutex m))) (s1, pc(r := Wants m), H)" by auto
  ultimately show ?case using timer_asleep [OF _ lock_wait.hyps(6) lock_wait.prems(2)] by (simp add: k)
next
  case (unlock r s pc m H)
  have P: "task_state (tcb s p) = TASK_SLEEPING" using unlock.prems by (simp add: asleep_def)
  have "wait_head s (Mutex m) \<noteq> p" by (rule inv_not_waiting(2) [OF unlock.prems(1,2) P])
  then show ?case using unlock_other [of s m p] unlock.prems by (simp add: asleep_def wait_head_def)
next
  case (wait r s pc m H c s1)
  have P: "task_state (tcb s p) = TASK_SLEEPING" using wait.prems by (simp add: asleep_def)
  have "in_code (pc r)" using wait by (auto simp: in_code_def)
  then have r: "r \<noteq> p" using inv_not_waiting(5) [OF wait.prems(1,2) P] wait.hyps(1) by simp
  obtain w t where b: "block_on r (c_waiters (conds s c), tcb s) = Some (w, t)"
    and s1: "s1 = mutex_unlock m (set_cond c (\<lambda>x. x\<lparr>c_waiters := w\<rparr>) ((cli s)\<lparr>tcb := t\<rparr>))"
    using wait.hyps(1,5) by (auto simp: cond_wait_enter_def task_get_current_def cli_def Let_def split: option.splits)
  have "m_waiters (mutexes s m) \<noteq> p" using inv_not_waiting(2) [OF wait.prems(1,2) P, of "Mutex m"] by (simp add: wait_head_def)
  then have "tcb s1 p = t p" unfolding s1 by (subst unlock_other) (simp_all add: set_cond_def cli_def)
  then show ?case using block_on_other [OF b] r wait.prems(3) by (simp add: asleep_def s1)
next
  case (wait_yield r s pc m e x s1 H)
  then have i: "sync_inv0 idle ts Q W (s, pc, H)" by (simp add: sync_inv_0)
  then show ?case using timer_asleep [OF i wait_yield.hyps(3) wait_yield.prems(2)] wait_yield.prems(3) by simp
next
  case (signal pc s H c)
  have P: "task_state (tcb s p) = TASK_SLEEPING" using signal.prems by (simp add: asleep_def)
  have "wait_head s (Cond c) \<noteq> p" by (rule inv_not_waiting(2) [OF signal.prems(1,2) P])
  then show ?case using signal_other [of s c p] signal.prems by (simp add: asleep_def wait_head_def)
next
  case (broadcast pc s c s1 H)
  have P: "task_state (tcb s p) = TASK_SLEEPING" using broadcast.prems by (simp add: asleep_def)
  have "p \<notin> set (Q (Cond c))" by (rule inv_not_waiting(3) [OF broadcast.prems(1,2) P])
  then have "tcb s1 p = tcb s p" using inv_broadcast [OF broadcast.prems(1), of c] broadcast.hyps(2) by auto
  moreover have "tick s1 = tick s" "running_task s1 = running_task s"
    using broadcast.hyps(2) by (auto simp: cond_broadcast_def Let_def split: option.splits)
  ultimately show ?case using broadcast.prems(3) by (simp add: asleep_def)
next
  case (snooze r s pc ms s1 H)
  have P: "task_state (tcb s p) = TASK_SLEEPING" using snooze.prems by (simp add: asleep_def)
  have "in_code (pc r)" using snooze by (auto simp: in_code_def)
  then have "r \<noteq> p" using inv_not_waiting(5) [OF snooze.prems(1,2) P] snooze.hyps(1) by simp
  then show ?case using snooze.hyps(1,4) snooze.prems(3)
    by (auto simp: asleep_def sleep_def task_get_current_def set_tcb_def Let_def split: if_splits)
next
  case (snooze_yield r s pc e x s1 H)
  then have i: "sync_inv0 idle ts Q W (s, pc, H)" by (simp add: sync_inv_0)
  then show ?case using timer_asleep [OF i snooze_yield.hyps(3) snooze_yield.prems(2)] snooze_yield.prems(3) by simp
next
  case (tick e s x s1 pc H)
  then have i: "sync_inv0 idle ts Q W (s, pc, H)" by (simp add: sync_inv_0)
  then show ?case using timer_asleep [OF i tick.hyps tick.prems(2)] tick.prems(3) by simp
qed

section \<open>Runs with a number of ticks\<close>

inductive sync_ticks :: "u32 \<Rightarrow> sync_conf \<Rightarrow> nat \<Rightarrow> sync_conf \<Rightarrow> bool" for idle c where
  none: "sync_ticks idle c 0 c"
| other: "sync_ticks idle c k c1 \<Longrightarrow> sync_step idle c1 c2 \<Longrightarrow> tick (fst c2) = tick (fst c1) \<Longrightarrow> sync_ticks idle c k c2"
| tick: "sync_ticks idle c k c1 \<Longrightarrow> sync_step idle c1 c2 \<Longrightarrow> tick (fst c2) = tick (fst c1) + 1 \<Longrightarrow> sync_ticks idle c (Suc k) c2"

lemma ticks_inv: "sync_ticks idle c k c' \<Longrightarrow> sync_inv idle ts Q W c \<Longrightarrow> \<exists>Q W. sync_inv idle ts Q W c'"
  by (induction rule: sync_ticks.induct) (use sync_step_inv in blast)+

lemma ticks_asleep:
  assumes "sync_inv idle ts Q W c" "p \<in> set ts" "asleep (fst c) p n"
  shows "sync_ticks idle c k c' \<Longrightarrow> k < n \<Longrightarrow> asleep (fst c') p (n - k) \<and> (0 < k \<longrightarrow> running_task (fst c') \<noteq> p)"
proof (induction rule: sync_ticks.induct)
  case none
  then show ?case using assms(3) by simp
next
  case (other k c1 c2)
  obtain Q' W' where i: "sync_inv idle ts Q' W' c1" using ticks_inv [OF other.hyps(1) assms(1)] by blast
  have "Suc (n - k - 1) = n - k" using other.prems by simp
  then have "asleep (fst c1) p (Suc (n - k - 1))" using other.IH other.prems by simp
  from step_asleep [OF other.hyps(2) i assms(2) this] other.hyps(3) \<open>Suc (n - k - 1) = n - k\<close>
  have "asleep (fst c2) p (n - k)" "running_task (fst c2) = running_task (fst c1)" by simp_all
  then show ?case using other.IH other.prems by simp
next
  case (tick k c1 c2)
  obtain Q' W' where i: "sync_inv idle ts Q' W' c1" using ticks_inv [OF tick.hyps(1) assms(1)] by blast
  have k: "Suc (n - k - 1) = n - k" using tick.prems by simp
  then have "asleep (fst c1) p (Suc (n - k - 1))" "n - k - 1 \<noteq> 0" using tick.IH tick.prems by simp_all
  from step_asleep [OF tick.hyps(2) i assms(2) this(1)] this(2) tick show ?case by auto
qed

lemma tick_possible:
  assumes "sync_inv idle ts Q W c"
  shows "\<exists>c'. sync_step idle c c' \<and> tick (fst c') = tick (fst c) + 1"
proof -
  obtain s pc H where c: "c = (s, pc, H)" by (cases c)
  have i: "sync_inv0 idle ts Q W (s, pc, H)" using assms by (simp add: c sync_inv_0)
  then obtain x s' where t: "timer_interrupt 0 s = Some (x, s')" using inv_switch [OF i disjI1 [OF refl], of 0] by blast
  moreover have "tick s' = tick s + 1" using t
    by (auto simp: timer_interrupt_def tasks_update_sleep_ticks_def schedule_def set_tcb_def Let_def split: option.splits if_splits)
  ultimately show ?thesis using sync_step.tick [OF t, of idle pc H] by (auto simp: c)
qed

section \<open>Properties\<close>

text \<open>
  C23: how long \<^verbatim>\<open>sleep(ms)\<close> sleeps. In every interleaving with other tasks and ticks the task is asleep, and does not run once
  it has yielded, until there have been \<^verbatim>\<open>ms / 10\<close> ticks, at least one; with that tick it is runnable. Every call of
  the timer routine is a tick, also one by a task that yields, and the first tick of all is the yield of \<^verbatim>\<open>sleep\<close> itself.
  The next tick is always possible.
\<close>

theorem sleep_wakes:
  assumes "sync_start idle ts conf" and "(sync_step idle)\<^sup>*\<^sup>* conf (s, pc, H)"
    and "running_task s \<noteq> idle" and "pc (running_task s) = User"
  shows "\<exists>s1. sleep Some ms s = Some s1 \<and> sync_step idle (s, pc, H) (s1, pc(running_task s := Snoozing), H) \<and>
    (\<forall>k c. sync_ticks idle (s1, pc(running_task s := Snoozing), H) k c \<longrightarrow>
       (k < max 1 (unat ms div 10) \<longrightarrow> task_state (tcb (fst c) (running_task s)) = TASK_SLEEPING \<and>
          (0 < k \<longrightarrow> running_task (fst c) \<noteq> running_task s)) \<and>
       (\<forall>c'. Suc k = max 1 (unat ms div 10) \<and> sync_step idle c c' \<and> tick (fst c') = tick (fst c) + 1 \<longrightarrow>
          runnable (tcb (fst c') (running_task s))) \<and>
       (\<exists>c'. sync_step idle c c' \<and> tick (fst c') = tick (fst c) + 1))"
proof -
  let ?r = "running_task s" and ?n = "max 1 (unat ms div 10)"
  obtain Q W where i: "sync_inv idle ts Q W (s, pc, H)" using reachable_inv [OF assms(1,2)] by blast
  obtain s1 where s1: "sleep Some ms s = Some s1" "sync_inv idle ts Q W (s1, pc(?r := Snoozing), H)"
    using inv_snooze [OF i refl assms(3,4)] by blast
  have i0: "sync_inv0 idle ts Q W (s, pc, H)" using i by (simp add: sync_inv_0)
  have r: "?r \<in> set ts" "?r \<noteq> 0" using inv_running [OF i0] by simp_all
  have a: "asleep s1 ?r ?n" using s1(1) r(2) sleep_ticks_count [of ms]
    by (auto simp: asleep_def sleep_def task_get_current_def set_tcb_def Let_def)
  have "runnable (tcb (fst c') ?r)"
    if w: "sync_ticks idle (s1, pc(?r := Snoozing), H) k c" "Suc k = ?n" "sync_step idle c c'" "tick (fst c') = tick (fst c) + 1" for k c c'
  proof -
    obtain Q' W' where j: "sync_inv idle ts Q' W' c" using ticks_inv [OF w(1) s1(2)] by blast
    have "?n - k = Suc 0" unfolding w(2) [symmetric] by simp
    then have "asleep (fst c) ?r (Suc 0)" using ticks_asleep [OF s1(2) r(1) _ w(1), of ?n] a w(2) by (simp add: Suc_diff_le)
    from step_asleep [OF w(3) j r(1) this] w(4) show ?thesis by auto
  qed
  moreover have "asleep (fst c) ?r (?n - k) \<and> (0 < k \<longrightarrow> running_task (fst c) \<noteq> ?r)"
    if "sync_ticks idle (s1, pc(?r := Snoozing), H) k c" "k < ?n" for k c
    using ticks_asleep [OF s1(2) r(1) _ that(1), of ?n] a that(2) by simp
  moreover have "\<exists>c'. sync_step idle c c' \<and> tick (fst c') = tick (fst c) + 1"
    if "sync_ticks idle (s1, pc(?r := Snoozing), H) k c" for k c
    using ticks_inv [OF that s1(2)] by (elim exE) (rule tick_possible)
  moreover have "sync_step idle (s, pc, H) (s1, pc(?r := Snoozing), H)"
    using assms(3,4) s1(1) by (intro sync_step.snooze [of ?r]) simp_all
  ultimately show ?thesis using s1(1) unfolding asleep_def by (intro exI [of _ s1]) blast
qed

text \<open>Task 48 sleeps for 25 ms: still asleep after one tick, runnable after two.\<close>

theorem sleep_wakes_witness:
  "\<exists>s pc s1 c1 c2. (sync_step 16)\<^sup>*\<^sup>* (demo_sync, \<lambda>_. User, {}) (s, pc, {(32, 100)}) \<and> running_task s = 48 \<and>
     sleep Some 25 s = Some s1 \<and> sync_ticks 16 (s1, pc(48 := Snoozing), {(32, 100)}) 1 c1 \<and>
     task_state (tcb (fst c1) 48) = TASK_SLEEPING \<and> sync_step 16 c1 c2 \<and> runnable (tcb (fst c2) 48)"
proof -
  obtain s pc where r: "(sync_step 16)\<^sup>*\<^sup>* (demo_sync, \<lambda>_. User, {}) (s, pc, {(32, 100)})" "running_task s = 48" "pc 48 = User"
    by (rule demo_handover)
  have n: "max 1 (unat (25 :: u32) div 10) = 2" by simp
  let ?T = "sync_ticks 16" and ?next = "\<lambda>c c'. sync_step 16 c c' \<and> tick (fst c') = tick (fst c) + 1"
  obtain s1 where s1: "sleep Some 25 s = Some s1"
    and T: "\<And>k c. ?T (s1, pc(48 := Snoozing), {(32, 100)}) k c \<Longrightarrow>
      (k < 2 \<longrightarrow> task_state (tcb (fst c) 48) = TASK_SLEEPING) \<and>
      (\<forall>c'. Suc k = 2 \<and> ?next c c' \<longrightarrow> runnable (tcb (fst c') 48)) \<and> (\<exists>c'. ?next c c')"
    using sleep_wakes [OF demo_start r(1), of 25, unfolded n r(2)] r(3) by auto
  let ?c0 = "(s1, pc(48 := Snoozing), {(32, 100)})"
  obtain c1 where c1: "?next ?c0 c1" using T [OF sync_ticks.none] by blast
  then have t1: "?T ?c0 1 c1" using sync_ticks.tick [OF sync_ticks.none, of 16 ?c0 c1] by simp
  obtain c2 where c2: "?next c1 c2" using T [OF t1] by blast
  from T [OF t1] have "\<forall>c'. Suc 1 = 2 \<and> ?next c1 c' \<longrightarrow> runnable (tcb (fst c') 48)" by blast
  then have "runnable (tcb (fst c2) 48)" using c2 by (simp del: split_paired_All)
  moreover from T [OF t1] have "task_state (tcb (fst c1) 48) = TASK_SLEEPING" by simp
  ultimately show ?thesis using r(1,2) s1 t1 c2 by blast
qed

end
