(* ===== verification/Spec2Isabelle.thy ===== *)
theory Spec2Isabelle
  imports Boot_Start Sleeping
begin

text \<open>
  Bab-OS, a 32-bit x86 kernel in C: a buddy allocator of page frames, two-level paging, a heap,
  preemptive round-robin tasks with mutexes, condition variables and monitors, a framebuffer
  terminal, a keyboard, a virtual file system with a ramdisk, and a shell. This development models
  the C code from \<^verbatim>\<open>kmain\<close> on, and the tool that packs the ramdisk, and proves what each part
  promises to the next. Paths below are relative to \<^verbatim>\<open>src/src/\<close>, headers to \<^verbatim>\<open>src/include/\<close>.

  \<^bold>\<open>How the program fits together.\<close> \<^verbatim>\<open>kmain\<close> sets up the descriptor tables and the interrupt handlers,
  the frame allocator, paging, the heap, the interval timer, the screen, the ramdisk and the keyboard;
  it then creates three tasks (producer, consumer, shell), enables interrupts and becomes the idle
  task. From then on everything is driven by interrupts: the timer interrupt advances the
  sleepers and switches tasks, the keyboard interrupt puts characters into a buffer that
  the shell reads. The frame allocator serves paging and the heap; the heap serves tasks, ramdisk and
  shell; task switching is what the waiting of mutexes, condition variables, monitors and
  \<^verbatim>\<open>sleep\<close> rests on.

  \<^bold>\<open>How the code is represented.\<close> A 32-bit integer or a pointer is a \<^typ>\<open>u32\<close>, with the wrap-around
  of the machine; C \<^verbatim>\<open>int\<close> counters that stay in a range are integers. Memory is a function from addresses to bytes. An
  operation takes the state and gives the new one. The result \<^term>\<open>None\<close> stands for a run that does not
  come back or leaves what C defines: a page fault (whose handler loops for ever), a loop that does
  not end, a font index outside of the table, a call through a pointer to no function. Loops
  without a bound in the code are \<^theory_text>\<open>partial_function (option)\<close>, so no fuel is needed anywhere, and a
  statement that code returns is a statement that the result is \<open>Some\<close>.

  There are two views of memory. Page tables live in physical memory (\<open>phys\<close>) and every access of
  the paging code goes through the translation of the processor. All other code works on
  memory by virtual address (\<open>hmem\<close>, \<open>vmem\<close>); \<open>Kheap\<close> shows that this is sound for the heap,
  because every heap page is mapped, to a frame of its own. This memory has a byte at every address: a page
  fault is a result of the paging code only, and where other code runs out of the mapped pages (a read of
  the ramdisk whose offset and size wrap around) the theorem says which addresses it asks for. The screen and
  the heap share one memory; task control blocks, mutexes and condition variables are
  records by address.

  \<^bold>\<open>Arguments.\<close> What is not in the C code is an argument of the definitions: addresses the linker chooses
  (string literals, functions, local arrays), the scancode and \<^verbatim>\<open>cr2\<close> the hardware supplies, the
  masks read back from the interrupt controllers, and, inside one call, what happens between giving up the
  processor and getting it back (\<open>yield\<close>). For mutexes and condition variables the
  interleaving machine of \<open>Sync_Machine\<close> replaces that argument by the timer interrupt and
  the steps of all other tasks; \<open>yields\<close> says that a given \<open>yield\<close> is what the machine does from the configurations
  in which the call checks the mutex, other tasks giving the mutex back included.

  \<^bold>\<open>The theories\<close>, in the order in which they build on each other:

  \<^item> \<open>Prelude\<close>: C types, byte memory, 32-bit accesses, separated ranges, alignment. \<open>Chain\<close>: linked
    lists through a next pointer. \<open>Fifo\<close>: the contract of a queue. \<open>Ring\<close>: ring buffers.
    \<open>Page_Arith\<close>: addresses of pages.

  \<^item> \<open>Buddy_Spec\<close>, \<open>Pmm\<close> (\<^verbatim>\<open>kernel/mm/pmm.c\<close>): the abstract buddy system on sets of blocks, and
    the allocator pointer by pointer with its twelve doubly linked lists. Shown: every operation is
    the abstract one; requests are served with free aligned blocks exactly when there is
    one; freeing merges completely; nothing is lost along any history.

  \<^item> \<open>Cstring\<close>, \<open>Cstdlib\<close> (\<^verbatim>\<open>common/string.c\<close>, \<^verbatim>\<open>common/stdlib.c\<close>): the string routines, \<^verbatim>\<open>abs\<close>, and
    \<^verbatim>\<open>itoa\<close>, equal to the usual numeral in every supported base.

  \<^item> \<open>Paging\<close>, \<open>Vmm\<close> (\<^verbatim>\<open>kernel/mm/vmm.c\<close>): page tables in memory and the walk of the processor; mapping a
    page changes the translation of that page only; \<^verbatim>\<open>vmm_init\<close> builds the intended address space;
    what the unchecked \<^verbatim>\<open>NULL\<close> of the allocator does.

  \<^item> \<open>Heap_Blocks\<close>, \<open>Kheap\<close>, \<open>Heap_Client\<close> (\<^verbatim>\<open>kernel/mm/kheap.c\<close>): headers, walk, split and merge on
    the bytes, refined to a list of blocks; initialisation and growth with fresh frames; the
    contract for users of the heap, any history of requests, writes and frees, and the case in which
    \<^verbatim>\<open>kmalloc_a\<close> takes all the frames and does not return.

  \<^item> \<open>Task\<close> (\<^verbatim>\<open>kernel/task.c\<close>, the messages of \<^verbatim>\<open>task_init\<close> and \<^verbatim>\<open>task_create\<close> are in \<open>Boot\<close>): the task ring, new tasks with the frame from which the interrupt
    return starts them, the scheduler: round robin, fair, and what it does when no task is runnable.

  \<^item> \<open>Devices\<close>, \<open>Timer\<close> (\<^verbatim>\<open>kernel/gdt.c\<close>, \<^verbatim>\<open>kernel/sys/idt.c\<close>, \<^verbatim>\<open>kernel/drivers/pic.c\<close>,
    \<^verbatim>\<open>isr_install\<close>, \<^verbatim>\<open>kernel/drivers/timer.c\<close>): descriptor tables, port output as a log, the divisor
    of the timer, and that the outputs initialise the interrupt controllers, by the state machine of their
    initialisation.

  \<^item> \<open>Sync\<close>, \<open>Sync_Machine\<close> (\<^verbatim>\<open>kernel/mutex.c\<close>, \<^verbatim>\<open>kernel/cond.c\<close>, \<^verbatim>\<open>kernel/monitor.c\<close>): the operations, and
    the machine that interleaves any tasks using them with ticks. Invariants over all runs:
    mutual exclusion, no lost wakeups, a blocked task is in exactly one queue; a call of
    \<^verbatim>\<open>mutex_lock\<close> is a run of the machine. The machine has an idle task that never waits; a keyboard interrupt is covered
    where it interrupts a task in its own code and does not make the idle task wait. \<open>Sleeping\<close>: in this machine,
    how many calls of the timer routine \<^verbatim>\<open>sleep\<close> sleeps, each \<^verbatim>\<open>task_yield\<close> being one of them.

  \<^item> \<open>Font\<close>, \<open>Terminal\<close>, \<open>Terminal_Output\<close> (\<^verbatim>\<open>kernel/font.c\<close>, \<^verbatim>\<open>kernel/terminal.c\<close>): pixels, glyphs, scrolling
    and \<^verbatim>\<open>printf\<close>; ASCII output stays inside of the framebuffer; \<^verbatim>\<open>printf\<close> shows the formatted text.

  \<^item> \<open>Keyboard\<close>, \<open>Interrupts\<close> (\<^verbatim>\<open>kernel/drivers/keyboard.c\<close>, \<^verbatim>\<open>kernel/sys/isr.c\<close>, the handler in
    \<^verbatim>\<open>vmm.c\<close>): decoding, the buffer as a bounded queue, the deadlock of an interrupt inside of the
    monitor; dispatch, exception messages, acknowledgement.

  \<^item> \<open>Vfs\<close>, \<open>Initrd\<close>, \<open>Initrd_Mount\<close>, \<open>Initrd_Ops\<close> (\<^verbatim>\<open>kernel/vfs.c\<close>, \<^verbatim>\<open>kernel/initrd.c\<close>,
    \<^verbatim>\<open>tools/mkinitrd.py\<close>): nodes in memory, mounting, and that what the tool packs is what
    the kernel finds, lists and reads.

  \<^item> \<open>Shell\<close>, \<open>Shell_Files\<close>, \<open>Shell_Commands\<close>, \<open>Shell_Session\<close> (\<^verbatim>\<open>shell_task\<close> in \<^verbatim>\<open>kernel/main.c\<close>): line
    editing and commands; a whole session: the greeting and the answer to every line, with the heap
    keeping its room. Names and lines are ASCII; a file that is shown has bytes from 1 to 0x7F, the ones the font has
    glyphs for, other files may have any.

  \<^item> \<open>Bounded_Buffer\<close> (\<^verbatim>\<open>producer\<close> and \<^verbatim>\<open>consumer\<close> in \<^verbatim>\<open>kernel/main.c\<close>): the two loops inside of the
    machine of \<open>Sync_Machine\<close>; order of items, bounds of the buffer, no mutual waiting.

  \<^item> \<open>Boot\<close>, \<open>Boot_Tasks\<close>, \<open>Boot_Start\<close> (\<^verbatim>\<open>kmain\<close>): all parts on one state, from the machine the boot loader
    leaves to the idle loop, with every message on the screen; the end state is one the properties of the buffer and of the
    shell start from.

  \<^bold>\<open>Interfaces.\<close> What one part needs of another is a locale, interpreted where the provider is:
  \<open>frame_source\<close> by the allocator (used by paging and the heap), \<open>heap_source\<close> by the heap (used for
  tasks), \<open>fifo\<close> by the wait queues, \<open>bounded_fifo\<close> by the keyboard buffer, \<open>file_tree\<close> by the
  ramdisk (used by the shell).

  \<^bold>\<open>Bounds.\<close> Orders are below 12 and frame indices below \<open>2 ^ 20\<close>, from the code. The start needs
  \<open>184\<close> bytes per file and \<open>12994\<close> bytes more in the first megabyte of the heap; \<open>boot_ready\<close> says this and all
  else the boot loader and the linker have to provide, and a concrete machine satisfies it.
  The description of the video mode is read when the terminal starts; nothing later writes to its page.

  \<^bold>\<open>Not modelled.\<close> The boot sectors and the assembly stubs (assembly that runs before \<^verbatim>\<open>kmain\<close>, and around
  the C handlers to save and restore registers); the devices behind the ports; the endless \<^verbatim>\<open>hlt\<close> loop
  as code (it is the idle task of the machine); prototypes in headers; what an interrupt does between two
  instructions of code that is not part of an interleaving machine.
\<close>

end
